(* ===== verification/Go_Prelude.thy ===== *)
theory Go_Prelude
  imports Main "HOL-Library.Word" "HOL-Library.Char_ord"
begin

text \<open>
  Shared vocabulary of the development: the Go types the servers use (bytes, \<open>int64\<close> with
  its wrap-around, decimal formatting as \<open>strconv.AppendInt\<close> does it), \<open>copy\<close> on slices,
  masks of power-of-two tables, and the list and arithmetic lemmas that several components need.
\<close>

unbundle bit_operations_syntax

named_theorems go_simps \<open>evaluation rules for Go's integer and slice primitives\<close>
named_theorems go_defs \<open>definitions that are unfolded when a concrete input is evaluated\<close>

section \<open>Bytes and strings\<close>

text \<open>A Go \<open>byte\<close> is an Isabelle \<open>char\<close> (exactly 256 values, ordered by their code);
  \<open>[]byte\<close> and \<open>string\<close> are lists of them.\<close>

type_synonym byte = char
type_synonym bytes = "char list"

definition CR :: byte where "CR = CHR 0x0D"
definition LF :: byte where "LF = CHR 0x0A"
definition crlf :: bytes where "crlf = [CR, LF]"

abbreviation bval :: "byte \<Rightarrow> nat" where "bval c \<equiv> of_char c"

definition is_digit :: "byte \<Rightarrow> bool" where
  "is_digit c \<longleftrightarrow> CHR ''0'' \<le> c \<and> c \<le> CHR ''9''"

lemma char_le_iff [go_simps]: "c \<le> d \<longleftrightarrow> bval c \<le> bval d"
  by (simp add: less_eq_char_def)

lemma char_less_iff [go_simps]: "c < d \<longleftrightarrow> bval c < bval d"
  by (simp add: less_char_def)

lemma is_digit_iff: "is_digit c \<longleftrightarrow> 48 \<le> bval c \<and> bval c \<le> 57"
  by (simp add: is_digit_def char_le_iff)

lemma bval_less_256 [simp]: "bval c < 256"
  using of_char_of [of "bval c"] by (metis of_char_mod_256 mod_less_divisor zero_less_numeral)

lemma bval_eq_iff: "bval c = bval d \<longleftrightarrow> c = d"
  by simp

lemma bval_eq_char_of: "n < 256 \<Longrightarrow> bval c = n \<longleftrightarrow> c = char_of n"
  by (metis of_char_of char_of_char mod_less)

lemma char_of_48: "char_of (48 :: nat) = CHR ''0''"
  by code_simp

lemma bval_48_iff: "bval c = 48 \<longleftrightarrow> c = CHR ''0''"
  by (simp add: bval_eq_char_of char_of_48)

section \<open>Signed 64-bit integers\<close>

definition maxInt64 :: int where "maxInt64 = 2 ^ 63 - 1"
definition minInt64 :: int where "minInt64 = - (2 ^ 63)"

definition wrap64 :: "int \<Rightarrow> int" where
  "wrap64 x = (x + 2 ^ 63) mod 2 ^ 64 - 2 ^ 63"

definition in64 :: "int \<Rightarrow> bool" where
  "in64 x \<longleftrightarrow> minInt64 \<le> x \<and> x \<le> maxInt64"

lemma in64_iff: "in64 x \<longleftrightarrow> - (2 ^ 63) \<le> x \<and> x < 2 ^ 63"
  by (auto simp: in64_def minInt64_def maxInt64_def)

lemma wrap64_id [simp]: "in64 x \<Longrightarrow> wrap64 x = x"
  by (simp add: in64_iff wrap64_def)

lemma in64_wrap64 [simp]: "in64 (wrap64 x)"
proof -
  have "0 \<le> (x + 2 ^ 63) mod 2 ^ 64" "(x + 2 ^ 63) mod 2 ^ 64 < (2 ^ 64 :: int)"
    by simp_all
  then show ?thesis unfolding in64_iff wrap64_def by simp
qed

lemma in64_small: "0 \<le> x \<Longrightarrow> x \<le> 2 ^ 62 \<Longrightarrow> in64 x"
  by (simp add: in64_iff)

section \<open>Decimal formatting: strconv.AppendInt in base 10\<close>

definition digit_char :: "nat \<Rightarrow> byte" where
  "digit_char d = char_of (48 + d)"

fun udigits :: "nat \<Rightarrow> bytes" where
  "udigits n = (if n < 10 then [digit_char n] else udigits (n div 10) @ [digit_char (n mod 10)])"

declare udigits.simps [simp del]

definition itoa :: "int \<Rightarrow> bytes" where
  "itoa n = (if n < 0 then CHR ''-'' # udigits (nat (- n)) else udigits (nat n))"

definition digit_val :: "byte \<Rightarrow> nat" where
  "digit_val c = bval c - 48"

definition dec_val :: "bytes \<Rightarrow> nat" where
  "dec_val ds = foldl (\<lambda>n c. n * 10 + digit_val c) 0 ds"

lemma bval_digit_char [simp]: "d < 10 \<Longrightarrow> bval (digit_char d) = 48 + d"
  by (simp add: digit_char_def of_char_of)

lemma digit_val_digit_char [simp]: "d < 10 \<Longrightarrow> digit_val (digit_char d) = d"
  by (simp add: digit_val_def)

lemma is_digit_digit_char [simp]: "d < 10 \<Longrightarrow> is_digit (digit_char d)"
  by (simp add: is_digit_iff)

lemma dec_val_Nil [simp]: "dec_val [] = 0"
  by (simp add: dec_val_def)

lemma dec_val_snoc [simp]: "dec_val (ds @ [c]) = dec_val ds * 10 + digit_val c"
  by (simp add: dec_val_def)

lemma udigits_not_Nil [simp]: "udigits n \<noteq> []"
  by (subst udigits.simps) simp

lemma udigits_digits: "\<forall>c \<in> set (udigits n). is_digit c"
proof (induction n rule: udigits.induct)
  case (1 n)
  then show ?case by (subst udigits.simps) auto
qed

lemma dec_val_udigits [simp]: "dec_val (udigits n) = n"
proof (induction n rule: udigits.induct)
  case (1 n)
  show ?case
  proof (cases "n < 10")
    case True
    then show ?thesis by (subst udigits.simps) (simp add: dec_val_def)
  next
    case False
    then have "dec_val (udigits n) = dec_val (udigits (n div 10)) * 10 + n mod 10"
      by (subst udigits.simps) simp
    with 1 False show ?thesis by simp
  qed
qed

lemma udigits_bound: "n < 10 ^ k \<Longrightarrow> 0 < k \<Longrightarrow> length (udigits n) \<le> k"
proof (induction k arbitrary: n)
  case (Suc k)
  show ?case
  proof (cases "n < 10")
    case True
    then show ?thesis by (subst udigits.simps) simp
  next
    case False
    with Suc.prems have "n div 10 < 10 ^ k" "0 < k"
      by (auto simp: less_mult_imp_div_less mult.commute intro!: Nat.gr0I)
    then have "length (udigits (n div 10)) \<le> k" by (rule Suc.IH)
    with False show ?thesis by (subst udigits.simps) simp
  qed
qed simp

lemma udigits_hd_nonzero: "0 < n \<Longrightarrow> hd (udigits n) \<noteq> CHR ''0''"
proof (induction n rule: udigits.induct)
  case (1 n)
  show ?case
  proof (cases "n < 10")
    case True
    then have "bval (digit_char n) \<noteq> 48" using 1 by simp
    then have "digit_char n \<noteq> CHR ''0''" by auto
    with True show ?thesis by (subst udigits.simps) simp
  next
    case False
    then have "hd (udigits (n div 10)) \<noteq> CHR ''0''" using 1 by simp
    with False show ?thesis by (subst udigits.simps) simp
  qed
qed

section \<open>Slices\<close>

text \<open>\<open>copy(dst, src)\<close>: overwrites \<open>min(len dst, len src)\<close> bytes of \<open>dst\<close>.\<close>

definition go_copy :: "'a list \<Rightarrow> 'a list \<Rightarrow> 'a list" where
  "go_copy dst src = take (length dst) src @ drop (length src) dst"

lemma length_go_copy [simp]: "length (go_copy dst src) = length dst"
  by (simp add: go_copy_def)

lemma go_copy_fits: "length src \<le> length dst \<Longrightarrow> take (length src) (go_copy dst src) = src"
  by (simp add: go_copy_def)

section \<open>Masks of power-of-two tables\<close>

definition pow2 :: "nat \<Rightarrow> bool" where
  "pow2 n \<longleftrightarrow> (\<exists>k. n = 2 ^ k)"

lemma pow2_pos [simp]: "pow2 n \<Longrightarrow> 0 < n"
  by (auto simp: pow2_def)

lemma pow2_double [simp]: "pow2 n \<Longrightarrow> pow2 (n * 2)"
  by (auto simp: pow2_def) (metis power_Suc mult.commute)

lemma pow2_8 [simp]: "pow2 8"
  unfolding pow2_def by (rule exI [of _ 3]) simp

lemma and_mask_mod: "pow2 n \<Longrightarrow> (x :: nat) AND (n - 1) = x mod n"
proof -
  assume "pow2 n"
  then obtain k where n: "n = 2 ^ k" by (auto simp: pow2_def)
  have "x AND (2 ^ k - 1) = take_bit k x"
    by (simp add: take_bit_eq_mask mask_eq_exp_minus_1)
  with n show ?thesis by (simp add: take_bit_eq_mod)
qed

lemma and_mask_mod_int: "pow2 n \<Longrightarrow> (x :: int) AND (int n - 1) = x mod int n"
proof -
  assume "pow2 n"
  then obtain k where n: "n = 2 ^ k" by (auto simp: pow2_def)
  have "x AND (2 ^ k - 1) = take_bit k x"
    by (simp add: take_bit_eq_mask mask_eq_exp_minus_1)
  with n show ?thesis by (simp add: take_bit_eq_mod)
qed

lemma mod_add_less: "a < n \<Longrightarrow> b \<le> n \<Longrightarrow> (a + b) mod n = (if a + b < n then a + b else a + b - n)" for a b n :: nat
  by (simp add: le_mod_geq)

section \<open>Counting under an update\<close>

lemma length_filter_update:
  "i < length xs \<Longrightarrow> length (filter P (xs[i := v])) + (if P (xs ! i) then 1 else 0) =
     length (filter P xs) + (if P v then 1 else 0)"
proof (induction xs arbitrary: i)
  case (Cons x xs)
  then show ?case by (cases i) auto
qed simp

end
