(* ===== verification/Size_Class.thy ===== *)
theory Size_Class
  imports Go_Prelude
begin

text \<open>
  The size classes of the off-heap allocator (\<open>redis/impl/go-1/alloc.go\<close>): the table built by
  \<open>init\<close>, the lookup array filled from it, and \<open>classOf\<close>. All sizes are numbers of bytes.
\<close>

definition maxSmall :: nat where "maxSmall = 65536"
definition clsBig :: nat where "clsBig = 255"
definition arenaChunk :: nat where "arenaChunk = 67108864"
definition blockSize :: nat where "blockSize = 65536"

text \<open>\<open>x &^ m\<close> on non-negative integers.\<close>

definition and_not :: "nat \<Rightarrow> nat \<Rightarrow> nat" where
  "and_not x m = x - (x AND m)"

text \<open>The two loops of \<open>init\<close>: 32, 48, ... 256 and then steps of one eighth, rounded up to a multiple
  of 16 and capped. The test \<open>0 < s\<close> only makes the recursion total; the loop starts at 256.\<close>

definition class_step :: "nat \<Rightarrow> nat" where
  "class_step s = (let s1 = and_not (s + s div 8 + 15) 15 in if s1 > maxSmall then maxSmall else s1)"

lemma and_not_mod: "pow2 n \<Longrightarrow> and_not x (n - 1) = x - x mod n"
  unfolding and_not_def by (simp only: and_mask_mod)

lemma and_not_15: "and_not x 15 = x - x mod 16"
proof -
  have "pow2 16" unfolding pow2_def by (rule exI [of _ 4]) simp
  from and_not_mod [OF this] show ?thesis by simp
qed

lemma class_step_grows: "16 \<le> s \<Longrightarrow> s < maxSmall \<Longrightarrow> s < class_step s"
proof -
  assume "16 \<le> s" "s < maxSmall"
  moreover have "(s + s div 8 + 15) - (s + s div 8 + 15) mod 16 \<ge> s + s div 8"
    using mod_less_divisor [of 16 "s + s div 8 + 15"] by linarith
  moreover have "1 \<le> s div 8" using \<open>16 \<le> s\<close> by linarith
  ultimately show ?thesis unfolding class_step_def Let_def and_not_15 by (auto simp del: One_nat_def)
qed

function class_seq :: "nat \<Rightarrow> nat list" where
  "class_seq s = (if 16 \<le> s \<and> s < maxSmall then class_step s # class_seq (class_step s) else [])"
  by auto
termination
proof (relation "measure (\<lambda>s. maxSmall - s)")
  fix s :: nat assume "16 \<le> s \<and> s < maxSmall"
  then show "(class_step s, s) \<in> measure (\<lambda>s. maxSmall - s)" using class_step_grows [of s] by auto
qed simp

declare class_seq.simps [simp del]

definition classSize :: "nat list" where
  "classSize = map (\<lambda>i. 32 + 16 * i) [0..<15] @ class_seq 256"

text \<open>The loop that fills \<open>classLookup\<close>: \<open>ci\<close> only moves forward. Running past the table would be an
  index panic; it cannot happen because the last class is \<open>maxSmall\<close>.\<close>

function advance_ci :: "nat \<Rightarrow> nat \<Rightarrow> nat" where
  "advance_ci ci n = (if ci < length classSize \<and> classSize ! ci < n then advance_ci (ci + 1) n else ci)"
  by auto
termination by (relation "measure (\<lambda>(ci, n). length classSize - ci)") auto

declare advance_ci.simps [simp del]

primrec lookup_from :: "nat \<Rightarrow> nat \<Rightarrow> nat \<Rightarrow> nat list" where
  "lookup_from 0 ci i = []"
| "lookup_from (Suc k) ci i =
     (let ci' = advance_ci ci (i * 16) in (ci' mod 256) # lookup_from k ci' (i + 1))"

definition classLookup :: "nat list" where
  "classLookup = lookup_from (maxSmall div 16 + 1) 0 0"

definition classOf :: "nat \<Rightarrow> nat" where
  "classOf n = classLookup ! ((n + 15) div 16)"

section \<open>The table\<close>

lemma class_seq_go: "16 \<le> s \<Longrightarrow> s < maxSmall \<Longrightarrow> class_seq s = class_step s # class_seq (class_step s)"
  by (subst class_seq.simps) simp

lemma class_seq_stop: "class_seq 65536 = []"
  by (subst class_seq.simps) (simp add: maxSmall_def)

lemma class_seq_256: "class_seq 256 =
  [288, 336, 384, 432, 496, 560, 640, 720, 816, 928, 1056, 1200, 1360, 1536, 1728, 1952, 2208, 2496, 2816,
   3168, 3568, 4016, 4528, 5104, 5744, 6464, 7280, 8192, 9216, 10368, 11664, 13136, 14784, 16640, 18720, 21072,
   23712, 26688, 30032, 33792, 38016, 42768, 48128, 54144, 60912, 65536]"
  by (simp add: class_seq_go class_seq_stop class_step_def and_not_15 maxSmall_def)

lemma classSize_eq: "classSize =
  [32, 48, 64, 80, 96, 112, 128, 144, 160, 176, 192, 208, 224, 240, 256,
   288, 336, 384, 432, 496, 560, 640, 720, 816, 928, 1056, 1200, 1360, 1536, 1728, 1952, 2208, 2496, 2816,
   3168, 3568, 4016, 4528, 5104, 5744, 6464, 7280, 8192, 9216, 10368, 11664, 13136, 14784, 16640, 18720, 21072,
   23712, 26688, 30032, 33792, 38016, 42768, 48128, 54144, 60912, 65536]"
  unfolding classSize_def class_seq_256 by (simp add: upt_rec)

lemma length_classSize [simp]: "length classSize = 61"
  by (simp add: classSize_eq)

lemma sorted_classSize: "sorted_wrt (<) classSize"
  by (simp add: classSize_eq)

lemma classSize_bounds: "s \<in> set classSize \<Longrightarrow> 32 \<le> s \<and> s \<le> maxSmall"
  by (auto simp: classSize_eq maxSmall_def)

lemma classSize_last: "classSize ! 60 = maxSmall"
  by (simp add: classSize_eq maxSmall_def)

lemma classSize_nth_bounds: "c < 61 \<Longrightarrow> 32 \<le> classSize ! c \<and> classSize ! c \<le> maxSmall"
  by (rule classSize_bounds) simp

section \<open>The lookup array\<close>

text \<open>The reference definition: the index of the first class that is large enough.\<close>

definition first_fit :: "nat \<Rightarrow> nat" where
  "first_fit n = length (takeWhile (\<lambda>s. s < n) classSize)"

lemma first_fit_less: "i < first_fit n \<Longrightarrow> classSize ! i < n"
  unfolding first_fit_def using nth_mem takeWhile_nth [of i "\<lambda>s. s < n" classSize]
  by (metis set_takeWhileD)

lemma first_fit_ge: "first_fit n < 61 \<Longrightarrow> n \<le> classSize ! first_fit n"
  using nth_length_takeWhile [of "\<lambda>s. s < n" classSize] by (simp add: first_fit_def)

lemma first_fit_bound: "n \<le> maxSmall \<Longrightarrow> first_fit n < 61"
proof (rule ccontr)
  assume "n \<le> maxSmall" "\<not> first_fit n < 61"
  then have "classSize ! 60 < n" by (intro first_fit_less) simp
  with \<open>n \<le> maxSmall\<close> show False by (simp add: classSize_last)
qed

lemma first_fit_mono: "m \<le> n \<Longrightarrow> first_fit m \<le> first_fit n"
proof (rule ccontr)
  assume "m \<le> n" "\<not> first_fit m \<le> first_fit n"
  then have lt: "first_fit n < first_fit m" by simp
  then have "classSize ! first_fit n < m" by (rule first_fit_less)
  moreover have "first_fit m \<le> 61" using length_takeWhile_le [of "\<lambda>s. s < m" classSize] by (simp add: first_fit_def)
  then have "n \<le> classSize ! first_fit n" using lt by (intro first_fit_ge) simp
  ultimately show False using \<open>m \<le> n\<close> by simp
qed

lemma advance_ci_first_fit: "ci \<le> first_fit n \<Longrightarrow> n \<le> maxSmall \<Longrightarrow> advance_ci ci n = first_fit n"
proof (induction ci n rule: advance_ci.induct)
  case (1 ci n)
  show ?case
  proof (cases "ci = first_fit n")
    case True
    then have "\<not> classSize ! ci < n" using first_fit_ge [of n] first_fit_bound [of n] 1 by simp
    with True show ?thesis by (subst advance_ci.simps) simp
  next
    case False
    then have "ci < first_fit n" using 1 by simp
    then have "classSize ! ci < n" "ci < 61" using first_fit_less first_fit_bound [of n] 1 by auto
    with False 1 show ?thesis by (subst advance_ci.simps) simp
  qed
qed

lemma lookup_from_nth:
  "j < k \<Longrightarrow> (i + k) * 16 \<le> maxSmall + 16 \<Longrightarrow> ci \<le> first_fit (i * 16) \<Longrightarrow>
     lookup_from k ci i ! j = first_fit ((i + j) * 16)"
proof (induction k arbitrary: ci i j)
  case (Suc k)
  have fit: "advance_ci ci (i * 16) = first_fit (i * 16)" "first_fit (i * 16) < 256"
    using advance_ci_first_fit [OF Suc.prems(3)] first_fit_bound [of "i * 16"] Suc.prems by auto
  show ?case
  proof (cases j)
    case 0
    then show ?thesis using fit by (simp add: Let_def)
  next
    case (Suc j')
    have "first_fit (i * 16) \<le> first_fit ((i + 1) * 16)" by (rule first_fit_mono) simp
    then show ?thesis using Suc.IH [of j' "i + 1" "first_fit (i * 16)"] Suc.prems Suc fit
      by (simp add: Let_def algebra_simps)
  qed
qed simp

lemma classOf_first_fit: "n \<le> maxSmall \<Longrightarrow> classOf n = first_fit ((n + 15) div 16 * 16)"
proof -
  assume "n \<le> maxSmall"
  then have "(n + 15) div 16 < 4097" by (simp add: maxSmall_def)
  then show ?thesis using lookup_from_nth [of "(n + 15) div 16" 4097 0 0]
    by (simp add: classOf_def classLookup_def maxSmall_def)
qed

lemma classOf_fits:
  assumes "n \<le> maxSmall"
  shows "classOf n < 61" "n \<le> classSize ! classOf n"
proof -
  let ?m = "(n + 15) div 16 * 16"
  have "?m \<le> (maxSmall + 15) div 16 * 16" using assms by (intro mult_le_mono1 div_le_mono) simp
  then have m: "?m \<le> maxSmall" by (simp add: maxSmall_def)
  have "n \<le> ?m" using div_mult_mod_eq [of "n + 15" 16] mod_less_divisor [of 16 "n + 15"] by linarith
  then show "classOf n < 61" "n \<le> classSize ! classOf n"
    using first_fit_bound [OF m] first_fit_ge [of ?m] classOf_first_fit [OF assms] by auto
qed

text \<open>\<^bold>\<open>C27\<close> The class table is right. For every small size, \<open>classOf\<close> names a class that exists,
  whose cells are large enough, and no smaller class would do: the lookup array filled by one forward
  scan is the first-fit search over the table. There are 61 classes, within the 80 the shard has room
  for, and they grow strictly up to \<open>maxSmall\<close>.\<close>

theorem classOf_correct:
  assumes "n \<le> maxSmall"
  shows "classOf n < length classSize \<and> n \<le> classSize ! classOf n
    \<and> (\<forall>c < classOf n. classSize ! c < n) \<and> length classSize \<le> 80 \<and> sorted_wrt (<) classSize"
proof -
  let ?m = "(n + 15) div 16 * 16"
  have "classSize ! c < n" if "c < classOf n" for c
  proof (rule ccontr)
    assume "\<not> classSize ! c < n"
    have c: "classSize ! c < ?m" using that classOf_first_fit [OF assms] first_fit_less [of c ?m] by simp
    have "c < 61" using that classOf_fits [OF assms] by simp
    then have "classSize ! c mod 16 = 0"
    proof -
      have "\<forall>s \<in> set classSize. s mod 16 = 0" by (simp add: classSize_eq)
      then show ?thesis using \<open>c < 61\<close> by simp
    qed
    then obtain q where "classSize ! c = 16 * q" by (metis mult_div_mod_eq add.right_neutral)
    with c \<open>\<not> classSize ! c < n\<close> have "16 * q < ?m" "n \<le> 16 * q" by auto
    from div_le_mono [OF this(2), of 16] div_le_mono [of "n + 15" "16 * q + 15" 16] this
    show False by simp
  qed
  then show ?thesis using classOf_fits [OF assms] sorted_classSize by simp
qed

theorem classOf_correct_witness: "300 \<le> classSize ! classOf 300 \<and> classOf 300 < length classSize"
  using classOf_correct [of 300] by (simp add: maxSmall_def)

end
