(* ===== verification/Ring_List.thy ===== *)
theory Ring_List
  imports Go_Prelude
begin

text \<open>
  The list values of mini-redis (\<open>listObj\<close> in \<open>redis/impl/go-1/store.go\<close> and \<open>commands.go\<close>): a
  ring buffer whose capacity is a power of two. The locale \<open>deque\<close> is the contract the list
  commands rely on; the ring buffer is its interpretation.
\<close>

section \<open>The ring buffer\<close>

record listObj =
  lbuf :: "bytes list"
  lhead :: nat
  ln :: nat
  lcost :: int

definition new_listObj :: listObj where
  "new_listObj = \<lparr>lbuf = [], lhead = 0, ln = 0, lcost = 0\<rparr>"

definition list_at :: "listObj \<Rightarrow> nat \<Rightarrow> bytes" where
  "list_at l i = lbuf l ! ((lhead l + i) AND (length (lbuf l) - 1))"

definition list_resize :: "listObj \<Rightarrow> nat \<Rightarrow> listObj" where
  "list_resize l n =
     l\<lparr>lbuf := map (\<lambda>i. if i < ln l then list_at l i else []) [0..<n], lhead := 0\<rparr>"

definition list_push :: "listObj \<Rightarrow> bytes \<Rightarrow> bool \<Rightarrow> listObj" where
  "list_push l0 v front =
     (let l = (if ln l0 = length (lbuf l0) then list_resize l0 (max 4 (length (lbuf l0) * 2)) else l0);
          mask = length (lbuf l) - 1
      in if front
         then let h = nat ((int (lhead l) - 1) AND int mask)
              in l\<lparr>lhead := h, lbuf := (lbuf l)[h := v], ln := ln l + 1\<rparr>
         else l\<lparr>lbuf := (lbuf l)[(lhead l + ln l) AND mask := v], ln := ln l + 1\<rparr>)"

definition list_shrink :: "listObj \<Rightarrow> listObj" where
  "list_shrink l =
     (if length (lbuf l) > 16 \<and> ln l < length (lbuf l) div 4
      then list_resize l (length (lbuf l) div 2) else l)"

definition list_pop :: "listObj \<Rightarrow> bool \<Rightarrow> listObj \<times> bytes" where
  "list_pop l front =
     (let mask = length (lbuf l) - 1;
          i = (if front then lhead l else (lhead l + ln l - 1) AND mask);
          v = lbuf l ! i;
          l1 = l\<lparr>lhead := (if front then (lhead l + 1) AND mask else lhead l),
                 lbuf := (lbuf l)[i := []], ln := ln l - 1\<rparr>
      in (list_shrink l1, v))"

text \<open>The pop loop of \<open>cmdPop\<close>: \<open>k\<close> elements in the order they are popped.\<close>

fun pop_many :: "('q \<Rightarrow> bool \<Rightarrow> 'q \<times> 'a) \<Rightarrow> bool \<Rightarrow> nat \<Rightarrow> 'q \<Rightarrow> 'q \<times> 'a list" where
  "pop_many pop front 0 q = (q, [])"
| "pop_many pop front (Suc k) q =
     (let r = pop q front; rest = pop_many pop front k (fst r)
      in (fst rest, snd r # snd rest))"

section \<open>The contract of a double-ended queue\<close>

locale deque =
  fixes invar :: "'q \<Rightarrow> bool"
    and elems :: "'q \<Rightarrow> 'a list"
    and push :: "'q \<Rightarrow> 'a \<Rightarrow> bool \<Rightarrow> 'q"
    and pop :: "'q \<Rightarrow> bool \<Rightarrow> 'q \<times> 'a"
  assumes push_invar: "invar q \<Longrightarrow> invar (push q v front)"
    and push_elems: "invar q \<Longrightarrow> elems (push q v front) = (if front then v # elems q else elems q @ [v])"
    and pop_invar: "invar q \<Longrightarrow> elems q \<noteq> [] \<Longrightarrow> invar (fst (pop q front))"
    and pop_front: "invar q \<Longrightarrow> elems q = v # vs \<Longrightarrow> elems (fst (pop q True)) = vs \<and> snd (pop q True) = v"
    and pop_back: "invar q \<Longrightarrow> elems q = vs @ [v] \<Longrightarrow> elems (fst (pop q False)) = vs \<and> snd (pop q False) = v"
begin

lemma push_all:
  "invar q \<Longrightarrow> invar (foldl (\<lambda>q v. push q v front) q vs) \<and>
     elems (foldl (\<lambda>q v. push q v front) q vs) = (if front then rev vs @ elems q else elems q @ vs)"
proof (induction vs arbitrary: q)
  case (Cons v vs)
  from push_invar [OF Cons.prems, of v front]
  have inv: "invar (push q v front)" .
  from Cons.IH [OF inv] show ?case by (simp add: push_elems [OF Cons.prems])
qed simp

lemma pop_all:
  assumes "invar q" "k \<le> length (elems q)"
  shows "invar (fst (pop_many pop front k q))"
    and "snd (pop_many pop front k q) = take k (if front then elems q else rev (elems q))"
    and "elems (fst (pop_many pop front k q)) =
           (if front then drop k (elems q) else take (length (elems q) - k) (elems q))"
proof -
  have "invar (fst (pop_many pop front k q)) \<and>
      snd (pop_many pop front k q) = take k (if front then elems q else rev (elems q)) \<and>
      elems (fst (pop_many pop front k q)) =
        (if front then drop k (elems q) else take (length (elems q) - k) (elems q))"
    using assms
  proof (induction k arbitrary: q)
    case (Suc k)
    then have ne: "elems q \<noteq> []" by auto
    then have inv: "invar (fst (pop q front))" using Suc.prems pop_invar by blast
    show ?case
    proof (cases front)
      case True
      obtain v vs where e: "elems q = v # vs" using ne by (cases "elems q") auto
      note p = pop_front [OF Suc.prems(1) e]
      then show ?thesis using Suc.IH [OF inv] Suc.prems(2) True e by (simp add: Let_def)
    next
      case False
      obtain vs v where e: "elems q = vs @ [v]" using ne by (cases "elems q" rule: rev_cases) auto
      note p = pop_back [OF Suc.prems(1) e]
      then show ?thesis using Suc.IH [OF inv] Suc.prems(2) False e by (simp add: Let_def)
    qed
  qed simp
  then show "invar (fst (pop_many pop front k q))"
    and "snd (pop_many pop front k q) = take k (if front then elems q else rev (elems q))"
    and "elems (fst (pop_many pop front k q)) =
           (if front then drop k (elems q) else take (length (elems q) - k) (elems q))"
    by simp_all
qed

end

section \<open>The ring buffer is a deque\<close>

definition list_inv :: "listObj \<Rightarrow> bool" where
  "list_inv l \<longleftrightarrow> (lbuf l = [] \<and> ln l = 0) \<or>
     (pow2 (length (lbuf l)) \<and> lhead l < length (lbuf l) \<and> ln l \<le> length (lbuf l))"

definition list_elems :: "listObj \<Rightarrow> bytes list" where
  "list_elems l = map (list_at l) [0..<ln l]"

lemma length_list_elems [simp]: "length (list_elems l) = ln l"
  by (simp add: list_elems_def)

lemma list_elems_nth [simp]: "i < ln l \<Longrightarrow> list_elems l ! i = list_at l i"
  by (simp add: list_elems_def)

lemma list_at_mod: "pow2 (length (lbuf l)) \<Longrightarrow> list_at l i = lbuf l ! ((lhead l + i) mod length (lbuf l))"
  by (simp add: list_at_def and_mask_mod del: One_nat_def)

lemma list_elems_new [simp]: "list_elems new_listObj = []" "list_inv new_listObj"
  by (simp_all add: list_elems_def new_listObj_def list_inv_def)

lemma pow2_ge_4: "pow2 n \<Longrightarrow> pow2 (max 4 (n * 2))"
proof -
  assume "pow2 n"
  then have "pow2 (n * 2)" by simp
  moreover have "pow2 4" unfolding pow2_def by (rule exI [of _ 2]) simp
  ultimately show ?thesis by (simp add: max_def)
qed

lemma list_resize_props:
  assumes "ln l \<le> n" "pow2 n"
  shows "list_elems (list_resize l n) = list_elems l" "list_inv (list_resize l n)"
    "length (lbuf (list_resize l n)) = n" "ln (list_resize l n) = ln l"
    "lcost (list_resize l n) = lcost l"
proof -
  have len: "length (lbuf (list_resize l n)) = n" by (simp add: list_resize_def)
  have "list_at (list_resize l n) i = list_at l i" if "i < ln l" for i
  proof -
    have "list_at (list_resize l n) i = lbuf (list_resize l n) ! (i mod n)"
      using assms len by (subst list_at_mod) (simp_all add: list_resize_def)
    then show ?thesis using that assms by (simp add: list_resize_def)
  qed
  then show "list_elems (list_resize l n) = list_elems l"
    by (simp add: list_elems_def list_resize_def)
  show "list_inv (list_resize l n)" using assms len by (simp add: list_inv_def list_resize_def)
qed (simp_all add: list_resize_def)

text \<open>Writing one slot of the ring, seen through the logical index.\<close>

lemma ring_index_inj:
  "(h + i) mod n = (h + j) mod n \<Longrightarrow> i < n \<Longrightarrow> j < n \<Longrightarrow> i = j" for h i j n :: nat
proof (induction i j rule: linorder_wlog)
  case (le i j)
  then have "n dvd (h + j) - (h + i)" by (metis add_left_mono mod_eq_dvd_iff_nat)
  then have "n dvd j - i" by simp
  moreover have "j - i < n" using le by simp
  ultimately have "j - i = 0" by (meson dvd_imp_le not_le zero_less_iff_neq_zero)
  with le show ?case by simp
qed auto

lemma list_eq_elemsI:
  assumes "ln l = length xs" "\<And>i. i < ln l \<Longrightarrow> list_at l i = xs ! i"
  shows "list_elems l = xs"
  using assms by (intro nth_equalityI) simp_all

lemma push_back_ring:
  fixes l :: listObj and v :: bytes
  assumes "pow2 (length (lbuf l))" "lhead l < length (lbuf l)" "ln l < length (lbuf l)"
  defines "l' \<equiv> l\<lparr>lbuf := (lbuf l)[(lhead l + ln l) AND (length (lbuf l) - 1) := v], ln := ln l + 1\<rparr>"
  shows "list_inv l'" "list_elems l' = list_elems l @ [v]"
proof -
  let ?n = "length (lbuf l)"
  show "list_inv l'" using assms by (simp add: list_inv_def)
  show "list_elems l' = list_elems l @ [v]"
  proof (rule list_eq_elemsI)
    fix i assume i: "i < ln l'"
    have at: "list_at l' i = (lbuf l)[(lhead l + ln l) mod ?n := v] ! ((lhead l + i) mod ?n)"
      using assms(1) by (subst list_at_mod) (simp_all add: l'_def and_mask_mod del: One_nat_def)
    show "list_at l' i = (list_elems l @ [v]) ! i"
    proof (cases "i = ln l")
      case True
      have "(lhead l + ln l) mod ?n < ?n" using assms(1) by (intro mod_less_divisor pow2_pos)
      then show ?thesis using at True by (simp add: nth_append)
    next
      case False
      then have "i < ln l" using i by (simp add: l'_def)
      then have "(lhead l + ln l) mod ?n \<noteq> (lhead l + i) mod ?n"
        using ring_index_inj assms(3) False by (metis order.strict_trans)
      then show ?thesis using at \<open>i < ln l\<close> assms(1) by (simp add: nth_append list_at_mod)
    qed
  qed (simp add: l'_def)
qed

lemma push_front_ring:
  fixes l :: listObj and v :: bytes
  assumes "pow2 (length (lbuf l))" "lhead l < length (lbuf l)" "ln l < length (lbuf l)"
  defines "h \<equiv> nat ((int (lhead l) - 1) AND int (length (lbuf l) - 1))"
  defines "l' \<equiv> l\<lparr>lhead := h, lbuf := (lbuf l)[h := v], ln := ln l + 1\<rparr>"
  shows "list_inv l'" "list_elems l' = v # list_elems l"
proof -
  let ?n = "length (lbuf l)"
  have n: "0 < ?n" using assms(3) by linarith
  have "int (?n - 1) = int ?n - 1" using n by linarith
  then have "(int (lhead l) - 1) AND int (?n - 1) = (int (lhead l) - 1) mod int ?n"
    using and_mask_mod_int [OF assms(1), of "int (lhead l) - 1"] by (simp only:)
  then have h: "int h = (int (lhead l) - 1) mod int ?n"
    using n unfolding h_def by (simp only: nat_0_le pos_mod_sign of_nat_0_less_iff)
  have hn: "h < ?n" using h n by (metis of_nat_0_less_iff of_nat_less_iff pos_mod_bound)
  have shift: "(h + Suc i) mod ?n = (lhead l + i) mod ?n" for i
  proof -
    have "int ((h + Suc i) mod ?n) = ((int (lhead l) - 1) mod int ?n + (1 + int i)) mod int ?n"
      by (simp add: zmod_int h add.left_commute)
    also have "\<dots> = (int (lhead l) + int i) mod int ?n" by (simp add: mod_add_left_eq)
    finally show ?thesis by (metis of_nat_add of_nat_eq_iff zmod_int)
  qed
  show "list_inv l'" using assms hn by (simp add: list_inv_def)
  show "list_elems l' = v # list_elems l"
  proof (rule list_eq_elemsI)
    fix i assume i: "i < ln l'"
    have at: "list_at l' i = (lbuf l)[h := v] ! ((h + i) mod ?n)"
      using assms(1) by (subst list_at_mod) (simp_all add: l'_def)
    show "list_at l' i = (v # list_elems l) ! i"
    proof (cases i)
      case 0
      then show ?thesis using at hn by simp
    next
      case (Suc j)
      then have j: "j < ln l" using i by (simp add: l'_def)
      have "h \<noteq> (h + i) mod ?n"
        using ring_index_inj [of h 0 ?n i] hn n Suc j assms(3) by auto
      then show ?thesis using at Suc j assms(1) shift [of j] by (simp add: list_at_mod)
    qed
  qed (simp add: l'_def)
qed

lemma list_push_full:
  assumes "list_inv l"
  defines "r \<equiv> (if ln l = length (lbuf l) then list_resize l (max 4 (length (lbuf l) * 2)) else l)"
  shows "pow2 (length (lbuf r)) \<and> lhead r < length (lbuf r) \<and> ln r < length (lbuf r)
      \<and> list_elems r = list_elems l \<and> lcost r = lcost l"
proof (cases "ln l = length (lbuf l)")
  case False
  then show ?thesis using assms by (auto simp: list_inv_def)
next
  case True
  let ?m = "max 4 (length (lbuf l) * 2)"
  have "pow2 4" unfolding pow2_def by (rule exI [of _ 2]) simp
  then have "pow2 ?m" using assms(1) pow2_ge_4 by (auto simp: list_inv_def)
  moreover have "ln l \<le> ?m" using True by simp
  ultimately show ?thesis using True list_resize_props [of l ?m]
    by (simp add: r_def list_resize_def)
qed

lemma list_push_inv: "list_inv l \<Longrightarrow> list_inv (list_push l v front)"
  using list_push_full [of l] push_back_ring push_front_ring
  by (cases front) (simp_all add: list_push_def Let_def)

lemma list_push_elems:
  "list_inv l \<Longrightarrow> list_elems (list_push l v front) = (if front then v # list_elems l else list_elems l @ [v])"
  using list_push_full [of l] push_back_ring(2) push_front_ring(2)
  by (cases front) (simp_all add: list_push_def Let_def)

lemma list_push_cost [simp]: "lcost (list_push l v front) = lcost l"
  by (simp add: list_push_def Let_def list_resize_def)

lemma pop_front_ring:
  fixes l :: listObj
  assumes "pow2 (length (lbuf l))" "lhead l < length (lbuf l)" "0 < ln l" "ln l \<le> length (lbuf l)"
  defines "l' \<equiv> l\<lparr>lhead := (lhead l + 1) AND (length (lbuf l) - 1),
                    lbuf := (lbuf l)[lhead l := []], ln := ln l - 1\<rparr>"
  shows "list_inv l'" "list_elems l' = tl (list_elems l)" "lbuf l ! lhead l = hd (list_elems l)"
proof -
  let ?n = "length (lbuf l)"
  have mask: "(lhead l + 1) AND (?n - 1) = (lhead l + 1) mod ?n"
    using assms(1) by (rule and_mask_mod)
  have "(lhead l + 1) mod ?n < ?n" using assms(1) by (intro mod_less_divisor pow2_pos)
  then show "list_inv l'" using assms(1-4) unfolding list_inv_def l'_def mask by (simp, linarith)
  have ne: "list_elems l \<noteq> []" using assms(3) by (metis length_list_elems less_numeral_extra(3) list.size(3))
  have "hd (list_elems l) = list_at l 0" using assms(3) ne by (simp add: hd_conv_nth)
  then show "lbuf l ! lhead l = hd (list_elems l)" using assms by (simp add: list_at_mod)
  show "list_elems l' = tl (list_elems l)"
  proof (rule list_eq_elemsI)
    fix i assume "i < ln l'"
    then have i: "i < ln l - 1" by (simp add: l'_def)
    have at: "list_at l' i = (lbuf l)[lhead l := []] ! ((lhead l + Suc i) mod ?n)"
      using assms(1) mask by (subst list_at_mod) (simp_all add: l'_def mod_add_left_eq del: One_nat_def, simp)
    have "(lhead l + 0) mod ?n \<noteq> (lhead l + Suc i) mod ?n"
      using ring_index_inj [of "lhead l" 0 ?n "Suc i"] i assms(4) by linarith
    then have "lhead l \<noteq> (lhead l + Suc i) mod ?n" using assms(2) by simp
    then show "list_at l' i = tl (list_elems l) ! i"
      using at i assms(1) by (simp add: nth_tl list_at_mod)
  qed (simp add: l'_def)
qed

lemma pop_back_ring:
  fixes l :: listObj
  assumes "pow2 (length (lbuf l))" "lhead l < length (lbuf l)" "0 < ln l" "ln l \<le> length (lbuf l)"
  defines "i0 \<equiv> (lhead l + ln l - 1) AND (length (lbuf l) - 1)"
  defines "l' \<equiv> l\<lparr>lbuf := (lbuf l)[i0 := []], ln := ln l - 1\<rparr>"
  shows "list_inv l'" "list_elems l' = butlast (list_elems l)" "lbuf l ! i0 = last (list_elems l)"
proof -
  let ?n = "length (lbuf l)"
  have "i0 = (lhead l + ln l - 1) mod ?n" unfolding i0_def using assms(1) by (rule and_mask_mod)
  then have i0: "i0 = (lhead l + (ln l - 1)) mod ?n" using assms(3) by simp
  show "list_inv l'" using assms(1-4) unfolding list_inv_def l'_def by (simp, linarith)
  have ne: "list_elems l \<noteq> []" using assms(3) by (metis length_list_elems less_numeral_extra(3) list.size(3))
  have "last (list_elems l) = list_at l (ln l - 1)" using assms(3) ne by (simp add: last_conv_nth)
  then show "lbuf l ! i0 = last (list_elems l)" using assms(1) i0 by (simp add: list_at_mod)
  show "list_elems l' = butlast (list_elems l)"
  proof (rule list_eq_elemsI)
    fix i assume "i < ln l'"
    then have i: "i < ln l - 1" by (simp add: l'_def)
    have at: "list_at l' i = (lbuf l)[i0 := []] ! ((lhead l + i) mod ?n)"
      using assms(1) by (subst list_at_mod) (simp_all add: l'_def)
    have "i0 \<noteq> (lhead l + i) mod ?n"
      unfolding i0 using ring_index_inj [of "lhead l" "ln l - 1" ?n i] i assms(4) by linarith
    then show "list_at l' i = butlast (list_elems l) ! i"
      using at i assms(1) by (simp add: nth_butlast list_at_mod)
  qed (simp add: l'_def)
qed

lemma pow2_half: "pow2 n \<Longrightarrow> 16 < n \<Longrightarrow> pow2 (n div 2)"
proof -
  assume "pow2 n" "16 < n"
  then obtain k where n: "n = 2 ^ k" by (auto simp: pow2_def)
  with \<open>16 < n\<close> obtain k' where "k = Suc k'" by (cases k) auto
  with n show ?thesis by (auto simp: pow2_def)
qed

text \<open>Shrinking after a pop keeps the contents, since fewer than a quarter of the slots are used.\<close>

lemma list_pop_shrink:
  assumes "list_inv l1"
  shows "list_inv (list_shrink l1) \<and> list_elems (list_shrink l1) = list_elems l1"
proof (cases "length (lbuf l1) > 16 \<and> ln l1 < length (lbuf l1) div 4")
  case True
  then have "pow2 (length (lbuf l1) div 2)"
    using assms(1) by (auto simp: list_inv_def intro: pow2_half)
  moreover have "ln l1 \<le> length (lbuf l1) div 2" using True by linarith
  ultimately show ?thesis using True list_resize_props [of l1 "length (lbuf l1) div 2"]
    by (simp add: list_shrink_def)
qed (use assms in \<open>auto simp: list_shrink_def\<close>)

lemma list_inv_nonempty:
  "list_inv l \<Longrightarrow> list_elems l \<noteq> [] \<Longrightarrow>
     pow2 (length (lbuf l)) \<and> lhead l < length (lbuf l) \<and> 0 < ln l \<and> ln l \<le> length (lbuf l)"
  using length_greater_0_conv [of "list_elems l"] by (auto simp: list_inv_def)

lemma list_pop_front:
  assumes "list_inv l" "list_elems l \<noteq> []"
  shows "list_inv (fst (list_pop l True))" "list_elems (fst (list_pop l True)) = tl (list_elems l)"
    "snd (list_pop l True) = hd (list_elems l)"
proof -
  from list_inv_nonempty [OF assms] have l: "pow2 (length (lbuf l))" "lhead l < length (lbuf l)"
    "0 < ln l" "ln l \<le> length (lbuf l)" by auto
  note ring = pop_front_ring [OF l]
  show "list_inv (fst (list_pop l True))" "list_elems (fst (list_pop l True)) = tl (list_elems l)"
    using list_pop_shrink [OF ring(1)] ring(2) by (simp_all add: list_pop_def Let_def)
  show "snd (list_pop l True) = hd (list_elems l)"
    using ring(3) by (simp add: list_pop_def Let_def)
qed

lemma list_pop_back:
  assumes "list_inv l" "list_elems l \<noteq> []"
  shows "list_inv (fst (list_pop l False))" "list_elems (fst (list_pop l False)) = butlast (list_elems l)"
    "snd (list_pop l False) = last (list_elems l)"
proof -
  from list_inv_nonempty [OF assms] have l: "pow2 (length (lbuf l))" "lhead l < length (lbuf l)"
    "0 < ln l" "ln l \<le> length (lbuf l)" by auto
  note ring = pop_back_ring [OF l]
  show "list_inv (fst (list_pop l False))" "list_elems (fst (list_pop l False)) = butlast (list_elems l)"
    using list_pop_shrink [OF ring(1)] ring(2) by (simp_all add: list_pop_def Let_def)
  show "snd (list_pop l False) = last (list_elems l)"
    using ring(3) by (simp add: list_pop_def Let_def)
qed

lemma list_pop_cost [simp]: "lcost (fst (list_pop l front)) = lcost l"
  by (simp add: list_pop_def Let_def list_shrink_def list_resize_def)

interpretation ring: deque list_inv list_elems list_push list_pop
proof unfold_locales
  fix q front assume "list_inv q" "list_elems q \<noteq> []"
  then show "list_inv (fst (list_pop q front))"
    using list_pop_front(1) list_pop_back(1) by (cases front) auto
qed (simp_all add: list_push_inv list_push_elems list_pop_front list_pop_back)

text \<open>
  \<^bold>\<open>C23\<close> The ring buffer behaves as a double-ended sequence through every resize: pushing a batch of
  values at the front reverses them in front of the list, at the back appends them, and popping
  \<open>k\<close> values returns the first \<open>k\<close> from that end and leaves the others in order.
\<close>

theorem ring_list_correct:
  assumes "list_inv l" "k \<le> ln l"
  shows "list_elems (foldl (\<lambda>q v. list_push q v front) l vs) =
           (if front then rev vs @ list_elems l else list_elems l @ vs)
    \<and> snd (pop_many list_pop front k l) =
           take k (if front then list_elems l else rev (list_elems l))
    \<and> list_elems (fst (pop_many list_pop front k l)) =
           (if front then drop k (list_elems l) else take (ln l - k) (list_elems l))"
  using assms ring.push_all ring.pop_all(2,3) by simp

theorem ring_list_correct_witness:
  "list_elems (foldl (\<lambda>q v. list_push q v True) new_listObj [''a'', ''b'']) = [''b'', ''a'']
   \<and> snd (pop_many list_pop True 0 new_listObj) = []
   \<and> list_elems (fst (pop_many list_pop True 0 new_listObj)) = []"
proof -
  have inv: "list_inv new_listObj" and le: "0 \<le> ln new_listObj" by simp_all
  show ?thesis using ring_list_correct [OF inv le, of True "[''a'', ''b'']"] by simp
qed

end
