(* ===== verification/Hash_Obj.thy ===== *)
theory Hash_Obj
  imports Go_Prelude
begin

text \<open>
  The hash values of mini-redis (\<open>hashObj\<close> in \<open>redis/impl/go-1/store.go\<close>): a flat slice of
  alternating fields and values up to \<open>hashMaxFlat\<close> fields, a Go map above that. A Go map is an
  association list with distinct keys; its order stands for the unspecified iteration order. The
  locale \<open>field_map\<close> is the contract the hash commands rely on.
\<close>

section \<open>The two representations\<close>

record hashObj =
  hkv :: "bytes list"
  hm :: "(bytes \<times> bytes) list option"
  hcost :: int

definition hashMaxFlat :: nat where "hashMaxFlat = 16"

definition new_hashObj :: hashObj where
  "new_hashObj = \<lparr>hkv = [], hm = None, hcost = 0\<rparr>"

text \<open>Assignment \<open>m[f] = v\<close> and \<open>delete(m, f)\<close> on a Go map.\<close>

fun gomap_set :: "('k \<times> 'v) list \<Rightarrow> 'k \<Rightarrow> 'v \<Rightarrow> ('k \<times> 'v) list" where
  "gomap_set [] f v = [(f, v)]"
| "gomap_set ((g, w) # al) f v = (if g = f then (g, v) # al else (g, w) # gomap_set al f v)"

definition gomap_del :: "('k \<times> 'v) list \<Rightarrow> 'k \<Rightarrow> ('k \<times> 'v) list" where
  "gomap_del al f = filter (\<lambda>(g, w). g \<noteq> f) al"

text \<open>The scan \<open>for i := 0; i < len(h.kv); i += 2\<close> for a field.\<close>

function flat_find :: "bytes list \<Rightarrow> bytes \<Rightarrow> nat \<Rightarrow> nat option" where
  "flat_find kv f i =
     (if i < length kv then (if kv ! i = f then Some i else flat_find kv f (i + 2)) else None)"
  by pat_completeness auto
termination by (relation "measure (\<lambda>(kv, f, i). length kv - i)") auto

declare flat_find.simps [simp del]

definition hash_get :: "hashObj \<Rightarrow> bytes \<Rightarrow> bytes option" where
  "hash_get h f =
     (case hm h of
        Some al \<Rightarrow> map_of al f
      | None \<Rightarrow> (case flat_find (hkv h) f 0 of Some i \<Rightarrow> Some (hkv h ! (i + 1)) | None \<Rightarrow> None))"

text \<open>The conversion loop that fills the map from the flat slice.\<close>

function flat_to_map :: "bytes list \<Rightarrow> nat \<Rightarrow> (bytes \<times> bytes) list \<Rightarrow> (bytes \<times> bytes) list" where
  "flat_to_map kv i al =
     (if i < length kv then flat_to_map kv (i + 2) (gomap_set al (kv ! i) (kv ! (i + 1))) else al)"
  by pat_completeness auto
termination by (relation "measure (\<lambda>(kv, i, al). length kv - i)") auto

declare flat_to_map.simps [simp del]

definition hash_set :: "hashObj \<Rightarrow> bytes \<Rightarrow> bytes \<Rightarrow> hashObj \<times> bytes option" where
  "hash_set h f v =
     (case hm h of
        Some al \<Rightarrow> (h\<lparr>hm := Some (gomap_set al f v)\<rparr>, map_of al f)
      | None \<Rightarrow>
          (case flat_find (hkv h) f 0 of
             Some i \<Rightarrow> (h\<lparr>hkv := (hkv h)[i + 1 := v]\<rparr>, Some (hkv h ! (i + 1)))
           | None \<Rightarrow>
               if length (hkv h) \<ge> hashMaxFlat * 2
               then (h\<lparr>hm := Some (gomap_set (flat_to_map (hkv h) 0 []) f v), hkv := []\<rparr>, None)
               else (h\<lparr>hkv := hkv h @ [f, v]\<rparr>, None)))"

definition hash_del :: "hashObj \<Rightarrow> bytes \<Rightarrow> hashObj \<times> bytes option" where
  "hash_del h f =
     (case hm h of
        Some al \<Rightarrow>
          (case map_of al f of
             Some old \<Rightarrow> (h\<lparr>hm := Some (gomap_del al f)\<rparr>, Some old)
           | None \<Rightarrow> (h, None))
      | None \<Rightarrow>
          (case flat_find (hkv h) f 0 of
             Some i \<Rightarrow>
               (let n = length (hkv h)
                in (h\<lparr>hkv := take (n - 2)
                        ((hkv h)[i := hkv h ! (n - 2), i + 1 := hkv h ! (n - 1)])\<rparr>,
                    Some (hkv h ! (i + 1))))
           | None \<Rightarrow> (h, None)))"

definition hash_size :: "hashObj \<Rightarrow> nat" where
  "hash_size h = (case hm h of Some al \<Rightarrow> length al | None \<Rightarrow> length (hkv h) div 2)"

section \<open>The contract of a field map\<close>

definition field_cost :: "bytes \<Rightarrow> bytes \<Rightarrow> int" where
  "field_cost f v = 32 + int (length f) + int (length v)"

definition map_cost :: "(bytes \<rightharpoonup> bytes) \<Rightarrow> int" where
  "map_cost m = (\<Sum>f \<in> dom m. field_cost f (the (m f)))"

lemma map_cost_upd:
  assumes "finite (dom m)"
  shows "map_cost (m(f \<mapsto> v)) =
    map_cost m + (case m f of None \<Rightarrow> field_cost f v | Some old \<Rightarrow> int (length v) - int (length old))"
proof -
  have "(\<Sum>g \<in> dom m - {f}. field_cost g (the ((m(f \<mapsto> v)) g))) = (\<Sum>g \<in> dom m - {f}. field_cost g (the (m g)))"
    by (rule sum.cong) auto
  then have new: "map_cost (m(f \<mapsto> v)) = field_cost f v + (\<Sum>g \<in> dom m - {f}. field_cost g (the (m g)))"
    unfolding map_cost_def using assms by (simp add: sum.insert_remove)
  show ?thesis
  proof (cases "m f")
    case None
    then have "dom m - {f} = dom m" by auto
    with new None show ?thesis by (simp add: map_cost_def)
  next
    case (Some old)
    then have "map_cost m = field_cost f old + (\<Sum>g \<in> dom m - {f}. field_cost g (the (m g)))"
      unfolding map_cost_def using assms by (subst sum.remove [of _ f]) auto
    with new Some show ?thesis by (simp add: field_cost_def)
  qed
qed

lemma map_cost_del:
  assumes "finite (dom m)"
  shows "map_cost (m(f := None)) = map_cost m - (case m f of None \<Rightarrow> 0 | Some old \<Rightarrow> field_cost f old)"
proof (cases "m f")
  case None
  then have "m(f := None) = m" by auto
  with None show ?thesis by simp
next
  case (Some old)
  have "(\<Sum>g \<in> dom m - {f}. field_cost g (the ((m(f := None)) g))) = (\<Sum>g \<in> dom m - {f}. field_cost g (the (m g)))"
    by (rule sum.cong) auto
  moreover have "map_cost m = field_cost f old + (\<Sum>g \<in> dom m - {f}. field_cost g (the (m g)))"
    unfolding map_cost_def using assms Some by (subst sum.remove [of _ f]) auto
  ultimately show ?thesis using Some by (simp add: map_cost_def)
qed

text \<open>The set loop of \<open>cmdHset\<close> and the delete loop of \<open>cmdHdel\<close>, over any field map: the object,
  the change of the accounted size and the number of fields added or removed.\<close>

fun set_loop :: "('h \<Rightarrow> bytes \<Rightarrow> bytes \<Rightarrow> 'h \<times> bytes option) \<Rightarrow> 'h \<Rightarrow> bytes list \<Rightarrow> 'h \<times> int \<times> nat" where
  "set_loop st h (f # v # r) =
     (let (h', old) = st h f v; (h2, d, a) = set_loop st h' r
      in case old of
           Some w \<Rightarrow> (h2, int (length v) - int (length w) + d, a)
         | None \<Rightarrow> (h2, 32 + int (length f) + int (length v) + d, a + 1))"
| "set_loop st h _ = (h, 0, 0)"

fun del_loop :: "('h \<Rightarrow> bytes \<Rightarrow> 'h \<times> bytes option) \<Rightarrow> 'h \<Rightarrow> bytes list \<Rightarrow> 'h \<times> int \<times> nat" where
  "del_loop del h [] = (h, 0, 0)"
| "del_loop del h (f # r) =
     (let (h', old) = del h f; (h2, d, a) = del_loop del h' r
      in case old of
           Some w \<Rightarrow> (h2, 32 + int (length f) + int (length w) + d, a + 1)
         | None \<Rightarrow> (h2, d, a))"

text \<open>The pairs of a flat argument list.\<close>

fun flat_pairs :: "'a list \<Rightarrow> ('a \<times> 'a) list" where
  "flat_pairs (f # v # r) = (f, v) # flat_pairs r"
| "flat_pairs _ = []"

locale field_map =
  fixes invar :: "'h \<Rightarrow> bool"
    and fields :: "'h \<Rightarrow> bytes \<rightharpoonup> bytes"
    and fget :: "'h \<Rightarrow> bytes \<Rightarrow> bytes option"
    and fset :: "'h \<Rightarrow> bytes \<Rightarrow> bytes \<Rightarrow> 'h \<times> bytes option"
    and fdel :: "'h \<Rightarrow> bytes \<Rightarrow> 'h \<times> bytes option"
    and fsize :: "'h \<Rightarrow> nat"
  assumes finite_fields: "invar h \<Longrightarrow> finite (dom (fields h))"
    and get_fields: "invar h \<Longrightarrow> fget h f = fields h f"
    and set_invar: "invar h \<Longrightarrow> invar (fst (fset h f v))"
    and set_fields: "invar h \<Longrightarrow> fields (fst (fset h f v)) = (fields h)(f \<mapsto> v)"
    and set_old: "invar h \<Longrightarrow> snd (fset h f v) = fields h f"
    and del_invar: "invar h \<Longrightarrow> invar (fst (fdel h f))"
    and del_fields: "invar h \<Longrightarrow> fields (fst (fdel h f)) = (fields h)(f := None)"
    and del_old: "invar h \<Longrightarrow> snd (fdel h f) = fields h f"
    and size_fields: "invar h \<Longrightarrow> fsize h = card (dom (fields h))"
begin

lemma set_loop_props:
  assumes "invar h" "set_loop fset h args = (h2, d, a)"
  shows "invar h2 \<and> fields h2 = fields h ++ map_of (rev (flat_pairs args)) \<and>
    d = map_cost (fields h2) - map_cost (fields h) \<and>
    int a = int (card (dom (fields h2))) - int (card (dom (fields h)))"
  using assms
proof (induction args arbitrary: h d a rule: flat_pairs.induct)
  case (1 f v r)
  obtain h' old where s: "fset h f v = (h', old)" by force
  obtain d' a' where l: "set_loop fset h' r = (h2, d', a')"
    using 1(3) s by (auto split: prod.splits option.splits)
  have h': "invar h'" "fields h' = (fields h)(f \<mapsto> v)" "old = fields h f"
    using set_invar [OF 1(2), of f v] set_fields [OF 1(2), of f v] set_old [OF 1(2), of f v] s by auto
  have fin: "finite (dom (fields h))" using 1(2) by (rule finite_fields)
  have IH: "invar h2" "fields h2 = fields h' ++ map_of (rev (flat_pairs r))"
    "d' = map_cost (fields h2) - map_cost (fields h')"
    "int a' = int (card (dom (fields h2))) - int (card (dom (fields h')))"
    using 1(1) [OF h'(1) l] by auto
  have da: "d = d' + (case fields h f of None \<Rightarrow> field_cost f v | Some w \<Rightarrow> int (length v) - int (length w))"
    "a = a' + (case fields h f of None \<Rightarrow> 1 | Some w \<Rightarrow> 0)"
    using 1(3) s l h'(3) by (auto simp: field_cost_def split: option.splits)
  have "map_cost (fields h') = map_cost (fields h) + (d - d')"
    using map_cost_upd [OF fin, of f v] h'(2) da by simp
  moreover have "int (card (dom (fields h'))) = int (card (dom (fields h))) + int (a - a')"
    using fin h'(2) da(2) by (auto simp: card_insert_if split: option.splits)
  moreover have "fields h2 = fields h ++ map_of (rev (flat_pairs (f # v # r)))"
    using IH(2) h'(2) by (simp add: map_add_upd_left [symmetric]) 
  ultimately show ?case using IH da by auto
qed auto

lemma del_loop_props:
  assumes "invar h" "del_loop fdel h fs = (h2, d, a)"
  shows "invar h2 \<and> fields h2 = fields h |` (- set fs) \<and>
    d = map_cost (fields h) - map_cost (fields h2) \<and>
    int a = int (card (dom (fields h))) - int (card (dom (fields h2)))"
  using assms
proof (induction fs arbitrary: h d a)
  case (Cons f r)
  obtain h' old where s: "fdel h f = (h', old)" by force
  obtain d' a' where l: "del_loop fdel h' r = (h2, d', a')"
    using Cons.prems(2) s by (auto split: prod.splits option.splits)
  have h': "invar h'" "fields h' = (fields h)(f := None)" "old = fields h f"
    using del_invar [of h f] del_fields [of h f] del_old [of h f] s Cons.prems(1) by auto
  have fin: "finite (dom (fields h))" using Cons.prems(1) by (rule finite_fields)
  have IH: "invar h2" "fields h2 = fields h' |` (- set r)"
    "d' = map_cost (fields h') - map_cost (fields h2)"
    "int a' = int (card (dom (fields h'))) - int (card (dom (fields h2)))"
    using Cons.IH [OF h'(1) l] by auto
  have da: "d = d' + (case fields h f of None \<Rightarrow> 0 | Some w \<Rightarrow> field_cost f w)"
    "a = a' + (case fields h f of None \<Rightarrow> 0 | Some w \<Rightarrow> 1)"
    using Cons.prems(2) s l h'(3) by (auto simp: field_cost_def split: option.splits)
  have "map_cost (fields h') = map_cost (fields h) - (d - d')"
    using map_cost_del [OF fin, of f] h'(2) da by simp
  moreover have "int (card (dom (fields h))) = int (card (dom (fields h'))) + int (a - a')"
  proof (cases "fields h f")
    case None
    then show ?thesis using h'(2) da(2) by (simp add: fun_upd_idem)
  next
    case (Some w)
    then have "f \<in> dom (fields h)" by auto
    then have "card (dom (fields h)) = Suc (card (dom (fields h) - {f}))"
      using fin by (metis card.remove)
    then show ?thesis using h'(2) da(2) Some by simp
  qed
  moreover have "fields h2 = fields h |` (- set (f # r))"
    using IH(2) h'(2) by (auto simp: restrict_map_def fun_eq_iff)
  ultimately show ?case using IH da by auto
qed (simp add: restrict_map_def)

end

section \<open>Flat slices as association lists\<close>

lemma flat_find_Cons2: "flat_find (x # y # kv) f (Suc (Suc i)) = map_option (\<lambda>i. i + 2) (flat_find kv f i)"
proof (induction kv f i rule: flat_find.induct)
  case (1 kv f i)
  then show ?case
    by (simp add: flat_find.simps [of "x # y # kv" f "Suc (Suc i)"] flat_find.simps [of kv f i])
qed

lemma flat_find_step:
  "flat_find (x # y # r) f 0 = (if x = f then Some 0 else map_option (\<lambda>i. i + 2) (flat_find r f 0))"
  using flat_find_Cons2 [of x y r f 0] by (subst flat_find.simps) (simp add: numeral_2_eq_2)

lemma flat_find_Some:
  "even (length kv) \<Longrightarrow> flat_find kv f 0 = Some i \<Longrightarrow>
     even i \<and> i + 1 < length kv \<and> kv ! i = f \<and> map_of (flat_pairs kv) f = Some (kv ! (i + 1))"
proof (induction kv arbitrary: i rule: flat_pairs.induct)
  case (1 x y r)
  show ?case
  proof (cases "x = f")
    case False
    then obtain i' where "flat_find r f 0 = Some i'" "i = i' + 2"
      using 1(3) by (auto simp: flat_find_step)
    then show ?thesis using 1(1) [of i'] 1(2) False by auto
  qed (use 1 in \<open>simp add: flat_find_step\<close>)
qed (simp_all add: flat_find.simps)

lemma flat_find_None: "even (length kv) \<Longrightarrow> flat_find kv f 0 = None \<longleftrightarrow> map_of (flat_pairs kv) f = None"
proof (induction kv rule: flat_pairs.induct)
  case (1 x y r)
  then show ?case by (auto simp: flat_find_step)
qed (simp_all add: flat_find.simps)

lemma length_flat_pairs: "length (flat_pairs kv) = length kv div 2"
  by (induction kv rule: flat_pairs.induct) auto

lemma flat_pairs_nth: "j < length kv div 2 \<Longrightarrow> flat_pairs kv ! j = (kv ! (2 * j), kv ! (2 * j + 1))"
proof (induction kv arbitrary: j rule: flat_pairs.induct)
  case (1 f v r)
  then show ?case by (cases j) auto
qed auto

lemma flat_pairs_append: "even (length xs) \<Longrightarrow> flat_pairs (xs @ ys) = flat_pairs xs @ flat_pairs ys"
  by (induction xs rule: flat_pairs.induct) auto

lemma flat_pairs_update:
  assumes "even i" "i + 1 < length kv"
  shows "flat_pairs (kv[i := f, i + 1 := v]) = (flat_pairs kv)[i div 2 := (f, v)]"
proof (rule nth_equalityI)
  fix j assume "j < length (flat_pairs (kv[i := f, i + 1 := v]))"
  then have j: "j < length kv div 2" by (simp add: length_flat_pairs)
  have "2 * (i div 2) = i" using assms(1) by simp
  then have "j \<noteq> i div 2 \<Longrightarrow> 2 * j \<noteq> i \<and> 2 * j \<noteq> i + 1 \<and> 2 * j + 1 \<noteq> i" using assms(1) by presburger
  then show "flat_pairs (kv[i := f, i + 1 := v]) ! j = (flat_pairs kv)[i div 2 := (f, v)] ! j"
    using j assms by (cases "j = i div 2") (auto simp: flat_pairs_nth length_flat_pairs)
qed (simp add: length_flat_pairs)

lemma alist_update_at:
  "distinct (map fst xs) \<Longrightarrow> j < length xs \<Longrightarrow> fst (xs ! j) = f \<Longrightarrow>
     map fst (xs[j := (f, v)]) = map fst xs \<and> map_of (xs[j := (f, v)]) = (map_of xs)(f \<mapsto> v)"
proof (induction xs arbitrary: j)
  case (Cons x xs)
  show ?case
  proof (cases j)
    case (Suc j')
    then have "f \<in> fst ` set xs" using Cons.prems by auto
    then have "fst x \<noteq> f" using Cons.prems(1) by auto
    then show ?thesis using Cons Suc by (auto simp: fun_upd_twist)
  qed (use Cons in auto)
qed simp

lemma alist_swap_remove:
  assumes "distinct (map fst xs)" "j < length xs" "fst (xs ! j) = f"
  defines "ys \<equiv> butlast (xs[j := last xs])"
  shows "distinct (map fst ys)" "map_of ys = (map_of xs)(f := None)"
proof -
  define as b bs where split: "as = take j xs" "b = xs ! j" "bs = drop (Suc j) xs"
  have xs: "xs = as @ b # bs" using assms(2) by (simp add: split id_take_nth_drop)
  have len: "length as = j" using assms(2) by (simp add: split)
  have fb: "fst b = f" using assms(3) by (simp add: split)
  have props: "distinct (map fst ys) \<and> set ys = {p \<in> set xs. fst p \<noteq> f}"
  proof (cases bs rule: rev_cases)
    case Nil
    then have "ys = as" using xs len by (simp add: ys_def list_update_append butlast_append)
    then show ?thesis using assms(1) Nil fb by (auto simp: xs image_iff)
  next
    case (snoc bs' l)
    then have "ys = as @ l # bs'" using xs len by (simp add: ys_def list_update_append butlast_append)
    then show ?thesis using assms(1) snoc fb by (auto simp: xs image_iff)
  qed
  then show "distinct (map fst ys)" by simp
  show "map_of ys = (map_of xs)(f := None)"
  proof
    fix k
    have "map_of ys k = Some w \<longleftrightarrow> ((map_of xs)(f := None)) k = Some w" for w
      using props assms(1) by (auto simp: map_of_eq_Some_iff)
    then show "map_of ys k = ((map_of xs)(f := None)) k" by (metis option.exhaust)
  qed
qed

lemma map_of_snoc_new: "f \<notin> fst ` set al \<Longrightarrow> map_of (al @ [(f, v)]) = (map_of al)(f \<mapsto> v)"
  by (induction al) (auto simp: fun_upd_twist)

section \<open>Go maps\<close>

lemma map_of_gomap_set [simp]: "map_of (gomap_set al f v) = (map_of al)(f \<mapsto> v)"
  by (induction al f v rule: gomap_set.induct) (auto simp: fun_upd_twist)

lemma fst_gomap_set: "fst ` set (gomap_set al f v) = insert f (fst ` set al)"
  by (induction al f v rule: gomap_set.induct) auto

lemma distinct_gomap_set: "distinct (map fst al) \<Longrightarrow> distinct (map fst (gomap_set al f v))"
  by (induction al f v rule: gomap_set.induct) (auto simp: fst_gomap_set image_iff)

lemma map_of_gomap_del [simp]: "map_of (gomap_del al f) = (map_of al)(f := None)"
  by (induction al) (auto simp: gomap_del_def fun_eq_iff)

lemma distinct_gomap_del: "distinct (map fst al) \<Longrightarrow> distinct (map fst (gomap_del al f))"
  by (induction al) (auto simp: gomap_del_def)

lemma flat_to_map_props:
  "even i \<Longrightarrow> even (length kv) \<Longrightarrow> distinct (map fst al) \<Longrightarrow>
     map_of (flat_to_map kv i al) = map_of al ++ map_of (rev (flat_pairs (drop i kv)))
     \<and> distinct (map fst (flat_to_map kv i al))"
proof (induction kv i al rule: flat_to_map.induct)
  case (1 kv i al)
  show ?case
  proof (cases "i < length kv")
    case False
    then show ?thesis using 1 by (simp add: flat_to_map.simps)
  next
    case True
    have "Suc i < length kv" using True 1(2,3) by (metis Suc_lessI even_Suc)
    then have d: "drop i kv = kv ! i # kv ! (i + 1) # drop (i + 2) kv"
      by (simp add: Cons_nth_drop_Suc True)
    let ?al = "gomap_set al (kv ! i) (kv ! (i + 1))"
    have "flat_to_map kv i al = flat_to_map kv (i + 2) ?al"
      using True by (subst flat_to_map.simps) simp
    moreover have "map_of (flat_to_map kv (i + 2) ?al) = map_of ?al ++ map_of (rev (flat_pairs (drop (i + 2) kv)))
        \<and> distinct (map fst (flat_to_map kv (i + 2) ?al))"
      using 1(2-4) distinct_gomap_set [OF 1(4)] by (intro 1(1) [OF True]) simp_all
    moreover have "map_of ?al ++ map_of (rev (flat_pairs (drop (i + 2) kv)))
        = map_of al ++ map_of (rev (flat_pairs (drop i kv)))"
      unfolding d by (simp add: map_add_upd_left [symmetric] del: drop_drop)
    ultimately show ?thesis by simp
  qed
qed

section \<open>hashObj is a field map\<close>

definition hash_fields :: "hashObj \<Rightarrow> bytes \<rightharpoonup> bytes" where
  "hash_fields h = (case hm h of Some al \<Rightarrow> map_of al | None \<Rightarrow> map_of (flat_pairs (hkv h)))"

text \<open>The order in which \<open>HGETALL\<close> visits the fields.\<close>

definition hash_items :: "hashObj \<Rightarrow> (bytes \<times> bytes) list" where
  "hash_items h = (case hm h of Some al \<Rightarrow> al | None \<Rightarrow> flat_pairs (hkv h))"

definition hash_inv :: "hashObj \<Rightarrow> bool" where
  "hash_inv h \<longleftrightarrow> distinct (map fst (hash_items h)) \<and>
     (case hm h of Some _ \<Rightarrow> hkv h = []
      | None \<Rightarrow> even (length (hkv h)) \<and> length (hkv h) \<le> hashMaxFlat * 2)"

lemma hash_fields_items: "hash_fields h = map_of (hash_items h)"
  by (simp add: hash_fields_def hash_items_def split: option.split)

lemma hash_get_fields: "hash_inv h \<Longrightarrow> hash_get h f = hash_fields h f"
  using flat_find_None [of "hkv h" f] flat_find_Some [of "hkv h" f]
  by (fastforce simp: hash_inv_def hash_get_def hash_fields_def split: option.splits)

lemma hash_set_props:
  assumes "hash_inv h"
  shows "hash_inv (fst (hash_set h f v)) \<and> hash_fields (fst (hash_set h f v)) = (hash_fields h)(f \<mapsto> v)
    \<and> snd (hash_set h f v) = hash_fields h f \<and> hcost (fst (hash_set h f v)) = hcost h"
proof (cases "hm h")
  case (Some al)
  then show ?thesis using assms distinct_gomap_set [of al f v]
    by (simp add: hash_set_def hash_inv_def hash_items_def hash_fields_def)
next
  case flat: None
  then have kv: "even (length (hkv h))" "length (hkv h) \<le> hashMaxFlat * 2" "distinct (map fst (flat_pairs (hkv h)))"
    using assms by (simp_all add: hash_inv_def hash_items_def)
  show ?thesis
  proof (cases "flat_find (hkv h) f 0")
    case None
    then have new: "map_of (flat_pairs (hkv h)) f = None" using flat_find_None kv(1) by blast
    show ?thesis
    proof (cases "length (hkv h) \<ge> hashMaxFlat * 2")
      case True
      have "map_of (rev (flat_pairs (hkv h))) = map_of (flat_pairs (hkv h))"
        using kv(3) by (simp add: map_of_inject_set rev_map [symmetric])
      then show ?thesis
        using flat None True new flat_to_map_props [of 0 "hkv h" "[]"] kv
          distinct_gomap_set [of "flat_to_map (hkv h) 0 []" f v]
        by (simp add: hash_set_def hash_inv_def hash_items_def hash_fields_def)
    next
      case False
      have "length (hkv h) + 2 \<le> hashMaxFlat * 2" using False kv(1) by (auto elim!: evenE)
      then show ?thesis using flat None False new kv
          map_of_snoc_new [of f "flat_pairs (hkv h)" v]
        by (simp add: hash_set_def hash_inv_def hash_items_def hash_fields_def flat_pairs_append
            map_of_eq_None_iff [symmetric])
    qed
  next
    case (Some i)
    note found = flat_find_Some [OF kv(1) Some]
    have "flat_pairs ((hkv h)[i + 1 := v]) = (flat_pairs (hkv h))[i div 2 := (f, v)]"
      using flat_pairs_update [of i "hkv h" f v] found by (metis list_update_id)
    moreover have "fst (flat_pairs (hkv h) ! (i div 2)) = f" "i div 2 < length (flat_pairs (hkv h))"
      using found by (auto simp: flat_pairs_nth length_flat_pairs)
    ultimately show ?thesis using flat Some found kv alist_update_at [OF kv(3), of "i div 2" f v]
      by (simp add: hash_set_def hash_inv_def hash_items_def hash_fields_def)
  qed
qed

lemma list_of_length_2: "length xs = 2 \<Longrightarrow> \<exists>a b. xs = [a, b]"
  by (auto simp: numeral_2_eq_2 length_Suc_conv)

lemma hash_del_props:
  assumes "hash_inv h"
  shows "hash_inv (fst (hash_del h f)) \<and> hash_fields (fst (hash_del h f)) = (hash_fields h)(f := None)
    \<and> snd (hash_del h f) = hash_fields h f \<and> hcost (fst (hash_del h f)) = hcost h"
proof (cases "hm h")
  case (Some al)
  then show ?thesis using assms distinct_gomap_del [of al f]
    by (cases "map_of al f") (auto simp: hash_del_def hash_inv_def hash_items_def hash_fields_def)
next
  case flat: None
  let ?kv = "hkv h"
  let ?n = "length ?kv"
  have kv: "even ?n" "?n \<le> hashMaxFlat * 2" "distinct (map fst (flat_pairs ?kv))"
    using assms flat by (simp_all add: hash_inv_def hash_items_def)
  show ?thesis
  proof (cases "flat_find ?kv f 0")
    case None
    then have "map_of (flat_pairs ?kv) f = None" using flat_find_None kv(1) by blast
    then show ?thesis using flat None assms by (auto simp: hash_del_def hash_fields_def)
  next
    case (Some i)
    note found = flat_find_Some [OF kv(1) Some]
    let ?upd = "?kv[i := ?kv ! (?n - 2), i + 1 := ?kv ! (?n - 1)]"
    have n2: "2 \<le> ?n" using found by simp
    have "flat_pairs ?upd = (flat_pairs ?kv)[i div 2 := (?kv ! (?n - 2), ?kv ! (?n - 1))]"
      using found by (intro flat_pairs_update) auto
    moreover have "last (flat_pairs ?kv) = (?kv ! (?n - 2), ?kv ! (?n - 1))"
    proof -
      have "flat_pairs ?kv \<noteq> []" using n2 found by auto
      then have "last (flat_pairs ?kv) = flat_pairs ?kv ! (?n div 2 - 1)"
        using last_conv_nth [of "flat_pairs ?kv"] by (auto simp: length_flat_pairs)
      moreover have "2 * (?n div 2 - 1) = ?n - 2" "2 * (?n div 2 - 1) + 1 = ?n - 1"
        using kv(1) n2 by (auto elim!: evenE)
      ultimately show ?thesis using n2 by (simp add: flat_pairs_nth)
    qed
    moreover have "flat_pairs (take (?n - 2) ?upd) = butlast (flat_pairs ?upd)"
    proof -
      have "even (length (take (?n - 2) ?upd))" "length (drop (?n - 2) ?upd) = 2"
        using kv(1) n2 by auto
      moreover from this(2) obtain a b where "drop (?n - 2) ?upd = [a, b]"
        using list_of_length_2 by blast
      ultimately have "flat_pairs (take (?n - 2) ?upd @ drop (?n - 2) ?upd) = flat_pairs (take (?n - 2) ?upd) @ [(a, b)]"
        by (simp add: flat_pairs_append)
      then show ?thesis by simp
    qed
    ultimately have "flat_pairs (take (?n - 2) ?upd) = butlast ((flat_pairs ?kv)[i div 2 := last (flat_pairs ?kv)])"
      by simp
    moreover have "fst (flat_pairs ?kv ! (i div 2)) = f" "i div 2 < length (flat_pairs ?kv)"
      using found by (auto simp: flat_pairs_nth length_flat_pairs)
    ultimately show ?thesis using flat Some found kv n2 alist_swap_remove [OF kv(3), of "i div 2" f]
      by (simp add: hash_del_def hash_inv_def hash_items_def hash_fields_def Let_def)
  qed
qed

lemma hash_size_fields: "hash_inv h \<Longrightarrow> hash_size h = card (dom (hash_fields h))"
proof -
  assume "hash_inv h"
  then have "card (fst ` set (hash_items h)) = length (hash_items h)"
    by (metis distinct_card hash_inv_def length_map list.set_map)
  then show ?thesis
    by (auto simp: hash_fields_items dom_map_of_conv_image_fst hash_size_def hash_items_def
        length_flat_pairs split: option.splits)
qed

interpretation hobj: field_map hash_inv hash_fields hash_get hash_set hash_del hash_size
proof unfold_locales
  fix h show "finite (dom (hash_fields h))" by (simp add: hash_fields_items finite_dom_map_of)
qed (simp_all add: hash_get_fields hash_set_props hash_del_props hash_size_fields)

text \<open>
  \<^bold>\<open>C24\<close> A hash object, through its switch from the flat slice to the map, implements a finite map:
  \<open>set\<close> and \<open>del\<close> update exactly the given field and return its previous value, \<open>get\<close> and
  \<open>size\<close> read the map, and both keep the representation invariant.
\<close>

theorem hash_obj_correct:
  assumes "hash_inv h"
  shows "hash_get h f = hash_fields h f
    \<and> hash_fields (fst (hash_set h f v)) = (hash_fields h)(f \<mapsto> v)
    \<and> snd (hash_set h f v) = hash_fields h f
    \<and> hash_fields (fst (hash_del h f)) = (hash_fields h)(f := None)
    \<and> snd (hash_del h f) = hash_fields h f
    \<and> hash_size h = card (dom (hash_fields h))
    \<and> hash_inv (fst (hash_set h f v)) \<and> hash_inv (fst (hash_del h f))"
  by (simp add: assms hobj.get_fields hobj.set_fields hobj.set_old hobj.del_fields hobj.del_old
      hobj.size_fields hobj.set_invar hobj.del_invar)

lemma hash_inv_new [simp]: "hash_inv new_hashObj" "hash_fields new_hashObj = Map.empty"
  by (simp_all add: hash_inv_def new_hashObj_def hash_items_def hash_fields_def)

theorem hash_obj_correct_witness:
  "hash_inv new_hashObj \<and> hash_fields (fst (hash_set new_hashObj ''f'' ''v'')) = [''f'' \<mapsto> ''v'']"
  using hash_obj_correct [OF hash_inv_new(1), of "''f''" "''v''"] by simp

end
