(* ===== verification/Probe_Table.thy ===== *)
theory Probe_Table
  imports Go_Prelude
begin

text \<open>
  The open-addressing table of a shard (\<open>find\<close>, \<open>insert\<close>, \<open>del\<close> and \<open>rehash\<close> in
  \<open>redis/impl/go-1/store.go\<close>), seen as a slot array alone: linear probing in a power-of-two table
  with tombstones. The key behind an item address is the argument \<open>kf\<close>; the hash of the key is
  \<open>hk\<close>. Slots are kept as a datatype; the encoding in one \<open>uint64\<close> is treated at the end.
\<close>

section \<open>Slots\<close>

datatype slot = SEmpty | STomb | SRef nat nat  \<comment> \<open>hash tag and item address\<close>

definition shardBits :: nat where "shardBits = 8"

text \<open>The first probe position \<open>int(h>>shardBits) & mask\<close> and the tag \<open>h >> 48\<close>.\<close>

definition home :: "nat \<Rightarrow> nat \<Rightarrow> nat" where
  "home n h = (h div 2 ^ shardBits) AND (n - 1)"

definition tag_of :: "nat \<Rightarrow> nat" where
  "tag_of h = h div 2 ^ 48"

definition next_slot :: "nat \<Rightarrow> nat \<Rightarrow> nat" where
  "next_slot n i = (i + 1) AND (n - 1)"

section \<open>Operations\<close>

text \<open>The probe loop of \<open>find\<close>. The loop has no bound of its own; the counter makes the model
  total and \<open>None\<close> stands for a probe that has gone round the whole table.\<close>

fun find_loop :: "slot list \<Rightarrow> (nat \<Rightarrow> bytes) \<Rightarrow> bytes \<Rightarrow> nat \<Rightarrow> nat \<Rightarrow> nat \<Rightarrow> nat option
    \<Rightarrow> (nat option \<times> nat option) option" where
  "find_loop sl kf key tag 0 i ins = None"
| "find_loop sl kf key tag (Suc k) i ins =
     (case sl ! i of
        SEmpty \<Rightarrow> Some (None, if ins = None then Some i else ins)
      | STomb \<Rightarrow> find_loop sl kf key tag k (next_slot (length sl) i) (if ins = None then Some i else ins)
      | SRef t a \<Rightarrow>
          if t = tag \<and> kf a = key then Some (Some i, ins)
          else find_loop sl kf key tag k (next_slot (length sl) i) ins)"

text \<open>The slot update of \<open>del\<close>: no tombstone is needed before an empty slot.\<close>

definition clear_slot :: "slot list \<Rightarrow> nat \<Rightarrow> slot list" where
  "clear_slot sl idx =
     (if sl ! next_slot (length sl) idx = SEmpty then sl[idx := SEmpty] else sl[idx := STomb])"

text \<open>The inner loop of \<open>rehash\<close>: the first empty slot from a position on.\<close>

fun place_loop :: "slot list \<Rightarrow> nat \<Rightarrow> nat \<Rightarrow> nat option" where
  "place_loop sl 0 i = None"
| "place_loop sl (Suc k) i =
     (if sl ! i \<noteq> SEmpty then place_loop sl k (next_slot (length sl) i) else Some i)"

definition place :: "(bytes \<Rightarrow> nat) \<Rightarrow> (nat \<Rightarrow> bytes) \<Rightarrow> slot list \<Rightarrow> slot \<Rightarrow> slot list" where
  "place hk kf sl v =
     (case v of
        SRef t a \<Rightarrow>
          (case place_loop sl (length sl) (home (length sl) (hk (kf a))) of
             Some i \<Rightarrow> sl[i := v]
           | None \<Rightarrow> sl)
      | _ \<Rightarrow> sl)"

definition rehash_slots :: "(bytes \<Rightarrow> nat) \<Rightarrow> (nat \<Rightarrow> bytes) \<Rightarrow> slot list \<Rightarrow> nat \<Rightarrow> slot list" where
  "rehash_slots hk kf old n = foldl (place hk kf) (replicate n SEmpty) old"

section \<open>The table invariant\<close>

definition ref_at :: "slot list \<Rightarrow> nat \<Rightarrow> nat \<Rightarrow> bool" where
  "ref_at sl i a \<longleftrightarrow> i < length sl \<and> (\<exists>t. sl ! i = SRef t a)"

definition refs :: "slot list \<Rightarrow> nat set" where
  "refs sl = {a. \<exists>i. ref_at sl i a}"

primrec addrs :: "slot list \<Rightarrow> nat list" where
  "addrs [] = []"
| "addrs (v # sl) = (case v of SRef t a \<Rightarrow> a # addrs sl | _ \<Rightarrow> addrs sl)"

definition n_tombs :: "slot list \<Rightarrow> nat" where
  "n_tombs sl = length (filter (\<lambda>v. v = STomb) sl)"

definition n_empty :: "slot list \<Rightarrow> nat" where
  "n_empty sl = length (filter (\<lambda>v. v = SEmpty) sl)"

text \<open>Position \<open>d\<close> of the probe sequence that starts at \<open>h0\<close>, and: all positions before \<open>d\<close> are
  in use.\<close>

definition probe :: "nat \<Rightarrow> nat \<Rightarrow> nat \<Rightarrow> nat" where
  "probe n h0 d = (h0 + d) mod n"

definition busy :: "slot list \<Rightarrow> nat \<Rightarrow> nat \<Rightarrow> bool" where
  "busy sl h0 d \<longleftrightarrow> (\<forall>e < d. sl ! probe (length sl) h0 e \<noteq> SEmpty)"

definition reachable_at :: "slot list \<Rightarrow> nat \<Rightarrow> nat \<Rightarrow> bool" where
  "reachable_at sl h0 i \<longleftrightarrow> (\<exists>d < length sl. probe (length sl) h0 d = i \<and> busy sl h0 d)"

definition tbl_ok :: "(bytes \<Rightarrow> nat) \<Rightarrow> (nat \<Rightarrow> bytes) \<Rightarrow> slot list \<Rightarrow> bool" where
  "tbl_ok hk kf sl \<longleftrightarrow> pow2 (length sl) \<and> 0 < n_empty sl
     \<and> (\<forall>i t a. i < length sl \<longrightarrow> sl ! i = SRef t a \<longrightarrow>
          t = tag_of (hk (kf a)) \<and> reachable_at sl (home (length sl) (hk (kf a))) i)
     \<and> (\<forall>i j a b. ref_at sl i a \<longrightarrow> ref_at sl j b \<longrightarrow> kf a = kf b \<longrightarrow> i = j)"

lemma tbl_okI:
  assumes "pow2 (length sl)" "0 < n_empty sl"
    and "\<And>i t a. i < length sl \<Longrightarrow> sl ! i = SRef t a \<Longrightarrow>
      t = tag_of (hk (kf a)) \<and> reachable_at sl (home (length sl) (hk (kf a))) i"
    and "\<And>i j a b. ref_at sl i a \<Longrightarrow> ref_at sl j b \<Longrightarrow> kf a = kf b \<Longrightarrow> i = j"
  shows "tbl_ok hk kf sl"
  unfolding tbl_ok_def using assms by blast

lemma tbl_ok_reach: "tbl_ok hk kf sl \<Longrightarrow> ref_at sl i a \<Longrightarrow> reachable_at sl (home (length sl) (hk (kf a))) i"
  by (auto simp: tbl_ok_def ref_at_def)

lemma tbl_ok_inj: "tbl_ok hk kf sl \<Longrightarrow> ref_at sl i a \<Longrightarrow> ref_at sl j b \<Longrightarrow> kf a = kf b \<Longrightarrow> i = j"
  unfolding tbl_ok_def by blast

lemma ref_at_fun: "ref_at sl i a \<Longrightarrow> ref_at sl i b \<Longrightarrow> a = b"
  by (auto simp: ref_at_def)

section \<open>Probing\<close>

lemma home_less: "pow2 n \<Longrightarrow> home n h < n"
  by (simp add: home_def and_mask_mod pow2_pos mod_less_divisor del: One_nat_def)

lemma next_slot_mod: "pow2 n \<Longrightarrow> next_slot n i = (i + 1) mod n"
  unfolding next_slot_def by (rule and_mask_mod)

lemma next_probe: "pow2 n \<Longrightarrow> next_slot n (probe n h0 d) = probe n h0 (Suc d)"
  by (simp add: next_slot_mod probe_def mod_Suc_eq)

lemma probe_0: "h0 < n \<Longrightarrow> probe n h0 0 = h0"
  by (simp add: probe_def)

lemma probe_less: "0 < n \<Longrightarrow> probe n h0 d < n"
  by (simp add: probe_def)

lemma probe_surj: "h0 < n \<Longrightarrow> i < n \<Longrightarrow> \<exists>d < n. probe n h0 d = i"
proof (cases "h0 \<le> i")
  case True
  assume "h0 < n" "i < n"
  then show ?thesis using True by (intro exI [of _ "i - h0"]) (simp add: probe_def)
next
  case False
  assume *: "h0 < n" "i < n"
  then have "(h0 + (n - h0 + i)) mod n = i" by simp
  then show ?thesis using False * by (intro exI [of _ "n - h0 + i"]) (simp add: probe_def)
qed

lemma probe_inj: "probe n h0 d = probe n h0 e \<Longrightarrow> d < n \<Longrightarrow> e < n \<Longrightarrow> d = e"
proof (induction d e rule: linorder_wlog)
  case (le d e)
  then have "n dvd (h0 + e) - (h0 + d)" unfolding probe_def by (metis add_left_mono mod_eq_dvd_iff_nat)
  then have "n dvd e - d" by simp
  moreover have "e - d < n" using le by simp
  ultimately have "e - d = 0" by (meson dvd_imp_le not_le zero_less_iff_neq_zero)
  with le show ?case by simp
qed auto

lemma busy_0 [simp]: "busy sl h0 0"
  by (simp add: busy_def)

lemma busy_Suc: "busy sl h0 (Suc d) \<longleftrightarrow> busy sl h0 d \<and> sl ! probe (length sl) h0 d \<noteq> SEmpty"
  by (auto simp: busy_def less_Suc_eq)

lemma n_empty_pos: "0 < n_empty sl \<longleftrightarrow> (\<exists>i < length sl. sl ! i = SEmpty)"
  by (auto simp: n_empty_def filter_empty_conv in_set_conv_nth)

lemma not_all_busy:
  assumes "0 < n_empty sl" "h0 < length sl"
  shows "\<not> busy sl h0 (length sl)"
proof -
  obtain i where "i < length sl" "sl ! i = SEmpty" using assms(1) by (auto simp: n_empty_pos)
  then show ?thesis using probe_surj [OF assms(2)] by (auto simp: busy_def)
qed

section \<open>find\<close>

text \<open>A slot in which the key may be stored: free, and reached by its probe sequence.\<close>

definition ins_ok :: "slot list \<Rightarrow> nat \<Rightarrow> nat \<Rightarrow> bool" where
  "ins_ok sl h0 j \<longleftrightarrow> j < length sl \<and> (sl ! j = SEmpty \<or> sl ! j = STomb) \<and> reachable_at sl h0 j"

lemma find_loop_spec:
  assumes tbl: "tbl_ok hk kf sl" and h0: "h0 = home (length sl) (hk key)"
    and d: "d \<le> length sl" "k = length sl - d" "i = probe (length sl) h0 d" "busy sl h0 d"
    and miss: "\<forall>e < d. \<forall>t a. sl ! probe (length sl) h0 e = SRef t a \<longrightarrow> kf a \<noteq> key"
    and ins: "\<forall>j. ins = Some j \<longrightarrow> ins_ok sl h0 j \<and> sl ! j = STomb"
  shows "\<exists>idx ins'. find_loop sl kf key (tag_of (hk key)) k i ins = Some (idx, ins')
    \<and> (\<forall>j. ins' = Some j \<longrightarrow> ins_ok sl h0 j \<and> (idx \<noteq> None \<longrightarrow> sl ! j = STomb))
    \<and> (case idx of
         Some j \<Rightarrow> \<exists>a. ref_at sl j a \<and> kf a = key
       | None \<Rightarrow> ins' \<noteq> None \<and> (\<forall>j a. ref_at sl j a \<longrightarrow> kf a \<noteq> key))"
  using d miss ins
proof (induction k arbitrary: d i ins)
  case 0
  have "h0 < length sl" "0 < n_empty sl" using tbl h0 by (auto simp: tbl_ok_def home_less)
  moreover have "d = length sl" using 0 by simp
  ultimately have False using 0 not_all_busy by blast
  then show ?case ..
next
  case (Suc k)
  have p2: "pow2 (length sl)" using tbl by (simp add: tbl_ok_def)
  have h0n: "h0 < length sl" using p2 h0 by (simp add: home_less)
  have dn: "d < length sl" using Suc.prems by simp
  have i: "i < length sl" unfolding Suc.prems(3) using h0n by (intro probe_less) linarith
  have reach: "reachable_at sl h0 i" using Suc.prems dn by (auto simp: reachable_at_def)
  have step: "Suc d \<le> length sl" "k = length sl - Suc d" "next_slot (length sl) i = probe (length sl) h0 (Suc d)"
    using dn Suc.prems(2,3) next_probe [OF p2] by simp_all
  show ?case
  proof (cases "sl ! i")
    case SEmpty
    have "kf a \<noteq> key" if ra: "ref_at sl j a" for j a
    proof
      assume "kf a = key"
      then obtain e where e: "e < length sl" "probe (length sl) h0 e = j" "busy sl h0 e"
        using tbl_ok_reach [OF tbl ra] h0 by (auto simp: reachable_at_def)
      have "e < d \<or> e = d \<or> d < e" by linarith
      then show False
      proof (elim disjE)
        assume "e < d" then show False using Suc.prems(5) e ra \<open>kf a = key\<close> by (auto simp: ref_at_def)
      next
        assume "e = d" then show False using SEmpty Suc.prems(3) e ra by (auto simp: ref_at_def)
      next
        assume "d < e" then show False using SEmpty Suc.prems(3) e by (auto simp: busy_def)
      qed
    qed
    moreover have "\<forall>j. (if ins = None then Some i else ins) = Some j \<longrightarrow> ins_ok sl h0 j"
      using Suc.prems(6) SEmpty i reach by (auto simp: ins_ok_def)
    ultimately show ?thesis using SEmpty by auto
  next
    case STomb
    let ?ins = "if ins = None then Some i else ins"
    have "\<forall>j. ?ins = Some j \<longrightarrow> ins_ok sl h0 j \<and> sl ! j = STomb"
      using Suc.prems(6) STomb i reach by (auto simp: ins_ok_def)
    moreover have "\<forall>e < Suc d. \<forall>t a. sl ! probe (length sl) h0 e = SRef t a \<longrightarrow> kf a \<noteq> key"
      using Suc.prems(3,5) STomb by (auto simp: less_Suc_eq)
    moreover have "busy sl h0 (Suc d)" using Suc.prems(3,4) STomb by (simp add: busy_Suc)
    ultimately show ?thesis
      using Suc.IH [OF step, of ?ins] STomb by simp
  next
    case (SRef t a)
    have ra: "ref_at sl i a" using SRef i by (auto simp: ref_at_def)
    have t: "t = tag_of (hk (kf a))" using tbl SRef i by (auto simp: tbl_ok_def)
    show ?thesis
    proof (cases "kf a = key")
      case True
      then show ?thesis using SRef t Suc.prems(6) ra by auto
    next
      case False
      have "\<forall>e < Suc d. \<forall>t a. sl ! probe (length sl) h0 e = SRef t a \<longrightarrow> kf a \<noteq> key"
        using Suc.prems(3,5) SRef False by (auto simp: less_Suc_eq)
      moreover have "busy sl h0 (Suc d)" using Suc.prems(3,4) SRef by (simp add: busy_Suc)
      ultimately show ?thesis
        using Suc.IH [OF step, of ins] Suc.prems(6) SRef False by simp
    qed
  qed
qed

lemma find_correct:
  assumes "tbl_ok hk kf sl"
  shows "\<exists>idx ins. find_loop sl kf key (tag_of (hk key)) (length sl) (home (length sl) (hk key)) None = Some (idx, ins)
    \<and> (\<forall>j. ins = Some j \<longrightarrow> ins_ok sl (home (length sl) (hk key)) j \<and> (idx \<noteq> None \<longrightarrow> sl ! j = STomb))
    \<and> (case idx of
         Some j \<Rightarrow> \<exists>a. ref_at sl j a \<and> kf a = key
       | None \<Rightarrow> ins \<noteq> None \<and> (\<forall>j a. ref_at sl j a \<longrightarrow> kf a \<noteq> key))"
proof -
  let ?h0 = "home (length sl) (hk key)"
  have "?h0 < length sl" using assms by (simp add: tbl_ok_def home_less)
  then have "?h0 = probe (length sl) ?h0 0" using probe_0 by metis
  from find_loop_spec [OF assms refl _ _ this, of "length sl" None] show ?thesis by simp
qed

section \<open>Updating slots\<close>

lemma set_addrs: "set (addrs sl) = refs sl"
proof (induction sl)
  case Nil
  then show ?case by (simp add: refs_def ref_at_def)
next
  case (Cons v sl)
  have "refs (v # sl) = {a. \<exists>t. v = SRef t a} \<union> refs sl"
  proof (intro set_eqI iffI)
    fix a assume "a \<in> refs (v # sl)"
    then obtain i where "ref_at (v # sl) i a" by (auto simp: refs_def)
    then show "a \<in> {a. \<exists>t. v = SRef t a} \<union> refs sl" by (cases i) (auto simp: ref_at_def refs_def)
  next
    fix a assume "a \<in> {a. \<exists>t. v = SRef t a} \<union> refs sl"
    then have "ref_at (v # sl) 0 a \<or> (\<exists>i. ref_at (v # sl) (Suc i) a)" by (auto simp: ref_at_def refs_def)
    then show "a \<in> refs (v # sl)" by (auto simp: refs_def)
  qed
  with Cons show ?case by (auto split: slot.splits)
qed

lemma finite_refs [simp]: "finite (refs sl)"
  by (simp add: set_addrs [symmetric])

lemma length_addrs: "length (addrs sl) + n_tombs sl + n_empty sl = length sl"
  by (induction sl) (auto simp: n_tombs_def n_empty_def split: slot.splits)

lemma refs_cong:
  assumes "\<forall>a \<in> refs sl. kf a = kf' a" "tbl_ok hk kf sl"
  shows "tbl_ok hk kf' sl"
proof -
  have "kf a = kf' a" if "ref_at sl i a" for i a using assms(1) that by (auto simp: refs_def)
  then show ?thesis using assms(2) unfolding tbl_ok_def ref_at_def by metis
qed

lemma ref_at_unique: "tbl_ok hk kf sl \<Longrightarrow> ref_at sl i a \<Longrightarrow> ref_at sl j a \<Longrightarrow> i = j"
  by (auto simp: tbl_ok_def)

lemma distinct_addrs: "tbl_ok hk kf sl \<Longrightarrow> distinct (map kf (addrs sl))"
proof -
  assume tbl: "tbl_ok hk kf sl"
  have inj: "\<forall>i j a b. ref_at sl i a \<longrightarrow> ref_at sl j b \<longrightarrow> kf a = kf b \<longrightarrow> i = j"
    using tbl by (auto simp: tbl_ok_def)
  then show ?thesis
  proof (induction sl)
    case (Cons v sl)
    have sub: "ref_at sl i a \<Longrightarrow> ref_at (v # sl) (Suc i) a" for i a by (auto simp: ref_at_def)
    then have "distinct (map kf (addrs sl))" using Cons by (metis nat.inject)
    moreover have "kf a \<notin> kf ` refs sl" if "v = SRef t a" for t a
    proof
      assume "kf a \<in> kf ` refs sl"
      then obtain b i where "ref_at sl i b" "kf a = kf b" by (auto simp: refs_def)
      moreover have "ref_at (v # sl) 0 a" using that by (auto simp: ref_at_def)
      ultimately show False using Cons.prems sub by (metis nat.distinct(1))
    qed
    ultimately show ?case by (auto simp: set_addrs split: slot.splits)
  qed simp
qed

lemma card_refs: "tbl_ok hk kf sl \<Longrightarrow> card (refs sl) + n_tombs sl + n_empty sl = length sl"
  using distinct_addrs [of hk kf sl] length_addrs [of sl]
  by (simp add: set_addrs [symmetric] distinct_card distinct_map)

lemma n_empty_update:
  "i < length sl \<Longrightarrow> n_empty (sl[i := v]) + (if sl ! i = SEmpty then 1 else 0) = n_empty sl + (if v = SEmpty then 1 else 0)"
  unfolding n_empty_def by (rule length_filter_update)

lemma n_tombs_update:
  "i < length sl \<Longrightarrow> n_tombs (sl[i := v]) + (if sl ! i = STomb then 1 else 0) = n_tombs sl + (if v = STomb then 1 else 0)"
  unfolding n_tombs_def by (rule length_filter_update)

lemma ref_at_update:
  "i < length sl \<Longrightarrow> ref_at (sl[i := v]) j b \<longleftrightarrow> (if j = i then \<exists>t. v = SRef t b else ref_at sl j b)"
  by (auto simp: ref_at_def nth_list_update)

lemma busy_update:
  "busy sl h0 d \<Longrightarrow> v \<noteq> SEmpty \<Longrightarrow> busy (sl[i := v]) h0 d"
  unfolding busy_def by (metis length_list_update nth_list_update_eq nth_list_update_neq list_update_beyond not_le)

lemma reachable_at_update:
  "reachable_at sl h0 j \<Longrightarrow> v \<noteq> SEmpty \<Longrightarrow> reachable_at (sl[i := v]) h0 j"
  using busy_update unfolding reachable_at_def by (metis length_list_update)

lemma tbl_insert:
  assumes tbl: "tbl_ok hk kf sl" and ins: "ins_ok sl (home (length sl) (hk (kf a))) j"
    and new: "\<And>i b. ref_at sl i b \<Longrightarrow> kf b \<noteq> kf a"
    and room: "0 < n_empty (sl[j := SRef (tag_of (hk (kf a))) a])"
  defines "sl' \<equiv> sl[j := SRef (tag_of (hk (kf a))) a]"
  shows "tbl_ok hk kf sl'" "refs sl' = insert a (refs sl)"
proof -
  have j: "j < length sl" using ins by (simp add: ins_ok_def)
  note at = ref_at_update [OF j]
  have free: "\<not> ref_at sl j b" for b using ins by (auto simp: ins_ok_def ref_at_def)
  have reach: "t = tag_of (hk (kf b)) \<and> reachable_at sl' (home (length sl') (hk (kf b))) i"
    if i: "i < length sl'" "sl' ! i = SRef t b" for i t b
  proof (cases "i = j")
    case True
    then have "t = tag_of (hk (kf a))" "b = a" using i j by (auto simp: sl'_def)
    then show ?thesis using True ins reachable_at_update [of sl _ j _ j] by (simp add: sl'_def ins_ok_def)
  next
    case False
    then have "i < length sl" "sl ! i = SRef t b" using i by (simp_all add: sl'_def)
    then have "t = tag_of (hk (kf b)) \<and> reachable_at sl (home (length sl) (hk (kf b))) i"
      using tbl by (auto simp: tbl_ok_def)
    then show ?thesis using reachable_at_update by (simp add: sl'_def)
  qed
  have inj: "i = i'" if "ref_at sl' i b" "ref_at sl' i' c" "kf b = kf c" for i i' b c
  proof -
    show ?thesis using that new [of i b] new [of i' c] tbl_ok_inj [OF tbl, of i b i' c]
      unfolding sl'_def at by (auto split: if_splits)
  qed
  have "pow2 (length sl')" "0 < n_empty sl'" using tbl room by (simp_all add: tbl_ok_def sl'_def)
  then show "tbl_ok hk kf sl'" using reach inj by (rule tbl_okI)
  have "b \<in> refs sl' \<longleftrightarrow> b \<in> insert a (refs sl)" for b
  proof -
    have "ref_at sl' i b" if "ref_at sl i b" for i
      using that free unfolding sl'_def at by auto
    moreover have "ref_at sl' j a" unfolding sl'_def at by simp
    moreover have "b = a \<or> ref_at sl i b" if "ref_at sl' i b" for i
      using that unfolding sl'_def at by (auto split: if_splits)
    ultimately show ?thesis by (auto simp: refs_def)
  qed
  then show "refs sl' = insert a (refs sl)" by blast
qed

lemma clear_reach:
  assumes p2: "pow2 (length sl)" and i: "idx < length sl" and r: "reachable_at sl h0 j" "sl ! j \<noteq> SEmpty"
  shows "reachable_at (clear_slot sl idx) h0 j"
proof (cases "sl ! next_slot (length sl) idx = SEmpty")
  case False
  then show ?thesis using r(1) reachable_at_update [of sl h0 j STomb idx] by (simp add: clear_slot_def)
next
  case True
  let ?n = "length sl"
  from r(1) obtain d where d: "d < ?n" "probe ?n h0 d = j" "busy sl h0 d" by (auto simp: reachable_at_def)
  have "probe ?n h0 e \<noteq> idx" if "e < d" for e
  proof
    assume e: "probe ?n h0 e = idx"
    then have "probe ?n h0 (Suc e) = next_slot ?n idx" using next_probe [OF p2] by metis
    then have empty: "sl ! probe ?n h0 (Suc e) = SEmpty" using True by simp
    show False
    proof (cases "Suc e = d")
      case True
      then show False using empty d(2) r(2) by auto
    next
      case False
      then show False using empty d(3) that by (auto simp: busy_def)
    qed
  qed
  then have "busy (sl[idx := SEmpty]) h0 d" using d(3) unfolding busy_def by (metis length_list_update nth_list_update_neq)
  then show ?thesis using d True by (auto simp: reachable_at_def clear_slot_def)
qed

lemma tbl_clear:
  assumes tbl: "tbl_ok hk kf sl" and idx: "ref_at sl idx a"
  shows "tbl_ok hk kf (clear_slot sl idx)" "refs (clear_slot sl idx) = refs sl - {a}"
proof -
  let ?n = "length sl"
  have i: "idx < ?n" using idx by (simp add: ref_at_def)
  have p2: "pow2 ?n" using tbl by (simp add: tbl_ok_def)
  obtain v where v: "clear_slot sl idx = sl[idx := v]" "v = SEmpty \<or> v = STomb"
    "v = SEmpty \<Longrightarrow> sl ! next_slot ?n idx = SEmpty"
    by (cases "sl ! next_slot ?n idx = SEmpty") (auto simp: clear_slot_def)
  note at = ref_at_update [OF i]
  have ref_iff: "ref_at (sl[idx := v]) j b \<longleftrightarrow> j \<noteq> idx \<and> ref_at sl j b" for j b
    using v(2) by (auto simp: at)
  have path: "reachable_at (sl[idx := v]) h0 j" if r: "reachable_at sl h0 j" "ref_at sl j b" for h0 j b
    using clear_reach [OF p2 i r(1)] r(2) v(1) by (auto simp: ref_at_def)
  have "t = tag_of (hk (kf b)) \<and> reachable_at (sl[idx := v]) (home (length (sl[idx := v])) (hk (kf b))) j"
    if j: "j < length (sl[idx := v])" "sl[idx := v] ! j = SRef t b" for j t b
  proof -
    have "j \<noteq> idx" using j i v(2) by auto
    then have "ref_at sl j b" "sl ! j = SRef t b" "j < ?n" using j by (auto simp: ref_at_def)
    moreover from this have "t = tag_of (hk (kf b)) \<and> reachable_at sl (home ?n (hk (kf b))) j"
      using tbl by (auto simp: tbl_ok_def)
    ultimately show ?thesis using path by simp
  qed
  moreover have "0 < n_empty (sl[idx := v])"
    using n_empty_update [OF i, of v] tbl idx by (auto simp: tbl_ok_def ref_at_def split: if_splits)
  moreover have "\<forall>i' j' c b. ref_at (sl[idx := v]) i' c \<longrightarrow> ref_at (sl[idx := v]) j' b \<longrightarrow> kf c = kf b \<longrightarrow> i' = j'"
    using tbl unfolding tbl_ok_def ref_iff by metis
  ultimately show "tbl_ok hk kf (clear_slot sl idx)" using p2 unfolding v(1) tbl_ok_def by auto
  show "refs (clear_slot sl idx) = refs sl - {a}"
  proof (intro set_eqI iffI)
    fix b assume "b \<in> refs (clear_slot sl idx)"
    then obtain j where "j \<noteq> idx" "ref_at sl j b" by (auto simp: refs_def v(1) ref_iff)
    then show "b \<in> refs sl - {a}" using ref_at_unique [OF tbl, of j b idx] idx by (auto simp: refs_def)
  next
    fix b assume "b \<in> refs sl - {a}"
    then obtain j where "ref_at sl j b" "b \<noteq> a" by (auto simp: refs_def)
    moreover from this have "j \<noteq> idx" using ref_at_fun idx by blast
    ultimately show "b \<in> refs (clear_slot sl idx)" by (auto simp: refs_def v(1) ref_iff)
  qed
qed

section \<open>rehash\<close>

lemma place_loop_spec:
  assumes n: "pow2 (length sl)" "0 < n_empty sl" "h0 < length sl"
    and d: "d \<le> length sl" "k = length sl - d" "i = probe (length sl) h0 d" "busy sl h0 d"
  shows "\<exists>j. place_loop sl k i = Some j \<and> sl ! j = SEmpty \<and> ins_ok sl h0 j"
  using d
proof (induction k arbitrary: d i)
  case 0
  then have "d = length sl" by simp
  then show ?case using 0 not_all_busy [OF n(2,3)] by simp
next
  case (Suc k)
  have dn: "d < length sl" using Suc.prems by simp
  have i: "i < length sl" unfolding Suc.prems(3) using n(3) by (intro probe_less) linarith
  have step: "Suc d \<le> length sl" "k = length sl - Suc d" "next_slot (length sl) i = probe (length sl) h0 (Suc d)"
    using dn Suc.prems(2,3) next_probe [OF n(1)] by simp_all
  show ?case
  proof (cases "sl ! i = SEmpty")
    case True
    then show ?thesis using i dn Suc.prems(3,4) by (auto simp: ins_ok_def reachable_at_def)
  next
    case False
    then have "busy sl h0 (Suc d)" using Suc.prems(3,4) by (simp add: busy_Suc)
    then show ?thesis using Suc.IH [OF step] False by simp
  qed
qed

text \<open>The references still to be moved carry the right tags, have distinct keys that are not yet
  in the new table, and the new table has room for all of them.\<close>

definition movable :: "(bytes \<Rightarrow> nat) \<Rightarrow> (nat \<Rightarrow> bytes) \<Rightarrow> slot list \<Rightarrow> slot list \<Rightarrow> bool" where
  "movable hk kf sl vs \<longleftrightarrow> (\<forall>t a. SRef t a \<in> set vs \<longrightarrow> t = tag_of (hk (kf a)))
     \<and> distinct (map kf (addrs vs)) \<and> kf ` set (addrs vs) \<inter> kf ` refs sl = {}
     \<and> length (addrs vs) < n_empty sl"

lemma place_step:
  assumes tbl: "tbl_ok hk kf sl" and mv: "movable hk kf sl (SRef t a # vs)"
  defines "sl' \<equiv> place hk kf sl (SRef t a)"
  shows "tbl_ok hk kf sl' \<and> movable hk kf sl' vs \<and> refs sl' = insert a (refs sl)
    \<and> n_tombs sl' = n_tombs sl \<and> length sl' = length sl"
proof -
  let ?h0 = "home (length sl) (hk (kf a))"
  have n: "pow2 (length sl)" "0 < n_empty sl" using tbl by (auto simp: tbl_ok_def)
  then have h0: "?h0 < length sl" by (simp add: home_less)
  have t: "t = tag_of (hk (kf a))" using mv by (auto simp: movable_def)
  obtain j where pl: "place_loop sl (length sl) ?h0 = Some j" and j: "sl ! j = SEmpty" "ins_ok sl ?h0 j"
    using place_loop_spec [OF n h0, of 0 "length sl" ?h0] probe_0 [OF h0] by auto
  have sl': "sl' = sl[j := SRef (tag_of (hk (kf a))) a]" using pl t by (simp add: sl'_def place_def)
  have jn: "j < length sl" using j by (simp add: ins_ok_def)
  have empties: "n_empty sl' + 1 = n_empty sl" and tombs: "n_tombs sl' = n_tombs sl"
    using n_empty_update [OF jn, of "SRef (tag_of (hk (kf a))) a"] n_tombs_update [OF jn, of "SRef (tag_of (hk (kf a))) a"] j
    by (simp_all add: sl')
  have room: "0 < n_empty sl'" using empties mv by (simp add: movable_def)
  have new: "kf b \<noteq> kf a" if "ref_at sl i b" for i b
  proof -
    have "b \<in> refs sl" using that by (auto simp: refs_def)
    then have "kf b \<in> kf ` refs sl" by (rule imageI)
    moreover have "kf a \<notin> kf ` refs sl" using mv by (auto simp: movable_def)
    ultimately show ?thesis by metis
  qed
  note ins = tbl_insert [OF tbl j(2) new room [unfolded sl'], folded sl']
  have "movable hk kf sl' vs" using mv empties by (auto simp: movable_def ins)
  then show ?thesis using ins tombs by (simp add: sl')
qed

lemma place_all:
  "tbl_ok hk kf sl \<Longrightarrow> movable hk kf sl vs \<Longrightarrow>
     tbl_ok hk kf (foldl (place hk kf) sl vs) \<and> refs (foldl (place hk kf) sl vs) = refs sl \<union> set (addrs vs)
     \<and> n_tombs (foldl (place hk kf) sl vs) = n_tombs sl \<and> length (foldl (place hk kf) sl vs) = length sl"
proof (induction vs arbitrary: sl)
  case (Cons v vs)
  show ?case
  proof (cases v)
    case (SRef t a)
    then show ?thesis using place_step [of hk kf sl t a vs] Cons.prems Cons.IH [of "place hk kf sl v"] by auto
  qed (use Cons in \<open>auto simp: place_def movable_def\<close>)
qed simp

lemma empty_table: "pow2 n \<Longrightarrow> tbl_ok hk kf (replicate n SEmpty)"
  "refs (replicate n SEmpty) = {}" "n_tombs (replicate n SEmpty) = 0" "n_empty (replicate n SEmpty) = n"
  using pow2_pos [of n] by (auto simp: tbl_ok_def refs_def ref_at_def n_tombs_def n_empty_def)

lemma rehash_ok:
  assumes tbl: "tbl_ok hk kf old" and n: "pow2 n" "card (refs old) < n"
  shows "tbl_ok hk kf (rehash_slots hk kf old n) \<and> refs (rehash_slots hk kf old n) = refs old
    \<and> n_tombs (rehash_slots hk kf old n) = 0 \<and> length (rehash_slots hk kf old n) = n"
proof -
  have "length (addrs old) = card (refs old)"
    using distinct_addrs [OF tbl] by (simp add: set_addrs [symmetric] distinct_card distinct_map)
  moreover have "t = tag_of (hk (kf a))" if "SRef t a \<in> set old" for t a
    using tbl that by (auto simp: tbl_ok_def in_set_conv_nth)
  ultimately have "movable hk kf (replicate n SEmpty) old"
    using n distinct_addrs [OF tbl] by (auto simp: movable_def empty_table)
  from place_all [OF empty_table(1) [OF n(1)] this] show ?thesis
    by (simp add: rehash_slots_def empty_table set_addrs)
qed

text \<open>The size computed by \<open>grow\<close> and \<open>grow0\<close>: the loop doubles \<open>n\<close>, starting at 8, until three
  quarters of the table exceed twice the count.\<close>

function grow_size :: "int \<Rightarrow> nat \<Rightarrow> nat" where
  "grow_size c n = (if n > 0 \<and> int n * 3 < (c + 1) * 4 * 2 then grow_size c (n * 2) else n)"
  by auto
termination by (relation "measure (\<lambda>(c, n). nat ((c + 1) * 8 - int n * 3))") auto

declare grow_size.simps [simp del]

lemma grow_size_ok: "pow2 n \<Longrightarrow> pow2 (grow_size c n) \<and> (c + 1) * 8 \<le> 3 * int (grow_size c n)"
proof (induction c n rule: grow_size.induct)
  case (1 c n)
  have "pow2 (n * 2)" using 1 by (auto simp: pow2_def intro: exI [of _ "Suc _"])
  then show ?case using 1 pow2_pos [of n] by (subst (1 2) grow_size.simps) auto
qed

section \<open>The slot word\<close>

text \<open>A slot is one \<open>uint64\<close>: 0 is empty, 1 is \<open>tomb\<close>, anything else is
  \<open>uint64(it) | (h>>48)<<48\<close>. The tests and projections the code uses on the word agree with the
  constructors as long as item addresses are user-space addresses above 1.\<close>

definition ptrMask :: "64 word" where "ptrMask = push_bit 48 1 - 1"

definition slot_word :: "slot \<Rightarrow> 64 word" where
  "slot_word v = (case v of SEmpty \<Rightarrow> 0 | STomb \<Rightarrow> 1 | SRef t a \<Rightarrow> of_nat a OR push_bit 48 (of_nat t))"

lemma ptrMask_mask: "ptrMask = mask 48"
  by (simp add: ptrMask_def mask_eq_decr_exp push_bit_eq_mult)

lemma bit_of_nat_lt: "a < 2 ^ n \<Longrightarrow> bit (of_nat a :: 64 word) i \<Longrightarrow> i < n"
proof (rule ccontr)
  assume a: "a < 2 ^ n" "bit (of_nat a :: 64 word) i" "\<not> i < n"
  then have "bit a i" by (simp add: bit_of_nat_iff)
  moreover have "a < 2 ^ i" using a by (meson less_le_trans not_less one_le_numeral power_increasing)
  ultimately show False by (simp add: bit_iff_odd)
qed

lemma slot_word_ref:
  assumes "a < 2 ^ 48" "t < 2 ^ 16"
  shows "slot_word (SRef t a) AND ptrMask = of_nat a"
    "drop_bit 48 (slot_word (SRef t a)) = of_nat t"
    "slot_word (SRef t a) AND NOT ptrMask = push_bit 48 (of_nat t)"
proof -
  note A = bit_of_nat_lt [OF assms(1)]
  have T: "bit (of_nat t :: 64 word) i \<Longrightarrow> i < 16" for i by (rule bit_of_nat_lt [OF assms(2)])
  show "slot_word (SRef t a) AND ptrMask = of_nat a"
    using A by (intro bit_eqI) (auto simp: slot_word_def ptrMask_mask bit_simps)
  show "drop_bit 48 (slot_word (SRef t a)) = of_nat t"
  proof (rule bit_eqI)
    fix n
    show "bit (drop_bit 48 (slot_word (SRef t a))) n \<longleftrightarrow> bit (of_nat t :: 64 word) n"
      using A [of "48 + n"] T [of n] by (auto simp: slot_word_def bit_simps)
  qed
  show "slot_word (SRef t a) AND NOT ptrMask = push_bit 48 (of_nat t)"
    using A by (intro bit_eqI) (fastforce simp: slot_word_def ptrMask_mask bit_simps)
qed

lemma unat_of_nat48: "a < 2 ^ 48 \<Longrightarrow> unat (of_nat a :: 64 word) = a"
  by (simp add: unat_of_nat)

lemma slot_word_inj:
  assumes "a < 2 ^ 48" "t < 2 ^ 16" "b < 2 ^ 48" "u < 2 ^ 16" "slot_word (SRef t a) = slot_word (SRef u b)"
  shows "t = u \<and> a = b"
  using slot_word_ref(1,2) [OF assms(1,2)] slot_word_ref(1,2) [OF assms(3,4)] assms
    unat_of_nat48 [of a] unat_of_nat48 [of b] unat_of_nat48 [of t] unat_of_nat48 [of u] by simp

section \<open>Claims\<close>

text \<open>\<^bold>\<open>C25\<close> Probing terminates and is exact. In every well-formed table the loop of \<open>find\<close> ends
  before it has gone round the table; it returns the slot of the key when the key is stored, and
  otherwise reports its absence together with a free slot on the key's own probe path.\<close>

theorem probe_find_correct:
  assumes "tbl_ok hk kf sl"
  shows "\<exists>idx ins. find_loop sl kf key (tag_of (hk key)) (length sl) (home (length sl) (hk key)) None = Some (idx, ins)
    \<and> (idx = None \<longleftrightarrow> key \<notin> kf ` refs sl)
    \<and> (\<forall>j. idx = Some j \<longrightarrow> (\<exists>a. ref_at sl j a \<and> kf a = key))
    \<and> (idx = None \<longrightarrow> ins \<noteq> None)
    \<and> (\<forall>j. ins = Some j \<longrightarrow> ins_ok sl (home (length sl) (hk key)) j)"
proof -
  from find_correct [OF assms, of key] obtain idx ins where f:
    "find_loop sl kf key (tag_of (hk key)) (length sl) (home (length sl) (hk key)) None = Some (idx, ins)"
    "\<forall>j. ins = Some j \<longrightarrow> ins_ok sl (home (length sl) (hk key)) j \<and> (idx \<noteq> None \<longrightarrow> sl ! j = STomb)"
    "case idx of Some j \<Rightarrow> \<exists>a. ref_at sl j a \<and> kf a = key
       | None \<Rightarrow> ins \<noteq> None \<and> (\<forall>j a. ref_at sl j a \<longrightarrow> kf a \<noteq> key)" by blast
  have "idx = None \<longleftrightarrow> key \<notin> kf ` refs sl" using f(3) by (cases idx) (auto simp: refs_def)
  moreover have "\<forall>j. idx = Some j \<longrightarrow> (\<exists>a. ref_at sl j a \<and> kf a = key)" "idx = None \<longrightarrow> ins \<noteq> None"
    using f(3) by auto
  ultimately show ?thesis using f(1,2) by blast
qed

theorem probe_find_correct_witness:
  "\<exists>idx ins. find_loop [SEmpty, SRef 0 7, STomb, SEmpty] (\<lambda>a. if a = 7 then ''k'' else []) ''z'' (tag_of 256) 4
     (home 4 256) None = Some (idx, ins) \<and> (idx = None \<longleftrightarrow> ''z'' \<notin> (\<lambda>a. if a = 7 then ''k'' else []) ` refs [SEmpty, SRef 0 7, STomb, SEmpty])"
proof -
  let ?sl = "[SEmpty, SRef 0 7, STomb, SEmpty]" and ?kf = "\<lambda>a :: nat. if a = 7 then ''k'' else []"
  have nth: "?sl ! i = SRef t a \<longleftrightarrow> i = 1 \<and> t = 0 \<and> a = 7" if "i < 4" for i t a
    using that by (auto simp: less_Suc_eq numeral_eq_Suc)
  have "tbl_ok (\<lambda>_. 256) ?kf ?sl"
  proof (rule tbl_okI)
    show "pow2 (length ?sl)" by (auto simp: pow2_def intro: exI [of _ 2])
    show "0 < n_empty ?sl" by (simp add: n_empty_def)
    show "t = tag_of ((\<lambda>_. 256) (?kf a)) \<and> reachable_at ?sl (home (length ?sl) ((\<lambda>_. 256) (?kf a))) i"
      if "i < length ?sl" "?sl ! i = SRef t a" for i t a
    proof -
      have "i = 1" "t = 0" using nth that by auto
      moreover have "home (length ?sl) 256 = 1" by (simp add: home_def shardBits_def)
      moreover have "probe (length ?sl) 1 0 = 1" by (simp add: probe_def)
      ultimately show ?thesis by (auto simp: tag_of_def reachable_at_def simp del: One_nat_def intro!: exI [of _ 0])
    qed
    show "i = j" if "ref_at ?sl i a" "ref_at ?sl j b" "?kf a = ?kf b" for i j a b
      using that nth by (auto simp: ref_at_def simp del: nth_Cons_numeral)
  qed
  from probe_find_correct [OF this, of "''z''"] have
    "\<exists>idx ins. find_loop ?sl ?kf ''z'' (tag_of 256) (length ?sl) (home (length ?sl) 256) None = Some (idx, ins)
      \<and> (idx = None \<longleftrightarrow> ''z'' \<notin> ?kf ` refs ?sl)" by blast
  moreover have "length ?sl = 4" by simp
  ultimately show ?thesis by (simp only:)
qed

text \<open>\<^bold>\<open>C26\<close> A rehash loses nothing. Moving every live slot of a well-formed table into a fresh table
  of any power-of-two size that has room leaves a well-formed table of that size with exactly the same
  items and no tombstones; the size the doubling loop of \<open>grow\<close> and \<open>grow0\<close> picks is such a size, and
  leaves the table at most three eighths full.\<close>

theorem rehash_correct:
  assumes "tbl_ok hk kf old"
  shows "tbl_ok hk kf (rehash_slots hk kf old (grow_size (int (card (refs old))) 8))
    \<and> refs (rehash_slots hk kf old (grow_size (int (card (refs old))) 8)) = refs old
    \<and> n_tombs (rehash_slots hk kf old (grow_size (int (card (refs old))) 8)) = 0
    \<and> (card (refs old) + 1) * 8 \<le> 3 * length (rehash_slots hk kf old (grow_size (int (card (refs old))) 8))"
proof -
  let ?n = "grow_size (int (card (refs old))) 8"
  have "pow2 8" by (auto simp: pow2_def intro: exI [of _ 3])
  then have n: "pow2 ?n" "(card (refs old) + 1) * 8 \<le> 3 * ?n"
    using grow_size_ok [of 8 "int (card (refs old))"] by auto
  then have "card (refs old) < ?n" by simp
  with rehash_ok [OF assms n(1)] n(2) show ?thesis by simp
qed

theorem rehash_correct_witness:
  "refs (rehash_slots (\<lambda>_. 0) (\<lambda>_. []) (replicate 8 SEmpty) (grow_size (int (card (refs (replicate 8 SEmpty)))) 8)) = {}"
proof -
  have "pow2 8" by (auto simp: pow2_def intro: exI [of _ 3])
  then have "tbl_ok (\<lambda>_. 0) (\<lambda>_. []) (replicate 8 SEmpty)" by (rule empty_table(1))
  from rehash_correct [OF this] show ?thesis by (simp add: empty_table(2))
qed

text \<open>The packed slot word. For every 48-bit item address above 1 and every 16-bit tag the word
  the code stores is neither 0 nor \<open>tomb\<close>, is above \<open>tomb\<close>, gives back the tag by \<open>v >> 48\<close> and the
  address by \<open>v & ptrMask\<close>, and the expression of \<open>replace\<close>, \<open>v &^ ptrMask | nw\<close>, is the slot of the
  new address with the old tag.\<close>

theorem slot_word_faithful:
  assumes "2 \<le> a" "a < 2 ^ 48" "t < 2 ^ 16" "b < 2 ^ 48"
  shows "slot_word (SRef t a) \<noteq> slot_word SEmpty \<and> slot_word (SRef t a) > slot_word STomb
    \<and> drop_bit 48 (slot_word (SRef t a)) = of_nat t \<and> unat (slot_word (SRef t a) AND ptrMask) = a
    \<and> (slot_word (SRef t a) AND NOT ptrMask) OR of_nat b = slot_word (SRef t b)"
proof -
  note w = slot_word_ref [OF assms(2,3)]
  have addr: "unat (slot_word (SRef t a) AND ptrMask) = a" using w(1) unat_of_nat48 [OF assms(2)] by simp
  have "a \<le> unat (slot_word (SRef t a))"
    using addr word_and_le2 [of "slot_word (SRef t a)" ptrMask] by (simp add: word_le_nat_alt)
  then have "slot_word (SRef t a) > 1" using assms(1) by (simp add: word_less_nat_alt)
  then show ?thesis using w(2,3) addr by (auto simp: slot_word_def or.commute)
qed

theorem slot_word_faithful_witness:
  "slot_word (SRef 513 4096) > slot_word STomb \<and> unat (slot_word (SRef 513 4096) AND ptrMask) = 4096"
  using slot_word_faithful [of 4096 513 8192] by simp

end
