(* ===== verification/Item_Heap.thy ===== *)
theory Item_Heap
  imports Size_Class Ring_List Hash_Obj Probe_Table "HOL-Library.Multiset"
begin

text \<open>
  The off-heap item store of mini-redis: the item record and its accessors, the shard, the arena, and
  the allocator (\<open>redis/impl/go-1/alloc.go\<close> and the item part of \<open>store.go\<close>). Item memory is one map
  from addresses to records that all shards share, as in the process; that cells of different items
  never overlap is not built into the model but proved from the allocator's code.
\<close>

section \<open>State\<close>

text \<open>The header fields at their offsets, and the bytes behind the header up to the end of the cell
  (key, value, slack). A free cell uses its first eight bytes, the expiry field, as the link.\<close>

record item =
  iexp :: int
  ilru :: nat
  iklen :: nat
  ivlen :: nat
  ityp :: nat
  icls :: nat
  ibytes :: bytes

datatype obj = LObj listObj | HObj hashObj

text \<open>What the process shares: item memory, the kernel's list of live mappings, the arena, the memory
  counters, and how many random numbers have been drawn.\<close>

record world =
  mem :: "nat \<Rightarrow> item"
  maps :: "(nat \<times> nat) list"
  chunks :: "(nat \<times> nat) list"
  acur :: nat
  aend :: nat
  globalUsed :: int
  maxMemory :: int
  draws :: nat

record shard =
  slots :: "slot list"
  scount :: int
  tombs :: int
  used :: int
  nexp :: int
  expCur :: nat
  free :: "nat list"
  bumps :: "(nat \<times> nat) list"
  objs :: "obj option list"
  freeObjs :: "nat list"

text \<open>What the code takes from outside: the seeded hash of \<open>hash/maphash\<close>, where the kernel puts a new
  mapping, the page size, the start time, the random numbers, and the order in which Go ranges over a map.\<close>

record env =
  hashKey :: "bytes \<Rightarrow> nat"
  mmapAt :: "(nat \<times> nat) list \<Rightarrow> nat \<Rightarrow> nat"
  pageSize :: nat
  startMs :: int
  randIntN :: "nat \<Rightarrow> nat \<Rightarrow> nat"
  mapOrder :: "(bytes \<times> bytes) list \<Rightarrow> (bytes \<times> bytes) list"

definition hdrSize :: nat where "hdrSize = 24"
definition typStr :: nat where "typStr = 0"
definition typList :: nat where "typList = 1"
definition typHash :: nat where "typHash = 2"

section \<open>Item accessors\<close>

text \<open>Four little-endian bytes, as \<open>objIdx\<close> and \<open>setObjIdx\<close> access them.\<close>

definition put32 :: "nat \<Rightarrow> bytes" where
  "put32 n = [char_of n, char_of (n div 256), char_of (n div 65536), char_of (n div 16777216)]"

definition get32 :: "bytes \<Rightarrow> nat" where
  "get32 b = bval (b ! 0) + 256 * bval (b ! 1) + 65536 * bval (b ! 2) + 16777216 * bval (b ! 3)"

text \<open>Writing \<open>src\<close> at an offset of the cell.\<close>

definition write_at :: "bytes \<Rightarrow> nat \<Rightarrow> bytes \<Rightarrow> bytes" where
  "write_at b off src = take off b @ go_copy (drop off b) src"

definition item_key :: "item \<Rightarrow> bytes" where "item_key it = take (iklen it) (ibytes it)"
definition item_valN :: "item \<Rightarrow> nat \<Rightarrow> bytes" where "item_valN it n = take n (drop (iklen it) (ibytes it))"
definition item_val :: "item \<Rightarrow> bytes" where "item_val it = item_valN it (ivlen it)"
definition objIdx :: "item \<Rightarrow> nat" where "objIdx it = get32 (drop (iklen it) (ibytes it))"

definition setExpRaw :: "int \<Rightarrow> item \<Rightarrow> item" where "setExpRaw v it = it\<lparr>iexp := v\<rparr>"
definition setLRU :: "nat \<Rightarrow> item \<Rightarrow> item" where "setLRU v it = it\<lparr>ilru := v\<rparr>"
definition setVlen :: "nat \<Rightarrow> item \<Rightarrow> item" where "setVlen n it = it\<lparr>ivlen := n mod 2 ^ 32\<rparr>"
definition setObjIdx :: "nat \<Rightarrow> item \<Rightarrow> item" where
  "setObjIdx i it = it\<lparr>ibytes := write_at (ibytes it) (iklen it) (put32 i)\<rparr>"
definition setHdr :: "nat \<Rightarrow> nat \<Rightarrow> nat \<Rightarrow> nat \<Rightarrow> item \<Rightarrow> item" where
  "setHdr kl vl t c it = it\<lparr>iklen := kl mod 2 ^ 32, ivlen := vl mod 2 ^ 32, ityp := t, icls := c\<rparr>"

text \<open>\<open>copy(it.key(), key)\<close> and \<open>copy(it.valN(n)[off:], src)\<close>.\<close>

definition copy_key :: "bytes \<Rightarrow> item \<Rightarrow> item" where
  "copy_key k it = it\<lparr>ibytes := write_at (ibytes it) 0 (take (iklen it) k)\<rparr>"
definition copy_val :: "nat \<Rightarrow> nat \<Rightarrow> bytes \<Rightarrow> item \<Rightarrow> item" where
  "copy_val n off src it = it\<lparr>ibytes := write_at (ibytes it) (iklen it + off) (take (n - off) src)\<rparr>"

definition upd_item :: "nat \<Rightarrow> (item \<Rightarrow> item) \<Rightarrow> world \<Rightarrow> world" where
  "upd_item a f w = w\<lparr>mem := (mem w)(a := f (mem w a))\<rparr>"

definition item_capacity :: "item \<Rightarrow> int" where
  "item_capacity it =
     (if icls it = clsBig then int (ivlen it) else int (classSize ! icls it) - int hdrSize - int (iklen it))"

section \<open>Mappings and the arena\<close>

definition roundPage :: "env \<Rightarrow> nat \<Rightarrow> nat" where
  "roundPage e n = and_not (n + pageSize e - 1) (pageSize e - 1)"

text \<open>\<open>mmap\<close>; a failing \<open>syscall.Mmap\<close> panics and ends the process. \<open>syscall.Munmap\<close> accepts exactly
  the slices \<open>syscall.Mmap\<close> returned and fails (ignored by the code) on others.\<close>

definition mmap :: "env \<Rightarrow> world \<Rightarrow> nat \<Rightarrow> nat \<times> world" where
  "mmap e w n = (let p = mmapAt e (maps w) n in (p, w\<lparr>maps := (p, n) # maps w\<rparr>))"

definition munmap :: "world \<Rightarrow> nat \<Rightarrow> nat \<Rightarrow> world" where
  "munmap w p n = w\<lparr>maps := remove1 (p, n) (maps w)\<rparr>"

definition arenaBlock :: "env \<Rightarrow> world \<Rightarrow> nat \<Rightarrow> nat \<times> world" where
  "arenaBlock e w n =
     (let w1 = (if acur w + n > aend w then
                  let size = max arenaChunk n; (b, w0) = mmap e w size in
                  w0\<lparr>chunks := chunks w0 @ [(b, size)], acur := b, aend := b + size\<rparr>
                else w)
      in (acur w1, w1\<lparr>acur := acur w1 + n\<rparr>))"

definition arenaReset :: "world \<Rightarrow> world" where
  "arenaReset w =
     (foldl (\<lambda>w (p, n). munmap w p n) w (chunks w))\<lparr>chunks := [], acur := 0, aend := 0\<rparr>"

section \<open>Cells\<close>

text \<open>A cell that has never been used: anonymous mappings are zero-filled.\<close>

definition zero_item :: "nat \<Rightarrow> item" where
  "zero_item n = \<lparr>iexp = 0, ilru = 0, iklen = 0, ivlen = 0, ityp = 0, icls = 0,
     ibytes = replicate (n - hdrSize) (CHR 0x00)\<rparr>"

definition allocRaw :: "env \<Rightarrow> world \<Rightarrow> shard \<Rightarrow> nat \<Rightarrow> nat \<times> nat \<times> world \<times> shard" where
  "allocRaw e w s need =
     (if need > maxSmall then
        let (p, w1) = mmap e w (roundPage e need) in
        (p, clsBig, upd_item p (\<lambda>_. zero_item (roundPage e need)) w1, s)
      else
        let cls = classOf need in
        if free s ! cls \<noteq> 0 then
          let p = free s ! cls in
          (p, cls, w, s\<lparr>free := (free s)[cls := nat (iexp (mem w p))]\<rparr>)
        else
          let sz = classSize ! cls;
              (w1, s1) = (if fst (bumps s ! cls) + sz > snd (bumps s ! cls) then
                            let bs = max blockSize (sz * 8); (p, w0) = arenaBlock e w bs in
                            (w0, s\<lparr>bumps := (bumps s)[cls := (p, p + bs)]\<rparr>)
                          else (w, s));
              p = fst (bumps s1 ! cls)
          in (p, cls, upd_item p (\<lambda>_. zero_item sz) w1,
              s1\<lparr>bumps := (bumps s1)[cls := (p + sz, snd (bumps s1 ! cls))]\<rparr>))"

definition freeItem :: "env \<Rightarrow> world \<Rightarrow> shard \<Rightarrow> nat \<Rightarrow> world \<times> shard" where
  "freeItem e w s it =
     (let cls = icls (mem w it) in
      if cls = clsBig then
        (munmap w it (roundPage e (hdrSize + iklen (mem w it) + ivlen (mem w it))), s)
      else
        (upd_item it (setExpRaw (int (free s ! cls))) w, s\<lparr>free := (free s)[cls := it]\<rparr>))"

text \<open>What the allocator leaves alone in the shard and in the process.\<close>

definition same_index :: "shard \<Rightarrow> shard \<Rightarrow> bool" where
  "same_index s s' \<longleftrightarrow> slots s' = slots s \<and> scount s' = scount s \<and> tombs s' = tombs s \<and> used s' = used s
     \<and> nexp s' = nexp s \<and> expCur s' = expCur s \<and> objs s' = objs s \<and> freeObjs s' = freeObjs s"

definition same_counters :: "world \<Rightarrow> world \<Rightarrow> bool" where
  "same_counters w w' \<longleftrightarrow> globalUsed w' = globalUsed w \<and> maxMemory w' = maxMemory w \<and> draws w' = draws w"

section \<open>Regions\<close>

text \<open>The number of regions of a list that cover an address. Everything the allocator knows about
  (live cells, free cells, bump areas, the rest of the arena) is counted this way: as long as the
  total stays below the coverage by live mappings, which is at most one, all of them are disjoint and
  mapped.\<close>

definition region :: "nat \<Rightarrow> nat \<Rightarrow> nat \<Rightarrow> nat" where
  "region a n x = (if a \<le> x \<and> x < a + n then 1 else 0)"

definition cover :: "(nat \<times> nat) list \<Rightarrow> nat \<Rightarrow> nat" where
  "cover rs x = (\<Sum>(a, n) \<leftarrow> rs. region a n x)"

lemma cover_simps [simp]: "cover [] x = 0" "cover ((a, n) # rs) x = region a n x + cover rs x"
  "cover (rs @ qs) x = cover rs x + cover qs x"
  by (simp_all add: cover_def)

lemma region_split: "m \<le> n \<Longrightarrow> region a n x = region a m x + region (a + m) (n - m) x"
  by (auto simp: region_def)

lemma region_self [simp]: "0 < n \<Longrightarrow> region a n a = 1"
  by (simp add: region_def)

lemma cover_remove1: "(a, n) \<in> set rs \<Longrightarrow> cover rs x = region a n x + cover (remove1 (a, n) rs) x"
  by (induction rs) auto

lemma cover_0_iff: "cover rs x = 0 \<longleftrightarrow> (\<forall>(a, n) \<in> set rs. \<not> (a \<le> x \<and> x < a + n))"
  by (induction rs) (auto simp: region_def)

text \<open>The kernel contract: pages have a power-of-two size, a new mapping is not at address 0 and does
  not overlap a live one.\<close>

definition os_ok :: "env \<Rightarrow> bool" where
  "os_ok e \<longleftrightarrow> pow2 (pageSize e) \<and>
     (\<forall>ms n x. 0 < n \<longrightarrow> mmapAt e ms n \<noteq> 0 \<and>
        (mmapAt e ms n \<le> x \<and> x < mmapAt e ms n + n \<longrightarrow> cover ms x = 0))"

definition heap_ok :: "world \<Rightarrow> (nat \<Rightarrow> nat) \<Rightarrow> (nat \<times> nat) multiset \<Rightarrow> bool" where
  "heap_ok w T M \<longleftrightarrow>
     (\<forall>x. T x + region (acur w) (aend w - acur w) x \<le> cover (maps w) x \<and> cover (maps w) x \<le> 1)
     \<and> cover (maps w) 0 = 0 \<and> mset (maps w) = mset (chunks w) + M"

lemma heap_okD: "heap_ok w T M \<Longrightarrow> T x + region (acur w) (aend w - acur w) x \<le> cover (maps w) x"
  "heap_ok w T M \<Longrightarrow> cover (maps w) x \<le> 1" "heap_ok w T M \<Longrightarrow> T x \<le> 1" "heap_ok w T M \<Longrightarrow> T 0 = 0"
proof -
  assume h: "heap_ok w T M"
  then show 1: "T x + region (acur w) (aend w - acur w) x \<le> cover (maps w) x" for x by (simp add: heap_ok_def)
  from h show 2: "cover (maps w) x \<le> 1" for x by (simp add: heap_ok_def)
  show "T x \<le> 1" using 1 [of x] 2 [of x] by simp
  have "cover (maps w) 0 = 0" using h by (simp add: heap_ok_def)
  then show "T 0 = 0" using 1 [of 0] by simp
qed

lemma heap_ok_mono: "heap_ok w T M \<Longrightarrow> (\<And>x. T' x \<le> T x) \<Longrightarrow> heap_ok w T' M"
  unfolding heap_ok_def by (meson add_le_mono1 order_trans)

lemma heap_ok_cong: "heap_ok w T M \<Longrightarrow> maps w' = maps w \<Longrightarrow> chunks w' = chunks w \<Longrightarrow> acur w' = acur w \<Longrightarrow>
    aend w' = aend w \<Longrightarrow> heap_ok w' T M"
  by (simp add: heap_ok_def)

lemma roundPage_ge: "os_ok e \<Longrightarrow> n \<le> roundPage e n"
proof -
  assume "os_ok e"
  then have p: "pow2 (pageSize e)" by (simp add: os_ok_def)
  have "(n + pageSize e - 1) mod pageSize e < pageSize e" using pow2_pos [OF p] by (rule mod_less_divisor)
  then show ?thesis unfolding roundPage_def and_not_mod [OF p] by linarith
qed

lemma mmap_ok:
  assumes "os_ok e" "heap_ok w T M" "0 < n" "mmap e w n = (p, w')"
  shows "w' = w\<lparr>maps := (p, n) # maps w\<rparr> \<and> p \<noteq> 0 \<and> (\<forall>x. region p n x + cover (maps w) x \<le> 1)
    \<and> region p n 0 + cover (maps w) 0 = 0"
proof -
  have p: "p = mmapAt e (maps w) n" "w' = w\<lparr>maps := (p, n) # maps w\<rparr>" using assms(4) by (auto simp: mmap_def Let_def)
  have "p \<noteq> 0" using assms(1,3) p(1) by (simp add: os_ok_def)
  moreover have "cover (maps w) x = 0" if "p \<le> x" "x < p + n" for x
    using assms(1,3) that p(1) unfolding os_ok_def by blast
  ultimately show ?thesis using p(2) assms(2) by (auto simp: region_def heap_ok_def)
qed

lemma mmap_big_ok:
  assumes "os_ok e" "heap_ok w T M" "0 < n" "mmap e w n = (p, w')"
  shows "heap_ok w' (\<lambda>x. T x + region p n x) (add_mset (p, n) M)"
proof -
  note m = mmap_ok [OF assms]
  have "T x + region p n x + region (acur w) (aend w - acur w) x \<le> region p n x + cover (maps w) x" for x
    using heap_okD(1) [OF assms(2), of x] by simp
  then show ?thesis using m assms(2) by (auto simp: heap_ok_def)
qed

lemma arenaBlock_ok:
  assumes os: "os_ok e" and h: "heap_ok w T M" and n: "0 < n" and b: "arenaBlock e w n = (p, w')"
  shows "heap_ok w' (\<lambda>x. T x + region p n x) M \<and> mem w' = mem w \<and> same_counters w w'"
proof (cases "acur w + n > aend w")
  case True
  let ?size = "max arenaChunk n"
  obtain q w0 where q: "mmap e w ?size = (q, w0)" by fastforce
  have "0 < ?size" using n by simp
  note m = mmap_ok [OF os h this q]
  have w': "p = q" "w' = w0\<lparr>chunks := chunks w0 @ [(q, ?size)], acur := q + n, aend := q + ?size\<rparr>"
    using b True q by (auto simp: arenaBlock_def Let_def)
  have "T x + region q n x + region (q + n) (?size - n) x \<le> region q ?size x + cover (maps w) x" for x
    using heap_okD(1) [OF h, of x] region_split [of n ?size q x] by simp
  then show ?thesis using m w' h by (auto simp: heap_ok_def same_counters_def)
next
  case False
  then have w': "p = acur w" "w' = w\<lparr>acur := acur w + n\<rparr>" using b by (auto simp: arenaBlock_def Let_def)
  have "region (acur w) (aend w - acur w) x = region (acur w) n x + region (acur w + n) (aend w - (acur w + n)) x" for x
    using region_split [of n "aend w - acur w" "acur w" x] False by simp
  then show ?thesis using w' h by (auto simp: heap_ok_def add.assoc same_counters_def)
qed

section \<open>Free lists and bump areas\<close>

text \<open>The free list of a class: linked through the expiry field of the free cells.\<close>

fun chain :: "(nat \<Rightarrow> item) \<Rightarrow> nat \<Rightarrow> nat list \<Rightarrow> bool" where
  "chain m p [] \<longleftrightarrow> p = 0"
| "chain m p (a # as) \<longleftrightarrow> p = a \<and> a \<noteq> 0 \<and> chain m (nat (iexp (m a))) as"

definition nClasses :: nat where "nClasses = 61"

definition cells_cov :: "nat \<Rightarrow> nat list \<Rightarrow> nat \<Rightarrow> nat" where
  "cells_cov c as x = (\<Sum>a \<leftarrow> as. region a (classSize ! c) x)"

definition free_cov :: "(nat \<Rightarrow> nat list) \<Rightarrow> nat \<Rightarrow> nat" where
  "free_cov FL x = (\<Sum>c < nClasses. cells_cov c (FL c) x)"

definition bump_cov :: "(nat \<times> nat) list \<Rightarrow> nat \<Rightarrow> nat" where
  "bump_cov bs x = (\<Sum>c < nClasses. region (fst (bs ! c)) (snd (bs ! c) - fst (bs ! c)) x)"

definition cells_ok :: "(nat \<Rightarrow> item) \<Rightarrow> nat list \<Rightarrow> (nat \<times> nat) list \<Rightarrow> (nat \<Rightarrow> nat list) \<Rightarrow> bool" where
  "cells_ok m fr bs FL \<longleftrightarrow> length fr = 80 \<and> length bs = 80 \<and>
     (\<forall>c < nClasses. chain m (fr ! c) (FL c) \<and> (\<forall>a \<in> set (FL c). length (ibytes (m a)) = classSize ! c - hdrSize))"

lemma sum_upd:
  fixes f g :: "'a \<Rightarrow> nat"
  assumes "finite A" "d \<in> A" "\<And>c. c \<in> A \<Longrightarrow> c \<noteq> d \<Longrightarrow> g c = f c"
  shows "sum g A + f d = sum f A + g d"
proof -
  have "sum g (A - {d}) = sum f (A - {d})" using assms(3) by (intro sum.cong) auto
  then show ?thesis using sum.remove [OF assms(1,2), of f] sum.remove [OF assms(1,2), of g] by simp
qed

lemma free_cov_upd: "d < nClasses \<Longrightarrow> free_cov (FL(d := as)) x + cells_cov d (FL d) x = free_cov FL x + cells_cov d as x"
  unfolding free_cov_def
  using sum_upd [of "{..<nClasses}" d "\<lambda>c. cells_cov c ((FL(d := as)) c) x" "\<lambda>c. cells_cov c (FL c) x"] by simp

lemma bump_cov_upd:
  "d < nClasses \<Longrightarrow> length bs = 80 \<Longrightarrow>
     bump_cov (bs[d := (p, q)]) x + region (fst (bs ! d)) (snd (bs ! d) - fst (bs ! d)) x = bump_cov bs x + region p (q - p) x"
  unfolding bump_cov_def
  using sum_upd [of "{..<nClasses}" d "\<lambda>c. region (fst (bs[d := (p, q)] ! c)) (snd (bs[d := (p, q)] ! c) - fst (bs[d := (p, q)] ! c)) x"
      "\<lambda>c. region (fst (bs ! c)) (snd (bs ! c) - fst (bs ! c)) x"] by (simp add: nClasses_def)

lemma cells_cov_simps [simp]: "cells_cov c [] x = 0" "cells_cov c (a # as) x = region a (classSize ! c) x + cells_cov c as x"
  by (simp_all add: cells_cov_def)

lemma cells_cov_le_free: "c < nClasses \<Longrightarrow> cells_cov c (FL c) x \<le> free_cov FL x"
  unfolding free_cov_def by (rule member_le_sum) auto

lemma classSize_pos: "c < nClasses \<Longrightarrow> 32 \<le> classSize ! c"
  using classSize_nth_bounds [of c] by (simp add: nClasses_def)

lemma cells_cov_self: "c < nClasses \<Longrightarrow> a \<in> set as \<Longrightarrow> 1 \<le> cells_cov c as a"
  using classSize_pos [of c] by (induction as) auto

lemma free_cov_self: "c < nClasses \<Longrightarrow> a \<in> set (FL c) \<Longrightarrow> 1 \<le> free_cov FL a"
  using cells_cov_self [of c a "FL c"] cells_cov_le_free [of c FL a] by simp

lemma chain_cong: "chain m p as \<Longrightarrow> (\<And>a. a \<in> set as \<Longrightarrow> iexp (m' a) = iexp (m a)) \<Longrightarrow> chain m' p as"
  by (induction as arbitrary: p) auto

lemma cells_ok_cong:
  assumes "cells_ok m fr bs FL" "\<And>a. 0 < free_cov FL a \<Longrightarrow> m' a = m a"
  shows "cells_ok m' fr bs FL"
proof -
  have same: "m' a = m a" if "c < nClasses" "a \<in> set (FL c)" for c a
    using assms(2) free_cov_self [of c a FL] that by simp
  have "chain m' (fr ! c) (FL c) \<and> (\<forall>a \<in> set (FL c). length (ibytes (m' a)) = classSize ! c - hdrSize)"
    if c: "c < nClasses" for c
  proof -
    have "chain m (fr ! c) (FL c)" "\<forall>a \<in> set (FL c). length (ibytes (m a)) = classSize ! c - hdrSize"
      using assms(1) c by (auto simp: cells_ok_def)
    then show ?thesis using same [OF c] chain_cong [of m "fr ! c" "FL c" m'] by simp
  qed
  then show ?thesis using assms(1) by (simp add: cells_ok_def)
qed

section \<open>Allocation\<close>

definition cell_len :: "env \<Rightarrow> nat \<Rightarrow> nat \<Rightarrow> nat" where
  "cell_len e cls n = (if cls = clsBig then roundPage e n else classSize ! cls)"

definition big_maps :: "nat \<Rightarrow> nat \<Rightarrow> nat \<Rightarrow> (nat \<times> nat) multiset" where
  "big_maps cls p n = (if cls = clsBig then {#(p, n)#} else {#})"

text \<open>What an allocation of \<open>n\<close> bytes promises: a cell at \<open>p\<close> that nothing else covers, large enough,
  with the rest of the free memory still well-formed; only the new cell's memory has changed.\<close>

definition alloc_res :: "env \<Rightarrow> world \<Rightarrow> shard \<Rightarrow> (nat \<Rightarrow> nat) \<Rightarrow> (nat \<times> nat) multiset \<Rightarrow> nat
    \<Rightarrow> nat \<Rightarrow> nat \<Rightarrow> world \<Rightarrow> shard \<Rightarrow> (nat \<Rightarrow> nat list) \<Rightarrow> bool" where
  "alloc_res e w s F M n p cls w' s' FL' \<longleftrightarrow>
     cells_ok (mem w') (free s') (bumps s') FL'
     \<and> heap_ok w' (\<lambda>x. F x + free_cov FL' x + bump_cov (bumps s') x + region p (cell_len e cls n) x)
         (M + big_maps cls p (cell_len e cls n))
     \<and> n \<le> cell_len e cls n \<and> (cls = clsBig \<and> maxSmall < n \<or> cls < nClasses \<and> n \<le> maxSmall)
     \<and> length (ibytes (mem w' p)) = cell_len e cls n - hdrSize
     \<and> (\<forall>a. a \<noteq> p \<longrightarrow> mem w' a = mem w a)
     \<and> same_index s s' \<and> same_counters w w'"

lemma alloc_big:
  assumes os: "os_ok e" and cells: "cells_ok (mem w) (free s) (bumps s) FL"
    and h: "heap_ok w (\<lambda>x. F x + free_cov FL x + bump_cov (bumps s) x) M"
    and n: "maxSmall < n" and a: "allocRaw e w s n = (p, cls, w', s')"
  shows "alloc_res e w s F M n p cls w' s' FL"
proof -
  let ?n = "roundPage e n"
  obtain w1 where m: "mmap e w ?n = (p, w1)" and r: "cls = clsBig" "w' = upd_item p (\<lambda>_. zero_item ?n) w1" "s' = s"
    using a n by (auto simp: allocRaw_def split: prod.splits)
  have ge: "n \<le> ?n" by (rule roundPage_ge [OF os])
  then have pos: "0 < ?n" using n by simp
  note mb = mmap_big_ok [OF os h pos m] and mo = mmap_ok [OF os h pos m]
  have "free_cov FL p = 0"
    using heap_okD(3) [OF mb, of p] pos by simp
  then have "cells_ok (mem w') (free s') (bumps s') FL"
    using r mo by (intro cells_ok_cong [OF cells [folded r(3)]]) (auto simp: upd_item_def)
  moreover have "heap_ok w' (\<lambda>x. F x + free_cov FL x + bump_cov (bumps s) x + region p ?n x) (M + {#(p, ?n)#})"
    using mb unfolding r(2) by (auto intro: heap_ok_cong simp: upd_item_def)
  ultimately show ?thesis using r mo ge n
    by (auto simp: alloc_res_def cell_len_def big_maps_def upd_item_def zero_item_def same_index_def same_counters_def)
qed

lemma alloc_reuse:
  assumes os: "os_ok e" and cells: "cells_ok (mem w) (free s) (bumps s) FL"
    and h: "heap_ok w (\<lambda>x. F x + free_cov FL x + bump_cov (bumps s) x) M"
    and n: "n \<le> maxSmall" "free s ! classOf n \<noteq> 0" and a: "allocRaw e w s n = (p, cls, w', s')"
  shows "alloc_res e w s F M n p cls w' s' (FL(classOf n := tl (FL (classOf n))))"
proof -
  let ?c = "classOf n"
  have c: "?c < nClasses" "n \<le> classSize ! ?c" using classOf_fits [OF n(1)] by (auto simp: nClasses_def)
  have r: "p = free s ! ?c" "cls = ?c" "w' = w" "s' = s\<lparr>free := (free s)[?c := nat (iexp (mem w p))]\<rparr>"
    using a n by (auto simp: allocRaw_def Let_def)
  obtain as where as: "FL ?c = p # as" "chain (mem w) (nat (iexp (mem w p))) as"
    using cells c(1) n(2) r(1) by (cases "FL ?c") (auto simp: cells_ok_def)
  have "cells_ok (mem w') (free s') (bumps s') (FL(?c := as))"
    using cells as c(1) r by (auto simp: cells_ok_def nth_list_update nClasses_def)
  moreover have "free_cov (FL(?c := as)) x + region p (classSize ! ?c) x = free_cov FL x" for x
    using free_cov_upd [OF c(1), of FL as x] as(1) by simp
  then have "heap_ok w (\<lambda>x. F x + free_cov (FL(?c := as)) x + bump_cov (bumps s) x + region p (classSize ! ?c) x) M"
    by (intro heap_ok_mono [OF h]) (metis add.assoc add.commute add.left_commute order_refl)
  moreover have "length (ibytes (mem w p)) = classSize ! ?c - hdrSize"
    using cells c(1) as(1) by (auto simp: cells_ok_def)
  moreover have "?c \<noteq> clsBig" using c(1) by (simp add: nClasses_def clsBig_def)
  ultimately show ?thesis using r c n as(1)
    by (simp add: alloc_res_def cell_len_def big_maps_def same_index_def same_counters_def)
qed

text \<open>Making sure the bump area of a class has room, and carving one cell from it.\<close>

lemma bump_refill:
  assumes os: "os_ok e" and h: "heap_ok w (\<lambda>x. F x + bump_cov (bumps s) x) M" and c: "c < nClasses" "length (bumps s) = 80"
    and r: "(w1, s1) = (if fst (bumps s ! c) + classSize ! c > snd (bumps s ! c) then
        let bs = max blockSize (classSize ! c * 8); (p, w0) = arenaBlock e w bs in (w0, s\<lparr>bumps := (bumps s)[c := (p, p + bs)]\<rparr>)
      else (w, s))"
  shows "heap_ok w1 (\<lambda>x. F x + bump_cov (bumps s1) x) M \<and> fst (bumps s1 ! c) + classSize ! c \<le> snd (bumps s1 ! c)
    \<and> free s1 = free s \<and> same_index s s1 \<and> length (bumps s1) = 80 \<and> mem w1 = mem w \<and> same_counters w w1"
proof (cases "fst (bumps s ! c) + classSize ! c > snd (bumps s ! c)")
  case True
  let ?bs = "max blockSize (classSize ! c * 8)"
  obtain p w0 where b: "arenaBlock e w ?bs = (p, w0)" by fastforce
  then have w1: "w1 = w0" "s1 = s\<lparr>bumps := (bumps s)[c := (p, p + ?bs)]\<rparr>" using r True by (auto simp: Let_def)
  have "0 < ?bs" by (simp add: blockSize_def)
  note ab = arenaBlock_ok [OF os h this b]
  have "bump_cov (bumps s1) x \<le> bump_cov (bumps s) x + region p ?bs x" for x
    using bump_cov_upd [OF c, of p "p + ?bs" x] w1(2) by simp
  then have "heap_ok w1 (\<lambda>x. F x + bump_cov (bumps s1) x) M"
    using heap_ok_mono [OF conjunct1 [OF ab], of "\<lambda>x. F x + bump_cov (bumps s1) x"] w1(1)
    by (simp add: add.assoc)
  then show ?thesis using w1 ab c by (simp add: nClasses_def same_index_def)
next
  case False
  then show ?thesis using r h c by (simp add: same_index_def same_counters_def)
qed

lemma alloc_bump:
  assumes os: "os_ok e" and cells: "cells_ok (mem w) (free s) (bumps s) FL"
    and h: "heap_ok w (\<lambda>x. F x + free_cov FL x + bump_cov (bumps s) x) M"
    and n: "n \<le> maxSmall" "free s ! classOf n = 0" and a: "allocRaw e w s n = (p, cls, w', s')"
  shows "alloc_res e w s F M n p cls w' s' FL"
proof -
  let ?c = "classOf n" and ?sz = "classSize ! classOf n"
  have c: "?c < nClasses" "n \<le> ?sz" using classOf_fits [OF n(1)] by (auto simp: nClasses_def)
  have sz: "0 < ?sz" using classSize_pos [OF c(1)] by simp
  have len: "length (bumps s) = 80" "length (free s) = 80" using cells by (auto simp: cells_ok_def)
  obtain w1 s1 where ws1: "(w1, s1) = (if fst (bumps s ! ?c) + ?sz > snd (bumps s ! ?c) then
        let bs = max blockSize (?sz * 8); (p, w0) = arenaBlock e w bs in (w0, s\<lparr>bumps := (bumps s)[?c := (p, p + bs)]\<rparr>)
      else (w, s))" by (rule that [OF prod.collapse])
  note bp = bump_refill [OF os h c(1) len(1) ws1]
  have r: "p = fst (bumps s1 ! ?c)" "cls = ?c" "w' = upd_item p (\<lambda>_. zero_item ?sz) w1"
    "s' = s1\<lparr>bumps := (bumps s1)[?c := (p + ?sz, snd (bumps s1 ! ?c))]\<rparr>"
    using a n unfolding allocRaw_def Let_def ws1 [symmetric, unfolded Let_def] by auto
  have split: "bump_cov (bumps s') x + region p ?sz x = bump_cov (bumps s1) x" for x
  proof -
    have "?sz \<le> snd (bumps s1 ! ?c) - p" using bp r(1) by linarith
    from region_split [OF this, of p x]
    have "region p (snd (bumps s1 ! ?c) - p) x = region p ?sz x + region (p + ?sz) (snd (bumps s1 ! ?c) - (p + ?sz)) x"
      by (simp add: diff_diff_left)
    then show ?thesis using bump_cov_upd [OF c(1), of "bumps s1" "p + ?sz" "snd (bumps s1 ! ?c)" x] bp r(1,4) by simp
  qed
  then have h': "heap_ok w1 (\<lambda>x. F x + free_cov FL x + bump_cov (bumps s') x + region p ?sz x) M"
    using heap_ok_mono [OF conjunct1 [OF bp], of "\<lambda>x. F x + free_cov FL x + bump_cov (bumps s') x + region p ?sz x"]
    by (simp add: add.assoc)
  then have "free_cov FL p = 0" using heap_okD(3) [OF h', of p] sz by simp
  then have "mem w' a = mem w a" if "0 < free_cov FL a" for a
    using that bp r(3) by (auto simp: upd_item_def)
  from cells_ok_cong [OF cells this] have "cells_ok (mem w') (free s') (bumps s') FL"
    using bp by (simp add: cells_ok_def r(4))
  moreover have "?c \<noteq> clsBig" using c(1) by (simp add: nClasses_def clsBig_def)
  moreover have "heap_ok w' (\<lambda>x. F x + free_cov FL x + bump_cov (bumps s') x + region p ?sz x) M"
    using h' unfolding r(3) by (auto intro: heap_ok_cong simp: upd_item_def)
  ultimately show ?thesis using r c n bp
    by (auto simp: alloc_res_def cell_len_def big_maps_def upd_item_def zero_item_def same_index_def same_counters_def)
qed

lemma allocRaw_ok:
  assumes "os_ok e" "cells_ok (mem w) (free s) (bumps s) FL"
    and "heap_ok w (\<lambda>x. F x + free_cov FL x + bump_cov (bumps s) x) M" "allocRaw e w s n = (p, cls, w', s')"
  shows "\<exists>FL'. alloc_res e w s F M n p cls w' s' FL'"
  using alloc_big [OF assms(1-3) _ assms(4)] alloc_reuse [OF assms(1-3) _ _ assms(4)]
    alloc_bump [OF assms(1-3) _ _ assms(4)] by (meson not_le)

section \<open>Release\<close>

definition item_len :: "env \<Rightarrow> item \<Rightarrow> nat" where
  "item_len e it = cell_len e (icls it) (hdrSize + iklen it + ivlen it)"

definition item_maps :: "env \<Rightarrow> nat \<Rightarrow> item \<Rightarrow> (nat \<times> nat) multiset" where
  "item_maps e a it = big_maps (icls it) a (item_len e it)"

definition free_res :: "world \<Rightarrow> shard \<Rightarrow> (nat \<Rightarrow> nat) \<Rightarrow> (nat \<times> nat) multiset \<Rightarrow> nat \<Rightarrow> world \<Rightarrow> shard
    \<Rightarrow> (nat \<Rightarrow> nat list) \<Rightarrow> bool" where
  "free_res w s F M a w' s' FL' \<longleftrightarrow>
     cells_ok (mem w') (free s') (bumps s') FL'
     \<and> heap_ok w' (\<lambda>x. F x + free_cov FL' x + bump_cov (bumps s') x) M
     \<and> (\<forall>x. x \<noteq> a \<longrightarrow> mem w' x = mem w x) \<and> same_index s s' \<and> same_counters w w'"

lemma munmap_ok:
  assumes h: "heap_ok w (\<lambda>x. T x + region a n x) (add_mset (a, n) M)"
  shows "heap_ok (munmap w a n) T M"
proof -
  have M: "mset (maps w) = mset (chunks w) + add_mset (a, n) M" using h by (simp add: heap_ok_def)
  then have "(a, n) \<in># mset (maps w)" by simp
  then have "(a, n) \<in> set (maps w)" by simp
  note cov = cover_remove1 [OF this]
  show ?thesis
    unfolding heap_ok_def
  proof (intro conjI allI)
    fix x
    show "T x + region (acur (munmap w a n)) (aend (munmap w a n) - acur (munmap w a n)) x \<le> cover (maps (munmap w a n)) x"
      using heap_okD(1) [OF h, of x] cov [of x] by (simp add: munmap_def)
    show "cover (maps (munmap w a n)) x \<le> 1" using heap_okD(2) [OF h, of x] cov [of x] by (simp add: munmap_def)
    have "cover (maps w) 0 = 0" using h by (simp add: heap_ok_def)
    then show "cover (maps (munmap w a n)) 0 = 0" using cov [of 0] by (simp add: munmap_def)
    show "mset (maps (munmap w a n)) = mset (chunks (munmap w a n)) + M" using M by (simp add: munmap_def)
  qed
qed

lemma free_big:
  assumes cells: "cells_ok (mem w) (free s) (bumps s) FL" and n: "n = item_len e (mem w a)"
    and h: "heap_ok w (\<lambda>x. F x + free_cov FL x + bump_cov (bumps s) x + region a n x) (M + item_maps e a (mem w a))"
    and c: "icls (mem w a) = clsBig" and r: "freeItem e w s a = (w', s')"
  shows "free_res w s F M a w' s' FL"
proof -
  have w': "w' = munmap w a n" "s' = s"
    using r c n by (auto simp: freeItem_def item_len_def cell_len_def Let_def)
  have "heap_ok w' (\<lambda>x. F x + free_cov FL x + bump_cov (bumps s) x) M"
    unfolding w'(1) by (rule munmap_ok) (use h c n in \<open>simp add: item_maps_def big_maps_def\<close>)
  then show ?thesis using cells w' by (auto simp: free_res_def same_index_def same_counters_def munmap_def)
qed

lemma free_small:
  assumes cells: "cells_ok (mem w) (free s) (bumps s) FL" and n: "n = item_len e (mem w a)"
    and h: "heap_ok w (\<lambda>x. F x + free_cov FL x + bump_cov (bumps s) x + region a n x) (M + item_maps e a (mem w a))"
    and c: "icls (mem w a) < nClasses" "length (ibytes (mem w a)) = classSize ! icls (mem w a) - hdrSize"
    and r: "freeItem e w s a = (w', s')"
  shows "free_res w s F M a w' s' (FL(icls (mem w a) := a # FL (icls (mem w a))))"
proof -
  let ?c = "icls (mem w a)"
  have nb: "?c \<noteq> clsBig" using c(1) by (simp add: nClasses_def clsBig_def)
  then have w': "w' = upd_item a (setExpRaw (int (free s ! ?c))) w" "s' = s\<lparr>free := (free s)[?c := a]\<rparr>"
    using r by (auto simp: freeItem_def Let_def)
  have len: "n = classSize ! ?c" "0 < n" using n nb classSize_pos [OF c(1)] by (auto simp: item_len_def cell_len_def)
  have "free_cov FL a = 0" using heap_okD(3) [OF h, of a] len(2) by simp
  then have cells': "cells_ok (mem w') (free s) (bumps s) FL"
    by (intro cells_ok_cong [OF cells]) (auto simp: w' upd_item_def)
  have "a \<noteq> 0" using heap_okD(4) [OF h] len(2) by (auto simp: region_def split: if_splits)
  moreover have "mem w' a = (mem w a)\<lparr>iexp := int (free s ! ?c)\<rparr>" by (simp add: w' upd_item_def setExpRaw_def)
  ultimately have "cells_ok (mem w') (free s') (bumps s') (FL(?c := a # FL ?c))"
    using cells' c by (auto simp: cells_ok_def w'(2) nth_list_update nClasses_def)
  moreover have "free_cov (FL(?c := a # FL ?c)) x = free_cov FL x + region a n x" for x
    using free_cov_upd [OF c(1), of FL "a # FL ?c" x] len(1) by simp
  then have "heap_ok w' (\<lambda>x. F x + free_cov (FL(?c := a # FL ?c)) x + bump_cov (bumps s') x) M"
    using h nb by (auto intro: heap_ok_cong simp: w' upd_item_def item_maps_def big_maps_def ac_simps)
  ultimately show ?thesis by (auto simp: free_res_def same_index_def same_counters_def w' upd_item_def)
qed

text \<open>An item whose class and cell fit.\<close>

definition item_ok :: "env \<Rightarrow> item \<Rightarrow> bool" where
  "item_ok e it \<longleftrightarrow> (icls it = clsBig \<or> icls it < nClasses)
     \<and> length (ibytes it) = item_len e it - hdrSize \<and> hdrSize + iklen it + ivlen it \<le> item_len e it"

lemma item_len_pos: "item_ok e it \<Longrightarrow> hdrSize \<le> item_len e it"
  by (simp add: item_ok_def)

lemma freeItem_ok:
  assumes "cells_ok (mem w) (free s) (bumps s) FL" "item_ok e (mem w a)"
    and "heap_ok w (\<lambda>x. F x + free_cov FL x + bump_cov (bumps s) x + region a (item_len e (mem w a)) x)
      (M + item_maps e a (mem w a))"
    and "freeItem e w s a = (w', s')"
  shows "\<exists>FL'. free_res w s F M a w' s' FL'"
proof (cases "icls (mem w a) = clsBig")
  case True
  then show ?thesis using free_big [OF assms(1) refl assms(3) _ assms(4)] by blast
next
  case False
  then have "icls (mem w a) < nClasses" "length (ibytes (mem w a)) = classSize ! icls (mem w a) - hdrSize"
    using assms(2) by (auto simp: item_ok_def item_len_def cell_len_def)
  then show ?thesis using free_small [OF assms(1) refl assms(3) _ _ assms(4)] by blast
qed

end
