(* ===== verification/Shard_Ops.thy ===== *)
theory Shard_Ops
  imports Item_Heap
begin

text \<open>
  The operations of one shard, of the expiry sweep and of eviction
  (\<open>redis/impl/go-1/store.go\<close>), as functions on the process state and the shard. An item is its
  address, 0 for none; \<open>-1\<close> as a slot index is \<open>None\<close>. The shard lock makes each operation one step.
\<close>

section \<open>Lookup\<close>

definition nShards :: nat where "nShards = 256"

definition shard_idx :: "nat \<Rightarrow> nat" where
  "shard_idx h = h AND (nShards - 1)"

definition lruClock :: "env \<Rightarrow> int \<Rightarrow> nat" where
  "lruClock e now = nat ((now - startMs e) mod 2 ^ 32)"

definition addUsed :: "int \<Rightarrow> world \<Rightarrow> shard \<Rightarrow> world \<times> shard" where
  "addUsed d w s =
     (if maxMemory w > 0 then w\<lparr>globalUsed := globalUsed w + d\<rparr> else w, s\<lparr>used := used s + d\<rparr>)"

text \<open>The type assertions \<open>s.objs[i].(*listObj)\<close> and \<open>.(*hashObj)\<close>; a wrong assertion panics, and the
  shard invariant excludes it.\<close>

definition as_list :: "obj option \<Rightarrow> listObj" where
  "as_list ob = (case ob of Some (LObj l) \<Rightarrow> l | _ \<Rightarrow> new_listObj)"

definition as_hash :: "obj option \<Rightarrow> hashObj" where
  "as_hash ob = (case ob of Some (HObj h) \<Rightarrow> h | _ \<Rightarrow> new_hashObj)"

definition list_at_item :: "world \<Rightarrow> shard \<Rightarrow> nat \<Rightarrow> listObj" where
  "list_at_item w s it = as_list (objs s ! objIdx (mem w it))"

definition hash_at_item :: "world \<Rightarrow> shard \<Rightarrow> nat \<Rightarrow> hashObj" where
  "hash_at_item w s it = as_hash (objs s ! objIdx (mem w it))"

definition cost :: "world \<Rightarrow> shard \<Rightarrow> nat \<Rightarrow> int" where
  "cost w s it =
     (let r = mem w it in
      if ityp r = typStr then int (64 + iklen r + ivlen r)
      else if ityp r = typList then int (64 + iklen r) + lcost (list_at_item w s it)
      else int (64 + iklen r) + hcost (hash_at_item w s it))"

definition key_at :: "world \<Rightarrow> nat \<Rightarrow> bytes" where
  "key_at w a = item_key (mem w a)"

definition find_key :: "world \<Rightarrow> shard \<Rightarrow> bytes \<Rightarrow> nat \<Rightarrow> nat option \<times> nat option" where
  "find_key w s key h =
     (case find_loop (slots s) (key_at w) key (tag_of h) (length (slots s)) (home (length (slots s)) h) None of
        Some r \<Rightarrow> r
      | None \<Rightarrow> (None, None))"

definition slot_addr :: "slot \<Rightarrow> nat" where
  "slot_addr v = (case v of SRef t a \<Rightarrow> a | _ \<Rightarrow> 0)"

section \<open>Items and slots\<close>

definition setExp :: "nat \<Rightarrow> int \<Rightarrow> world \<Rightarrow> shard \<Rightarrow> world \<times> shard" where
  "setExp it x w s =
     (let old = iexp (mem w it);
          s1 = (if old = 0 \<and> x \<noteq> 0 then s\<lparr>nexp := nexp s + 1\<rparr>
                else if old \<noteq> 0 \<and> x = 0 then s\<lparr>nexp := nexp s - 1\<rparr> else s)
      in (upd_item it (setExpRaw x) w, s1))"

definition releaseObj :: "nat \<Rightarrow> world \<Rightarrow> shard \<Rightarrow> shard" where
  "releaseObj it w s =
     (if ityp (mem w it) \<noteq> typStr then
        let i = objIdx (mem w it) in s\<lparr>objs := (objs s)[i := None], freeObjs := freeObjs s @ [i]\<rparr>
      else s)"

definition newObj :: "obj \<Rightarrow> shard \<Rightarrow> nat \<times> shard" where
  "newObj ob s =
     (if length (freeObjs s) > 0 then
        let i = last (freeObjs s) in (i, s\<lparr>freeObjs := butlast (freeObjs s), objs := (objs s)[i := Some ob]\<rparr>)
      else ((length (objs s)) mod 2 ^ 32, s\<lparr>objs := objs s @ [Some ob]\<rparr>))"

definition del :: "env \<Rightarrow> nat \<Rightarrow> nat \<Rightarrow> world \<Rightarrow> shard \<Rightarrow> world \<times> shard" where
  "del e idx it w s =
     (let (w1, s1) = addUsed (- cost w s it) w s;
          s2 = (if iexp (mem w1 it) \<noteq> 0 then s1\<lparr>nexp := nexp s1 - 1\<rparr> else s1);
          s3 = releaseObj it w1 s2;
          (w4, s4) = freeItem e w1 s3 it;
          s5 = (if slots s4 ! next_slot (length (slots s4)) idx = SEmpty
                then s4\<lparr>slots := (slots s4)[idx := SEmpty]\<rparr>
                else s4\<lparr>slots := (slots s4)[idx := STomb], tombs := tombs s4 + 1\<rparr>)
      in (w4, s5\<lparr>scount := scount s5 - 1\<rparr>))"

definition get :: "env \<Rightarrow> bytes \<Rightarrow> nat \<Rightarrow> int \<Rightarrow> world \<Rightarrow> shard
    \<Rightarrow> nat option \<times> nat \<times> nat option \<times> world \<times> shard" where
  "get e key h now w s =
     (case find_key w s key h of
        (None, ins) \<Rightarrow> (None, 0, ins, w, s)
      | (Some idx, ins) \<Rightarrow>
          let it = slot_addr (slots s ! idx); x = iexp (mem w it) in
          if x \<noteq> 0 \<and> x \<le> now then
            let (w1, s1) = del e idx it w s in
            (None, 0, if ins = None then Some idx else ins, w1, s1)
          else
            (Some idx, it, ins, if maxMemory w > 0 then upd_item it (setLRU (lruClock e now)) w else w, s))"

definition rehash :: "env \<Rightarrow> world \<Rightarrow> nat \<Rightarrow> shard \<Rightarrow> shard" where
  "rehash e w n s = s\<lparr>slots := rehash_slots (hashKey e) (key_at w) (slots s) n, tombs := 0, expCur := 0\<rparr>"

definition grow :: "env \<Rightarrow> world \<Rightarrow> shard \<Rightarrow> shard" where
  "grow e w s =
     (if (scount s + tombs s + 1) * 4 > int (length (slots s)) * 3 then rehash e w (grow_size (scount s) 8) s else s)"

definition grow0 :: "env \<Rightarrow> world \<Rightarrow> shard \<Rightarrow> shard" where
  "grow0 e w s = rehash e w (grow_size (scount s) 8) s"

definition newItem :: "env \<Rightarrow> bytes \<Rightarrow> nat \<Rightarrow> nat \<Rightarrow> int \<Rightarrow> world \<Rightarrow> shard \<Rightarrow> nat \<times> world \<times> shard" where
  "newItem e key vlen typ now w s =
     (let (p, cls, w1, s1) = allocRaw e w s (hdrSize + length key + vlen);
          w2 = upd_item p (setExpRaw 0) w1;
          w3 = upd_item p (setLRU (lruClock e now)) w2;
          w4 = upd_item p (setHdr (length key) vlen typ cls) w3
      in (p, upd_item p (copy_key key) w4, s1))"

definition insert_item :: "nat \<Rightarrow> nat \<Rightarrow> nat \<Rightarrow> world \<Rightarrow> shard \<Rightarrow> world \<times> shard" where
  "insert_item ins h it w s =
     (let s1 = (if slots s ! ins = STomb then s\<lparr>tombs := tombs s - 1\<rparr> else s);
          s2 = s1\<lparr>slots := (slots s1)[ins := SRef (tag_of h) it], scount := scount s1 + 1\<rparr>;
          s3 = (if iexp (mem w it) \<noteq> 0 then s2\<lparr>nexp := nexp s2 + 1\<rparr> else s2)
      in addUsed (cost w s3 it) w s3)"

text \<open>\<open>s.slots[idx]&^ptrMask | uint64(nw)\<close> keeps the tag and replaces the address.\<close>

definition slot_set_addr :: "slot \<Rightarrow> nat \<Rightarrow> slot" where
  "slot_set_addr v a = (case v of SRef t b \<Rightarrow> SRef t a | SEmpty \<Rightarrow> SRef 0 a | STomb \<Rightarrow> SRef 0 a)"

definition replace_item :: "env \<Rightarrow> nat \<Rightarrow> nat \<Rightarrow> nat \<Rightarrow> world \<Rightarrow> shard \<Rightarrow> world \<times> shard" where
  "replace_item e idx old nw w s =
     (let (w1, s1) = addUsed (cost w s nw - cost w s old) w s;
          s2 = (if iexp (mem w1 old) \<noteq> 0 then s1\<lparr>nexp := nexp s1 - 1\<rparr> else s1);
          s3 = (if iexp (mem w1 nw) \<noteq> 0 then s2\<lparr>nexp := nexp s2 + 1\<rparr> else s2);
          s4 = releaseObj old w1 s3;
          (w5, s5) = freeItem e w1 s4 old
      in (w5, s5\<lparr>slots := (slots s5)[idx := slot_set_addr (slots s5 ! idx) nw]\<rparr>))"

definition newStr :: "env \<Rightarrow> bytes \<Rightarrow> bytes \<Rightarrow> int \<Rightarrow> int \<Rightarrow> world \<Rightarrow> shard \<Rightarrow> nat \<times> world \<times> shard" where
  "newStr e key val x now w s =
     (let (nw, w1, s1) = newItem e key (length val) typStr now w s;
          w2 = upd_item nw (\<lambda>r. copy_val (ivlen r) 0 val r) w1
      in (nw, upd_item nw (setExpRaw x) w2, s1))"

definition setStr :: "env \<Rightarrow> nat option \<Rightarrow> nat \<Rightarrow> nat option \<Rightarrow> nat \<Rightarrow> bytes \<Rightarrow> bytes \<Rightarrow> int \<Rightarrow> int
    \<Rightarrow> world \<Rightarrow> shard \<Rightarrow> world \<times> shard" where
  "setStr e idx it ins h key val x now w s =
     (if it \<noteq> 0 then
        if ityp (mem w it) = typStr \<and> int (length val) \<le> item_capacity (mem w it) \<and> icls (mem w it) \<noteq> clsBig then
          let d = int (length val) - int (ivlen (mem w it));
              w1 = upd_item it (setVlen (length val)) w;
              w2 = upd_item it (\<lambda>r. copy_val (ivlen r) 0 val r) w1;
              (w3, s3) = setExp it x w2 s
          in addUsed d w3 s3
        else
          let (nw, w1, s1) = newStr e key val x now w s in replace_item e (the idx) it nw w1 s1
      else
        let (nw, w1, s1) = newStr e key val x now w s in insert_item (the ins) h nw w1 s1)"

definition newContainer :: "env \<Rightarrow> nat option \<Rightarrow> nat \<Rightarrow> bytes \<Rightarrow> nat \<Rightarrow> obj \<Rightarrow> int \<Rightarrow> world \<Rightarrow> shard
    \<Rightarrow> nat \<times> world \<times> shard" where
  "newContainer e ins h key typ ob now w s =
     (let (it, w1, s1) = newItem e key 4 typ now w s;
          (i, s2) = newObj ob s1;
          w2 = upd_item it (setObjIdx i) w1;
          (w3, s3) = insert_item (the ins) h it w2 s2
      in (it, w3, s3))"

definition flush_shard :: "env \<Rightarrow> world \<Rightarrow> shard \<Rightarrow> world \<times> shard" where
  "flush_shard e w s =
     (let (w1, s1) = foldl (\<lambda>(w, s) v. case v of
                        SRef t a \<Rightarrow> if icls (mem w a) = clsBig then freeItem e w s a else (w, s)
                      | _ \<Rightarrow> (w, s)) (w, s) (slots s);
          (w2, s2) = addUsed (- used s1) w1 s1
      in (w2, s2\<lparr>slots := replicate 8 SEmpty, scount := 0, tombs := 0, nexp := 0, expCur := 0,
                 free := replicate 80 0, bumps := replicate 80 (0, 0), objs := [], freeObjs := []\<rparr>))"

definition init_shard :: shard where
  "init_shard = \<lparr>slots = replicate 8 SEmpty, scount = 0, tombs = 0, used = 0, nexp = 0, expCur = 0,
     free = replicate 80 0, bumps = replicate 80 (0, 0), objs = [], freeObjs = []\<rparr>"

section \<open>The expiry sweep\<close>

text \<open>One inner loop of \<open>expiryLoop\<close>: up to 1024 slots while the budget lasts, all against one reading
  of the clock; then the table is shrunk when it is mostly empty. The lock is released between
  two such batches.\<close>

definition sweep_one :: "env \<Rightarrow> int \<Rightarrow> world \<Rightarrow> shard \<Rightarrow> world \<times> shard" where
  "sweep_one e now w s =
     (let s1 = (if expCur s \<ge> length (slots s) then s\<lparr>expCur := 0\<rparr> else s);
          (w2, s2) = (case slots s1 ! expCur s1 of
                        SRef t a \<Rightarrow> if iexp (mem w a) \<noteq> 0 \<and> iexp (mem w a) \<le> now
                                    then del e (expCur s1) a w s1 else (w, s1)
                      | _ \<Rightarrow> (w, s1))
      in (w2, s2\<lparr>expCur := expCur s2 + 1\<rparr>))"

fun sweep_batch :: "env \<Rightarrow> int \<Rightarrow> nat \<Rightarrow> nat \<Rightarrow> world \<Rightarrow> shard \<Rightarrow> nat \<times> world \<times> shard" where
  "sweep_batch e now n 0 w s = (0, w, s)"
| "sweep_batch e now n (Suc budget) w s =
     (if n < 1024 then let (w1, s1) = sweep_one e now w s in sweep_batch e now (n + 1) budget w1 s1
      else (Suc budget, w, s))"

definition shrink_idle :: "env \<Rightarrow> world \<Rightarrow> shard \<Rightarrow> shard" where
  "shrink_idle e w s =
     (if scount s * 8 < int (length (slots s)) \<and> length (slots s) > 64 then grow0 e w s else s)"

lemma sweep_batch_budget: "fst (sweep_batch e now n budget w s) \<le> budget"
proof (induction e now n budget w s rule: sweep_batch.induct)
  case (2 e now n budget w s)
  then show ?case by (cases "sweep_one e now w s") (auto intro: le_SucI)
qed simp

lemma sweep_batch_progress: "0 < budget \<Longrightarrow> fst (sweep_batch e now 0 budget w s) < budget"
proof (cases budget)
  case (Suc b)
  obtain w1 s1 where "sweep_one e now w s = (w1, s1)" by fastforce
  with Suc sweep_batch_budget [of e now 1 b w1 s1] show ?thesis by simp
qed simp

text \<open>The loop over batches, with the clock reading of each.\<close>

function sweep_loop :: "env \<Rightarrow> (nat \<Rightarrow> int) \<Rightarrow> nat \<Rightarrow> nat \<Rightarrow> world \<Rightarrow> shard \<Rightarrow> world \<times> shard" where
  "sweep_loop e clock k budget w s =
     (if budget > 0 then
        let (budget1, w1, s1) = sweep_batch e (clock k) 0 budget w s in
        sweep_loop e clock (k + 1) budget1 w1 (shrink_idle e w1 s1)
      else (w, s))"
  by pat_completeness auto
termination
proof (relation "measure (\<lambda>(e, clock, k, budget, w, s). budget)", simp)
  fix e and clock :: "nat \<Rightarrow> int" and k budget :: nat and w s x b1 y w1 s1
  assume b: "0 < budget" and r: "x = sweep_batch e (clock k) 0 budget w s" "(b1, y) = x" "(w1, s1) = y"
  have "b1 = fst (sweep_batch e (clock k) 0 budget w s)" using r by (metis fst_conv)
  then have "b1 < budget" using sweep_batch_progress [OF b] by simp
  then show "((e, clock, k + 1, b1, w1, shrink_idle e w1 s1), e, clock, k, budget, w, s)
    \<in> measure (\<lambda>(e, clock, k, budget, w, s). budget)" by simp
qed

declare sweep_loop.simps [simp del]

definition expiry_shard :: "env \<Rightarrow> (nat \<Rightarrow> int) \<Rightarrow> world \<Rightarrow> shard \<Rightarrow> world \<times> shard" where
  "expiry_shard e clock w s =
     (if nexp s = 0 then (w, shrink_idle e w s)
      else sweep_loop e clock 0 (length (slots s) div 8 + 64) w s)"

section \<open>Eviction\<close>

definition isProtected :: "bytes \<Rightarrow> bytes list \<Rightarrow> bool" where
  "isProtected k protect = list_ex (\<lambda>p. k = p) protect"

definition draw :: "env \<Rightarrow> nat \<Rightarrow> world \<Rightarrow> nat \<times> world" where
  "draw e n w = (randIntN e (draws w) n, w\<lparr>draws := draws w + 1\<rparr>)"

text \<open>The sampling loop of \<open>evictOne\<close>: up to 16 unprotected items from a random slot on; the best so far
  is the slot, LRU clock and address of the least recently used one.\<close>

fun evict_scan :: "world \<Rightarrow> slot list \<Rightarrow> bytes list \<Rightarrow> nat \<Rightarrow> nat \<Rightarrow> nat \<Rightarrow> (nat \<times> nat \<times> nat) option
    \<Rightarrow> (nat \<times> nat \<times> nat) option" where
  "evict_scan w sl protect 0 i sampled best = best"
| "evict_scan w sl protect (Suc k) i sampled best =
     (if sampled < 16 then
        (case sl ! i of
           SRef t a \<Rightarrow>
             if \<not> isProtected (key_at w a) protect then
               evict_scan w sl protect k (next_slot (length sl) i) (sampled + 1)
                 (case best of
                    None \<Rightarrow> Some (i, ilru (mem w a), a)
                  | Some (bi, bl, ba) \<Rightarrow> if ilru (mem w a) < bl then Some (i, ilru (mem w a), a) else best)
             else evict_scan w sl protect k (next_slot (length sl) i) sampled best
         | _ \<Rightarrow> evict_scan w sl protect k (next_slot (length sl) i) sampled best)
      else best)"

fun evict_tries :: "env \<Rightarrow> bytes list \<Rightarrow> nat \<Rightarrow> world \<Rightarrow> shard list \<Rightarrow> bool \<times> world \<times> shard list" where
  "evict_tries e protect 0 w shs = (False, w, shs)"
| "evict_tries e protect (Suc k) w shs =
     (let (si, w1) = draw e nShards w; s = shs ! si in
      if scount s = 0 then evict_tries e protect k w1 shs
      else
        let n = length (slots s); (i, w2) = draw e n w1 in
        (case evict_scan w2 (slots s) protect n i 0 None of
           Some (bi, bl, ba) \<Rightarrow> let (w3, s3) = del e bi ba w2 s in (True, w3, shs[si := s3])
         | None \<Rightarrow> evict_tries e protect k w2 shs))"

definition evictOne :: "env \<Rightarrow> bytes list \<Rightarrow> world \<Rightarrow> shard list \<Rightarrow> bool \<times> world \<times> shard list" where
  "evictOne e protect w shs = evict_tries e protect (nShards * 4) w shs"

text \<open>The loop of \<open>evict\<close>. Its fuel is one more than the number of slots of all shards: every round that
  succeeds empties one.\<close>

fun evict_loop :: "env \<Rightarrow> bytes list \<Rightarrow> nat \<Rightarrow> world \<Rightarrow> shard list \<Rightarrow> (world \<times> shard list) option" where
  "evict_loop e protect 0 w shs = None"
| "evict_loop e protect (Suc k) w shs =
     (if globalUsed w > maxMemory w then
        (case evictOne e protect w shs of
           (True, w1, shs1) \<Rightarrow> evict_loop e protect k w1 shs1
         | (False, w1, shs1) \<Rightarrow> Some (w1, shs1))
      else Some (w, shs))"

definition evict_fuel :: "shard list \<Rightarrow> nat" where
  "evict_fuel shs = Suc (\<Sum>s \<leftarrow> shs. length (slots s))"

definition evict :: "env \<Rightarrow> bytes list \<Rightarrow> world \<Rightarrow> shard list \<Rightarrow> world \<times> shard list" where
  "evict e protect w shs =
     (case evict_loop e protect (evict_fuel shs) w shs of Some r \<Rightarrow> r | None \<Rightarrow> (w, shs))"

end
