(* ===== verification/Shard_Inv.thy ===== *)
theory Shard_Inv
  imports Shard_Ops
begin

text \<open>
  The shard invariant, the abstract keyspace a shard stands for, and what each shard operation does to
  both. The frame \<open>F\<close>, \<open>M\<close> stands for the memory and the mappings that belong to other shards (or to
  an item that is allocated and not yet stored): every operation leaves it alone.
\<close>

section \<open>Bytes of a cell\<close>

lemma length_write_at [simp]: "length (write_at b off src) = length b"
  by (auto simp: write_at_def)

lemma take_write_at: "n \<le> off \<Longrightarrow> take n (write_at b off src) = take n b"
  by (cases "off \<le> length b") (auto simp: write_at_def min_def go_copy_def)

lemma drop_write_at: "off + length src \<le> length b \<Longrightarrow> take (length src) (drop off (write_at b off src)) = src"
  by (simp add: write_at_def go_copy_fits)

lemma get32_take: "get32 (take 4 b) = get32 b"
  by (simp add: get32_def)

lemma get32_put32: "n < 2 ^ 32 \<Longrightarrow> get32 (put32 n @ b) = n"
proof -
  assume n: "n < 2 ^ 32"
  define a b c where "a = n div 256" and "b = a div 256" and "c = b div 256"
  have d: "n div 65536 = b" "n div 16777216 = c" by (simp_all add: a_def b_def c_def div_mult2_eq [symmetric])
  have "c < 256" using n unfolding d(2) [symmetric] by (simp add: less_mult_imp_div_less)
  moreover have "n = 256 * a + n mod 256" "a = 256 * b + a mod 256" "b = 256 * c + b mod 256"
    by (simp_all add: a_def b_def c_def)
  ultimately have "n mod 256 + 256 * (a mod 256) + 65536 * (b mod 256) + 16777216 * (c mod 256) = n"
    by simp
  then show ?thesis by (simp add: get32_def put32_def of_char_of d a_def)
qed

section \<open>The keyspace\<close>

datatype rval = VStr bytes | VList "bytes list" | VHash "bytes \<rightharpoonup> bytes"

type_synonym keyspace = "bytes \<rightharpoonup> rval \<times> int"

definition val_of :: "world \<Rightarrow> shard \<Rightarrow> nat \<Rightarrow> rval" where
  "val_of w s a =
     (if ityp (mem w a) = typStr then VStr (item_val (mem w a))
      else if ityp (mem w a) = typList then VList (list_elems (list_at_item w s a))
      else VHash (hash_fields (hash_at_item w s a)))"

definition entry :: "world \<Rightarrow> shard \<Rightarrow> nat \<Rightarrow> rval \<times> int" where
  "entry w s a = (val_of w s a, iexp (mem w a))"

definition kv :: "world \<Rightarrow> shard \<Rightarrow> keyspace" where
  "kv w s = map_of (map (\<lambda>a. (key_at w a, entry w s a)) (addrs (slots s)))"

section \<open>The invariant\<close>

definition list_cost :: "bytes list \<Rightarrow> int" where
  "list_cost xs = (\<Sum>v \<leftarrow> xs. 16 + int (length v))"

definition obj_ok :: "world \<Rightarrow> shard \<Rightarrow> nat \<Rightarrow> bool" where
  "obj_ok w s a \<longleftrightarrow> ityp (mem w a) = typStr \<or>
     ivlen (mem w a) = 4 \<and> objIdx (mem w a) < length (objs s) \<and>
     (ityp (mem w a) = typList \<and> (\<exists>l. objs s ! objIdx (mem w a) = Some (LObj l) \<and> list_inv l \<and> lcost l = list_cost (list_elems l))
      \<or> ityp (mem w a) = typHash \<and> (\<exists>h. objs s ! objIdx (mem w a) = Some (HObj h) \<and> hash_inv h \<and> hcost h = map_cost (hash_fields h)))"

definition index_ok :: "env \<Rightarrow> world \<Rightarrow> shard \<Rightarrow> bool" where
  "index_ok e w s \<longleftrightarrow> tbl_ok (hashKey e) (key_at w) (slots s)
     \<and> scount s = int (card (refs (slots s))) \<and> tombs s = int (n_tombs (slots s))"

definition acct_ok :: "world \<Rightarrow> shard \<Rightarrow> bool" where
  "acct_ok w s \<longleftrightarrow> nexp s = int (card {a \<in> refs (slots s). iexp (mem w a) \<noteq> 0})
     \<and> used s = (\<Sum>a \<in> refs (slots s). cost w s a)"

definition items_ok :: "env \<Rightarrow> world \<Rightarrow> shard \<Rightarrow> bool" where
  "items_ok e w s \<longleftrightarrow> (\<forall>a \<in> refs (slots s). item_ok e (mem w a) \<and> obj_ok w s a)"

definition objs_ok :: "world \<Rightarrow> shard \<Rightarrow> bool" where
  "objs_ok w s \<longleftrightarrow> inj_on (\<lambda>a. objIdx (mem w a)) {a \<in> refs (slots s). ityp (mem w a) \<noteq> typStr}
     \<and> distinct (freeObjs s) \<and> (\<forall>i \<in> set (freeObjs s). i < length (objs s) \<and> objs s ! i = None)
     \<and> length (objs s) \<le> 2 ^ 32"

definition live_cov :: "env \<Rightarrow> (nat \<Rightarrow> item) \<Rightarrow> nat set \<Rightarrow> nat \<Rightarrow> nat" where
  "live_cov e m R x = (\<Sum>a \<in> R. region a (item_len e (m a)) x)"

definition live_maps :: "env \<Rightarrow> (nat \<Rightarrow> item) \<Rightarrow> nat set \<Rightarrow> (nat \<times> nat) multiset" where
  "live_maps e m R = (\<Sum>a \<in> R. item_maps e a (m a))"

definition sh :: "env \<Rightarrow> (nat \<Rightarrow> nat) \<Rightarrow> (nat \<times> nat) multiset \<Rightarrow> world \<Rightarrow> shard \<Rightarrow> (nat \<Rightarrow> nat list) \<Rightarrow> bool" where
  "sh e F M w s FL \<longleftrightarrow> index_ok e w s \<and> acct_ok w s \<and> items_ok e w s \<and> objs_ok w s
     \<and> cells_ok (mem w) (free s) (bumps s) FL
     \<and> heap_ok w (\<lambda>x. F x + live_cov e (mem w) (refs (slots s)) x + free_cov FL x + bump_cov (bumps s) x)
         (M + live_maps e (mem w) (refs (slots s)))"

definition shard_inv :: "env \<Rightarrow> (nat \<Rightarrow> nat) \<Rightarrow> (nat \<times> nat) multiset \<Rightarrow> world \<Rightarrow> shard \<Rightarrow> bool" where
  "shard_inv e F M w s \<longleftrightarrow> (\<exists>FL. sh e F M w s FL)"

text \<open>What every operation guarantees to the rest of the process.\<close>

definition framed :: "(nat \<Rightarrow> nat) \<Rightarrow> world \<Rightarrow> shard \<Rightarrow> world \<Rightarrow> shard \<Rightarrow> bool" where
  "framed F w s w' s' \<longleftrightarrow> (\<forall>a. 0 < F a \<longrightarrow> mem w' a = mem w a) \<and> maxMemory w' = maxMemory w \<and> draws w' = draws w
     \<and> globalUsed w' = globalUsed w + (if maxMemory w > 0 then used s' - used s else 0)"

lemma framed_refl [simp]: "framed F w s w s"
  by (simp add: framed_def)

lemma framed_trans: "framed F w s w1 s1 \<Longrightarrow> framed F w1 s1 w2 s2 \<Longrightarrow> framed F w s w2 s2"
  by (auto simp: framed_def)

section \<open>Facts about live items\<close>

lemma shD:
  assumes "sh e F M w s FL"
  shows "tbl_ok (hashKey e) (key_at w) (slots s)" "scount s = int (card (refs (slots s)))"
    "tombs s = int (n_tombs (slots s))" "nexp s = int (card {a \<in> refs (slots s). iexp (mem w a) \<noteq> 0})"
    "used s = (\<Sum>a \<in> refs (slots s). cost w s a)"
    "\<And>a. a \<in> refs (slots s) \<Longrightarrow> item_ok e (mem w a)" "\<And>a. a \<in> refs (slots s) \<Longrightarrow> obj_ok w s a"
    "objs_ok w s" "cells_ok (mem w) (free s) (bumps s) FL"
    "heap_ok w (\<lambda>x. F x + live_cov e (mem w) (refs (slots s)) x + free_cov FL x + bump_cov (bumps s) x)
      (M + live_maps e (mem w) (refs (slots s)))"
  using assms by (auto simp: sh_def index_ok_def acct_ok_def items_ok_def)

lemma live_cov_insert [simp]: "finite R \<Longrightarrow> a \<notin> R \<Longrightarrow> live_cov e m (insert a R) x = region a (item_len e (m a)) x + live_cov e m R x"
  by (simp add: live_cov_def)

lemma live_maps_insert [simp]: "finite R \<Longrightarrow> a \<notin> R \<Longrightarrow> live_maps e m (insert a R) = item_maps e a (m a) + live_maps e m R"
  by (simp add: live_maps_def)

lemma live_cong: "(\<And>a. a \<in> R \<Longrightarrow> item_len e (m' a) = item_len e (m a)) \<Longrightarrow> live_cov e m' R = live_cov e m R"
  by (simp add: live_cov_def fun_eq_iff)

lemma live_maps_cong: "(\<And>a. a \<in> R \<Longrightarrow> item_len e (m' a) = item_len e (m a) \<and> icls (m' a) = icls (m a)) \<Longrightarrow>
    live_maps e m' R = live_maps e m R"
  unfolding live_maps_def by (intro sum.cong) (auto simp: item_maps_def)

lemma live_cov_remove: "finite R \<Longrightarrow> a \<in> R \<Longrightarrow> live_cov e m R x = region a (item_len e (m a)) x + live_cov e m (R - {a}) x"
  by (metis Diff_iff finite_Diff insert_Diff live_cov_insert singletonI)

lemma live_maps_remove: "finite R \<Longrightarrow> a \<in> R \<Longrightarrow> live_maps e m R = item_maps e a (m a) + live_maps e m (R - {a})"
  by (metis Diff_iff finite_Diff insert_Diff live_maps_insert singletonI)

lemma hdr_pos: "item_ok e it \<Longrightarrow> 0 < item_len e it"
  by (simp add: item_ok_def hdrSize_def)

lemma sh_live:
  assumes "sh e F M w s FL" "a \<in> refs (slots s)"
  shows "F a = 0" "free_cov FL a = 0" "a \<noteq> 0"
proof -
  have "1 \<le> live_cov e (mem w) (refs (slots s)) a"
    using live_cov_remove [OF finite_refs assms(2), of e "mem w" a] hdr_pos [OF shD(6) [OF assms]] by simp
  moreover have "F a + live_cov e (mem w) (refs (slots s)) a + free_cov FL a + bump_cov (bumps s) a \<le> 1"
    using heap_okD(3) [OF shD(10) [OF assms(1)], of a] by simp
  ultimately show "F a = 0" "free_cov FL a = 0" by auto
  show "a \<noteq> 0" using heap_okD(4) [OF shD(10) [OF assms(1)]] \<open>1 \<le> live_cov e (mem w) (refs (slots s)) a\<close>
    by (metis add_eq_0_iff_both_eq_0 not_one_le_zero)
qed

lemma kv_iff:
  assumes "tbl_ok (hashKey e) (key_at w) (slots s)"
  shows "kv w s k = Some x \<longleftrightarrow> (\<exists>a \<in> refs (slots s). key_at w a = k \<and> x = entry w s a)"
proof -
  have "distinct (map fst (map (\<lambda>a. (key_at w a, entry w s a)) (addrs (slots s))))"
    using distinct_addrs [OF assms] by (simp add: comp_def)
  then show ?thesis unfolding kv_def by (auto simp: map_of_eq_Some_iff set_addrs [symmetric])
qed

lemma kv_None:
  assumes "tbl_ok (hashKey e) (key_at w) (slots s)"
  shows "kv w s k = None \<longleftrightarrow> (\<forall>a \<in> refs (slots s). key_at w a \<noteq> k)"
proof -
  have "kv w s k = None \<longleftrightarrow> (\<forall>x. kv w s k \<noteq> Some x)" by (simp only: not_Some_eq)
  then show ?thesis unfolding kv_iff [OF assms] by blast
qed

lemma key_inj:
  assumes "tbl_ok hk kf sl" "a \<in> refs sl" "b \<in> refs sl" "kf a = kf b"
  shows "a = b"
proof -
  obtain i j where "ref_at sl i a" "ref_at sl j b" using assms(2,3) by (auto simp: refs_def)
  then show ?thesis using tbl_ok_inj [OF assms(1), of i a j b] assms(4) ref_at_fun by blast
qed

lemma map_eqI: "(\<And>k x. m k = Some x \<longleftrightarrow> m' k = Some x) \<Longrightarrow> m = m'"
  by (metis ext not_Some_eq)

text \<open>An item that an operation does not touch keeps its cost, value and invariant.\<close>

lemma untouched:
  assumes "mem w' b = mem w b" "obj_ok w s b"
    and "ityp (mem w b) \<noteq> typStr \<Longrightarrow> objs s' ! objIdx (mem w b) = objs s ! objIdx (mem w b) \<and> objIdx (mem w b) < length (objs s')"
  shows "cost w' s' b = cost w s b" "entry w' s' b = entry w s b" "obj_ok w' s' b"
  using assms by (auto simp: cost_def entry_def val_of_def list_at_item_def hash_at_item_def obj_ok_def Let_def)

section \<open>Deleting\<close>

lemma addUsed_simps [simp]: "mem (fst (addUsed d w s)) = mem w" "maps (fst (addUsed d w s)) = maps w"
  "chunks (fst (addUsed d w s)) = chunks w" "acur (fst (addUsed d w s)) = acur w" "aend (fst (addUsed d w s)) = aend w"
  "maxMemory (fst (addUsed d w s)) = maxMemory w" "draws (fst (addUsed d w s)) = draws w"
  "globalUsed (fst (addUsed d w s)) = globalUsed w + (if maxMemory w > 0 then d else 0)"
  "snd (addUsed d w s) = s\<lparr>used := used s + d\<rparr>"
  by (simp_all add: addUsed_def)

lemma releaseObj_simps [simp]: "slots (releaseObj a w s) = slots s" "scount (releaseObj a w s) = scount s"
  "tombs (releaseObj a w s) = tombs s" "used (releaseObj a w s) = used s" "nexp (releaseObj a w s) = nexp s"
  "expCur (releaseObj a w s) = expCur s" "free (releaseObj a w s) = free s" "bumps (releaseObj a w s) = bumps s"
  by (simp_all add: releaseObj_def Let_def)

lemma releaseObj_objs:
  assumes "objs_ok w s" "a \<in> refs (slots s)" "obj_ok w s a" "refs sl = refs (slots s) - {a}"
    "\<And>b. b \<in> refs sl \<Longrightarrow> mem w' b = mem w b"
    "objs s' = objs (releaseObj a w s)" "freeObjs s' = freeObjs (releaseObj a w s)" "slots s' = sl"
  shows "objs_ok w' s'"
    "\<And>b. b \<in> refs sl \<Longrightarrow> obj_ok w s b \<Longrightarrow> ityp (mem w b) \<noteq> typStr \<Longrightarrow>
       objs s' ! objIdx (mem w b) = objs s ! objIdx (mem w b) \<and> objIdx (mem w b) < length (objs s')"
proof -
  have inj: "objIdx (mem w b) \<noteq> objIdx (mem w a)" if "b \<in> refs sl" "ityp (mem w b) \<noteq> typStr" "ityp (mem w a) \<noteq> typStr" for b
    using assms(1,2,4) that by (auto simp: objs_ok_def inj_on_def)
  show "objs s' ! objIdx (mem w b) = objs s ! objIdx (mem w b) \<and> objIdx (mem w b) < length (objs s')"
    if "b \<in> refs sl" "obj_ok w s b" "ityp (mem w b) \<noteq> typStr" for b
    using inj [OF that(1,3)] that(2,3) by (auto simp: assms(6) releaseObj_def Let_def obj_ok_def nth_list_update)
  have "inj_on (\<lambda>b. objIdx (mem w' b)) {b \<in> refs sl. ityp (mem w' b) \<noteq> typStr}"
    using assms(1,4,5) by (auto simp: objs_ok_def inj_on_def)
  moreover have "distinct (freeObjs s') \<and> (\<forall>i \<in> set (freeObjs s'). i < length (objs s') \<and> objs s' ! i = None) \<and> length (objs s') \<le> 2 ^ 32"
  proof (cases "ityp (mem w a) = typStr")
    case True
    then show ?thesis using assms(1) by (simp add: objs_ok_def assms(6,7) releaseObj_def)
  next
    case False
    let ?i = "objIdx (mem w a)"
    have i: "?i < length (objs s)" "objs s ! ?i \<noteq> None" using assms(3) False by (auto simp: obj_ok_def)
    have o: "objs s' = (objs s)[?i := None]" "freeObjs s' = freeObjs s @ [?i]"
      using False by (simp_all add: assms(6,7) releaseObj_def Let_def)
    have f: "distinct (freeObjs s)" "\<forall>j \<in> set (freeObjs s). j < length (objs s) \<and> objs s ! j = None" "length (objs s) \<le> 2 ^ 32"
      using assms(1) by (auto simp: objs_ok_def)
    then show ?thesis using i by (auto simp: o nth_list_update)
  qed
  ultimately show "objs_ok w' s'" by (simp add: objs_ok_def assms(8))
qed

lemma card_nexp_remove:
  "finite R \<Longrightarrow> a \<in> R \<Longrightarrow> int (card {b \<in> R - {a}. P b}) = int (card {b \<in> R. P b}) - (if P a then 1 else 0)"
proof -
  assume R: "finite R" "a \<in> R"
  have "{b \<in> R - {a}. P b} = {b \<in> R. P b} - {a}" by auto
  then have "card {b \<in> R - {a}. P b} = card ({b \<in> R. P b} - {a})" by simp
  also have "int \<dots> = int (card {b \<in> R. P b}) - (if P a then 1 else 0)"
  proof (cases "P a")
    case True
    then have "a \<in> {b \<in> R. P b}" "finite {b \<in> R. P b}" using R by auto
    from card_Suc_Diff1 [OF this(2,1)] show ?thesis using True by simp
  qed simp
  finally show ?thesis by simp
qed

text \<open>The shard after \<open>del\<close>, in one step.\<close>

lemma del_shape:
  assumes "del e idx a w s = (w', s')"
  obtains w1 s3 s4 where
    "w1 = fst (addUsed (- cost w s a) w s)"
    "s3 = releaseObj a w (s\<lparr>used := used s - cost w s a, nexp := nexp s - (if iexp (mem w a) \<noteq> 0 then 1 else 0)\<rparr>)"
    "freeItem e w1 s3 a = (w', s4)"
    "s' = s4\<lparr>slots := clear_slot (slots s4) idx,
       tombs := tombs s4 + (if slots s4 ! next_slot (length (slots s4)) idx = SEmpty then 0 else 1), scount := scount s4 - 1\<rparr>"
proof -
  obtain w1 s1 where 1: "addUsed (- cost w s a) w s = (w1, s1)" by fastforce
  then have m: "mem w1 = mem w" "s1 = s\<lparr>used := used s - cost w s a\<rparr>"
    using addUsed_simps(1,9) [of "- cost w s a" w s] by simp_all
  let ?s3 = "releaseObj a w (s\<lparr>used := used s - cost w s a, nexp := nexp s - (if iexp (mem w a) \<noteq> 0 then 1 else 0)\<rparr>)"
  have s3: "releaseObj a w1 (if iexp (mem w1 a) \<noteq> 0 then s1\<lparr>nexp := nexp s1 - 1\<rparr> else s1) = ?s3"
    by (simp add: m releaseObj_def)
  obtain w4 s4 where 4: "freeItem e w1 ?s3 a = (w4, s4)" by fastforce
  have "w' = w4" "s' = s4\<lparr>slots := clear_slot (slots s4) idx,
       tombs := tombs s4 + (if slots s4 ! next_slot (length (slots s4)) idx = SEmpty then 0 else 1), scount := scount s4 - 1\<rparr>"
    using assms unfolding del_def 1 Let_def case_prod_conv s3 4 by (auto simp: clear_slot_def)
  then show ?thesis using that [of w1 ?s3 s4] 1 4 by simp
qed

lemma n_tombs_clear:
  assumes "ref_at sl idx a"
  shows "n_tombs (clear_slot sl idx) = n_tombs sl + (if sl ! next_slot (length sl) idx = SEmpty then 0 else 1)"
proof -
  have i: "idx < length sl" and v: "sl ! idx \<noteq> STomb" using assms by (auto simp: ref_at_def)
  show ?thesis using n_tombs_update [OF i, of SEmpty] n_tombs_update [OF i, of STomb] v by (simp add: clear_slot_def)
qed

lemma del_ok:
  assumes sh: "sh e F M w s FL" and at: "ref_at (slots s) idx a" and r: "del e idx a w s = (w', s')"
  shows "shard_inv e F M w' s' \<and> kv w' s' = (kv w s)(key_at w a := None) \<and> framed F w s w' s'
    \<and> slots s' = clear_slot (slots s) idx \<and> (\<forall>b \<in> refs (slots s) - {a}. mem w' b = mem w b)"
proof -
  let ?R = "refs (slots s)"
  note D = shD [OF sh]
  have a: "a \<in> ?R" using at by (auto simp: refs_def)
  obtain w1 s3 s4 where w1: "w1 = fst (addUsed (- cost w s a) w s)"
    and s3: "s3 = releaseObj a w (s\<lparr>used := used s - cost w s a, nexp := nexp s - (if iexp (mem w a) \<noteq> 0 then 1 else 0)\<rparr>)"
    and fr: "freeItem e w1 s3 a = (w', s4)"
    and s': "s' = s4\<lparr>slots := clear_slot (slots s4) idx,
       tombs := tombs s4 + (if slots s4 ! next_slot (length (slots s4)) idx = SEmpty then 0 else 1), scount := scount s4 - 1\<rparr>"
    using del_shape [OF r] by metis
  let ?F = "\<lambda>x. F x + live_cov e (mem w) (?R - {a}) x" and ?M = "M + live_maps e (mem w) (?R - {a})"
  have "heap_ok w (\<lambda>x. ?F x + free_cov FL x + bump_cov (bumps s) x + region a (item_len e (mem w a)) x)
      (?M + item_maps e a (mem w a))"
    using D(10) unfolding live_cov_remove [OF finite_refs a] live_maps_remove [OF finite_refs a] by (simp add: ac_simps)
  then have "heap_ok w1 (\<lambda>x. ?F x + free_cov FL x + bump_cov (bumps s3) x + region a (item_len e (mem w1 a)) x)
      (?M + item_maps e a (mem w1 a))"
    by (rule heap_ok_cong [OF back_subst [of "\<lambda>x. x"]]) (simp_all add: w1 s3)
  moreover have "cells_ok (mem w1) (free s3) (bumps s3) FL" "item_ok e (mem w1 a)"
    using D(6) [OF a] D(9) by (simp_all add: w1 s3)
  ultimately obtain FL' where res: "free_res w1 s3 ?F ?M a w' s4 FL'"
    using freeItem_ok [where F = ?F and M = ?M, OF _ _ _ fr] by blast
  have same: "mem w' b = mem w b" if "b \<noteq> a" for b using res that by (auto simp: free_res_def w1)
  have six: "slots s4 = slots s" "scount s4 = scount s" "tombs s4 = tombs s" "used s4 = used s - cost w s a"
    "nexp s4 = nexp s - (if iexp (mem w a) \<noteq> 0 then 1 else 0)" "objs s4 = objs s3" "freeObjs s4 = freeObjs s3"
    using res by (simp_all add: free_res_def same_index_def s3)
  have sl: "slots s' = clear_slot (slots s) idx" by (simp add: s' six)
  have R': "refs (slots s') = ?R - {a}" unfolding sl by (rule tbl_clear(2) [OF D(1) at])
  have rel: "objs s' = objs (releaseObj a w s)" "freeObjs s' = freeObjs (releaseObj a w s)"
    by (simp_all add: s' six s3 releaseObj_def Let_def)
  have all: "mem w' b = mem w b" if "b \<in> refs (slots s')" for b using same R' that by simp
  have ob: "objs_ok w' s'" by (rule releaseObj_objs(1) [OF D(8) a D(7) [OF a] R' all rel refl])
  have ob2: "objs s' ! objIdx (mem w b) = objs s ! objIdx (mem w b) \<and> objIdx (mem w b) < length (objs s')"
    if "b \<in> refs (slots s')" "obj_ok w s b" "ityp (mem w b) \<noteq> typStr" for b
    by (rule releaseObj_objs(2) [OF D(8) a D(7) [OF a] R' all rel refl that])
  have un: "cost w' s' b = cost w s b" "entry w' s' b = entry w s b" "obj_ok w' s' b" if b: "b \<in> ?R - {a}" for b
  proof -
    have m: "mem w' b = mem w b" and o: "obj_ok w s b" and b': "b \<in> refs (slots s')" using b same D(7) R' by simp_all
    note u = untouched [OF m o ob2 [OF b' o]]
    show "cost w' s' b = cost w s b" by (rule u(1))
    show "entry w' s' b = entry w s b" by (rule u(2))
    show "obj_ok w' s' b" by (rule u(3))
  qed
  have keys: "key_at w' b = key_at w b" if "b \<noteq> a" for b using same [OF that] by (simp add: key_at_def)
  have tbl: "tbl_ok (hashKey e) (key_at w') (slots s')"
    by (rule refs_cong [OF _ tbl_clear(1) [OF D(1) at, folded sl]]) (auto simp: R' keys)
  have "index_ok e w' s'"
    using tbl card_Suc_Diff1 [OF finite_refs a] n_tombs_clear [OF at]
    unfolding index_ok_def R' by (simp add: s' six D(2,3))
  moreover have "acct_ok w' s'"
  proof -
    have "{b \<in> ?R - {a}. iexp (mem w' b) \<noteq> 0} = {b \<in> ?R - {a}. iexp (mem w b) \<noteq> 0}" using same by auto
    moreover have "(\<Sum>b \<in> ?R - {a}. cost w' s' b) = (\<Sum>b \<in> ?R. cost w s b) - cost w s a"
      using un(1) sum.remove [OF finite_refs a, of "cost w s"] by simp
    ultimately show ?thesis using card_nexp_remove [OF finite_refs a]
      by (simp only: acct_ok_def R') (simp add: s' six D(4,5))
  qed
  moreover have "items_ok e w' s'" using un(3) D(6) same by (auto simp: items_ok_def R')
  moreover have "objs_ok w' s'" by (rule ob)
  moreover have live: "live_cov e (mem w') (?R - {a}) = live_cov e (mem w) (?R - {a})"
    "live_maps e (mem w') (?R - {a}) = live_maps e (mem w) (?R - {a})"
    by (rule live_cong, simp add: same, rule live_maps_cong, simp add: same)
  ultimately have "sh e F M w' s' FL'"
    using res unfolding sh_def R' live by (simp add: free_res_def s')
  moreover have "kv w' s' = (kv w s)(key_at w a := None)"
  proof (rule map_eqI)
    fix k x
    show "kv w' s' k = Some x \<longleftrightarrow> ((kv w s)(key_at w a := None)) k = Some x"
      using un(2) keys key_inj [OF D(1) _ a] by (auto simp: kv_iff [OF tbl] kv_iff [OF D(1)] R')
  qed
  moreover have "framed F w s w' s'"
  proof -
    have "mem w' b = mem w b" if "0 < F b" for b using same [of b] sh_live(1) [OF sh a] that by (cases "b = a") auto
    then show ?thesis using res by (auto simp: framed_def free_res_def same_counters_def w1 s' six)
  qed
  ultimately show ?thesis using same sl by (auto simp: shard_inv_def)
qed

end
