(* ===== verification/Shard_Steps.thy ===== *)
theory Shard_Steps
  imports Shard_Inv
begin

text \<open>
  The remaining shard operations against the invariant of the previous theory: updates in place,
  storing and replacing an item, allocation, the rehash, lookup with lazy expiry, and the string and
  container setters built from them.
\<close>

section \<open>Updates in place\<close>

definition same_heap :: "world \<Rightarrow> world \<Rightarrow> bool" where
  "same_heap w w' \<longleftrightarrow> maps w' = maps w \<and> chunks w' = chunks w \<and> acur w' = acur w \<and> aend w' = aend w"

definition same_cells :: "shard \<Rightarrow> shard \<Rightarrow> bool" where
  "same_cells s s' \<longleftrightarrow> slots s' = slots s \<and> scount s' = scount s \<and> tombs s' = tombs s \<and> free s' = free s
     \<and> bumps s' = bumps s \<and> freeObjs s' = freeObjs s"

text \<open>The new record of an item that is changed in place: same cell, same key, same type.\<close>

definition same_cell :: "env \<Rightarrow> item \<Rightarrow> item \<Rightarrow> bool" where
  "same_cell e it it' \<longleftrightarrow> item_key it' = item_key it \<and> item_len e it' = item_len e it \<and> icls it' = icls it
     \<and> ityp it' = ityp it \<and> (ityp it \<noteq> typStr \<longrightarrow> objIdx it' = objIdx it) \<and> item_ok e it'"

definition b2i :: "bool \<Rightarrow> int" where "b2i b = (if b then 1 else 0)"

lemma card_filter_upd:
  "finite R \<Longrightarrow> a \<in> R \<Longrightarrow> (\<And>b. b \<in> R \<Longrightarrow> b \<noteq> a \<Longrightarrow> Q b = P b) \<Longrightarrow>
     int (card {b \<in> R. Q b}) = int (card {b \<in> R. P b}) + (b2i (Q a) - b2i (P a))"
proof -
  assume R: "finite R" "a \<in> R" and QP: "\<And>b. b \<in> R \<Longrightarrow> b \<noteq> a \<Longrightarrow> Q b = P b"
  then have "{b \<in> R - {a}. Q b} = {b \<in> R - {a}. P b}" by auto
  then show ?thesis using card_nexp_remove [OF R, of P] card_nexp_remove [OF R, of Q] by (simp add: b2i_def)
qed

lemma sum_change:
  fixes f g :: "'a \<Rightarrow> int"
  assumes "finite R" "a \<in> R" "\<And>b. b \<in> R \<Longrightarrow> b \<noteq> a \<Longrightarrow> g b = f b"
  shows "sum g R = sum f R + (g a - f a)"
proof -
  have "sum g (R - {a}) = sum f (R - {a})" using assms(3) by (intro sum.cong) auto
  then show ?thesis using sum.remove [OF assms(1,2), of f] sum.remove [OF assms(1,2), of g] by simp
qed

text \<open>One entry of the table is new or changed, all others are as before.\<close>

lemma kv_set:
  assumes tbl: "tbl_ok (hashKey e) (key_at w) (slots s)" and tbl': "tbl_ok (hashKey e) (key_at w') (slots s')"
    and p: "p \<in> refs (slots s')"
    and old: "\<And>b. b \<in> refs (slots s') \<Longrightarrow> b \<noteq> p \<Longrightarrow>
      b \<in> refs (slots s) \<and> key_at w' b = key_at w b \<and> entry w' s' b = entry w s b"
    and all: "\<And>b. b \<in> refs (slots s) \<Longrightarrow> b \<in> refs (slots s') \<and> b \<noteq> p \<or> key_at w b = key_at w' p"
  shows "kv w' s' = (kv w s)(key_at w' p \<mapsto> entry w' s' p)"
proof
  fix k
  show "kv w' s' k = ((kv w s)(key_at w' p \<mapsto> entry w' s' p)) k"
  proof (cases "k = key_at w' p")
    case True
    then show ?thesis using kv_iff [OF tbl'] p by auto
  next
    case False
    have "kv w' s' k = Some x \<longleftrightarrow> kv w s k = Some x" for x
      unfolding kv_iff [OF tbl] kv_iff [OF tbl']
    proof
      assume "\<exists>a \<in> refs (slots s'). key_at w' a = k \<and> x = entry w' s' a"
      then obtain b where b: "b \<in> refs (slots s')" "key_at w' b = k" "x = entry w' s' b" by blast
      then have "b \<noteq> p" using False by auto
      from old [OF b(1) this] b show "\<exists>a \<in> refs (slots s). key_at w a = k \<and> x = entry w s a" by auto
    next
      assume "\<exists>a \<in> refs (slots s). key_at w a = k \<and> x = entry w s a"
      then obtain b where b: "b \<in> refs (slots s)" "key_at w b = k" "x = entry w s b" by blast
      then have "b \<in> refs (slots s')" "b \<noteq> p" using all [OF b(1)] False by auto
      from old [OF this] b this show "\<exists>a \<in> refs (slots s'). key_at w' a = k \<and> x = entry w' s' a" by auto
    qed
    then show ?thesis using False by (metis fun_upd_other not_Some_eq)
  qed
qed

lemma touch_ok:
  assumes sh: "sh e F M w s FL" and a: "a \<in> refs (slots s)"
    and mem: "mem w' = (mem w)(a := it')" and cell: "same_cell e (mem w a) it'"
    and heap: "same_heap w w'" and cells: "same_cells s s'"
    and objs: "objs s' = objs s \<or> ityp (mem w a) \<noteq> typStr \<and> objs s' = (objs s)[objIdx (mem w a) := Some ob]"
    and ok: "obj_ok w' s' a"
    and used: "used s' = used s + (cost w' s' a - cost w s a)"
    and nexp: "nexp s' = nexp s + (b2i (iexp it' \<noteq> 0) - b2i (iexp (mem w a) \<noteq> 0))"
  shows "sh e F M w' s' FL \<and> kv w' s' = (kv w s)(key_at w a \<mapsto> entry w' s' a)
    \<and> (\<forall>b. b \<noteq> a \<longrightarrow> mem w' b = mem w b) \<and> (\<forall>b. 0 < F b \<longrightarrow> mem w' b = mem w b)"
proof -
  let ?R = "refs (slots s)"
  note D = shD [OF sh]
  have sl: "slots s' = slots s" using cells by (simp add: same_cells_def)
  have inj: "objIdx (mem w b) \<noteq> objIdx (mem w a)" if "b \<in> ?R" "b \<noteq> a" "ityp (mem w b) \<noteq> typStr" "ityp (mem w a) \<noteq> typStr" for b
    using D(8) a that by (auto simp: objs_ok_def inj_on_def)
  have ob: "objs s' ! objIdx (mem w b) = objs s ! objIdx (mem w b) \<and> objIdx (mem w b) < length (objs s')"
    if "b \<in> ?R" "b \<noteq> a" "ityp (mem w b) \<noteq> typStr" for b
    using objs inj [OF that] D(7) [OF that(1)] that(3) by (auto simp: obj_ok_def nth_list_update)
  have un: "cost w' s' b = cost w s b" "entry w' s' b = entry w s b" "obj_ok w' s' b" if b: "b \<in> ?R" "b \<noteq> a" for b
  proof -
    have "mem w' b = mem w b" using mem b by simp
    note u = untouched [OF this D(7) [OF b(1)] ob [OF b]]
    show "cost w' s' b = cost w s b" by (rule u(1))
    show "entry w' s' b = entry w s b" by (rule u(2))
    show "obj_ok w' s' b" by (rule u(3))
  qed
  have keys: "key_at w' b = key_at w b" for b using cell mem by (auto simp: key_at_def same_cell_def)
  then have kf: "key_at w' = key_at w" by auto
  have tbl: "tbl_ok (hashKey e) (key_at w') (slots s')" using D(1) by (simp add: kf sl)
  have "index_ok e w' s'" using tbl D(2,3) cells by (simp add: index_ok_def same_cells_def)
  moreover have "acct_ok w' s'"
  proof -
    have "int (card {b \<in> ?R. iexp (mem w' b) \<noteq> 0}) = nexp s'"
      using card_filter_upd [OF finite_refs a, of "\<lambda>b. iexp (mem w' b) \<noteq> 0" "\<lambda>b. iexp (mem w b) \<noteq> 0"] nexp D(4)
      by (simp add: mem)
    moreover have "sum (cost w' s') ?R = used s'"
      using sum_change [OF finite_refs a un(1)] used D(5) by simp
    ultimately show ?thesis by (simp add: acct_ok_def sl)
  qed
  moreover have "items_ok e w' s'"
    unfolding items_ok_def sl
  proof
    fix b assume "b \<in> ?R"
    then show "item_ok e (mem w' b) \<and> obj_ok w' s' b"
      using un(3) [of b] ok D(6) [of b] cell by (cases "b = a") (simp_all add: mem same_cell_def)
  qed
  moreover have "objs_ok w' s'"
  proof -
    have ty: "ityp (mem w' b) = ityp (mem w b)" for b using cell by (simp add: mem same_cell_def)
    have "objIdx (mem w' b) = objIdx (mem w b)" if "ityp (mem w b) \<noteq> typStr" for b
      using cell that by (auto simp: mem same_cell_def)
    then have "inj_on (\<lambda>b. objIdx (mem w' b)) {b \<in> ?R. ityp (mem w' b) \<noteq> typStr}
        = inj_on (\<lambda>b. objIdx (mem w b)) {b \<in> ?R. ityp (mem w b) \<noteq> typStr}"
      unfolding ty by (intro inj_on_cong) simp
    then have "inj_on (\<lambda>b. objIdx (mem w' b)) {b \<in> ?R. ityp (mem w' b) \<noteq> typStr}" using D(8) by (simp add: objs_ok_def)
    moreover have "\<forall>i \<in> set (freeObjs s). i < length (objs s') \<and> objs s' ! i = None"
      using objs D(7) [OF a] D(8) by (auto simp: objs_ok_def obj_ok_def nth_list_update)
    moreover have "length (objs s') = length (objs s)" using objs by auto
    ultimately show ?thesis using D(8) cells by (simp add: objs_ok_def same_cells_def)
  qed
  moreover have "cells_ok (mem w') (free s') (bumps s') FL"
  proof -
    have "mem w' b = mem w b" if "0 < free_cov FL b" for b
      using sh_live(2) [OF sh a] that mem by (cases "b = a") simp_all
    from cells_ok_cong [OF D(9) this] show ?thesis using cells by (simp add: same_cells_def)
  qed
  moreover have "heap_ok w' (\<lambda>x. F x + live_cov e (mem w') ?R x + free_cov FL x + bump_cov (bumps s') x)
      (M + live_maps e (mem w') ?R)"
  proof -
    have "item_len e (mem w' b) = item_len e (mem w b) \<and> icls (mem w' b) = icls (mem w b)" for b
      using cell by (simp add: mem same_cell_def)
    then have "live_cov e (mem w') ?R = live_cov e (mem w) ?R" "live_maps e (mem w') ?R = live_maps e (mem w) ?R"
      using live_cong [of ?R] live_maps_cong [of ?R] by blast+
    then show ?thesis using heap_ok_cong [OF D(10), of w'] heap cells by (simp add: same_heap_def same_cells_def)
  qed
  ultimately have "sh e F M w' s' FL" by (simp add: sh_def sl)
  moreover have "kv w' s' = (kv w s)(key_at w a \<mapsto> entry w' s' a)"
    unfolding keys [of a, symmetric]
    by (rule kv_set [OF D(1) tbl]) (use a un(2) keys sl key_inj [OF D(1) _ a] in auto)
  ultimately show ?thesis using sh_live(1) [OF sh a] by (auto simp: mem)
qed

section \<open>Storing a new item\<close>

text \<open>An item that is allocated and not yet in the table belongs to the frame.\<close>

definition with_item :: "env \<Rightarrow> world \<Rightarrow> nat \<Rightarrow> (nat \<Rightarrow> nat) \<Rightarrow> nat \<Rightarrow> nat" where
  "with_item e w p F x = F x + region p (item_len e (mem w p)) x"

definition fresh_obj :: "world \<Rightarrow> shard \<Rightarrow> nat \<Rightarrow> bool" where
  "fresh_obj w s p \<longleftrightarrow> obj_ok w s p \<and> (ityp (mem w p) \<noteq> typStr \<longrightarrow>
     (\<forall>b \<in> refs (slots s). ityp (mem w b) \<noteq> typStr \<longrightarrow> objIdx (mem w b) \<noteq> objIdx (mem w p)))"

lemma with_item_not_live:
  assumes "sh e (with_item e w p F) M w s FL" "item_ok e (mem w p)"
  shows "p \<notin> refs (slots s)" "F p = 0" "p \<noteq> 0"
proof -
  have p: "with_item e w p F p \<ge> 1" using hdr_pos [OF assms(2)] by (simp add: with_item_def)
  then show "p \<notin> refs (slots s)" using sh_live(1) [OF assms(1), of p] by auto
  have "with_item e w p F p \<le> 1" using heap_okD(3) [OF shD(10) [OF assms(1)], of p] by simp
  then show "F p = 0" using hdr_pos [OF assms(2)] by (simp add: with_item_def)
  show "p \<noteq> 0" using heap_okD(4) [OF shD(10) [OF assms(1)]] p by (metis add_is_0 not_one_le_zero)
qed

lemma insert_shape:
  assumes "insert_item ins h p w s = (w', s')"
  shows "mem w' = mem w" "same_heap w w'" "slots s' = (slots s)[ins := SRef (tag_of h) p]" "scount s' = scount s + 1"
    "tombs s' = tombs s - b2i (slots s ! ins = STomb)" "nexp s' = nexp s + b2i (iexp (mem w p) \<noteq> 0)"
    "used s' = used s + cost w s p" "objs s' = objs s" "freeObjs s' = freeObjs s" "free s' = free s" "bumps s' = bumps s"
    "maxMemory w' = maxMemory w" "draws w' = draws w" "globalUsed w' = globalUsed w + (if maxMemory w > 0 then cost w s p else 0)"
proof -
  let ?s = "s\<lparr>tombs := tombs s - b2i (slots s ! ins = STomb), slots := (slots s)[ins := SRef (tag_of h) p],
     scount := scount s + 1, nexp := nexp s + b2i (iexp (mem w p) \<noteq> 0)\<rparr>"
  have c: "cost w ?s p = cost w s p" by (simp add: cost_def list_at_item_def hash_at_item_def Let_def)
  have "insert_item ins h p w s = addUsed (cost w ?s p) w ?s"
    by (simp add: insert_item_def Let_def b2i_def)
  then have eq: "addUsed (cost w s p) w ?s = (w', s')" using assms c by metis
  have r: "w' = fst (addUsed (cost w s p) w ?s)" "s' = snd (addUsed (cost w s p) w ?s)" by (simp_all only: eq fst_conv snd_conv)
  show "mem w' = mem w" "same_heap w w'" "slots s' = (slots s)[ins := SRef (tag_of h) p]" "scount s' = scount s + 1"
    "tombs s' = tombs s - b2i (slots s ! ins = STomb)" "nexp s' = nexp s + b2i (iexp (mem w p) \<noteq> 0)"
    "used s' = used s + cost w s p" "objs s' = objs s" "freeObjs s' = freeObjs s" "free s' = free s" "bumps s' = bumps s"
    "maxMemory w' = maxMemory w" "draws w' = draws w" "globalUsed w' = globalUsed w + (if maxMemory w > 0 then cost w s p else 0)"
    by (simp_all add: r same_heap_def)
qed

lemma insert_ok:
  assumes sh: "sh e (with_item e w p F) (M + item_maps e p (mem w p)) w s FL"
    and p: "item_ok e (mem w p)" "fresh_obj w s p"
    and h: "h = hashKey e (key_at w p)" and ins: "ins_ok (slots s) (home (length (slots s)) h) ins"
    and new: "kv w s (key_at w p) = None" and room: "scount s + tombs s + 1 < int (length (slots s))"
    and r: "insert_item ins h p w s = (w', s')"
  shows "sh e F M w' s' FL \<and> kv w' s' = (kv w s)(key_at w p \<mapsto> entry w s p) \<and> mem w' = mem w
    \<and> framed F w s w' s' \<and> ref_at (slots s') ins p \<and> refs (slots s') = insert p (refs (slots s)) \<and> objs s' = objs s"
proof -
  let ?R = "refs (slots s)"
  note D = shD [OF sh] and S = insert_shape [OF r]
  have pR: "p \<notin> ?R" by (rule with_item_not_live(1) [OF sh p(1)])
  have i: "ins < length (slots s)" "slots s ! ins = SEmpty \<or> slots s ! ins = STomb" using ins by (auto simp: ins_ok_def)
  have kf: "key_at w' = key_at w" using S(1) by (auto simp: key_at_def)
  have fresh: "key_at w b \<noteq> key_at w p" if "ref_at (slots s) j b" for j b
    using new kv_None [OF D(1)] that by (auto simp: refs_def)
  have room': "0 < n_empty ((slots s)[ins := SRef (tag_of (hashKey e (key_at w p))) p])"
  proof -
    have "2 \<le> n_empty (slots s)" using card_refs [OF D(1)] room D(2,3) by linarith
    then show ?thesis using n_empty_update [OF i(1), of "SRef (tag_of (hashKey e (key_at w p))) p"] by (auto split: if_splits)
  qed
  have T: "tbl_ok (hashKey e) (key_at w) (slots s')" "refs (slots s') = insert p ?R"
    using tbl_insert [OF D(1) ins [unfolded h] fresh room'] by (simp_all add: S(3) h)
  have tbl: "tbl_ok (hashKey e) (key_at w') (slots s')" using T(1) by (simp add: kf)
  have cst: "cost w' s' b = cost w s b" "entry w' s' b = entry w s b" "obj_ok w' s' b \<longleftrightarrow> obj_ok w s b" for b
    by (simp_all add: cost_def entry_def val_of_def list_at_item_def hash_at_item_def obj_ok_def S Let_def)
  have "index_ok e w' s'"
    using tbl D(2,3) pR n_tombs_update [OF i(1), of "SRef (tag_of h) p"] i(2)
    by (auto simp: index_ok_def S(4,5) T(2) S(3) [symmetric] b2i_def split: if_splits)
  moreover have "acct_ok w' s'"
  proof -
    have "{b \<in> insert p ?R. iexp (mem w' b) \<noteq> 0} = (if iexp (mem w p) \<noteq> 0 then insert p {b \<in> ?R. iexp (mem w b) \<noteq> 0}
      else {b \<in> ?R. iexp (mem w b) \<noteq> 0})" using S(1) by auto
    then have "int (card {b \<in> insert p ?R. iexp (mem w' b) \<noteq> 0}) = nexp s + b2i (iexp (mem w p) \<noteq> 0)"
      using pR D(4) by (simp add: b2i_def)
    then show ?thesis using pR unfolding acct_ok_def T(2) by (simp add: S(6,7) cst D(5))
  qed
  moreover have "items_ok e w' s'" using D(6,7) p by (auto simp: items_ok_def T(2) cst S(1) fresh_obj_def)
  moreover have "objs_ok w' s'"
    using D(8) p(2) by (auto simp: objs_ok_def S(1,8,9) T(2) inj_on_def fresh_obj_def)
  moreover have "heap_ok w' (\<lambda>x. F x + live_cov e (mem w') (refs (slots s')) x + free_cov FL x + bump_cov (bumps s') x)
      (M + live_maps e (mem w') (refs (slots s')))"
    using heap_ok_cong [OF D(10), of w'] S(2) pR unfolding T(2) S(1,11)
    by (simp add: same_heap_def with_item_def ac_simps)
  ultimately have "sh e F M w' s' FL" using D(9) by (simp add: sh_def S(1,10,11))
  moreover have "kv w' s' = (kv w s)(key_at w' p \<mapsto> entry w' s' p)"
    using pR by (intro kv_set [OF D(1) tbl]) (auto simp: T(2) kf cst)
  moreover have "ref_at (slots s') ins p" using i(1) by (auto simp: S(3) ref_at_def)
  ultimately show ?thesis using S(1,7,8,12-14) T(2) by (simp add: kf cst framed_def)
qed

section \<open>Replacing an item\<close>

lemma tbl_replace:
  assumes tbl: "tbl_ok hk kf sl" and idx: "sl ! idx = SRef t a" "idx < length sl" and b: "kf b = kf a"
  shows "tbl_ok hk kf (sl[idx := SRef t b])" "refs (sl[idx := SRef t b]) = insert b (refs sl - {a})"
    "n_tombs (sl[idx := SRef t b]) = n_tombs sl"
proof -
  let ?sl = "sl[idx := SRef t b]"
  have at: "ref_at sl idx a" using idx by (auto simp: ref_at_def)
  note up = ref_at_update [OF idx(2), of "SRef t b"]
  have tag: "t' = tag_of (hk (kf c)) \<and> reachable_at sl (home (length sl) (hk (kf c))) i" if "i < length sl" "sl ! i = SRef t' c" for i t' c
    using tbl that by (auto simp: tbl_ok_def)
  show "tbl_ok hk kf ?sl"
  proof (rule tbl_okI)
    show "pow2 (length ?sl)" using tbl by (simp add: tbl_ok_def)
    show "0 < n_empty ?sl" using tbl idx n_empty_update [OF idx(2), of "SRef t b"] by (auto simp: tbl_ok_def)
    show "t' = tag_of (hk (kf c)) \<and> reachable_at ?sl (home (length ?sl) (hk (kf c))) i"
      if i: "i < length ?sl" "?sl ! i = SRef t' c" for i t' c
    proof (cases "i = idx")
      case True
      then have "t' = t" "c = b" using i by auto
      then show ?thesis using tag [OF idx(2,1)] reachable_at_update [of sl _ idx] True b by simp
    next
      case False
      then show ?thesis using tag [of i t' c] i reachable_at_update [of sl _ i] by simp
    qed
    show "i = j" if ij: "ref_at ?sl i c" "ref_at ?sl j d" "kf c = kf d" for i j c d
    proof -
      have old: "\<exists>c'. ref_at sl i c' \<and> kf c' = kf c" if "ref_at ?sl i c" for i c
        using that at b by (cases "i = idx") (auto simp: up)
      show ?thesis using old [OF ij(1)] old [OF ij(2)] tbl_ok_inj [OF tbl] ij(3) by metis
    qed
  qed
  show "refs ?sl = insert b (refs sl - {a})"
  proof (intro set_eqI iffI)
    fix c assume "c \<in> refs ?sl"
    then obtain i where "ref_at ?sl i c" by (auto simp: refs_def)
    then show "c \<in> insert b (refs sl - {a})"
      using ref_at_unique [OF tbl, of i a idx] at by (cases "i = idx") (auto simp: up refs_def)
  next
    fix c assume "c \<in> insert b (refs sl - {a})"
    then consider "c = b" | i where "ref_at sl i c" "c \<noteq> a" by (auto simp: refs_def)
    then show "c \<in> refs ?sl"
    proof cases
      case 1
      then have "ref_at ?sl idx c" by (simp add: up)
      then show ?thesis by (auto simp: refs_def)
    next
      case (2 i)
      then have "i \<noteq> idx" using at ref_at_fun by blast
      then have "ref_at ?sl i c" using 2 by (simp add: up)
      then show ?thesis by (auto simp: refs_def)
    qed
  qed
  show "n_tombs ?sl = n_tombs sl" using n_tombs_update [OF idx(2), of "SRef t b"] idx(1) by simp
qed

lemma replace_shape:
  assumes "replace_item e idx a p w s = (w', s')"
  obtains w1 s3 s4 where
    "w1 = fst (addUsed (cost w s p - cost w s a) w s)"
    "s3 = releaseObj a w (s\<lparr>used := used s + (cost w s p - cost w s a),
       nexp := nexp s - b2i (iexp (mem w a) \<noteq> 0) + b2i (iexp (mem w p) \<noteq> 0)\<rparr>)"
    "freeItem e w1 s3 a = (w', s4)"
    "s' = s4\<lparr>slots := (slots s4)[idx := slot_set_addr (slots s4 ! idx) p]\<rparr>"
proof -
  let ?d = "cost w s p - cost w s a"
  obtain w1 s1 where 1: "addUsed ?d w s = (w1, s1)" by fastforce
  then have m: "mem w1 = mem w" "s1 = s\<lparr>used := used s + ?d\<rparr>" using addUsed_simps(1,9) [of ?d w s] by simp_all
  let ?s3 = "releaseObj a w (s\<lparr>used := used s + ?d, nexp := nexp s - b2i (iexp (mem w a) \<noteq> 0) + b2i (iexp (mem w p) \<noteq> 0)\<rparr>)"
  let ?s2 = "if iexp (mem w1 a) \<noteq> 0 then s1\<lparr>nexp := nexp s1 - 1\<rparr> else s1"
  have s3: "releaseObj a w1 (if iexp (mem w1 p) \<noteq> 0 then ?s2\<lparr>nexp := nexp ?s2 + 1\<rparr> else ?s2) = ?s3"
    by (simp add: m releaseObj_def b2i_def)
  obtain w4 s4 where 4: "freeItem e w1 ?s3 a = (w4, s4)" by fastforce
  have "w' = w4" "s' = s4\<lparr>slots := (slots s4)[idx := slot_set_addr (slots s4 ! idx) p]\<rparr>"
    using assms unfolding replace_item_def 1 Let_def case_prod_conv s3 4 by auto
  then show ?thesis using that [of w1 ?s3 s4] 1 4 by simp
qed

lemma replace_ok:
  assumes sh: "sh e (with_item e w p F) (M + item_maps e p (mem w p)) w s FL"
    and p: "item_ok e (mem w p)" "ityp (mem w p) = typStr" "key_at w p = key_at w a"
    and at: "ref_at (slots s) idx a" and r: "replace_item e idx a p w s = (w', s')"
  shows "shard_inv e F M w' s' \<and> kv w' s' = (kv w s)(key_at w a \<mapsto> entry w s p) \<and> framed F w s w' s'
    \<and> refs (slots s') = insert p (refs (slots s) - {a}) \<and> mem w' p = mem w p"
proof -
  let ?R = "refs (slots s)"
  note D = shD [OF sh]
  have a: "a \<in> ?R" using at by (auto simp: refs_def)
  have pR: "p \<notin> ?R" "F p = 0" using with_item_not_live [OF sh p(1)] by auto
  then have pa: "p \<noteq> a" using a by auto
  obtain t where t: "slots s ! idx = SRef t a" "idx < length (slots s)" using at by (auto simp: ref_at_def)
  obtain w1 s3 s4 where w1: "w1 = fst (addUsed (cost w s p - cost w s a) w s)"
    and s3: "s3 = releaseObj a w (s\<lparr>used := used s + (cost w s p - cost w s a),
       nexp := nexp s - b2i (iexp (mem w a) \<noteq> 0) + b2i (iexp (mem w p) \<noteq> 0)\<rparr>)"
    and fr: "freeItem e w1 s3 a = (w', s4)"
    and s': "s' = s4\<lparr>slots := (slots s4)[idx := slot_set_addr (slots s4 ! idx) p]\<rparr>"
    using replace_shape [OF r] by metis
  let ?F = "\<lambda>x. F x + live_cov e (mem w) (insert p (?R - {a})) x" and ?M = "M + live_maps e (mem w) (insert p (?R - {a}))"
  have "heap_ok w (\<lambda>x. ?F x + free_cov FL x + bump_cov (bumps s) x + region a (item_len e (mem w a)) x)
      (?M + item_maps e a (mem w a))"
    using D(10) pR unfolding live_cov_remove [OF finite_refs a] live_maps_remove [OF finite_refs a]
    by (simp add: with_item_def ac_simps)
  then have "heap_ok w1 (\<lambda>x. ?F x + free_cov FL x + bump_cov (bumps s3) x + region a (item_len e (mem w1 a)) x)
      (?M + item_maps e a (mem w1 a))"
    by (rule heap_ok_cong [OF back_subst [of "\<lambda>x. x"]]) (simp_all add: w1 s3)
  moreover have "cells_ok (mem w1) (free s3) (bumps s3) FL" "item_ok e (mem w1 a)"
    using D(6) [OF a] D(9) by (simp_all add: w1 s3)
  ultimately obtain FL' where res: "free_res w1 s3 ?F ?M a w' s4 FL'"
    using freeItem_ok [where F = ?F and M = ?M, OF _ _ _ fr] by blast
  have same: "mem w' b = mem w b" if "b \<noteq> a" for b using res that by (auto simp: free_res_def w1)
  have six: "slots s4 = slots s" "scount s4 = scount s" "tombs s4 = tombs s"
    "used s4 = used s + (cost w s p - cost w s a)"
    "nexp s4 = nexp s - b2i (iexp (mem w a) \<noteq> 0) + b2i (iexp (mem w p) \<noteq> 0)" "objs s4 = objs s3" "freeObjs s4 = freeObjs s3"
    using res by (simp_all add: free_res_def same_index_def s3)
  have sl: "slots s' = (slots s)[idx := SRef t p]" by (simp add: s' six t slot_set_addr_def)
  note T = tbl_replace [OF D(1) t p(3), folded sl]
  let ?s = "s'\<lparr>slots := clear_slot (slots s) idx\<rparr>"
  have Rs: "refs (slots ?s) = ?R - {a}" using tbl_clear(2) [OF D(1) at] by simp
  have rel: "objs ?s = objs (releaseObj a w s)" "freeObjs ?s = freeObjs (releaseObj a w s)"
    by (simp_all add: s' six s3 releaseObj_def Let_def)
  have all: "mem w' b = mem w b" if "b \<in> refs (slots ?s)" for b using same Rs that by simp
  have ob: "objs_ok w' ?s" by (rule releaseObj_objs(1) [OF D(8) a D(7) [OF a] Rs all rel refl])
  have ob2: "objs s' ! objIdx (mem w b) = objs s ! objIdx (mem w b) \<and> objIdx (mem w b) < length (objs s')"
    if "b \<in> refs (slots ?s)" "obj_ok w s b" "ityp (mem w b) \<noteq> typStr" for b
    using releaseObj_objs(2) [OF D(8) a D(7) [OF a] Rs all rel refl that] by simp
  have un: "cost w' s' b = cost w s b" "entry w' s' b = entry w s b" "obj_ok w' s' b" if b: "b \<in> ?R - {a}" for b
  proof -
    have m: "mem w' b = mem w b" and o: "obj_ok w s b" and b': "b \<in> refs (slots ?s)" using b same D(7) Rs by simp_all
    note u = untouched [OF m o ob2 [OF b' o]]
    show "cost w' s' b = cost w s b" by (rule u(1))
    show "entry w' s' b = entry w s b" by (rule u(2))
    show "obj_ok w' s' b" by (rule u(3))
  qed
  have mp: "mem w' p = mem w p" by (rule same [OF pa])
  have unp: "cost w' s' p = cost w s p" "entry w' s' p = entry w s p" "obj_ok w' s' p"
    using p(2) mp by (simp_all add: cost_def entry_def val_of_def obj_ok_def Let_def)
  have keys: "key_at w' b = key_at w b" if "b \<noteq> a" for b using same [OF that] by (simp add: key_at_def)
  have tbl: "tbl_ok (hashKey e) (key_at w') (slots s')"
    by (rule refs_cong [OF _ T(1)]) (use pa in \<open>auto simp: T(2) keys\<close>)
  have card: "card (insert p (?R - {a})) = card ?R" using pR(1) card_Suc_Diff1 [OF finite_refs a] by simp
  then have "index_ok e w' s'" using tbl T(3) unfolding index_ok_def T(2) by (simp add: s' six D(2,3))
  moreover have "acct_ok w' s'"
  proof -
    have "{b \<in> insert p (?R - {a}). iexp (mem w' b) \<noteq> 0}
        = (if iexp (mem w p) \<noteq> 0 then insert p {b \<in> ?R - {a}. iexp (mem w b) \<noteq> 0} else {b \<in> ?R - {a}. iexp (mem w b) \<noteq> 0})"
      using same pa by auto
    then have "int (card {b \<in> insert p (?R - {a}). iexp (mem w' b) \<noteq> 0})
        = int (card {b \<in> ?R - {a}. iexp (mem w b) \<noteq> 0}) + b2i (iexp (mem w p) \<noteq> 0)"
      using pR(1) by (simp add: b2i_def)
    moreover have "sum (cost w' s') (insert p (?R - {a})) = cost w s p + (sum (cost w s) ?R - cost w s a)"
      using un(1) unp(1) pR(1) sum.remove [OF finite_refs a, of "cost w s"] by simp
    ultimately show ?thesis using card_nexp_remove [OF finite_refs a, of "\<lambda>b. iexp (mem w b) \<noteq> 0"]
      unfolding acct_ok_def T(2) by (simp add: s' six D(4,5) b2i_def)
  qed
  moreover have "items_ok e w' s'" unfolding items_ok_def T(2) using un(3) unp(3) D(6) p(1) same mp by simp
  moreover have "objs_ok w' s'"
  proof -
    have "{b \<in> insert p (?R - {a}). ityp (mem w' b) \<noteq> typStr} = {b \<in> ?R - {a}. ityp (mem w' b) \<noteq> typStr}"
      using p(2) mp by auto
    then show ?thesis using ob tbl_clear(2) [OF D(1) at] unfolding objs_ok_def T(2) by simp
  qed
  moreover have "item_len e (mem w' b) = item_len e (mem w b) \<and> icls (mem w' b) = icls (mem w b)" if "b \<in> insert p (?R - {a})" for b
    using that pa same by auto
  then have "live_cov e (mem w') (insert p (?R - {a})) = live_cov e (mem w) (insert p (?R - {a}))"
    "live_maps e (mem w') (insert p (?R - {a})) = live_maps e (mem w) (insert p (?R - {a}))"
    using live_cong [of "insert p (?R - {a})" e "mem w'" "mem w"] live_maps_cong [of "insert p (?R - {a})" e "mem w'" "mem w"] by simp_all
  ultimately have "sh e F M w' s' FL'"
    using res unfolding sh_def T(2) by (simp add: free_res_def s')
  moreover have "kv w' s' = (kv w s)(key_at w' p \<mapsto> entry w' s' p)"
  proof (rule kv_set [OF D(1) tbl])
    show "p \<in> refs (slots s')" by (simp add: T(2))
    show "b \<in> ?R \<and> key_at w' b = key_at w b \<and> entry w' s' b = entry w s b" if "b \<in> refs (slots s')" "b \<noteq> p" for b
      using that un(2) [of b] keys [of b] by (simp add: T(2))
    show "b \<in> refs (slots s') \<and> b \<noteq> p \<or> key_at w b = key_at w' p" if "b \<in> ?R" for b
      using that keys [OF pa] p(3) pR(1) by (cases "b = a") (auto simp: T(2))
  qed
  moreover have "framed F w s w' s'"
  proof -
    have "F a = 0" using sh_live(1) [OF sh a] by (simp add: with_item_def)
    then have "mem w' b = mem w b" if "0 < F b" for b using same [of b] that by (cases "b = a") auto
    then show ?thesis using res by (auto simp: framed_def free_res_def same_counters_def w1 s' six)
  qed
  ultimately show ?thesis using T(2) mp keys [OF pa] p(3) unp(2) by (auto simp: shard_inv_def)
qed

end
