(* ===== verification/Shard_Cmds.thy ===== *)
theory Shard_Cmds
  imports Shard_Steps
begin

text \<open>
  The composite shard operations (\<open>newItem\<close>, \<open>get\<close>, \<open>grow\<close>, \<open>setStr\<close>, \<open>newContainer\<close>, \<open>setExp\<close>, the
  expiry sweep) as steps on the keyspace.
\<close>

section \<open>Changes elsewhere\<close>

text \<open>The invariant and the keyspace only depend on the shard's own memory.\<close>

lemma sh_transfer:
  assumes sh: "sh e F M w s FL" and same: "\<And>b. b \<in> refs (slots s) \<Longrightarrow> mem w' b = mem w b" and ix: "same_index s s'"
    and cells: "cells_ok (mem w') (free s') (bumps s') FL'"
    and heap: "heap_ok w' (\<lambda>x. F' x + live_cov e (mem w) (refs (slots s)) x + free_cov FL' x + bump_cov (bumps s') x)
      (M' + live_maps e (mem w) (refs (slots s)))"
  shows "sh e F' M' w' s' FL' \<and> kv w' s' = kv w s"
proof -
  let ?R = "refs (slots s)"
  note D = shD [OF sh]
  have I: "slots s' = slots s" "scount s' = scount s" "tombs s' = tombs s" "used s' = used s" "nexp s' = nexp s"
    "objs s' = objs s" "freeObjs s' = freeObjs s" using ix by (simp_all add: same_index_def)
  have un: "cost w' s' b = cost w s b" "entry w' s' b = entry w s b" "obj_ok w' s' b" if b: "b \<in> ?R" for b
    using untouched [OF same [OF b] D(7) [OF b], of s'] D(7) [OF b] by (auto simp: I obj_ok_def)
  have keys: "key_at w' b = key_at w b" if "b \<in> ?R" for b using same [OF that] by (simp add: key_at_def)
  have tbl: "tbl_ok (hashKey e) (key_at w') (slots s)" using refs_cong [OF _ D(1), of "key_at w'"] keys by simp
  then have "index_ok e w' s'" using D(2,3) by (simp add: index_ok_def I)
  moreover have "acct_ok w' s'"
  proof -
    have "{b \<in> ?R. iexp (mem w' b) \<noteq> 0} = {b \<in> ?R. iexp (mem w b) \<noteq> 0}" using same by auto
    then show ?thesis using un(1) D(4,5) by (simp add: acct_ok_def I)
  qed
  moreover have "items_ok e w' s'" using un(3) D(6) same by (simp add: items_ok_def I)
  moreover have "objs_ok w' s'"
  proof -
    have "{b \<in> ?R. ityp (mem w' b) \<noteq> typStr} = {b \<in> ?R. ityp (mem w b) \<noteq> typStr}" using same by auto
    moreover have "inj_on (\<lambda>b. objIdx (mem w' b)) {b \<in> ?R. ityp (mem w b) \<noteq> typStr}
        = inj_on (\<lambda>b. objIdx (mem w b)) {b \<in> ?R. ityp (mem w b) \<noteq> typStr}"
      using same by (intro inj_on_cong) auto
    ultimately show ?thesis using D(8) by (simp add: objs_ok_def I)
  qed
  moreover have "live_cov e (mem w') ?R = live_cov e (mem w) ?R" "live_maps e (mem w') ?R = live_maps e (mem w) ?R"
    using same live_cong [of ?R e "mem w'" "mem w"] live_maps_cong [of ?R e "mem w'" "mem w"] by simp_all
  ultimately have "sh e F' M' w' s' FL'" using cells heap by (simp add: sh_def I)
  moreover have "kv w' s' = kv w s"
  proof (rule map_eqI)
    fix k x
    show "kv w' s' k = Some x \<longleftrightarrow> kv w s k = Some x"
      using un(2) keys tbl by (simp add: kv_iff [OF D(1)] kv_iff [of e w' s'] I)
  qed
  ultimately show ?thesis ..
qed

section \<open>New items\<close>

lemma newItem_shape:
  assumes "newItem e key vlen typ now w s = (p, w', s')"
  obtains cls w1 where "allocRaw e w s (hdrSize + length key + vlen) = (p, cls, w1, s')"
    "same_heap w1 w'" "same_counters w1 w'" "\<And>b. b \<noteq> p \<Longrightarrow> mem w' b = mem w1 b"
    "mem w' p = \<lparr>iexp = 0, ilru = lruClock e now, iklen = length key mod 2 ^ 32, ivlen = vlen mod 2 ^ 32, ityp = typ, icls = cls,
       ibytes = write_at (ibytes (mem w1 p)) 0 (take (length key mod 2 ^ 32) key)\<rparr>"
proof -
  obtain q cls w1 s1 where a: "allocRaw e w s (hdrSize + length key + vlen) = (q, cls, w1, s1)" by (metis prod_cases4)
  have r: "q = p" "s1 = s'" "w' = upd_item p (copy_key key) (upd_item p (setHdr (length key) vlen typ cls)
      (upd_item p (setLRU (lruClock e now)) (upd_item p (setExpRaw 0) w1)))"
    using assms by (auto simp: newItem_def a Let_def)
  show ?thesis
    by (rule that [of cls w1])
      (simp_all add: a r same_heap_def same_counters_def upd_item_def copy_key_def setHdr_def setLRU_def setExpRaw_def)
qed

definition fresh_item :: "env \<Rightarrow> (nat \<Rightarrow> nat) \<Rightarrow> (nat \<times> nat) multiset \<Rightarrow> world \<Rightarrow> shard \<Rightarrow> nat \<Rightarrow> world \<Rightarrow> shard \<Rightarrow> bool" where
  "fresh_item e F M w s p w' s' \<longleftrightarrow>
     (\<exists>FL. sh e (with_item e w' p F) (M + item_maps e p (mem w' p)) w' s' FL)
     \<and> item_ok e (mem w' p) \<and> F p = 0 \<and> p \<notin> refs (slots s) \<and> (\<forall>b. b \<noteq> p \<longrightarrow> mem w' b = mem w b)
     \<and> slots s' = slots s \<and> scount s' = scount s \<and> tombs s' = tombs s \<and> used s' = used s
     \<and> same_counters w w' \<and> kv w' s' = kv w s"

lemma newItem_ok:
  assumes os: "os_ok e" and sh: "sh e F M w s FL" and len: "length key < 2 ^ 32" "vlen < 2 ^ 32"
    and r: "newItem e key vlen typ now w s = (p, w', s')"
  shows "fresh_item e F M w s p w' s' \<and> item_key (mem w' p) = key \<and> iklen (mem w' p) = length key \<and> ivlen (mem w' p) = vlen
    \<and> ityp (mem w' p) = typ \<and> iexp (mem w' p) = 0 \<and> (icls (mem w' p) = clsBig \<longleftrightarrow> maxSmall < hdrSize + length key + vlen)
    \<and> objs s' = objs s \<and> freeObjs s' = freeObjs s"
proof -
  let ?R = "refs (slots s)" and ?n = "hdrSize + length key + vlen"
  note D = shD [OF sh]
  obtain cls w1 where a: "allocRaw e w s ?n = (p, cls, w1, s')" and hp: "same_heap w1 w'" "same_counters w1 w'"
    and other: "\<And>b. b \<noteq> p \<Longrightarrow> mem w' b = mem w1 b"
    and it: "mem w' p = \<lparr>iexp = 0, ilru = lruClock e now, iklen = length key mod 2 ^ 32, ivlen = vlen mod 2 ^ 32, ityp = typ, icls = cls,
       ibytes = write_at (ibytes (mem w1 p)) 0 (take (length key mod 2 ^ 32) key)\<rparr>"
    using newItem_shape [OF r] by metis
  let ?F = "\<lambda>x. F x + live_cov e (mem w) ?R x" and ?M = "M + live_maps e (mem w) ?R"
  obtain FL' where res: "alloc_res e w s ?F ?M ?n p cls w1 s' FL'"
    using allocRaw_ok [where F = ?F and M = ?M, OF os D(9,10) a] by blast
  let ?L = "cell_len e cls ?n"
  have A: "cells_ok (mem w1) (free s') (bumps s') FL'"
    "heap_ok w1 (\<lambda>x. ?F x + free_cov FL' x + bump_cov (bumps s') x + region p ?L x) (?M + big_maps cls p ?L)"
    "?n \<le> ?L" "cls = clsBig \<and> maxSmall < ?n \<or> cls < nClasses \<and> ?n \<le> maxSmall"
    "length (ibytes (mem w1 p)) = ?L - hdrSize" "\<forall>b. b \<noteq> p \<longrightarrow> mem w1 b = mem w b" "same_index s s'" "same_counters w w1"
    using res by (simp_all add: alloc_res_def)
  have len': "item_len e (mem w' p) = ?L" using len by (simp add: item_len_def it)
  have cls: "icls (mem w' p) = cls" by (simp add: it)
  have pos: "0 < ?L" using A(3) by (simp add: hdrSize_def)
  have "live_cov e (mem w) ?R p = 0" "F p = 0" "free_cov FL' p = 0" using heap_okD(3) [OF A(2), of p] pos by auto
  from this(1) have pR: "p \<notin> ?R"
    using live_cov_remove [OF finite_refs, of p "slots s" e "mem w" p] hdr_pos [OF D(6)] by fastforce
  have same: "mem w' b = mem w b" if "b \<noteq> p" for b using other A(6) that by simp
  have live: "mem w' b = mem w b" if "b \<in> ?R" for b using same [of b] pR that by (cases "b = p") auto
  have "cells_ok (mem w') (free s') (bumps s') FL'"
  proof -
    have "mem w' b = mem w1 b" if "0 < free_cov FL' b" for b
      using other [of b] \<open>free_cov FL' p = 0\<close> that by (cases "b = p") auto
    from cells_ok_cong [OF A(1) this] show ?thesis .
  qed
  moreover have "heap_ok w' (\<lambda>x. with_item e w' p F x + live_cov e (mem w) ?R x + free_cov FL' x + bump_cov (bumps s') x)
      (M + item_maps e p (mem w' p) + live_maps e (mem w) ?R)"
    using heap_ok_cong [OF A(2), of w'] hp(1) unfolding with_item_def item_maps_def len' cls
    by (simp add: same_heap_def ac_simps)
  ultimately have "sh e (with_item e w' p F) (M + item_maps e p (mem w' p)) w' s' FL' \<and> kv w' s' = kv w s"
    using sh_transfer [OF sh live A(7)] by blast
  moreover have "item_ok e (mem w' p)"
    using A(3-5) len unfolding item_ok_def len' by (auto simp: it)
  moreover have "item_key (mem w' p) = key"
    using drop_write_at [of 0 key "ibytes (mem w1 p)"] A(3,5) len by (simp add: item_key_def it)
  moreover have "same_counters w w'" using A(8) hp(2) by (simp add: same_counters_def)
  ultimately show ?thesis using A(4,7) len same \<open>F p = 0\<close> pR
    by (auto simp: fresh_item_def it same_index_def nClasses_def clsBig_def)
qed

section \<open>Rehashing\<close>

lemma retable_ok:
  assumes sh: "sh e F M w s FL" and tbl: "tbl_ok (hashKey e) (key_at w) sl" "refs sl = refs (slots s)"
    and s': "s' = s\<lparr>slots := sl, tombs := int (n_tombs sl), expCur := c\<rparr>"
  shows "sh e F M w s' FL \<and> kv w s' = kv w s"
proof -
  note D = shD [OF sh]
  have c: "cost w s' b = cost w s b" "entry w s' b = entry w s b" "obj_ok w s' b = obj_ok w s b" for b
    by (simp_all add: s' cost_def entry_def val_of_def list_at_item_def hash_at_item_def obj_ok_def Let_def)
  have "sh e F M w s' FL"
    using D tbl c unfolding sh_def index_ok_def acct_ok_def items_ok_def objs_ok_def by (simp add: s')
  moreover have "kv w s' = kv w s"
  proof (rule map_eqI)
    fix k x
    have "tbl_ok (hashKey e) (key_at w) (slots s')" "refs (slots s') = refs (slots s)" using tbl by (simp_all add: s')
    then show "kv w s' k = Some x \<longleftrightarrow> kv w s k = Some x" by (simp add: kv_iff [OF D(1)] kv_iff [of e w s'] c)
  qed
  ultimately show ?thesis ..
qed

lemma rehash_step:
  assumes sh: "sh e F M w s FL"
  defines "s' \<equiv> rehash e w (grow_size (scount s) 8) s"
  shows "sh e F M w s' FL \<and> kv w s' = kv w s \<and> (scount s' + tombs s' + 1) * 8 \<le> 3 * int (length (slots s'))
    \<and> refs (slots s') = refs (slots s) \<and> used s' = used s"
proof -
  note D = shD [OF sh]
  let ?n = "grow_size (scount s) 8"
  have n: "pow2 ?n" "(scount s + 1) * 8 \<le> 3 * int ?n" using grow_size_ok [of 8 "scount s"] by auto
  then have "card (refs (slots s)) < ?n" using D(2) by simp
  note R = rehash_ok [OF D(1) n(1) this]
  have "s' = s\<lparr>slots := rehash_slots (hashKey e) (key_at w) (slots s) ?n,
      tombs := int (n_tombs (rehash_slots (hashKey e) (key_at w) (slots s) ?n)), expCur := 0\<rparr>"
    using R by (simp add: s'_def rehash_def)
  from retable_ok [OF sh _ _ this] R n show ?thesis by (simp add: s'_def rehash_def)
qed

definition has_room :: "shard \<Rightarrow> bool" where
  "has_room s \<longleftrightarrow> scount s + tombs s + 1 < int (length (slots s))"

lemma grow_ok:
  assumes sh: "sh e F M w s FL"
  shows "sh e F M w (grow e w s) FL \<and> kv w (grow e w s) = kv w s \<and> has_room (grow e w s) \<and> used (grow e w s) = used s"
proof (cases "(scount s + tombs s + 1) * 4 > int (length (slots s)) * 3")
  case True
  note R = rehash_step [OF sh]
  have "0 \<le> scount (grow e w s)" "0 \<le> tombs (grow e w s)" using shD(2,3) [OF conjunct1 [OF R]] True by (auto simp: grow_def)
  then show ?thesis using R True by (auto simp: grow_def has_room_def)
next
  case False
  have "0 < length (slots s)" using shD(1) [OF sh] by (simp add: tbl_ok_def pow2_pos del: length_greater_0_conv)
  moreover have "0 \<le> scount s" "0 \<le> tombs s" using shD(2,3) [OF sh] by auto
  ultimately show ?thesis using sh False by (auto simp: grow_def has_room_def)
qed

section \<open>Lookup\<close>

text \<open>What a client sees at time \<open>now\<close>: an entry whose expiry time has passed is absent.\<close>

definition live :: "int \<Rightarrow> keyspace \<Rightarrow> keyspace" where
  "live now m k = (case m k of None \<Rightarrow> None | Some (v, x) \<Rightarrow> if x \<noteq> 0 \<and> x \<le> now then None else Some (v, x))"

lemma ins_ok_clear:
  assumes tbl: "tbl_ok hk kf sl" and at: "ref_at sl idx a" and h0: "h0 = home (length sl) (hk (kf a))"
    and j: "j = idx \<or> ins_ok sl h0 j \<and> sl ! j = STomb"
  shows "ins_ok (clear_slot sl idx) h0 j"
proof -
  have i: "idx < length sl" and p2: "pow2 (length sl)" using at tbl by (auto simp: ref_at_def tbl_ok_def)
  have "reachable_at sl h0 j" "sl ! j \<noteq> SEmpty" "j < length sl"
    using j tbl_ok_reach [OF tbl at] h0 at by (auto simp: ins_ok_def ref_at_def)
  then have "reachable_at (clear_slot sl idx) h0 j" "j < length (clear_slot sl idx)"
    using clear_reach [OF p2 i] by (auto simp: clear_slot_def)
  moreover have "clear_slot sl idx ! j = SEmpty \<or> clear_slot sl idx ! j = STomb"
    using j i by (cases "j = idx") (auto simp: clear_slot_def)
  ultimately show ?thesis by (simp add: ins_ok_def)
qed

text \<open>The outcome of \<open>get\<close>: the slot and address of the live item, or a free slot on its probe path.\<close>

definition found :: "env \<Rightarrow> bytes \<Rightarrow> world \<Rightarrow> shard \<Rightarrow> nat option \<Rightarrow> nat \<Rightarrow> nat option \<Rightarrow> bool" where
  "found e key w s idx it ins \<longleftrightarrow>
     (if it = 0 then kv w s key = None \<and> (\<exists>j. ins = Some j \<and> ins_ok (slots s) (home (length (slots s)) (hashKey e key)) j)
      else (\<exists>i. idx = Some i \<and> ref_at (slots s) i it) \<and> key_at w it = key \<and> kv w s key = Some (entry w s it))"

lemma del_room:
  assumes sh: "sh e F M w s FL" and at: "ref_at (slots s) idx a" and r: "del e idx a w s = (w', s')" and room: "has_room s"
  shows "has_room s'"
proof -
  note dl = del_ok [OF sh at r]
  obtain FL' where sh': "sh e F M w' s' FL'" using dl by (auto simp: shard_inv_def)
  have a: "a \<in> refs (slots s)" using at by (auto simp: refs_def)
  have "refs (slots s') = refs (slots s) - {a}" using dl tbl_clear(2) [OF shD(1) [OF sh] at] by simp
  then have "card (refs (slots s')) + 1 = card (refs (slots s))" using card_Suc_Diff1 [OF finite_refs a] by simp
  moreover have "n_tombs (slots s') \<le> n_tombs (slots s) + 1" using dl n_tombs_clear [OF at] by simp
  moreover have "length (slots s') = length (slots s)" using dl by (simp add: clear_slot_def)
  ultimately show ?thesis using room shD(2,3) [OF sh] shD(2,3) [OF sh'] by (simp add: has_room_def)
qed

lemma upd_item_simps [simp]: "mem (upd_item a f w) = (mem w)(a := f (mem w a))" "maxMemory (upd_item a f w) = maxMemory w"
  "globalUsed (upd_item a f w) = globalUsed w" "draws (upd_item a f w) = draws w"
  by (simp_all add: upd_item_def)

lemma same_heap_upd [simp]: "same_heap w (upd_item a f w)"
  by (simp add: same_heap_def upd_item_def)

lemma setLRU_ok:
  assumes sh: "sh e F M w s FL" and a: "a \<in> refs (slots s)"
  shows "sh e F M (upd_item a (setLRU v) w) s FL \<and> kv (upd_item a (setLRU v) w) s = kv w s
    \<and> entry (upd_item a (setLRU v) w) s a = entry w s a \<and> key_at (upd_item a (setLRU v) w) a = key_at w a
    \<and> framed F w s (upd_item a (setLRU v) w) s"
proof -
  let ?w = "upd_item a (setLRU v) w" and ?it = "(mem w a)\<lparr>ilru := v\<rparr>"
  note D = shD [OF sh]
  have m: "mem ?w = (mem w)(a := ?it)" by (simp add: setLRU_def)
  have cell: "same_cell e (mem w a) ?it"
    using D(6) [OF a] by (simp add: same_cell_def item_ok_def item_len_def item_key_def objIdx_def)
  have c: "cost ?w s a = cost w s a" "entry ?w s a = entry w s a" "obj_ok ?w s a"
    using D(7) [OF a] by (simp_all add: setLRU_def cost_def entry_def val_of_def item_val_def item_valN_def list_at_item_def
        hash_at_item_def objIdx_def obj_ok_def Let_def)
  have "sh e F M ?w s FL \<and> kv ?w s = (kv w s)(key_at w a \<mapsto> entry ?w s a)
      \<and> (\<forall>b. b \<noteq> a \<longrightarrow> mem ?w b = mem w b) \<and> (\<forall>b. 0 < F b \<longrightarrow> mem ?w b = mem w b)"
    by (rule touch_ok [OF sh a m cell same_heap_upd]) (simp_all add: same_cells_def c)
  moreover have "kv w s (key_at w a) = Some (entry w s a)" using kv_iff [OF D(1)] a by blast
  ultimately show ?thesis using c(2) cell
    by (auto simp: framed_def key_at_def same_cell_def fun_upd_idem setLRU_def)
qed

lemma get_ok:
  assumes sh: "shard_inv e F M w s" and r: "get e key (hashKey e key) now w s = (idx, it, ins, w', s')"
  shows "shard_inv e F M w' s' \<and> framed F w s w' s' \<and> found e key w' s' idx it ins
    \<and> kv w' s' = (kv w s)(key := live now (kv w s) key) \<and> (it = 0 \<longleftrightarrow> live now (kv w s) key = None)
    \<and> (has_room s \<longrightarrow> has_room s')"
proof -
  obtain FL where FL: "sh e F M w s FL" using sh by (auto simp: shard_inv_def)
  note D = shD [OF FL]
  obtain idx0 ins0 where f: "find_loop (slots s) (key_at w) key (tag_of (hashKey e key)) (length (slots s))
        (home (length (slots s)) (hashKey e key)) None = Some (idx0, ins0)"
    and i0: "\<forall>j. ins0 = Some j \<longrightarrow> ins_ok (slots s) (home (length (slots s)) (hashKey e key)) j \<and> (idx0 \<noteq> None \<longrightarrow> slots s ! j = STomb)"
    and c0: "case idx0 of Some j \<Rightarrow> \<exists>a. ref_at (slots s) j a \<and> key_at w a = key
       | None \<Rightarrow> ins0 \<noteq> None \<and> (\<forall>j a. ref_at (slots s) j a \<longrightarrow> key_at w a \<noteq> key)"
    using find_correct [OF D(1), of key] by blast
  have fk: "find_key w s key (hashKey e key) = (idx0, ins0)" by (simp add: find_key_def f)
  show ?thesis
  proof (cases idx0)
    case None
    then have rr: "idx = None" "it = 0" "ins = ins0" "w' = w" "s' = s" using r fk by (auto simp: get_def)
    have "kv w s key = None" using c0 None kv_None [OF D(1)] by (auto simp: refs_def)
    then show ?thesis using sh None c0 i0 by (auto simp: rr live_def found_def)
  next
    case (Some i)
    then obtain a where a: "ref_at (slots s) i a" "key_at w a = key" using c0 by auto
    have aR: "a \<in> refs (slots s)" using a by (auto simp: refs_def)
    have sa: "slot_addr (slots s ! i) = a" using a by (auto simp: ref_at_def slot_addr_def)
    have kva: "kv w s key = Some (entry w s a)" using kv_iff [OF D(1)] aR a(2) by blast
    have lv: "live now (kv w s) key = (if iexp (mem w a) \<noteq> 0 \<and> iexp (mem w a) \<le> now then None else Some (entry w s a))"
      by (simp add: live_def kva entry_def)
    show ?thesis
    proof (cases "iexp (mem w a) \<noteq> 0 \<and> iexp (mem w a) \<le> now")
      case True
      obtain w1 s1 where d: "del e i a w s = (w1, s1)" by fastforce
      have rr: "idx = None" "it = 0" "ins = (if ins0 = None then Some i else ins0)" "w' = w1" "s' = s1"
        using r True by (auto simp: get_def fk Some sa Let_def d)
      note dl = del_ok [OF FL a(1) d]
      have e1: "mem w' = mem w1" by (simp add: rr)
      have "kv w1 s1 = (kv w s)(key := None)" using dl a(2) by simp
      moreover have "\<exists>j. ins = Some j \<and> ins_ok (slots s1) (home (length (slots s1)) (hashKey e key)) j"
      proof -
        have len: "length (slots s1) = length (slots s)" using dl by (simp add: clear_slot_def)
        have "\<exists>j. ins = Some j \<and> (j = i \<or> ins_ok (slots s) (home (length (slots s)) (hashKey e key)) j \<and> slots s ! j = STomb)"
          using i0 Some by (cases ins0) (auto simp: rr)
        then show ?thesis using ins_ok_clear [OF D(1) a(1), of "home (length (slots s)) (hashKey e key)"] a(2) dl len by auto
      qed
      ultimately show ?thesis using dl del_room [OF FL a(1) d] True by (auto simp: rr found_def lv)
    next
      case False
      have rr: "idx = Some i" "it = a" "ins = ins0" "s' = s"
        "w' = (if maxMemory w > 0 then upd_item a (setLRU (lruClock e now)) w else w)"
        using r False by (auto simp: get_def fk Some sa Let_def)
      have ne: "a \<noteq> 0" by (rule sh_live(3) [OF FL aR])
      have kvk: "(kv w s)(key := Some (entry w s a)) = kv w s" using kva by auto
      show ?thesis
        using setLRU_ok [OF FL aR, of "lruClock e now"] a kva ne FL False
        by (auto simp: rr lv kvk found_def shard_inv_def)
    qed
  qed
qed

section \<open>Strings\<close>

lemma fresh_upd:
  assumes fr: "fresh_item e F M w s p w1 s1"
    and f: "item_len e (f (mem w1 p)) = item_len e (mem w1 p)" "icls (f (mem w1 p)) = icls (mem w1 p)" "item_ok e (f (mem w1 p))"
  shows "fresh_item e F M w s p (upd_item p f w1) s1"
proof -
  let ?w = "upd_item p f w1"
  obtain FL where sh: "sh e (with_item e w1 p F) (M + item_maps e p (mem w1 p)) w1 s1 FL" using fr by (auto simp: fresh_item_def)
  have ok: "item_ok e (mem w1 p)" using fr by (simp add: fresh_item_def)
  note n = with_item_not_live [OF sh ok] and D = shD [OF sh]
  have eq: "with_item e ?w p F = with_item e w1 p F" "item_maps e p (mem ?w p) = item_maps e p (mem w1 p)"
    using f by (auto simp: with_item_def item_maps_def)
  have "free_cov FL p = 0" using heap_okD(3) [OF D(10), of p] hdr_pos [OF ok] by (simp add: with_item_def)
  then have "cells_ok (mem ?w) (free s1) (bumps s1) FL" by (intro cells_ok_cong [OF D(9)]) auto
  moreover have "heap_ok ?w (\<lambda>x. with_item e w1 p F x + live_cov e (mem w1) (refs (slots s1)) x + free_cov FL x + bump_cov (bumps s1) x)
      (M + item_maps e p (mem w1 p) + live_maps e (mem w1) (refs (slots s1)))"
    using heap_ok_cong [OF D(10), of ?w] same_heap_upd [of w1 p f] by (simp add: same_heap_def)
  ultimately have "sh e (with_item e w1 p F) (M + item_maps e p (mem w1 p)) ?w s1 FL \<and> kv ?w s1 = kv w1 s1"
    using n(1) by (intro sh_transfer [OF sh]) (auto simp: same_index_def)
  then show ?thesis using fr f(3) unfolding fresh_item_def eq by (auto simp: same_counters_def)
qed

lemma fresh_framed: "fresh_item e F M w s p w1 s1 \<Longrightarrow> framed F w s w1 s1"
  unfolding fresh_item_def framed_def same_counters_def by (metis add.right_neutral diff_self neq0_conv)

lemma newStr_ok:
  assumes os: "os_ok e" and sh: "sh e F M w s FL" and len: "length key < 2 ^ 32" "length val < 2 ^ 32"
    and r: "newStr e key val x now w s = (p, w', s')"
  shows "fresh_item e F M w s p w' s' \<and> key_at w' p = key \<and> ityp (mem w' p) = typStr \<and> entry w' s' p = (VStr val, x)"
proof -
  obtain w1 where ni: "newItem e key (length val) typStr now w s = (p, w1, s')"
    and w': "w' = upd_item p (setExpRaw x) (upd_item p (\<lambda>r. copy_val (ivlen r) 0 val r) w1)"
    using r by (auto simp: newStr_def Let_def split: prod.splits)
  note N = newItem_ok [OF os sh len ni]
  let ?it = "mem w1 p" and ?f = "\<lambda>r. copy_val (ivlen r) 0 val r"
  have ok: "item_ok e ?it" using N by (simp add: fresh_item_def)
  have len': "iklen ?it + length val \<le> length (ibytes ?it)" using ok N by (auto simp: item_ok_def)
  have fi: "fresh_item e F M w s p (upd_item p ?f w1) s'"
    using N ok by (intro fresh_upd) (auto simp: copy_val_def item_len_def item_ok_def)
  then have "fresh_item e F M w s p w' s'"
    unfolding w' by (rule fresh_upd) (use ok in \<open>auto simp: copy_val_def setExpRaw_def item_len_def item_ok_def\<close>)
  moreover have "key_at w' p = key"
    using N by (auto simp: w' key_at_def item_key_def setExpRaw_def copy_val_def take_write_at)
  moreover have "item_val (mem w' p) = val"
    using N drop_write_at [of "iklen ?it" val "ibytes ?it"] len'
    by (simp add: w' item_val_def item_valN_def setExpRaw_def copy_val_def)
  ultimately show ?thesis using N by (simp add: entry_def val_of_def w' setExpRaw_def copy_val_def)
qed

lemma set_inplace_ok:
  assumes sh: "sh e F M w s FL" and a: "a \<in> refs (slots s)" and ty: "ityp (mem w a) = typStr"
    and cap: "int (length val) \<le> item_capacity (mem w a)" "icls (mem w a) \<noteq> clsBig"
    and len: "length val < 2 ^ 32"
    and w2: "w2 = upd_item a (\<lambda>r. copy_val (ivlen r) 0 val r) (upd_item a (setVlen (length val)) w)"
    and r: "setExp a x w2 s = (w3, s3)" "addUsed (int (length val) - int (ivlen (mem w a))) w3 s3 = (w', s')"
  shows "sh e F M w' s' FL \<and> kv w' s' = (kv w s)(key_at w a \<mapsto> (VStr val, x)) \<and> framed F w s w' s'"
proof -
  let ?it = "mem w a" and ?d = "int (length val) - int (ivlen (mem w a))"
  let ?it' = "?it\<lparr>ivlen := length val, ibytes := write_at (ibytes ?it) (iklen ?it) val, iexp := x\<rparr>"
  note D = shD [OF sh]
  have ok: "item_ok e ?it" by (rule D(6) [OF a])
  have s3: "s3 = s\<lparr>nexp := nexp s + (b2i (x \<noteq> 0) - b2i (iexp ?it \<noteq> 0))\<rparr>" and w3: "w3 = upd_item a (setExpRaw x) w2"
    using r(1) by (auto simp: setExp_def w2 copy_val_def setVlen_def b2i_def Let_def split: if_splits)
  have w': "w' = fst (addUsed ?d w3 s3)" and s': "s' = s3\<lparr>used := used s3 + ?d\<rparr>"
    using r(2) addUsed_simps(9) [of ?d w3 s3] by auto
  have m: "mem w' = (mem w)(a := ?it')"
    using len by (simp add: w' w3 w2 setExpRaw_def copy_val_def setVlen_def)
  have cls: "item_len e ?it' = item_len e ?it" "classSize ! icls ?it = item_len e ?it"
    using cap(2) by (simp_all add: item_len_def cell_len_def)
  have fit: "hdrSize + iklen ?it + length val \<le> item_len e ?it" using cap by (simp add: item_capacity_def cls(2))
  then have fit': "iklen ?it + length val \<le> length (ibytes ?it)" using ok by (simp add: item_ok_def)
  have cell: "same_cell e ?it ?it'"
    using ok fit cls(1) ty by (simp add: same_cell_def item_ok_def item_key_def take_write_at)
  have "entry w' s' a = (VStr val, x)"
    using drop_write_at [OF fit'] ty by (simp add: entry_def val_of_def m item_val_def item_valN_def)
  moreover have "obj_ok w' s' a" "cost w' s' a = cost w s a + ?d" using ty by (simp_all add: obj_ok_def m cost_def Let_def)
  moreover have "same_heap w w'" using len by (simp add: w' w3 w2 same_heap_def upd_item_def)
  moreover have "same_cells s s'" by (simp add: s' s3 same_cells_def)
  ultimately have "sh e F M w' s' FL \<and> kv w' s' = (kv w s)(key_at w a \<mapsto> (VStr val, x)) \<and> (\<forall>b. 0 < F b \<longrightarrow> mem w' b = mem w b)"
    using touch_ok [OF sh a m cell, of s'] by (auto simp: s' s3)
  then show ?thesis by (auto simp: framed_def w' s' s3 w3 w2)
qed

lemma found_new:
  "found e key w s idx 0 ins \<Longrightarrow> kv w s key = None \<and> ins = Some (the ins) \<and> ins_ok (slots s) (home (length (slots s)) (hashKey e key)) (the ins)"
  by (auto simp: found_def)

lemma found_old:
  "found e key w s idx it ins \<Longrightarrow> it \<noteq> 0 \<Longrightarrow> ref_at (slots s) (the idx) it \<and> it \<in> refs (slots s) \<and> key_at w it = key
     \<and> kv w s key = Some (entry w s it)"
  by (auto simp: found_def refs_def)

lemma setStr_ok:
  assumes os: "os_ok e" and sh: "shard_inv e F M w s" and f: "found e key w s idx it ins" and room: "it = 0 \<Longrightarrow> has_room s"
    and len: "length key < 2 ^ 32" "length val < 2 ^ 32"
    and r: "setStr e idx it ins (hashKey e key) key val x now w s = (w', s')"
  shows "shard_inv e F M w' s' \<and> kv w' s' = (kv w s)(key \<mapsto> (VStr val, x)) \<and> framed F w s w' s'"
proof -
  obtain FL where FL: "sh e F M w s FL" using sh by (auto simp: shard_inv_def)
  obtain nw w1 s1 where ns: "newStr e key val x now w s = (nw, w1, s1)" by (metis prod_cases3)
  note N = newStr_ok [OF os FL len ns]
  have fi: "fresh_item e F M w s nw w1 s1" using N by blast
  have fr: "framed F w s w1 s1" using N fresh_framed by blast
  obtain FL1 where FL1: "sh e (with_item e w1 nw F) (M + item_maps e nw (mem w1 nw)) w1 s1 FL1" and ok: "item_ok e (mem w1 nw)"
    and I: "slots s1 = slots s" "scount s1 = scount s" "tombs s1 = tombs s" "kv w1 s1 = kv w s" and other: "\<And>b. b \<noteq> nw \<Longrightarrow> mem w1 b = mem w b"
    and nR: "nw \<notin> refs (slots s)"
    using fi by (auto simp: fresh_item_def)
  show ?thesis
  proof (cases "it = 0")
    case True
    note fn = found_new [OF f [unfolded True]]
    have fo: "fresh_obj w1 s1 nw" using N by (simp add: fresh_obj_def obj_ok_def)
    have ii: "insert_item (the ins) (hashKey e key) nw w1 s1 = (w', s')" using r True by (simp add: setStr_def ns)
    have "sh e F M w' s' FL1 \<and> kv w' s' = (kv w1 s1)(key_at w1 nw \<mapsto> entry w1 s1 nw) \<and> framed F w1 s1 w' s'"
      using insert_ok [OF FL1 ok fo _ _ _ _ ii] N fn room [OF True] by (simp add: I has_room_def)
    then show ?thesis using N I framed_trans [OF fr] by (auto simp: shard_inv_def)
  next
    case False
    note fo = found_old [OF f False]
    show ?thesis
    proof (cases "ityp (mem w it) = typStr \<and> int (length val) \<le> item_capacity (mem w it) \<and> icls (mem w it) \<noteq> clsBig")
      case True
      let ?w2 = "upd_item it (\<lambda>r. copy_val (ivlen r) 0 val r) (upd_item it (setVlen (length val)) w)"
      obtain w3 s3 where se: "setExp it x ?w2 s = (w3, s3)" by fastforce
      have "addUsed (int (length val) - int (ivlen (mem w it))) w3 s3 = (w', s')"
        using r False True se by (simp add: setStr_def Let_def)
      from set_inplace_ok [OF FL _ _ _ _ len(2) refl se this] True fo show ?thesis by (auto simp: shard_inv_def)
    next
      case inplace: False
      have ri: "replace_item e (the idx) it nw w1 s1 = (w', s')" using r False inplace by (simp add: setStr_def ns)
      have ne: "it \<noteq> nw" using fo nR by auto
      then have "key_at w1 nw = key_at w1 it" using N fo other [of it] by (simp add: key_at_def)
      from replace_ok [OF FL1 ok _ this _ ri] N fo I have
        "shard_inv e F M w' s' \<and> kv w' s' = (kv w1 s1)(key_at w1 it \<mapsto> entry w1 s1 nw) \<and> framed F w1 s1 w' s'" by simp
      moreover have "key_at w1 it = key" using fo other [OF ne] by (simp add: key_at_def)
      ultimately show ?thesis using N I framed_trans [OF fr] by auto
    qed
  qed
qed

section \<open>Expiry times\<close>

lemma setExp_ok:
  assumes sh: "shard_inv e F M w s" and a: "a \<in> refs (slots s)" and r: "setExp a x w s = (w', s')"
  shows "shard_inv e F M w' s' \<and> kv w' s' = (kv w s)(key_at w a \<mapsto> (val_of w s a, x)) \<and> framed F w s w' s'"
proof -
  obtain FL where FL: "sh e F M w s FL" using sh by (auto simp: shard_inv_def)
  let ?it = "mem w a" and ?it' = "(mem w a)\<lparr>iexp := x\<rparr>"
  note D = shD [OF FL]
  have s': "s' = s\<lparr>nexp := nexp s + (b2i (x \<noteq> 0) - b2i (iexp ?it \<noteq> 0))\<rparr>" and w': "w' = upd_item a (setExpRaw x) w"
    using r by (auto simp: setExp_def b2i_def Let_def split: if_splits)
  have m: "mem w' = (mem w)(a := ?it')" by (simp add: w' setExpRaw_def)
  have cell: "same_cell e ?it ?it'"
    using D(6) [OF a] by (simp add: same_cell_def item_ok_def item_len_def item_key_def objIdx_def)
  have ent: "entry w' s' a = (val_of w s a, x)"
    by (simp add: m s' entry_def val_of_def item_val_def item_valN_def list_at_item_def hash_at_item_def objIdx_def)
  have cst: "obj_ok w' s' a" "cost w' s' a = cost w s a"
    using D(7) [OF a] by (simp_all add: m s' cost_def obj_ok_def list_at_item_def hash_at_item_def objIdx_def Let_def)
  have "sh e F M w' s' FL \<and> kv w' s' = (kv w s)(key_at w a \<mapsto> entry w' s' a) \<and> (\<forall>b. b \<noteq> a \<longrightarrow> mem w' b = mem w b)
      \<and> (\<forall>b. 0 < F b \<longrightarrow> mem w' b = mem w b)"
    by (rule touch_ok [OF FL a m cell]) (simp_all add: w' s' same_cells_def cst [unfolded w' s'])
  then show ?thesis unfolding ent by (auto simp: shard_inv_def framed_def w' s')
qed

section \<open>Containers\<close>

definition objs_room :: "shard \<Rightarrow> bool" where
  "objs_room s \<longleftrightarrow> freeObjs s \<noteq> [] \<or> length (objs s) < 2 ^ 32"

text \<open>The index \<open>newObj\<close> hands out is free: the top of the free list, or one past the end.\<close>

definition obj_added :: "obj \<Rightarrow> shard \<Rightarrow> nat \<Rightarrow> shard \<Rightarrow> bool" where
  "obj_added ob s i s' \<longleftrightarrow> i < 2 ^ 32 \<and> i < length (objs s')
     \<and> objs s' ! i = Some ob \<and> length (objs s) \<le> length (objs s') \<and> length (objs s') \<le> 2 ^ 32 \<and> distinct (freeObjs s')
     \<and> set (freeObjs s') \<subseteq> set (freeObjs s) - {i} \<and> (i \<in> set (freeObjs s) \<or> i = length (objs s))
     \<and> (\<forall>j < length (objs s). j \<noteq> i \<longrightarrow> objs s' ! j = objs s ! j)"

lemma newObj_shape:
  assumes ok: "objs_ok w s" and room: "objs_room s" and r: "newObj ob s = (i, s')"
  shows "obj_added ob s i s'"
proof (cases "freeObjs s = []")
  case True
  then have "length (objs s) < 2 ^ 32" using room by (simp add: objs_room_def)
  then have "i = length (objs s)" "s' = s\<lparr>objs := objs s @ [Some ob]\<rparr>" using r True by (auto simp: newObj_def)
  then show ?thesis using True \<open>length (objs s) < 2 ^ 32\<close> by (simp add: obj_added_def nth_append)
next
  case False
  have i: "i = last (freeObjs s)" "s' = s\<lparr>freeObjs := butlast (freeObjs s), objs := (objs s)[i := Some ob]\<rparr>"
    using r False by (auto simp: newObj_def Let_def)
  have d: "distinct (butlast (freeObjs s) @ [i])" using ok False i(1) by (simp add: objs_ok_def)
  have mem: "i \<in> set (freeObjs s)" using i(1) False by simp
  then have "i < length (objs s)" "length (objs s) \<le> 2 ^ 32" using ok by (auto simp: objs_ok_def)
  moreover have "set (butlast (freeObjs s)) \<subseteq> set (freeObjs s) - {i}" using d by (auto dest: in_set_butlastD)
  ultimately show ?thesis using d mem by (simp add: obj_added_def i(2))
qed

lemma newObj_ok:
  assumes sh: "sh e F M w s FL" and room: "objs_room s" and r: "newObj ob s = (i, s')"
  shows "sh e F M w s' FL \<and> kv w s' = kv w s \<and> i < 2 ^ 32 \<and> i < length (objs s') \<and> objs s' ! i = Some ob
    \<and> (\<forall>b \<in> refs (slots s). ityp (mem w b) \<noteq> typStr \<longrightarrow> objIdx (mem w b) \<noteq> i)
    \<and> slots s' = slots s \<and> scount s' = scount s \<and> tombs s' = tombs s \<and> used s' = used s"
proof -
  note D = shD [OF sh]
  have O: "distinct (freeObjs s)" "\<forall>j \<in> set (freeObjs s). j < length (objs s) \<and> objs s ! j = None" "length (objs s) \<le> 2 ^ 32"
    using D(8) by (auto simp: objs_ok_def)
  have used_obj: "objIdx (mem w b) < length (objs s) \<and> objs s ! objIdx (mem w b) \<noteq> None"
    if "b \<in> refs (slots s)" "ityp (mem w b) \<noteq> typStr" for b using D(7) [OF that(1)] that(2) by (auto simp: obj_ok_def)
  have A: "obj_added ob s i s'" by (rule newObj_shape [OF D(8) room r])
  have I: "slots s' = slots s" "scount s' = scount s" "tombs s' = tombs s" "used s' = used s" "nexp s' = nexp s"
    "free s' = free s" "bumps s' = bumps s"
    using r by (auto simp: newObj_def Let_def split: if_splits)
  have ni: "objIdx (mem w b) \<noteq> i" if "b \<in> refs (slots s)" "ityp (mem w b) \<noteq> typStr" for b
    using used_obj [OF that] A O(2) by (auto simp: obj_added_def)
  have un: "cost w s' b = cost w s b" "entry w s' b = entry w s b" "obj_ok w s' b" if b: "b \<in> refs (slots s)" for b
  proof -
    have "objs s' ! objIdx (mem w b) = objs s ! objIdx (mem w b) \<and> objIdx (mem w b) < length (objs s')"
      if "ityp (mem w b) \<noteq> typStr" using ni [OF b that] used_obj [OF b that] A by (auto simp: obj_added_def)
    note u = untouched [OF refl D(7) [OF b] this]
    show "cost w s' b = cost w s b" by (rule u(1))
    show "entry w s' b = entry w s b" by (rule u(2))
    show "obj_ok w s' b" by (rule u(3))
  qed
  have "objs_ok w s'"
  proof -
    have "j < length (objs s') \<and> objs s' ! j = None" if "j \<in> set (freeObjs s')" for j
    proof -
      have j: "j \<in> set (freeObjs s)" "j \<noteq> i" using A that by (auto simp: obj_added_def)
      then have "j < length (objs s)" "objs s ! j = None" using O(2) by auto
      then show ?thesis using A j(2) by (auto simp: obj_added_def)
    qed
    then show ?thesis using D(8) A by (simp add: objs_ok_def I obj_added_def)
  qed
  then have "sh e F M w s' FL"
    using D un(1,3) by (simp add: sh_def index_ok_def acct_ok_def items_ok_def I)
  moreover have "kv w s' = kv w s"
  proof (rule map_eqI)
    fix k x
    show "kv w s' k = Some x \<longleftrightarrow> kv w s k = Some x"
      using D(1) un(2) by (simp add: kv_iff [OF D(1)] kv_iff [of e w s'] I)
  qed
  ultimately show ?thesis using A ni I by (auto simp: obj_added_def)
qed

definition obj_typ :: "obj \<Rightarrow> nat" where
  "obj_typ ob = (case ob of LObj l \<Rightarrow> typList | HObj h \<Rightarrow> typHash)"

definition obj_val :: "obj \<Rightarrow> rval" where
  "obj_val ob = (case ob of LObj l \<Rightarrow> VList (list_elems l) | HObj h \<Rightarrow> VHash (hash_fields h))"

definition obj_cost :: "obj \<Rightarrow> int" where
  "obj_cost ob = (case ob of LObj l \<Rightarrow> lcost l | HObj h \<Rightarrow> hcost h)"

definition obj_inv :: "obj \<Rightarrow> bool" where
  "obj_inv ob = (case ob of
       LObj l \<Rightarrow> list_inv l \<and> lcost l = list_cost (list_elems l)
     | HObj h \<Rightarrow> hash_inv h \<and> hcost h = map_cost (hash_fields h))"

lemma typ_distinct [simp]: "typList \<noteq> typStr" "typHash \<noteq> typStr" "typHash \<noteq> typList" "typStr \<noteq> typList" "typStr \<noteq> typHash" "typList \<noteq> typHash"
  by (simp_all add: typList_def typStr_def typHash_def)

lemma obj_ok_iff: "obj_ok w s a \<longleftrightarrow> ityp (mem w a) = typStr \<or>
    ivlen (mem w a) = 4 \<and> objIdx (mem w a) < length (objs s)
    \<and> (\<exists>ob. objs s ! objIdx (mem w a) = Some ob \<and> ityp (mem w a) = obj_typ ob \<and> obj_inv ob)"
proof (cases "ityp (mem w a) = typStr")
  case False
  have "(\<exists>ob. objs s ! objIdx (mem w a) = Some ob \<and> ityp (mem w a) = obj_typ ob \<and> obj_inv ob) \<longleftrightarrow>
      (\<exists>l. objs s ! objIdx (mem w a) = Some (LObj l) \<and> ityp (mem w a) = typList \<and> list_inv l \<and> lcost l = list_cost (list_elems l))
      \<or> (\<exists>h. objs s ! objIdx (mem w a) = Some (HObj h) \<and> ityp (mem w a) = typHash \<and> hash_inv h \<and> hcost h = map_cost (hash_fields h))"
    by (cases "objs s ! objIdx (mem w a)") (auto simp: obj_typ_def obj_inv_def split: obj.splits)
  then show ?thesis using False unfolding obj_ok_def by blast
qed (simp add: obj_ok_def)

lemma container_entry:
  assumes "objs s ! objIdx (mem w a) = Some ob" "ityp (mem w a) = obj_typ ob"
  shows "entry w s a = (obj_val ob, iexp (mem w a))" "cost w s a = int (64 + iklen (mem w a)) + obj_cost ob"
  using assms by (auto simp: entry_def val_of_def cost_def list_at_item_def hash_at_item_def as_list_def as_hash_def
      obj_typ_def obj_val_def obj_cost_def Let_def split: obj.splits)

lemma newContainer_ok:
  assumes os: "os_ok e" and sh: "shard_inv e F M w s" and f: "found e key w s idx 0 ins" and room: "has_room s" "objs_room s"
    and len: "length key < 2 ^ 32" and ob: "obj_inv ob" "typ = obj_typ ob"
    and r: "newContainer e ins (hashKey e key) key typ ob now w s = (p, w', s')"
  shows "shard_inv e F M w' s' \<and> kv w' s' = (kv w s)(key \<mapsto> (obj_val ob, 0)) \<and> framed F w s w' s'
    \<and> p \<in> refs (slots s') \<and> key_at w' p = key \<and> ityp (mem w' p) = typ \<and> iexp (mem w' p) = 0
    \<and> objIdx (mem w' p) < length (objs s') \<and> objs s' ! objIdx (mem w' p) = Some ob"
proof -
  obtain FL where FL: "sh e F M w s FL" using sh by (auto simp: shard_inv_def)
  obtain w1 s1 where ni: "newItem e key 4 typ now w s = (p, w1, s1)"
    and rest: "(case newObj ob s1 of (i, s2) \<Rightarrow> insert_item (the ins) (hashKey e key) p (upd_item p (setObjIdx i) w1) s2) = (w', s')"
    using r by (auto simp: newContainer_def Let_def split: prod.splits)
  have four: "(4 :: nat) < 2 ^ 32" by simp
  note N = newItem_ok [OF os FL len four ni]
  have fi: "fresh_item e F M w s p w1 s1" using N by blast
  obtain i s2 where no: "newObj ob s1 = (i, s2)" by fastforce
  obtain FL1 where FL1: "sh e (with_item e w1 p F) (M + item_maps e p (mem w1 p)) w1 s1 FL1"
    and I: "slots s1 = slots s" "scount s1 = scount s" "tombs s1 = tombs s" "kv w1 s1 = kv w s"
    using fi by (auto simp: fresh_item_def)
  have "objs_room s1" using room(2) N by (simp add: objs_room_def)
  note O = newObj_ok [OF FL1 this no]
  let ?w = "upd_item p (setObjIdx i) w1"
  have ok: "item_ok e (mem w1 p)" using fi by (simp add: fresh_item_def)
  have fi2: "fresh_item e F M w s p w1 s2" using fi O by (auto simp: fresh_item_def)
  have fi3: "fresh_item e F M w s p ?w s2"
    by (rule fresh_upd [OF fi2]) (use ok in \<open>auto simp: setObjIdx_def item_len_def item_ok_def\<close>)
  obtain FL3 where FL3: "sh e (with_item e ?w p F) (M + item_maps e p (mem ?w p)) ?w s2 FL3" and ok3: "item_ok e (mem ?w p)"
    and I3: "slots s2 = slots s" "scount s2 = scount s" "tombs s2 = tombs s" "kv ?w s2 = kv w s" and pR: "p \<notin> refs (slots s)"
    using fi3 by (auto simp: fresh_item_def)
  have idx: "objIdx (mem ?w p) = i"
  proof -
    have l4: "length (put32 i) = 4" by (simp add: put32_def)
    have "iklen (mem w1 p) + length (put32 i) \<le> length (ibytes (mem w1 p))" using ok N by (auto simp: item_ok_def l4)
    from drop_write_at [OF this] have "take 4 (drop (iklen (mem w1 p)) (write_at (ibytes (mem w1 p)) (iklen (mem w1 p)) (put32 i))) = put32 i"
      by (simp only: l4)
    then have "get32 (drop (iklen (mem w1 p)) (write_at (ibytes (mem w1 p)) (iklen (mem w1 p)) (put32 i))) = get32 (put32 i)"
      by (metis get32_take)
    then show ?thesis using get32_put32 [of i "[]"] O by (simp add: objIdx_def setObjIdx_def)
  qed
  have it: "ityp (mem ?w p) = typ" "ivlen (mem ?w p) = 4" "iexp (mem ?w p) = 0" "key_at ?w p = key"
    using N by (auto simp: setObjIdx_def key_at_def item_key_def take_write_at)
  have obk: "obj_ok ?w s2 p" unfolding obj_ok_iff using O it(1,2) idx ob by auto
  have fo: "fresh_obj ?w s2 p"
  proof -
    have "objIdx (mem ?w b) \<noteq> i" if "b \<in> refs (slots s2)" "ityp (mem ?w b) \<noteq> typStr" for b
    proof -
      have "b \<noteq> p" "b \<in> refs (slots s1)" using that(1) pR I I3 by auto
      then show ?thesis using O that(2) by auto
    qed
    then show ?thesis using obk unfolding fresh_obj_def idx by blast
  qed
  have hk: "hashKey e key = hashKey e (key_at ?w p)" by (simp only: it(4))
  have new: "kv ?w s2 (key_at ?w p) = None" using found_new [OF f] I3(4) it(4) by simp
  have ins: "ins_ok (slots s2) (home (length (slots s2)) (hashKey e key)) (the ins)" using found_new [OF f] I3(1) by simp
  have rm: "scount s2 + tombs s2 + 1 < int (length (slots s2))" using room(1) I3 by (simp add: has_room_def)
  have ii: "insert_item (the ins) (hashKey e key) p ?w s2 = (w', s')" using rest no by simp
  note R = insert_ok [OF FL3 ok3 fo hk ins new rm ii]
  have "entry ?w s2 p = (obj_val ob, 0)" using container_entry(1) [of s2 ?w p ob] O idx it ob(2) by simp
  moreover have "framed F w s w' s'" using R fresh_framed [OF fi3] framed_trans by blast
  moreover have "kv w' s' = (kv w s)(key \<mapsto> entry ?w s2 p)" using R I3(4) it(4) by simp
  moreover have "shard_inv e F M w' s'" "p \<in> refs (slots s')" "mem w' = mem ?w" "objs s' = objs s2" using R by (auto simp: shard_inv_def)
  moreover have "key_at w' p = key_at ?w p" by (simp only: key_at_def \<open>mem w' = mem ?w\<close>)
  ultimately show ?thesis using it idx O by simp
qed

text \<open>Changing the object of a container in place, with its cost.\<close>

lemma upd_obj_ok:
  assumes sh: "shard_inv e F M w s" and a: "a \<in> refs (slots s)" and old: "objs s ! objIdx (mem w a) = Some ob" "ityp (mem w a) = obj_typ ob"
    and new: "obj_inv ob'" "obj_typ ob' = obj_typ ob"
    and r: "addUsed (obj_cost ob' - obj_cost ob) w (s\<lparr>objs := (objs s)[objIdx (mem w a) := Some ob']\<rparr>) = (w', s')"
  shows "shard_inv e F M w' s' \<and> kv w' s' = (kv w s)(key_at w a \<mapsto> (obj_val ob', iexp (mem w a))) \<and> framed F w s w' s'
    \<and> slots s' = slots s \<and> mem w' = mem w \<and> objs s' = (objs s)[objIdx (mem w a) := Some ob']"
proof -
  obtain FL where FL: "sh e F M w s FL" using sh by (auto simp: shard_inv_def)
  note D = shD [OF FL]
  let ?i = "objIdx (mem w a)" and ?d = "obj_cost ob' - obj_cost ob"
  have ns: "ityp (mem w a) \<noteq> typStr" using old(2) by (auto simp: obj_typ_def split: obj.splits)
  have i: "?i < length (objs s)" "ivlen (mem w a) = 4" using D(7) [OF a] ns by (auto simp: obj_ok_def)
  have w': "w' = fst (addUsed ?d w (s\<lparr>objs := (objs s)[?i := Some ob']\<rparr>))"
    and s': "s' = s\<lparr>objs := (objs s)[?i := Some ob'], used := used s + ?d\<rparr>"
    using r addUsed_simps(9) [of ?d w "s\<lparr>objs := (objs s)[?i := Some ob']\<rparr>"] by auto
  have m: "mem w' = mem w" by (simp add: w')
  then have m': "mem w' = (mem w)(a := mem w a)" by simp
  have cell: "same_cell e (mem w a) (mem w a)" using D(6) [OF a] by (simp add: same_cell_def)
  have o': "objs s' ! objIdx (mem w' a) = Some ob'" "ityp (mem w' a) = obj_typ ob'" using i old new by (simp_all add: s' m)
  note ce = container_entry [OF o'] and ce0 = container_entry [OF old]
  have obk: "obj_ok w' s' a" unfolding obj_ok_iff using o' i new(1) by (auto simp: m s')
  have hp: "same_heap w w'" by (simp add: w' same_heap_def)
  have sc: "same_cells s s'" by (simp add: s' same_cells_def)
  have "sh e F M w' s' FL \<and> kv w' s' = (kv w s)(key_at w a \<mapsto> entry w' s' a) \<and> (\<forall>b. b \<noteq> a \<longrightarrow> mem w' b = mem w b)
      \<and> (\<forall>b. 0 < F b \<longrightarrow> mem w' b = mem w b)"
    by (rule touch_ok [OF FL a m' cell hp sc _ obk, where ob = ob']) (use ns ce(2) ce0(2) in \<open>simp_all add: m\<close>, simp_all add: s')
  then show ?thesis using ce(1) by (auto simp: shard_inv_def framed_def m) (simp_all add: s' w')
qed

end
