(* ===== verification/Store.thy ===== *)
theory Store
  imports Shard_Cmds
begin

text \<open>
  The store as a whole: the 256 shards over one process memory
  (\<open>redis/impl/go-1/store.go\<close>, \<open>shards\<close> and \<open>shardOf\<close>), its invariant, and the lifting of shard
  operations to the keyspace. Then the operations that touch every shard: flushing, the expiry sweep
  and eviction.
\<close>

section \<open>The store and its invariant\<close>

record store =
  proc :: world
  shards :: "shard list"

definition put_shard :: "store \<Rightarrow> nat \<Rightarrow> world \<Rightarrow> shard \<Rightarrow> store" where
  "put_shard d i w s = d\<lparr>proc := w, shards := (shards d)[i := s]\<rparr>"

definition local_ok :: "env \<Rightarrow> world \<Rightarrow> shard \<Rightarrow> (nat \<Rightarrow> nat list) \<Rightarrow> bool" where
  "local_ok e w s FL \<longleftrightarrow> index_ok e w s \<and> acct_ok w s \<and> items_ok e w s \<and> objs_ok w s
     \<and> cells_ok (mem w) (free s) (bumps s) FL"

definition own :: "env \<Rightarrow> world \<Rightarrow> shard \<Rightarrow> (nat \<Rightarrow> nat list) \<Rightarrow> nat \<Rightarrow> nat" where
  "own e w s FL x = live_cov e (mem w) (refs (slots s)) x + free_cov FL x + bump_cov (bumps s) x"

definition own_maps :: "env \<Rightarrow> world \<Rightarrow> shard \<Rightarrow> (nat \<times> nat) multiset" where
  "own_maps e w s = live_maps e (mem w) (refs (slots s))"

definition shards_ok :: "env \<Rightarrow> world \<Rightarrow> shard list \<Rightarrow> (nat \<Rightarrow> nat \<Rightarrow> nat list) \<Rightarrow> bool" where
  "shards_ok e w ss FLs \<longleftrightarrow> length ss = nShards \<and> (\<forall>i < nShards. local_ok e w (ss ! i) (FLs i))
     \<and> heap_ok w (\<lambda>x. \<Sum>i < nShards. own e w (ss ! i) (FLs i) x) (\<Sum>i < nShards. own_maps e w (ss ! i))"

text \<open>Every key is in the shard its hash selects, and the global counter is the sum over the shards.\<close>

definition routed :: "env \<Rightarrow> world \<Rightarrow> shard list \<Rightarrow> bool" where
  "routed e w ss \<longleftrightarrow> (\<forall>i < nShards. \<forall>k \<in> dom (kv w (ss ! i)). shard_idx (hashKey e k) = i)"

definition metered :: "world \<Rightarrow> shard list \<Rightarrow> bool" where
  "metered w ss \<longleftrightarrow> (maxMemory w > 0 \<longrightarrow> globalUsed w = (\<Sum>i < nShards. used (ss ! i)))"

definition store_inv :: "env \<Rightarrow> store \<Rightarrow> bool" where
  "store_inv e d \<longleftrightarrow> os_ok e \<and> (\<exists>FLs. shards_ok e (proc d) (shards d) FLs)
     \<and> routed e (proc d) (shards d) \<and> metered (proc d) (shards d)"

text \<open>The keyspace of the store.\<close>

definition db :: "env \<Rightarrow> store \<Rightarrow> keyspace" where
  "db e d k = kv (proc d) (shards d ! shard_idx (hashKey e k)) k"

section \<open>Lifting\<close>

lemma shard_idx_less: "shard_idx h < nShards"
proof -
  have "pow2 256" unfolding pow2_def by (rule exI [of _ 8]) simp
  from and_mask_mod [OF this, of h] show ?thesis by (simp add: shard_idx_def nShards_def)
qed

lemma sh_local:
  "sh e F M w s FL \<longleftrightarrow> local_ok e w s FL \<and> heap_ok w (\<lambda>x. F x + own e w s FL x) (M + own_maps e w s)"
  unfolding sh_def local_ok_def own_def own_maps_def by (simp add: add.assoc)

definition others :: "env \<Rightarrow> world \<Rightarrow> shard list \<Rightarrow> (nat \<Rightarrow> nat \<Rightarrow> nat list) \<Rightarrow> nat \<Rightarrow> nat \<Rightarrow> nat" where
  "others e w ss FLs i x = (\<Sum>j \<in> {..<nShards} - {i}. own e w (ss ! j) (FLs j) x)"

definition others_maps :: "env \<Rightarrow> world \<Rightarrow> shard list \<Rightarrow> nat \<Rightarrow> (nat \<times> nat) multiset" where
  "others_maps e w ss i = (\<Sum>j \<in> {..<nShards} - {i}. own_maps e w (ss ! j))"

lemma shards_ok_focus:
  assumes "i < nShards"
  shows "heap_ok w (\<lambda>x. \<Sum>j < nShards. own e w (ss ! j) (FLs j) x) (\<Sum>j < nShards. own_maps e w (ss ! j))
    \<longleftrightarrow> heap_ok w (\<lambda>x. others e w ss FLs i x + own e w (ss ! i) (FLs i) x) (others_maps e w ss i + own_maps e w (ss ! i))"
proof -
  have i: "i \<in> {..<nShards}" using assms by simp
  show ?thesis
    unfolding others_def others_maps_def sum.remove [OF finite_lessThan i] by (simp add: add.commute)
qed

lemma shards_ok_shard:
  assumes "shards_ok e w ss FLs" "i < nShards"
  shows "sh e (others e w ss FLs i) (others_maps e w ss i) w (ss ! i) (FLs i)"
  using assms shards_ok_focus [OF assms(2)] by (auto simp: shards_ok_def sh_local)

lemma own_le_others: "j < nShards \<Longrightarrow> j \<noteq> i \<Longrightarrow> own e w (ss ! j) (FLs j) x \<le> others e w ss FLs i x"
  unfolding others_def by (rule member_le_sum) auto

text \<open>A shard whose memory is left alone keeps everything.\<close>

lemma local_frame:
  assumes ok: "local_ok e w s FL" and same: "\<And>a. 0 < own e w s FL a \<Longrightarrow> mem w' a = mem w a"
  shows "local_ok e w' s FL" "own e w' s FL = own e w s FL" "own_maps e w' s = own_maps e w s" "kv w' s = kv w s"
proof -
  let ?R = "refs (slots s)"
  have live: "mem w' b = mem w b" if b: "b \<in> ?R" for b
  proof (rule same)
    have "item_ok e (mem w b)" using ok b by (simp add: local_ok_def items_ok_def)
    then show "0 < own e w s FL b"
      using live_cov_remove [OF finite_refs b, of e "mem w" b] hdr_pos by (simp add: own_def)
  qed
  have idle: "mem w' b = mem w b" if "0 < free_cov FL b" for b using that by (intro same) (simp add: own_def)
  have cells: "cells_ok (mem w') (free s) (bumps s) FL"
  proof -
    have "cells_ok (mem w) (free s) (bumps s) FL" using ok by (simp add: local_ok_def)
    from cells_ok_cong [OF this idle] show ?thesis .
  qed
  have un: "cost w' s b = cost w s b" "entry w' s b = entry w s b" "obj_ok w' s b" "key_at w' b = key_at w b" if b: "b \<in> ?R" for b
  proof -
    have o: "obj_ok w s b" using ok b by (simp add: local_ok_def items_ok_def)
    have pre: "ityp (mem w b) \<noteq> typStr \<Longrightarrow> objs s ! objIdx (mem w b) = objs s ! objIdx (mem w b) \<and> objIdx (mem w b) < length (objs s)"
      using o by (auto simp: obj_ok_def)
    note u = untouched [OF live [OF b] o pre]
    show "cost w' s b = cost w s b" by (rule u(1))
    show "entry w' s b = entry w s b" by (rule u(2))
    show "obj_ok w' s b" by (rule u(3))
    show "key_at w' b = key_at w b" using live [OF b] by (simp add: key_at_def)
  qed
  have tbl: "tbl_ok (hashKey e) (key_at w) (slots s)" using ok by (simp add: local_ok_def index_ok_def)
  then have tbl': "tbl_ok (hashKey e) (key_at w') (slots s)" using refs_cong [OF _ tbl, of "key_at w'"] un(4) by simp
  have "{b \<in> ?R. iexp (mem w' b) \<noteq> 0} = {b \<in> ?R. iexp (mem w b) \<noteq> 0}" "{b \<in> ?R. ityp (mem w' b) \<noteq> typStr} = {b \<in> ?R. ityp (mem w b) \<noteq> typStr}"
    using live by auto
  moreover have "inj_on (\<lambda>b. objIdx (mem w' b)) {b \<in> ?R. ityp (mem w b) \<noteq> typStr}
      = inj_on (\<lambda>b. objIdx (mem w b)) {b \<in> ?R. ityp (mem w b) \<noteq> typStr}"
    using live by (intro inj_on_cong) auto
  ultimately show "local_ok e w' s FL"
    using ok tbl' un live cells by (simp add: local_ok_def index_ok_def acct_ok_def items_ok_def objs_ok_def)
  show "own e w' s FL = own e w s FL" using live_cong [of ?R e "mem w'" "mem w"] live by (simp add: own_def fun_eq_iff)
  show "own_maps e w' s = own_maps e w s" unfolding own_maps_def using live by (intro live_maps_cong) simp
  show "kv w' s = kv w s"
    by (rule map_eqI) (simp add: kv_iff [OF tbl] kv_iff [OF tbl'] un)
qed

lemma shards_ok_update:
  assumes ok: "shards_ok e w ss FLs" and i: "i < nShards"
    and s': "shard_inv e (others e w ss FLs i) (others_maps e w ss i) w' s'"
    and fr: "framed (others e w ss FLs i) w (ss ! i) w' s'"
  shows "\<exists>FLs'. shards_ok e w' (ss[i := s']) FLs'" "\<And>j. j < nShards \<Longrightarrow> j \<noteq> i \<Longrightarrow> kv w' (ss ! j) = kv w (ss ! j)"
proof -
  obtain FL where FL: "sh e (others e w ss FLs i) (others_maps e w ss i) w' s' FL" using s' by (auto simp: shard_inv_def)
  let ?ss = "ss[i := s']" and ?FLs = "FLs(i := FL)"
  have len: "length ss = nShards" using ok by (simp add: shards_ok_def)
  have j: "local_ok e w' (ss ! j) (FLs j)" "own e w' (ss ! j) (FLs j) = own e w (ss ! j) (FLs j)"
    "own_maps e w' (ss ! j) = own_maps e w (ss ! j)" "kv w' (ss ! j) = kv w (ss ! j)" if "j < nShards" "j \<noteq> i" for j
  proof -
    have l: "local_ok e w (ss ! j) (FLs j)" using ok that by (simp add: shards_ok_def)
    have m: "mem w' a = mem w a" if "0 < own e w (ss ! j) (FLs j) a" for a
      using fr own_le_others [OF \<open>j < nShards\<close> \<open>j \<noteq> i\<close>, of e w ss FLs a] that by (simp add: framed_def)
    show "local_ok e w' (ss ! j) (FLs j)" "own e w' (ss ! j) (FLs j) = own e w (ss ! j) (FLs j)"
      "own_maps e w' (ss ! j) = own_maps e w (ss ! j)" "kv w' (ss ! j) = kv w (ss ! j)"
      using local_frame [OF l, of w'] m by blast+
  qed
  then show "\<And>j. j < nShards \<Longrightarrow> j \<noteq> i \<Longrightarrow> kv w' (ss ! j) = kv w (ss ! j)" by blast
  have "others e w' ?ss ?FLs i = others e w ss FLs i" "others_maps e w' ?ss i = others_maps e w ss i"
    using j(2,3) by (auto simp: others_def others_maps_def fun_eq_iff intro!: sum.cong)
  then have "heap_ok w' (\<lambda>x. others e w' ?ss ?FLs i x + own e w' (?ss ! i) (?FLs i) x) (others_maps e w' ?ss i + own_maps e w' (?ss ! i))"
    using FL i len by (simp add: sh_local)
  moreover have "local_ok e w' (?ss ! k) (?FLs k)" if "k < nShards" for k
    using j(1) [of k] FL that len by (cases "k = i") (simp_all add: sh_local)
  ultimately have "shards_ok e w' ?ss ?FLs" using len shards_ok_focus [OF i, of w' e ?ss ?FLs] by (simp add: shards_ok_def)
  then show "\<exists>FLs'. shards_ok e w' (ss[i := s']) FLs'" by blast
qed

lemma store_update:
  assumes inv: "store_inv e d" and i: "i < nShards"
    and op: "\<And>F M. shard_inv e F M (proc d) (shards d ! i) \<Longrightarrow> shard_inv e F M w' s' \<and> framed F (proc d) (shards d ! i) w' s'"
    and dom: "\<And>k. k \<in> dom (kv w' s') \<Longrightarrow> shard_idx (hashKey e k) = i"
  shows "store_inv e (put_shard d i w' s')"
    "db e (put_shard d i w' s') k = (if shard_idx (hashKey e k) = i then kv w' s' k else db e d k)"
    "maxMemory w' = maxMemory (proc d)"
proof -
  let ?w = "proc d" and ?ss = "shards d"
  obtain FLs where ok: "shards_ok e ?w ?ss FLs" using inv by (auto simp: store_inv_def)
  have "shard_inv e (others e ?w ?ss FLs i) (others_maps e ?w ?ss i) ?w (?ss ! i)"
    using shards_ok_shard [OF ok i] by (auto simp: shard_inv_def)
  note o = op [OF this]
  note up = shards_ok_update [OF ok i conjunct1 [OF o] conjunct2 [OF o]]
  have len: "length ?ss = nShards" using ok by (simp add: shards_ok_def)
  show mm: "maxMemory w' = maxMemory (proc d)" using o by (simp add: framed_def)
  have "routed e w' (?ss[i := s'])"
    unfolding routed_def
  proof (intro allI impI ballI)
    fix j k assume j: "j < nShards" and k: "k \<in> dom (kv w' (?ss[i := s'] ! j))"
    have r: "\<forall>k \<in> dom (kv ?w (?ss ! j)). shard_idx (hashKey e k) = j" using inv j by (simp add: store_inv_def routed_def)
    show "shard_idx (hashKey e k) = j"
    proof (cases "j = i")
      case True
      then show ?thesis using dom [of k] k j len by simp
    next
      case False
      then show ?thesis using r up(2) [OF j False] k by simp
    qed
  qed
  moreover have "metered w' (?ss[i := s'])"
  proof -
    have "(\<Sum>j < nShards. used (?ss[i := s'] ! j)) = (\<Sum>j < nShards. used (?ss ! j)) + (used s' - used (?ss ! i))"
      using sum_change [of "{..<nShards}" i "\<lambda>j. used (?ss[i := s'] ! j)" "\<lambda>j. used (?ss ! j)"] i len by simp
    then show ?thesis using inv o by (auto simp: metered_def store_inv_def framed_def)
  qed
  ultimately show "store_inv e (put_shard d i w' s')"
    using inv up(1) by (simp add: store_inv_def put_shard_def)
  show "db e (put_shard d i w' s') k = (if shard_idx (hashKey e k) = i then kv w' s' k else db e d k)"
    using up(2) [OF shard_idx_less, of "hashKey e k"] len i by (simp add: db_def put_shard_def nth_list_update)
qed

text \<open>An operation on one key of a shard.\<close>

definition shard_op :: "env \<Rightarrow> bytes \<Rightarrow> (nat \<Rightarrow> nat) \<Rightarrow> (nat \<times> nat) multiset \<Rightarrow> world \<Rightarrow> shard \<Rightarrow> world \<Rightarrow> shard
    \<Rightarrow> (rval \<times> int) option \<Rightarrow> bool" where
  "shard_op e key F M w s w' s' v \<longleftrightarrow> shard_inv e F M w' s' \<and> framed F w s w' s' \<and> kv w' s' = (kv w s)(key := v)"

lemma shard_op_trans:
  "shard_op e key F M w s w1 s1 v1 \<Longrightarrow> shard_op e key F M w1 s1 w2 s2 v2 \<Longrightarrow> shard_op e key F M w s w2 s2 v2"
  unfolding shard_op_def using framed_trans by fastforce

lemma store_step:
  assumes inv: "store_inv e d"
    and op: "\<And>F M. shard_inv e F M (proc d) (shards d ! shard_idx (hashKey e key)) \<Longrightarrow>
      shard_op e key F M (proc d) (shards d ! shard_idx (hashKey e key)) w' s' v"
  shows "store_inv e (put_shard d (shard_idx (hashKey e key)) w' s')
    \<and> db e (put_shard d (shard_idx (hashKey e key)) w' s') = (db e d)(key := v) \<and> maxMemory w' = maxMemory (proc d)"
proof -
  let ?i = "shard_idx (hashKey e key)"
  have i: "?i < nShards" by (rule shard_idx_less)
  obtain FLs where ok: "shards_ok e (proc d) (shards d) FLs" using inv by (auto simp: store_inv_def)
  have "shard_inv e (others e (proc d) (shards d) FLs ?i) (others_maps e (proc d) (shards d) ?i) (proc d) (shards d ! ?i)"
    using shards_ok_shard [OF ok i] by (auto simp: shard_inv_def)
  then have kv': "kv w' s' = (kv (proc d) (shards d ! ?i))(key := v)" using op by (simp add: shard_op_def)
  have dom: "shard_idx (hashKey e k) = ?i" if "k \<in> dom (kv w' s')" for k
  proof (cases "k = key")
    case False
    then have "k \<in> dom (kv (proc d) (shards d ! ?i))" using that unfolding kv' dom_def by simp
    then show ?thesis using inv i by (auto simp: store_inv_def routed_def)
  qed simp
  have op': "shard_inv e F M w' s' \<and> framed F (proc d) (shards d ! ?i) w' s'"
    if "shard_inv e F M (proc d) (shards d ! ?i)" for F M using op [OF that] by (simp add: shard_op_def)
  have up: "store_inv e (put_shard d ?i w' s')" "maxMemory w' = maxMemory (proc d)"
    "db e (put_shard d ?i w' s') k = (if shard_idx (hashKey e k) = ?i then kv w' s' k else db e d k)" for k
    using store_update [OF inv i, of w' s'] op' dom by blast+
  have "db e (put_shard d ?i w' s') = (db e d)(key := v)"
    by (rule ext, unfold up(3)) (auto simp: kv' db_def)
  then show ?thesis using up(1,2) by blast
qed

section \<open>The empty store\<close>

definition init_store :: "int \<Rightarrow> store" where
  "init_store mm = \<lparr>proc = \<lparr>mem = \<lambda>_. zero_item 0, maps = [], chunks = [], acur = 0, aend = 0, globalUsed = 0,
     maxMemory = mm, draws = 0\<rparr>, shards = replicate nShards init_shard\<rparr>"

lemma empty_refs8 [simp]: "refs (replicate 8 SEmpty) = {}" "n_tombs (replicate 8 SEmpty) = 0" "addrs (replicate 8 SEmpty) = []"
  using set_addrs [of "replicate 8 SEmpty"] by (simp_all add: empty_table(2,3))

lemma no_cover: "free_cov (\<lambda>_. []) x = 0" "bump_cov (replicate 80 (0, 0)) x = 0"
  by (simp_all add: free_cov_def bump_cov_def nClasses_def region_def)

lemma empty_shard_local:
  assumes "slots s = replicate 8 SEmpty" "scount s = 0" "tombs s = 0" "nexp s = 0" "used s = 0"
    "free s = replicate 80 0" "bumps s = replicate 80 (0, 0)" "objs s = []" "freeObjs s = []"
  shows "local_ok e w s (\<lambda>_. [])" "own e w s (\<lambda>_. []) x = 0" "own_maps e w s = {#}" "kv w s = Map.empty"
proof -
  have "tbl_ok (hashKey e) (key_at w) (replicate 8 SEmpty)" by (rule empty_table(1)) simp
  then show "local_ok e w s (\<lambda>_. [])"
    using assms by (simp add: local_ok_def index_ok_def acct_ok_def items_ok_def objs_ok_def cells_ok_def nClasses_def)
  show "own e w s (\<lambda>_. []) x = 0" using assms by (simp add: own_def no_cover live_cov_def)
  show "own_maps e w s = {#}" using assms by (simp add: own_maps_def live_maps_def)
  show "kv w s = Map.empty" using assms by (simp add: kv_def)
qed

lemma init_store_inv: "os_ok e \<Longrightarrow> store_inv e (init_store mm) \<and> db e (init_store mm) = Map.empty"
proof -
  assume os: "os_ok e"
  let ?w = "proc (init_store mm)" and ?ss = "shards (init_store mm)"
  have s: "?ss ! i = init_shard" if "i < nShards" for i using that by (simp add: init_store_def)
  note E = empty_shard_local [of init_shard]
  have "shards_ok e ?w ?ss (\<lambda>_ _. [])"
    using E(1-3) [of e ?w] s by (simp add: shards_ok_def init_store_def init_shard_def heap_ok_def region_def)
  moreover have kv0: "kv ?w (?ss ! i) = Map.empty" if "i < nShards" for i
    using E(4) [of ?w] s [OF that] by (simp add: init_shard_def)
  moreover have "metered ?w ?ss" by (simp add: metered_def s) (simp add: init_store_def init_shard_def)
  ultimately show ?thesis using os shard_idx_less by (auto simp: store_inv_def routed_def db_def)
qed

end
