(* ===== verification/Store_Upkeep.thy ===== *)
theory Store_Upkeep
  imports Store
begin

text \<open>
  What the server does to the store on its own: the expiry sweep, eviction under \<open>MAXMEMORY\<close>, and
  flushing (\<open>expiryLoop\<close>, \<open>evict\<close>, \<open>flush\<close> in \<open>store.go\<close>, \<open>arenaReset\<close> in \<open>alloc.go\<close>, \<open>cmdFlushall\<close> in
  \<open>commands.go\<close>).
\<close>

section \<open>The expiry sweep\<close>

text \<open>Only entries that are past their time at \<open>T\<close> have gone.\<close>

definition aged :: "int \<Rightarrow> keyspace \<Rightarrow> keyspace \<Rightarrow> bool" where
  "aged T m m' \<longleftrightarrow> (\<forall>k. m' k = m k \<or> m' k = None \<and> live T m k = None)"

lemma aged_refl [simp]: "aged T m m"
  by (simp add: aged_def)

lemma aged_trans: "aged T m m1 \<Longrightarrow> aged T m1 m2 \<Longrightarrow> aged T m m2"
proof -
  assume a: "aged T m m1" "aged T m1 m2"
  show ?thesis unfolding aged_def
  proof
    fix k
    have "m1 k = m k \<or> m1 k = None \<and> live T m k = None" "m2 k = m1 k \<or> m2 k = None \<and> live T m1 k = None"
      using a by (auto simp: aged_def)
    then show "m2 k = m k \<or> m2 k = None \<and> live T m k = None" by (auto simp: live_def)
  qed
qed

lemma aged_live:
  assumes "aged T m m'"
  shows "live T m' = live T m" "m' \<subseteq>\<^sub>m m"
proof -
  have k: "m' k = m k \<or> m' k = None \<and> live T m k = None" for k using assms by (simp add: aged_def)
  show "live T m' = live T m"
  proof
    fix x show "live T m' x = live T m x" using k [of x] by (auto simp: live_def)
  qed
  show "m' \<subseteq>\<^sub>m m" unfolding map_le_def
  proof
    fix x assume "x \<in> dom m'" then show "m' x = m x" using k [of x] by auto
  qed
qed

lemma live_mono: "live T m k = None \<Longrightarrow> T \<le> U \<Longrightarrow> live U m k = None"
  by (auto simp: live_def split: option.splits if_splits)

lemma expCur_irrelevant:
  "kv w (s\<lparr>expCur := c\<rparr>) = kv w s" "sh e F M w (s\<lparr>expCur := c\<rparr>) FL = sh e F M w s FL"
  "framed F w s w' (s'\<lparr>expCur := c\<rparr>) = framed F w s w' s'" "framed F w (s\<lparr>expCur := c\<rparr>) w' s' = framed F w s w' s'"
proof -
  have c: "cost w (s\<lparr>expCur := c\<rparr>) b = cost w s b" "entry w (s\<lparr>expCur := c\<rparr>) b = entry w s b"
    "obj_ok w (s\<lparr>expCur := c\<rparr>) b = obj_ok w s b" for b
    by (simp_all add: cost_def entry_def val_of_def list_at_item_def hash_at_item_def obj_ok_def Let_def)
  show "kv w (s\<lparr>expCur := c\<rparr>) = kv w s" by (simp add: kv_def c)
  show "sh e F M w (s\<lparr>expCur := c\<rparr>) FL = sh e F M w s FL"
    by (simp add: sh_def index_ok_def acct_ok_def items_ok_def objs_ok_def c)
qed (simp_all add: framed_def)

lemma shard_inv_expCur [simp]: "shard_inv e F M w (s\<lparr>expCur := c\<rparr>) = shard_inv e F M w s"
  by (simp add: shard_inv_def expCur_irrelevant)

definition sweeps :: "env \<Rightarrow> int \<Rightarrow> (nat \<Rightarrow> nat) \<Rightarrow> (nat \<times> nat) multiset \<Rightarrow> world \<Rightarrow> shard \<Rightarrow> world \<Rightarrow> shard \<Rightarrow> bool" where
  "sweeps e T F M w s w' s' \<longleftrightarrow> shard_inv e F M w' s' \<and> framed F w s w' s' \<and> aged T (kv w s) (kv w' s')"

lemma sweeps_trans: "sweeps e T F M w s w1 s1 \<Longrightarrow> sweeps e T F M w1 s1 w2 s2 \<Longrightarrow> sweeps e T F M w s w2 s2"
  unfolding sweeps_def using framed_trans aged_trans by blast

lemma sweep_one_ok:
  assumes inv: "shard_inv e F M w s" and T: "now \<le> T" and r: "sweep_one e now w s = (w', s')"
  shows "sweeps e T F M w s w' s'"
proof -
  define s1 where "s1 = (if expCur s \<ge> length (slots s) then s\<lparr>expCur := 0\<rparr> else s)"
  obtain FL where FL: "sh e F M w s1 FL" using inv by (auto simp: s1_def shard_inv_def expCur_irrelevant)
  have kv1: "kv w s1 = kv w s" "framed F w s1 w2 s2 = framed F w s w2 s2" for w2 s2
    by (simp_all add: s1_def expCur_irrelevant)
  have "pow2 (length (slots s1))" using shD(1) [OF FL] by (simp add: tbl_ok_def)
  then have "0 < length (slots s1)" by (rule pow2_pos)
  then have cur: "expCur s1 < length (slots s1)" by (auto simp: s1_def)
  show ?thesis
  proof (cases "\<exists>t a. slots s1 ! expCur s1 = SRef t a \<and> iexp (mem w a) \<noteq> 0 \<and> iexp (mem w a) \<le> now")
    case True
    then obtain t a where a: "slots s1 ! expCur s1 = SRef t a" "iexp (mem w a) \<noteq> 0" "iexp (mem w a) \<le> now" by blast
    then have at: "ref_at (slots s1) (expCur s1) a" using cur by (auto simp: ref_at_def)
    obtain w2 s2 where d: "del e (expCur s1) a w s1 = (w2, s2)" by fastforce
    have rr: "w' = w2" "s' = s2\<lparr>expCur := expCur s2 + 1\<rparr>"
      using r a d by (auto simp: sweep_one_def s1_def [symmetric] Let_def)
    note dl = del_ok [OF FL at d]
    have "kv w s1 (key_at w a) = Some (entry w s1 a)" using kv_iff [OF shD(1) [OF FL]] at by (auto simp: refs_def)
    then have "live now (kv w s) (key_at w a) = None" using a kv1(1) by (simp add: live_def entry_def)
    then have "live T (kv w s) (key_at w a) = None" using live_mono T by blast
    then show ?thesis using dl kv1 by (auto simp: sweeps_def rr expCur_irrelevant aged_def)
  next
    case False
    then have rr: "w' = w" "s' = s1\<lparr>expCur := expCur s1 + 1\<rparr>"
      using r by (auto simp: sweep_one_def s1_def [symmetric] Let_def split: slot.splits if_splits)
    have "framed F w s w s1" by (simp add: s1_def expCur_irrelevant)
    then show ?thesis using rr inv kv1(1) FL by (auto simp: sweeps_def expCur_irrelevant shard_inv_def)
  qed
qed

lemma sweep_batch_ok:
  "shard_inv e F M w s \<Longrightarrow> now \<le> T \<Longrightarrow> sweep_batch e now n budget w s = (b, w', s') \<Longrightarrow> sweeps e T F M w s w' s'"
proof (induction e now n budget w s rule: sweep_batch.induct)
  case (1 e now n w s)
  then show ?case by (simp add: sweeps_def)
next
  case (2 e now n budget w s)
  show ?case
  proof (cases "n < 1024")
    case True
    obtain w1 s1 where o: "sweep_one e now w s = (w1, s1)" by fastforce
    note s1 = sweep_one_ok [OF 2(2,3) o]
    have "sweeps e T F M w1 s1 w' s'"
      by (rule 2(1) [OF True o [symmetric] refl]) (use s1 2(3,4) True o in \<open>auto simp: sweeps_def\<close>)
    then show ?thesis using s1 sweeps_trans by blast
  next
    case False
    then show ?thesis using 2 by (simp add: sweeps_def)
  qed
qed

lemma shrink_idle_ok:
  assumes "shard_inv e F M w s"
  shows "sweeps e T F M w s w (shrink_idle e w s)"
proof -
  obtain FL where FL: "sh e F M w s FL" using assms by (auto simp: shard_inv_def)
  show ?thesis using rehash_step [OF FL] FL
    by (auto simp: shrink_idle_def grow0_def sweeps_def shard_inv_def framed_def)
qed

lemma sweep_loop_ok:
  "shard_inv e F M w s \<Longrightarrow> (\<And>k. clock k \<le> T) \<Longrightarrow> sweep_loop e clock k budget w s = (w', s') \<Longrightarrow> sweeps e T F M w s w' s'"
proof (induction e clock k budget w s rule: sweep_loop.induct)
  case (1 e clock k budget w s)
  show ?case
  proof (cases "budget > 0")
    case True
    obtain b w1 s1 where b: "sweep_batch e (clock k) 0 budget w s = (b, w1, s1)" by (metis prod_cases3)
    note s1 = sweep_batch_ok [OF 1(2) 1(3) b]
    then have s2: "sweeps e T F M w1 s1 w1 (shrink_idle e w1 s1)" by (intro shrink_idle_ok) (simp add: sweeps_def)
    have "sweep_loop e clock (k + 1) b w1 (shrink_idle e w1 s1) = (w', s')"
      using 1(4) True b by (subst (asm) sweep_loop.simps) simp
    from 1(1) [OF True b [symmetric] refl refl _ 1(3) this] s2 have "sweeps e T F M w1 (shrink_idle e w1 s1) w' s'"
      by (simp add: sweeps_def)
    then show ?thesis using s1 s2 sweeps_trans by blast
  next
    case False
    then have "w' = w" "s' = s" using 1(4) by (simp_all add: sweep_loop.simps)
    then show ?thesis using 1(2) by (simp add: sweeps_def)
  qed
qed

lemma expiry_shard_ok:
  "shard_inv e F M w s \<Longrightarrow> (\<And>k. clock k \<le> T) \<Longrightarrow> expiry_shard e clock w s = (w', s') \<Longrightarrow> sweeps e T F M w s w' s'"
  unfolding expiry_shard_def using shrink_idle_ok sweep_loop_ok by (metis prod.inject)

text \<open>One tick of \<open>expiryLoop\<close>: the shards one after the other; \<open>clock i k\<close> is the time read for
  batch \<open>k\<close> of shard \<open>i\<close>.\<close>

definition expiry_at :: "env \<Rightarrow> (nat \<Rightarrow> nat \<Rightarrow> int) \<Rightarrow> store \<Rightarrow> nat \<Rightarrow> store" where
  "expiry_at e clock d i =
     (let (w, s) = expiry_shard e (clock i) (proc d) (shards d ! i) in put_shard d i w s)"

definition expiry_tick :: "env \<Rightarrow> (nat \<Rightarrow> nat \<Rightarrow> int) \<Rightarrow> store \<Rightarrow> store" where
  "expiry_tick e clock d = foldl (expiry_at e clock) d [0..<nShards]"

lemma expiry_at_ok:
  assumes inv: "store_inv e d" and i: "i < nShards" and T: "\<And>k. clock i k \<le> T"
  shows "store_inv e (expiry_at e clock d i) \<and> aged T (db e d) (db e (expiry_at e clock d i))"
proof -
  let ?w = "proc d" and ?s = "shards d ! i"
  obtain w' s' where r: "expiry_shard e (clock i) ?w ?s = (w', s')" by fastforce
  have op: "sweeps e T F M ?w ?s w' s'" if "shard_inv e F M ?w ?s" for F M
    using expiry_shard_ok [OF that, of "clock i" T w' s'] T r by blast
  obtain FLs where "shards_ok e ?w (shards d) FLs" using inv by (auto simp: store_inv_def)
  from shards_ok_shard [OF this i] op have ag: "aged T (kv ?w ?s) (kv w' s')" by (auto simp: shard_inv_def sweeps_def)
  have "shard_idx (hashKey e k) = i" if "k \<in> dom (kv w' s')" for k
  proof -
    have "k \<in> dom (kv ?w ?s)" using that aged_live(2) [OF ag] by (meson map_le_implies_dom_le subsetD)
    then show ?thesis using inv i by (auto simp: store_inv_def routed_def)
  qed
  then have up: "store_inv e (put_shard d i w' s')"
    "db e (put_shard d i w' s') k = (if shard_idx (hashKey e k) = i then kv w' s' k else db e d k)" for k
    using store_update [OF inv i, of w' s'] op by (auto simp: sweeps_def)
  have "aged T (db e d) (db e (put_shard d i w' s'))"
    unfolding aged_def up(2) using ag by (auto simp: aged_def db_def live_def)
  then show ?thesis using up(1) r by (simp add: expiry_at_def)
qed

lemma foldl_expiry_ok:
  "store_inv e d \<Longrightarrow> (\<And>i k. clock i k \<le> T) \<Longrightarrow> \<forall>i \<in> set is. i < nShards \<Longrightarrow>
     store_inv e (foldl (expiry_at e clock) d is) \<and> aged T (db e d) (db e (foldl (expiry_at e clock) d is))"
proof (induction "is" arbitrary: d)
  case (Cons i "is")
  have s: "store_inv e (expiry_at e clock d i) \<and> aged T (db e d) (db e (expiry_at e clock d i))"
    using expiry_at_ok [OF Cons.prems(1), of i clock T] Cons.prems(2,3) by simp
  have "store_inv e (foldl (expiry_at e clock) (expiry_at e clock d i) is)
      \<and> aged T (db e (expiry_at e clock d i)) (db e (foldl (expiry_at e clock) (expiry_at e clock d i) is))"
    using Cons.IH [of "expiry_at e clock d i"] s Cons.prems(2,3) by simp
  then show ?case using s aged_trans by auto
qed simp

section \<open>Eviction\<close>

definition rand_ok :: "env \<Rightarrow> bool" where
  "rand_ok e \<longleftrightarrow> (\<forall>k n. 0 < n \<longrightarrow> randIntN e k n < n)"

lemma store_inv_draws:
  "store_inv e (d\<lparr>proc := (proc d)\<lparr>draws := n\<rparr>\<rparr>) = store_inv e d" "db e (d\<lparr>proc := (proc d)\<lparr>draws := n\<rparr>\<rparr>) = db e d"
proof -
  have c: "cost (w\<lparr>draws := n\<rparr>) s b = cost w s b" "entry (w\<lparr>draws := n\<rparr>) s b = entry w s b"
    "obj_ok (w\<lparr>draws := n\<rparr>) s b = obj_ok w s b" "key_at (w\<lparr>draws := n\<rparr>) = key_at w" for w s b
    by (auto simp: cost_def entry_def val_of_def list_at_item_def hash_at_item_def obj_ok_def key_at_def Let_def)
  have l: "local_ok e (w\<lparr>draws := n\<rparr>) s FL = local_ok e w s FL" "own e (w\<lparr>draws := n\<rparr>) s FL = own e w s FL"
    "own_maps e (w\<lparr>draws := n\<rparr>) s = own_maps e w s" "kv (w\<lparr>draws := n\<rparr>) s = kv w s" for w s FL
    by (simp_all add: local_ok_def index_ok_def acct_ok_def items_ok_def objs_ok_def own_def own_maps_def kv_def c fun_eq_iff)
  have h: "heap_ok (w\<lparr>draws := n\<rparr>) T M = heap_ok w T M" for w T M by (simp add: heap_ok_def)
  show "store_inv e (d\<lparr>proc := (proc d)\<lparr>draws := n\<rparr>\<rparr>) = store_inv e d"
    by (simp add: store_inv_def shards_ok_def routed_def metered_def l h)
  show "db e (d\<lparr>proc := (proc d)\<lparr>draws := n\<rparr>\<rparr>) = db e d" by (simp add: db_def l fun_eq_iff)
qed

lemma next_slot_less: "pow2 n \<Longrightarrow> next_slot n i < n"
  by (simp add: next_slot_mod pow2_pos mod_less_divisor)

definition evictable :: "world \<Rightarrow> slot list \<Rightarrow> bytes list \<Rightarrow> (nat \<times> nat \<times> nat) option \<Rightarrow> bool" where
  "evictable w sl protect best \<longleftrightarrow>
     (\<forall>i l a. best = Some (i, l, a) \<longrightarrow> ref_at sl i a \<and> key_at w a \<notin> set protect)"

lemma isProtected_iff: "isProtected k protect \<longleftrightarrow> k \<in> set protect"
  by (induction protect) (auto simp: isProtected_def)

lemma evict_scan_ok:
  "pow2 (length sl) \<Longrightarrow> i < length sl \<Longrightarrow> evictable w sl protect best \<Longrightarrow>
     evictable w sl protect (evict_scan w sl protect k i sampled best)"
proof (induction w sl protect k i sampled best rule: evict_scan.induct)
  case (2 w sl protect k i sampled best)
  note nx = next_slot_less [OF "2.prems"(1), of i]
  show ?case
  proof (cases "sampled < 16")
    case True
    show ?thesis
    proof (cases "sl ! i")
      case (SRef t a)
      show ?thesis
      proof (cases "isProtected (key_at w a) protect")
        case True
        then show ?thesis using "2.IH"(4) [OF \<open>sampled < 16\<close> SRef] SRef nx "2.prems" True \<open>sampled < 16\<close> by simp
      next
        case False
        let ?b = "case best of None \<Rightarrow> Some (i, ilru (mem w a), a)
          | Some (bi, bl, ba) \<Rightarrow> if ilru (mem w a) < bl then Some (i, ilru (mem w a), a) else best"
        have "evictable w sl protect ?b"
          using "2.prems"(2,3) SRef False by (auto simp: evictable_def ref_at_def isProtected_iff split: option.splits)
        then show ?thesis using "2.IH"(3) [OF \<open>sampled < 16\<close> SRef False] SRef nx "2.prems"(1) False \<open>sampled < 16\<close> by simp
      qed
    qed (use 2 nx True in auto)
  qed (use 2 in simp)
qed simp

definition n_items :: "store \<Rightarrow> nat" where
  "n_items d = (\<Sum>i < nShards. card (refs (slots (shards d ! i))))"

text \<open>One eviction: a key that is stored and not protected goes, or nothing changes.\<close>

definition evicts :: "env \<Rightarrow> bytes list \<Rightarrow> store \<Rightarrow> bool \<Rightarrow> store \<Rightarrow> bool" where
  "evicts e protect d b d' \<longleftrightarrow> store_inv e d' \<and> maxMemory (proc d') = maxMemory (proc d)
     \<and> (if b then n_items d' + 1 = n_items d \<and> (\<exists>k. k \<notin> set protect \<and> db e d' = (db e d)(k := None))
        else n_items d' = n_items d \<and> db e d' = db e d)"

lemma n_items_put:
  assumes "i < nShards" "length (shards d) = nShards"
  shows "n_items (put_shard d i w s) + card (refs (slots (shards d ! i))) = n_items d + card (refs (slots s))"
  using sum_upd [of "{..<nShards}" i "\<lambda>j. card (refs (slots (shards (put_shard d i w s) ! j)))" "\<lambda>j. card (refs (slots (shards d ! j)))"] assms
  by (simp add: n_items_def put_shard_def)

lemma evict_del_ok:
  assumes inv: "store_inv e d" and i: "i < nShards" and at: "ref_at (slots (shards d ! i)) idx a"
    and np: "key_at (proc d) a \<notin> set protect" and r: "del e idx a (proc d) (shards d ! i) = (w', s')"
  shows "evicts e protect d True (put_shard d i w' s')"
proof -
  let ?w = "proc d" and ?s = "shards d ! i"
  obtain FLs where ok: "shards_ok e ?w (shards d) FLs" using inv by (auto simp: store_inv_def)
  note FL = shards_ok_shard [OF ok i]
  note D = shD [OF FL]
  have a: "a \<in> refs (slots ?s)" using at by (auto simp: refs_def)
  have "kv ?w ?s (key_at ?w a) = Some (entry ?w ?s a)" using kv_iff [OF D(1)] a by blast
  then have k: "shard_idx (hashKey e (key_at ?w a)) = i" using inv i by (auto simp: store_inv_def routed_def)
  have op: "shard_op e (key_at ?w a) F M ?w ?s w' s' None" if "shard_inv e F M ?w ?s" for F M
    using that del_ok [OF _ at r] by (auto simp: shard_op_def shard_inv_def)
  have st: "store_inv e (put_shard d i w' s') \<and> db e (put_shard d i w' s') = (db e d)(key_at ?w a := None) \<and> maxMemory w' = maxMemory ?w"
    using store_step [OF inv, of "key_at ?w a" w' s' None] op by (simp add: k)
  have "refs (slots s') = refs (slots ?s) - {a}"
    using del_ok [OF FL at r] tbl_clear(2) [OF D(1) at] by simp
  then have "card (refs (slots s')) + 1 = card (refs (slots ?s))" using card_Suc_Diff1 [OF finite_refs a] by simp
  moreover have "length (shards d) = nShards" using ok by (simp add: shards_ok_def)
  ultimately have "n_items (put_shard d i w' s') + 1 = n_items d" using n_items_put [OF i, of d w' s'] by simp
  then show ?thesis using st np by (auto simp: evicts_def put_shard_def)
qed

lemma store_draw:
  "d\<lparr>proc := snd (draw e n (proc d))\<rparr> = d\<lparr>proc := (proc d)\<lparr>draws := draws (proc d) + 1\<rparr>\<rparr>"
  by (simp add: draw_def)

lemma evicts_draw:
  assumes "evicts e protect (d\<lparr>proc := snd (draw e n (proc d))\<rparr>) b d'"
  shows "evicts e protect d b d'"
  using assms by (cases b) (simp_all add: evicts_def store_draw store_inv_draws n_items_def)

lemma store_shard_pow2: "store_inv e d \<Longrightarrow> i < nShards \<Longrightarrow> pow2 (length (slots (shards d ! i)))"
  by (auto simp: store_inv_def shards_ok_def local_ok_def index_ok_def tbl_ok_def)

lemma evict_tries_ok:
  assumes rd: "rand_ok e"
  shows "store_inv e d \<Longrightarrow> evict_tries e protect k (proc d) (shards d) = (b, w', shs') \<Longrightarrow>
    evicts e protect d b (d\<lparr>proc := w', shards := shs'\<rparr>)"
proof (induction k arbitrary: d)
  case 0
  then have eq: "d\<lparr>proc := w', shards := shs'\<rparr> = d" and "\<not> b" by auto
  then show ?case using 0(1) unfolding eq by (simp add: evicts_def)
next
  case (Suc k)
  define si where "si = fst (draw e nShards (proc d))"
  define d1 where "d1 = d\<lparr>proc := snd (draw e nShards (proc d))\<rparr>"
  have si: "si < nShards" using rd by (simp add: si_def draw_def rand_ok_def nShards_def)
  have inv1: "store_inv e d1" using Suc.prems(1) by (simp add: d1_def store_draw store_inv_draws)
  let ?s = "shards d ! si"
  show ?case
  proof (cases "scount ?s = 0")
    case True
    then have "evict_tries e protect k (proc d1) (shards d1) = (b, w', shs')"
      using Suc.prems(2) by (simp add: si_def d1_def Let_def split: prod.splits)
    from Suc.IH [OF inv1 this] show ?thesis by (intro evicts_draw [where d = d and n = nShards]) (simp add: d1_def)
  next
    case False
    let ?n = "length (slots ?s)"
    define i where "i = fst (draw e ?n (proc d1))"
    define d2 where "d2 = d1\<lparr>proc := snd (draw e ?n (proc d1))\<rparr>"
    have inv2: "store_inv e d2" using inv1 by (simp add: d2_def store_draw store_inv_draws)
    have p2: "pow2 ?n" by (rule store_shard_pow2 [OF Suc.prems(1) si])
    then have i: "i < ?n" using rd pow2_pos [OF p2] by (simp add: i_def draw_def rand_ok_def)
    have sh2: "shards d2 = shards d" by (simp add: d2_def d1_def)
    let ?best = "evict_scan (proc d2) (slots ?s) protect ?n i 0 None"
    have ev: "evict_tries e protect (Suc k) (proc d) (shards d) = (case ?best of
        Some (bi, bl, ba) \<Rightarrow> let (w3, s3) = del e bi ba (proc d2) ?s in (True, w3, (shards d)[si := s3])
      | None \<Rightarrow> evict_tries e protect k (proc d2) (shards d))"
    proof -
      have "draw e nShards (proc d) = (si, proc d1)" "draw e ?n (proc d1) = (i, proc d2)"
        by (simp_all add: si_def d1_def i_def d2_def)
      then show ?thesis using False by (simp add: Let_def)
    qed
    have undraw: "evicts e protect d b d'" if "evicts e protect d2 b d'" for b and d'
      using evicts_draw [where d = d and n = nShards and b = b and d' = d'] evicts_draw [where d = d1 and n = "?n" and b = b and d' = d'] that by (simp add: d1_def d2_def)
    show ?thesis
    proof (cases ?best)
      case None
      then have "evict_tries e protect k (proc d2) (shards d2) = (b, w', shs')" using Suc.prems(2) ev sh2 by simp
      from Suc.IH [OF inv2 this] show ?thesis by (intro undraw) (simp add: d2_def d1_def)
    next
      case (Some x)
      obtain bi bl ba where x: "x = (bi, bl, ba)" by (cases x)
      have ok: "evictable (proc d2) (slots ?s) protect ?best" by (rule evict_scan_ok [OF p2 i]) (simp add: evictable_def)
      obtain w3 s3 where d: "del e bi ba (proc d2) ?s = (w3, s3)" by fastforce
      have r: "b = True" "d\<lparr>proc := w', shards := shs'\<rparr> = put_shard d2 si w3 s3"
        using Suc.prems(2) ev Some x d by (auto simp: put_shard_def d2_def d1_def)
      have "ref_at (slots (shards d2 ! si)) bi ba" "key_at (proc d2) ba \<notin> set protect"
        using ok Some x by (auto simp: evictable_def sh2)
      from evict_del_ok [OF inv2 si this] d show ?thesis unfolding r by (intro undraw) (simp add: sh2)
    qed
  qed
qed

definition survives :: "env \<Rightarrow> bytes list \<Rightarrow> store \<Rightarrow> store \<Rightarrow> bool" where
  "survives e protect d d' \<longleftrightarrow> store_inv e d' \<and> maxMemory (proc d') = maxMemory (proc d)
     \<and> (\<exists>R. R \<inter> set protect = {} \<and> db e d' = (db e d) |` (- R))"

lemma survives_trans: "survives e protect d d1 \<Longrightarrow> survives e protect d1 d2 \<Longrightarrow> survives e protect d d2"
proof -
  assume a: "survives e protect d d1" "survives e protect d1 d2"
  then obtain R R1 where "R \<inter> set protect = {}" "db e d1 = (db e d) |` (- R)" "R1 \<inter> set protect = {}" "db e d2 = (db e d1) |` (- R1)"
    by (auto simp: survives_def)
  then have "(R \<union> R1) \<inter> set protect = {}" "db e d2 = (db e d) |` (- (R \<union> R1))" by (auto simp: Int_commute)
  then have "\<exists>R. R \<inter> set protect = {} \<and> db e d2 = (db e d) |` (- R)" by blast
  then show ?thesis using a by (simp add: survives_def)
qed

lemma survives_refl: "store_inv e d \<Longrightarrow> survives e protect d d"
  by (auto simp: survives_def restrict_map_def intro!: exI [of _ "{}"])

lemma evicts_survives: "evicts e protect d b d' \<Longrightarrow> survives e protect d d'"
proof -
  assume a: "evicts e protect d b d'"
  have "\<exists>R. R \<inter> set protect = {} \<and> db e d' = (db e d) |` (- R)"
  proof (cases b)
    case True
    then obtain k where "k \<notin> set protect" "db e d' = (db e d)(k := None)" using a by (auto simp: evicts_def)
    then show ?thesis by (intro exI [of _ "{k}"]) (auto simp: restrict_map_def fun_eq_iff)
  next
    case False
    then show ?thesis using a by (intro exI [of _ "{}"]) (simp add: evicts_def restrict_map_def)
  qed
  then show ?thesis using a by (simp add: survives_def evicts_def)
qed

lemma evict_loop_ok:
  assumes rd: "rand_ok e"
  shows "store_inv e d \<Longrightarrow> n_items d < k \<Longrightarrow>
    \<exists>w' shs'. evict_loop e protect k (proc d) (shards d) = Some (w', shs')
      \<and> survives e protect d (d\<lparr>proc := w', shards := shs'\<rparr>)
      \<and> (globalUsed w' \<le> maxMemory w' \<or> (\<exists>d1. survives e protect d d1 \<and> evictOne e protect (proc d1) (shards d1) = (False, w', shs')))"
proof (induction k arbitrary: d)
  case (Suc k)
  obtain b w1 shs1 where ev: "evictOne e protect (proc d) (shards d) = (b, w1, shs1)" by (metis prod_cases3)
  let ?d1 = "d\<lparr>proc := w1, shards := shs1\<rparr>"
  have step: "evicts e protect d b ?d1" using evict_tries_ok [OF rd Suc.prems(1)] ev by (simp add: evictOne_def)
  have self: "survives e protect d d" by (rule survives_refl [OF Suc.prems(1)])
  show ?case
  proof (cases "globalUsed (proc d) > maxMemory (proc d)")
    case over: True
    show ?thesis
    proof (cases b)
      case True
      then have "store_inv e ?d1" "n_items ?d1 < k" using step Suc.prems(2) by (auto simp: evicts_def)
      from Suc.IH [OF this] obtain w' shs' where
        "evict_loop e protect k w1 shs1 = Some (w', shs')" "survives e protect ?d1 (?d1\<lparr>proc := w', shards := shs'\<rparr>)"
        "globalUsed w' \<le> maxMemory w' \<or> (\<exists>d2. survives e protect ?d1 d2 \<and> evictOne e protect (proc d2) (shards d2) = (False, w', shs'))"
        by auto
      then show ?thesis using over True ev survives_trans [OF evicts_survives [OF step]] by auto
    next
      case False
      then show ?thesis using over ev evicts_survives [OF step] self by auto
    qed
  next
    case False
    then show ?thesis using self by auto
  qed
qed simp

lemma n_items_fuel: "store_inv e d \<Longrightarrow> n_items d < evict_fuel (shards d)"
proof -
  assume inv: "store_inv e d"
  then have len: "length (shards d) = nShards" by (auto simp: store_inv_def shards_ok_def)
  have "card (refs (slots (shards d ! i))) \<le> length (slots (shards d ! i))" if "i < nShards" for i
  proof -
    have "tbl_ok (hashKey e) (key_at (proc d)) (slots (shards d ! i))"
      using inv that by (auto simp: store_inv_def shards_ok_def local_ok_def index_ok_def)
    from card_refs [OF this] show ?thesis by simp
  qed
  then have "n_items d \<le> (\<Sum>i < nShards. length (slots (shards d ! i)))" unfolding n_items_def by (intro sum_mono) simp
  also have "\<dots> = (\<Sum>s \<leftarrow> shards d. length (slots s))"
    by (simp add: sum_list_sum_nth len atLeast0LessThan)
  finally show ?thesis by (simp add: evict_fuel_def)
qed

section \<open>Flushing\<close>

definition empty_shard :: "shard \<Rightarrow> bool" where
  "empty_shard s \<longleftrightarrow> slots s = replicate 8 SEmpty \<and> scount s = 0 \<and> tombs s = 0 \<and> nexp s = 0 \<and> used s = 0
     \<and> free s = replicate 80 0 \<and> bumps s = replicate 80 (0, 0) \<and> objs s = [] \<and> freeObjs s = []"

definition free_big_slot :: "env \<Rightarrow> world \<times> shard \<Rightarrow> slot \<Rightarrow> world \<times> shard" where
  "free_big_slot e = (\<lambda>(w, s) v. case v of
     SRef t a \<Rightarrow> if icls (mem w a) = clsBig then freeItem e w s a else (w, s)
   | _ \<Rightarrow> (w, s))"

lemma free_big_fold:
  "heap_ok w (\<lambda>x. F x + live_cov e (mem w) (set (addrs vs)) x) (M + live_maps e (mem w) (set (addrs vs))) \<Longrightarrow>
   distinct (addrs vs) \<Longrightarrow> foldl (free_big_slot e) (w, s) vs = (w', s') \<Longrightarrow>
   s' = s \<and> mem w' = mem w \<and> same_counters w w' \<and> heap_ok w' F M"
proof (induction vs arbitrary: w)
  case Nil
  then show ?case by (auto simp: same_counters_def live_cov_def live_maps_def)
next
  case (Cons v vs)
  show ?case
  proof (cases v)
    case (SRef t a)
    let ?A = "set (addrs vs)"
    have a: "a \<notin> ?A" "distinct (addrs vs)" using Cons.prems(2) SRef by auto
    have h: "heap_ok w (\<lambda>x. F x + live_cov e (mem w) ?A x + region a (item_len e (mem w a)) x)
        (M + live_maps e (mem w) ?A + item_maps e a (mem w a))"
      using Cons.prems(1) SRef a by (simp add: ac_simps)
    show ?thesis
    proof (cases "icls (mem w a) = clsBig")
      case True
      let ?w = "munmap w a (item_len e (mem w a))"
      have m: "mem ?w = mem w" by (simp add: munmap_def)
      have "heap_ok ?w (\<lambda>x. F x + live_cov e (mem w) ?A x) (M + live_maps e (mem w) ?A)"
        by (rule munmap_ok) (use h True in \<open>simp add: item_maps_def big_maps_def\<close>)
      moreover have "foldl (free_big_slot e) (?w, s) vs = (w', s')"
        using Cons.prems(3) SRef True by (simp add: free_big_slot_def freeItem_def item_len_def cell_len_def Let_def)
      ultimately show ?thesis using Cons.IH [of ?w] a(2) by (simp add: m) (simp add: same_counters_def munmap_def)
    next
      case False
      have "heap_ok w (\<lambda>x. F x + live_cov e (mem w) ?A x) (M + live_maps e (mem w) ?A)"
        using heap_ok_mono [OF h, of "\<lambda>x. F x + live_cov e (mem w) ?A x"] False by (simp add: item_maps_def big_maps_def)
      then show ?thesis using Cons.IH [of w] a(2) Cons.prems(3) SRef False by (simp add: free_big_slot_def)
    qed
  qed (use Cons in \<open>auto simp: free_big_slot_def\<close>)
qed

lemma flush_shard_fold:
  "flush_shard e w s = (let (w1, s1) = foldl (free_big_slot e) (w, s) (slots s); (w2, s2) = addUsed (- used s1) w1 s1
     in (w2, s2\<lparr>slots := replicate 8 SEmpty, scount := 0, tombs := 0, nexp := 0, expCur := 0,
          free := replicate 80 0, bumps := replicate 80 (0, 0), objs := [], freeObjs := []\<rparr>))"
  by (simp add: flush_shard_def free_big_slot_def)

lemma flush_shard_ok:
  assumes inv: "shard_inv e F M w s" and r: "flush_shard e w s = (w', s')"
  shows "shard_inv e F M w' s' \<and> framed F w s w' s' \<and> empty_shard s' \<and> kv w' s' = Map.empty"
proof -
  obtain FL where FL: "sh e F M w s FL" using inv by (auto simp: shard_inv_def)
  note D = shD [OF FL]
  obtain w1 s1 where f: "foldl (free_big_slot e) (w, s) (slots s) = (w1, s1)" by fastforce
  have "heap_ok w (\<lambda>x. F x + live_cov e (mem w) (set (addrs (slots s))) x) (M + live_maps e (mem w) (set (addrs (slots s))))"
    using heap_ok_mono [OF D(10), of "\<lambda>x. F x + live_cov e (mem w) (refs (slots s)) x"] by (simp add: set_addrs)
  moreover have "distinct (addrs (slots s))" using distinct_addrs [OF D(1)] by (simp add: distinct_map)
  ultimately have R: "s1 = s" "mem w1 = mem w" "same_counters w w1" "heap_ok w1 F M" using free_big_fold f by blast+
  obtain w2 s2 where u: "addUsed (- used s) w1 s = (w2, s2)" by fastforce
  then have u': "w2 = fst (addUsed (- used s) w1 s)" "s2 = s\<lparr>used := 0\<rparr>" using addUsed_simps(9) [of "- used s" w1 s] by auto
  have w': "w' = w2" and s': "s' = s2\<lparr>slots := replicate 8 SEmpty, scount := 0, tombs := 0, nexp := 0, expCur := 0,
          free := replicate 80 0, bumps := replicate 80 (0, 0), objs := [], freeObjs := []\<rparr>"
    using r unfolding flush_shard_fold f Let_def case_prod_conv R(1) u by auto
  have emp: "empty_shard s'" by (simp add: s' u' empty_shard_def)
  note E = empty_shard_local [where s = s']
  have "heap_ok w' F M" using heap_ok_cong [OF R(4), of w'] by (simp add: w' u')
  then have "sh e F M w' s' (\<lambda>_. [])" using E emp by (simp add: sh_local empty_shard_def)
  moreover have "framed F w s w' s'" using R(2,3) by (auto simp: framed_def same_counters_def w' s' u')
  ultimately show ?thesis using emp E(4) by (auto simp: shard_inv_def empty_shard_def)
qed

definition flush_at :: "env \<Rightarrow> store \<Rightarrow> nat \<Rightarrow> store" where
  "flush_at e d i = (let (w, s) = flush_shard e (proc d) (shards d ! i) in put_shard d i w s)"

definition flush_store :: "env \<Rightarrow> store \<Rightarrow> store" where
  "flush_store e d = (let d1 = foldl (flush_at e) d [0..<nShards] in d1\<lparr>proc := arenaReset (proc d1)\<rparr>)"

lemma flush_at_ok:
  assumes inv: "store_inv e d" and i: "i < nShards"
  shows "store_inv e (flush_at e d i) \<and> empty_shard (shards (flush_at e d i) ! i) \<and> maxMemory (proc (flush_at e d i)) = maxMemory (proc d)
    \<and> (\<forall>j. j \<noteq> i \<longrightarrow> shards (flush_at e d i) ! j = shards d ! j)"
proof -
  obtain w' s' where r: "flush_shard e (proc d) (shards d ! i) = (w', s')" by fastforce
  obtain FLs where ok: "shards_ok e (proc d) (shards d) FLs" using inv by (auto simp: store_inv_def)
  have op: "shard_inv e F M w' s' \<and> framed F (proc d) (shards d ! i) w' s' \<and> empty_shard s' \<and> kv w' s' = Map.empty"
    if "shard_inv e F M (proc d) (shards d ! i)" for F M using flush_shard_ok [OF that r] .
  have k: "empty_shard s'" "kv w' s' = Map.empty" using op shards_ok_shard [OF ok i] by (auto simp: shard_inv_def)
  have "store_inv e (put_shard d i w' s')" "maxMemory w' = maxMemory (proc d)"
    using store_update [OF inv i, of w' s'] op k(2) by auto
  then show ?thesis using k i ok r by (auto simp: flush_at_def put_shard_def shards_ok_def)
qed

lemma flush_fold_ok:
  "store_inv e d \<Longrightarrow> n \<le> nShards \<Longrightarrow>
     store_inv e (foldl (flush_at e) d [0..<n]) \<and> maxMemory (proc (foldl (flush_at e) d [0..<n])) = maxMemory (proc d)
     \<and> (\<forall>i < n. empty_shard (shards (foldl (flush_at e) d [0..<n]) ! i))"
proof (induction n)
  case (Suc n)
  let ?d = "foldl (flush_at e) d [0..<n]"
  have IH: "store_inv e ?d" "maxMemory (proc ?d) = maxMemory (proc d)" "\<forall>i < n. empty_shard (shards ?d ! i)" using Suc by auto
  have "n < nShards" using Suc.prems by simp
  from flush_at_ok [OF IH(1) this] IH show ?case by (auto simp: less_Suc_eq)
qed simp

lemma foldl_munmap: "foldl (\<lambda>w (p, n). munmap w p n) w cs = w\<lparr>maps := foldl (\<lambda>ms c. remove1 c ms) (maps w) cs\<rparr>"
  by (induction cs arbitrary: w) (auto simp: munmap_def)

lemma foldl_remove1: "mset xs = mset cs \<Longrightarrow> foldl (\<lambda>ms c. remove1 c ms) xs cs = []"
proof (induction cs arbitrary: xs)
  case (Cons c cs)
  then have "mset (remove1 c xs) = mset cs" by simp
  then show ?case using Cons.IH by simp
qed simp

lemma flush_store_ok:
  assumes inv: "store_inv e d"
  shows "store_inv e (flush_store e d) \<and> db e (flush_store e d) = Map.empty \<and> maps (proc (flush_store e d)) = []
    \<and> (\<forall>i < nShards. empty_shard (shards (flush_store e d) ! i)) \<and> maxMemory (proc (flush_store e d)) = maxMemory (proc d)"
proof -
  define d1 where "d1 = foldl (flush_at e) d [0..<nShards]"
  have F: "store_inv e d1" "maxMemory (proc d1) = maxMemory (proc d)" "\<forall>i < nShards. empty_shard (shards d1 ! i)"
    using flush_fold_ok [OF inv, of nShards] by (auto simp: d1_def)
  obtain FLs where ok: "shards_ok e (proc d1) (shards d1) FLs" using F(1) by (auto simp: store_inv_def)
  let ?w = "arenaReset (proc d1)"
  have d': "flush_store e d = d1\<lparr>proc := ?w\<rparr>" by (simp add: flush_store_def d1_def Let_def)
  have E: "local_ok e w (shards d1 ! i) (\<lambda>_. [])" "own e w (shards d1 ! i) (\<lambda>_. []) x = 0" "own_maps e w (shards d1 ! i) = {#}"
    "kv w (shards d1 ! i) = Map.empty" "used (shards d1 ! i) = 0" if "i < nShards" for i w x
    using empty_shard_local [where s = "shards d1 ! i"] F(3) that by (auto simp: empty_shard_def)
  have "mset (maps (proc d1)) = mset (chunks (proc d1))" using ok E(3) by (simp add: shards_ok_def heap_ok_def)
  then have maps: "maps ?w = []" by (simp add: arenaReset_def foldl_munmap foldl_remove1)
  have rest: "maxMemory ?w = maxMemory (proc d1)" "globalUsed ?w = globalUsed (proc d1)" "chunks ?w = []" "acur ?w = 0" "aend ?w = 0"
    by (simp_all add: arenaReset_def foldl_munmap)
  have "shards_ok e ?w (shards d1) (\<lambda>_ _. [])"
    using ok E(1-3) by (simp add: shards_ok_def heap_ok_def maps rest region_def)
  moreover have "routed e ?w (shards d1)" using E(4) by (simp add: routed_def)
  moreover have "metered ?w (shards d1)" using F(1) by (simp add: metered_def store_inv_def rest)
  ultimately have "store_inv e (flush_store e d)" using F(1) by (auto simp: store_inv_def d')
  moreover have "db e (flush_store e d) = Map.empty" using E(4) [OF shard_idx_less] by (simp add: db_def d' fun_eq_iff)
  ultimately show ?thesis using maps rest F(2,3) by (simp add: d')
qed

section \<open>Claims\<close>

text \<open>A concrete environment: every key hashes to 0, mappings are stacked behind each other.\<close>

definition test_env :: env where
  "test_env = \<lparr>hashKey = \<lambda>_. 0, mmapAt = \<lambda>ms n. 4096 + sum_list (map (\<lambda>(a, m). a + m) ms), pageSize = 4096,
     startMs = 0, randIntN = \<lambda>k n. 0, mapOrder = \<lambda>xs. xs\<rparr>"

lemma cover_stacked: "4096 + sum_list (map (\<lambda>(a, m). a + m) ms) \<le> x \<Longrightarrow> cover ms x = 0"
  by (induction ms arbitrary: x) (auto simp: region_def)

lemma test_env_ok: "os_ok test_env" "rand_ok test_env"
proof -
  have "pow2 4096" unfolding pow2_def by (rule exI [of _ 12]) simp
  then show "os_ok test_env" using cover_stacked by (auto simp: os_ok_def test_env_def)
  show "rand_ok test_env" by (simp add: rand_ok_def test_env_def)
qed

lemma test_store_inv: "store_inv test_env (init_store mm)" "db test_env (init_store mm) = Map.empty"
  using init_store_inv [OF test_env_ok(1)] by auto

text \<open>\<^bold>\<open>C28\<close> The expiry sweep is safe. A tick over all shards, at whatever times its batches read the clock,
  keeps the store invariant (so also the accounting of memory, of expiring keys and of tombstones), removes
  only keys whose time has passed by the last reading, and does not change what any client sees from then on.\<close>

theorem expiry_sweep_safe:
  assumes "store_inv e d" "\<And>i k. clock i k \<le> T"
  shows "store_inv e (expiry_tick e clock d) \<and> db e (expiry_tick e clock d) \<subseteq>\<^sub>m db e d
    \<and> live T (db e (expiry_tick e clock d)) = live T (db e d)"
proof -
  have "\<forall>i \<in> set [0..<nShards]. i < nShards" by simp
  note F = foldl_expiry_ok [OF assms this]
  show ?thesis unfolding expiry_tick_def
    using conjunct1 [OF F] aged_live [OF conjunct2 [OF F]] by (intro conjI)
qed

theorem expiry_sweep_safe_witness: "db test_env (expiry_tick test_env (\<lambda>i k. 5) (init_store 0)) = Map.empty"
proof -
  have "db test_env (expiry_tick test_env (\<lambda>i k. 5) (init_store 0)) \<subseteq>\<^sub>m Map.empty"
    using expiry_sweep_safe [OF test_store_inv(1), of "\<lambda>i k. 5" 5 0] test_store_inv(2) [of 0] by simp
  then show ?thesis by (rule map_le_antisym [OF _ map_le_empty])
qed



text \<open>\<^bold>\<open>C30\<close> \<open>FLUSHALL\<close> leaks nothing. Flushing all shards and resetting the arena leaves an empty keyspace with
  zero counters, and every mapping the process ever made for items is unmapped: the chunks of the arena by
  \<open>arenaReset\<close>, each large item exactly once and with exactly the length it was mapped with.\<close>

theorem flush_releases_everything:
  assumes "store_inv e d"
  shows "store_inv e (flush_store e d) \<and> db e (flush_store e d) = Map.empty \<and> maps (proc (flush_store e d)) = []
    \<and> (maxMemory (proc d) > 0 \<longrightarrow> globalUsed (proc (flush_store e d)) = 0)"
proof -
  note F = flush_store_ok [OF assms]
  have "globalUsed (proc (flush_store e d)) = (\<Sum>i < nShards. used (shards (flush_store e d) ! i))"
    if "maxMemory (proc d) > 0" using F that by (simp add: store_inv_def metered_def)
  then show ?thesis using F by (simp add: empty_shard_def)
qed

theorem flush_releases_everything_witness: "maps (proc (flush_store test_env (init_store 0))) = []"
  using flush_releases_everything [OF test_store_inv(1)] by blast

end
