(* ===== verification/Go_Utf8.thy ===== *)
theory Go_Utf8
  imports Go_Prelude
begin

text \<open>
  UTF-8 as Go's \<open>unicode/utf8\<close> decodes and encodes it, for the places where the programs
  range over the runes of a byte string: \<open>sanitize\<close> in mini-redis, the tokenizer and the JSON
  unescaper of the search engine. An ill-formed sequence decodes to U+FFFD of width one.
\<close>

definition runeError :: nat where "runeError = 0xFFFD"

definition is_cont :: "nat \<Rightarrow> bool" where
  "is_cont b \<longleftrightarrow> 0x80 \<le> b \<and> b \<le> 0xBF"

text \<open>\<open>utf8.DecodeRune\<close>: the rune and its width; one helper per sequence length.\<close>

definition decode2 :: "nat \<Rightarrow> bytes \<Rightarrow> nat \<times> nat" where
  "decode2 b0 cs =
     (case cs of
        c1 # _ \<Rightarrow> if is_cont (bval c1) then ((b0 - 0xC0) * 64 + (bval c1 - 0x80), 2) else (runeError, 1)
      | _ \<Rightarrow> (runeError, 1))"

definition decode3 :: "nat \<Rightarrow> bytes \<Rightarrow> nat \<times> nat" where
  "decode3 b0 cs =
     (case cs of
        c1 # c2 # _ \<Rightarrow>
          if (if b0 = 0xE0 then 0xA0 else 0x80) \<le> bval c1
              \<and> bval c1 \<le> (if b0 = 0xED then 0x9F else 0xBF) \<and> is_cont (bval c2)
          then ((b0 - 0xE0) * 4096 + (bval c1 - 0x80) * 64 + (bval c2 - 0x80), 3)
          else (runeError, 1)
      | _ \<Rightarrow> (runeError, 1))"

definition decode4 :: "nat \<Rightarrow> bytes \<Rightarrow> nat \<times> nat" where
  "decode4 b0 cs =
     (case cs of
        c1 # c2 # c3 # _ \<Rightarrow>
          if (if b0 = 0xF0 then 0x90 else 0x80) \<le> bval c1
              \<and> bval c1 \<le> (if b0 = 0xF4 then 0x8F else 0xBF)
              \<and> is_cont (bval c2) \<and> is_cont (bval c3)
          then ((b0 - 0xF0) * 262144 + (bval c1 - 0x80) * 4096 + (bval c2 - 0x80) * 64
                  + (bval c3 - 0x80), 4)
          else (runeError, 1)
      | _ \<Rightarrow> (runeError, 1))"

definition decode_from :: "nat \<Rightarrow> bytes \<Rightarrow> nat \<times> nat" where
  "decode_from b0 cs =
     (if b0 < 0x80 then (b0, 1)
      else if 0xC2 \<le> b0 \<and> b0 \<le> 0xDF then decode2 b0 cs
      else if 0xE0 \<le> b0 \<and> b0 \<le> 0xEF then decode3 b0 cs
      else if 0xF0 \<le> b0 \<and> b0 \<le> 0xF4 then decode4 b0 cs
      else (runeError, 1))"

fun decode_rune :: "bytes \<Rightarrow> nat \<times> nat" where
  "decode_rune [] = (runeError, 0)"
| "decode_rune (c # cs) = decode_from (bval c) cs"

text \<open>\<open>utf8.AppendRune\<close>: surrogates and values past U+10FFFF are written as U+FFFD.\<close>

definition valid_rune :: "nat \<Rightarrow> bool" where
  "valid_rune r \<longleftrightarrow> r < 0xD800 \<or> (0xE000 \<le> r \<and> r \<le> 0x10FFFF)"

definition encode_valid :: "nat \<Rightarrow> bytes" where
  "encode_valid r =
     (if r < 0x80 then [char_of r]
      else if r < 0x800 then [char_of (0xC0 + r div 64), char_of (0x80 + r mod 64)]
      else if r < 0x10000 then
        [char_of (0xE0 + r div 4096), char_of (0x80 + r div 64 mod 64), char_of (0x80 + r mod 64)]
      else [char_of (0xF0 + r div 262144), char_of (0x80 + r div 4096 mod 64),
            char_of (0x80 + r div 64 mod 64), char_of (0x80 + r mod 64)])"

definition append_rune :: "bytes \<Rightarrow> nat \<Rightarrow> bytes" where
  "append_rune b r = b @ encode_valid (if valid_rune r then r else runeError)"

lemma decode_from_width: "0 < snd (decode_from b0 cs) \<and> snd (decode_from b0 cs) \<le> Suc (length cs)"
proof -
  have "0 < snd (decode2 b0 cs) \<and> snd (decode2 b0 cs) \<le> Suc (length cs)"
    by (simp add: decode2_def split: list.split)
  moreover have "0 < snd (decode3 b0 cs) \<and> snd (decode3 b0 cs) \<le> Suc (length cs)"
    by (simp add: decode3_def split: list.split)
  moreover have "0 < snd (decode4 b0 cs) \<and> snd (decode4 b0 cs) \<le> Suc (length cs)"
    by (simp add: decode4_def split: list.split)
  ultimately show ?thesis by (simp add: decode_from_def)
qed

lemma decode_rune_width: "0 < length b \<Longrightarrow> 0 < snd (decode_rune b) \<and> snd (decode_rune b) \<le> length b"
  by (cases b) (simp_all add: decode_from_width)

text \<open>The runes a \<open>range\<close> loop over the string visits.\<close>

function runes_of :: "bytes \<Rightarrow> nat list" where
  "runes_of b = (if b = [] then [] else fst (decode_rune b) # runes_of (drop (snd (decode_rune b)) b))"
  by pat_completeness auto
termination
proof (relation "measure length")
  fix b :: bytes assume "b \<noteq> []"
  then show "(drop (snd (decode_rune b)) b, b) \<in> measure length"
    using decode_rune_width [of b] by simp
qed simp

declare runes_of.simps [simp del]

lemma runes_of_Nil [simp]: "runes_of [] = []"
  by (subst runes_of.simps) simp

lemma bval_char_of: "n < 256 \<Longrightarrow> bval (char_of n) = n"
  by (simp add: of_char_of)

lemma decode_encode_valid:
  assumes "valid_rune r"
  shows "decode_rune (encode_valid r @ rest) = (r, length (encode_valid r))"
proof -
  consider "r < 0x80" | "0x80 \<le> r" "r < 0x800" | "0x800 \<le> r" "r < 0x10000"
    | "0x10000 \<le> r" "r \<le> 0x10FFFF"
    using assms by (force simp: valid_rune_def)
  then show ?thesis
  proof cases
    case 1
    then show ?thesis by (simp add: encode_valid_def bval_char_of decode_from_def)
  next
    case 2
    then have "r div 64 < 32" "2 \<le> r div 64" "r mod 64 < 64" by auto
    then show ?thesis using 2 by (simp add: encode_valid_def bval_char_of decode_from_def decode2_def is_cont_def)
  next
    case 3
    then have d: "r div 4096 < 16" "r mod 64 < 64" "r div 64 mod 64 < 64" by auto
    have e0: "r div 4096 = 0 \<Longrightarrow> 32 \<le> r div 64 mod 64"
    proof -
      assume "r div 4096 = 0"
      then have "r < 4096" by simp
      then have "r div 64 < 64" "32 \<le> r div 64" using 3 by auto
      then show ?thesis by simp
    qed
    have split: "r div 64 = r div 4096 * 64 + r div 64 mod 64"
      using div_mult_mod_eq [of "r div 64" 64] by (simp add: div_mult2_eq [symmetric])
    have ed: "r div 64 mod 64 < 32" if "r div 4096 = 13"
    proof -
      have "r < 57344" using that by linarith
      then have "r < 55296" using assms by (auto simp: valid_rune_def)
      then have "r div 64 < 864" by auto
      then show ?thesis using split that by linarith
    qed
    have r: "r div 4096 * 4096 + r div 64 mod 64 * 64 + r mod 64 = r"
      using split div_mult_mod_eq [of r 64] by linarith
    define a1 a2 a3 where a: "a1 = r div 4096" "a2 = r div 64 mod 64" "a3 = r mod 64"
    have enc: "encode_valid r = [char_of (0xE0 + a1), char_of (0x80 + a2), char_of (0x80 + a3)]"
      using 3 by (simp add: encode_valid_def a)
    have "a1 < 16" "a2 < 64" "a3 < 64" "a1 = 0 \<Longrightarrow> 32 \<le> a2" "a1 = 13 \<Longrightarrow> a2 < 32"
      "a1 * 4096 + a2 * 64 + a3 = r"
      using d e0 ed r by (simp_all add: a)
    then show ?thesis
      by (auto simp: enc bval_char_of decode_from_def decode3_def is_cont_def)
  next
    case 4
    then have d: "r div 262144 < 5" "r mod 64 < 64" "r div 64 mod 64 < 64" "r div 4096 mod 64 < 64" by auto
    have split: "r div 4096 = r div 262144 * 64 + r div 4096 mod 64"
      "r div 64 = r div 4096 * 64 + r div 64 mod 64"
      using div_mult_mod_eq [of "r div 4096" 64] div_mult_mod_eq [of "r div 64" 64]
      by (simp_all add: div_mult2_eq [symmetric])
    have b: "16 \<le> r div 4096" "r div 4096 < 272" using 4 by auto
    have f0: "r div 262144 = 0 \<Longrightarrow> 16 \<le> r div 4096 mod 64" using b split by linarith
    have f4: "r div 262144 = 4 \<Longrightarrow> r div 4096 mod 64 < 16" using b split by linarith
    have r: "r div 262144 * 262144 + r div 4096 mod 64 * 4096 + r div 64 mod 64 * 64 + r mod 64 = r"
      using split div_mult_mod_eq [of r 64] by linarith
    define a1 a2 a3 a4
      where a: "a1 = r div 262144" "a2 = r div 4096 mod 64" "a3 = r div 64 mod 64" "a4 = r mod 64"
    have enc: "encode_valid r =
        [char_of (0xF0 + a1), char_of (0x80 + a2), char_of (0x80 + a3), char_of (0x80 + a4)]"
      using 4 by (simp add: encode_valid_def a)
    have "a1 < 5" "a2 < 64" "a3 < 64" "a4 < 64" "a1 = 0 \<Longrightarrow> 16 \<le> a2" "a1 = 4 \<Longrightarrow> a2 < 16"
      "a1 * 262144 + a2 * 4096 + a3 * 64 + a4 = r"
      using d f0 f4 r by (simp_all add: a)
    then show ?thesis
      by (auto simp: enc bval_char_of decode_from_def decode4_def is_cont_def)
  qed
qed

lemma runes_of_append_rune:
  assumes "valid_rune r"
  shows "runes_of (encode_valid r @ rest) = r # runes_of rest"
  using decode_encode_valid [OF assms, of rest]
  by (subst runes_of.simps) (auto simp: encode_valid_def)

end
