(* ===== verification/Arg_Parsing.thy ===== *)
theory Arg_Parsing
  imports Go_Utf8
begin

text \<open>
  The argument helpers of \<open>redis/impl/go-1/commands.go\<close>: \<open>parseInt\<close> (the strict decimal
  reader shared by all integer arguments and by \<open>INCR\<close>), \<open>eqFold\<close> (case-insensitive option
  names), the upper-casing of command names in \<open>exec\<close>, and \<open>sanitize\<close> for error texts.
\<close>

section \<open>Integers\<close>

text \<open>The accumulation loop over \<open>uint64\<close>; \<open>b[i] - '0'\<close> is a byte subtraction, so a
  character below \<open>'0'\<close> gives a value above nine.\<close>

fun parse_u64 :: "bytes \<Rightarrow> nat \<Rightarrow> nat option" where
  "parse_u64 [] v = Some v"
| "parse_u64 (c # cs) v =
     (let d = (bval c + 208) mod 256 in
      if d > 9 \<or> v > (2 ^ 64 - 1 - d) div 10 then None else parse_u64 cs (v * 10 + d))"

definition parseInt :: "bytes \<Rightarrow> int option" where
  "parseInt b =
     (if length b = 0 \<or> length b > 20 then None
      else if length b = 1 \<and> b ! 0 = CHR ''0'' then Some 0
      else let neg = (b ! 0 = CHR ''-'') in
        if neg \<and> length b = 1 then None
        else let i = (if neg then 1 else 0) in
          if b ! i < CHR ''1'' \<or> b ! i > CHR ''9'' then None
          else case parse_u64 (drop i b) 0 of
                 None \<Rightarrow> None
               | Some v \<Rightarrow>
                   if neg then (if v > 2 ^ 63 then None else Some (wrap64 (- int v)))
                   else if int v > maxInt64 then None else Some (int v))"

section \<open>Names and texts\<close>

definition upper :: "byte \<Rightarrow> byte" where
  "upper ch = (if CHR ''a'' \<le> ch \<and> ch \<le> CHR ''z'' then char_of (bval ch - 32) else ch)"

definition lower :: "byte \<Rightarrow> byte" where
  "lower ch = (if CHR ''A'' \<le> ch \<and> ch \<le> CHR ''Z'' then char_of (bval ch + 32) else ch)"

definition eqFold :: "bytes \<Rightarrow> bytes \<Rightarrow> bool" where
  "eqFold b s \<longleftrightarrow> length b = length s \<and> (\<forall>i < length b. upper (b ! i) = s ! i)"

definition sanitize :: "bytes \<Rightarrow> bytes" where
  "sanitize b =
     concat (map (\<lambda>r. append_rune [] (if r = 13 \<or> r = 10 then 32 else r)) (runes_of (take 128 b)))"

section \<open>parseInt reads exactly the decimal form of an int64\<close>

definition dec_from :: "nat \<Rightarrow> bytes \<Rightarrow> nat" where
  "dec_from v ds = foldl (\<lambda>n c. n * 10 + digit_val c) v ds"

lemma dec_from_Cons [simp]: "dec_from v (c # cs) = dec_from (v * 10 + digit_val c) cs"
  and dec_from_Nil [simp]: "dec_from v [] = v"
  and dec_from_0: "dec_from 0 ds = dec_val ds"
  by (simp_all add: dec_from_def dec_val_def)

lemma dec_from_ge: "v \<le> dec_from v ds"
proof (induction ds arbitrary: v)
  case (Cons c cs)
  have "v \<le> v * 10 + digit_val c" by simp
  also have "\<dots> \<le> dec_from (v * 10 + digit_val c) cs" by (rule Cons.IH)
  finally show ?case by simp
qed simp

lemma byte_sub_digit:
  "(bval c + 208) mod 256 > 9 \<longleftrightarrow> \<not> is_digit c"
  "is_digit c \<Longrightarrow> (bval c + 208) mod 256 = digit_val c"
proof -
  have b: "bval c < 256" by simp
  show "(bval c + 208) mod 256 > 9 \<longleftrightarrow> \<not> is_digit c"
  proof (cases "bval c < 48")
    case True
    then have "(bval c + 208) mod 256 = bval c + 208" by simp
    with True show ?thesis by (simp add: is_digit_iff)
  next
    case False
    then have "bval c + 208 = (bval c - 48) + 256" by simp
    then have "(bval c + 208) mod 256 = bval c - 48" using b
      by (simp only: mod_add_self2) (simp add: less_imp_diff_less)
    with False show ?thesis by (auto simp: is_digit_iff)
  qed
  show "(bval c + 208) mod 256 = digit_val c" if "is_digit c"
  proof -
    have "bval c + 208 = digit_val c + 256" "digit_val c < 256"
      using that b by (auto simp: is_digit_iff digit_val_def)
    then show ?thesis by (simp only: mod_add_self2) simp
  qed
qed

lemma parse_u64_spec:
  "v < 2 ^ 64 \<Longrightarrow> parse_u64 cs v =
     (if (\<forall>c \<in> set cs. is_digit c) \<and> dec_from v cs < 2 ^ 64 then Some (dec_from v cs) else None)"
proof (induction cs arbitrary: v)
  case (Cons c cs)
  show ?case
  proof (cases "is_digit c")
    case True
    define d where "d = digit_val c"
    have d: "d \<le> 9" using True by (auto simp: d_def is_digit_iff digit_val_def)
    have over: "v > (2 ^ 64 - 1 - d) div 10 \<longleftrightarrow> 2 ^ 64 \<le> v * 10 + d"
      using d by (auto simp: div_less_iff_less_mult)
    show ?thesis
    proof (cases "2 ^ 64 \<le> v * 10 + d")
      case big: True
      then have "2 ^ 64 \<le> dec_from v (c # cs)"
        using dec_from_ge [of "v * 10 + d" cs] by (simp add: d_def)
      with big over True show ?thesis using byte_sub_digit [of c] by (simp add: Let_def d_def)
    next
      case False
      then show ?thesis using Cons.IH [of "v * 10 + d"] over True byte_sub_digit [of c]
        by (simp add: Let_def d_def)
    qed
  next
    case False
    then show ?thesis using byte_sub_digit [of c] by (simp add: Let_def)
  qed
qed simp

lemma udigits_dec_val:
  "ds \<noteq> [] \<Longrightarrow> \<forall>c \<in> set ds. is_digit c \<Longrightarrow> hd ds \<noteq> CHR ''0'' \<Longrightarrow> udigits (dec_val ds) = ds \<and> 0 < dec_val ds"
proof (induction ds rule: rev_induct)
  case (snoc c ds)
  have c: "digit_val c < 10" "digit_char (digit_val c) = c"
    using snoc.prems by (auto simp: digit_val_def digit_char_def is_digit_iff)
  show ?case
  proof (cases "ds = []")
    case True
    then have "bval c \<noteq> 48" using snoc.prems by (simp add: bval_48_iff)
    then have "0 < digit_val c" using snoc.prems by (auto simp: digit_val_def is_digit_iff)
    with True c show ?thesis by (subst udigits.simps) (simp add: dec_val_def)
  next
    case False
    then have IH: "udigits (dec_val ds) = ds" "0 < dec_val ds" using snoc by auto
    have "dec_val (ds @ [c]) div 10 = dec_val ds" "dec_val (ds @ [c]) mod 10 = digit_val c"
      using c by simp_all
    with IH c show ?thesis by (subst udigits.simps) simp
  qed
qed simp

lemma itoa_length: "in64 n \<Longrightarrow> length (itoa n) \<le> 20"
proof -
  assume "in64 n"
  then have "nat \<bar>n\<bar> < 10 ^ 19" by (auto simp: in64_iff)
  then have "length (udigits (nat \<bar>n\<bar>)) \<le> 19" by (intro udigits_bound) simp_all
  then show ?thesis by (auto simp: itoa_def abs_if split: if_splits)
qed

lemma digit_1_9: "is_digit c \<Longrightarrow> c \<noteq> CHR ''0'' \<Longrightarrow> \<not> (c < CHR ''1'' \<or> c > CHR ''9'')"
proof -
  assume "is_digit c" "c \<noteq> CHR ''0''"
  moreover from this have "bval c \<noteq> 48" by (simp add: bval_48_iff)
  ultimately show ?thesis by (simp add: is_digit_iff char_less_iff)
qed

lemma udigits_cases:
  obtains c cs where "udigits n = c # cs" "is_digit c" "c \<noteq> CHR ''-''" "0 < n \<Longrightarrow> c \<noteq> CHR ''0''"
proof (cases "udigits n")
  case (Cons c cs)
  then have "is_digit c" using udigits_digits [of n] by simp
  moreover from this have "c \<noteq> CHR ''-''" by (auto simp: is_digit_iff)
  ultimately show ?thesis using that Cons udigits_hd_nonzero [of n] by auto
qed simp

lemma udigits_0: "udigits 0 = ''0''"
  by (subst udigits.simps) (simp add: digit_char_def char_of_48)

lemma parseInt_itoa: "in64 n \<Longrightarrow> parseInt (itoa n) = Some n"
proof -
  assume n: "in64 n"
  consider "n = 0" | "n < 0" | "n > 0" by linarith
  then show ?thesis
  proof cases
    case 1
    then show ?thesis by (simp add: itoa_def udigits_0 parseInt_def)
  next
    case 2
    obtain c cs where u: "udigits (nat (- n)) = c # cs" "is_digit c" "c \<noteq> CHR ''0''"
      using 2 by (metis udigits_cases zero_less_nat_eq neg_0_less_iff_less)
    have "nat (- n) < 2 ^ 64" using n by (auto simp: in64_iff)
    then have "parse_u64 (udigits (nat (- n))) 0 = Some (nat (- n))"
      using udigits_digits [of "nat (- n)"] by (simp add: parse_u64_spec dec_from_0)
    then show ?thesis using 2 n u itoa_length [OF n] digit_1_9 [OF u(2,3)]
      by (auto simp: parseInt_def itoa_def in64_iff)
  next
    case 3
    obtain c cs where u: "udigits (nat n) = c # cs" "is_digit c" "c \<noteq> CHR ''-''" "c \<noteq> CHR ''0''"
      using 3 by (metis udigits_cases zero_less_nat_eq)
    have "nat n < 2 ^ 64" using n by (auto simp: in64_iff)
    then have "parse_u64 (udigits (nat n)) 0 = Some (nat n)"
      using udigits_digits [of "nat n"] by (simp add: parse_u64_spec dec_from_0)
    then show ?thesis using 3 n u itoa_length [OF n] digit_1_9 [OF u(2,4)]
      by (auto simp: parseInt_def itoa_def in64_def)
  qed
qed

lemma parse_u64_canonical:
  assumes "parse_u64 ds 0 = Some v" "ds \<noteq> []" "\<not> (hd ds < CHR ''1'' \<or> hd ds > CHR ''9'')"
  shows "udigits v = ds \<and> 0 < v"
proof -
  have "\<forall>c \<in> set ds. is_digit c" "v = dec_val ds"
    using assms(1) by (auto simp: parse_u64_spec dec_from_0 split: if_splits)
  moreover have "hd ds \<noteq> CHR ''0''" using assms(3) by auto
  ultimately show ?thesis using udigits_dec_val [of ds] assms(2) by auto
qed

lemma parseInt_canonical: "parseInt b = Some n \<Longrightarrow> in64 n \<and> b = itoa n"
proof -
  assume p: "parseInt b = Some n"
  then have ne: "b \<noteq> []" by (auto simp: parseInt_def)
  then obtain c cs where b: "b = c # cs" by (cases b) auto
  show ?thesis
  proof (cases "length b = 1 \<and> b ! 0 = CHR ''0''")
    case True
    then show ?thesis using p by (auto simp: parseInt_def length_Suc_conv itoa_def udigits_0 in64_iff)
  next
    case False
    show ?thesis
    proof (cases "c = CHR ''-''")
      case True
      with p False b obtain v where v: "parse_u64 cs 0 = Some v" "n = wrap64 (- int v)" "v \<le> 2 ^ 63"
          "cs \<noteq> []" "\<not> (cs ! 0 < CHR ''1'' \<or> cs ! 0 > CHR ''9'')"
        by (auto simp: parseInt_def split: if_splits option.splits)
      then have "udigits v = cs" "0 < v" using parse_u64_canonical [of cs v] by (auto simp: hd_conv_nth)
      moreover have "n = - int v" using v by (simp add: in64_iff)
      ultimately show ?thesis using v True b by (auto simp: itoa_def in64_iff)
    next
      case nm: False
      with p False b obtain v where v: "parse_u64 b 0 = Some v" "n = int v" "int v \<le> maxInt64"
          "\<not> (b ! 0 < CHR ''1'' \<or> b ! 0 > CHR ''9'')"
        by (auto simp: parseInt_def split: if_splits option.splits)
      then have "udigits v = b" "0 < v" using parse_u64_canonical [of b v] ne by (auto simp: hd_conv_nth)
      then show ?thesis using v by (auto simp: itoa_def in64_def minInt64_def)
    qed
  qed
qed

text \<open>
  \<^bold>\<open>C21\<close> \<open>parseInt\<close> accepts a byte string if and only if it is the canonical decimal form of a
  signed 64-bit integer (no plus sign, no leading zeros, no blanks, no \<open>-0\<close>, no overflow), and
  then returns that integer. In particular every value that \<open>INCR\<close> stores is read back.
\<close>

theorem parseInt_iff: "parseInt b = Some n \<longleftrightarrow> in64 n \<and> b = itoa n"
  using parseInt_itoa parseInt_canonical by blast

section \<open>eqFold\<close>

lemma eqFold_iff: "eqFold b s \<longleftrightarrow> map upper b = s"
  by (auto simp: eqFold_def list_eq_iff_nth_eq)

lemma eqFold_fun: "eqFold b s \<Longrightarrow> eqFold b s' \<Longrightarrow> s = s'"
  by (simp add: eqFold_iff)

end
