(* ===== verification/Glob_Match.thy ===== *)
theory Glob_Match
  imports Go_Prelude
begin

text \<open>
  The glob matcher behind \<open>KEYS\<close> (\<open>globMatch\<close> in \<open>redis/impl/go-1/commands.go\<close>), with the
  pattern and string positions kept as the slices \<open>p[pi:]\<close> and \<open>s[si:]\<close>. It is compared with
  a declarative reading of a pattern as a sequence of tokens.
\<close>

section \<open>The matcher\<close>

text \<open>The loop inside a bracket expression: whether the character was hit, and the pattern after
  the closing bracket (or nothing, for an unterminated bracket).\<close>

fun class_loop :: "bytes \<Rightarrow> byte \<Rightarrow> bool \<Rightarrow> bool \<times> bytes" where
  "class_loop [] c m = (m, [])"
| "class_loop (x # xs) c m =
     (if x = CHR 0x5C \<and> xs \<noteq> [] then class_loop (tl xs) c (m \<or> hd xs = c)
      else if x = CHR '']'' then (m, xs)
      else if length xs \<ge> 2 \<and> hd xs = CHR ''-'' then
        (let lo = min x (xs ! 1); hi = max x (xs ! 1)
         in class_loop (drop 2 xs) c (m \<or> (lo \<le> c \<and> c \<le> hi)))
      else class_loop xs c (m \<or> x = c))"

text \<open>The declarative reading of the same text: a list of ranges and the pattern after it.\<close>

datatype citem = CRange byte byte

fun in_item :: "byte \<Rightarrow> citem \<Rightarrow> bool" where
  "in_item c (CRange a b) = (min a b \<le> c \<and> c \<le> max a b)"

fun parse_class :: "bytes \<Rightarrow> citem list \<times> bytes" where
  "parse_class [] = ([], [])"
| "parse_class (x # xs) =
     (if x = CHR 0x5C \<and> xs \<noteq> [] then
        (let r = parse_class (tl xs) in (CRange (hd xs) (hd xs) # fst r, snd r))
      else if x = CHR '']'' then ([], xs)
      else if length xs \<ge> 2 \<and> hd xs = CHR ''-'' then
        (let r = parse_class (drop 2 xs) in (CRange x (xs ! 1) # fst r, snd r))
      else (let r = parse_class xs in (CRange x x # fst r, snd r)))"

lemma parse_class_length: "length (snd (parse_class p)) \<le> length p"
  by (induction p rule: parse_class.induct) (auto simp: Let_def)

lemma class_loop_parse:
  "class_loop p c m = (m \<or> list_ex (in_item c) (fst (parse_class p)), snd (parse_class p))"
  by (induction p c m rule: class_loop.induct) (auto simp: Let_def)

lemma class_loop_length: "length (snd (class_loop p c m)) \<le> length p"
  by (simp add: class_loop_parse parse_class_length)

function (sequential) globMatch :: "bytes \<Rightarrow> bytes \<Rightarrow> bool"
  and glob_star :: "bytes \<Rightarrow> bytes \<Rightarrow> bool"
  and glob_next :: "bytes \<Rightarrow> bytes \<Rightarrow> bool" where
  "globMatch [] s = (s = [])"
| "globMatch (x # p) [] = False"
| "globMatch (x # p) (c # s) =
     (if x = CHR ''*'' then
        (let p' = dropWhile (\<lambda>y. y = CHR ''*'') p in if p' = [] then True else glob_star p' (c # s))
      else if x = CHR ''?'' then glob_next p s
      else if x = CHR ''['' then
        (let neg = (p \<noteq> [] \<and> hd p = CHR 0x5E);
             r = class_loop (if neg then tl p else p) c False
         in if (fst r \<noteq> neg) then glob_next (snd r) s else False)
      else if x = CHR 0x5C then
        (if p \<noteq> [] then (if hd p = c then glob_next (tl p) s else False)
         else if x = c then glob_next p s else False)
      else if x = c then glob_next p s else False)"
| "glob_star p [] = False"
| "glob_star p (c # s) = (globMatch p (c # s) \<or> glob_star p s)"
| "glob_next p s =
     (if s = [] then dropWhile (\<lambda>y. y = CHR ''*'') p = [] else globMatch p s)"
  by pat_completeness auto
termination
proof (relation "measure (\<lambda>x. case x of
       Inl (p, s) \<Rightarrow> 3 * (length p + length s)
     | Inr (Inl (p, s)) \<Rightarrow> 3 * (length p + length s) + 1
     | Inr (Inr (p, s)) \<Rightarrow> 3 * (length p + length s) + 1)", goal_cases)
  case (2 x p c s y)
  have "length y \<le> length p" using 2 by (simp add: length_dropWhile_le)
  then show ?case by simp
next
  case (4 x p c s neg r)
  have "length (snd r) \<le> length (if neg then tl p else p)"
    using 4 class_loop_length by metis
  also have "\<dots> \<le> length p" by simp
  finally show ?case by simp
qed auto

section \<open>Patterns as token sequences\<close>

datatype gtoken = GStar | GAny | GLit byte | GClass bool "citem list"

function glob_tokens :: "bytes \<Rightarrow> gtoken list" where
  "glob_tokens [] = []"
| "glob_tokens (x # p) =
     (if x = CHR ''*'' then GStar # glob_tokens p
      else if x = CHR ''?'' then GAny # glob_tokens p
      else if x = CHR ''['' then
        (let neg = (p \<noteq> [] \<and> hd p = CHR 0x5E); r = parse_class (if neg then tl p else p)
         in GClass neg (fst r) # glob_tokens (snd r))
      else if x = CHR 0x5C \<and> p \<noteq> [] then GLit (hd p) # glob_tokens (tl p)
      else GLit x # glob_tokens p)"
  by pat_completeness auto
termination
proof (relation "measure length", goal_cases)
  case (4 x p neg r)
  have "length (snd r) \<le> length (if neg then tl p else p)"
    using 4 parse_class_length by metis
  also have "\<dots> \<le> length p" by simp
  finally show ?case by simp
qed auto

fun token_accepts :: "gtoken \<Rightarrow> byte \<Rightarrow> bool" where
  "token_accepts GStar c = False"
| "token_accepts GAny c = True"
| "token_accepts (GLit x) c = (x = c)"
| "token_accepts (GClass neg items) c = (list_ex (in_item c) items \<noteq> neg)"

fun glob_spec :: "gtoken list \<Rightarrow> bytes \<Rightarrow> bool" where
  "glob_spec [] s = (s = [])"
| "glob_spec (GStar # ts) [] = glob_spec ts []"
| "glob_spec (GStar # ts) (c # s) = (glob_spec ts (c # s) \<or> glob_spec (GStar # ts) s)"
| "glob_spec (t # ts) [] = False"
| "glob_spec (t # ts) (c # s) = (token_accepts t c \<and> glob_spec ts s)"

section \<open>Equivalence\<close>

lemma glob_spec_stars_Nil: "glob_spec (glob_tokens p) [] \<longleftrightarrow> dropWhile (\<lambda>y. y = CHR ''*'') p = []"
proof (induction p rule: glob_tokens.induct)
  case (2 x p)
  then show ?case by (cases "x = CHR ''*''") (auto simp: Let_def)
qed simp

lemma glob_tokens_star_head:
  "glob_tokens p = GStar # ts \<longleftrightarrow> (\<exists>p'. p = CHR ''*'' # p' \<and> ts = glob_tokens p')"
  by (cases p) (auto simp: Let_def)

lemma glob_spec_star_star: "glob_spec (GStar # GStar # ts) s = glob_spec (GStar # ts) s"
  by (induction s) auto

lemma glob_spec_star_dropWhile:
  "glob_spec (GStar # glob_tokens p) s =
     glob_spec (GStar # glob_tokens (dropWhile (\<lambda>y. y = CHR ''*'') p)) s"
  by (induction p) (auto simp: glob_spec_star_star simp del: glob_spec.simps)

lemma glob_spec_star_only: "glob_spec [GStar] s"
  by (induction s) auto

declare glob_next.simps [simp del]

lemma glob_equiv:
  "s \<noteq> [] \<Longrightarrow> globMatch p s = glob_spec (glob_tokens p) s"
  "p \<noteq> [] \<Longrightarrow> hd p \<noteq> CHR ''*'' \<Longrightarrow> glob_star p s = glob_spec (GStar # glob_tokens p) s"
  "glob_next p s = glob_spec (glob_tokens p) s"
proof (induction p s and p s and p s rule: globMatch_glob_star_glob_next.induct)
  case (3 x p c s)
  consider (star) "x = CHR ''*''" | (any) "x = CHR ''?''" | (cls) "x = CHR ''[''"
    | (esc) "x = CHR 0x5C" | (lit) "x \<notin> {CHR ''*'', CHR ''?'', CHR ''['', CHR 0x5C}" by blast
  then show ?case
  proof cases
    case star
    let ?p = "dropWhile (\<lambda>y. y = CHR ''*'') p"
    have "globMatch (x # p) (c # s) = glob_spec (GStar # glob_tokens ?p) (c # s)"
    proof (cases "?p = []")
      case True
      then have "glob_spec (GStar # glob_tokens ?p) (c # s)"
        unfolding True glob_tokens.simps(1) by (intro glob_spec_star_only)
      moreover have "globMatch (x # p) (c # s)" using star True by simp
      ultimately show ?thesis by blast
    next
      case False
      then have "glob_star ?p (c # s) = glob_spec (GStar # glob_tokens ?p) (c # s)"
        using hd_dropWhile [of "\<lambda>y. y = CHR ''*''" p] by (intro 3(1) [OF star refl]) blast+
      moreover have "globMatch (x # p) (c # s) = glob_star ?p (c # s)"
        using star False by (simp only: globMatch.simps Let_def if_True if_False simp_thms)
      ultimately show ?thesis by (rule trans [rotated])
    qed
    moreover have "glob_tokens (x # p) = GStar # glob_tokens p" using star by simp
    ultimately show ?thesis using glob_spec_star_dropWhile [of p "c # s"] by (simp only:)
  next
    case cls
    then show ?thesis using 3(3) by (simp add: Let_def class_loop_parse)
  next
    case any
    then show ?thesis using 3(2) by simp
  next
    case esc
    then show ?thesis using 3(4,5) by (cases p) simp_all
  next
    case lit
    then show ?thesis using 3(6) by (cases "x = c") simp_all
  qed
next
  case (5 p c s)
  then show ?case by auto
next
  case (4 p)
  then show ?case using glob_spec_stars_Nil [of p] by (cases p) auto
next
  case (6 p s)
  then show ?case by (cases "s = []") (auto simp: glob_spec_stars_Nil glob_next.simps)
qed auto

text \<open>
  \<^bold>\<open>C22\<close> On every non-empty key, \<open>globMatch\<close> decides exactly the declarative meaning of the
  pattern: a star is any sequence, a question mark any byte, a bracket expression a (possibly
  negated) union of ranges taken in either order, a backslash an escape. On the empty key it only
  accepts the empty pattern, so \<open>KEYS *\<close> does not list a key that is the empty string.
\<close>

theorem globMatch_correct:
  "globMatch p s = (if s = [] then p = [] else glob_spec (glob_tokens p) s)"
  using glob_equiv(1) [of s p] by (cases p) auto

text \<open>The empty key is not matched by a lone star, although the star's meaning covers it.\<close>

lemma star_misses_empty_key: "\<not> globMatch ''*'' []" "glob_spec (glob_tokens ''*'') []"
  by simp_all

end
