(* ===== verification/Resp_Codec.thy ===== *)
theory Resp_Codec
  imports Go_Prelude
begin

text \<open>
  The RESP wire format of mini-redis (\<open>redis/impl/go-1/main.go\<close>): \<open>parseLine\<close> and
  \<open>parseCommand\<close>, the incremental request parser, and the reply writers \<open>addSimple\<close> to
  \<open>addOK\<close>. The lemmas show that the parser inverts the writers, that it never reads past
  what it has been given, and that its verdict on a prefix of the input stream is final unless
  that verdict is ``incomplete'', which is what makes pipelining and arbitrary TCP segmentation
  safe.
\<close>

section \<open>Parsing\<close>

datatype line_result = LineOK int nat | LineIncomplete | LineError

text \<open>The digit loop of \<open>parseLine\<close>: at most nineteen digits are accumulated in an
  \<open>int64\<close>, which can wrap around on the nineteenth.\<close>

function parse_digits :: "bytes \<Rightarrow> bool \<Rightarrow> nat \<Rightarrow> nat \<Rightarrow> int \<Rightarrow> line_result" where
  "parse_digits b neg start i n =
     (if i < length b then
        (let ch = b ! i in
         if ch = CR then
           (if i + 1 \<ge> length b then LineIncomplete
            else if b ! (i + 1) \<noteq> LF \<or> i = start then LineError
            else LineOK (if neg then wrap64 (- n) else n) (i + 2))
         else if \<not> is_digit ch \<or> i - start > 18 then LineError
         else parse_digits b neg start (i + 1) (wrap64 (n * 10 + int (digit_val ch))))
      else if i - start > 19 then LineError else LineIncomplete)"
  by pat_completeness auto
termination by (relation "measure (\<lambda>(b, neg, start, i, n). length b - i)") auto

declare parse_digits.simps [simp del]

definition parseLine :: "bytes \<Rightarrow> nat \<Rightarrow> line_result" where
  "parseLine b i =
     (if i < length b \<and> b ! i = CHR ''-'' then parse_digits b True (i + 1) (i + 1) 0
      else parse_digits b False i i 0)"

datatype cmd_result = CmdOK "bytes list" nat | CmdIncomplete | CmdError

text \<open>The argument loop; \<open>k\<close> counts the bulk strings still to read.\<close>

fun parse_args :: "bytes \<Rightarrow> nat \<Rightarrow> nat \<Rightarrow> bytes list \<Rightarrow> cmd_result" where
  "parse_args b 0 i args = CmdOK args i"
| "parse_args b (Suc k) i args =
     (if i \<ge> length b then CmdIncomplete
      else if b ! i \<noteq> CHR ''$'' then CmdError
      else case parseLine b (i + 1) of
             LineIncomplete \<Rightarrow> CmdIncomplete
           | LineError \<Rightarrow> CmdError
           | LineOK l j \<Rightarrow>
               (if l < 0 \<or> l > 536870912 then CmdError
                else let end = j + nat l in
                  if end + 2 > length b then CmdIncomplete
                  else if b ! end \<noteq> CR \<or> b ! (end + 1) \<noteq> LF then CmdError
                  else parse_args b k (end + 2) (args @ [take (nat l) (drop j b)])))"

text \<open>Called on a non-empty buffer only (\<open>process\<close> checks \<open>c.r < c.w\<close>).\<close>

definition parseCommand :: "bytes \<Rightarrow> cmd_result" where
  "parseCommand b =
     (if b = [] \<or> b ! 0 \<noteq> CHR ''*'' then CmdError
      else case parseLine b 1 of
             LineIncomplete \<Rightarrow> CmdIncomplete
           | LineError \<Rightarrow> CmdError
           | LineOK n i \<Rightarrow> (if n > 1048576 then CmdError else parse_args b (nat n) i []))"

section \<open>Replies\<close>

definition addSimple :: "bytes \<Rightarrow> bytes \<Rightarrow> bytes" where
  "addSimple out s = out @ ''+'' @ s @ crlf"

definition addErr :: "bytes \<Rightarrow> bytes \<Rightarrow> bytes" where
  "addErr out s = out @ ''-'' @ s @ crlf"

definition addInt :: "bytes \<Rightarrow> int \<Rightarrow> bytes" where
  "addInt out n = out @ '':'' @ itoa n @ crlf"

definition addLen :: "bytes \<Rightarrow> byte \<Rightarrow> nat \<Rightarrow> bytes" where
  "addLen out prefix n = out @ [prefix] @ itoa (int n) @ crlf"

definition addBulk :: "bytes \<Rightarrow> bytes \<Rightarrow> bytes" where
  "addBulk out b = addLen out (CHR ''$'') (length b) @ b @ crlf"

definition addNull :: "bytes \<Rightarrow> bytes" where
  "addNull out = out @ ''$-1'' @ crlf"

definition addNullArr :: "bytes \<Rightarrow> bytes" where
  "addNullArr out = out @ ''*-1'' @ crlf"

definition addArr :: "bytes \<Rightarrow> nat \<Rightarrow> bytes" where
  "addArr out n = addLen out (CHR ''*'') n"

definition addOK :: "bytes \<Rightarrow> bytes" where
  "addOK out = out @ ''+OK'' @ crlf"

lemmas reply_defs = addSimple_def addErr_def addInt_def addBulk_def addNull_def addNullArr_def
  addArr_def addOK_def addLen_def

section \<open>Requests as a client writes them\<close>

text \<open>An array of bulk strings, written with the same primitives the server uses for replies.\<close>

definition encode_request :: "bytes list \<Rightarrow> bytes" where
  "encode_request args = foldl addBulk (addArr [] (length args)) args"

definition bulk :: "bytes \<Rightarrow> bytes" where
  "bulk b = addBulk [] b"

lemma addBulk_bulk: "addBulk out b = out @ bulk b"
  by (simp add: bulk_def addBulk_def addLen_def)

lemma foldl_addBulk: "foldl addBulk out args = out @ concat (map bulk args)"
  by (induction args arbitrary: out) (simp_all add: addBulk_bulk)

lemma encode_request_eq: "encode_request args = addArr [] (length args) @ concat (map bulk args)"
  by (simp add: encode_request_def foldl_addBulk)

section \<open>The digit loop against the decimal value\<close>

lemma CR_neq_LF [simp]: "CR \<noteq> LF" "LF \<noteq> CR"
  by (simp_all add: CR_def LF_def)

lemma not_digit_CR [simp]: "\<not> is_digit CR"
  by (simp add: is_digit_iff CR_def)

lemma digit_neq_CR: "is_digit c \<Longrightarrow> c \<noteq> CR"
  by auto

lemma not_digit_minus [simp]: "\<not> is_digit (CHR ''-'')"
  by (simp add: is_digit_iff)

lemma dec_val_less: "length ds \<le> k \<Longrightarrow> \<forall>c \<in> set ds. is_digit c \<Longrightarrow> dec_val ds < 10 ^ k"
proof (induction ds arbitrary: k rule: rev_induct)
  case (snoc c ds)
  then obtain k' where k: "k = Suc k'" by (cases k) auto
  with snoc have "dec_val ds < 10 ^ k'" by auto
  moreover have "digit_val c \<le> 9" using snoc by (auto simp: digit_val_def is_digit_iff)
  ultimately show ?case using k by simp
qed simp

lemma parse_digits_run:
  assumes "drop i b = ds @ CR # LF # rest" "\<forall>c \<in> set ds. is_digit c"
    and "take (i - start) (drop start b) = pre" "start \<le> i" "\<forall>c \<in> set pre. is_digit c"
    and "length pre + length ds \<le> 18" "pre @ ds \<noteq> []" "n = int (dec_val pre)"
  shows "parse_digits b False start i n = LineOK (int (dec_val (pre @ ds))) (i + length ds + 2)"
  using assms
proof (induction ds arbitrary: i pre n)
  case Nil
  have len: "i + 1 < length b"
  proof -
    from Nil.prems(1) have "length (drop i b) \<ge> 2" by simp
    then show ?thesis by simp
  qed
  have bi: "b ! i = CR" "b ! (i + 1) = LF"
    using Nil.prems(1) len nth_drop [of i b 0] nth_drop [of i b 1] by simp_all
  have "i \<noteq> start" using Nil.prems by auto
  then show ?case using len bi Nil.prems by (subst parse_digits.simps) simp
next
  case (Cons d ds)
  from Cons.prems(1) have len: "i < length b" by (metis drop_eq_Nil list.distinct(1) append_Cons not_le)
  have bi: "b ! i = d" using Cons.prems(1) nth_drop [of i b 0] len by simp
  have drop': "drop (i + 1) b = ds @ CR # LF # rest"
    using Cons.prems(1) by (metis append_Cons drop_drop add.commute drop_Suc_Cons drop0 One_nat_def)
  have pre': "take (i + 1 - start) (drop start b) = pre @ [d]"
  proof -
    have "take (Suc (i - start)) (drop start b) = take (i - start) (drop start b) @ [drop start b ! (i - start)]"
      using len Cons.prems(4) by (intro take_Suc_conv_app_nth) simp
    then show ?thesis using Cons.prems(3,4) bi len by (simp add: Suc_diff_le)
  qed
  have len_pre: "i - start = length pre" using Cons.prems(3,4) len by auto
  have small: "dec_val (pre @ [d]) < 10 ^ 18"
    using Cons.prems by (intro dec_val_less) auto
  have d: "is_digit d" "d \<noteq> CR" using Cons.prems by auto
  have "wrap64 (n * 10 + int (digit_val d)) = int (dec_val (pre @ [d]))"
    using small Cons.prems(8) by (simp add: in64_iff)
  then have "parse_digits b False start i n = parse_digits b False start (i + 1) (int (dec_val (pre @ [d])))"
    using len bi d len_pre Cons.prems(6) by (subst parse_digits.simps) simp
  also have "\<dots> = LineOK (int (dec_val ((pre @ [d]) @ ds))) (i + 1 + length ds + 2)"
    using Cons.prems d drop' pre' by (intro Cons.IH) auto
  finally show ?case by simp
qed

lemma parse_digits_udigits:
  assumes "drop i b = udigits m @ CR # LF # rest" "m < 10 ^ 18"
  shows "parse_digits b False i i 0 = LineOK (int m) (i + length (udigits m) + 2)"
  using parse_digits_run [OF assms(1) udigits_digits, of i "[]" 0]
    udigits_bound [of m 18] assms(2) by simp

lemma parseLine_udigits:
  assumes "drop i b = udigits m @ CR # LF # rest" "m < 10 ^ 18"
  shows "parseLine b i = LineOK (int m) (i + length (udigits m) + 2)"
proof -
  obtain c cs where u: "udigits m = c # cs" by (cases "udigits m") auto
  have "is_digit c" using udigits_digits [of m] u by simp
  then have "c \<noteq> CHR ''-''" by auto
  moreover have "i < length b \<Longrightarrow> b ! i = c"
    using assms(1) u nth_drop [of i b 0] by simp
  ultimately show ?thesis
    using parse_digits_udigits [OF assms] by (auto simp: parseLine_def)
qed

section \<open>Verdicts on a prefix are final\<close>

lemma parse_digits_append:
  assumes "parse_digits b neg start i n \<noteq> LineIncomplete" "i - start \<le> 19"
  shows "parse_digits (b @ c) neg start i n = parse_digits b neg start i n"
  using assms
proof (induction b neg start i n rule: parse_digits.induct)
  case (1 b neg start i n)
  show ?case
  proof (cases "i < length b")
    case False
    with 1 have False by (subst (asm) (2) parse_digits.simps) (auto split: if_splits)
    then show ?thesis ..
  next
    case True
    have nth: "(b @ c) ! i = b ! i" using True by (simp add: nth_append)
    show ?thesis
    proof (cases "b ! i = CR")
      case True
      then have "i + 1 < length b" using 1(2) \<open>i < length b\<close>
        by (subst (asm) parse_digits.simps) (auto simp: Let_def split: if_splits)
      moreover from this have "(b @ c) ! Suc i = b ! Suc i" by (simp add: nth_append)
      ultimately show ?thesis using True nth
        by (simp add: parse_digits.simps [of "b @ c"] parse_digits.simps [of b] Let_def)
    next
      case False
      show ?thesis
      proof (cases "\<not> is_digit (b ! i) \<or> i - start > 18")
        case True
        then show ?thesis using False nth \<open>i < length b\<close>
          by (simp add: parse_digits.simps [of "b @ c"] parse_digits.simps [of b] Let_def)
      next
        case noerr: False
        then have "parse_digits (b @ c) neg start (i + 1) (wrap64 (n * 10 + int (digit_val (b ! i))))
            = parse_digits b neg start (i + 1) (wrap64 (n * 10 + int (digit_val (b ! i))))"
          using 1 False \<open>i < length b\<close>
          by (intro "1.IH") (auto simp: parse_digits.simps [of b neg start i n] Let_def)
        then show ?thesis using False noerr nth \<open>i < length b\<close>
          by (simp add: parse_digits.simps [of "b @ c" neg start i n] parse_digits.simps [of b neg start i n] Let_def)
      qed
    qed
  qed
qed

lemma parse_digits_bounds:
  "parse_digits b neg start i n = LineOK v j \<Longrightarrow> i + 2 \<le> j \<and> j \<le> length b"
proof (induction b neg start i n rule: parse_digits.induct)
  case (1 b neg start i n)
  show ?case
    using 1 by (auto simp: parse_digits.simps [of b neg start i n] Let_def split: if_splits)
qed

lemma parseLine_bounds: "parseLine b i = LineOK v j \<Longrightarrow> i + 2 \<le> j \<and> j \<le> length b"
  using parse_digits_bounds by (fastforce simp: parseLine_def split: if_splits)

lemma parseLine_append:
  assumes "parseLine b i \<noteq> LineIncomplete"
  shows "parseLine (b @ c) i = parseLine b i"
proof (cases "i < length b")
  case True
  then have "(b @ c) ! i = b ! i" by (simp add: nth_append)
  with True assms show ?thesis
    by (auto simp: parseLine_def intro!: parse_digits_append split: if_splits)
next
  case False
  then have "parse_digits b False i i 0 = LineIncomplete"
    by (subst parse_digits.simps) simp
  with False assms show ?thesis by (simp add: parseLine_def)
qed

lemma parse_args_append:
  "parse_args b k i args \<noteq> CmdIncomplete \<Longrightarrow> parse_args (b @ c) k i args = parse_args b k i args"
proof (induction b k i args rule: parse_args.induct)
  case (2 b k i args)
  from 2(2) have i: "i < length b" by (auto split: if_splits)
  then have nth: "(b @ c) ! i = b ! i" by (simp add: nth_append)
  show ?case
  proof (cases "b ! i = CHR ''$''")
    case True
    then have line: "parseLine b (i + 1) \<noteq> LineIncomplete" using 2(2) i by auto
    note line' = parseLine_append [OF line, of c]
    show ?thesis
    proof (cases "parseLine b (i + 1)")
      case (LineOK l j)
      show ?thesis
      proof (cases "l < 0 \<or> l > 536870912")
        case False
        have "j + nat l + 2 \<le> length b" using 2(2) LineOK True False i
          by (auto simp: Let_def split: if_splits)
        moreover from this have "(b @ c) ! (j + nat l) = b ! (j + nat l)"
          "(b @ c) ! Suc (j + nat l) = b ! Suc (j + nat l)"
          "take (nat l) (drop j (b @ c)) = take (nat l) (drop j b)"
          by (simp_all add: nth_append)
        ultimately show ?thesis using 2 LineOK True False i nth line'
          by (auto simp: Let_def split: if_splits)
      qed (use LineOK True i nth line' in \<open>simp add: Let_def\<close>)
    qed (use line line' True i nth in simp_all)
  qed (use i nth in simp)
qed simp

lemma parse_args_bounds:
  "parse_args b k i args = CmdOK r n \<Longrightarrow> i \<le> length b \<Longrightarrow> i \<le> n \<and> n \<le> length b"
proof (induction b k i args rule: parse_args.induct)
  case (2 b k i args)
  then show ?case
    using parseLine_bounds [of b "i + 1"]
    by (fastforce simp: Let_def split: if_splits line_result.splits)
qed simp

lemma parseCommand_bounds: "parseCommand b = CmdOK r n \<Longrightarrow> 0 < n \<and> n \<le> length b"
  using parseLine_bounds [of b 1] parse_args_bounds [of b]
  by (fastforce simp: parseCommand_def split: if_splits line_result.splits)

lemma verdict_final:
  assumes "b \<noteq> []" "parseCommand b \<noteq> CmdIncomplete"
  shows "parseCommand (b @ c) = parseCommand b"
proof (cases "b ! 0 = CHR ''*''")
  case True
  then have line: "parseLine b 1 \<noteq> LineIncomplete" using assms by (auto simp: parseCommand_def)
  have nth: "(b @ c) ! 0 = b ! 0" using assms(1) by (simp add: nth_append)
  show ?thesis using assms True nth parseLine_append [OF line, of c]
    by (auto simp: parseCommand_def intro!: parse_args_append split: line_result.splits if_splits)
next
  case False
  then show ?thesis using assms(1) by (simp add: parseCommand_def nth_append)
qed

text \<open>
  \<^bold>\<open>C18\<close> A verdict of \<open>parseCommand\<close> other than ``incomplete'' on the bytes received so far (a
  complete command, or a protocol error) is the verdict on every extension of them: bytes that
  arrive later never change a command that has been recognised.
\<close>

theorem parseCommand_append:
  assumes "b \<noteq> []" "parseCommand b \<noteq> CmdIncomplete"
  shows "parseCommand (b @ c) = parseCommand b"
  using assms by (rule verdict_final)

theorem parseCommand_append_witness:
  "parseCommand (''*0'' @ crlf @ ''x'') = parseCommand (''*0'' @ crlf)"
proof -
  have "parseCommand (''*0'' @ crlf) = CmdOK [] 4"
    by code_simp
  then show ?thesis using parseCommand_append [of "''*0'' @ crlf" "''x''"] by simp
qed

section \<open>The parser inverts the writers\<close>

lemma drop_take_middle: "drop i b = xs @ ys \<Longrightarrow> drop (i + length xs) b = ys"
  by (metis append_eq_conv_conj drop_drop add.commute)

lemma parse_args_bulks:
  assumes "drop i b = concat (map bulk as) @ rest"
    and "\<forall>a \<in> set as. length a \<le> 536870912" "i \<le> length b"
  shows "parse_args b (length as) i args = CmdOK (args @ as) (i + length (concat (map bulk as)))"
  using assms
proof (induction as arbitrary: i args)
  case (Cons a as)
  let ?u = "udigits (length a)"
  have bulk: "bulk a = CHR ''$'' # ?u @ CR # LF # a @ [CR, LF]"
    by (simp add: bulk_def addBulk_def addLen_def itoa_def crlf_def)
  let ?tail = "concat (map bulk as) @ rest"
  have d0: "drop i b = CHR ''$'' # ?u @ CR # LF # a @ CR # LF # ?tail"
    using Cons.prems(1) by (simp add: bulk)
  have i: "i < length b" using d0 by (metis drop_eq_Nil list.distinct(1) not_le)
  have bi: "b ! i = CHR ''$''" using d0 i nth_drop [of i b 0] by simp
  have d1: "drop (i + 1) b = ?u @ CR # LF # a @ CR # LF # ?tail"
    using d0 by (metis Cons_nth_drop_Suc Suc_eq_plus1 i list.inject)
  have len: "length a < 10 ^ 18" using Cons.prems(2) by simp
  let ?j = "i + 1 + length ?u + 2"
  have line: "parseLine b (i + 1) = LineOK (int (length a)) ?j"
    by (rule parseLine_udigits [OF d1 len])
  have dj: "drop ?j b = a @ CR # LF # ?tail"
    using drop_take_middle [of "i + 1" b "?u @ [CR, LF]"] d1 by simp
  have dend: "drop (?j + length a) b = CR # LF # ?tail"
    using drop_take_middle [OF dj] by simp
  have fits: "?j + length a + 2 \<le> length b"
  proof -
    have "length (drop (?j + length a) b) \<ge> 2" unfolding dend by simp
    then show ?thesis by simp
  qed
  have nth: "b ! (?j + length a) = CR" "b ! Suc (?j + length a) = LF"
    using dend fits nth_drop [of "?j + length a" b 0] nth_drop [of "?j + length a" b 1] by simp_all
  have arg: "take (length a) (drop ?j b) = a" using dj by simp
  have dnext: "drop (?j + length a + 2) b = ?tail"
    using drop_take_middle [of "?j + length a" b "[CR, LF]"] dend by simp
  have "parse_args b (length (a # as)) i args = parse_args b (length as) (?j + length a + 2) (args @ [a])"
    using i bi line Cons.prems(2) fits nth arg by (simp add: Let_def)
  also have "\<dots> = CmdOK ((args @ [a]) @ as) (?j + length a + 2 + length (concat (map bulk as)))"
    using Cons.prems(2) fits dnext by (intro Cons.IH) simp_all
  also have "?j + length a + 2 = i + length (bulk a)" by (simp add: bulk)
  finally show ?case by (simp add: add.assoc)
qed simp

lemma resp_roundtrip_aux:
  assumes "length args \<le> 1048576" "\<forall>a \<in> set args. length a \<le> 536870912"
  shows "parseCommand (encode_request args @ rest) = CmdOK args (length (encode_request args))"
proof -
  let ?u = "udigits (length args)"
  let ?b = "encode_request args @ rest"
  have hdr: "addArr [] (length args) = CHR ''*'' # ?u @ crlf"
    by (simp add: addArr_def addLen_def itoa_def)
  have b: "?b = CHR ''*'' # ?u @ CR # LF # concat (map bulk args) @ rest"
    by (simp add: encode_request_eq hdr crlf_def)
  then have d1: "drop 1 ?b = ?u @ CR # LF # (concat (map bulk args) @ rest)" by simp
  have line: "parseLine ?b 1 = LineOK (int (length args)) (1 + length ?u + 2)"
    using assms(1) by (intro parseLine_udigits [OF d1]) simp
  have d2: "drop (1 + length ?u + 2) ?b = concat (map bulk args) @ rest"
    using drop_take_middle [of 1 ?b "?u @ [CR, LF]"] d1 by simp
  have "parse_args ?b (length args) (1 + length ?u + 2) []
      = CmdOK args (1 + length ?u + 2 + length (concat (map bulk args)))"
    using parse_args_bulks [OF d2 assms(2), of "[]"] by (simp add: b)
  moreover have "length (encode_request args) = 1 + length ?u + 2 + length (concat (map bulk args))"
    by (simp add: encode_request_eq hdr crlf_def)
  ultimately show ?thesis using line assms(1) b by (simp add: parseCommand_def)
qed

text \<open>
  \<^bold>\<open>C19\<close> Round trip: a request of at most 1048576 bulk strings of at most 512 MiB each, written by
  the array and bulk writers and followed by any other bytes, is parsed back to exactly its
  arguments, and exactly its own bytes are consumed.
\<close>

theorem resp_request_roundtrip:
  assumes "length args \<le> 1048576" "\<forall>a \<in> set args. length a \<le> 536870912"
  shows "parseCommand (encode_request args @ rest) = CmdOK args (length (encode_request args))"
  using assms by (rule resp_roundtrip_aux)

theorem resp_request_roundtrip_witness:
  "parseCommand (encode_request [''GET'', ''k''] @ ''*'')
     = CmdOK [''GET'', ''k''] (length (encode_request [''GET'', ''k'']))"
  by (rule resp_request_roundtrip) simp_all

text \<open>
  \<^bold>\<open>C20\<close> A request cut anywhere before its last byte is reported as incomplete, never as an error
  and never as a shorter command, so the connection simply waits for the rest.
\<close>

theorem resp_prefix_incomplete:
  assumes "length args \<le> 1048576" "\<forall>a \<in> set args. length a \<le> 536870912"
    and "0 < m" "m < length (encode_request args)"
  shows "parseCommand (take m (encode_request args)) = CmdIncomplete"
proof (rule ccontr)
  let ?p = "take m (encode_request args)"
  assume *: "parseCommand ?p \<noteq> CmdIncomplete"
  have "?p \<noteq> []" using assms(3,4) by auto
  then have "parseCommand (?p @ drop m (encode_request args)) = parseCommand ?p"
    using * verdict_final by blast
  then have "parseCommand ?p = CmdOK args (length (encode_request args))"
    using resp_roundtrip_aux [OF assms(1,2), of "[]"] by simp
  from parseCommand_bounds [OF this] assms(4) show False by simp
qed

theorem resp_prefix_incomplete_witness:
  "parseCommand (take 5 (encode_request [''GET''])) = CmdIncomplete"
proof (rule resp_prefix_incomplete)
  show "5 < length (encode_request [''GET''])" by code_simp
qed simp_all

text \<open>
  The nineteenth digit of a length can wrap the \<open>int64\<close> accumulator, and a wrapped array
  length is negative: the request is then taken for an empty command instead of a protocol error.
\<close>

lemma array_length_wraps:
  "parseCommand (''*9999999999999999999'' @ crlf) = CmdOK [] 22"
  by code_simp

end
