(* ===== verification/Commands.thy ===== *)
theory Commands
  imports Store_Upkeep Arg_Parsing Glob_Match Resp_Codec
begin

text \<open>
  The data commands of mini-redis (\<open>redis/impl/go-1/commands.go\<close>). A command takes the clock reading of
  the batch it is executed in, its arguments, the store and the client's output buffer, and returns the new
  store and buffer. Argument counts have been checked by \<open>exec\<close>. The shard locks a command takes make it one
  step on the store; the eviction that may follow a write is a separate step in the code (the lock has been
  released) and comes last here.
\<close>

section \<open>Error texts and small helpers\<close>

definition errWrongType :: bytes where
  "errWrongType = ''WRONGTYPE Operation against a key holding the wrong kind of value''"
definition errNotInt :: bytes where "errNotInt = ''ERR value is not an integer or out of range''"
definition errOverflow :: bytes where "errOverflow = ''ERR increment or decrement would overflow''"
definition errSyntax :: bytes where "errSyntax = ''ERR syntax error''"
definition errOOM :: bytes where
  "errOOM = ''OOM command not allowed when used memory > '' @ [CHR 0x27] @ ''maxmemory'' @ [CHR 0x27] @ ''.''"
definition errHashInt :: bytes where "errHashInt = ''ERR hash value is not an integer''"
definition errPositive :: bytes where "errPositive = ''ERR value is out of range, must be positive''"

definition quoted :: "bytes \<Rightarrow> bytes" where "quoted s = [CHR 0x27] @ s @ [CHR 0x27]"

definition errArgs :: "bytes \<Rightarrow> bytes" where
  "errArgs name = ''ERR wrong number of arguments for '' @ quoted name @ '' command''"
definition errExpire :: "bytes \<Rightarrow> bytes" where
  "errExpire name = ''ERR invalid expire time in '' @ quoted name @ '' command''"

definition afterWrite :: "env \<Rightarrow> bytes list \<Rightarrow> store \<Rightarrow> store" where
  "afterWrite e keys d =
     (if maxMemory (proc d) > 0 \<and> globalUsed (proc d) > maxMemory (proc d) then
        let (w, ss) = evict e keys (proc d) (shards d) in d\<lparr>proc := w, shards := ss\<rparr>
      else d)"

definition set_obj :: "nat \<Rightarrow> obj \<Rightarrow> shard \<Rightarrow> shard" where
  "set_obj i ob s = s\<lparr>objs := (objs s)[i := Some ob]\<rparr>"

section \<open>Locking several keys\<close>

text \<open>The inner loop of \<open>lockKeys\<close> finds the place of a shard number in the sorted list, or that it is there
  already.\<close>

fun lock_insert :: "nat \<Rightarrow> nat list \<Rightarrow> nat list" where
  "lock_insert si [] = [si]"
| "lock_insert si (l # ls) = (if l = si then l # ls else if l > si then si # l # ls else l # lock_insert si ls)"

fun every :: "nat \<Rightarrow> 'a list \<Rightarrow> 'a list" where
  "every step [] = []"
| "every step (x # xs) = x # every step (drop (step - 1) xs)"

definition lockKeys :: "env \<Rightarrow> bytes list \<Rightarrow> nat \<Rightarrow> nat list \<times> nat list" where
  "lockKeys e keys step =
     (let hs = map (hashKey e) (every step keys)
      in (hs, foldl (\<lambda>ls h. lock_insert (shard_idx h) ls) [] hs))"

section \<open>Strings\<close>

definition cmdGet :: "env \<Rightarrow> int \<Rightarrow> bytes list \<Rightarrow> store \<Rightarrow> bytes \<Rightarrow> store \<times> bytes" where
  "cmdGet e now a d out =
     (let h = hashKey e (a ! 1); i = shard_idx h;
          (_, it, _, w, s) = get e (a ! 1) h now (proc d) (shards d ! i)
      in (put_shard d i w s,
          if it = 0 then addNull out
          else if ityp (mem w it) \<noteq> typStr then addErr out errWrongType
          else addBulk out (item_val (mem w it))))"

record setOpts =
  onx :: bool
  oxx :: bool
  oget :: bool
  okeep :: bool
  ohasExp :: bool
  oexp :: int

text \<open>The option loop of \<open>SET\<close>; \<open>Inl\<close> is the error it stops with.\<close>

fun set_opts :: "int \<Rightarrow> bytes list \<Rightarrow> setOpts \<Rightarrow> bytes + setOpts" where
  "set_opts now [] st = Inr st"
| "set_opts now (q # r) st =
     (if eqFold q ''NX'' \<and> \<not> oxx st then set_opts now r (st\<lparr>onx := True\<rparr>)
      else if eqFold q ''XX'' \<and> \<not> onx st then set_opts now r (st\<lparr>oxx := True\<rparr>)
      else if eqFold q ''GET'' then set_opts now r (st\<lparr>oget := True\<rparr>)
      else if eqFold q ''KEEPTTL'' \<and> \<not> ohasExp st then set_opts now r (st\<lparr>okeep := True\<rparr>)
      else if (eqFold q ''EX'' \<or> eqFold q ''PX'') \<and> \<not> okeep st \<and> \<not> ohasExp st \<and> r \<noteq> [] then
        (case parseInt (hd r) of
           None \<Rightarrow> Inl errNotInt
         | Some v \<Rightarrow>
             let secs = (q ! 0 = CHR ''E'' \<or> q ! 0 = CHR ''e'');
                 v1 = (if secs then v * 1000 else v)
             in if v \<le> 0 \<or> secs \<and> v > maxInt64 div 1000 \<or> v1 > maxInt64 - now then Inl (errExpire ''set'')
                else set_opts now (tl r) (st\<lparr>oexp := now + v1, ohasExp := True\<rparr>))
      else Inl errSyntax)"

definition no_opts :: setOpts where
  "no_opts = \<lparr>onx = False, oxx = False, oget = False, okeep = False, ohasExp = False, oexp = 0\<rparr>"

definition cmdSet :: "env \<Rightarrow> int \<Rightarrow> bytes list \<Rightarrow> store \<Rightarrow> bytes \<Rightarrow> store \<times> bytes" where
  "cmdSet e now a d out =
     (case set_opts now (drop 3 a) no_opts of
        Inl err \<Rightarrow> (d, addErr out err)
      | Inr st \<Rightarrow>
          let key = a ! 1; val = a ! 2; mm = maxMemory (proc d) in
          if mm > 0 \<and> int (64 + length key + length val) > mm then (d, addErr out errOOM)
          else
            let h = hashKey e key; i = shard_idx h;
                s0 = grow e (proc d) (shards d ! i);
                (idx, it, ins, w1, s1) = get e key h now (proc d) s0;
                d1 = put_shard d i w1 s1;
                old = (if it \<noteq> 0 then addBulk out (item_val (mem w1 it)) else addNull out)
            in if oget st \<and> it \<noteq> 0 \<and> ityp (mem w1 it) \<noteq> typStr then (d1, addErr out errWrongType)
               else if onx st \<and> it \<noteq> 0 \<or> oxx st \<and> it = 0 then (d1, if oget st then old else addNull out)
               else
                 let exp1 = (if okeep st \<and> it \<noteq> 0 then iexp (mem w1 it) else oexp st);
                     (w2, s2) = setStr e idx it ins h key val exp1 now w1 s1
                 in (afterWrite e [key] (put_shard d i w2 s2), if oget st then old else addOK out))"

text \<open>The loops of \<open>MGET\<close> and \<open>MSET\<close>, with the hashes computed by \<open>lockKeys\<close>.\<close>

fun mget_loop :: "env \<Rightarrow> int \<Rightarrow> bytes list \<Rightarrow> nat list \<Rightarrow> store \<Rightarrow> bytes \<Rightarrow> store \<times> bytes" where
  "mget_loop e now (k # ks) (h # hs) d out =
     (let i = shard_idx h; (_, it, _, w, s) = get e k h now (proc d) (shards d ! i)
      in mget_loop e now ks hs (put_shard d i w s)
           (if it = 0 \<or> ityp (mem w it) \<noteq> typStr then addNull out else addBulk out (item_val (mem w it))))"
| "mget_loop e now _ _ d out = (d, out)"

definition cmdMget :: "env \<Rightarrow> int \<Rightarrow> bytes list \<Rightarrow> store \<Rightarrow> bytes \<Rightarrow> store \<times> bytes" where
  "cmdMget e now a d out =
     (let keys = drop 1 a; (hs, locks) = lockKeys e keys 1
      in mget_loop e now keys hs d (addArr out (length keys)))"

fun mset_loop :: "env \<Rightarrow> int \<Rightarrow> bytes list \<Rightarrow> nat list \<Rightarrow> store \<Rightarrow> store" where
  "mset_loop e now (k # v # r) (h # hs) d =
     (let i = shard_idx h;
          s0 = grow e (proc d) (shards d ! i);
          (idx, it, ins, w1, s1) = get e k h now (proc d) s0;
          (w2, s2) = setStr e idx it ins h k v 0 now w1 s1
      in mset_loop e now r hs (put_shard d i w2 s2))"
| "mset_loop e now _ _ d = d"

fun mset_total :: "bytes list \<Rightarrow> int" where
  "mset_total (k # v # r) = int (64 + length k + length v) + mset_total r"
| "mset_total _ = 0"

definition cmdMset :: "env \<Rightarrow> int \<Rightarrow> bytes list \<Rightarrow> store \<Rightarrow> bytes \<Rightarrow> store \<times> bytes" where
  "cmdMset e now a d out =
     (if (length a - 1) mod 2 \<noteq> 0 then (d, addErr out (errArgs ''mset''))
      else if maxMemory (proc d) > 0 \<and> mset_total (drop 1 a) > maxMemory (proc d) then (d, addErr out errOOM)
      else
        let (hs, locks) = lockKeys e (drop 1 a) 2;
            d1 = mset_loop e now (drop 1 a) hs d
        in (if maxMemory (proc d) > 0 then afterWrite e (every 2 (drop 1 a)) d1 else d1, addOK out))"

definition incrBy :: "env \<Rightarrow> int \<Rightarrow> bytes \<Rightarrow> int \<Rightarrow> store \<Rightarrow> bytes \<Rightarrow> store \<times> bytes" where
  "incrBy e now key delta d out =
     (let h = hashKey e key; i = shard_idx h;
          s0 = grow e (proc d) (shards d ! i);
          (idx, it, ins, w1, s1) = get e key h now (proc d) s0;
          d1 = put_shard d i w1 s1;
          r = mem w1 it
      in if it \<noteq> 0 \<and> ityp r \<noteq> typStr then (d1, addErr out errWrongType)
         else if it \<noteq> 0 \<and> parseInt (item_val r) = None then (d1, addErr out errNotInt)
         else
           let cur = (if it \<noteq> 0 then the (parseInt (item_val r)) else 0);
               x = (if it \<noteq> 0 then iexp r else 0)
           in if delta > 0 \<and> cur > maxInt64 - delta \<or> delta < 0 \<and> cur < minInt64 - delta
              then (d1, addErr out errOverflow)
              else
                let (w2, s2) = setStr e idx it ins h key (itoa (cur + delta)) x now w1 s1
                in (afterWrite e [key] (put_shard d i w2 s2), addInt out (cur + delta)))"

definition cmdIncrby :: "env \<Rightarrow> int \<Rightarrow> bytes list \<Rightarrow> store \<Rightarrow> bytes \<Rightarrow> store \<times> bytes" where
  "cmdIncrby e now a d out =
     (case parseInt (a ! 2) of
        None \<Rightarrow> (d, addErr out errNotInt)
      | Some n \<Rightarrow> incrBy e now (a ! 1) n d out)"

definition cmdDecrby :: "env \<Rightarrow> int \<Rightarrow> bytes list \<Rightarrow> store \<Rightarrow> bytes \<Rightarrow> store \<times> bytes" where
  "cmdDecrby e now a d out =
     (case parseInt (a ! 2) of
        None \<Rightarrow> (d, addErr out errNotInt)
      | Some n \<Rightarrow> if n = minInt64 then (d, addErr out errOverflow) else incrBy e now (a ! 1) (- n) d out)"

definition cmdAppend :: "env \<Rightarrow> int \<Rightarrow> bytes list \<Rightarrow> store \<Rightarrow> bytes \<Rightarrow> store \<times> bytes" where
  "cmdAppend e now a d out =
     (let key = a ! 1; v = a ! 2; h = hashKey e key; i = shard_idx h;
          s0 = grow e (proc d) (shards d ! i);
          (idx, it, ins, w1, s1) = get e key h now (proc d) s0;
          d1 = put_shard d i w1 s1;
          mm = maxMemory w1
      in if it = 0 then
           if mm > 0 \<and> int (64 + length key + length v) > mm then (d1, addErr out errOOM)
           else
             let (w2, s2) = setStr e idx it ins h key v 0 now w1 s1
             in (afterWrite e [key] (put_shard d i w2 s2), addInt out (int (length v)))
         else if ityp (mem w1 it) \<noteq> typStr then (d1, addErr out errWrongType)
         else
           let ol = ivlen (mem w1 it); nl = ol + length v in
           if mm > 0 \<and> int (64 + length key + nl) > mm then (d1, addErr out errOOM)
           else
             let (w2, s2) =
                   (if int nl \<le> item_capacity (mem w1 it) \<and> icls (mem w1 it) \<noteq> clsBig then
                      addUsed (int (length v)) (upd_item it (setVlen nl) (upd_item it (copy_val nl ol v) w1)) s1
                    else
                      let capN = (if hdrSize + length key + (nl + nl div 4) > maxSmall then nl else nl + nl div 4);
                          (nw, w3, s3) = newItem e key capN typStr now w1 s1;
                          w4 = upd_item nw (setVlen nl) w3;
                          w5 = upd_item nw (\<lambda>r. copy_val (ivlen r) 0 (item_val (mem w4 it)) r) w4;
                          w6 = upd_item nw (\<lambda>r. copy_val (ivlen r) ol v r) w5;
                          w7 = upd_item nw (setExpRaw (iexp (mem w6 it))) w6
                      in replace_item e (the idx) it nw w7 s3)
             in (afterWrite e [key] (put_shard d i w2 s2), addInt out (int nl)))"

definition cmdStrlen :: "env \<Rightarrow> int \<Rightarrow> bytes list \<Rightarrow> store \<Rightarrow> bytes \<Rightarrow> store \<times> bytes" where
  "cmdStrlen e now a d out =
     (let h = hashKey e (a ! 1); i = shard_idx h;
          (_, it, _, w, s) = get e (a ! 1) h now (proc d) (shards d ! i)
      in (put_shard d i w s,
          if it = 0 then addInt out 0
          else if ityp (mem w it) \<noteq> typStr then addErr out errWrongType
          else addInt out (int (ivlen (mem w it)))))"

end
