(* ===== verification/Commands_Data.thy ===== *)
theory Commands_Data
  imports Commands
begin

text \<open>
  The key, list, hash and server commands of mini-redis (\<open>redis/impl/go-1/commands.go\<close>), in the form of
  the string commands of \<open>Commands\<close>.
\<close>

section \<open>Keys\<close>

text \<open>Go's integer division truncates towards zero.\<close>

definition go_div :: "int \<Rightarrow> int \<Rightarrow> int" where
  "go_div a b = sgn a * sgn b * (\<bar>a\<bar> div \<bar>b\<bar>)"

fun del_keys :: "env \<Rightarrow> int \<Rightarrow> bytes list \<Rightarrow> nat list \<Rightarrow> store \<Rightarrow> nat \<Rightarrow> store \<times> nat" where
  "del_keys e now (k # ks) (h # hs) d n =
     (let i = shard_idx h; (idx, it, _, w, s) = get e k h now (proc d) (shards d ! i)
      in if it \<noteq> 0 then
           let (w1, s1) = del e (the idx) it w s in del_keys e now ks hs (put_shard d i w1 s1) (n + 1)
         else del_keys e now ks hs (put_shard d i w s) n)"
| "del_keys e now _ _ d n = (d, n)"

definition cmdDel :: "env \<Rightarrow> int \<Rightarrow> bytes list \<Rightarrow> store \<Rightarrow> bytes \<Rightarrow> store \<times> bytes" where
  "cmdDel e now a d out =
     (let keys = drop 1 a; (hs, locks) = lockKeys e keys 1; (d1, n) = del_keys e now keys hs d 0
      in (d1, addInt out (int n)))"

fun exists_keys :: "env \<Rightarrow> int \<Rightarrow> bytes list \<Rightarrow> nat list \<Rightarrow> store \<Rightarrow> nat \<Rightarrow> store \<times> nat" where
  "exists_keys e now (k # ks) (h # hs) d n =
     (let i = shard_idx h; (_, it, _, w, s) = get e k h now (proc d) (shards d ! i)
      in exists_keys e now ks hs (put_shard d i w s) (if it \<noteq> 0 then n + 1 else n))"
| "exists_keys e now _ _ d n = (d, n)"

definition cmdExists :: "env \<Rightarrow> int \<Rightarrow> bytes list \<Rightarrow> store \<Rightarrow> bytes \<Rightarrow> store \<times> bytes" where
  "cmdExists e now a d out =
     (let keys = drop 1 a; (hs, locks) = lockKeys e keys 1; (d1, n) = exists_keys e now keys hs d 0
      in (d1, addInt out (int n)))"

definition cmdType :: "env \<Rightarrow> int \<Rightarrow> bytes list \<Rightarrow> store \<Rightarrow> bytes \<Rightarrow> store \<times> bytes" where
  "cmdType e now a d out =
     (let h = hashKey e (a ! 1); i = shard_idx h;
          (_, it, _, w, s) = get e (a ! 1) h now (proc d) (shards d ! i);
          t = (if it \<noteq> 0 then [''string'', ''list'', ''hash''] ! ityp (mem w it) else ''none'')
      in (put_shard d i w s, addSimple out t))"

definition cmdExpire :: "env \<Rightarrow> int \<Rightarrow> bytes list \<Rightarrow> int \<Rightarrow> bytes \<Rightarrow> store \<Rightarrow> bytes \<Rightarrow> store \<times> bytes" where
  "cmdExpire e now a unit_ms name d out =
     (case parseInt (a ! 2) of
        None \<Rightarrow> (d, addErr out errNotInt)
      | Some v0 \<Rightarrow>
          if v0 > go_div maxInt64 unit_ms \<or> v0 < go_div minInt64 unit_ms then (d, addErr out (errExpire name))
          else
            let v = v0 * unit_ms in
            if v > 0 \<and> v > maxInt64 - now \<or> v < 0 \<and> wrap64 (now + v) > now then (d, addErr out (errExpire name))
            else
              let at = wrap64 (now + v); h = hashKey e (a ! 1); i = shard_idx h;
                  (idx, it, _, w, s) = get e (a ! 1) h now (proc d) (shards d ! i)
              in if it = 0 then (put_shard d i w s, addInt out 0)
                 else
                   let (w1, s1) = (if at \<le> now then del e (the idx) it w s else setExp it at w s)
                   in (put_shard d i w1 s1, addInt out 1))"

definition cmdTTL :: "env \<Rightarrow> int \<Rightarrow> bytes list \<Rightarrow> bool \<Rightarrow> store \<Rightarrow> bytes \<Rightarrow> store \<times> bytes" where
  "cmdTTL e now a secs d out =
     (let h = hashKey e (a ! 1); i = shard_idx h;
          (_, it, _, w, s) = get e (a ! 1) h now (proc d) (shards d ! i);
          r = (if it = 0 then - 2
               else if iexp (mem w it) = 0 then - 1
               else let r0 = wrap64 (iexp (mem w it) - now); r1 = (if r0 < 0 then 0 else r0)
                    in if secs then go_div (wrap64 (r1 + 500)) 1000 else r1)
      in (put_shard d i w s, addInt out r))"

definition cmdPersist :: "env \<Rightarrow> int \<Rightarrow> bytes list \<Rightarrow> store \<Rightarrow> bytes \<Rightarrow> store \<times> bytes" where
  "cmdPersist e now a d out =
     (let h = hashKey e (a ! 1); i = shard_idx h;
          (_, it, _, w, s) = get e (a ! 1) h now (proc d) (shards d ! i)
      in if it \<noteq> 0 \<and> iexp (mem w it) \<noteq> 0 then
           let (w1, s1) = setExp it 0 w s in (put_shard d i w1 s1, addInt out 1)
         else (put_shard d i w s, addInt out 0))"

text \<open>\<open>KEYS\<close>: the matching keys of one shard in slot order; the reply is assembled in a buffer of its own.\<close>

definition shard_keys :: "int \<Rightarrow> bytes \<Rightarrow> world \<Rightarrow> shard \<Rightarrow> bytes list" where
  "shard_keys now pat w s =
     concat (map (\<lambda>v. case v of
         SRef t a \<Rightarrow> if iexp (mem w a) \<noteq> 0 \<and> iexp (mem w a) \<le> now then []
                     else if globMatch pat (item_key (mem w a)) then [item_key (mem w a)] else []
       | _ \<Rightarrow> []) (slots s))"

definition cmdKeys :: "env \<Rightarrow> int \<Rightarrow> bytes list \<Rightarrow> store \<Rightarrow> bytes \<Rightarrow> store \<times> bytes" where
  "cmdKeys e now a d out =
     (let ks = concat (map (shard_keys now (a ! 1) (proc d)) (shards d));
          buf = foldl addBulk [] ks
      in (d, addArr out (length ks) @ buf))"

section \<open>Lists\<close>

definition push_delta :: "bytes list \<Rightarrow> int" where
  "push_delta vs = (\<Sum>v \<leftarrow> vs. 16 + int (length v))"

definition cmdPush :: "env \<Rightarrow> int \<Rightarrow> bytes list \<Rightarrow> bool \<Rightarrow> store \<Rightarrow> bytes \<Rightarrow> store \<times> bytes" where
  "cmdPush e now a front d out =
     (let key = a ! 1; vs = drop 2 a; h = hashKey e key; i = shard_idx h;
          s0 = grow e (proc d) (shards d ! i);
          (_, it, ins, w1, s1) = get e key h now (proc d) s0;
          d1 = put_shard d i w1 s1;
          delta = push_delta vs;
          cur = (if it \<noteq> 0 then cost w1 s1 it else int (64 + length key))
      in if it \<noteq> 0 \<and> ityp (mem w1 it) \<noteq> typList then (d1, addErr out errWrongType)
         else if maxMemory w1 > 0 \<and> cur + delta > maxMemory w1 then (d1, addErr out errOOM)
         else
           let (p, w2, s2) = (if it = 0 then newContainer e ins h key typList (LObj new_listObj) now w1 s1 else (it, w1, s1));
               l = foldl (\<lambda>l v. list_push l v front) (list_at_item w2 s2 p) vs;
               l1 = l\<lparr>lcost := lcost l + delta\<rparr>;
               (w3, s3) = addUsed delta w2 (set_obj (objIdx (mem w2 p)) (LObj l1) s2)
           in (afterWrite e [key] (put_shard d i w3 s3), addInt out (int (ln l1))))"

text \<open>The part of \<open>cmdPop\<close> after the arguments are checked; \<open>c\<close> is \<open>-1\<close> when there is no count.\<close>

definition pop_run :: "env \<Rightarrow> int \<Rightarrow> bytes \<Rightarrow> int \<Rightarrow> bool \<Rightarrow> store \<Rightarrow> bytes \<Rightarrow> store \<times> bytes" where
  "pop_run e now key c front d out =
     (let h = hashKey e key; i = shard_idx h;
          (idx, it, _, w, s) = get e key h now (proc d) (shards d ! i)
      in if it = 0 then (put_shard d i w s, if c \<ge> 0 then addNullArr out else addNull out)
         else if ityp (mem w it) \<noteq> typList then (put_shard d i w s, addErr out errWrongType)
         else
           let l = list_at_item w s it;
               n = (if c < 0 then 1 else nat (min c (int (ln l))));
               (l1, vs) = pop_many list_pop front n l;
               delta = push_delta vs;
               out1 = (if c < 0 then out else addArr out n);
               (w1, s1) = addUsed (- delta) w (set_obj (objIdx (mem w it)) (LObj (l1\<lparr>lcost := lcost l1 - delta\<rparr>)) s);
               (w2, s2) = (if ln l1 = 0 then del e (the idx) it w1 s1 else (w1, s1))
           in (put_shard d i w2 s2, foldl addBulk out1 vs))"

definition cmdPop :: "env \<Rightarrow> int \<Rightarrow> bytes list \<Rightarrow> bool \<Rightarrow> store \<Rightarrow> bytes \<Rightarrow> store \<times> bytes" where
  "cmdPop e now a front d out =
     (if length a > 3 then (d, addErr out (errArgs (if front then ''lpop'' else ''rpop'')))
      else if length a = 3 then
        (case parseInt (a ! 2) of
           Some v \<Rightarrow> if v < 0 then (d, addErr out errPositive) else pop_run e now (a ! 1) v front d out
         | None \<Rightarrow> (d, addErr out errPositive))
      else pop_run e now (a ! 1) (- 1) front d out)"

text \<open>\<open>lookupTyped\<close> returns the item (0 when absent) or \<open>None\<close> on a type mismatch, with the store after the
  lookup.\<close>

definition lookupTyped :: "env \<Rightarrow> int \<Rightarrow> bytes \<Rightarrow> nat \<Rightarrow> store \<Rightarrow> (nat option \<times> nat) option \<times> world \<times> shard" where
  "lookupTyped e now key typ d =
     (let h = hashKey e key;
          (idx, it, _, w, s) = get e key h now (proc d) (shards d ! shard_idx h)
      in (if it \<noteq> 0 \<and> ityp (mem w it) \<noteq> typ then None else Some (idx, it), w, s))"

text \<open>The read-only commands on one typed key: the lookup, \<open>WRONGTYPE\<close>, or the reply.\<close>

definition read_typed :: "env \<Rightarrow> int \<Rightarrow> bytes \<Rightarrow> nat \<Rightarrow> (world \<Rightarrow> shard \<Rightarrow> nat \<Rightarrow> bytes) \<Rightarrow> store \<Rightarrow> bytes \<Rightarrow> store \<times> bytes" where
  "read_typed e now key typ reply d out =
     (let (r, w, s) = lookupTyped e now key typ d; d1 = put_shard d (shard_idx (hashKey e key)) w s
      in case r of
           None \<Rightarrow> (d1, addErr out errWrongType)
         | Some (idx, it) \<Rightarrow> (d1, reply w s it))"

definition cmdLlen :: "env \<Rightarrow> int \<Rightarrow> bytes list \<Rightarrow> store \<Rightarrow> bytes \<Rightarrow> store \<times> bytes" where
  "cmdLlen e now a d out = read_typed e now (a ! 1) typList
     (\<lambda>w s it. addInt out (if it \<noteq> 0 then int (ln (list_at_item w s it)) else 0)) d out"

definition range_reply :: "int \<Rightarrow> int \<Rightarrow> listObj \<Rightarrow> bytes \<Rightarrow> bytes" where
  "range_reply start stop l out =
     (let n = int (ln l);
          start1 = (if start < 0 then start + n else start);
          stop1 = (if stop < 0 then stop + n else stop);
          start2 = (if start1 < 0 then 0 else start1)
      in if start2 > stop1 \<or> start2 \<ge> n then addArr out 0
         else
           let stop2 = (if stop1 \<ge> n then n - 1 else stop1)
           in foldl addBulk (addArr out (nat (stop2 - start2 + 1))) (map (list_at l) [nat start2..<nat stop2 + 1]))"

definition cmdLrange :: "env \<Rightarrow> int \<Rightarrow> bytes list \<Rightarrow> store \<Rightarrow> bytes \<Rightarrow> store \<times> bytes" where
  "cmdLrange e now a d out =
     (case (parseInt (a ! 2), parseInt (a ! 3)) of
        (Some start, Some stop) \<Rightarrow>
          read_typed e now (a ! 1) typList
            (\<lambda>w s it. if it = 0 then addArr out 0 else range_reply start stop (list_at_item w s it) out) d out
      | _ \<Rightarrow> (d, addErr out errNotInt))"

definition cmdLindex :: "env \<Rightarrow> int \<Rightarrow> bytes list \<Rightarrow> store \<Rightarrow> bytes \<Rightarrow> store \<times> bytes" where
  "cmdLindex e now a d out =
     (case parseInt (a ! 2) of
        None \<Rightarrow> (d, addErr out errNotInt)
      | Some idx0 \<Rightarrow>
          read_typed e now (a ! 1) typList
            (\<lambda>w s it.
               if it = 0 then addNull out
               else
                 let l = list_at_item w s it; idx = (if idx0 < 0 then idx0 + int (ln l) else idx0)
                 in if idx < 0 \<or> idx \<ge> int (ln l) then addNull out else addBulk out (list_at l (nat idx))) d out)"

section \<open>Hashes\<close>

definition toLower :: "bytes \<Rightarrow> bytes" where
  "toLower = map (\<lambda>c. if CHR ''A'' \<le> c \<and> c \<le> CHR ''Z'' then char_of (bval c + 32) else c)"

fun fields_total :: "bytes list \<Rightarrow> int" where
  "fields_total (f # v # r) = int (32 + length f + length v) + fields_total r"
| "fields_total _ = 0"

definition cmdHset :: "env \<Rightarrow> int \<Rightarrow> bytes list \<Rightarrow> store \<Rightarrow> bytes \<Rightarrow> store \<times> bytes" where
  "cmdHset e now a d out =
     (if length a mod 2 \<noteq> 0 then (d, addErr out (errArgs (toLower (a ! 0))))
      else
        let key = a ! 1; fvs = drop 2 a; h = hashKey e key; i = shard_idx h;
            s0 = grow e (proc d) (shards d ! i);
            (_, it, ins, w1, s1) = get e key h now (proc d) s0;
            d1 = put_shard d i w1 s1;
            cur = (if it \<noteq> 0 then cost w1 s1 it else int (64 + length key))
        in if it \<noteq> 0 \<and> ityp (mem w1 it) \<noteq> typHash then (d1, addErr out errWrongType)
           else if maxMemory w1 > 0 \<and> cur + fields_total fvs > maxMemory w1 then (d1, addErr out errOOM)
           else
             let (p, w2, s2) = (if it = 0 then newContainer e ins h key typHash (HObj new_hashObj) now w1 s1 else (it, w1, s1));
                 (ho, delta, added) = set_loop hash_set (hash_at_item w2 s2 p) fvs;
                 (w3, s3) = addUsed delta w2 (set_obj (objIdx (mem w2 p)) (HObj (ho\<lparr>hcost := hcost ho + delta\<rparr>)) s2)
             in (afterWrite e [key] (put_shard d i w3 s3), addInt out (int added)))"

definition cmdHmset :: "env \<Rightarrow> int \<Rightarrow> bytes list \<Rightarrow> store \<Rightarrow> bytes \<Rightarrow> store \<times> bytes" where
  "cmdHmset e now a d out =
     (let l = length out; (d1, out1) = cmdHset e now a d out
      in (d1, if length out1 > l \<and> out1 ! l = CHR '':'' then addOK (take l out1) else out1))"

definition cmdHget :: "env \<Rightarrow> int \<Rightarrow> bytes list \<Rightarrow> store \<Rightarrow> bytes \<Rightarrow> store \<times> bytes" where
  "cmdHget e now a d out = read_typed e now (a ! 1) typHash
     (\<lambda>w s it.
        if it = 0 then addNull out
        else case hash_get (hash_at_item w s it) (a ! 2) of Some v \<Rightarrow> addBulk out v | None \<Rightarrow> addNull out) d out"

definition cmdHdel :: "env \<Rightarrow> int \<Rightarrow> bytes list \<Rightarrow> store \<Rightarrow> bytes \<Rightarrow> store \<times> bytes" where
  "cmdHdel e now a d out =
     (let i = shard_idx (hashKey e (a ! 1)); (r, w, s) = lookupTyped e now (a ! 1) typHash d
      in case r of
           None \<Rightarrow> (put_shard d i w s, addErr out errWrongType)
         | Some (idx, it) \<Rightarrow>
             if it = 0 then (put_shard d i w s, addInt out 0)
             else
               let (ho, delta, n) = del_loop hash_del (hash_at_item w s it) (drop 2 a);
                   (w1, s1) = addUsed (- delta) w (set_obj (objIdx (mem w it)) (HObj (ho\<lparr>hcost := hcost ho - delta\<rparr>)) s);
                   (w2, s2) = (if hash_size ho = 0 then del e (the idx) it w1 s1 else (w1, s1))
               in (put_shard d i w2 s2, addInt out (int n)))"

text \<open>Go ranges over a map in an order the program cannot know: the parameter \<open>mapOrder\<close>.\<close>

definition cmdHgetall :: "env \<Rightarrow> int \<Rightarrow> bytes list \<Rightarrow> store \<Rightarrow> bytes \<Rightarrow> store \<times> bytes" where
  "cmdHgetall e now a d out = read_typed e now (a ! 1) typHash
     (\<lambda>w s it.
        if it = 0 then addArr out 0
        else
          let ho = hash_at_item w s it; out1 = addArr out (hash_size ho * 2)
          in case hm ho of
               Some al \<Rightarrow> foldl (\<lambda>out (f, v). addBulk (addBulk out f) v) out1 (mapOrder e al)
             | None \<Rightarrow> foldl addBulk out1 (hkv ho)) d out"

definition cmdHlen :: "env \<Rightarrow> int \<Rightarrow> bytes list \<Rightarrow> store \<Rightarrow> bytes \<Rightarrow> store \<times> bytes" where
  "cmdHlen e now a d out = read_typed e now (a ! 1) typHash
     (\<lambda>w s it. addInt out (if it \<noteq> 0 then int (hash_size (hash_at_item w s it)) else 0)) d out"

definition cmdHexists :: "env \<Rightarrow> int \<Rightarrow> bytes list \<Rightarrow> store \<Rightarrow> bytes \<Rightarrow> store \<times> bytes" where
  "cmdHexists e now a d out = read_typed e now (a ! 1) typHash
     (\<lambda>w s it. addInt out (if it \<noteq> 0 \<and> hash_get (hash_at_item w s it) (a ! 2) \<noteq> None then 1 else 0)) d out"

definition cmdHincrby :: "env \<Rightarrow> int \<Rightarrow> bytes list \<Rightarrow> store \<Rightarrow> bytes \<Rightarrow> store \<times> bytes" where
  "cmdHincrby e now a d out =
     (case parseInt (a ! 3) of
        None \<Rightarrow> (d, addErr out errNotInt)
      | Some delta \<Rightarrow>
          let key = a ! 1; f = a ! 2; h = hashKey e key; i = shard_idx h;
              s0 = grow e (proc d) (shards d ! i);
              (_, it, ins, w1, s1) = get e key h now (proc d) s0;
              d1 = put_shard d i w1 s1;
              old = (if it \<noteq> 0 then hash_get (hash_at_item w1 s1 it) f else None)
          in if it \<noteq> 0 \<and> ityp (mem w1 it) \<noteq> typHash then (d1, addErr out errWrongType)
             else if old \<noteq> None \<and> parseInt (the old) = None then (d1, addErr out errHashInt)
             else
               let cur = (case old of Some v \<Rightarrow> the (parseInt v) | None \<Rightarrow> 0) in
               if delta > 0 \<and> cur > maxInt64 - delta \<or> delta < 0 \<and> cur < minInt64 - delta
               then (d1, addErr out errOverflow)
               else
                 let nv = itoa (cur + delta);
                     est = int (64 + length key + 32 + length f + length nv) + (if it \<noteq> 0 then cost w1 s1 it else 0)
                 in if maxMemory w1 > 0 \<and> est > maxMemory w1 then (d1, addErr out errOOM)
                    else
                      let (p, w2, s2) = (if it = 0 then newContainer e ins h key typHash (HObj new_hashObj) now w1 s1 else (it, w1, s1));
                          ho = fst (hash_set (hash_at_item w2 s2 p) f nv);
                          c = (case old of Some v \<Rightarrow> int (length nv) - int (length v)
                               | None \<Rightarrow> int (32 + length f + length nv));
                          (w3, s3) = addUsed c w2 (set_obj (objIdx (mem w2 p)) (HObj (ho\<lparr>hcost := hcost ho + c\<rparr>)) s2)
                      in (afterWrite e [key] (put_shard d i w3 s3), addInt out (cur + delta)))"

section \<open>Server commands on the store\<close>

definition cmdDbsize :: "store \<Rightarrow> bytes \<Rightarrow> store \<times> bytes" where
  "cmdDbsize d out = (d, addInt out (\<Sum>s \<leftarrow> shards d. scount s))"

definition cmdFlushall :: "env \<Rightarrow> store \<Rightarrow> bytes \<Rightarrow> store \<times> bytes" where
  "cmdFlushall e d out = (flush_store e d, addOK out)"

text \<open>What \<open>runtime.ReadMemStats\<close> reports is a parameter.\<close>

record memStats =
  heapInuse :: nat
  heapIdle :: nat
  heapReleased :: nat
  sysBytes :: nat

definition cmdInfo :: "int \<Rightarrow> memStats \<Rightarrow> store \<Rightarrow> bytes \<Rightarrow> store \<times> bytes" where
  "cmdInfo connected ms d out =
     (let usedSum = (\<Sum>s \<leftarrow> shards d. used s); keys = (\<Sum>s \<leftarrow> shards d. scount s); expires = (\<Sum>s \<leftarrow> shards d. nexp s);
          b = ''# Server'' @ crlf @ ''redis_version:8.0.0'' @ crlf @ ''redis_mode:standalone'' @ crlf
              @ crlf @ ''# Clients'' @ crlf @ ''connected_clients:'' @ itoa connected
              @ crlf @ crlf @ ''# Memory'' @ crlf @ ''used_memory:'' @ itoa usedSum
              @ crlf @ ''go_heap_inuse:'' @ udigits (heapInuse ms)
              @ crlf @ ''go_heap_idle:'' @ udigits (heapIdle ms)
              @ crlf @ ''go_heap_released:'' @ udigits (heapReleased ms)
              @ crlf @ ''go_sys:'' @ udigits (sysBytes ms)
              @ crlf @ ''maxmemory:'' @ itoa (maxMemory (proc d))
              @ crlf @ ''maxmemory_policy:allkeys-lru'' @ crlf @ crlf @ ''# Keyspace'' @ crlf
              @ (if keys > 0 then ''db0:keys='' @ itoa keys @ '',expires='' @ itoa expires @ '',avg_ttl=0'' @ crlf else [])
      in (d, addBulk out b))"

end
