(* ===== verification/Pubsub.thy ===== *)
theory Pubsub
  imports Commands_Data
begin

text \<open>
  Clients and publish/subscribe (\<open>redis/impl/go-1/pubsub.go\<close> and the output half of \<open>main.go\<close>). A client
  writes directly to its connection until it subscribes; from then on everything goes through \<open>pending\<close>
  and a writer goroutine that a one-place channel wakes up. What the connection has accepted is recorded
  in \<open>sent\<close>.
\<close>

section \<open>Clients\<close>

text \<open>Where the writer goroutine is: waiting on the channel, woken and about to take the pending bytes,
  writing the bytes it took, or finished.\<close>

datatype wstate = WIdle | WWoken | WWriting bytes | WDone

record client =
  rbuf :: bytes
  cr :: nat
  cw :: nat
  cout :: bytes
  cnow :: int
  quit :: bool
  subs :: "bytes list"
  async :: bool
  pending :: bytes
  sig :: bool
  sigClosed :: bool
  dead :: bool
  wst :: wstate
  sent :: bytes
  connClosed :: bool
  peerGone :: bool

definition rbufInit :: nat where "rbufInit = 4096"
definition outMax :: nat where "outMax = 64 * 1024"
definition maxPending :: nat where "maxPending = 32 * 1024 * 1024"

definition new_client :: client where
  "new_client = \<lparr>rbuf = replicate rbufInit (CHR 0x00), cr = 0, cw = 0, cout = [], cnow = 0, quit = False, subs = [],
     async = False, pending = [], sig = False, sigClosed = False, dead = False, wst = WDone, sent = [],
     connClosed = False, peerGone = False\<rparr>"

text \<open>\<open>conn.Write\<close>: it succeeds while the connection is open on both sides.\<close>

definition conn_ok :: "client \<Rightarrow> bool" where
  "conn_ok c \<longleftrightarrow> \<not> connClosed c \<and> \<not> peerGone c"

definition conn_write :: "bytes \<Rightarrow> client \<Rightarrow> client" where
  "conn_write b c = (if conn_ok c then c\<lparr>sent := sent c @ b\<rparr> else c)"

text \<open>The channel send is a \<open>select\<close> with a default: a signal that is already there stays.\<close>

definition deliverLocked :: "bytes \<Rightarrow> client \<Rightarrow> client" where
  "deliverLocked b c =
     (if dead c then c
      else let p = pending c @ b in
        if length p > maxPending then c\<lparr>dead := True, pending := [], sigClosed := True, connClosed := True\<rparr>
        else c\<lparr>pending := p, sig := True\<rparr>)"

definition pushAsync :: "client \<Rightarrow> client" where
  "pushAsync c = (deliverLocked (cout c) c)\<lparr>cout := []\<rparr>"

definition flush :: "client \<Rightarrow> bool \<times> client" where
  "flush c =
     (if cout c = [] then (True, c)
      else if async c then (True, pushAsync c)
      else (conn_ok c, (conn_write (cout c) c)\<lparr>cout := []\<rparr>))"

definition startAsync :: "client \<Rightarrow> client" where
  "startAsync c =
     (if async c then c
      else (snd (flush c))\<lparr>async := True, sig := False, sigClosed := False, wst := WIdle\<rparr>)"

text \<open>The writer goroutine, one step at a time; \<open>None\<close> when it cannot move.\<close>

definition writer_step :: "client \<Rightarrow> client option" where
  "writer_step c =
     (case wst c of
        WIdle \<Rightarrow> if sig c then Some (c\<lparr>sig := False, wst := WWoken\<rparr>)
                 else if sigClosed c then Some (c\<lparr>connClosed := True, wst := WDone\<rparr>)
                 else None
      | WWoken \<Rightarrow> Some (c\<lparr>wst := WWriting (pending c), pending := []\<rparr>)
      | WWriting b \<Rightarrow>
          let c1 = (if b \<noteq> [] then (if conn_ok c then conn_write b c else c\<lparr>connClosed := True\<rparr>) else c)
          in Some (c1\<lparr>wst := WIdle\<rparr>)
      | WDone \<Rightarrow> None)"

section \<open>The server\<close>

record server =
  sstore :: store
  chans :: "bytes \<rightharpoonup> nat list"
  clients :: "nat \<Rightarrow> client"
  connected :: int

definition upd_client :: "nat \<Rightarrow> (client \<Rightarrow> client) \<Rightarrow> server \<Rightarrow> server" where
  "upd_client i f sv = sv\<lparr>clients := (clients sv)(i := f (clients sv i))\<rparr>"

text \<open>\<open>appendPushHdr\<close>.\<close>

definition appendPushHdr :: "bytes \<Rightarrow> bytes \<Rightarrow> bytes \<Rightarrow> bytes" where
  "appendPushHdr b kind ch =
     b @ ''*3'' @ crlf @ ''$'' @ itoa (int (length kind)) @ crlf @ kind @ crlf
       @ ''$'' @ itoa (int (length ch)) @ crlf @ ch @ crlf"

definition subscribe_one :: "nat \<Rightarrow> bytes \<Rightarrow> server \<Rightarrow> server" where
  "subscribe_one i ch sv =
     (let sv1 = (if ch \<in> set (subs (clients sv i)) then sv
                 else
                   let m = (case chans sv ch of Some m \<Rightarrow> m | None \<Rightarrow> [])
                   in (upd_client i (\<lambda>c. c\<lparr>subs := subs c @ [ch]\<rparr>) sv)
                        \<lparr>chans := (chans sv)(ch \<mapsto> (if i \<in> set m then m else m @ [i]))\<rparr>);
          n = length (subs (clients sv1 i));
          buf = addInt (appendPushHdr [] ''subscribe'' ch) (int n)
      in upd_client i (deliverLocked buf) sv1)"

definition cmdSubscribe :: "nat \<Rightarrow> bytes list \<Rightarrow> server \<Rightarrow> server" where
  "cmdSubscribe i a sv = foldl (\<lambda>sv ch. subscribe_one i ch sv) (upd_client i (\<lambda>c. pushAsync (startAsync c)) sv) (drop 1 a)"

definition unsubOne :: "nat \<Rightarrow> bytes \<Rightarrow> server \<Rightarrow> server" where
  "unsubOne i name sv =
     (let sv1 = upd_client i (\<lambda>c. c\<lparr>subs := filter (\<lambda>n. n \<noteq> name) (subs c)\<rparr>) sv
      in case chans sv name of
           None \<Rightarrow> sv1
         | Some m \<Rightarrow>
             let m1 = filter (\<lambda>j. j \<noteq> i) m
             in sv1\<lparr>chans := (chans sv1)(name := (if m1 = [] then None else Some m1))\<rparr>)"

definition unsub_reply :: "nat \<Rightarrow> bytes \<Rightarrow> server \<Rightarrow> server" where
  "unsub_reply i n sv =
     (let sv1 = unsubOne i n sv
      in upd_client i (\<lambda>c. c\<lparr>cout := addInt (appendPushHdr (cout c) ''unsubscribe'' n) (int (length (subs c)))\<rparr>) sv1)"

text \<open>\<open>ord\<close> is the order in which Go ranges over the subscriptions.\<close>

definition cmdUnsubscribe :: "(bytes list \<Rightarrow> bytes list) \<Rightarrow> nat \<Rightarrow> bytes list \<Rightarrow> server \<Rightarrow> server" where
  "cmdUnsubscribe ord i a sv =
     (let names = (if length a > 1 then drop 1 a else ord (subs (clients sv i)))
      in if length a \<le> 1 \<and> names = [] then
           upd_client i (\<lambda>c. c\<lparr>cout := cout c @ ''*3'' @ crlf @ ''$11'' @ crlf @ ''unsubscribe'' @ crlf @ ''$-1'' @ crlf @ '':0'' @ crlf\<rparr>) sv
         else foldl (\<lambda>sv n. unsub_reply i n sv) sv names)"

definition pubsubUnsubAll :: "(bytes list \<Rightarrow> bytes list) \<Rightarrow> nat \<Rightarrow> server \<Rightarrow> server" where
  "pubsubUnsubAll ord i sv = foldl (\<lambda>sv n. unsubOne i n sv) sv (ord (subs (clients sv i)))"

definition publish_msg :: "bytes \<Rightarrow> bytes \<Rightarrow> bytes" where
  "publish_msg ch v = addBulk (appendPushHdr [] ''message'' ch) v"

definition cmdPublish :: "nat \<Rightarrow> bytes list \<Rightarrow> server \<Rightarrow> server" where
  "cmdPublish i a sv =
     (let m = (case chans sv (a ! 1) of Some m \<Rightarrow> m | None \<Rightarrow> []);
          sv1 = foldl (\<lambda>sv j. upd_client j (deliverLocked (publish_msg (a ! 1) (a ! 2))) sv) sv m
      in upd_client i (\<lambda>c. c\<lparr>cout := addInt (cout c) (int (length m))\<rparr>) sv1)"

definition cleanup :: "(bytes list \<Rightarrow> bytes list) \<Rightarrow> nat \<Rightarrow> server \<Rightarrow> server" where
  "cleanup ord i sv =
     (let sv1 = (if subs (clients sv i) \<noteq> [] then pubsubUnsubAll ord i sv else sv)
      in upd_client i (\<lambda>c.
           if async c then (if \<not> dead c then c\<lparr>dead := True, sigClosed := True\<rparr> else c)
           else c\<lparr>connClosed := True\<rparr>) sv1)"

end
