(* ===== verification/Session.thy ===== *)
theory Session
  imports Pubsub
begin

text \<open>
  The command table and \<open>exec\<close> of \<open>redis/impl/go-1/commands.go\<close>, and the session loop of \<open>main.go\<close>:
  \<open>serve\<close> reads into the client's buffer, \<open>process\<close> executes every complete command in it.
\<close>

section \<open>The command table\<close>

text \<open>Name, arity (negative: at least that many arguments) and whether a subscribed client may use it.\<close>

definition command_table :: "(bytes \<times> int \<times> bool) list" where
  "command_table =
     [(''ping'', - 1, True), (''quit'', - 1, True), (''subscribe'', - 2, True), (''unsubscribe'', - 1, True),
      (''publish'', 3, False), (''echo'', 2, False), (''dbsize'', 1, False), (''flushall'', - 1, False),
      (''flushdb'', - 1, False), (''info'', - 1, False), (''config'', - 2, False), (''command'', - 1, False),
      (''select'', 2, False),
      (''get'', 2, False), (''set'', - 3, False), (''mget'', - 2, False), (''mset'', - 3, False),
      (''incr'', 2, False), (''decr'', 2, False), (''incrby'', 3, False), (''decrby'', 3, False),
      (''append'', 3, False), (''strlen'', 2, False),
      (''del'', - 2, False), (''unlink'', - 2, False), (''exists'', - 2, False), (''type'', 2, False),
      (''expire'', 3, False), (''pexpire'', 3, False), (''ttl'', 2, False), (''pttl'', 2, False),
      (''persist'', 2, False), (''keys'', 2, False),
      (''lpush'', - 3, False), (''rpush'', - 3, False), (''lpop'', - 2, False), (''rpop'', - 2, False),
      (''llen'', 2, False), (''lrange'', 4, False), (''lindex'', 3, False),
      (''hset'', - 4, False), (''hmset'', - 4, False), (''hget'', 3, False), (''hdel'', - 3, False),
      (''hgetall'', 2, False), (''hlen'', 2, False), (''hexists'', 3, False), (''hincrby'', 4, False)]"

text \<open>What the handlers take from outside, in addition to the store's environment: the order of \<open>range\<close> over
  a set of strings, and the memory statistics of the Go runtime.\<close>

record senv =
  renv :: env
  rangeOrder :: "bytes list \<Rightarrow> bytes list"
  memstats :: memStats

definition cmdPing :: "bytes list \<Rightarrow> client \<Rightarrow> client" where
  "cmdPing a c =
     (let o1 = cout c in
      c\<lparr>cout :=
        (if length a > 2 then addErr o1 (errArgs ''ping'')
         else if length (subs c) > 0 then
           (let o2 = o1 @ ''*2'' @ crlf @ ''$4'' @ crlf @ ''pong'' @ crlf
            in if length a = 2 then addBulk o2 (a ! 1) else o2 @ ''$0'' @ crlf @ crlf)
         else if length a = 2 then addBulk o1 (a ! 1)
         else o1 @ ''+PONG'' @ crlf)\<rparr>)"

definition cmdQuit :: "client \<Rightarrow> client" where
  "cmdQuit c = c\<lparr>cout := addOK (cout c), quit := True\<rparr>"

definition cmdSelect :: "bytes list \<Rightarrow> bytes \<Rightarrow> bytes" where
  "cmdSelect a out = (if a ! 1 = ''0'' then addOK out else addErr out ''ERR DB index is out of range'')"

text \<open>The commands that work on the store and the output buffer only, by their lower-case name.\<close>

definition data_cmd :: "env \<Rightarrow> int \<Rightarrow> bytes \<Rightarrow> bytes list \<Rightarrow> store \<Rightarrow> bytes \<Rightarrow> store \<times> bytes" where
  "data_cmd e now name a d out =
     (if name = ''echo'' then (d, addBulk out (a ! 1))
      else if name = ''dbsize'' then cmdDbsize d out
      else if name = ''flushall'' \<or> name = ''flushdb'' then cmdFlushall e d out
      else if name = ''config'' \<or> name = ''command'' then (d, addArr out 0)
      else if name = ''select'' then (d, cmdSelect a out)
      else if name = ''get'' then cmdGet e now a d out
      else if name = ''set'' then cmdSet e now a d out
      else if name = ''mget'' then cmdMget e now a d out
      else if name = ''mset'' then cmdMset e now a d out
      else if name = ''incr'' then incrBy e now (a ! 1) 1 d out
      else if name = ''decr'' then incrBy e now (a ! 1) (- 1) d out
      else if name = ''incrby'' then cmdIncrby e now a d out
      else if name = ''decrby'' then cmdDecrby e now a d out
      else if name = ''append'' then cmdAppend e now a d out
      else if name = ''strlen'' then cmdStrlen e now a d out
      else if name = ''del'' \<or> name = ''unlink'' then cmdDel e now a d out
      else if name = ''exists'' then cmdExists e now a d out
      else if name = ''type'' then cmdType e now a d out
      else if name = ''expire'' then cmdExpire e now a 1000 ''expire'' d out
      else if name = ''pexpire'' then cmdExpire e now a 1 ''pexpire'' d out
      else if name = ''ttl'' then cmdTTL e now a True d out
      else if name = ''pttl'' then cmdTTL e now a False d out
      else if name = ''persist'' then cmdPersist e now a d out
      else if name = ''keys'' then cmdKeys e now a d out
      else if name = ''lpush'' then cmdPush e now a True d out
      else if name = ''rpush'' then cmdPush e now a False d out
      else if name = ''lpop'' then cmdPop e now a True d out
      else if name = ''rpop'' then cmdPop e now a False d out
      else if name = ''llen'' then cmdLlen e now a d out
      else if name = ''lrange'' then cmdLrange e now a d out
      else if name = ''lindex'' then cmdLindex e now a d out
      else if name = ''hset'' then cmdHset e now a d out
      else if name = ''hmset'' then cmdHmset e now a d out
      else if name = ''hget'' then cmdHget e now a d out
      else if name = ''hdel'' then cmdHdel e now a d out
      else if name = ''hgetall'' then cmdHgetall e now a d out
      else if name = ''hlen'' then cmdHlen e now a d out
      else if name = ''hexists'' then cmdHexists e now a d out
      else if name = ''hincrby'' then cmdHincrby e now a d out
      else (d, out))"

definition run_command :: "senv \<Rightarrow> nat \<Rightarrow> bytes \<Rightarrow> bytes list \<Rightarrow> server \<Rightarrow> server" where
  "run_command se i name a sv =
     (let c = clients sv i in
      if name = ''ping'' then upd_client i (cmdPing a) sv
      else if name = ''quit'' then upd_client i cmdQuit sv
      else if name = ''subscribe'' then cmdSubscribe i a sv
      else if name = ''unsubscribe'' then cmdUnsubscribe (rangeOrder se) i a sv
      else if name = ''publish'' then cmdPublish i a sv
      else
        let (d, out) = (if name = ''info'' then cmdInfo (connected sv) (memstats se) (sstore sv) (cout c)
                        else data_cmd (renv se) (cnow c) name a (sstore sv) (cout c))
        in (upd_client i (\<lambda>c. c\<lparr>cout := out\<rparr>) sv)\<lparr>sstore := d\<rparr>)"

section \<open>exec\<close>

definition lookup_command :: "bytes \<Rightarrow> (bytes \<times> int \<times> bool) option" where
  "lookup_command name =
     (if length name \<le> 24 then find (\<lambda>(n, _). map upper n = map upper name) command_table else None)"

definition err_unknown :: "bytes list \<Rightarrow> bytes" where
  "err_unknown args =
     ''ERR unknown command '' @ [CHR 0x27] @ sanitize (args ! 0) @ [CHR 0x27] @ '', with args beginning with: ''
       @ concat (map (\<lambda>a. [CHR 0x27] @ sanitize a @ [CHR 0x27] @ '' '') (drop 1 args))"

definition err_subscribed :: "bytes \<Rightarrow> bytes" where
  "err_subscribed name =
     ''ERR Can'' @ [CHR 0x27] @ ''t execute '' @ quoted name
       @ '': only (P|S)SUBSCRIBE / (P|S)UNSUBSCRIBE / PING / QUIT / RESET are allowed in this context''"

definition bad_arity :: "int \<Rightarrow> nat \<Rightarrow> bool" where
  "bad_arity arity n \<longleftrightarrow> (arity > 0 \<and> int n \<noteq> arity) \<or> (arity < 0 \<and> int n < - arity)"

definition exec :: "senv \<Rightarrow> nat \<Rightarrow> bytes list \<Rightarrow> server \<Rightarrow> server" where
  "exec se i args sv =
     (let c = clients sv i;
          err = (\<lambda>t. upd_client i (\<lambda>c. c\<lparr>cout := addErr (cout c) t\<rparr>) sv);
          sv1 = (case lookup_command (args ! 0) of
                   None \<Rightarrow> err (err_unknown args)
                 | Some (name, arity, subOK) \<Rightarrow>
                     if bad_arity arity (length args) then err (errArgs name)
                     else if length (subs c) > 0 \<and> \<not> subOK then err (err_subscribed name)
                     else run_command se i name args sv);
          c1 = clients sv1 i
      in if async c1 \<and> length (cout c1) > 0 then upd_client i pushAsync sv1 else sv1)"

section \<open>The session loop\<close>

text \<open>The loop of \<open>process\<close> over the unread part \<open>b\<close> of the buffer: it returns whether the connection goes on
  and how many bytes have been consumed.\<close>

function process_loop :: "senv \<Rightarrow> nat \<Rightarrow> bytes \<Rightarrow> server \<Rightarrow> bool \<times> nat \<times> server" where
  "process_loop se i b sv =
     (if b = [] then (True, 0, sv)
      else case parseCommand b of
        CmdIncomplete \<Rightarrow> (True, 0, sv)
      | CmdError \<Rightarrow>
          (False, 0, upd_client i (\<lambda>c. snd (flush (c\<lparr>cout := addErr (cout c) ''ERR Protocol error: invalid request''\<rparr>))) sv)
      | CmdOK args n \<Rightarrow>
          if n = 0 \<or> length b < n then (True, 0, sv)
          else
            let sv1 = (if args \<noteq> [] then exec se i args sv else sv); c1 = clients sv1 i
            in if args \<noteq> [] \<and> quit c1 then (False, n, upd_client i (\<lambda>c. snd (flush c)) sv1)
               else if args \<noteq> [] \<and> length (cout c1) > outMax then
                 (if fst (flush c1) then
                    let (go, k, sv2) = process_loop se i (drop n b) (upd_client i (\<lambda>c. snd (flush c)) sv1) in (go, n + k, sv2)
                  else (False, n, upd_client i (\<lambda>c. snd (flush c)) sv1))
               else let (go, k, sv2) = process_loop se i (drop n b) sv1 in (go, n + k, sv2))"
  by pat_completeness auto
termination by (relation "measure (\<lambda>(se, i, b, sv). length b)") auto

declare process_loop.simps [simp del]

text \<open>The buffer after the loop: emptied and perhaps given back, or its tail moved to the front, and doubled
  when it is full.\<close>

definition compact :: "client \<Rightarrow> client" where
  "compact c =
     (let c1 = (if cr c = cw c then
                  c\<lparr>cr := 0, cw := 0, rbuf := (if length (rbuf c) > 256 * 1024 then replicate rbufInit (CHR 0x00) else rbuf c)\<rparr>
                else if cr c > 0 then
                  c\<lparr>rbuf := go_copy (rbuf c) (take (cw c - cr c) (drop (cr c) (rbuf c))), cw := cw c - cr c, cr := 0\<rparr>
                else c)
      in if cw c1 = length (rbuf c1)
         then c1\<lparr>rbuf := go_copy (replicate (length (rbuf c1) * 2) (CHR 0x00)) (take (cw c1) (rbuf c1))\<rparr>
         else c1)"

definition unread :: "client \<Rightarrow> bytes" where
  "unread c = take (cw c - cr c) (drop (cr c) (rbuf c))"

definition process :: "senv \<Rightarrow> nat \<Rightarrow> server \<Rightarrow> bool \<times> server" where
  "process se i sv =
     (let (go, n, sv1) = process_loop se i (unread (clients sv i)) sv;
          sv2 = upd_client i (\<lambda>c. c\<lparr>cr := cr c + n\<rparr>) sv1
      in if \<not> go then (False, sv2)
         else if \<not> fst (flush (clients sv2 i)) then (False, upd_client i (\<lambda>c. snd (flush c)) sv2)
         else (True, upd_client i (\<lambda>c. compact (snd (flush c))) sv2))"

text \<open>One round of \<open>serve\<close>: \<open>conn.Read\<close> has put \<open>data\<close> into the free part of the buffer.\<close>

definition read_into :: "bytes \<Rightarrow> int \<Rightarrow> client \<Rightarrow> client" where
  "read_into data now c =
     c\<lparr>rbuf := take (cw c) (rbuf c) @ go_copy (drop (cw c) (rbuf c)) data,
       cw := cw c + min (length data) (length (rbuf c) - cw c), cnow := now\<rparr>"

definition serve_round :: "senv \<Rightarrow> nat \<Rightarrow> bytes \<Rightarrow> int \<Rightarrow> server \<Rightarrow> bool \<times> server" where
  "serve_round se i data now sv =
     (if data = [] then (True, sv) else process se i (upd_client i (read_into data now) sv))"

definition serve_start :: "nat \<Rightarrow> server \<Rightarrow> server" where
  "serve_start i sv = (upd_client i (\<lambda>_. new_client) sv)\<lparr>connected := connected sv + 1\<rparr>"

definition serve_end :: "senv \<Rightarrow> nat \<Rightarrow> server \<Rightarrow> server" where
  "serve_end se i sv = (cleanup (rangeOrder se) i sv)\<lparr>connected := connected sv - 1\<rparr>"

end
