(* ===== verification/Command_Refine.thy ===== *)
theory Command_Refine
  imports Commands_Data
begin

text \<open>
  The framework in which the commands are proved correct: what clients can observe of the keyspace at a
  time, what a lookup establishes, the lifting of an operation on one key, and the outcome of a write that
  may be followed by eviction.
\<close>

declare One_nat_def [simp del]

section \<open>What clients observe\<close>

definition view :: "env \<Rightarrow> int \<Rightarrow> store \<Rightarrow> keyspace" where
  "view e now d = live now (db e d)"

lemma live_live: "now \<le> later \<Longrightarrow> live later (live now m) = live later m"
  by (auto simp: live_def fun_eq_iff split: option.splits)

text \<open>Time passes: what is visible later is what is visible of the earlier view.\<close>

lemma view_later: "now \<le> later \<Longrightarrow> view e later d = live later (view e now d)"
  by (simp add: view_def live_live)

definition timely :: "int \<Rightarrow> (rval \<times> int) option \<Rightarrow> bool" where
  "timely now x \<longleftrightarrow> (case x of None \<Rightarrow> True | Some (v, t) \<Rightarrow> t = 0 \<or> now < t)"

lemma timely_simps [simp]: "timely now None" "timely now (Some (v, t)) \<longleftrightarrow> t = 0 \<or> now < t"
  by (simp_all add: timely_def)

lemma timely_live [simp]: "timely now (live now m k)"
  by (auto simp: live_def split: option.splits)

lemma timely_view [simp]: "timely now (view e now d k)"
  by (simp add: view_def)

lemma live_upd: "timely now x \<Longrightarrow> live now (m(k := x)) = (live now m)(k := x)"
  by (auto simp: live_def fun_eq_iff split: option.splits)

lemma live_restrict: "live now (m |` A) = (live now m) |` A"
  by (auto simp: live_def restrict_map_def fun_eq_iff)

lemma view_nonempty: "view e now d k = Some x \<Longrightarrow> db e d k = Some x"
  by (auto simp: view_def live_def split: option.splits prod.splits if_splits)

text \<open>Every stored entry is old or one the command wrote; nothing else appears, not even among expired keys.\<close>

definition only_new :: "env \<Rightarrow> store \<Rightarrow> keyspace \<Rightarrow> store \<Rightarrow> bool" where
  "only_new e d m d' \<longleftrightarrow> (\<forall>k. db e d' k = None \<or> db e d' k = db e d k \<or> db e d' k = m k)"

definition became :: "env \<Rightarrow> int \<Rightarrow> store \<Rightarrow> keyspace \<Rightarrow> store \<Rightarrow> bool" where
  "became e now d m d' \<longleftrightarrow> store_inv e d' \<and> maxMemory (proc d') = maxMemory (proc d) \<and> view e now d' = m \<and> only_new e d m d'"

lemma becameD: "became e now d m d' \<Longrightarrow> store_inv e d'" "became e now d m d' \<Longrightarrow> maxMemory (proc d') = maxMemory (proc d)"
  "became e now d m d' \<Longrightarrow> view e now d' = m"
  by (simp_all add: became_def)

lemma became_refl: "store_inv e d \<Longrightarrow> became e now d (view e now d) d"
  by (simp add: became_def only_new_def)

lemma became_trans:
  assumes a: "became e now d m d1" and b: "became e now d1 m2 d2"
  shows "became e now d m2 d2"
proof -
  have "db e d2 k = None \<or> db e d2 k = db e d k \<or> db e d2 k = m2 k" for k
  proof (cases "db e d2 k = m k \<and> m k \<noteq> None")
    case True
    have "timely now (db e d2 k)" using True becameD(3) [OF a] timely_view by metis
    then have "view e now d2 k = db e d2 k" by (auto simp: view_def live_def split: option.splits)
    then show ?thesis using becameD(3) [OF b] by simp
  next
    case False
    moreover have "db e d2 k = None \<or> db e d2 k = db e d1 k \<or> db e d2 k = m2 k" "db e d1 k = None \<or> db e d1 k = db e d k \<or> db e d1 k = m k"
      using a b unfolding became_def only_new_def by blast+
    ultimately show ?thesis by metis
  qed
  then show ?thesis using a b by (simp add: became_def only_new_def)
qed

text \<open>The outcome of a command: the invariant, the limit, and the new view up to keys that eviction removed.
  Eviction never touches the keys of the command, and without a limit it removes nothing.\<close>

definition outcome :: "env \<Rightarrow> int \<Rightarrow> bytes list \<Rightarrow> store \<Rightarrow> keyspace \<Rightarrow> store \<Rightarrow> bool" where
  "outcome e now ks d m d' \<longleftrightarrow> store_inv e d' \<and> maxMemory (proc d') = maxMemory (proc d)
     \<and> (\<exists>R. R \<inter> set ks = {} \<and> (maxMemory (proc d) \<le> 0 \<longrightarrow> R = {}) \<and> view e now d' = m |` (- R)) \<and> only_new e d m d'"

text \<open>A command on one key, as a function from what is stored at the key to the reply and the new entry.\<close>

definition refines_key :: "env \<Rightarrow> int \<Rightarrow> bytes \<Rightarrow> ((rval \<times> int) option \<Rightarrow> bytes \<times> (rval \<times> int) option)
    \<Rightarrow> store \<Rightarrow> bytes \<Rightarrow> store \<times> bytes \<Rightarrow> bool" where
  "refines_key e now key f d out r \<longleftrightarrow>
     (let (reply, x) = f (view e now d key)
      in snd r = out @ reply \<and> outcome e now [key] d ((view e now d)(key := x)) (fst r))"

lemma outcome_exact:
  "became e now d m d' \<Longrightarrow> outcome e now ks d m d'"
  by (auto simp: became_def outcome_def restrict_map_def intro!: exI [of _ "{}"])

lemma outcome_refl: "store_inv e d \<Longrightarrow> outcome e now ks d (view e now d) d"
  by (rule outcome_exact [OF became_refl])

lemma afterWrite_outcome:
  assumes rd: "rand_ok e" and b: "became e now d m d1"
  shows "outcome e now ks d m (afterWrite e ks d1)"
proof (cases "maxMemory (proc d1) > 0 \<and> globalUsed (proc d1) > maxMemory (proc d1)")
  case True
  note inv = becameD(1) [OF b] and mm = becameD(2) [OF b]
  have v: "view e now d1 = m" "only_new e d m d1" using b by (simp_all add: became_def)
  from evict_loop_ok [OF rd inv n_items_fuel [OF inv], of ks] obtain w' shs' where
    r: "evict_loop e ks (evict_fuel (shards d1)) (proc d1) (shards d1) = Some (w', shs')"
    and sv: "survives e ks d1 (d1\<lparr>proc := w', shards := shs'\<rparr>)" by blast
  have a: "afterWrite e ks d1 = d1\<lparr>proc := w', shards := shs'\<rparr>" using True r by (simp add: afterWrite_def evict_def)
  from sv obtain R where R: "R \<inter> set ks = {}" "db e (afterWrite e ks d1) = (db e d1) |` (- R)"
    by (auto simp: survives_def a)
  have "view e now (afterWrite e ks d1) = m |` (- R)" using v(1) by (simp add: view_def R(2) live_restrict)
  moreover have "only_new e d m (afterWrite e ks d1)" using v(2) by (auto simp: only_new_def R(2) restrict_map_def)
  ultimately show ?thesis using sv R(1) True mm by (auto simp: outcome_def survives_def a)
next
  case False
  then show ?thesis using outcome_exact [OF b] by (auto simp: afterWrite_def)
qed

section \<open>Lookups\<close>

text \<open>What \<open>get\<close> establishes on the shard of the key, with or without growing the table first.\<close>

definition looked :: "env \<Rightarrow> int \<Rightarrow> bytes \<Rightarrow> store \<Rightarrow> nat option \<Rightarrow> nat \<Rightarrow> nat option \<Rightarrow> world \<Rightarrow> shard \<Rightarrow> bool" where
  "looked e now key d idx it ins w s \<longleftrightarrow>
     (\<forall>F M. shard_inv e F M (proc d) (shards d ! shard_idx (hashKey e key)) \<longrightarrow>
        shard_op e key F M (proc d) (shards d ! shard_idx (hashKey e key)) w s (view e now d key))
     \<and> found e key w s idx it ins \<and> (it = 0 \<longleftrightarrow> view e now d key = None)
     \<and> (it \<noteq> 0 \<longrightarrow> view e now d key = Some (entry w s it) \<and> item_ok e (mem w it) \<and> obj_ok w s it)
     \<and> maxMemory w = maxMemory (proc d)"

lemma store_shard:
  assumes "store_inv e d" "i < nShards"
  obtains F M where "shard_inv e F M (proc d) (shards d ! i)"
proof -
  obtain FLs where "shards_ok e (proc d) (shards d) FLs" using assms(1) by (auto simp: store_inv_def)
  from shards_ok_shard [OF this assms(2)] show ?thesis using that by (auto simp: shard_inv_def)
qed

lemma view_kv: "view e now d key = live now (kv (proc d) (shards d ! shard_idx (hashKey e key))) key"
  by (simp add: view_def db_def live_def)

lemma looked_intro:
  assumes inv: "store_inv e d" and s0: "\<And>F M. shard_inv e F M (proc d) (shards d ! shard_idx (hashKey e key)) \<Longrightarrow>
      shard_inv e F M (proc d) s0 \<and> kv (proc d) s0 = kv (proc d) (shards d ! shard_idx (hashKey e key))
      \<and> used s0 = used (shards d ! shard_idx (hashKey e key))"
    and r: "get e key (hashKey e key) now (proc d) s0 = (idx, it, ins, w, s)"
  shows "looked e now key d idx it ins w s \<and> (has_room s0 \<longrightarrow> has_room s)"
proof -
  let ?s = "shards d ! shard_idx (hashKey e key)"
  obtain F0 M0 where i0: "shard_inv e F0 M0 (proc d) ?s" using store_shard [OF inv shard_idx_less] .
  note g0 = get_ok [OF conjunct1 [OF s0 [OF i0]] r]
  have kv0: "kv (proc d) s0 = kv (proc d) ?s" using s0 [OF i0] by blast
  have v: "view e now d key = live now (kv (proc d) s0) key" by (simp add: view_kv kv0)
  have op: "shard_op e key F M (proc d) ?s w s (view e now d key)" if "shard_inv e F M (proc d) ?s" for F M
    using get_ok [OF conjunct1 [OF s0 [OF that]] r] s0 [OF that] by (auto simp: shard_op_def v framed_def)
  have ent: "view e now d key = Some (entry w s it) \<and> item_ok e (mem w it) \<and> obj_ok w s it" if "it \<noteq> 0"
  proof -
    note fo = found_old [OF conjunct1 [OF conjunct2 [OF conjunct2 [OF g0]]] that]
    obtain FL where "sh e F0 M0 w s FL" using g0 by (auto simp: shard_inv_def)
    from shD(6,7) [OF this, of it] fo g0 show ?thesis by (simp add: v)
  qed
  have "maxMemory w = maxMemory (proc d)" using g0 by (simp add: framed_def)
  moreover have "it = 0 \<longleftrightarrow> view e now d key = None" "found e key w s idx it ins" using g0 v by simp_all
  ultimately show ?thesis using op ent g0 unfolding looked_def by blast
qed

lemma get_looked:
  assumes "store_inv e d" "get e key (hashKey e key) now (proc d) (shards d ! shard_idx (hashKey e key)) = (idx, it, ins, w, s)"
  shows "looked e now key d idx it ins w s"
  using looked_intro [OF assms(1) _ assms(2)] by blast

lemma grow_looked:
  assumes inv: "store_inv e d"
    and r: "get e key (hashKey e key) now (proc d) (grow e (proc d) (shards d ! shard_idx (hashKey e key))) = (idx, it, ins, w, s)"
  shows "looked e now key d idx it ins w s" "has_room s"
proof -
  let ?s = "shards d ! shard_idx (hashKey e key)"
  have g: "shard_inv e F M (proc d) (grow e (proc d) ?s) \<and> kv (proc d) (grow e (proc d) ?s) = kv (proc d) ?s
      \<and> used (grow e (proc d) ?s) = used ?s \<and> has_room (grow e (proc d) ?s)" if i: "shard_inv e F M (proc d) ?s" for F M
  proof -
    obtain FL where "sh e F M (proc d) ?s FL" using i by (auto simp: shard_inv_def)
    from grow_ok [OF this] show ?thesis by (auto simp: shard_inv_def)
  qed
  obtain F0 M0 where "shard_inv e F0 M0 (proc d) ?s" using store_shard [OF inv shard_idx_less] .
  then have room: "has_room (grow e (proc d) ?s)" using g by blast
  have "looked e now key d idx it ins w s \<and> (has_room (grow e (proc d) ?s) \<longrightarrow> has_room s)"
    by (rule looked_intro [OF inv _ r]) (use g in blast)
  with room show "looked e now key d idx it ins w s" "has_room s" by blast+
qed

text \<open>An operation that follows the lookup, on the same shard and key.\<close>

definition key_op :: "env \<Rightarrow> bytes \<Rightarrow> world \<Rightarrow> shard \<Rightarrow> world \<Rightarrow> shard \<Rightarrow> (rval \<times> int) option \<Rightarrow> bool" where
  "key_op e key w s w' s' v \<longleftrightarrow> (\<forall>F M. shard_inv e F M w s \<longrightarrow> shard_op e key F M w s w' s' v)"

lemma put_op:
  assumes inv: "store_inv e d" and lk: "looked e now key d idx it ins w s" and op: "key_op e key w s w' s' v"
    and tm: "timely now v"
  shows "became e now d ((view e now d)(key := v)) (put_shard d (shard_idx (hashKey e key)) w' s')"
proof -
  have "shard_op e key F M (proc d) (shards d ! shard_idx (hashKey e key)) w' s' v"
    if "shard_inv e F M (proc d) (shards d ! shard_idx (hashKey e key))" for F M
  proof -
    have 1: "shard_op e key F M (proc d) (shards d ! shard_idx (hashKey e key)) w s (view e now d key)"
      using lk that by (simp add: looked_def)
    then have "shard_op e key F M w s w' s' v" using op unfolding key_op_def shard_op_def by blast
    with 1 show ?thesis by (rule shard_op_trans)
  qed
  from store_step [OF inv this] show ?thesis by (simp add: became_def view_def live_upd [OF tm] put_shard_def only_new_def)
qed

lemma key_op_idle: "looked e now key d idx it ins w s \<Longrightarrow> store_inv e d \<Longrightarrow> key_op e key w s w s (view e now d key)"
proof -
  assume lk: "looked e now key d idx it ins w s" and inv: "store_inv e d"
  obtain F M where i0: "shard_inv e F M (proc d) (shards d ! shard_idx (hashKey e key))" using store_shard [OF inv shard_idx_less] .
  have "kv w s key = view e now d key" using lk i0 by (auto simp: looked_def shard_op_def)
  then show ?thesis by (auto simp: key_op_def shard_op_def)
qed

lemma put_idle:
  assumes "store_inv e d" "looked e now key d idx it ins w s"
  shows "became e now d (view e now d) (put_shard d (shard_idx (hashKey e key)) w s)"
  using put_op [OF assms key_op_idle [OF assms(2,1)]] by simp

lemma refines_idle:
  assumes "store_inv e d" "looked e now key d idx it ins w s" "f (view e now d key) = (reply, view e now d key)"
  shows "refines_key e now key f d out (put_shard d (shard_idx (hashKey e key)) w s, out @ reply)"
  using put_idle [OF assms(1,2)] assms(3) by (simp add: refines_key_def outcome_exact)

lemma refines_none:
  assumes "store_inv e d" "f (view e now d key) = (reply, view e now d key)"
  shows "refines_key e now key f d out (d, out @ reply)"
  using assms by (simp add: refines_key_def outcome_refl)

lemma refines_op:
  assumes "store_inv e d" "looked e now key d idx it ins w s" "key_op e key w s w' s' v" "timely now v"
    "f (view e now d key) = (reply, v)"
  shows "refines_key e now key f d out (put_shard d (shard_idx (hashKey e key)) w' s', out @ reply)"
  using put_op [OF assms(1-4)] assms(5) by (simp add: refines_key_def outcome_exact)

lemma refines_write:
  assumes rd: "rand_ok e" and inv: "store_inv e d" and lk: "looked e now key d idx it ins w s"
    and op: "key_op e key w s w' s' v" and tm: "timely now v" and f: "f (view e now d key) = (reply, v)"
  shows "refines_key e now key f d out (afterWrite e [key] (put_shard d (shard_idx (hashKey e key)) w' s'), out @ reply)"
  using put_op [OF inv lk op tm] f by (auto simp: refines_key_def intro!: afterWrite_outcome [OF rd])

text \<open>Every writer of replies appends.\<close>

lemma reply_out:
  "addErr out s = out @ addErr [] s" "addInt out n = out @ addInt [] n" "addSimple out s = out @ addSimple [] s"
  "addNull out = out @ addNull []" "addNullArr out = out @ addNullArr []" "addOK out = out @ addOK []"
  "addArr out k = out @ addArr [] k" "addBulk out s = out @ addBulk [] s"
  by (simp_all add: reply_defs)

lemma entry_cases:
  assumes "obj_ok w s it"
  shows "(case entry w s it of
       (VStr v, t) \<Rightarrow> ityp (mem w it) = typStr \<and> v = item_val (mem w it)
     | (VList xs, t) \<Rightarrow> ityp (mem w it) = typList \<and> xs = list_elems (list_at_item w s it)
     | (VHash m, t) \<Rightarrow> ityp (mem w it) = typHash \<and> m = hash_fields (hash_at_item w s it)) \<and> snd (entry w s it) = iexp (mem w it)"
  using assms by (auto simp: entry_def val_of_def obj_ok_def)

section \<open>What an entry costs\<close>

definition val_cost :: "rval \<Rightarrow> int" where
  "val_cost v = (case v of VStr b \<Rightarrow> int (length b) | VList xs \<Rightarrow> list_cost xs | VHash m \<Rightarrow> map_cost m)"

definition entry_cost :: "bytes \<Rightarrow> rval \<times> int \<Rightarrow> int" where
  "entry_cost k x = int (64 + length k) + val_cost (fst x)"

lemma item_lengths: "item_ok e r \<Longrightarrow> length (item_val r) = ivlen r \<and> length (item_key r) = iklen r"
  by (auto simp: item_ok_def item_val_def item_valN_def item_key_def)

lemma cost_entry:
  assumes "item_ok e (mem w a)" "obj_ok w s a"
  shows "cost w s a = entry_cost (key_at w a) (entry w s a)"
  using assms item_lengths [OF assms(1)]
  by (auto simp: cost_def entry_cost_def entry_def val_of_def val_cost_def obj_ok_def key_at_def Let_def
      list_at_item_def hash_at_item_def as_list_def as_hash_def)

end
