(* ===== verification/Command_Strings.thy ===== *)
theory Command_Strings
  imports Command_Refine
begin

text \<open>
  The string commands against their specification: each is a function from what is stored at its key to the
  reply and the new entry.
\<close>

section \<open>Specification\<close>

definition spec_get :: "(rval \<times> int) option \<Rightarrow> bytes \<times> (rval \<times> int) option" where
  "spec_get x = ((case x of None \<Rightarrow> addNull [] | Some (VStr v, t) \<Rightarrow> addBulk [] v | _ \<Rightarrow> addErr [] errWrongType), x)"

definition spec_strlen :: "(rval \<times> int) option \<Rightarrow> bytes \<times> (rval \<times> int) option" where
  "spec_strlen x =
     ((case x of None \<Rightarrow> addInt [] 0 | Some (VStr v, t) \<Rightarrow> addInt [] (int (length v)) | _ \<Rightarrow> addErr [] errWrongType), x)"

definition is_str :: "(rval \<times> int) option \<Rightarrow> bool" where
  "is_str x = (case x of Some (VStr v, t) \<Rightarrow> True | _ \<Rightarrow> False)"

definition old_reply :: "(rval \<times> int) option \<Rightarrow> bytes" where
  "old_reply x = (case x of Some (VStr v, t) \<Rightarrow> addBulk [] v | _ \<Rightarrow> addNull [])"

definition too_big :: "int \<Rightarrow> int \<Rightarrow> bool" where
  "too_big mm n \<longleftrightarrow> 0 < mm \<and> mm < n"

definition spec_set :: "int \<Rightarrow> int \<Rightarrow> bytes \<Rightarrow> bytes \<Rightarrow> bytes list \<Rightarrow> (rval \<times> int) option \<Rightarrow> bytes \<times> (rval \<times> int) option" where
  "spec_set now mm key val opts x =
     (case set_opts now opts no_opts of
        Inl err \<Rightarrow> (addErr [] err, x)
      | Inr st \<Rightarrow>
          if too_big mm (int (64 + length key + length val)) then (addErr [] errOOM, x)
          else if oget st \<and> x \<noteq> None \<and> \<not> is_str x then (addErr [] errWrongType, x)
          else if onx st \<and> x \<noteq> None \<or> oxx st \<and> x = None then (if oget st then old_reply x else addNull [], x)
          else (if oget st then old_reply x else addOK [],
                Some (VStr val, if okeep st \<and> x \<noteq> None then snd (the x) else oexp st)))"

definition spec_incr :: "int \<Rightarrow> (rval \<times> int) option \<Rightarrow> bytes \<times> (rval \<times> int) option" where
  "spec_incr delta x =
     (let upd = (\<lambda>cur t. if in64 (cur + delta) then (addInt [] (cur + delta), Some (VStr (itoa (cur + delta)), t))
                         else (addErr [] errOverflow, x))
      in case x of
           None \<Rightarrow> upd 0 0
         | Some (VStr v, t) \<Rightarrow> (case parseInt v of Some cur \<Rightarrow> upd cur t | None \<Rightarrow> (addErr [] errNotInt, x))
         | _ \<Rightarrow> (addErr [] errWrongType, x))"

definition spec_append :: "int \<Rightarrow> bytes \<Rightarrow> bytes \<Rightarrow> (rval \<times> int) option \<Rightarrow> bytes \<times> (rval \<times> int) option" where
  "spec_append mm key v x =
     (let upd = (\<lambda>old t. if too_big mm (int (64 + length key + length old + length v)) then (addErr [] errOOM, x)
                         else (addInt [] (int (length old + length v)), Some (VStr (old @ v), t)))
      in case x of None \<Rightarrow> upd [] 0 | Some (VStr old, t) \<Rightarrow> upd old t | _ \<Rightarrow> (addErr [] errWrongType, x))"

section \<open>Reading and setting\<close>

text \<open>The item at the key, when there is one, in terms of the view.\<close>

lemma looked_item:
  assumes "looked e now key d idx it ins w s" "it \<noteq> 0"
  shows "view e now d key = Some (entry w s it)" "snd (entry w s it) = iexp (mem w it)" "obj_ok w s it" "item_ok e (mem w it)"
    "it \<in> refs (slots s)" "key_at w it = key" "ref_at (slots s) (the idx) it" "found e key w s idx it ins"
  using assms found_old [of e key w s idx it ins] by (auto simp: looked_def entry_def)

lemma looked_timely: "looked e now key d idx it ins w s \<Longrightarrow> it \<noteq> 0 \<Longrightarrow> iexp (mem w it) = 0 \<or> now < iexp (mem w it)"
  using timely_view [of now e d key] looked_item(1) [of e now key d idx it ins w s] by (simp add: entry_def)

lemma looked_new: "looked e now key d idx 0 ins w s \<Longrightarrow> view e now d key = None \<and> found e key w s idx 0 ins"
  by (simp add: looked_def)

lemma looked_zero: "looked e now key d idx it ins w s \<Longrightarrow> it = 0 \<longleftrightarrow> view e now d key = None"
  by (simp add: looked_def)

lemma looked_mm: "looked e now key d idx it ins w s \<Longrightarrow> maxMemory w = maxMemory (proc d)"
  by (simp add: looked_def)

lemma looked_str:
  assumes "looked e now key d idx it ins w s" "it \<noteq> 0"
  shows "is_str (view e now d key) \<longleftrightarrow> ityp (mem w it) = typStr"
    "ityp (mem w it) = typStr \<Longrightarrow> view e now d key = Some (VStr (item_val (mem w it)), iexp (mem w it))"
  using looked_item(1) [OF assms] entry_cases [OF looked_item(3) [OF assms]]
  by (auto simp: is_str_def entry_def val_of_def split: rval.splits)

lemma not_str: "x \<noteq> None \<Longrightarrow> \<not> is_str x \<Longrightarrow> (\<exists>l t. x = Some (VList l, t)) \<or> (\<exists>h t. x = Some (VHash h, t))"
  by (auto simp: is_str_def split: rval.splits)

lemma cmdGet_ok:
  assumes "store_inv e d"
  shows "refines_key e now (a ! 1) spec_get d out (cmdGet e now a d out)"
proof -
  obtain idx it ins w s where g: "get e (a ! 1) (hashKey e (a ! 1)) now (proc d) (shards d ! shard_idx (hashKey e (a ! 1))) = (idx, it, ins, w, s)"
    by (metis prod_cases5)
  note lk = get_looked [OF assms g]
  let ?x = "view e now d (a ! 1)"
  have "spec_get ?x = (if it = 0 then addNull [] else if ityp (mem w it) \<noteq> typStr then addErr [] errWrongType
      else addBulk [] (item_val (mem w it)), ?x)"
  proof (cases "it = 0")
    case True
    then show ?thesis using looked_zero [OF lk] by (simp add: spec_get_def)
  next
    case False
    have "?x \<noteq> None" using looked_zero [OF lk] False by simp
    then show ?thesis using looked_str [OF lk False] not_str [of ?x] False by (auto simp: spec_get_def)
  qed
  from refines_idle [where f = spec_get and out = out, OF assms lk this] show ?thesis
    by (simp add: cmdGet_def g Let_def reply_out(1,4,8) [of out] split: if_splits)
qed

lemma item_val_length: "item_ok e r \<Longrightarrow> length (item_val r) = ivlen r"
  using item_lengths by blast

lemma cmdStrlen_ok:
  assumes "store_inv e d"
  shows "refines_key e now (a ! 1) spec_strlen d out (cmdStrlen e now a d out)"
proof -
  obtain idx it ins w s where g: "get e (a ! 1) (hashKey e (a ! 1)) now (proc d) (shards d ! shard_idx (hashKey e (a ! 1))) = (idx, it, ins, w, s)"
    by (metis prod_cases5)
  note lk = get_looked [OF assms g]
  let ?x = "view e now d (a ! 1)"
  have "spec_strlen ?x = (if it = 0 then addInt [] 0 else if ityp (mem w it) \<noteq> typStr then addErr [] errWrongType
      else addInt [] (int (ivlen (mem w it))), ?x)"
  proof (cases "it = 0")
    case True
    then show ?thesis using looked_zero [OF lk] by (simp add: spec_strlen_def)
  next
    case False
    have "?x \<noteq> None" using looked_zero [OF lk] False by simp
    then show ?thesis using looked_str [OF lk False] not_str [of ?x] False item_val_length [OF looked_item(4) [OF lk False]]
      by (auto simp: spec_strlen_def)
  qed
  from refines_idle [where f = spec_strlen and out = out, OF assms lk this] show ?thesis
    by (simp add: cmdStrlen_def g Let_def reply_out(1,2) [of out] split: if_splits)
qed

lemma setStr_key:
  assumes os: "os_ok e" and lk: "looked e now key d idx it ins w s" and room: "has_room s"
    and len: "length key < 2 ^ 32" "length val < 2 ^ 32"
    and r: "setStr e idx it ins (hashKey e key) key val x now w s = (w', s')"
  shows "key_op e key w s w' s' (Some (VStr val, x))"
proof -
  have "found e key w s idx it ins" using lk by (simp add: looked_def)
  from setStr_ok [OF os _ this _ len r] room show ?thesis unfolding key_op_def shard_op_def by blast
qed

text \<open>The expiry time is the one given or a later 64-bit time.\<close>

lemma set_opts_inv:
  "set_opts now opts st = Inr st' \<Longrightarrow> (\<And>v. 0 < v \<Longrightarrow> now + v \<le> maxInt64 \<Longrightarrow> P (now + v)) \<Longrightarrow> P (oexp st) \<Longrightarrow> P (oexp st')"
proof (induction now opts st rule: set_opts.induct)
  case (2 now q r st)
  note IH = "2.IH" and P = "2.prems"
  show ?case
  proof (cases "eqFold q ''NX'' \<and> \<not> oxx st")
    case nx: False
    show ?thesis
    proof (cases "eqFold q ''XX'' \<and> \<not> onx st")
      case xx: False
      show ?thesis
      proof (cases "eqFold q ''GET''")
        case gt: False
        show ?thesis
        proof (cases "eqFold q ''KEEPTTL'' \<and> \<not> ohasExp st")
          case kp: False
          let ?c = "(eqFold q ''EX'' \<or> eqFold q ''PX'') \<and> \<not> okeep st \<and> \<not> ohasExp st \<and> r \<noteq> []"
          have c: ?c using P(1) nx xx gt kp by (auto split: if_splits)
          obtain v where v: "parseInt (hd r) = Some v" using P(1) nx xx gt kp c by (cases "parseInt (hd r)") auto
          let ?secs = "q ! 0 = CHR ''E'' \<or> q ! 0 = CHR ''e''" and ?v1 = "if q ! 0 = CHR ''E'' \<or> q ! 0 = CHR ''e'' then v * 1000 else v"
          have e: "\<not> (v \<le> 0 \<or> ?secs \<and> v > maxInt64 div 1000 \<or> ?v1 > maxInt64 - now)"
            "set_opts now (tl r) (st\<lparr>oexp := now + ?v1, ohasExp := True\<rparr>) = Inr st'"
            using P(1) nx xx gt kp c v by (auto simp: Let_def split: if_splits)
          have "P (now + ?v1)" by (rule P(2)) (use e(1) in auto)
          then show ?thesis using IH(5) [OF nx xx gt kp c v refl refl e(1) e(2) P(2)] by simp
        qed (use IH(4) P nx xx gt in simp)
      qed (use IH(3) P nx xx in simp)
    qed (use IH(2) P nx in simp)
  qed (use IH(1) P in simp)
qed simp

lemma set_opts_exp:
  assumes "0 \<le> now" "set_opts now opts no_opts = Inr st"
  shows "oexp st = 0 \<or> now < oexp st" "oexp st \<le> maxInt64"
  using set_opts_inv [OF assms(2), of "\<lambda>t. t = 0 \<or> now < t"] set_opts_inv [OF assms(2), of "\<lambda>t. t \<le> maxInt64"]
  by (auto simp: no_opts_def maxInt64_def)

lemma cmdSet_ok:
  assumes rd: "rand_ok e" and inv: "store_inv e d" and len: "length (a ! 1) < 2 ^ 32" "length (a ! 2) < 2 ^ 32" and now: "0 \<le> now"
  shows "refines_key e now (a ! 1) (spec_set now (maxMemory (proc d)) (a ! 1) (a ! 2) (drop 3 a)) d out (cmdSet e now a d out)"
proof (cases "set_opts now (drop 3 a) no_opts")
  case (Inl err)
  have "spec_set now (maxMemory (proc d)) (a ! 1) (a ! 2) (drop 3 a) (view e now d (a ! 1)) = (addErr [] err, view e now d (a ! 1))"
    by (simp add: spec_set_def Inl)
  from refines_none [where f = "spec_set now (maxMemory (proc d)) (a ! 1) (a ! 2) (drop 3 a)" and out = out, OF inv this]
  show ?thesis by (simp add: cmdSet_def Inl reply_out(1) [of out])
next
  case (Inr st)
  let ?key = "a ! 1" and ?val = "a ! 2" and ?mm = "maxMemory (proc d)"
  let ?x = "view e now d ?key" and ?i = "shard_idx (hashKey e (a ! 1))" and ?f = "spec_set now ?mm (a ! 1) (a ! 2) (drop 3 a)"
  have os: "os_ok e" using inv by (simp add: store_inv_def)
  obtain idx it ins w s where g: "get e ?key (hashKey e ?key) now (proc d) (grow e (proc d) (shards d ! ?i)) = (idx, it, ins, w, s)"
    by (metis prod_cases5)
  note lk = grow_looked(1) [OF inv g] and room = grow_looked(2) [OF inv g]
  have z: "it = 0 \<longleftrightarrow> ?x = None" by (rule looked_zero [OF lk])
  have old: "old_reply ?x = (if it \<noteq> 0 then addBulk [] (item_val (mem w it)) else addNull [])" if "it \<noteq> 0 \<longrightarrow> ityp (mem w it) = typStr"
  proof (cases "it = 0")
    case True
    then have "?x = None" using z by blast
    then show ?thesis using True by (simp add: old_reply_def)
  next
    case False
    from looked_str(2) [OF lk False] that False show ?thesis by (simp add: old_reply_def)
  qed
  let ?big = "?mm > 0 \<and> int (64 + length ?key + length ?val) > ?mm"
  show ?thesis
  proof (cases ?big)
    case True
    then have "?f ?x = (addErr [] errOOM, ?x)" by (simp add: spec_set_def Inr too_big_def)
    from refines_none [where f = ?f and out = out, OF inv this] True show ?thesis by (simp add: cmdSet_def Inr reply_out(1) [of out])
  next
    case fits: False
    show ?thesis
    proof (cases "oget st \<and> it \<noteq> 0 \<and> ityp (mem w it) \<noteq> typStr")
      case True
      then have "?f ?x = (addErr [] errWrongType, ?x)"
        using fits z looked_str(1) [OF lk] by (auto simp: spec_set_def Inr too_big_def)
      from refines_idle [where f = ?f and out = out, OF inv lk this] fits True show ?thesis
        by (auto simp: cmdSet_def Inr g Let_def reply_out(1) [of out])
    next
      case typed: False
      then have str: "\<not> (oget st \<and> ?x \<noteq> None \<and> \<not> is_str ?x)" using z looked_str(1) [OF lk] by auto
      have old': "oget st \<Longrightarrow> (if it \<noteq> 0 then addBulk out (item_val (mem w it)) else addNull out) = out @ old_reply ?x"
        using old typed by (auto simp: reply_out(4,8) [of out])
      show ?thesis
      proof (cases "onx st \<and> it \<noteq> 0 \<or> oxx st \<and> it = 0")
        case True
        then have "?f ?x = (if oget st then old_reply ?x else addNull [], ?x)"
          using fits z str by (auto simp: spec_set_def Inr too_big_def)
        from refines_idle [where f = ?f and out = out, OF inv lk this] show ?thesis
          unfolding cmdSet_def Inr sum.case Let_def if_not_P [OF fits] g prod.case if_not_P [OF typed] if_P [OF True]
          using old' by (cases "oget st") (simp_all add: reply_out(4) [of out])
      next
        case False
        let ?t = "if okeep st \<and> it \<noteq> 0 then iexp (mem w it) else oexp st"
        obtain w2 s2 where r: "setStr e idx it ins (hashKey e ?key) ?key ?val ?t now w s = (w2, s2)" by fastforce
        note op = setStr_key [OF os lk room len r]
        have t: "?t = (if okeep st \<and> ?x \<noteq> None then snd (the ?x) else oexp st)"
          using z looked_item(1,2) [OF lk] by auto
        have tm: "timely now (Some (VStr ?val, ?t))"
          using set_opts_exp(1) [OF now Inr] looked_timely [OF lk] by simp
        have "?f ?x = (if oget st then old_reply ?x else addOK [], Some (VStr ?val, ?t))"
          using fits z str False unfolding t by (auto simp: spec_set_def Inr too_big_def)
        from refines_write [where f = ?f and out = out, OF rd inv lk op tm this] show ?thesis
          unfolding cmdSet_def Inr sum.case Let_def if_not_P [OF fits] g prod.case if_not_P [OF typed] if_not_P [OF False] r
          using old' by (cases "oget st") (simp_all add: reply_out(6) [of out])
      qed
    qed
  qed
qed

section \<open>Counters\<close>

lemma overflow_iff: "in64 cur \<Longrightarrow> in64 delta \<Longrightarrow>
    (delta > 0 \<and> cur > maxInt64 - delta \<or> delta < 0 \<and> cur < minInt64 - delta) \<longleftrightarrow> \<not> in64 (cur + delta)"
  by (auto simp: in64_def)

lemma itoa_short: "in64 n \<Longrightarrow> length (itoa n) < 2 ^ 32"
  using itoa_length [of n] by simp

lemma incrBy_ok:
  assumes rd: "rand_ok e" and inv: "store_inv e d" and len: "length key < 2 ^ 32" and dl: "in64 delta"
  shows "refines_key e now key (spec_incr delta) d out (incrBy e now key delta d out)"
proof -
  let ?x = "view e now d key" and ?i = "shard_idx (hashKey e key)" and ?f = "spec_incr delta"
  have os: "os_ok e" using inv by (simp add: store_inv_def)
  obtain idx it ins w s where g: "get e key (hashKey e key) now (proc d) (grow e (proc d) (shards d ! ?i)) = (idx, it, ins, w, s)"
    by (metis prod_cases5)
  note lk = grow_looked(1) [OF inv g] and room = grow_looked(2) [OF inv g]
  have z: "it = 0 \<longleftrightarrow> ?x = None" by (rule looked_zero [OF lk])
  show ?thesis
  proof (cases "it \<noteq> 0 \<and> ityp (mem w it) \<noteq> typStr")
    case True
    then have "?x \<noteq> None" "\<not> is_str ?x" using z looked_str(1) [OF lk] by auto
    then have "?f ?x = (addErr [] errWrongType, ?x)" using not_str [of ?x] by (auto simp: spec_incr_def)
    from refines_idle [where f = ?f and out = out, OF inv lk this] True show ?thesis
      by (simp add: incrBy_def g Let_def reply_out(1) [of out])
  next
    case str: False
    then have xs: "?x = Some (VStr (item_val (mem w it)), iexp (mem w it))" if "it \<noteq> 0" using looked_str(2) [OF lk that] that by blast
    show ?thesis
    proof (cases "it \<noteq> 0 \<and> parseInt (item_val (mem w it)) = None")
      case True
      then have "?f ?x = (addErr [] errNotInt, ?x)" using xs by (simp add: spec_incr_def)
      from refines_idle [where f = ?f and out = out, OF inv lk this] True str show ?thesis
        by (simp add: incrBy_def g Let_def reply_out(1) [of out])
    next
      case num: False
      define cur where "cur = (if it \<noteq> 0 then the (parseInt (item_val (mem w it))) else 0)"
      define t where "t = (if it \<noteq> 0 then iexp (mem w it) else 0)"
      have f: "?f ?x = (if in64 (cur + delta) then (addInt [] (cur + delta), Some (VStr (itoa (cur + delta)), t)) else (addErr [] errOverflow, ?x))"
      proof (cases "it = 0")
        case True
        then have "?x = None" using z by blast
        then show ?thesis using True by (simp add: spec_incr_def cur_def t_def)
      next
        case False
        then obtain v where "parseInt (item_val (mem w it)) = Some v" using num by auto
        then show ?thesis using xs [OF False] False by (simp add: spec_incr_def cur_def t_def)
      qed
      have c64: "in64 cur" using num parseInt_canonical by (auto simp: cur_def in64_iff)
      have tm: "timely now (Some (VStr (itoa (cur + delta)), t))"
      proof (cases "it = 0")
        case False
        then show ?thesis using looked_timely [OF lk False] by (simp add: t_def)
      qed (simp add: t_def)
      have eq: "incrBy e now key delta d out =
          (if \<not> in64 (cur + delta) then (put_shard d ?i w s, addErr out errOverflow)
           else case setStr e idx it ins (hashKey e key) key (itoa (cur + delta)) t now w s of
             (w2, s2) \<Rightarrow> (afterWrite e [key] (put_shard d ?i w2 s2), addInt out (cur + delta)))"
        unfolding incrBy_def Let_def g prod.case cur_def [symmetric] t_def [symmetric] if_not_P [OF str] if_not_P [OF num]
          overflow_iff [OF c64 dl] ..
      show ?thesis
      proof (cases "in64 (cur + delta)")
        case False
        from f False have "?f ?x = (addErr [] errOverflow, ?x)" by simp
        from refines_idle [where f = ?f and out = out, OF inv lk this] False show ?thesis
          by (simp add: eq reply_out(1) [of out])
      next
        case True
        obtain w2 s2 where r: "setStr e idx it ins (hashKey e key) key (itoa (cur + delta)) t now w s = (w2, s2)" by fastforce
        note op = setStr_key [OF os lk room len itoa_short [OF True] r]
        from f True have "?f ?x = (addInt [] (cur + delta), Some (VStr (itoa (cur + delta)), t))" by simp
        from refines_write [where f = ?f and out = out, OF rd inv lk op tm this] True show ?thesis
          by (simp add: eq r reply_out(2) [of out])
      qed
    qed
  qed
qed

section \<open>Appending\<close>

lemma write_at_fits: "off + length src \<le> length b \<Longrightarrow> write_at b off src = take off b @ src @ drop (off + length src) b"
  by (simp add: write_at_def go_copy_def add.commute)

lemma write_at_tail:
  assumes "k + n + length v \<le> length b"
  shows "take (n + length v) (drop k (write_at b (k + n) v)) = take n (drop k b) @ v"
  using assms by (simp add: write_at_fits drop_take)

lemma append_inplace:
  assumes sh: "sh e F M w s FL" and a: "a \<in> refs (slots s)" and ty: "ityp (mem w a) = typStr"
    and nl: "nl = ivlen (mem w a) + length v" and cap: "int nl \<le> item_capacity (mem w a)" "icls (mem w a) \<noteq> clsBig" "nl < 2 ^ 32"
    and r: "addUsed (int (length v)) (upd_item a (setVlen nl) (upd_item a (copy_val nl (ivlen (mem w a)) v) w)) s = (w', s')"
  shows "sh e F M w' s' FL \<and> kv w' s' = (kv w s)(key_at w a \<mapsto> (VStr (item_val (mem w a) @ v), iexp (mem w a))) \<and> framed F w s w' s'"
proof -
  let ?it = "mem w a" and ?d = "int (length v)"
  let ?it' = "?it\<lparr>ibytes := write_at (ibytes ?it) (iklen ?it + ivlen ?it) v, ivlen := nl\<rparr>"
  let ?w2 = "upd_item a (setVlen nl) (upd_item a (copy_val nl (ivlen ?it) v) w)"
  note D = shD [OF sh]
  have ok: "item_ok e ?it" by (rule D(6) [OF a])
  have w': "w' = fst (addUsed ?d ?w2 s)" and s': "s' = s\<lparr>used := used s + ?d\<rparr>" using r addUsed_simps(9) [of ?d ?w2 s] by auto
  have m: "mem w' = (mem w)(a := ?it')" using cap(3) nl by (simp add: w' copy_val_def setVlen_def)
  have cls: "item_len e ?it' = item_len e ?it" "classSize ! icls ?it = item_len e ?it"
    using cap(2) by (simp_all add: item_len_def cell_len_def)
  have fit: "hdrSize + iklen ?it + nl \<le> item_len e ?it" using cap by (simp add: item_capacity_def cls(2))
  then have fit': "iklen ?it + ivlen ?it + length v \<le> length (ibytes ?it)" using ok nl by (simp add: item_ok_def)
  have cell: "same_cell e ?it ?it'"
    using ok fit cls(1) ty by (simp add: same_cell_def item_ok_def item_key_def take_write_at)
  have "entry w' s' a = (VStr (item_val ?it @ v), iexp ?it)"
    using write_at_tail [OF fit'] ty by (simp add: entry_def val_of_def m item_val_def item_valN_def nl)
  moreover have "obj_ok w' s' a" "cost w' s' a = cost w s a + ?d" using ty by (simp_all add: obj_ok_def m cost_def Let_def nl)
  moreover have "same_heap w w'" by (simp add: w' same_heap_def upd_item_def)
  moreover have "same_cells s s'" by (simp add: s' same_cells_def)
  ultimately have "sh e F M w' s' FL \<and> kv w' s' = (kv w s)(key_at w a \<mapsto> (VStr (item_val ?it @ v), iexp ?it)) \<and> (\<forall>b. 0 < F b \<longrightarrow> mem w' b = mem w b)"
    using touch_ok [OF sh a m cell, of s'] by (auto simp: s')
  then show ?thesis by (auto simp: framed_def w' s')
qed

text \<open>The other branch: a new cell with some headroom, filled with the old value and the suffix. A large
  item gets no headroom, so that the length it is unmapped with is the length it was mapped with.\<close>

definition grown_item :: "env \<Rightarrow> bytes \<Rightarrow> bytes \<Rightarrow> nat \<Rightarrow> nat \<Rightarrow> nat \<Rightarrow> nat \<Rightarrow> int \<Rightarrow> world \<Rightarrow> shard \<Rightarrow> nat \<times> world \<times> shard" where
  "grown_item e key v it ol nl capN now w s =
     (let (nw, w3, s3) = newItem e key capN typStr now w s;
          w4 = upd_item nw (setVlen nl) w3;
          w5 = upd_item nw (\<lambda>r. copy_val (ivlen r) 0 (item_val (mem w4 it)) r) w4;
          w6 = upd_item nw (\<lambda>r. copy_val (ivlen r) ol v r) w5
      in (nw, upd_item nw (setExpRaw (iexp (mem w6 it))) w6, s3))"

lemma grown_item_ok:
  assumes os: "os_ok e" and sh: "sh e F M w s FL" and a: "a \<in> refs (slots s)" and len: "length key < 2 ^ 32" "capN < 2 ^ 32"
    and nl: "nl = ivlen (mem w a) + length v" "nl \<le> capN" "capN = nl \<or> hdrSize + length key + capN \<le> maxSmall"
    and r: "grown_item e key v a (ivlen (mem w a)) nl capN now w s = (p, w', s')"
  shows "fresh_item e F M w s p w' s' \<and> key_at w' p = key \<and> ityp (mem w' p) = typStr
    \<and> entry w' s' p = (VStr (item_val (mem w a) @ v), iexp (mem w a)) \<and> mem w' a = mem w a"
proof -
  let ?ol = "ivlen (mem w a)" and ?old = "item_val (mem w a)"
  obtain w3 where ni: "newItem e key capN typStr now w s = (p, w3, s')" using r by (auto simp: grown_item_def Let_def split: prod.splits)
  note N = newItem_ok [OF os sh len ni]
  have fr: "fresh_item e F M w s p w3 s'" using N by blast
  have pa: "p \<noteq> a" using fr a by (auto simp: fresh_item_def)
  then have wa: "mem w3 a = mem w a" using fr by (auto simp: fresh_item_def)
  have old: "length ?old = ?ol" by (rule item_val_length [OF shD(6) [OF sh a]])
  let ?w4 = "upd_item p (setVlen nl) w3"
  let ?w5 = "upd_item p (\<lambda>r. copy_val (ivlen r) 0 ?old r) ?w4"
  let ?w6 = "upd_item p (\<lambda>r. copy_val (ivlen r) ?ol v r) ?w5"
  have w': "w' = upd_item p (setExpRaw (iexp (mem w a))) ?w6"
    using r ni pa wa by (simp add: grown_item_def Let_def)
  let ?it = "mem w3 p"
  have ok: "item_ok e ?it" using fr by (simp add: fresh_item_def)
  have nl32: "nl < 2 ^ 32" using nl(2) len(2) by simp
  have it: "iklen ?it = length key" "ivlen ?it = capN" "item_key ?it = key" "ityp ?it = typStr" using N by auto
  have same: "item_len e (?it\<lparr>ivlen := nl\<rparr>) = item_len e ?it"
    using nl(3) N it by (auto simp: item_len_def cell_len_def)
  have ok4: "item_ok e (?it\<lparr>ivlen := nl\<rparr>)"
    using ok nl(2) it unfolding item_ok_def same by simp
  have f4: "fresh_item e F M w s p ?w4 s'"
    by (rule fresh_upd [OF fr]) (use nl32 same ok4 in \<open>simp_all add: setVlen_def\<close>)
  have f5: "fresh_item e F M w s p ?w5 s'"
    by (rule fresh_upd [OF f4]) (use nl32 ok4 in \<open>auto simp: setVlen_def copy_val_def item_len_def item_ok_def\<close>)
  have f6: "fresh_item e F M w s p ?w6 s'"
    by (rule fresh_upd [OF f5]) (use nl32 ok4 in \<open>auto simp: setVlen_def copy_val_def item_len_def item_ok_def\<close>)
  have f7: "fresh_item e F M w s p w' s'" unfolding w'
    by (rule fresh_upd [OF f6]) (use nl32 ok4 in \<open>auto simp: setVlen_def copy_val_def setExpRaw_def item_len_def item_ok_def\<close>)
  have room: "length key + nl \<le> length (ibytes ?it)" using ok4 it(1) same by (auto simp: item_ok_def)
  let ?b1 = "write_at (ibytes ?it) (length key) ?old"
  have m: "mem w' p = ?it\<lparr>ivlen := nl, ibytes := write_at ?b1 (length key + ?ol) v, iexp := iexp (mem w a)\<rparr>"
    using nl32 it old nl(1) by (simp add: w' setVlen_def copy_val_def setExpRaw_def)
  have "take (?ol + length v) (drop (length key) (write_at ?b1 (length key + ?ol) v)) = take ?ol (drop (length key) ?b1) @ v"
    by (rule write_at_tail) (use room nl(1) in simp)
  moreover have "take ?ol (drop (length key) ?b1) = ?old"
    using drop_write_at [of "length key" ?old "ibytes ?it"] room nl(1) old by simp
  ultimately have "item_val (mem w' p) = ?old @ v" by (simp add: m item_val_def item_valN_def it nl(1))
  moreover have "key_at w' p = key" using it by (simp add: key_at_def m item_key_def take_write_at)
  moreover have "mem w' a = mem w a" using wa pa by (simp add: w')
  ultimately show ?thesis using f7 it by (simp add: entry_def val_of_def m)
qed

lemma append_key:
  assumes os: "os_ok e" and lk: "looked e now key d idx it ins w s" and it: "it \<noteq> 0" "ityp (mem w it) = typStr" and len: "length key < 2 ^ 32"
    and nl: "nl = ivlen (mem w it) + length v" "nl < 2 ^ 32"
    and capN: "capN = (if hdrSize + length key + (nl + nl div 4) > maxSmall then nl else nl + nl div 4)"
    and r: "(if int nl \<le> item_capacity (mem w it) \<and> icls (mem w it) \<noteq> clsBig
      then addUsed (int (length v)) (upd_item it (setVlen nl) (upd_item it (copy_val nl (ivlen (mem w it)) v) w)) s
      else case grown_item e key v it (ivlen (mem w it)) nl capN now w s of (nw, w7, s3) \<Rightarrow> replace_item e (the idx) it nw w7 s3) = (w', s')"
  shows "key_op e key w s w' s' (Some (VStr (item_val (mem w it) @ v), iexp (mem w it)))"
  unfolding key_op_def shard_op_def
proof (intro allI impI)
  fix F M assume "shard_inv e F M w s"
  then obtain FL where FL: "sh e F M w s FL" by (auto simp: shard_inv_def)
  note L = looked_item [OF lk it(1)]
  show "shard_inv e F M w' s' \<and> framed F w s w' s' \<and> kv w' s' = (kv w s)(key \<mapsto> (VStr (item_val (mem w it) @ v), iexp (mem w it)))"
  proof (cases "int nl \<le> item_capacity (mem w it) \<and> icls (mem w it) \<noteq> clsBig")
    case True
    from append_inplace [OF FL L(5) it(2) nl(1) _ _ nl(2), of w' s'] r True L(6) show ?thesis by (auto simp: shard_inv_def)
  next
    case False
    obtain nw w7 s3 where gi: "grown_item e key v it (ivlen (mem w it)) nl capN now w s = (nw, w7, s3)" by (metis prod_cases3)
    have c: "capN < 2 ^ 32" "nl \<le> capN" "capN = nl \<or> hdrSize + length key + capN \<le> maxSmall"
      using nl(2) by (auto simp: capN maxSmall_def)
    note G = grown_item_ok [OF os FL L(5) len c(1) nl(1) c(2,3) gi]
    have fi: "fresh_item e F M w s nw w7 s3" using G by blast
    then obtain FL1 where FL1: "sh e (with_item e w7 nw F) (M + item_maps e nw (mem w7 nw)) w7 s3 FL1" and ok: "item_ok e (mem w7 nw)"
      and I: "slots s3 = slots s" "kv w7 s3 = kv w s" by (auto simp: fresh_item_def)
    have ri: "replace_item e (the idx) it nw w7 s3 = (w', s')" using r False by (simp add: gi)
    have k: "key_at w7 it = key" using G L(6) by (simp add: key_at_def)
    have "key_at w7 nw = key_at w7 it" using G k by simp
    from replace_ok [OF FL1 ok _ this _ ri] G L(7) I k have
      "shard_inv e F M w' s' \<and> kv w' s' = (kv w s)(key \<mapsto> entry w7 s3 nw) \<and> framed F w7 s3 w' s'" by simp
    then show ?thesis using G framed_trans [OF fresh_framed [OF fi]] by auto
  qed
qed

text \<open>The branches of \<open>cmdAppend\<close> under one name.\<close>

lemma cmdAppend_eq:
  assumes g: "get e (a ! 1) (hashKey e (a ! 1)) now (proc d) (grow e (proc d) (shards d ! shard_idx (hashKey e (a ! 1)))) = (idx, it, ins, w, s)"
    and it: "it \<noteq> 0" "ityp (mem w it) = typStr" and nl: "nl = ivlen (mem w it) + length (a ! 2)"
    and fits: "\<not> (maxMemory w > 0 \<and> int (64 + length (a ! 1) + nl) > maxMemory w)"
  shows "cmdAppend e now a d out =
     (case (if int nl \<le> item_capacity (mem w it) \<and> icls (mem w it) \<noteq> clsBig
        then addUsed (int (length (a ! 2))) (upd_item it (setVlen nl) (upd_item it (copy_val nl (ivlen (mem w it)) (a ! 2)) w)) s
        else case grown_item e (a ! 1) (a ! 2) it (ivlen (mem w it)) nl
            (if hdrSize + length (a ! 1) + (nl + nl div 4) > maxSmall then nl else nl + nl div 4) now w s of
          (nw, w7, s3) \<Rightarrow> replace_item e (the idx) it nw w7 s3) of
        (w2, s2) \<Rightarrow> (afterWrite e [a ! 1] (put_shard d (shard_idx (hashKey e (a ! 1))) w2 s2), addInt out (int nl)))"
proof -
  have t: "\<not> ityp (mem w it) \<noteq> typStr" using it by simp
  show ?thesis
    unfolding cmdAppend_def Let_def g prod.case if_not_P [OF it(1)] if_not_P [OF t] nl [symmetric] if_not_P [OF fits]
    by (simp add: grown_item_def Let_def split: prod.splits)
qed

lemma cmdAppend_ok:
  assumes rd: "rand_ok e" and inv: "store_inv e d" and len: "length (a ! 1) < 2 ^ 32" "length (a ! 2) < 2 ^ 32"
    and small: "\<And>old t. view e now d (a ! 1) = Some (VStr old, t) \<Longrightarrow> length old + length (a ! 2) < 2 ^ 32"
  shows "refines_key e now (a ! 1) (spec_append (maxMemory (proc d)) (a ! 1) (a ! 2)) d out (cmdAppend e now a d out)"
proof -
  let ?key = "a ! 1" and ?v = "a ! 2" and ?mm = "maxMemory (proc d)"
  let ?x = "view e now d ?key" and ?i = "shard_idx (hashKey e ?key)" and ?f = "spec_append ?mm ?key ?v"
  have os: "os_ok e" using inv by (simp add: store_inv_def)
  obtain idx it ins w s where g: "get e ?key (hashKey e ?key) now (proc d) (grow e (proc d) (shards d ! ?i)) = (idx, it, ins, w, s)"
    by (metis prod_cases5)
  note lk = grow_looked(1) [OF inv g] and room = grow_looked(2) [OF inv g]
  have mm: "maxMemory w = ?mm" by (rule looked_mm [OF lk])
  show ?thesis
  proof (cases "it = 0")
    case True
    then have x: "?x = None" using looked_zero [OF lk] by blast
    show ?thesis
    proof (cases "too_big ?mm (int (64 + length ?key + length ?v))")
      case big: True
      then have "?f ?x = (addErr [] errOOM, ?x)" by (simp add: spec_append_def x)
      from refines_idle [where f = ?f and out = out, OF inv lk this] True big show ?thesis
        by (simp add: cmdAppend_def g Let_def mm too_big_def reply_out(1) [of out])
    next
      case False
      obtain w2 s2 where r: "setStr e idx it ins (hashKey e ?key) ?key ?v 0 now w s = (w2, s2)" by fastforce
      note op = setStr_key [OF os lk room len r]
      have "?f ?x = (addInt [] (int (length ?v)), Some (VStr ?v, 0))" using False by (simp add: spec_append_def x)
      from refines_write [where f = ?f and out = out, OF rd inv lk op _ this] True False r show ?thesis
        by (auto simp: cmdAppend_def g Let_def mm too_big_def reply_out(2) [of out])
    qed
  next
    case it: False
    show ?thesis
    proof (cases "ityp (mem w it) = typStr")
      case False
      then have "?x \<noteq> None" "\<not> is_str ?x" using it looked_zero [OF lk] looked_str(1) [OF lk it] by auto
      then have "?f ?x = (addErr [] errWrongType, ?x)" using not_str [of ?x] by (auto simp: spec_append_def)
      from refines_idle [where f = ?f and out = out, OF inv lk this] it False show ?thesis
        by (simp add: cmdAppend_def g Let_def reply_out(1) [of out])
    next
      case True
      define nl where "nl = ivlen (mem w it) + length ?v"
      have x: "?x = Some (VStr (item_val (mem w it)), iexp (mem w it))" by (rule looked_str(2) [OF lk it True])
      have old: "length (item_val (mem w it)) = ivlen (mem w it)" by (rule item_val_length [OF looked_item(4) [OF lk it]])
      have nl32: "nl < 2 ^ 32" using small [OF x] by (simp add: nl_def old)
      show ?thesis
      proof (cases "maxMemory w > 0 \<and> int (64 + length ?key + nl) > maxMemory w")
        case big: True
        then have "?f ?x = (addErr [] errOOM, ?x)" using old by (simp add: spec_append_def x too_big_def mm nl_def add.assoc)
        from refines_idle [where f = ?f and out = out, OF inv lk this] it True big show ?thesis
          by (simp add: cmdAppend_def g Let_def nl_def reply_out(1) [of out])
      next
        case False
        obtain w2 s2 where r: "(if int nl \<le> item_capacity (mem w it) \<and> icls (mem w it) \<noteq> clsBig
            then addUsed (int (length ?v)) (upd_item it (setVlen nl) (upd_item it (copy_val nl (ivlen (mem w it)) ?v) w)) s
            else case grown_item e ?key ?v it (ivlen (mem w it)) nl
              (if hdrSize + length ?key + (nl + nl div 4) > maxSmall then nl else nl + nl div 4) now w s of
              (nw, w7, s3) \<Rightarrow> replace_item e (the idx) it nw w7 s3) = (w2, s2)" by (metis surj_pair)
        note op = append_key [OF os lk it True len(1) nl_def nl32 refl r]
        have tm: "timely now (Some (VStr (item_val (mem w it) @ ?v), iexp (mem w it)))" using looked_timely [OF lk it] by simp
        have "?f ?x = (addInt [] (int nl), Some (VStr (item_val (mem w it) @ ?v), iexp (mem w it)))"
          using False old by (auto simp: spec_append_def x too_big_def mm nl_def add.assoc)
        from refines_write [where f = ?f and out = out, OF rd inv lk op tm this] show ?thesis
          unfolding cmdAppend_eq [OF g it True nl_def False] r by (simp add: reply_out(2) [of out])
      qed
    qed
  qed
qed

end
