(* ===== verification/Command_Keys.thy ===== *)
theory Command_Keys
  imports Command_Strings
begin

text \<open>
  The commands on several keys and the key commands against their specification, the order in which
  \<open>lockKeys\<close> takes the shard locks, and the counters that \<open>DBSIZE\<close> and \<open>INFO\<close> report.
\<close>

section \<open>Specification\<close>

definition spec_type :: "(rval \<times> int) option \<Rightarrow> bytes \<times> (rval \<times> int) option" where
  "spec_type x =
     (addSimple [] (case x of None \<Rightarrow> ''none'' | Some (VStr v, t) \<Rightarrow> ''string'' | Some (VList l, t) \<Rightarrow> ''list''
        | Some (VHash h, t) \<Rightarrow> ''hash''), x)"

text \<open>The new expiry time must be a 64-bit time; one that has passed deletes the key.\<close>

definition spec_expire :: "int \<Rightarrow> bytes \<Rightarrow> int \<Rightarrow> bytes \<Rightarrow> (rval \<times> int) option \<Rightarrow> bytes \<times> (rval \<times> int) option" where
  "spec_expire now arg unit_ms name x =
     (case parseInt arg of
        None \<Rightarrow> (addErr [] errNotInt, x)
      | Some n \<Rightarrow>
          if n * unit_ms < minInt64 \<or> now + n * unit_ms > maxInt64 then (addErr [] (errExpire name), x)
          else case x of
            None \<Rightarrow> (addInt [] 0, None)
          | Some (v, t) \<Rightarrow> (addInt [] 1, if n \<le> 0 then None else Some (v, now + n * unit_ms)))"

definition spec_ttl :: "int \<Rightarrow> bool \<Rightarrow> (rval \<times> int) option \<Rightarrow> bytes \<times> (rval \<times> int) option" where
  "spec_ttl now secs x =
     (addInt [] (case x of None \<Rightarrow> - 2
        | Some (v, t) \<Rightarrow> if t = 0 then - 1 else if secs then (t - now + 500) div 1000 else t - now), x)"

definition spec_persist :: "(rval \<times> int) option \<Rightarrow> bytes \<times> (rval \<times> int) option" where
  "spec_persist x =
     (case x of
        Some (v, t) \<Rightarrow> if t \<noteq> 0 then (addInt [] 1, Some (v, 0)) else (addInt [] 0, x)
      | None \<Rightarrow> (addInt [] 0, x))"

section \<open>Key operations\<close>

lemma del_at:
  assumes at: "ref_at (slots s) i it" "key_at w it = key" and r: "del e i it w s = (w', s')"
  shows "key_op e key w s w' s' None"
  unfolding key_op_def shard_op_def
proof (intro allI impI)
  fix F M assume "shard_inv e F M w s"
  then obtain FL where FL: "sh e F M w s FL" by (auto simp: shard_inv_def)
  from del_ok [OF FL at(1) r] at(2) show "shard_inv e F M w' s' \<and> framed F w s w' s' \<and> kv w' s' = (kv w s)(key := None)" by simp
qed

lemma del_key:
  assumes "looked e now key d idx it ins w s" "it \<noteq> 0" "del e (the idx) it w s = (w', s')"
  shows "key_op e key w s w' s' None"
  using del_at looked_item(6,7) [OF assms(1,2)] assms(3) by blast

lemma setExp_key:
  assumes lk: "looked e now key d idx it ins w s" and it: "it \<noteq> 0" and r: "setExp it x w s = (w', s')"
  shows "key_op e key w s w' s' (Some (fst (entry w s it), x))"
  using setExp_ok [OF _ looked_item(5) [OF lk it] r] looked_item(6) [OF lk it]
  by (simp add: key_op_def shard_op_def entry_def)

lemma looked_entry:
  assumes "looked e now key d idx it ins w s" "it \<noteq> 0"
  shows "view e now d key = Some (fst (entry w s it), iexp (mem w it))"
  using looked_item(1,2) [OF assms] by (metis prod.collapse)

lemma cmdType_ok:
  assumes "store_inv e d"
  shows "refines_key e now (a ! 1) spec_type d out (cmdType e now a d out)"
proof -
  obtain idx it ins w s where g: "get e (a ! 1) (hashKey e (a ! 1)) now (proc d) (shards d ! shard_idx (hashKey e (a ! 1))) = (idx, it, ins, w, s)"
    by (metis prod_cases5)
  note lk = get_looked [OF assms g]
  let ?x = "view e now d (a ! 1)"
  let ?t = "if it \<noteq> 0 then [''string'', ''list'', ''hash''] ! ityp (mem w it) else ''none''"
  have "spec_type ?x = (addSimple [] ?t, ?x)"
  proof (cases "it = 0")
    case True
    then have "?x = None" using looked_zero [OF lk] by blast
    then show ?thesis using True by (simp add: spec_type_def)
  next
    case False
    show ?thesis
      using entry_cases [OF looked_item(3) [OF lk False]] looked_item(1) [OF lk False] False
      by (auto simp: spec_type_def entry_def typStr_def typList_def typHash_def One_nat_def numeral_2_eq_2 split: rval.splits)
  qed
  from refines_idle [where f = spec_type and out = out, OF assms lk this] show ?thesis
    unfolding cmdType_def Let_def g prod.case by (simp only: reply_out(3) [of out])
qed

lemma int_div_less: "0 < u \<Longrightarrow> a div u < n \<longleftrightarrow> a < n * u" for a u n :: int
proof -
  assume u: "0 < u"
  have a: "a = u * (a div u) + a mod u" "0 \<le> a mod u" "a mod u < u" using u by simp_all
  show ?thesis
  proof
    assume "a div u < n"
    then have "u * (a div u) \<le> u * (n - 1)" using u by (intro mult_left_mono) auto
    then have "u * (a div u) + u \<le> n * u" by (simp add: algebra_simps)
    then show "a < n * u" using a by linarith
  next
    assume l: "a < n * u"
    show "a div u < n"
    proof (rule ccontr)
      assume "\<not> a div u < n"
      then have "u * n \<le> u * (a div u)" using u by (intro mult_left_mono) auto
      then have "n * u \<le> u * (a div u)" by (simp add: mult.commute)
      then show False using l a by linarith
    qed
  qed
qed

lemma go_div_bounds:
  assumes "0 < u"
  shows "n > go_div maxInt64 u \<longleftrightarrow> n * u > maxInt64" "n < go_div minInt64 u \<longleftrightarrow> n * u < minInt64"
proof -
  have "go_div maxInt64 u = maxInt64 div u" using assms by (simp add: go_div_def maxInt64_def)
  then show "n > go_div maxInt64 u \<longleftrightarrow> n * u > maxInt64"
    using int_div_less [OF assms, of maxInt64 n] by simp
  have "go_div minInt64 u = - (2 ^ 63 div u)" using assms by (simp add: go_div_def minInt64_def)
  then have "n < go_div minInt64 u \<longleftrightarrow> 2 ^ 63 div u < - n" by linarith
  also have "\<dots> \<longleftrightarrow> 2 ^ 63 < - n * u" by (rule int_div_less [OF assms])
  finally show "n < go_div minInt64 u \<longleftrightarrow> n * u < minInt64" by (auto simp: minInt64_def)
qed

lemma cmdExpire_ok:
  assumes inv: "store_inv e d" and now: "0 \<le> now" "now \<le> maxInt64" and u: "0 < unit_ms"
  shows "refines_key e now (a ! 1) (spec_expire now (a ! 2) unit_ms name) d out (cmdExpire e now a unit_ms name d out)"
proof (cases "parseInt (a ! 2)")
  case None
  have "spec_expire now (a ! 2) unit_ms name (view e now d (a ! 1)) = (addErr [] errNotInt, view e now d (a ! 1))"
    by (simp add: spec_expire_def None)
  from refines_none [where f = "spec_expire now (a ! 2) unit_ms name" and out = out, OF inv this] show ?thesis
    by (simp add: cmdExpire_def None reply_out(1) [of out])
next
  case (Some n)
  let ?x = "view e now d (a ! 1)" and ?f = "spec_expire now (a ! 2) unit_ms name" and ?v = "n * unit_ms"
  have i64: "in64 n" using parseInt_canonical [OF Some] by blast
  let ?c1 = "n > go_div maxInt64 unit_ms \<or> n < go_div minInt64 unit_ms"
  let ?c2 = "?v > 0 \<and> ?v > maxInt64 - now \<or> ?v < 0 \<and> wrap64 (now + ?v) > now"
  have b: "?c1 \<longleftrightarrow> ?v > maxInt64 \<or> ?v < minInt64" using go_div_bounds [OF u] by simp
  have w: "wrap64 (now + ?v) = now + ?v" if "minInt64 \<le> ?v" "now + ?v \<le> maxInt64"
    using that now by (intro wrap64_id) (simp add: in64_def)
  have c: "?c1 \<or> ?c2 \<longleftrightarrow> ?v < minInt64 \<or> now + ?v > maxInt64"
  proof (cases "?v < minInt64 \<or> now + ?v > maxInt64")
    case True
    then show ?thesis using b now by auto
  next
    case False
    then show ?thesis using b w now by auto
  qed
  show ?thesis
  proof (cases "?c1 \<or> ?c2")
    case True
    then have "?f ?x = (addErr [] (errExpire name), ?x)" using c by (simp add: spec_expire_def Some)
    from refines_none [where f = ?f and out = out, OF inv this] True show ?thesis
      by (auto simp: cmdExpire_def Some Let_def reply_out(1) [of out])
  next
    case False
    then have c1: "\<not> ?c1" and c2: "\<not> ?c2" and rng: "\<not> (?v < minInt64 \<or> now + ?v > maxInt64)" using c by auto
    have at: "wrap64 (now + ?v) = now + ?v" using w rng by simp
    obtain idx it ins w s where g: "get e (a ! 1) (hashKey e (a ! 1)) now (proc d) (shards d ! shard_idx (hashKey e (a ! 1))) = (idx, it, ins, w, s)"
      by (metis prod_cases5)
    note lk = get_looked [OF inv g]
    have eq: "cmdExpire e now a unit_ms name d out = (if it = 0 then (put_shard d (shard_idx (hashKey e (a ! 1))) w s, addInt out 0)
        else case (if n \<le> 0 then del e (the idx) it w s else setExp it (now + ?v) w s) of
          (w1, s1) \<Rightarrow> (put_shard d (shard_idx (hashKey e (a ! 1))) w1 s1, addInt out 1))"
    proof -
      have "now + ?v \<le> now \<longleftrightarrow> n \<le> 0" using u by (simp add: mult_le_0_iff)
      then show ?thesis unfolding cmdExpire_def Some option.case Let_def if_not_P [OF c1] if_not_P [OF c2] g prod.case
        unfolding at by simp
    qed
    show ?thesis
    proof (cases "it = 0")
      case True
      then have "?x = None" using looked_zero [OF lk] by blast
      then have "?f ?x = (addInt [] 0, ?x)" using rng by (simp add: spec_expire_def Some)
      from refines_idle [where f = ?f and out = out, OF inv lk this] True show ?thesis by (simp add: eq reply_out(2) [of out])
    next
      case it: False
      note x = looked_entry [OF lk it]
      show ?thesis
      proof (cases "n \<le> 0")
        case True
        obtain w1 s1 where r: "del e (the idx) it w s = (w1, s1)" by fastforce
        have "?f ?x = (addInt [] 1, None)" using True rng by (simp add: spec_expire_def Some x)
        from refines_op [where f = ?f and out = out, OF inv lk del_key [OF lk it r] _ this] True it r show ?thesis
          by (simp add: eq reply_out(2) [of out])
      next
        case False
        obtain w1 s1 where r: "setExp it (now + ?v) w s = (w1, s1)" by fastforce
        have "?f ?x = (addInt [] 1, Some (fst (entry w s it), now + ?v))" using False rng by (simp add: spec_expire_def Some x)
        from refines_op [where f = ?f and out = out, OF inv lk setExp_key [OF lk it r] _ this] False it r u show ?thesis
          by (simp add: eq reply_out(2) [of out])
      qed
    qed
  qed
qed

lemma cmdTTL_ok:
  assumes inv: "store_inv e d" and now: "500 \<le> now" and t64: "\<And>v t. view e now d (a ! 1) = Some (v, t) \<Longrightarrow> t \<le> maxInt64"
  shows "refines_key e now (a ! 1) (spec_ttl now secs) d out (cmdTTL e now a secs d out)"
proof -
  obtain idx it ins w s where g: "get e (a ! 1) (hashKey e (a ! 1)) now (proc d) (shards d ! shard_idx (hashKey e (a ! 1))) = (idx, it, ins, w, s)"
    by (metis prod_cases5)
  note lk = get_looked [OF inv g]
  let ?x = "view e now d (a ! 1)" and ?f = "spec_ttl now secs" and ?t = "iexp (mem w it)"
  let ?r = "if it = 0 then - 2 else if ?t = 0 then - 1
     else let r0 = wrap64 (?t - now); r1 = (if r0 < 0 then 0 else r0) in if secs then go_div (wrap64 (r1 + 500)) 1000 else r1"
  have "?f ?x = (addInt [] ?r, ?x)"
  proof (cases "it = 0")
    case True
    then have "?x = None" using looked_zero [OF lk] by blast
    then show ?thesis using True by (simp add: spec_ttl_def)
  next
    case it: False
    note x = looked_entry [OF lk it]
    show ?thesis
    proof (cases "?t = 0")
      case False
      then have l: "now < ?t" "?t \<le> maxInt64" using looked_timely [OF lk it] t64 [OF x] by auto
      then have w: "wrap64 (?t - now) = ?t - now" "wrap64 (?t - now + 500) = ?t - now + 500"
        using now by (auto intro!: wrap64_id simp: in64_def minInt64_def maxInt64_def)
      have "go_div (?t - now + 500) 1000 = (?t - now + 500) div 1000" using l by (simp add: go_div_def)
      then show ?thesis using it False l w by (simp add: spec_ttl_def x Let_def)
    qed (use it in \<open>simp add: spec_ttl_def x\<close>)
  qed
  from refines_idle [where f = ?f and out = out, OF inv lk this] show ?thesis
    unfolding cmdTTL_def Let_def g prod.case reply_out(2) [of out] .
qed

lemma cmdPersist_ok:
  assumes inv: "store_inv e d"
  shows "refines_key e now (a ! 1) spec_persist d out (cmdPersist e now a d out)"
proof -
  obtain idx it ins w s where g: "get e (a ! 1) (hashKey e (a ! 1)) now (proc d) (shards d ! shard_idx (hashKey e (a ! 1))) = (idx, it, ins, w, s)"
    by (metis prod_cases5)
  note lk = get_looked [OF inv g]
  let ?x = "view e now d (a ! 1)"
  show ?thesis
  proof (cases "it \<noteq> 0 \<and> iexp (mem w it) \<noteq> 0")
    case True
    then have it: "it \<noteq> 0" by blast
    obtain w1 s1 where r: "setExp it 0 w s = (w1, s1)" by fastforce
    have "spec_persist ?x = (addInt [] 1, Some (fst (entry w s it), 0))" using True looked_entry [OF lk it] by (simp add: spec_persist_def)
    from refines_op [where f = spec_persist and out = out, OF inv lk setExp_key [OF lk it r] _ this] show ?thesis
      unfolding cmdPersist_def Let_def g prod.case if_P [OF True] r reply_out(2) [of out] by simp
  next
    case False
    have "spec_persist ?x = (addInt [] 0, ?x)"
    proof (cases "it = 0")
      case True
      then have "?x = None" using looked_zero [OF lk] by blast
      then show ?thesis by (simp add: spec_persist_def)
    qed (use False looked_entry [OF lk] in \<open>auto simp: spec_persist_def\<close>)
    from refines_idle [where f = spec_persist and out = out, OF inv lk this] show ?thesis
      unfolding cmdPersist_def Let_def g prod.case if_not_P [OF False] reply_out(2) [of out] .
  qed
qed

section \<open>Several keys\<close>

lemma every_1 [simp]: "every 1 xs = xs"
  by (induction xs) auto

lemma lockKeys_hashes: "fst (lockKeys e keys step) = map (hashKey e) (every step keys)"
  by (simp add: lockKeys_def Let_def)

lemma lock_insert_sorted:
  "sorted_wrt (<) ls \<Longrightarrow> sorted_wrt (<) (lock_insert i ls) \<and> set (lock_insert i ls) = insert i (set ls)"
  by (induction ls) auto

lemma lock_fold_sorted:
  "sorted_wrt (<) ls \<Longrightarrow> sorted_wrt (<) (foldl (\<lambda>ls h. lock_insert (f h) ls) ls hs)
     \<and> set (foldl (\<lambda>ls h. lock_insert (f h) ls) ls hs) = set ls \<union> f ` set hs"
proof (induction hs arbitrary: ls)
  case (Cons h hs)
  from Cons.IH [of "lock_insert (f h) ls"] lock_insert_sorted [OF Cons.prems, of "f h"] show ?case by auto
qed simp

lemma lockKeys_sorted:
  "sorted_wrt (<) (snd (lockKeys e keys step))"
  "set (snd (lockKeys e keys step)) = (\<lambda>k. shard_idx (hashKey e k)) ` set (every step keys)"
  using lock_fold_sorted [of "[]" shard_idx "map (hashKey e) (every step keys)"]
  by (auto simp: lockKeys_def Let_def image_image)

text \<open>Reading several keys.\<close>

definition mget_reply :: "(rval \<times> int) option \<Rightarrow> bytes" where
  "mget_reply x = (case x of Some (VStr v, t) \<Rightarrow> addBulk [] v | _ \<Rightarrow> addNull [])"

lemma mget_loop_ok:
  "store_inv e d \<Longrightarrow> mget_loop e now ks (map (hashKey e) ks) d out = (d', out') \<Longrightarrow>
     became e now d (view e now d) d' \<and> out' = out @ concat (map (\<lambda>k. mget_reply (view e now d k)) ks)"
proof (induction ks arbitrary: d out)
  case (Cons k ks)
  obtain idx it ins w s where g: "get e k (hashKey e k) now (proc d) (shards d ! shard_idx (hashKey e k)) = (idx, it, ins, w, s)"
    by (metis prod_cases5)
  note lk = get_looked [OF Cons.prems(1) g]
  let ?d = "put_shard d (shard_idx (hashKey e k)) w s"
  note p = put_idle [OF Cons.prems(1) lk]
  have reply: "(if it = 0 \<or> ityp (mem w it) \<noteq> typStr then addNull out else addBulk out (item_val (mem w it))) = out @ mget_reply (view e now d k)"
  proof (cases "it = 0")
    case True
    then have "view e now d k = None" using looked_zero [OF lk] by blast
    then show ?thesis using True by (simp add: mget_reply_def reply_out(4) [of out])
  next
    case it: False
    show ?thesis
    proof (cases "ityp (mem w it) = typStr")
      case True
      then show ?thesis using it looked_str(2) [OF lk it] by (simp add: mget_reply_def reply_out(8) [of out])
    next
      case False
      have "view e now d k \<noteq> None" "\<not> is_str (view e now d k)" using it False looked_zero [OF lk] looked_str(1) [OF lk it] by auto
      from not_str [OF this] show ?thesis using it False by (auto simp: mget_reply_def reply_out(4) [of out])
    qed
  qed
  have "mget_loop e now ks (map (hashKey e) ks) ?d (out @ mget_reply (view e now d k)) = (d', out')"
    using Cons.prems(2) by (simp add: g Let_def reply)
  from Cons.IH [OF becameD(1) [OF p] this, unfolded becameD(3) [OF p]] became_trans [OF p] show ?case by simp
qed (simp add: became_refl)

lemma exists_keys_ok:
  "store_inv e d \<Longrightarrow> exists_keys e now ks (map (hashKey e) ks) d n = (d', n') \<Longrightarrow>
     became e now d (view e now d) d' \<and> n' = n + length (filter (\<lambda>k. view e now d k \<noteq> None) ks)"
proof (induction ks arbitrary: d n)
  case (Cons k ks)
  obtain idx it ins w s where g: "get e k (hashKey e k) now (proc d) (shards d ! shard_idx (hashKey e k)) = (idx, it, ins, w, s)"
    by (metis prod_cases5)
  note lk = get_looked [OF Cons.prems(1) g]
  let ?d = "put_shard d (shard_idx (hashKey e k)) w s"
  note p = put_idle [OF Cons.prems(1) lk]
  have "exists_keys e now ks (map (hashKey e) ks) ?d (if it \<noteq> 0 then n + 1 else n) = (d', n')"
    using Cons.prems(2) by (simp add: g Let_def)
  from Cons.IH [OF becameD(1) [OF p] this, unfolded becameD(3) [OF p]] became_trans [OF p] looked_zero [OF lk] show ?case by simp
qed (simp add: became_refl)

lemma del_keys_ok:
  "store_inv e d \<Longrightarrow> del_keys e now ks (map (hashKey e) ks) d n = (d', n') \<Longrightarrow>
     became e now d ((view e now d) |` (- set ks)) d' \<and> n' = n + card (set ks \<inter> dom (view e now d))"
proof (induction ks arbitrary: d n)
  case (Cons k ks)
  let ?i = "shard_idx (hashKey e k)"
  obtain idx it ins w s where g: "get e k (hashKey e k) now (proc d) (shards d ! ?i) = (idx, it, ins, w, s)"
    by (metis prod_cases5)
  note lk = get_looked [OF Cons.prems(1) g]
  show ?case
  proof (cases "it = 0")
    case True
    then have x: "view e now d k = None" using looked_zero [OF lk] by blast
    note p = put_idle [OF Cons.prems(1) lk]
    have "del_keys e now ks (map (hashKey e) ks) (put_shard d ?i w s) n = (d', n')"
      using Cons.prems(2) True by (simp add: g Let_def)
    from Cons.IH [OF becameD(1) [OF p] this, unfolded becameD(3) [OF p]] became_trans [OF p]
    have "became e now d ((view e now d) |` (- set ks)) d'" "n' = n + card (set ks \<inter> dom (view e now d))" by auto
    moreover have "(view e now d) |` (- set ks) = (view e now d) |` (- set (k # ks))" using x by (auto simp: restrict_map_def fun_eq_iff)
    moreover have "set (k # ks) \<inter> dom (view e now d) = set ks \<inter> dom (view e now d)" using x by auto
    ultimately show ?thesis by simp
  next
    case it: False
    then have x: "k \<in> dom (view e now d)" using looked_zero [OF lk] by auto
    obtain w1 s1 where r: "del e (the idx) it w s = (w1, s1)" by fastforce
    have p: "became e now d ((view e now d)(k := None)) (put_shard d ?i w1 s1)"
      by (rule put_op [OF Cons.prems(1) lk del_key [OF lk it r]]) simp
    have "del_keys e now ks (map (hashKey e) ks) (put_shard d ?i w1 s1) (n + 1) = (d', n')"
      using Cons.prems(2) it r by (simp add: g Let_def)
    from Cons.IH [OF becameD(1) [OF p] this, unfolded becameD(3) [OF p]] became_trans [OF p] have
      IH: "became e now d (((view e now d)(k := None)) |` (- set ks)) d'" "n' = n + 1 + card (set ks \<inter> dom ((view e now d)(k := None)))"
      by blast+
    have "((view e now d)(k := None)) |` (- set ks) = (view e now d) |` (- set (k # ks))" by (auto simp: restrict_map_def fun_eq_iff)
    moreover have "set (k # ks) \<inter> dom (view e now d) = insert k (set ks \<inter> dom ((view e now d)(k := None)))" using x by auto
    then have "card (set (k # ks) \<inter> dom (view e now d)) = 1 + card (set ks \<inter> dom ((view e now d)(k := None)))"
      by (simp add: card_insert_if)
    ultimately show ?thesis using IH by simp
  qed
qed (simp add: became_refl restrict_map_def)

text \<open>The keyspace after \<open>MSET\<close>: the pairs from left to right.\<close>

definition set_pairs :: "keyspace \<Rightarrow> bytes list \<Rightarrow> keyspace" where
  "set_pairs m kvs = foldl (\<lambda>m (k, v). m(k \<mapsto> (VStr v, 0))) m (flat_pairs kvs)"

lemma mset_loop_ok:
  "store_inv e d \<Longrightarrow> \<forall>b \<in> set kvs. length b < 2 ^ 32 \<Longrightarrow> even (length kvs) \<Longrightarrow>
     became e now d (set_pairs (view e now d) kvs) (mset_loop e now kvs (map (hashKey e) (every 2 kvs)) d)"
proof (induction kvs arbitrary: d rule: flat_pairs.induct)
  case (1 k v r)
  let ?i = "shard_idx (hashKey e k)"
  have os: "os_ok e" using "1.prems"(1) by (simp add: store_inv_def)
  obtain idx it ins w s where g: "get e k (hashKey e k) now (proc d) (grow e (proc d) (shards d ! ?i)) = (idx, it, ins, w, s)"
    by (metis prod_cases5)
  note lk = grow_looked(1) [OF "1.prems"(1) g] and room = grow_looked(2) [OF "1.prems"(1) g]
  obtain w1 s1 where r: "setStr e idx it ins (hashKey e k) k v 0 now w s = (w1, s1)" by fastforce
  have op: "key_op e k w s w1 s1 (Some (VStr v, 0))" by (rule setStr_key [OF os lk room _ _ r]) (use "1.prems" in simp_all)
  have p: "became e now d ((view e now d)(k \<mapsto> (VStr v, 0))) (put_shard d ?i w1 s1)"
    by (rule put_op [OF "1.prems"(1) lk op]) simp
  have "\<forall>b \<in> set r. length b < 2 ^ 32" "even (length r)" using "1.prems"(2,3) by simp_all
  from "1.IH" [OF becameD(1) [OF p] this, unfolded becameD(3) [OF p]]
  have "became e now (put_shard d ?i w1 s1) (set_pairs ((view e now d)(k \<mapsto> (VStr v, 0))) r)
      (mset_loop e now r (map (hashKey e) (every 2 r)) (put_shard d ?i w1 s1))" .
  from became_trans [OF p this] show ?case by (simp add: g Let_def r set_pairs_def)
qed (auto simp: set_pairs_def became_refl)

section \<open>Walks over all shards\<close>

lemma shard_facts:
  assumes "store_inv e d" "i < nShards"
  shows "tbl_ok (hashKey e) (key_at (proc d)) (slots (shards d ! i))" "length (shards d) = nShards"
    "\<And>a. a \<in> refs (slots (shards d ! i)) \<Longrightarrow> item_ok e (mem (proc d) a) \<and> obj_ok (proc d) (shards d ! i) a"
    "scount (shards d ! i) = int (card (refs (slots (shards d ! i))))"
    "nexp (shards d ! i) = int (card {a \<in> refs (slots (shards d ! i)). iexp (mem (proc d) a) \<noteq> 0})"
    "used (shards d ! i) = (\<Sum>a \<in> refs (slots (shards d ! i)). cost (proc d) (shards d ! i) a)"
    "\<And>k. k \<in> dom (kv (proc d) (shards d ! i)) \<Longrightarrow> shard_idx (hashKey e k) = i"
  using assms by (auto simp: store_inv_def shards_ok_def local_ok_def index_ok_def acct_ok_def items_ok_def routed_def)

lemma dom_kv: "tbl_ok (hashKey e) (key_at w) (slots s) \<Longrightarrow> dom (kv w s) = key_at w ` refs (slots s)"
  unfolding dom_def not_None_eq image_def by (auto simp only: kv_iff)

lemma dom_db:
  assumes "store_inv e d"
  shows "dom (db e d) = (\<Union>i < nShards. dom (kv (proc d) (shards d ! i)))" (is "?L = ?R")
proof (intro equalityI subsetI)
  fix k assume "k \<in> ?L"
  then show "k \<in> ?R" using shard_idx_less [of "hashKey e k"] by (auto simp: db_def dom_def intro!: exI [of _ "shard_idx (hashKey e k)"])
next
  fix k assume "k \<in> ?R"
  then obtain i where i: "i < nShards" "k \<in> dom (kv (proc d) (shards d ! i))" by auto
  then show "k \<in> ?L" using shard_facts(7) [OF assms i(1) i(2)] by (auto simp: db_def)
qed

lemma finite_db: "store_inv e d \<Longrightarrow> finite (dom (db e d))"
  unfolding dom_db using dom_kv [OF shard_facts(1)] by auto

text \<open>A sum over all items is a sum over the keyspace.\<close>

lemma store_sum:
  assumes inv: "store_inv e d"
  shows "(\<Sum>s \<leftarrow> shards d. \<Sum>a \<in> refs (slots s). G (key_at (proc d) a) (entry (proc d) s a)) = (\<Sum>k \<in> dom (db e d). G k (the (db e d k)) :: int)"
proof -
  let ?w = "proc d"
  have inner: "(\<Sum>a \<in> refs (slots (shards d ! i)). G (key_at ?w a) (entry ?w (shards d ! i) a))
      = (\<Sum>k \<in> dom (kv ?w (shards d ! i)). G k (the (db e d k)))" if i: "i < nShards" for i
  proof -
    let ?s = "shards d ! i"
    note T = shard_facts(1) [OF inv i]
    have inj: "inj_on (key_at ?w) (refs (slots ?s))" using key_inj [OF T] by (auto simp: inj_on_def)
    have ent: "entry ?w ?s a = the (db e d (key_at ?w a))" if "a \<in> refs (slots ?s)" for a
    proof -
      have "kv ?w ?s (key_at ?w a) = Some (entry ?w ?s a)" using kv_iff [OF T] that by blast
      moreover from this have "shard_idx (hashKey e (key_at ?w a)) = i" using shard_facts(7) [OF inv i] by blast
      ultimately show ?thesis by (simp add: db_def)
    qed
    show ?thesis unfolding dom_kv [OF T] using ent by (simp add: sum.reindex [OF inj])
  qed
  have "(\<Sum>s \<leftarrow> shards d. \<Sum>a \<in> refs (slots s). G (key_at ?w a) (entry ?w s a))
      = (\<Sum>i < nShards. \<Sum>a \<in> refs (slots (shards d ! i)). G (key_at ?w a) (entry ?w (shards d ! i) a))"
    using shard_facts(2) [OF inv, of 0] by (simp add: sum_list_sum_nth atLeast0LessThan nShards_def)
  also have "\<dots> = (\<Sum>i < nShards. \<Sum>k \<in> dom (kv ?w (shards d ! i)). G k (the (db e d k)))"
    using inner by (intro sum.cong) auto
  also have "\<dots> = (\<Sum>k \<in> dom (db e d). G k (the (db e d k)))"
    unfolding dom_db [OF inv]
  proof (rule sum.UNION_disjoint [symmetric])
    show "\<forall>i \<in> {..<nShards}. finite (dom (kv ?w (shards d ! i)))" using dom_kv [OF shard_facts(1) [OF inv]] by auto
    show "\<forall>i \<in> {..<nShards}. \<forall>j \<in> {..<nShards}. i \<noteq> j \<longrightarrow> dom (kv ?w (shards d ! i)) \<inter> dom (kv ?w (shards d ! j)) = {}"
      using shard_facts(7) [OF inv] by blast
  qed simp
  finally show ?thesis .
qed

text \<open>The counters the shards keep.\<close>

definition expiring :: "keyspace \<Rightarrow> bytes set" where
  "expiring m = {k \<in> dom m. snd (the (m k)) \<noteq> 0}"

lemma map_shards:
  assumes "store_inv e d" "\<And>i. i < nShards \<Longrightarrow> f (shards d ! i) = g (shards d ! i)"
  shows "map f (shards d) = map g (shards d)"
proof -
  have "length (shards d) = nShards" using shard_facts(2) [OF assms(1), of 0] by (simp add: nShards_def)
  then show ?thesis using assms(2) by (auto simp: list_eq_iff_nth_eq)
qed

lemma counters_exact:
  assumes inv: "store_inv e d"
  shows "(\<Sum>s \<leftarrow> shards d. scount s) = int (card (dom (db e d)))"
    "(\<Sum>s \<leftarrow> shards d. nexp s) = int (card (expiring (db e d)))"
    "(\<Sum>s \<leftarrow> shards d. used s) = (\<Sum>k \<in> dom (db e d). entry_cost k (the (db e d k)))"
proof -
  have "map scount (shards d) = map (\<lambda>s. \<Sum>a \<in> refs (slots s). 1) (shards d)"
    by (rule map_shards [OF inv]) (simp add: shard_facts(4) [OF inv])
  from arg_cong [OF this, of sum_list] show "(\<Sum>s \<leftarrow> shards d. scount s) = int (card (dom (db e d)))"
    using store_sum [OF inv, of "\<lambda>k x. 1"] by simp
  have "map nexp (shards d) = map (\<lambda>s. \<Sum>a \<in> refs (slots s). if snd (entry (proc d) s a) \<noteq> 0 then 1 else 0) (shards d)"
    by (rule map_shards [OF inv]) (simp add: shard_facts(5) [OF inv] entry_def sum.If_cases Int_def conj_commute)
  from arg_cong [OF this, of sum_list] have "(\<Sum>s \<leftarrow> shards d. nexp s) = (\<Sum>k \<in> dom (db e d). if snd (the (db e d k)) \<noteq> 0 then 1 else 0)"
    using store_sum [OF inv, of "\<lambda>k x. if snd x \<noteq> 0 then 1 else 0"] by simp
  also have "\<dots> = int (card (expiring (db e d)))"
    using finite_db [OF inv] by (simp add: expiring_def sum.If_cases Int_def conj_commute)
  finally show "(\<Sum>s \<leftarrow> shards d. nexp s) = int (card (expiring (db e d)))" .
  have "map used (shards d) = map (\<lambda>s. \<Sum>a \<in> refs (slots s). entry_cost (key_at (proc d) a) (entry (proc d) s a)) (shards d)"
    by (rule map_shards [OF inv]) (auto simp: shard_facts(6) [OF inv] intro!: sum.cong cost_entry dest: shard_facts(3) [OF inv])
  from arg_cong [OF this, of sum_list] show "(\<Sum>s \<leftarrow> shards d. used s) = (\<Sum>k \<in> dom (db e d). entry_cost k (the (db e d k)))"
    using store_sum [OF inv, of entry_cost] by simp
qed

text \<open>\<open>KEYS\<close>.\<close>

lemma shard_keys_addrs:
  "shard_keys now pat w s = filter (globMatch pat) (map (key_at w) (filter (\<lambda>a. \<not> (iexp (mem w a) \<noteq> 0 \<and> iexp (mem w a) \<le> now)) (addrs (slots s))))"
proof -
  have "concat (map (\<lambda>v. case v of SRef t a \<Rightarrow> if iexp (mem w a) \<noteq> 0 \<and> iexp (mem w a) \<le> now then []
        else if globMatch pat (item_key (mem w a)) then [item_key (mem w a)] else [] | _ \<Rightarrow> []) sl)
      = filter (globMatch pat) (map (key_at w) (filter (\<lambda>a. \<not> (iexp (mem w a) \<noteq> 0 \<and> iexp (mem w a) \<le> now)) (addrs sl)))" for sl
    by (induction sl) (auto simp: key_at_def split: slot.splits)
  then show ?thesis unfolding shard_keys_def .
qed

lemma shard_keys_ok:
  assumes inv: "store_inv e d" and i: "i < nShards"
  shows "distinct (shard_keys now pat (proc d) (shards d ! i))"
    "set (shard_keys now pat (proc d) (shards d ! i)) = {k \<in> dom (view e now d). globMatch pat k \<and> shard_idx (hashKey e k) = i}"
proof -
  let ?w = "proc d" and ?s = "shards d ! i"
  note T = shard_facts(1) [OF inv i]
  have "distinct (map (key_at ?w) (addrs (slots ?s)))" by (rule distinct_addrs [OF T])
  then show "distinct (shard_keys now pat ?w ?s)" unfolding shard_keys_addrs by (intro distinct_filter distinct_map_filter)
  have kvv: "(\<exists>a \<in> refs (slots ?s). key_at ?w a = k \<and> \<not> (iexp (mem ?w a) \<noteq> 0 \<and> iexp (mem ?w a) \<le> now)) \<longleftrightarrow> live now (kv ?w ?s) k \<noteq> None" for k
  proof -
    have "live now (kv ?w ?s) k \<noteq> None \<longleftrightarrow> (\<exists>x. kv ?w ?s k = Some x \<and> \<not> (snd x \<noteq> 0 \<and> snd x \<le> now))"
      by (auto simp: live_def split: option.splits)
    then show ?thesis by (auto simp: kv_iff [OF T] entry_def)
  qed
  have vw: "k \<in> dom (view e now d) \<and> shard_idx (hashKey e k) = i \<longleftrightarrow> live now (kv ?w ?s) k \<noteq> None" for k
  proof (cases "shard_idx (hashKey e k) = i")
    case True
    then show ?thesis by (auto simp: view_kv dom_def)
  next
    case False
    then have "kv ?w ?s k = None" using shard_facts(7) [OF inv i] by blast
    then show ?thesis using False by (simp add: live_def)
  qed
  have "k \<in> set (shard_keys now pat ?w ?s) \<longleftrightarrow> live now (kv ?w ?s) k \<noteq> None \<and> globMatch pat k" for k
    unfolding kvv [symmetric] shard_keys_addrs by (auto simp: set_addrs)
  then show "set (shard_keys now pat ?w ?s) = {k \<in> dom (view e now d). globMatch pat k \<and> shard_idx (hashKey e k) = i}"
    unfolding vw [symmetric] by blast
qed

lemma keys_ok:
  assumes inv: "store_inv e d" and ks_def: "ks = concat (map (shard_keys now pat (proc d)) (shards d))"
  shows "distinct ks" "set ks = {k \<in> dom (view e now d). globMatch pat k}"
proof -
  have len: "length (shards d) = nShards" using shard_facts(2) [OF inv, of 0] by (simp add: nShards_def)
  have ks: "ks = concat (map (\<lambda>i. shard_keys now pat (proc d) (shards d ! i)) [0..<nShards])"
    unfolding ks_def len [symmetric] using arg_cong [OF map_nth [of "shards d", symmetric], of "map (shard_keys now pat (proc d))"]
    by (simp add: comp_def)
  have S: "set (shard_keys now pat (proc d) (shards d ! i)) = {k \<in> dom (view e now d). globMatch pat k \<and> shard_idx (hashKey e k) = i}"
    if "i < nShards" for i by (rule shard_keys_ok(2) [OF inv that])
  have "distinct (concat (map (\<lambda>i. shard_keys now pat (proc d) (shards d ! i)) [0..<n]))" if "n \<le> nShards" for n
    using that by (induction n) (use shard_keys_ok(1) [OF inv] S in \<open>auto\<close>)
  then show "distinct ks" unfolding ks by simp
  show "set ks = {k \<in> dom (view e now d). globMatch pat k}" unfolding ks using S shard_idx_less by auto
qed

end
