(* ===== verification/Command_Coll.thy ===== *)
theory Command_Coll
  imports Command_Keys
begin

text \<open>
  The list and hash commands against their specification. The proofs rest on the contracts of the ring
  buffer (\<open>ring\<close>) and of the hash object (\<open>hobj\<close>).
\<close>

section \<open>Specification\<close>

definition spec_push :: "int \<Rightarrow> bytes \<Rightarrow> bytes list \<Rightarrow> bool \<Rightarrow> (rval \<times> int) option \<Rightarrow> bytes \<times> (rval \<times> int) option" where
  "spec_push mm key vs front x =
     (let upd = (\<lambda>xs t. let ys = (if front then rev vs @ xs else xs @ vs) in
                   if too_big mm (entry_cost key (VList ys, t)) then (addErr [] errOOM, x)
                   else (addInt [] (int (length ys)), Some (VList ys, t)))
      in case x of None \<Rightarrow> upd [] 0 | Some (VList xs, t) \<Rightarrow> upd xs t | _ \<Rightarrow> (addErr [] errWrongType, x))"

text \<open>\<open>cnt\<close> is the optional argument of \<open>LPOP\<close> and \<open>RPOP\<close>; an emptied list disappears.\<close>

definition spec_pop :: "nat option \<Rightarrow> bool \<Rightarrow> (rval \<times> int) option \<Rightarrow> bytes \<times> (rval \<times> int) option" where
  "spec_pop cnt front x =
     (case x of
        None \<Rightarrow> (if cnt = None then addNull [] else addNullArr [], x)
      | Some (VList xs, t) \<Rightarrow>
          let n = (case cnt of None \<Rightarrow> 1 | Some c \<Rightarrow> min c (length xs));
              vs = take n (if front then xs else rev xs);
              ys = (if front then drop n xs else take (length xs - n) xs)
          in ((if cnt = None then [] else addArr [] n) @ concat (map bulk vs), if ys = [] then None else Some (VList ys, t))
      | _ \<Rightarrow> (addErr [] errWrongType, x))"

definition spec_llen :: "(rval \<times> int) option \<Rightarrow> bytes \<times> (rval \<times> int) option" where
  "spec_llen x = ((case x of None \<Rightarrow> addInt [] 0 | Some (VList xs, t) \<Rightarrow> addInt [] (int (length xs)) | _ \<Rightarrow> addErr [] errWrongType), x)"

text \<open>The elements from \<open>start\<close> to \<open>stop\<close> inclusive; negative indices count from the end.\<close>

definition from_end :: "int \<Rightarrow> nat \<Rightarrow> int" where
  "from_end i n = (if i < 0 then i + int n else i)"

definition list_range :: "int \<Rightarrow> int \<Rightarrow> 'a list \<Rightarrow> 'a list" where
  "list_range start stop xs =
     (let lo = nat (from_end start (length xs)); hi = from_end stop (length xs) in take (nat (hi + 1) - lo) (drop lo xs))"

definition spec_lrange :: "int \<Rightarrow> int \<Rightarrow> (rval \<times> int) option \<Rightarrow> bytes \<times> (rval \<times> int) option" where
  "spec_lrange start stop x =
     ((case x of
         None \<Rightarrow> addArr [] 0
       | Some (VList xs, t) \<Rightarrow> (let ys = list_range start stop xs in addArr [] (length ys) @ concat (map bulk ys))
       | _ \<Rightarrow> addErr [] errWrongType), x)"

definition spec_lindex :: "int \<Rightarrow> (rval \<times> int) option \<Rightarrow> bytes \<times> (rval \<times> int) option" where
  "spec_lindex i x =
     ((case x of
         None \<Rightarrow> addNull []
       | Some (VList xs, t) \<Rightarrow>
           (let j = from_end i (length xs) in if 0 \<le> j \<and> j < int (length xs) then addBulk [] (xs ! nat j) else addNull [])
       | _ \<Rightarrow> addErr [] errWrongType), x)"

definition spec_hset :: "int \<Rightarrow> bytes \<Rightarrow> bytes list \<Rightarrow> (rval \<times> int) option \<Rightarrow> bytes \<times> (rval \<times> int) option" where
  "spec_hset mm key fvs x =
     (let upd = (\<lambda>m t. if too_big mm (entry_cost key (VHash m, t) + fields_total fvs) then (addErr [] errOOM, x)
                       else let m' = m ++ map_of (rev (flat_pairs fvs))
                            in (addInt [] (int (card (dom m')) - int (card (dom m))), Some (VHash m', t)))
      in case x of None \<Rightarrow> upd Map.empty 0 | Some (VHash m, t) \<Rightarrow> upd m t | _ \<Rightarrow> (addErr [] errWrongType, x))"

definition spec_hget :: "bytes \<Rightarrow> (rval \<times> int) option \<Rightarrow> bytes \<times> (rval \<times> int) option" where
  "spec_hget f x =
     ((case x of
         None \<Rightarrow> addNull []
       | Some (VHash m, t) \<Rightarrow> (case m f of Some v \<Rightarrow> addBulk [] v | None \<Rightarrow> addNull [])
       | _ \<Rightarrow> addErr [] errWrongType), x)"

definition spec_hdel :: "bytes list \<Rightarrow> (rval \<times> int) option \<Rightarrow> bytes \<times> (rval \<times> int) option" where
  "spec_hdel fs x =
     (case x of
        None \<Rightarrow> (addInt [] 0, None)
      | Some (VHash m, t) \<Rightarrow>
          let m' = m |` (- set fs)
          in (addInt [] (int (card (dom m)) - int (card (dom m'))), if m' = Map.empty then None else Some (VHash m', t))
      | _ \<Rightarrow> (addErr [] errWrongType, x))"

definition spec_hlen :: "(rval \<times> int) option \<Rightarrow> bytes \<times> (rval \<times> int) option" where
  "spec_hlen x =
     ((case x of None \<Rightarrow> addInt [] 0 | Some (VHash m, t) \<Rightarrow> addInt [] (int (card (dom m))) | _ \<Rightarrow> addErr [] errWrongType), x)"

definition spec_hexists :: "bytes \<Rightarrow> (rval \<times> int) option \<Rightarrow> bytes \<times> (rval \<times> int) option" where
  "spec_hexists f x =
     ((case x of None \<Rightarrow> addInt [] 0 | Some (VHash m, t) \<Rightarrow> addInt [] (if m f \<noteq> None then 1 else 0) | _ \<Rightarrow> addErr [] errWrongType), x)"

definition spec_hincrby :: "int \<Rightarrow> bytes \<Rightarrow> bytes \<Rightarrow> int \<Rightarrow> (rval \<times> int) option \<Rightarrow> bytes \<times> (rval \<times> int) option" where
  "spec_hincrby mm key f delta x =
     (let upd = (\<lambda>cur m t extra. if \<not> in64 (cur + delta) then (addErr [] errOverflow, x)
             else let nv = itoa (cur + delta) in
               if too_big mm (int (64 + length key + 32 + length f + length nv) + extra) then (addErr [] errOOM, x)
               else (addInt [] (cur + delta), Some (VHash (m(f \<mapsto> nv)), t)))
      in case x of
           None \<Rightarrow> upd 0 Map.empty 0 0
         | Some (VHash m, t) \<Rightarrow>
             (case m f of
                None \<Rightarrow> upd 0 m t (entry_cost key (VHash m, t))
              | Some v \<Rightarrow> (case parseInt v of Some cur \<Rightarrow> upd cur m t (entry_cost key (VHash m, t)) | None \<Rightarrow> (addErr [] errHashInt, x)))
         | _ \<Rightarrow> (addErr [] errWrongType, x))"

section \<open>Typed lookups\<close>

lemma looked_list:
  assumes "looked e now key d idx it ins w s" "it \<noteq> 0" "ityp (mem w it) = typList"
  shows "view e now d key = Some (VList (list_elems (list_at_item w s it)), iexp (mem w it))"
    "objs s ! objIdx (mem w it) = Some (LObj (list_at_item w s it))" "list_inv (list_at_item w s it)"
    "lcost (list_at_item w s it) = list_cost (list_elems (list_at_item w s it))" "objIdx (mem w it) < length (objs s)"
  using looked_item(1,3) [OF assms(1,2)] assms(3)
  by (auto simp: entry_def val_of_def obj_ok_def list_at_item_def as_list_def)

lemma looked_hash:
  assumes "looked e now key d idx it ins w s" "it \<noteq> 0" "ityp (mem w it) = typHash"
  shows "view e now d key = Some (VHash (hash_fields (hash_at_item w s it)), iexp (mem w it))"
    "objs s ! objIdx (mem w it) = Some (HObj (hash_at_item w s it))" "hash_inv (hash_at_item w s it)"
    "hcost (hash_at_item w s it) = map_cost (hash_fields (hash_at_item w s it))" "objIdx (mem w it) < length (objs s)"
  using looked_item(1,3) [OF assms(1,2)] assms(3)
  by (auto simp: entry_def val_of_def obj_ok_def hash_at_item_def as_hash_def)

lemma looked_other:
  assumes "looked e now key d idx it ins w s" "it \<noteq> 0"
  shows "ityp (mem w it) \<noteq> typList \<Longrightarrow> (\<exists>v t. view e now d key = Some (VStr v, t)) \<or> (\<exists>m t. view e now d key = Some (VHash m, t))"
    "ityp (mem w it) \<noteq> typHash \<Longrightarrow> (\<exists>v t. view e now d key = Some (VStr v, t)) \<or> (\<exists>xs t. view e now d key = Some (VList xs, t))"
  using looked_item(1,3) [OF assms] by (auto simp: entry_def val_of_def obj_ok_def)

text \<open>Changing the object of an item in place, with its account.\<close>

lemma upd_obj_key:
  assumes a: "it \<in> refs (slots s)" "key_at w it = key" and ob: "objs s ! objIdx (mem w it) = Some ob" "ityp (mem w it) = obj_typ ob"
    and new: "obj_inv ob'" "obj_typ ob' = obj_typ ob" and d: "delta = obj_cost ob' - obj_cost ob"
    and r: "addUsed delta w (set_obj (objIdx (mem w it)) ob' s) = (w', s')"
  shows "key_op e key w s w' s' (Some (obj_val ob', iexp (mem w it)))" "slots s' = slots s" "mem w' = mem w"
proof -
  have r': "addUsed (obj_cost ob' - obj_cost ob) w (s\<lparr>objs := (objs s)[objIdx (mem w it) := Some ob']\<rparr>) = (w', s')"
    using r by (simp add: set_obj_def d)
  show "key_op e key w s w' s' (Some (obj_val ob', iexp (mem w it)))"
    using upd_obj_ok [OF _ a(1) ob new r'] a(2) by (simp add: key_op_def shard_op_def)
  show "slots s' = slots s" "mem w' = mem w"
    using r' by (auto simp: addUsed_def split: if_splits)
qed

lemma key_op_trans: "key_op e key w s w1 s1 v1 \<Longrightarrow> key_op e key w1 s1 w2 s2 v2 \<Longrightarrow> key_op e key w s w2 s2 v2"
  unfolding key_op_def using shard_op_trans by (metis shard_op_def)

section \<open>Room for objects\<close>

lemma del_room_objs: "objs_room s \<Longrightarrow> del e i it w s = (w', s') \<Longrightarrow> objs_room s'"
  by (auto simp: del_def addUsed_def releaseObj_def freeItem_def objs_room_def Let_def split: if_splits)

lemma get_room_objs: "objs_room s \<Longrightarrow> get e key h now w s = (idx, it, ins, w', s') \<Longrightarrow> objs_room s'"
  using del_room_objs by (auto simp: get_def Let_def split: prod.splits option.splits if_splits)

lemma grow_room_objs: "objs_room (grow e w s) \<longleftrightarrow> objs_room s"
  by (simp add: grow_def rehash_def objs_room_def)

text \<open>The first part of \<open>PUSH\<close>, \<open>HSET\<close> and \<open>HINCRBY\<close>: the object of the key, created when there is none.\<close>

definition opened :: "env \<Rightarrow> bytes \<Rightarrow> world \<Rightarrow> shard \<Rightarrow> nat \<Rightarrow> world \<Rightarrow> shard \<Rightarrow> obj \<Rightarrow> bool" where
  "opened e key w s p w2 s2 ob \<longleftrightarrow> key_op e key w s w2 s2 (Some (obj_val ob, iexp (mem w2 p)))
     \<and> p \<in> refs (slots s2) \<and> key_at w2 p = key \<and> ityp (mem w2 p) = obj_typ ob \<and> obj_inv ob
     \<and> objIdx (mem w2 p) < length (objs s2) \<and> objs s2 ! objIdx (mem w2 p) = Some ob"

lemma open_new:
  assumes inv: "store_inv e d" and lk: "looked e now key d idx 0 ins w s" and room: "has_room s" "objs_room s"
    and len: "length key < 2 ^ 32" and ob: "obj_inv ob" "typ = obj_typ ob"
    and r: "newContainer e ins (hashKey e key) key typ ob now w s = (p, w2, s2)"
  shows "opened e key w s p w2 s2 ob \<and> iexp (mem w2 p) = 0"
proof -
  have os: "os_ok e" using inv by (simp add: store_inv_def)
  have f: "found e key w s idx 0 ins" using looked_new [OF lk] by blast
  obtain F M where "shard_inv e F M (proc d) (shards d ! shard_idx (hashKey e key))" using store_shard [OF inv shard_idx_less] .
  then have i: "shard_inv e F M w s" using lk unfolding looked_def shard_op_def by blast
  note N = newContainer_ok [OF os _ f room len ob r]
  have op: "key_op e key w s w2 s2 (Some (obj_val ob, 0))" unfolding key_op_def shard_op_def using N by blast
  have "p \<in> refs (slots s2) \<and> key_at w2 p = key \<and> ityp (mem w2 p) = typ \<and> iexp (mem w2 p) = 0
    \<and> objIdx (mem w2 p) < length (objs s2) \<and> objs s2 ! objIdx (mem w2 p) = Some ob" using N [OF i] by blast
  then show ?thesis using op ob unfolding opened_def by simp
qed

lemma open_old:
  assumes inv: "store_inv e d" and lk: "looked e now key d idx it ins w s" and it: "it \<noteq> 0" and ty: "ityp (mem w it) \<noteq> typStr"
  shows "\<exists>ob. opened e key w s it w s ob \<and> view e now d key = Some (obj_val ob, iexp (mem w it))"
proof -
  note L = looked_item [OF lk it]
  obtain ob where ob: "objIdx (mem w it) < length (objs s)" "objs s ! objIdx (mem w it) = Some ob" "ityp (mem w it) = obj_typ ob" "obj_inv ob"
    using L(3) ty unfolding obj_ok_iff by auto
  have v: "view e now d key = Some (obj_val ob, iexp (mem w it))" using L(1) container_entry(1) [OF ob(2,3)] by simp
  have "key_op e key w s w s (Some (obj_val ob, iexp (mem w it)))" using key_op_idle [OF lk inv] v by simp
  then show ?thesis using ob L(5,6) v unfolding opened_def by blast
qed

text \<open>The second part: the object is replaced.\<close>

lemma opened_upd:
  assumes op: "opened e key w s p w2 s2 ob" and new: "obj_inv ob'" "obj_typ ob' = obj_typ ob" and d: "delta = obj_cost ob' - obj_cost ob"
    and r: "addUsed delta w2 (set_obj (objIdx (mem w2 p)) ob' s2) = (w', s')"
  shows "key_op e key w s w' s' (Some (obj_val ob', iexp (mem w2 p)))"
proof -
  have "key_op e key w2 s2 w' s' (Some (obj_val ob', iexp (mem w2 p)))"
    using op by (intro upd_obj_key(1) [OF _ _ _ _ new d r]) (auto simp: opened_def)
  then show ?thesis using op key_op_trans unfolding opened_def by blast
qed

section \<open>Lists\<close>

lemma list_cost_simps [simp]: "list_inv (l\<lparr>lcost := c\<rparr>) = list_inv l" "list_elems (l\<lparr>lcost := c\<rparr>) = list_elems l" "ln (l\<lparr>lcost := c\<rparr>) = ln l"
  by (auto simp: list_inv_def list_elems_def list_at_def fun_eq_iff)

lemma list_cost_append [simp]: "list_cost (xs @ ys) = list_cost xs + list_cost ys" "list_cost (rev xs) = list_cost xs"
  by (simp_all add: list_cost_def rev_map [symmetric])

lemma push_cost: "lcost (foldl (\<lambda>l v. list_push l v front) l vs) = lcost l"
  by (induction vs arbitrary: l) simp_all

lemma pop_cost: "lcost (fst (pop_many list_pop front n l)) = lcost l"
  by (induction n arbitrary: l) (simp_all add: Let_def)

lemma push_obj:
  assumes "obj_inv (LObj l)" "l1 = foldl (\<lambda>l v. list_push l v front) l vs"
  shows "obj_inv (LObj (l1\<lparr>lcost := lcost l1 + push_delta vs\<rparr>))" "push_delta vs = obj_cost (LObj (l1\<lparr>lcost := lcost l1 + push_delta vs\<rparr>)) - obj_cost (LObj l)"
    "list_elems l1 = (if front then rev vs @ list_elems l else list_elems l @ vs)"
proof -
  have i: "list_inv l" "lcost l = list_cost (list_elems l)" using assms(1) by (simp_all add: obj_inv_def)
  have p: "list_inv l1" "list_elems l1 = (if front then rev vs @ list_elems l else list_elems l @ vs)" "lcost l1 = lcost l"
    using ring.push_all [OF i(1), of front vs] push_cost [of front l vs] by (simp_all add: assms(2))
  have d: "push_delta vs = list_cost vs" by (simp add: push_delta_def list_cost_def)
  show "list_elems l1 = (if front then rev vs @ list_elems l else list_elems l @ vs)" by (rule p(2))
  show "push_delta vs = obj_cost (LObj (l1\<lparr>lcost := lcost l1 + push_delta vs\<rparr>)) - obj_cost (LObj l)" using p(3) by (simp add: obj_cost_def)
  show "obj_inv (LObj (l1\<lparr>lcost := lcost l1 + push_delta vs\<rparr>))" using p i(2) d by (auto simp: obj_inv_def)
qed

lemma list_new [simp]: "obj_inv (LObj new_listObj)" "list_elems new_listObj = []"
  by (simp_all add: obj_inv_def new_listObj_def list_inv_def list_elems_def list_cost_def)

lemma opened_list:
  assumes "opened e key w s p w2 s2 (LObj l)"
  shows "list_at_item w2 s2 p = l"
  using assms by (simp add: opened_def list_at_item_def as_list_def)

lemma push_written:
  assumes op: "opened e key w s p w2 s2 (LObj l)" and l1: "l1 = foldl (\<lambda>l v. list_push l v front) (list_at_item w2 s2 p) vs"
    and r: "addUsed (push_delta vs) w2 (set_obj (objIdx (mem w2 p)) (LObj (l1\<lparr>lcost := lcost l1 + push_delta vs\<rparr>)) s2) = (w', s')"
  shows "key_op e key w s w' s' (Some (VList (if front then rev vs @ list_elems l else list_elems l @ vs), iexp (mem w2 p)))"
    "int (ln l1) = int (length (if front then rev vs @ list_elems l else list_elems l @ vs))"
proof -
  have ob: "obj_inv (LObj l)" using op by (simp add: opened_def)
  note P = push_obj [OF ob, of l1 front vs]
  have l1': "l1 = foldl (\<lambda>l v. list_push l v front) l vs" using l1 opened_list [OF op] by simp
  have "key_op e key w s w' s' (Some (obj_val (LObj (l1\<lparr>lcost := lcost l1 + push_delta vs\<rparr>)), iexp (mem w2 p)))"
    by (rule opened_upd [OF op P(1) _ P(2) r]) (simp_all add: l1' obj_typ_def)
  then show "key_op e key w s w' s' (Some (VList (if front then rev vs @ list_elems l else list_elems l @ vs), iexp (mem w2 p)))"
    using P(3) [OF l1'] by (simp add: obj_val_def)
  have "length (list_elems l1) = length (if front then rev vs @ list_elems l else list_elems l @ vs)" using P(3) [OF l1'] by simp
  then show "int (ln l1) = int (length (if front then rev vs @ list_elems l else list_elems l @ vs))" by simp
qed

lemma push_total: "entry_cost key (VList (if front then rev vs @ xs else xs @ vs), t) = entry_cost key (VList xs, t) + push_delta vs"
  by (simp add: entry_cost_def val_cost_def push_delta_def list_cost_def rev_map [symmetric])

lemma cmdPush_ok:
  assumes rd: "rand_ok e" and inv: "store_inv e d" and len: "length (a ! 1) < 2 ^ 32" and room: "objs_room (shards d ! shard_idx (hashKey e (a ! 1)))"
  shows "refines_key e now (a ! 1) (spec_push (maxMemory (proc d)) (a ! 1) (drop 2 a) front) d out (cmdPush e now a front d out)"
proof -
  let ?key = "a ! 1" and ?vs = "drop 2 a" and ?mm = "maxMemory (proc d)"
  let ?x = "view e now d ?key" and ?i = "shard_idx (hashKey e (a ! 1))" and ?f = "spec_push ?mm ?key ?vs front"
  obtain idx it ins w s where g: "get e ?key (hashKey e ?key) now (proc d) (grow e (proc d) (shards d ! ?i)) = (idx, it, ins, w, s)"
    by (metis prod_cases5)
  note lk = grow_looked(1) [OF inv g] and hr = grow_looked(2) [OF inv g]
  have orm: "objs_room s" using get_room_objs [OF _ g] room grow_room_objs by blast
  have mm: "maxMemory w = ?mm" by (rule looked_mm [OF lk])
  show ?thesis
  proof (cases "it \<noteq> 0 \<and> ityp (mem w it) \<noteq> typList")
    case True
    then have "?f ?x = (addErr [] errWrongType, ?x)" using looked_other(1) [OF lk] by (auto simp: spec_push_def Let_def)
    from refines_idle [where f = ?f and out = out, OF inv lk this] show ?thesis
      unfolding cmdPush_def Let_def g prod.case if_P [OF True] reply_out(1) [of out] .
  next
    case ty: False
    define xs t where "xs = (if it \<noteq> 0 then list_elems (list_at_item w s it) else [])" and "t = (if it \<noteq> 0 then iexp (mem w it) else 0)"
    have x: "?x = (if it \<noteq> 0 then Some (VList xs, t) else None)"
      using looked_zero [OF lk] looked_list(1) [OF lk] ty by (auto simp: xs_def t_def)
    have cur: "(if it \<noteq> 0 then cost w s it else int (64 + length ?key)) = entry_cost ?key (VList xs, t)"
    proof (cases "it = 0")
      case True
      then show ?thesis by (simp add: xs_def entry_cost_def val_cost_def list_cost_def)
    next
      case False
      note L = looked_item [OF lk False]
      have "entry w s it = (VList xs, t)" using L(1) x False by simp
      then show ?thesis using cost_entry [OF L(4,3)] L(6) False by simp
    qed
    let ?ys = "if front then rev ?vs @ xs else xs @ ?vs"
    have f: "?f ?x = (if too_big ?mm (entry_cost ?key (VList xs, t) + push_delta ?vs) then (addErr [] errOOM, ?x)
        else (addInt [] (int (length ?ys)), Some (VList ?ys, t)))"
      unfolding push_total [where front = front, symmetric] by (simp add: spec_push_def Let_def x xs_def t_def)
    show ?thesis
    proof (cases "maxMemory w > 0 \<and> (if it \<noteq> 0 then cost w s it else int (64 + length ?key)) + push_delta ?vs > maxMemory w")
      case True
      then have "?f ?x = (addErr [] errOOM, ?x)" using f unfolding cur mm by (simp add: too_big_def)
      from refines_idle [where f = ?f and out = out, OF inv lk this] show ?thesis
        unfolding cmdPush_def Let_def g prod.case if_not_P [OF ty] if_P [OF True] reply_out(1) [of out] .
    next
      case fits: False
      then have f': "?f ?x = (addInt [] (int (length ?ys)), Some (VList ?ys, t))" using f unfolding cur mm by (auto simp: too_big_def)
      obtain p w2 s2 where o: "(if it = 0 then newContainer e ins (hashKey e ?key) ?key typList (LObj new_listObj) now w s else (it, w, s)) = (p, w2, s2)"
        by (metis prod_cases3)
      obtain l where op: "opened e ?key w s p w2 s2 (LObj l)" "list_elems l = xs" "iexp (mem w2 p) = t"
      proof (cases "it = 0")
        case True
        have "newContainer e ins (hashKey e ?key) ?key typList (LObj new_listObj) now w s = (p, w2, s2)" using o True by simp
        from open_new [OF inv lk [unfolded True] hr orm len list_new(1) _ this] show ?thesis
          using that [of new_listObj] True by (simp add: obj_typ_def xs_def t_def)
      next
        case False
        then have ty': "ityp (mem w it) = typList" using ty by simp
        have pw: "p = it" "w2 = w" "s2 = s" using o False by auto
        from open_old [OF inv lk False] ty' obtain ob where ob: "opened e ?key w s it w s ob" by auto
        then have "ob = LObj (list_at_item w s it)" using looked_list(2) [OF lk False ty'] by (simp add: opened_def)
        then show ?thesis using that ob False by (simp add: pw xs_def t_def)
      qed
      define l1 where "l1 = foldl (\<lambda>l v. list_push l v front) (list_at_item w2 s2 p) ?vs"
      obtain w3 s3 where r: "addUsed (push_delta ?vs) w2 (set_obj (objIdx (mem w2 p)) (LObj (l1\<lparr>lcost := lcost l1 + push_delta ?vs\<rparr>)) s2) = (w3, s3)"
        by fastforce
      note P = push_written [OF op(1) l1_def r, unfolded op(2,3)]
      have tm: "timely now (Some (VList ?ys, t))" using looked_timely [OF lk] by (auto simp: t_def)
      have n: "ln (l1\<lparr>lcost := lcost l1 + push_delta ?vs\<rparr>) = ln l1" by simp
      from refines_write [where f = ?f and out = out, OF rd inv lk P(1) tm f'] show ?thesis
        unfolding cmdPush_def Let_def g prod.case if_not_P [OF ty] if_not_P [OF fits] o l1_def [symmetric] r n P(2) reply_out(2) [of out] .
    qed
  qed
qed

text \<open>Reading commands.\<close>

lemma read_typed_ok:
  assumes inv: "store_inv e d"
    and f: "\<And>idx it ins w s. looked e now key d idx it ins w s \<Longrightarrow>
      f (view e now d key) = (if it \<noteq> 0 \<and> ityp (mem w it) \<noteq> typ then addErr [] errWrongType else R w s it, view e now d key)"
    and reply: "\<And>w s it. reply w s it = out @ R w s it"
  shows "refines_key e now key f d out (read_typed e now key typ reply d out)"
proof -
  obtain idx it ins w s where g: "get e key (hashKey e key) now (proc d) (shards d ! shard_idx (hashKey e key)) = (idx, it, ins, w, s)"
    by (metis prod_cases5)
  note lk = get_looked [OF inv g]
  from refines_idle [where f = f and out = out, OF inv lk f [OF lk]] show ?thesis
    by (cases "it \<noteq> 0 \<and> ityp (mem w it) \<noteq> typ") (auto simp: read_typed_def lookupTyped_def g Let_def reply reply_out(1) [of out])
qed

lemma cmdLlen_ok:
  assumes "store_inv e d"
  shows "refines_key e now (a ! 1) spec_llen d out (cmdLlen e now a d out)"
  unfolding cmdLlen_def
proof (rule read_typed_ok [OF assms, where R = "\<lambda>w s it. addInt [] (if it \<noteq> 0 then int (ln (list_at_item w s it)) else 0)"])
  fix idx it ins w s assume lk: "looked e now (a ! 1) d idx it ins w s"
  show "spec_llen (view e now d (a ! 1)) = (if it \<noteq> 0 \<and> ityp (mem w it) \<noteq> typList then addErr [] errWrongType
      else addInt [] (if it \<noteq> 0 then int (ln (list_at_item w s it)) else 0), view e now d (a ! 1))"
    using looked_zero [OF lk] looked_list(1) [OF lk] looked_other(1) [OF lk] by (auto simp: spec_llen_def)
qed (simp add: reply_out(2) [of out])

lemma map_list_at: "j \<le> ln l \<Longrightarrow> map (list_at l) [i..<j] = take (j - i) (drop i (list_elems l))"
  by (rule nth_equalityI) auto

lemma range_reply_ok: "range_reply start stop l out = out @ (let ys = list_range start stop (list_elems l) in addArr [] (length ys) @ concat (map bulk ys))"
proof -
  let ?n = "int (ln l)" and ?xs = "list_elems l"
  let ?lo = "from_end start (ln l)" and ?hi = "from_end stop (ln l)"
  let ?lo0 = "if ?lo < 0 then 0 else ?lo"
  have r: "list_range start stop ?xs = take (nat (?hi + 1) - nat ?lo) (drop (nat ?lo) ?xs)" by (simp add: list_range_def Let_def)
  have eq: "range_reply start stop l out = (if ?lo0 > ?hi \<or> ?lo0 \<ge> ?n then addArr out 0
      else foldl addBulk (addArr out (nat ((if ?hi \<ge> ?n then ?n - 1 else ?hi) - ?lo0 + 1)))
        (map (list_at l) [nat ?lo0..<nat (if ?hi \<ge> ?n then ?n - 1 else ?hi) + 1]))"
    by (simp add: range_reply_def Let_def from_end_def)
  show ?thesis
  proof (cases "?lo0 > ?hi \<or> ?lo0 \<ge> ?n")
    case True
    then have "list_range start stop ?xs = []" unfolding r by (auto split: if_splits)
    then show ?thesis using True by (simp add: eq reply_out(7) [of out] Let_def)
  next
    case False
    let ?h = "if ?hi \<ge> ?n then ?n - 1 else ?hi"
    have b: "0 \<le> ?lo0" "?lo0 \<le> ?h" "?h < ?n" "nat ?lo0 = nat ?lo" using False by (auto split: if_splits)
    have "map (list_at l) [nat ?lo0..<nat ?h + 1] = take (nat ?h + 1 - nat ?lo) (drop (nat ?lo) ?xs)"
      using map_list_at [of "nat ?h + 1" l "nat ?lo0"] b by simp
    also have "\<dots> = list_range start stop ?xs"
    proof (cases "?hi \<ge> ?n")
      case True
      then have "ln l \<le> nat ?h + 1" "ln l \<le> nat (?hi + 1)" by auto
      then have "length (drop (nat ?lo) ?xs) \<le> nat ?h + 1 - nat ?lo" "length (drop (nat ?lo) ?xs) \<le> nat (?hi + 1) - nat ?lo" by auto
      then show ?thesis unfolding r by (simp only: take_all)
    next
      case False
      then have "nat ?h + 1 = nat (?hi + 1)" using b by auto
      then show ?thesis unfolding r by simp
    qed
    finally have m: "map (list_at l) [nat ?lo0..<nat ?h + 1] = list_range start stop ?xs" .
    have "length (list_range start stop ?xs) = nat ?h + 1 - nat ?lo0" unfolding m [symmetric] by simp
    also have "\<dots> = nat (?h - ?lo0 + 1)" using b by auto
    finally have n: "nat (?h - ?lo0 + 1) = length (list_range start stop ?xs)" by simp
    show ?thesis unfolding eq if_not_P [OF False] m n foldl_addBulk by (simp add: reply_out(7) [of out] Let_def)
  qed
qed

lemma cmdLrange_ok:
  assumes "store_inv e d" "parseInt (a ! 2) = Some start" "parseInt (a ! 3) = Some stop"
  shows "refines_key e now (a ! 1) (spec_lrange start stop) d out (cmdLrange e now a d out)"
  unfolding cmdLrange_def assms(2,3) option.case prod.case
proof (rule read_typed_ok [OF assms(1), where R = "\<lambda>w s it. if it = 0 then addArr [] 0 else range_reply start stop (list_at_item w s it) []"])
  fix idx it ins w s assume lk: "looked e now (a ! 1) d idx it ins w s"
  show "spec_lrange start stop (view e now d (a ! 1)) = (if it \<noteq> 0 \<and> ityp (mem w it) \<noteq> typList then addErr [] errWrongType
      else if it = 0 then addArr [] 0 else range_reply start stop (list_at_item w s it) [], view e now d (a ! 1))"
    using looked_zero [OF lk] looked_list(1) [OF lk] looked_other(1) [OF lk]
    by (auto simp: spec_lrange_def range_reply_ok [where out = "[]"])
qed (simp add: reply_out(7) [of out] range_reply_ok [of _ _ _ out] range_reply_ok [of _ _ _ "[]"])

lemma cmdLindex_ok:
  assumes "store_inv e d" "parseInt (a ! 2) = Some i"
  shows "refines_key e now (a ! 1) (spec_lindex i) d out (cmdLindex e now a d out)"
  unfolding cmdLindex_def assms(2) option.case
proof (rule read_typed_ok [OF assms(1), where R = "\<lambda>w s it. if it = 0 then addNull []
      else let l = list_at_item w s it; idx = (if i < 0 then i + int (ln l) else i)
        in if idx < 0 \<or> idx \<ge> int (ln l) then addNull [] else addBulk [] (list_at l (nat idx))"])
  fix idx it ins w s assume lk: "looked e now (a ! 1) d idx it ins w s"
  let ?l = "list_at_item w s it"
  show "spec_lindex i (view e now d (a ! 1)) = (if it \<noteq> 0 \<and> ityp (mem w it) \<noteq> typList then addErr [] errWrongType
      else if it = 0 then addNull [] else let l = ?l; idx = (if i < 0 then i + int (ln l) else i)
        in if idx < 0 \<or> idx \<ge> int (ln l) then addNull [] else addBulk [] (list_at l (nat idx)), view e now d (a ! 1))"
  proof (cases "it = 0")
    case True
    then have "view e now d (a ! 1) = None" using looked_zero [OF lk] by blast
    then show ?thesis using True by (simp add: spec_lindex_def)
  next
    case it: False
    show ?thesis
    proof (cases "ityp (mem w it) = typList")
      case True
      have "nat (from_end i (ln ?l)) < ln ?l" if "0 \<le> from_end i (ln ?l)" "from_end i (ln ?l) < int (ln ?l)" using that by simp
      then show ?thesis using it True looked_list(1) [OF lk it True]
        by (simp add: spec_lindex_def Let_def from_end_def not_le not_less split: if_splits)
    qed (use it looked_other(1) [OF lk it] in \<open>auto simp: spec_lindex_def\<close>)
  qed
qed (simp add: reply_out(4,8) [of out] Let_def)

text \<open>Popping.\<close>

definition spec_pop_args :: "bytes list \<Rightarrow> bool \<Rightarrow> (rval \<times> int) option \<Rightarrow> bytes \<times> (rval \<times> int) option" where
  "spec_pop_args a front x =
     (if length a > 3 then (addErr [] (errArgs (if front then ''lpop'' else ''rpop'')), x)
      else if length a = 3 then
        (case parseInt (a ! 2) of
           Some c \<Rightarrow> if c < 0 then (addErr [] errPositive, x) else spec_pop (Some (nat c)) front x
         | None \<Rightarrow> (addErr [] errPositive, x))
      else spec_pop None front x)"

lemma pop_obj:
  assumes "obj_inv (LObj l)" "n \<le> ln l" "pop_many list_pop front n l = (l1, vs)"
  shows "obj_inv (LObj (l1\<lparr>lcost := lcost l1 - push_delta vs\<rparr>))" "- push_delta vs = obj_cost (LObj (l1\<lparr>lcost := lcost l1 - push_delta vs\<rparr>)) - obj_cost (LObj l)"
    "vs = take n (if front then list_elems l else rev (list_elems l))"
    "list_elems l1 = (if front then drop n (list_elems l) else take (ln l - n) (list_elems l))"
proof -
  let ?xs = "list_elems l"
  have i: "list_inv l" "lcost l = list_cost ?xs" using assms(1) by (simp_all add: obj_inv_def)
  have p: "list_inv l1" "vs = take n (if front then ?xs else rev ?xs)" "list_elems l1 = (if front then drop n ?xs else take (ln l - n) ?xs)"
    "lcost l1 = lcost l"
    using ring.pop_all [OF i(1), of n front] pop_cost [of front n l] assms(2,3) by simp_all
  show "vs = take n (if front then ?xs else rev ?xs)" "list_elems l1 = (if front then drop n ?xs else take (ln l - n) ?xs)"
    by (rule p(2), rule p(3))
  have c: "list_cost ?xs = list_cost (list_elems l1) + push_delta vs"
  proof (cases front)
    case True
    have "list_cost ?xs = list_cost (take n ?xs) + list_cost (drop n ?xs)" by (simp only: list_cost_append(1) [symmetric] append_take_drop_id)
    then show ?thesis using p True by (simp add: push_delta_def list_cost_def)
  next
    case False
    have "list_cost ?xs = list_cost (take (ln l - n) ?xs) + list_cost (drop (ln l - n) ?xs)"
      by (simp only: list_cost_append(1) [symmetric] append_take_drop_id)
    moreover have "vs = rev (drop (ln l - n) ?xs)" using p(2) False by (simp add: take_rev)
    moreover have "push_delta (rev ys) = list_cost ys" for ys by (simp add: push_delta_def list_cost_def rev_map [symmetric])
    ultimately show ?thesis using p False by simp
  qed
  show "- push_delta vs = obj_cost (LObj (l1\<lparr>lcost := lcost l1 - push_delta vs\<rparr>)) - obj_cost (LObj l)" using p(4) by (simp add: obj_cost_def)
  show "obj_inv (LObj (l1\<lparr>lcost := lcost l1 - push_delta vs\<rparr>))" using p i(2) c by (simp add: obj_inv_def)
qed

lemma pop_run_ok:
  assumes inv: "store_inv e d" and ne: "\<And>t. view e now d key \<noteq> Some (VList [], t)"
    and c: "cnt = (if c < 0 then None else Some (nat c))"
  shows "refines_key e now key (spec_pop cnt front) d out (pop_run e now key c front d out)"
proof -
  let ?i = "shard_idx (hashKey e key)" and ?x = "view e now d key" and ?f = "spec_pop cnt front"
  obtain idx it ins w s where g: "get e key (hashKey e key) now (proc d) (shards d ! ?i) = (idx, it, ins, w, s)" by (metis prod_cases5)
  note lk = get_looked [OF inv g]
  show ?thesis
  proof (cases "it = 0")
    case True
    then have "?x = None" using looked_zero [OF lk] by blast
    then have "?f ?x = (if c \<ge> 0 then addNullArr [] else addNull [], ?x)" by (simp add: spec_pop_def c)
    from refines_idle [where f = ?f and out = out, OF inv lk this] True show ?thesis
      by (simp add: pop_run_def g Let_def reply_out(4,5) [of out] split: if_splits)
  next
    case it: False
    show ?thesis
    proof (cases "ityp (mem w it) = typList")
      case False
      then have "?f ?x = (addErr [] errWrongType, ?x)" using looked_other(1) [OF lk it] by (auto simp: spec_pop_def)
      from refines_idle [where f = ?f and out = out, OF inv lk this] it False show ?thesis
        by (simp add: pop_run_def g Let_def reply_out(1) [of out])
    next
      case ty: True
      let ?l = "list_at_item w s it"
      note L = looked_list [OF lk it ty] and I = looked_item [OF lk it]
      have ob: "obj_inv (LObj ?l)" using L(3,4) by (simp add: obj_inv_def)
      define n where "n = (if c < 0 then 1 else nat (min c (int (ln ?l))))"
      have pos: "0 < ln ?l" using ne [of "iexp (mem w it)"] L(1) length_list_elems [of ?l] by (metis length_greater_0_conv)
      then have n: "n \<le> ln ?l" by (auto simp: n_def)
      obtain l1 vs where pm: "pop_many list_pop front n ?l = (l1, vs)" by fastforce
      note P = pop_obj [OF ob n pm]
      let ?l2 = "l1\<lparr>lcost := lcost l1 - push_delta vs\<rparr>"
      obtain w1 s1 where u: "addUsed (- push_delta vs) w (set_obj (objIdx (mem w it)) (LObj ?l2) s) = (w1, s1)" by fastforce
      note U = upd_obj_key [OF I(5,6) L(2) _ P(1) _ P(2) u]
      have op1: "key_op e key w s w1 s1 (Some (VList (list_elems l1), iexp (mem w it)))"
        using U(1) ty by (simp add: obj_typ_def obj_val_def)
      have same: "slots s1 = slots s" "mem w1 = mem w" using U(2,3) ty by (simp_all add: obj_typ_def)
      obtain w2 s2 where dl: "(if ln l1 = 0 then del e (the idx) it w1 s1 else (w1, s1)) = (w2, s2)" by (metis surj_pair)
      have op2: "key_op e key w s w2 s2 (if list_elems l1 = [] then None else Some (VList (list_elems l1), iexp (mem w it)))"
      proof (cases "ln l1 = 0")
        case True
        then have "del e (the idx) it w1 s1 = (w2, s2)" using dl by simp
        moreover have "ref_at (slots s1) (the idx) it" "key_at w1 it = key" using I(6,7) same by (simp_all add: key_at_def)
        ultimately have "key_op e key w1 s1 w2 s2 None" using del_at by blast
        moreover have "list_elems l1 = []" using True length_list_elems [of l1] by (metis length_0_conv)
        ultimately show ?thesis using key_op_trans [OF op1] by simp
      next
        case False
        then have "list_elems l1 \<noteq> []" using length_list_elems [of l1] by (metis list.size(3))
        then show ?thesis using dl False op1 by simp
      qed
      have nc: "(case cnt of None \<Rightarrow> 1 | Some k \<Rightarrow> min k (ln ?l)) = n" by (auto simp: c n_def)
      have f: "?f ?x = ((if c < 0 then [] else addArr [] n) @ concat (map bulk vs), if list_elems l1 = [] then None else Some (VList (list_elems l1), iexp (mem w it)))"
        unfolding L(1) spec_pop_def option.case prod.case rval.case Let_def length_list_elems nc P(3,4) by (simp add: c)
      have tm: "timely now (if list_elems l1 = [] then None else Some (VList (list_elems l1), iexp (mem w it)))"
        using looked_timely [OF lk it] by simp
      have o: "foldl addBulk (if c < 0 then out else addArr out n) vs = out @ ((if c < 0 then [] else addArr [] n) @ concat (map bulk vs))"
        by (simp add: foldl_addBulk reply_out(7) [of out])
      have ty': "\<not> ityp (mem w it) \<noteq> typList" using ty by simp
      from refines_op [where f = ?f and out = out, OF inv lk op2 tm f] show ?thesis
        unfolding pop_run_def Let_def g prod.case if_not_P [OF it] if_not_P [OF ty'] n_def [symmetric] pm u dl o .
    qed
  qed
qed

lemma cmdPop_ok:
  assumes inv: "store_inv e d" and ne: "\<And>t. view e now d (a ! 1) \<noteq> Some (VList [], t)"
  shows "refines_key e now (a ! 1) (spec_pop_args a front) d out (cmdPop e now a front d out)"
proof (cases "length a > 3 \<or> length a = 3 \<and> (case parseInt (a ! 2) of Some c \<Rightarrow> c < 0 | None \<Rightarrow> True)")
  case True
  let ?err = "if length a > 3 then errArgs (if front then ''lpop'' else ''rpop'') else errPositive"
  have "spec_pop_args a front (view e now d (a ! 1)) = (addErr [] ?err, view e now d (a ! 1))"
    using True by (auto simp: spec_pop_args_def split: option.splits)
  from refines_none [where f = "spec_pop_args a front" and out = out, OF inv this] True show ?thesis
    by (auto simp: cmdPop_def Let_def reply_out(1) [of out] split: option.splits)
next
  case False
  define c where "c = (if length a = 3 then the (parseInt (a ! 2)) else - 1)"
  have eq: "cmdPop e now a front d out = pop_run e now (a ! 1) c front d out"
    using False by (auto simp: cmdPop_def Let_def c_def split: option.splits)
  have "spec_pop_args a front = spec_pop (if c < 0 then None else Some (nat c)) front"
    using False by (auto simp: spec_pop_args_def c_def fun_eq_iff split: option.splits)
  then show ?thesis using pop_run_ok [OF inv ne refl, of c front out] by (simp add: eq)
qed

section \<open>Hashes\<close>

lemma hash_cost_simps [simp]: "hash_inv (h\<lparr>hcost := c\<rparr>) = hash_inv h" "hash_fields (h\<lparr>hcost := c\<rparr>) = hash_fields h"
  by (auto simp: hash_inv_def hash_items_def hash_fields_def split: option.splits)

lemma hash_new [simp]: "obj_inv (HObj new_hashObj)"
  by (simp add: obj_inv_def) (simp add: new_hashObj_def map_cost_def hash_inv_def hash_items_def)

lemma set_loop_cost: "set_loop hash_set h fvs = (h2, d, n) \<Longrightarrow> hash_inv h \<Longrightarrow> hcost h2 = hcost h"
proof (induction fvs arbitrary: h d n rule: flat_pairs.induct)
  case (1 f v r)
  obtain h' old where s: "hash_set h f v = (h', old)" by force
  obtain d' n' where l: "set_loop hash_set h' r = (h2, d', n')" using 1(2) s by (auto split: prod.splits option.splits)
  have "hash_inv h'" "hcost h' = hcost h" using hash_set_props [OF 1(3), of f v] s by simp_all
  then show ?case using 1(1) [OF l] by simp
qed auto

lemma del_loop_cost: "del_loop hash_del h fs = (h2, d, n) \<Longrightarrow> hash_inv h \<Longrightarrow> hcost h2 = hcost h"
proof (induction fs arbitrary: h d n)
  case (Cons f r)
  obtain h' old where s: "hash_del h f = (h', old)" by force
  obtain d' n' where l: "del_loop hash_del h' r = (h2, d', n')" using Cons.prems(1) s by (auto split: prod.splits option.splits)
  have "hash_inv h'" "hcost h' = hcost h" using hash_del_props [OF Cons.prems(2), of f] s by simp_all
  then show ?case using Cons.IH [OF l] by simp
qed auto

lemma opened_hash:
  assumes "opened e key w s p w2 s2 (HObj h)"
  shows "hash_at_item w2 s2 p = h"
  using assms by (simp add: opened_def hash_at_item_def as_hash_def)

text \<open>The lookup-or-create step of the two writing commands, on the level of field maps.\<close>

lemma hash_open:
  assumes inv: "store_inv e d" and lk: "looked e now key d idx it ins w s" and room: "has_room s" "objs_room s" and len: "length key < 2 ^ 32"
    and ty: "\<not> (it \<noteq> 0 \<and> ityp (mem w it) \<noteq> typHash)"
    and o: "(if it = 0 then newContainer e ins (hashKey e key) key typHash (HObj new_hashObj) now w s else (it, w, s)) = (p, w2, s2)"
    and m: "m = (if it \<noteq> 0 then hash_fields (hash_at_item w s it) else Map.empty)" and t: "t = (if it \<noteq> 0 then iexp (mem w it) else 0)"
  obtains h where "opened e key w s p w2 s2 (HObj h)" "hash_fields h = m" "iexp (mem w2 p) = t" "hash_at_item w2 s2 p = h" "hash_inv h"
    "hcost h = map_cost (hash_fields h)"
proof -
  have "\<exists>h. opened e key w s p w2 s2 (HObj h) \<and> hash_fields h = m \<and> iexp (mem w2 p) = t"
  proof (cases "it = 0")
    case True
    have "newContainer e ins (hashKey e key) key typHash (HObj new_hashObj) now w s = (p, w2, s2)" using o True by simp
    from open_new [OF inv lk [unfolded True] room len hash_new _ this] show ?thesis
      using True by (intro exI [of _ new_hashObj]) (simp add: obj_typ_def m t)
  next
    case False
    then have ty': "ityp (mem w it) = typHash" using ty by simp
    have pw: "p = it" "w2 = w" "s2 = s" using o False by auto
    from open_old [OF inv lk False] ty' obtain ob where ob: "opened e key w s it w s ob" by auto
    then have "ob = HObj (hash_at_item w s it)" using looked_hash(2) [OF lk False ty'] by (simp add: opened_def)
    then show ?thesis using ob False by (auto simp: pw m t)
  qed
  then obtain h where h: "opened e key w s p w2 s2 (HObj h)" "hash_fields h = m" "iexp (mem w2 p) = t" by blast
  then have "hash_inv h" "hcost h = map_cost (hash_fields h)" by (simp_all add: opened_def obj_inv_def)
  then show ?thesis using that h opened_hash [OF h(1)] by blast
qed

lemma hash_view:
  assumes lk: "looked e now key d idx it ins w s" and ty: "\<not> (it \<noteq> 0 \<and> ityp (mem w it) \<noteq> typHash)"
    and m: "m = (if it \<noteq> 0 then hash_fields (hash_at_item w s it) else Map.empty)" and t: "t = (if it \<noteq> 0 then iexp (mem w it) else 0)"
  shows "view e now d key = (if it \<noteq> 0 then Some (VHash m, t) else None)" "timely now (Some (VHash m', t))"
    "(if it \<noteq> 0 then cost w s it else int (64 + length key)) = entry_cost key (VHash m, t)"
proof -
  show x: "view e now d key = (if it \<noteq> 0 then Some (VHash m, t) else None)"
    using looked_zero [OF lk] looked_hash(1) [OF lk] ty by (auto simp: m t)
  show "timely now (Some (VHash m', t))" using looked_timely [OF lk] by (auto simp: t)
  show "(if it \<noteq> 0 then cost w s it else int (64 + length key)) = entry_cost key (VHash m, t)"
  proof (cases "it = 0")
    case True
    then show ?thesis by (simp add: m entry_cost_def val_cost_def map_cost_def)
  next
    case False
    note L = looked_item [OF lk False]
    have "entry w s it = (VHash m, t)" using L(1) x False by simp
    then show ?thesis using cost_entry [OF L(4,3)] L(6) False by simp
  qed
qed

lemma cmdHset_ok:
  assumes rd: "rand_ok e" and inv: "store_inv e d" and ev: "even (length a)" and len: "length (a ! 1) < 2 ^ 32"
    and room: "objs_room (shards d ! shard_idx (hashKey e (a ! 1)))"
  shows "refines_key e now (a ! 1) (spec_hset (maxMemory (proc d)) (a ! 1) (drop 2 a)) d out (cmdHset e now a d out)"
proof -
  let ?key = "a ! 1" and ?fvs = "drop 2 a" and ?mm = "maxMemory (proc d)"
  let ?x = "view e now d ?key" and ?i = "shard_idx (hashKey e (a ! 1))" and ?f = "spec_hset ?mm ?key ?fvs"
  have ev': "\<not> length a mod 2 \<noteq> 0" using ev by (simp add: even_iff_mod_2_eq_zero)
  obtain idx it ins w s where g: "get e ?key (hashKey e ?key) now (proc d) (grow e (proc d) (shards d ! ?i)) = (idx, it, ins, w, s)"
    by (metis prod_cases5)
  note lk = grow_looked(1) [OF inv g] and hr = grow_looked(2) [OF inv g]
  have orm: "objs_room s" using get_room_objs [OF _ g] room grow_room_objs by blast
  have mm: "maxMemory w = ?mm" by (rule looked_mm [OF lk])
  show ?thesis
  proof (cases "it \<noteq> 0 \<and> ityp (mem w it) \<noteq> typHash")
    case True
    then have "?f ?x = (addErr [] errWrongType, ?x)" using looked_other(2) [OF lk] by (auto simp: spec_hset_def Let_def)
    from refines_idle [where f = ?f and out = out, OF inv lk this] show ?thesis
      unfolding cmdHset_def Let_def if_not_P [OF ev'] g prod.case if_P [OF True] reply_out(1) [of out] .
  next
    case ty: False
    define m t where "m = (if it \<noteq> 0 then hash_fields (hash_at_item w s it) else Map.empty)" and "t = (if it \<noteq> 0 then iexp (mem w it) else 0)"
    note V = hash_view [OF lk ty m_def t_def]
    let ?m' = "m ++ map_of (rev (flat_pairs ?fvs))"
    have f: "?f ?x = (if too_big ?mm (entry_cost ?key (VHash m, t) + fields_total ?fvs) then (addErr [] errOOM, ?x)
        else (addInt [] (int (card (dom ?m')) - int (card (dom m))), Some (VHash ?m', t)))"
      by (simp add: spec_hset_def Let_def V(1) m_def t_def)
    show ?thesis
    proof (cases "maxMemory w > 0 \<and> (if it \<noteq> 0 then cost w s it else int (64 + length ?key)) + fields_total ?fvs > maxMemory w")
      case True
      then have "?f ?x = (addErr [] errOOM, ?x)" using f unfolding V(3) mm by (simp add: too_big_def)
      from refines_idle [where f = ?f and out = out, OF inv lk this] show ?thesis
        unfolding cmdHset_def Let_def if_not_P [OF ev'] g prod.case if_not_P [OF ty] if_P [OF True] reply_out(1) [of out] .
    next
      case fits: False
      then have f': "?f ?x = (addInt [] (int (card (dom ?m')) - int (card (dom m))), Some (VHash ?m', t))"
        using f unfolding V(3) mm by (auto simp: too_big_def)
      obtain p w2 s2 where o: "(if it = 0 then newContainer e ins (hashKey e ?key) ?key typHash (HObj new_hashObj) now w s else (it, w, s)) = (p, w2, s2)"
        by (metis prod_cases3)
      obtain h where h: "opened e ?key w s p w2 s2 (HObj h)" "hash_fields h = m" "iexp (mem w2 p) = t" "hash_at_item w2 s2 p = h"
        "hash_inv h" "hcost h = map_cost (hash_fields h)" using hash_open [OF inv lk hr orm len ty o m_def t_def] .
      obtain ho delta added where sl: "set_loop hash_set (hash_at_item w2 s2 p) ?fvs = (ho, delta, added)" by (metis prod_cases3)
      note S = hobj.set_loop_props [OF h(5) sl [unfolded h(4)], unfolded h(2)] and C = set_loop_cost [OF sl [unfolded h(4)] h(5)]
      let ?ob = "HObj (ho\<lparr>hcost := hcost ho + delta\<rparr>)"
      obtain w3 s3 where r: "addUsed delta w2 (set_obj (objIdx (mem w2 p)) ?ob s2) = (w3, s3)" by fastforce
      have ob: "obj_inv ?ob" "delta = obj_cost ?ob - obj_cost (HObj h)" using S C h(2,6) by (simp_all add: obj_inv_def obj_cost_def)
      have "key_op e ?key w s w3 s3 (Some (obj_val ?ob, iexp (mem w2 p)))"
        by (rule opened_upd [OF h(1) ob(1) _ ob(2) r]) (simp add: obj_typ_def)
      then have op: "key_op e ?key w s w3 s3 (Some (VHash ?m', t))" using S h(3) by (simp add: obj_val_def)
      have n: "int added = int (card (dom ?m')) - int (card (dom m))" using S by simp
      from refines_write [where f = ?f and out = out, OF rd inv lk op V(2) f'] show ?thesis
        unfolding cmdHset_def Let_def if_not_P [OF ev'] g prod.case if_not_P [OF ty] if_not_P [OF fits] o sl r n reply_out(2) [of out] .
    qed
  qed
qed

lemma cmdHget_ok:
  assumes "store_inv e d"
  shows "refines_key e now (a ! 1) (spec_hget (a ! 2)) d out (cmdHget e now a d out)"
  unfolding cmdHget_def
proof (rule read_typed_ok [OF assms, where R = "\<lambda>w s it. if it = 0 then addNull []
      else case hash_get (hash_at_item w s it) (a ! 2) of Some v \<Rightarrow> addBulk [] v | None \<Rightarrow> addNull []"])
  fix idx it ins w s assume lk: "looked e now (a ! 1) d idx it ins w s"
  show "spec_hget (a ! 2) (view e now d (a ! 1)) = (if it \<noteq> 0 \<and> ityp (mem w it) \<noteq> typHash then addErr [] errWrongType
      else if it = 0 then addNull [] else case hash_get (hash_at_item w s it) (a ! 2) of Some v \<Rightarrow> addBulk [] v | None \<Rightarrow> addNull [], view e now d (a ! 1))"
    using looked_zero [OF lk] looked_hash(1,3) [OF lk] looked_other(2) [OF lk] by (auto simp: spec_hget_def hobj.get_fields)
qed (simp add: reply_out(4,8) [of out] split: option.splits)

lemma cmdHexists_ok:
  assumes "store_inv e d"
  shows "refines_key e now (a ! 1) (spec_hexists (a ! 2)) d out (cmdHexists e now a d out)"
  unfolding cmdHexists_def
proof (rule read_typed_ok [OF assms, where R = "\<lambda>w s it. addInt [] (if it \<noteq> 0 \<and> hash_get (hash_at_item w s it) (a ! 2) \<noteq> None then 1 else 0)"])
  fix idx it ins w s assume lk: "looked e now (a ! 1) d idx it ins w s"
  show "spec_hexists (a ! 2) (view e now d (a ! 1)) = (if it \<noteq> 0 \<and> ityp (mem w it) \<noteq> typHash then addErr [] errWrongType
      else addInt [] (if it \<noteq> 0 \<and> hash_get (hash_at_item w s it) (a ! 2) \<noteq> None then 1 else 0), view e now d (a ! 1))"
    using looked_zero [OF lk] looked_hash(1,3) [OF lk] looked_other(2) [OF lk] by (auto simp: spec_hexists_def hobj.get_fields)
qed (simp add: reply_out(2) [of out])

lemma cmdHlen_ok:
  assumes "store_inv e d"
  shows "refines_key e now (a ! 1) spec_hlen d out (cmdHlen e now a d out)"
  unfolding cmdHlen_def
proof (rule read_typed_ok [OF assms, where R = "\<lambda>w s it. addInt [] (if it \<noteq> 0 then int (hash_size (hash_at_item w s it)) else 0)"])
  fix idx it ins w s assume lk: "looked e now (a ! 1) d idx it ins w s"
  show "spec_hlen (view e now d (a ! 1)) = (if it \<noteq> 0 \<and> ityp (mem w it) \<noteq> typHash then addErr [] errWrongType
      else addInt [] (if it \<noteq> 0 then int (hash_size (hash_at_item w s it)) else 0), view e now d (a ! 1))"
    using looked_zero [OF lk] looked_hash(1,3) [OF lk] looked_other(2) [OF lk] by (auto simp: spec_hlen_def hobj.size_fields)
qed (simp add: reply_out(2) [of out])

lemma cmdHdel_ok:
  assumes inv: "store_inv e d"
  shows "refines_key e now (a ! 1) (spec_hdel (drop 2 a)) d out (cmdHdel e now a d out)"
proof -
  let ?key = "a ! 1" and ?fs = "drop 2 a" and ?i = "shard_idx (hashKey e (a ! 1))"
  let ?x = "view e now d ?key" and ?f = "spec_hdel ?fs"
  obtain idx it ins w s where g: "get e ?key (hashKey e ?key) now (proc d) (shards d ! ?i) = (idx, it, ins, w, s)" by (metis prod_cases5)
  note lk = get_looked [OF inv g]
  have lt: "lookupTyped e now ?key typHash d = (if it \<noteq> 0 \<and> ityp (mem w it) \<noteq> typHash then None else Some (idx, it), w, s)"
    by (simp add: lookupTyped_def g Let_def)
  show ?thesis
  proof (cases "it = 0")
    case True
    then have "?x = None" using looked_zero [OF lk] by blast
    then have "?f ?x = (addInt [] 0, ?x)" by (simp add: spec_hdel_def)
    from refines_idle [where f = ?f and out = out, OF inv lk this] True show ?thesis by (simp add: cmdHdel_def lt Let_def reply_out(2) [of out])
  next
    case it: False
    show ?thesis
    proof (cases "ityp (mem w it) = typHash")
      case False
      then have "?f ?x = (addErr [] errWrongType, ?x)" using looked_other(2) [OF lk it] by (auto simp: spec_hdel_def)
      from refines_idle [where f = ?f and out = out, OF inv lk this] it False show ?thesis by (simp add: cmdHdel_def lt Let_def reply_out(1) [of out])
    next
      case ty: True
      let ?h = "hash_at_item w s it" and ?t = "iexp (mem w it)"
      note L = looked_hash [OF lk it ty] and I = looked_item [OF lk it]
      obtain ho delta n where dl: "del_loop hash_del ?h ?fs = (ho, delta, n)" by (metis prod_cases3)
      note D = hobj.del_loop_props [OF L(3) dl] and C = del_loop_cost [OF dl L(3)]
      let ?ob = "HObj (ho\<lparr>hcost := hcost ho - delta\<rparr>)" and ?m' = "hash_fields ?h |` (- set ?fs)"
      obtain w1 s1 where u: "addUsed (- delta) w (set_obj (objIdx (mem w it)) ?ob s) = (w1, s1)" by fastforce
      have ob: "obj_inv ?ob" "- delta = obj_cost ?ob - obj_cost (HObj ?h)" using D C L(4) by (simp_all add: obj_inv_def obj_cost_def)
      note U = upd_obj_key [OF I(5,6) L(2) _ ob(1) _ ob(2) u]
      have op1: "key_op e ?key w s w1 s1 (Some (VHash ?m', ?t))" using U(1) ty D by (simp add: obj_typ_def obj_val_def)
      have same: "slots s1 = slots s" "mem w1 = mem w" using U(2,3) ty by (simp_all add: obj_typ_def)
      obtain w2 s2 where dd: "(if hash_size ho = 0 then del e (the idx) it w1 s1 else (w1, s1)) = (w2, s2)" by (metis surj_pair)
      have m': "hash_fields ho = ?m'" "hash_inv ho" using D by blast+
      have "finite (dom ?m')" "hash_size ho = card (dom ?m')" using hobj.finite_fields [OF m'(2)] hobj.size_fields [OF m'(2)] unfolding m'(1) .
      then have z: "hash_size ho = 0 \<longleftrightarrow> ?m' = Map.empty" by (simp add: dom_eq_empty_conv del: dom_restrict)
      have op2: "key_op e ?key w s w2 s2 (if ?m' = Map.empty then None else Some (VHash ?m', ?t))"
      proof (cases "hash_size ho = 0")
        case True
        then have "del e (the idx) it w1 s1 = (w2, s2)" using dd by simp
        moreover have "ref_at (slots s1) (the idx) it" "key_at w1 it = ?key" using I(6,7) same by (simp_all add: key_at_def)
        ultimately have "key_op e ?key w1 s1 w2 s2 None" using del_at by blast
        then show ?thesis using key_op_trans [OF op1] True z by simp
      next
        case False
        then show ?thesis using dd op1 z by simp
      qed
      have f: "?f ?x = (addInt [] (int n), if ?m' = Map.empty then None else Some (VHash ?m', ?t))"
        unfolding L(1) spec_hdel_def using D by (simp add: Let_def)
      have tm: "timely now (if ?m' = Map.empty then None else Some (VHash ?m', ?t))" using looked_timely [OF lk it] by simp
      have lt': "lookupTyped e now ?key typHash d = (Some (idx, it), w, s)" using lt ty by simp
      from refines_op [where f = ?f and out = out, OF inv lk op2 tm f] show ?thesis
        unfolding cmdHdel_def Let_def lt' prod.case option.case if_not_P [OF it] dl u dd reply_out(2) [of out] .
    qed
  qed
qed

lemma cmdHincrby_ok:
  assumes rd: "rand_ok e" and inv: "store_inv e d" and num: "parseInt (a ! 3) = Some delta" and len: "length (a ! 1) < 2 ^ 32"
    and room: "objs_room (shards d ! shard_idx (hashKey e (a ! 1)))"
  shows "refines_key e now (a ! 1) (spec_hincrby (maxMemory (proc d)) (a ! 1) (a ! 2) delta) d out (cmdHincrby e now a d out)"
proof -
  let ?key = "a ! 1" and ?fd = "a ! 2" and ?mm = "maxMemory (proc d)"
  let ?x = "view e now d ?key" and ?i = "shard_idx (hashKey e (a ! 1))" and ?f = "spec_hincrby ?mm ?key ?fd delta"
  obtain idx it ins w s where g: "get e ?key (hashKey e ?key) now (proc d) (grow e (proc d) (shards d ! ?i)) = (idx, it, ins, w, s)"
    by (metis prod_cases5)
  note lk = grow_looked(1) [OF inv g] and hr = grow_looked(2) [OF inv g]
  have orm: "objs_room s" using get_room_objs [OF _ g] room grow_room_objs by blast
  have mm: "maxMemory w = ?mm" by (rule looked_mm [OF lk])
  have dl: "in64 delta" using parseInt_canonical [OF num] by blast
  show ?thesis
  proof (cases "it \<noteq> 0 \<and> ityp (mem w it) \<noteq> typHash")
    case True
    then have "?f ?x = (addErr [] errWrongType, ?x)" using looked_other(2) [OF lk] by (auto simp: spec_hincrby_def Let_def)
    from refines_idle [where f = ?f and out = out, OF inv lk this] show ?thesis
      unfolding cmdHincrby_def num option.case Let_def g prod.case if_P [OF True] reply_out(1) [of out] .
  next
    case ty: False
    define m t where "m = (if it \<noteq> 0 then hash_fields (hash_at_item w s it) else Map.empty)" and "t = (if it \<noteq> 0 then iexp (mem w it) else 0)"
    note V = hash_view [OF lk ty m_def t_def]
    define old where "old = (if it \<noteq> 0 then hash_get (hash_at_item w s it) ?fd else None)"
    have old: "old = m ?fd" using ty looked_hash(3) [OF lk] by (auto simp: old_def m_def hobj.get_fields)
    define extra where "extra = (if it \<noteq> 0 then cost w s it else 0)"
    have x0: "extra = 0 \<and> m = Map.empty \<and> t = 0" if "?x = None"
    proof -
      have "it = 0" using looked_zero [OF lk] that by blast
      then show ?thesis by (simp add: extra_def m_def t_def)
    qed
    have x1: "extra = entry_cost ?key (VHash m, t) \<and> ?x = Some (VHash m, t)" if "?x \<noteq> None"
    proof -
      have "it \<noteq> 0" using looked_zero [OF lk] that by blast
      then show ?thesis using V(1,3) unfolding extra_def by (simp only: if_P simp_thms if_True not_False_eq_True)
    qed
    show ?thesis
    proof (cases "old \<noteq> None \<and> parseInt (the old) = None")
      case True
      have "m ?fd \<noteq> None" using True old by auto
      then have "?x \<noteq> None" using x0 by force
      then have "?f ?x = (addErr [] errHashInt, ?x)" using x1 True old by (auto simp: spec_hincrby_def Let_def)
      from refines_idle [where f = ?f and out = out, OF inv lk this] show ?thesis
        unfolding cmdHincrby_def num option.case Let_def g prod.case if_not_P [OF ty] old_def [symmetric] if_P [OF True] reply_out(1) [of out] .
    next
      case ok: False
      define cur where "cur = (case old of Some v \<Rightarrow> the (parseInt v) | None \<Rightarrow> 0)"
      have c64: "in64 cur" using ok parseInt_canonical by (auto simp: cur_def in64_iff split: option.splits)
      define nv where "nv = itoa (cur + delta)"
      define est where "est = int (64 + length ?key + 32 + length ?fd + length nv) + extra"
      have f: "?f ?x = (if \<not> in64 (cur + delta) then (addErr [] errOverflow, ?x) else if too_big ?mm est then (addErr [] errOOM, ?x)
          else (addInt [] (cur + delta), Some (VHash (m(?fd \<mapsto> nv)), t)))"
      proof (cases "?x = None")
        case True
        then show ?thesis using x0 old by (simp add: spec_hincrby_def Let_def est_def nv_def cur_def)
      next
        case False
        note y = x1 [OF False]
        show ?thesis
        proof (cases "m ?fd")
          case None
          then show ?thesis using y old by (simp add: spec_hincrby_def Let_def est_def nv_def cur_def)
        next
          case (Some v)
          then obtain c where "parseInt v = Some c" using ok old by auto
          then show ?thesis using y old Some by (simp add: spec_hincrby_def Let_def est_def nv_def cur_def)
        qed
      qed
      have eq: "cmdHincrby e now a d out =
          (if \<not> in64 (cur + delta) then (put_shard d ?i w s, addErr out errOverflow)
           else if maxMemory w > 0 \<and> est > maxMemory w then (put_shard d ?i w s, addErr out errOOM)
           else case (if it = 0 then newContainer e ins (hashKey e ?key) ?key typHash (HObj new_hashObj) now w s else (it, w, s)) of
             (p, w2, s2) \<Rightarrow>
               (case addUsed (case old of Some v \<Rightarrow> int (length nv) - int (length v) | None \<Rightarrow> int (32 + length ?fd + length nv)) w2
                  (set_obj (objIdx (mem w2 p)) (HObj ((fst (hash_set (hash_at_item w2 s2 p) ?fd nv))\<lparr>hcost := hcost (fst (hash_set (hash_at_item w2 s2 p) ?fd nv))
                    + (case old of Some v \<Rightarrow> int (length nv) - int (length v) | None \<Rightarrow> int (32 + length ?fd + length nv))\<rparr>)) s2) of
                (w3, s3) \<Rightarrow> (afterWrite e [?key] (put_shard d ?i w3 s3), addInt out (cur + delta))))"
        unfolding cmdHincrby_def num option.case(2) Let_def g prod.case if_not_P [OF ty] old_def [symmetric] if_not_P [OF ok] cur_def [symmetric]
          overflow_iff [OF c64 dl] nv_def [symmetric] extra_def [symmetric] est_def [symmetric] ..
      show ?thesis
      proof (cases "in64 (cur + delta)")
        case False
        then have "?f ?x = (addErr [] errOverflow, ?x)" using f by simp
        from refines_idle [where f = ?f and out = out, OF inv lk this] False show ?thesis by (simp add: eq reply_out(1) [of out])
      next
        case in64: True
        show ?thesis
        proof (cases "maxMemory w > 0 \<and> est > maxMemory w")
          case True
          then have "?f ?x = (addErr [] errOOM, ?x)" using f in64 by (simp add: too_big_def mm)
          from refines_idle [where f = ?f and out = out, OF inv lk this] True in64 show ?thesis by (simp add: eq reply_out(1) [of out])
        next
          case fits: False
          have f': "?f ?x = (addInt [] (cur + delta), Some (VHash (m(?fd \<mapsto> nv)), t))" using f in64 fits by (auto simp: too_big_def mm)
          obtain p w2 s2 where o: "(if it = 0 then newContainer e ins (hashKey e ?key) ?key typHash (HObj new_hashObj) now w s else (it, w, s)) = (p, w2, s2)"
            by (metis prod_cases3)
          obtain h where h: "opened e ?key w s p w2 s2 (HObj h)" "hash_fields h = m" "iexp (mem w2 p) = t" "hash_at_item w2 s2 p = h"
            "hash_inv h" "hcost h = map_cost (hash_fields h)" using hash_open [OF inv lk hr orm len ty o m_def t_def] .
          define c where "c = (case old of Some v \<Rightarrow> int (length nv) - int (length v) | None \<Rightarrow> int (32 + length ?fd + length nv))"
          define ho where "ho = fst (hash_set h ?fd nv)"
          have S: "hash_inv ho" "hash_fields ho = m(?fd \<mapsto> nv)" "hcost ho = hcost h"
            using hash_set_props [OF h(5), of ?fd nv] h(2) by (simp_all add: ho_def)
          have "map_cost (m(?fd \<mapsto> nv)) = map_cost m + c"
            using map_cost_upd [of m ?fd nv] hobj.finite_fields [OF h(5)] h(2) old by (simp add: c_def field_cost_def split: option.splits)
          then have ob: "obj_inv (HObj (ho\<lparr>hcost := hcost ho + c\<rparr>))" "c = obj_cost (HObj (ho\<lparr>hcost := hcost ho + c\<rparr>)) - obj_cost (HObj h)"
            using S h(2,6) by (simp_all add: obj_inv_def obj_cost_def)
          obtain w3 s3 where r: "addUsed c w2 (set_obj (objIdx (mem w2 p)) (HObj (ho\<lparr>hcost := hcost ho + c\<rparr>)) s2) = (w3, s3)" by fastforce
          have "key_op e ?key w s w3 s3 (Some (obj_val (HObj (ho\<lparr>hcost := hcost ho + c\<rparr>)), iexp (mem w2 p)))"
            by (rule opened_upd [OF h(1) ob(1) _ ob(2) r]) (simp add: obj_typ_def)
          then have op: "key_op e ?key w s w3 s3 (Some (VHash (m(?fd \<mapsto> nv)), t))" using S h(3) by (simp add: obj_val_def)
          have eq': "cmdHincrby e now a d out = (afterWrite e [?key] (put_shard d ?i w3 s3), out @ addInt [] (cur + delta))"
          proof -
            have n64: "\<not> \<not> in64 (cur + delta)" using in64 by simp
            show ?thesis
              unfolding eq if_not_P [OF n64] if_not_P [OF fits] o prod.case h(4) ho_def [symmetric] c_def [symmetric] r reply_out(2) [of out] ..
          qed
          show ?thesis using refines_write [where f = ?f and out = out, OF rd inv lk op V(2) f'] unfolding eq' .
        qed
      qed
    qed
  qed
qed

text \<open>\<open>HGETALL\<close> lists every field once, in some order.\<close>

definition order_ok :: "env \<Rightarrow> bool" where
  "order_ok e \<longleftrightarrow> (\<forall>al. mset (mapOrder e al) = mset al)"

definition hgetall_reply :: "(bytes \<times> bytes) list \<Rightarrow> bytes" where
  "hgetall_reply items = addArr [] (length items * 2) @ concat (map (\<lambda>(f, v). bulk f @ bulk v) items)"

lemma foldl_pairs: "foldl (\<lambda>out (f, v). addBulk (addBulk out f) v) out al = out @ concat (map (\<lambda>(f, v). bulk f @ bulk v) al)"
  by (induction al arbitrary: out) (auto simp: addBulk_bulk)

lemma flat_bulks: "even (length fv) \<Longrightarrow> concat (map bulk fv) = concat (map (\<lambda>(f, v). bulk f @ bulk v) (flat_pairs fv))"
  by (induction fv rule: flat_pairs.induct) auto

lemma order_items:
  assumes ord: "order_ok e" and inv: "hash_inv h"
  defines "items \<equiv> case hm h of Some al \<Rightarrow> mapOrder e al | None \<Rightarrow> flat_pairs (hkv h)"
  shows "distinct (map fst items)" "map_of items = hash_fields h" "length items = hash_size h"
proof -
  have p: "mset items = mset (hash_items h)" using ord by (simp add: items_def hash_items_def order_ok_def split: option.splits)
  have "distinct (map fst (hash_items h))" using inv by (simp add: hash_inv_def)
  moreover have "mset (map fst items) = mset (map fst (hash_items h))" using p by simp
  ultimately show d: "distinct (map fst items)" by (metis mset_eq_imp_distinct_iff)
  have "set items = set (hash_items h)" using p by (metis set_mset_mset)
  then show "map_of items = hash_fields h" unfolding hash_fields_items
    using d \<open>distinct (map fst (hash_items h))\<close> by (metis map_of_inject_set)
  have "length items = length (hash_items h)" using p by (metis size_mset)
  then show "length items = hash_size h" by (simp add: hash_size_def hash_items_def length_flat_pairs split: option.splits)
qed

lemma cmdHgetall_ok:
  assumes inv: "store_inv e d" and ord: "order_ok e" and r: "cmdHgetall e now a d out = (d', out')"
  shows "became e now d (view e now d) d' \<and>
    (case view e now d (a ! 1) of
       None \<Rightarrow> out' = out @ addArr [] 0
     | Some (VHash m, t) \<Rightarrow> \<exists>items. distinct (map fst items) \<and> map_of items = m \<and> out' = out @ hgetall_reply items
     | _ \<Rightarrow> out' = out @ addErr [] errWrongType)"
proof -
  let ?key = "a ! 1"
  obtain idx it ins w s where g: "get e ?key (hashKey e ?key) now (proc d) (shards d ! shard_idx (hashKey e ?key)) = (idx, it, ins, w, s)"
    by (metis prod_cases5)
  note lk = get_looked [OF inv g]
  have d': "d' = put_shard d (shard_idx (hashKey e ?key)) w s"
    using r by (auto simp: cmdHgetall_def read_typed_def lookupTyped_def g Let_def split: if_splits)
  have sv: "became e now d (view e now d) d'" using put_idle [OF inv lk] by (simp add: d')
  have "case view e now d ?key of None \<Rightarrow> out' = out @ addArr [] 0
     | Some (VHash m, t) \<Rightarrow> \<exists>items. distinct (map fst items) \<and> map_of items = m \<and> out' = out @ hgetall_reply items
     | _ \<Rightarrow> out' = out @ addErr [] errWrongType"
  proof (cases "it = 0")
    case True
    then have "view e now d ?key = None" using looked_zero [OF lk] by blast
    then show ?thesis using r True by (simp add: cmdHgetall_def read_typed_def lookupTyped_def g Let_def reply_out(7) [of out])
  next
    case it: False
    show ?thesis
    proof (cases "ityp (mem w it) = typHash")
      case False
      then have "out' = out @ addErr [] errWrongType"
        using r it by (simp add: cmdHgetall_def read_typed_def lookupTyped_def g Let_def reply_out(1) [of out])
      then show ?thesis using looked_other(2) [OF lk it False] by auto
    next
      case True
      let ?h = "hash_at_item w s it"
      note L = looked_hash [OF lk it True]
      let ?items = "case hm ?h of Some al \<Rightarrow> mapOrder e al | None \<Rightarrow> flat_pairs (hkv ?h)"
      note O = order_items [OF ord L(3)]
      have ev: "hm ?h = None \<Longrightarrow> even (length (hkv ?h))" using L(3) by (auto simp: hash_inv_def split: option.splits)
      have "out' = out @ hgetall_reply ?items"
        using r it True O(3) ev
        by (simp add: cmdHgetall_def read_typed_def lookupTyped_def g Let_def hgetall_reply_def foldl_pairs foldl_addBulk flat_bulks
            reply_out(7) [of out] split: option.splits)
      then show ?thesis unfolding L(1) using O(1,2) by auto
    qed
  qed
  then show ?thesis using sv by blast
qed

end
