(* ===== verification/Server_Inv.thy ===== *)
theory Server_Inv
  imports Session Command_Coll
begin

text \<open>
  Every data command of the table keeps the store invariant and leaves no empty container behind, whatever
  its arguments, as long as the widths of the item header are not exceeded.
\<close>

declare One_nat_def [simp del]

section \<open>Tidy keyspaces\<close>

definition tidy_entry :: "(rval \<times> int) option \<Rightarrow> bool" where
  "tidy_entry x = (case x of None \<Rightarrow> True | Some (v, t) \<Rightarrow> v \<noteq> VList [] \<and> v \<noteq> VHash Map.empty \<and> t \<le> maxInt64)"

definition tidy :: "keyspace \<Rightarrow> bool" where
  "tidy m \<longleftrightarrow> (\<forall>k. tidy_entry (m k))"

lemma tidy_simps [simp]: "tidy_entry None" "tidy_entry (Some (v, t)) \<longleftrightarrow> v \<noteq> VList [] \<and> v \<noteq> VHash Map.empty \<and> t \<le> maxInt64"
  by (simp_all add: tidy_entry_def)

lemma tidy_view: "tidy (db e d) \<Longrightarrow> tidy (view e now d)"
  by (auto simp: tidy_def view_def live_def tidy_entry_def split: option.splits)

lemma tidy_upd: "tidy m \<Longrightarrow> tidy_entry x \<Longrightarrow> tidy (m(k := x))"
  by (simp add: tidy_def)

lemma tidy_new: "tidy (db e d) \<Longrightarrow> only_new e d m d' \<Longrightarrow> tidy m \<Longrightarrow> tidy (db e d')"
  unfolding tidy_def only_new_def by (metis tidy_simps(1))

definition keeps :: "((rval \<times> int) option \<Rightarrow> bytes \<times> (rval \<times> int) option) \<Rightarrow> bool" where
  "keeps f \<longleftrightarrow> (\<forall>x. tidy_entry x \<longrightarrow> tidy_entry (snd (f x)))"

definition good :: "env \<Rightarrow> store \<Rightarrow> bytes \<Rightarrow> store \<times> bytes \<Rightarrow> bool" where
  "good e d out r \<longleftrightarrow> store_inv e (fst r) \<and> tidy (db e (fst r)) \<and> maxMemory (proc (fst r)) = maxMemory (proc d) \<and> (\<exists>x. snd r = out @ x)"

lemma refines_good: "refines_key e now key f d out r \<Longrightarrow> tidy (db e d) \<Longrightarrow> keeps f \<Longrightarrow> good e d out r"
proof -
  assume r: "refines_key e now key f d out r" and t: "tidy (db e d)" and k: "keeps f"
  obtain reply x where f: "f (view e now d key) = (reply, x)" by fastforce
  have o: "snd r = out @ reply" "outcome e now [key] d ((view e now d)(key := x)) (fst r)" using r by (auto simp: refines_key_def f)
  have "tidy_entry x" using k tidy_view [OF t, of now] f unfolding keeps_def tidy_def by (metis snd_conv)
  then have "tidy ((view e now d)(key := x))" by (rule tidy_upd [OF tidy_view [OF t]])
  then have "tidy (db e (fst r))" using tidy_new [OF t] o(2) unfolding outcome_def by blast
  then show ?thesis using o by (auto simp: good_def outcome_def)
qed

lemma became_good: "became e now d m d' \<Longrightarrow> tidy (db e d) \<Longrightarrow> tidy m \<Longrightarrow> good e d out (d', out @ x)"
  using tidy_new by (auto simp: good_def became_def)

lemma same_good: "store_inv e d \<Longrightarrow> tidy (db e d) \<Longrightarrow> good e d out (d, out @ x)"
  by (simp add: good_def)

section \<open>The specifications keep keyspaces tidy\<close>

lemma keeps_id: "(\<And>x. snd (f x) = x) \<Longrightarrow> keeps f"
  by (simp add: keeps_def)

lemma keeps_read: "keeps spec_get" "keeps spec_strlen" "keeps spec_type" "keeps (spec_ttl now secs)" "keeps spec_llen"
  "keeps (spec_lrange i j)" "keeps (spec_lindex i)" "keeps (spec_hget f)" "keeps spec_hlen" "keeps (spec_hexists f)"
  by (auto intro!: keeps_id simp: spec_get_def spec_strlen_def spec_type_def spec_ttl_def spec_llen_def spec_lrange_def
      spec_lindex_def spec_hget_def spec_hlen_def spec_hexists_def)

lemma keeps_set: "0 \<le> now \<Longrightarrow> keeps (spec_set now mm key val opts)"
  unfolding keeps_def
proof (intro allI impI)
  fix x assume now: "0 \<le> now" and x: "tidy_entry x"
  show "tidy_entry (snd (spec_set now mm key val opts x))"
  proof (cases "set_opts now opts no_opts")
    case (Inr st)
    have "oexp st \<le> maxInt64" by (rule set_opts_exp(2) [OF now Inr])
    then show ?thesis using x by (cases x) (auto simp: spec_set_def Inr)
  qed (use x in \<open>simp add: spec_set_def\<close>)
qed

lemma keeps_incr: "keeps (spec_incr delta)"
  by (auto simp: keeps_def spec_incr_def Let_def maxInt64_def split: option.splits rval.splits)

lemma keeps_append: "keeps (spec_append mm key v)"
  by (auto simp: keeps_def spec_append_def Let_def maxInt64_def split: option.splits rval.splits)

lemma keeps_expire: "keeps (spec_expire now arg u name)" "keeps spec_persist"
  by (auto simp: keeps_def spec_expire_def spec_persist_def maxInt64_def split: option.splits)

lemma keeps_push: "vs \<noteq> [] \<Longrightarrow> keeps (spec_push mm key vs front)"
  by (auto simp: keeps_def spec_push_def Let_def maxInt64_def split: option.splits rval.splits)

lemma keeps_pop: "keeps (spec_pop cnt front)" "keeps (spec_pop_args a front)"
proof -
  show k: "keeps (spec_pop cnt front)" for cnt
    by (auto simp: keeps_def spec_pop_def Let_def split: option.splits rval.splits)
  show "keeps (spec_pop_args a front)" using k by (auto simp: keeps_def spec_pop_args_def split: option.splits)
qed

lemma map_of_not_empty: "ps \<noteq> [] \<Longrightarrow> m ++ map_of (rev ps) \<noteq> Map.empty"
  by (cases ps) (auto simp: map_add_def fun_eq_iff dest: map_of_SomeD split: option.splits)

lemma keeps_hset: "2 \<le> length fvs \<Longrightarrow> keeps (spec_hset mm key fvs)"
proof -
  assume "2 \<le> length fvs"
  then have "flat_pairs fvs \<noteq> []" by (cases fvs rule: flat_pairs.cases) auto
  from map_of_not_empty [OF this] show ?thesis
    by (auto simp: keeps_def spec_hset_def Let_def maxInt64_def split: option.splits rval.splits)
qed

lemma keeps_hdel: "keeps (spec_hdel fs)"
  by (auto simp: keeps_def spec_hdel_def Let_def split: option.splits rval.splits)

lemma upd_not_empty: "m(k \<mapsto> v) \<noteq> Map.empty"
  by (metis fun_upd_same option.distinct(1))

lemma keeps_hincrby: "keeps (spec_hincrby mm key f delta)"
  using upd_not_empty by (auto simp: keeps_def spec_hincrby_def Let_def maxInt64_def split: option.splits rval.splits)

section \<open>The table\<close>

text \<open>The parser admits no argument above 512 MB; a string must stay below the 4 GiB its length field can
  hold, and a shard must have a free object index.\<close>

definition args_ok :: "bytes list \<Rightarrow> bool" where
  "args_ok a \<longleftrightarrow> (\<forall>b \<in> set a. length b \<le> 2 ^ 29)"

definition room_ok :: "env \<Rightarrow> store \<Rightarrow> bool" where
  "room_ok e d \<longleftrightarrow> (\<forall>i < nShards. objs_room (shards d ! i)) \<and> (\<forall>k v t. db e d k = Some (VStr v, t) \<longrightarrow> length v + 2 ^ 29 < 2 ^ 32)"

definition clock_ok :: "int \<Rightarrow> bool" where
  "clock_ok now \<longleftrightarrow> 500 \<le> now \<and> now \<le> maxInt64"

lemma arg_len: "args_ok a \<Longrightarrow> i < length a \<Longrightarrow> length (a ! i) < 2 ^ 32"
proof -
  assume "args_ok a" "i < length a"
  then have "length (a ! i) \<le> 2 ^ 29" by (simp add: args_ok_def)
  then show ?thesis by simp
qed

lemma room_objs: "room_ok e d \<Longrightarrow> objs_room (shards d ! shard_idx h)"
  using shard_idx_less by (simp add: room_ok_def)

definition spec_hmset :: "int \<Rightarrow> bytes \<Rightarrow> bytes list \<Rightarrow> (rval \<times> int) option \<Rightarrow> bytes \<times> (rval \<times> int) option" where
  "spec_hmset mm key fvs x =
     (let (reply, y) = spec_hset mm key fvs x in (if reply ! 0 = CHR '':'' then addOK [] else reply, y))"

lemma reply_heads: "addErr [] s \<noteq> []" "addInt [] n \<noteq> []" "addInt [] n ! 0 = CHR '':''" "addErr [] s ! 0 \<noteq> CHR '':''"
  by (simp_all add: reply_defs)

lemma spec_hset_reply: "fst (spec_hset mm key fvs x) \<noteq> []"
  using reply_heads by (auto simp: spec_hset_def Let_def split: option.splits rval.splits)

lemma cmdHmset_ok:
  assumes "rand_ok e" "store_inv e d" "even (length a)" "length (a ! 1) < 2 ^ 32" "objs_room (shards d ! shard_idx (hashKey e (a ! 1)))"
  shows "refines_key e now (a ! 1) (spec_hmset (maxMemory (proc d)) (a ! 1) (drop 2 a)) d out (cmdHmset e now a d out)"
proof -
  let ?x = "view e now d (a ! 1)"
  obtain d1 out1 where h: "cmdHset e now a d out = (d1, out1)" by fastforce
  obtain reply y where s: "spec_hset (maxMemory (proc d)) (a ! 1) (drop 2 a) ?x = (reply, y)" by fastforce
  have ne: "reply \<noteq> []" using spec_hset_reply [of "maxMemory (proc d)" "a ! 1" "drop 2 a" ?x] s by simp
  have "refines_key e now (a ! 1) (spec_hset (maxMemory (proc d)) (a ! 1) (drop 2 a)) d out (d1, out1)"
    using cmdHset_ok [OF assms, of now out] h by simp
  then have "out1 = out @ reply" "outcome e now [a ! 1] d ((view e now d)(a ! 1 := y)) d1" by (simp_all add: refines_key_def s)
  then show ?thesis using ne by (simp add: refines_key_def spec_hmset_def s cmdHmset_def h Let_def nth_append reply_out(6) [of out])
qed

lemma keeps_hmset: "2 \<le> length fvs \<Longrightarrow> keeps (spec_hmset mm key fvs)"
  using keeps_hset [of fvs mm key] by (auto simp: keeps_def spec_hmset_def split: prod.splits)

lemma set_pairs_tidy: "tidy m \<Longrightarrow> tidy (set_pairs m kvs)"
proof (induction kvs arbitrary: m rule: flat_pairs.induct)
  case (1 k v r)
  have "tidy (m(k \<mapsto> (VStr v, 0)))" by (rule tidy_upd [OF "1.prems"]) (simp add: maxInt64_def)
  from "1.IH" [OF this] show ?case unfolding set_pairs_def flat_pairs.simps foldl.simps prod.case .
qed (simp_all add: set_pairs_def)

lemma restrict_tidy: "tidy m \<Longrightarrow> tidy (m |` A)"
  by (simp add: tidy_def restrict_map_def)

lemma good_reads:
  assumes inv: "store_inv e d" and tdy: "tidy (db e d)"
  shows "good e d out (cmdGet e now a d out)" "good e d out (cmdStrlen e now a d out)" "good e d out (cmdType e now a d out)"
    "good e d out (cmdPersist e now a d out)" "good e d out (cmdLlen e now a d out)" "good e d out (cmdHget e now a d out)"
    "good e d out (cmdHdel e now a d out)" "good e d out (cmdHlen e now a d out)" "good e d out (cmdHexists e now a d out)"
  by (rule refines_good [OF _ tdy], rule cmdGet_ok cmdStrlen_ok cmdType_ok cmdPersist_ok cmdLlen_ok cmdHget_ok cmdHdel_ok cmdHlen_ok
      cmdHexists_ok, rule inv, rule keeps_read keeps_expire keeps_hdel)+

lemma good_err: "store_inv e d \<Longrightarrow> tidy (db e d) \<Longrightarrow> good e d out (d, addErr out t)"
  using same_good [of e d out "addErr [] t"] by (simp add: reply_out(1) [of out])

lemma good_lists:
  assumes inv: "store_inv e d" and tdy: "tidy (db e d)"
  shows "good e d out (cmdLrange e now a d out)" "good e d out (cmdLindex e now a d out)" "good e d out (cmdPop e now a front d out)"
proof -
  show "good e d out (cmdLrange e now a d out)"
  proof (cases "\<exists>i j. parseInt (a ! 2) = Some i \<and> parseInt (a ! 3) = Some j")
    case True
    then show ?thesis using refines_good [OF cmdLrange_ok [OF inv] tdy keeps_read(6)] by blast
  next
    case False
    then have "cmdLrange e now a d out = (d, addErr out errNotInt)" by (auto simp: cmdLrange_def split: option.splits)
    then show ?thesis using good_err [OF inv tdy] by simp
  qed
  show "good e d out (cmdLindex e now a d out)"
  proof (cases "parseInt (a ! 2)")
    case None
    then show ?thesis using good_err [OF inv tdy] by (simp add: cmdLindex_def)
  next
    case (Some i)
    from refines_good [OF cmdLindex_ok [OF inv Some] tdy keeps_read(7)] show ?thesis .
  qed
  have "view e now d (a ! 1) \<noteq> Some (VList [], t)" for t
    using tidy_view [OF tdy, of now] unfolding tidy_def by (metis tidy_simps(2))
  from refines_good [OF cmdPop_ok [OF inv this] tdy keeps_pop(2)] show "good e d out (cmdPop e now a front d out)" .
qed

lemma good_ttl:
  assumes inv: "store_inv e d" and tdy: "tidy (db e d)" and ck: "clock_ok now"
  shows "good e d out (cmdTTL e now a secs d out)" "0 < u \<Longrightarrow> good e d out (cmdExpire e now a u name d out)"
proof -
  have "t \<le> maxInt64" if "view e now d (a ! 1) = Some (v, t)" for v t
    using tidy_view [OF tdy, of now] that unfolding tidy_def by (metis tidy_simps(2))
  from refines_good [OF cmdTTL_ok [OF inv _ this] tdy keeps_read(4)] ck show "good e d out (cmdTTL e now a secs d out)"
    by (simp add: clock_ok_def)
  assume "0 < u"
  from refines_good [OF cmdExpire_ok [OF inv _ _ this] tdy keeps_expire(1)] ck show "good e d out (cmdExpire e now a u name d out)"
    by (simp add: clock_ok_def)
qed

lemma good_writes:
  assumes rd: "rand_ok e" and inv: "store_inv e d" and tdy: "tidy (db e d)" and a: "args_ok a" and room: "room_ok e d" and ck: "clock_ok now"
  shows "3 \<le> length a \<Longrightarrow> good e d out (cmdSet e now a d out)"
    "2 \<le> length a \<Longrightarrow> in64 n \<Longrightarrow> good e d out (incrBy e now (a ! 1) n d out)"
    "3 \<le> length a \<Longrightarrow> good e d out (cmdAppend e now a d out)"
    "3 \<le> length a \<Longrightarrow> good e d out (cmdPush e now a front d out)"
    "4 \<le> length a \<Longrightarrow> good e d out (cmdHset e now a d out)"
    "4 \<le> length a \<Longrightarrow> good e d out (cmdHmset e now a d out)"
    "4 \<le> length a \<Longrightarrow> good e d out (cmdHincrby e now a d out)"
proof -
  note len = arg_len [OF a] and ro = room_objs [OF room]
  have now: "0 \<le> now" using ck by (simp add: clock_ok_def)
  show "good e d out (cmdSet e now a d out)" if "3 \<le> length a"
    by (rule refines_good [OF cmdSet_ok [OF rd inv len len now] tdy keeps_set [OF now]]) (use that in auto)
  show "good e d out (incrBy e now (a ! 1) n d out)" if "2 \<le> length a" "in64 n"
    by (rule refines_good [OF incrBy_ok [OF rd inv len that(2)] tdy keeps_incr]) (use that in auto)
  show "good e d out (cmdAppend e now a d out)" if l: "3 \<le> length a"
  proof -
    have v: "length (a ! 2) \<le> 2 ^ 29" using a l by (simp add: args_ok_def)
    have "length old + length (a ! 2) < 2 ^ 32" if "view e now d (a ! 1) = Some (VStr old, t)" for old t
    proof -
      have "length old + 2 ^ 29 < 2 ^ 32" using view_nonempty [OF that] room unfolding room_ok_def by blast
      then show ?thesis using v by linarith
    qed
    from refines_good [OF cmdAppend_ok [OF rd inv len len this] tdy keeps_append] l show ?thesis by simp
  qed
  show "good e d out (cmdPush e now a front d out)" if "3 \<le> length a"
    by (rule refines_good [OF cmdPush_ok [OF rd inv len ro] tdy keeps_push]) (use that in auto)
  show "good e d out (cmdHset e now a d out)" if l: "4 \<le> length a"
  proof (cases "even (length a)")
    case True
    show ?thesis by (rule refines_good [OF cmdHset_ok [OF rd inv True len ro] tdy keeps_hset]) (use l in auto)
  next
    case False
    then show ?thesis using good_err [OF inv tdy] by (simp add: cmdHset_def odd_iff_mod_2_eq_one)
  qed
  show "good e d out (cmdHmset e now a d out)" if l: "4 \<le> length a"
  proof (cases "even (length a)")
    case True
    show ?thesis by (rule refines_good [OF cmdHmset_ok [OF rd inv True len ro] tdy keeps_hmset]) (use l in auto)
  next
    case False
    have "cmdHset e now a d out = (d, out @ addErr [] (errArgs (toLower (a ! 0))))"
      using False by (simp add: cmdHset_def odd_iff_mod_2_eq_one reply_out(1) [of out])
    then have "cmdHmset e now a d out = (d, out @ addErr [] (errArgs (toLower (a ! 0))))"
      using reply_heads by (simp add: cmdHmset_def Let_def nth_append)
    then show ?thesis using same_good [OF inv tdy] by simp
  qed
  show "good e d out (cmdHincrby e now a d out)" if l: "4 \<le> length a"
  proof (cases "parseInt (a ! 3)")
    case None
    then show ?thesis using good_err [OF inv tdy] by (simp add: cmdHincrby_def)
  next
    case (Some n)
    show ?thesis by (rule refines_good [OF cmdHincrby_ok [OF rd inv Some len ro] tdy keeps_hincrby]) (use l in auto)
  qed
qed

lemma good_incrs:
  assumes "rand_ok e" "store_inv e d" "tidy (db e d)" "args_ok a" "room_ok e d" "clock_ok now" "2 \<le> length a"
  shows "good e d out (cmdIncrby e now a d out)" "good e d out (cmdDecrby e now a d out)"
proof -
  note w = good_writes(2) [OF assms, where out = out]
  show "good e d out (cmdIncrby e now a d out)"
    using w parseInt_canonical good_err [OF assms(2,3)] by (auto simp: cmdIncrby_def split: option.splits)
  have "in64 (- n)" if "in64 n" "n \<noteq> minInt64" for n using that by (auto simp: in64_def minInt64_def maxInt64_def)
  then show "good e d out (cmdDecrby e now a d out)"
    using w parseInt_canonical good_err [OF assms(2,3)] by (auto simp: cmdDecrby_def split: option.splits)
qed

lemma good_many:
  assumes rd: "rand_ok e" and inv: "store_inv e d" and tdy: "tidy (db e d)" and a: "args_ok a"
  shows "good e d out (cmdMget e now a d out)" "good e d out (cmdDel e now a d out)" "good e d out (cmdExists e now a d out)"
    "good e d out (cmdMset e now a d out)" "order_ok e \<Longrightarrow> good e d out (cmdHgetall e now a d out)"
    "good e d out (cmdKeys e now a d out)" "good e d out (cmdDbsize d out)" "good e d out (cmdFlushall e d out)"
proof -
  obtain l where h: "lockKeys e (drop 1 a) 1 = (map (hashKey e) (drop 1 a), l)"
    using lockKeys_hashes [of e "drop 1 a" 1] by (metis every_1 prod.collapse)
  note tv = tidy_view [OF tdy, of now]
  show "good e d out (cmdMget e now a d out)"
  proof -
    obtain d' out' where r: "mget_loop e now (drop 1 a) (map (hashKey e) (drop 1 a)) d (addArr out (length (drop 1 a))) = (d', out')" by fastforce
    from mget_loop_ok [OF inv r] have "became e now d (view e now d) d'"
      "out' = out @ (addArr [] (length (drop 1 a)) @ concat (map (\<lambda>k. mget_reply (view e now d k)) (drop 1 a)))" by (simp_all add: reply_out(7) [of out])
    moreover have "cmdMget e now a d out = (d', out')" unfolding cmdMget_def Let_def h prod.case by (rule r)
    ultimately show ?thesis using became_good [OF _ tdy tv] by simp
  qed
  show "good e d out (cmdDel e now a d out)"
  proof -
    obtain d' n where r: "del_keys e now (drop 1 a) (map (hashKey e) (drop 1 a)) d 0 = (d', n)" by fastforce
    from del_keys_ok [OF inv r] have "became e now d ((view e now d) |` (- set (drop 1 a))) d'" by blast
    moreover have "cmdDel e now a d out = (d', out @ addInt [] (int n))"
      unfolding cmdDel_def Let_def h prod.case r by (simp only: reply_out(2) [of out])
    ultimately show ?thesis using became_good [OF _ tdy restrict_tidy [OF tv]] by simp
  qed
  show "good e d out (cmdExists e now a d out)"
  proof -
    obtain d' n where r: "exists_keys e now (drop 1 a) (map (hashKey e) (drop 1 a)) d 0 = (d', n)" by fastforce
    from exists_keys_ok [OF inv r] have "became e now d (view e now d) d'" by blast
    moreover have "cmdExists e now a d out = (d', out @ addInt [] (int n))"
      unfolding cmdExists_def Let_def h prod.case r by (simp only: reply_out(2) [of out])
    ultimately show ?thesis using became_good [OF _ tdy tv] by simp
  qed
  show "good e d out (cmdHgetall e now a d out)" if "order_ok e"
  proof -
    obtain d' out' where r: "cmdHgetall e now a d out = (d', out')" by fastforce
    note H = cmdHgetall_ok [OF inv that r]
    have "\<exists>x. out' = out @ x" using conjunct2 [OF H] by (auto split: option.splits rval.splits)
    then show ?thesis using became_good [OF conjunct1 [OF H] tdy tv, of out] by (auto simp: r)
  qed
  show "good e d out (cmdKeys e now a d out)" "good e d out (cmdDbsize d out)"
    using inv tdy by (simp_all add: good_def cmdKeys_def cmdDbsize_def Let_def reply_out(2,7) [of out])
  show "good e d out (cmdFlushall e d out)"
    using flush_store_ok [OF inv] by (simp add: good_def cmdFlushall_def reply_out(6) [of out] tidy_def)
  show "good e d out (cmdMset e now a d out)"
  proof -
    let ?kvs = "drop 1 a" and ?mm = "maxMemory (proc d)"
    consider "(length a - 1) mod 2 \<noteq> 0" | "(length a - 1) mod 2 = 0" "?mm > 0 \<and> mset_total ?kvs > ?mm"
      | "(length a - 1) mod 2 = 0" "\<not> (?mm > 0 \<and> mset_total ?kvs > ?mm)" by blast
    then show ?thesis
    proof cases
      case 3
      let ?d1 = "mset_loop e now ?kvs (map (hashKey e) (every 2 ?kvs)) d"
      have "\<forall>b \<in> set ?kvs. length b < 2 ^ 32"
        using a by (auto simp: args_ok_def dest!: in_set_dropD)
      then have b: "became e now d (set_pairs (view e now d) ?kvs) ?d1"
        by (rule mset_loop_ok [OF inv]) (use 3(1) in \<open>simp add: even_iff_mod_2_eq_zero\<close>)
      have ts: "tidy (set_pairs (view e now d) ?kvs)" by (rule set_pairs_tidy [OF tv])
      have eq: "cmdMset e now a d out = (if ?mm > 0 then afterWrite e (every 2 ?kvs) ?d1 else ?d1, out @ addOK [])"
        using 3 lockKeys_hashes [of e ?kvs 2]
        by (cases "lockKeys e ?kvs 2") (auto simp: cmdMset_def Let_def reply_out(6) [of out])
      show ?thesis
      proof (cases "?mm > 0")
        case True
        from afterWrite_outcome [OF rd b, of "every 2 ?kvs"] have "outcome e now (every 2 ?kvs) d (set_pairs (view e now d) ?kvs) (afterWrite e (every 2 ?kvs) ?d1)" .
        then show ?thesis using True tidy_new [OF tdy _ ts] by (simp add: eq good_def outcome_def)
      next
        case False
        then show ?thesis using became_good [OF b tdy ts] by (simp add: eq)
      qed
    qed (use good_err [OF inv tdy] in \<open>simp_all add: cmdMset_def\<close>)
  qed
qed

text \<open>The arities of the writing commands.\<close>

definition arity3 :: "bytes list" where "arity3 = [''set'', ''append'', ''lpush'', ''rpush'']"
definition arity4 :: "bytes list" where "arity4 = [''hset'', ''hmset'', ''hincrby'']"
definition arity2 :: "bytes list" where "arity2 = [''incr'', ''decr'', ''incrby'', ''decrby'']"

lemma table_arities:
  "list_all (\<lambda>(n, ar, _). (n \<in> set arity3 \<longrightarrow> ar = 3 \<or> ar = - 3) \<and> (n \<in> set arity4 \<longrightarrow> ar = 4 \<or> ar = - 4)
     \<and> (n \<in> set arity2 \<longrightarrow> ar = 2 \<or> ar = 3)) command_table"
  by code_simp

lemma arity_lengths:
  assumes "(name, arity, subOK) \<in> set command_table" "\<not> bad_arity arity (length a)"
  shows "name \<in> set arity3 \<Longrightarrow> 3 \<le> length a" "name \<in> set arity4 \<Longrightarrow> 4 \<le> length a" "name \<in> set arity2 \<Longrightarrow> 2 \<le> length a"
proof -
  have "(name \<in> set arity3 \<longrightarrow> arity = 3 \<or> arity = - 3) \<and> (name \<in> set arity4 \<longrightarrow> arity = 4 \<or> arity = - 4) \<and> (name \<in> set arity2 \<longrightarrow> arity = 2 \<or> arity = 3)"
    using table_arities assms(1) unfolding list_all_iff by fastforce
  then show "name \<in> set arity3 \<Longrightarrow> 3 \<le> length a" "name \<in> set arity4 \<Longrightarrow> 4 \<le> length a" "name \<in> set arity2 \<Longrightarrow> 2 \<le> length a"
    using assms(2) by (auto simp: bad_arity_def)
qed

lemma if_good: "(c \<Longrightarrow> good e d out x) \<Longrightarrow> (\<not> c \<Longrightarrow> good e d out y) \<Longrightarrow> good e d out (if c then x else y)"
  by simp

lemma data_cmd_good:
  assumes env: "rand_ok e" "order_ok e" and inv: "store_inv e d" and tdy: "tidy (db e d)"
    and a: "args_ok a" and room: "room_ok e d" and ck: "clock_ok now"
    and cmd: "(name, arity, subOK) \<in> set command_table" and ar: "\<not> bad_arity arity (length a)"
  shows "good e d out (data_cmd e now name a d out)"
proof -
  note R = good_reads [OF inv tdy] and L = good_lists [OF inv tdy] and T = good_ttl [OF inv tdy ck]
    and W = good_writes [OF env(1) inv tdy a room ck] and I = good_incrs [OF env(1) inv tdy a room ck]
    and M = good_many [OF env(1) inv tdy a]
  have s: "good e d out (d, addBulk out x)" "good e d out (d, addArr out n)" "good e d out (d, cmdSelect a out)" "good e d out (d, out)" for x n
    using inv tdy by (auto simp: good_def cmdSelect_def reply_out(1,6,7,8) [of out])
  have one: "in64 1" "in64 (- 1)" by (simp_all add: in64_def minInt64_def maxInt64_def)
  have u: "(0::int) < 1000" "(0::int) < 1" by simp_all
  note len = arity_lengths [OF cmd ar]
  consider "name \<in> set arity3" | "name \<in> set arity4" | "name \<in> set arity2" | "name \<notin> set arity3 \<union> set arity4 \<union> set arity2" by blast
  then show ?thesis
  proof cases
    case 1
    then have "name = ''set'' \<or> name = ''append'' \<or> name = ''lpush'' \<or> name = ''rpush''" by (simp add: arity3_def)
    then show ?thesis using W(1,3,4) [OF len(1) [OF 1]] by (elim disjE; simp add: data_cmd_def)
  next
    case 2
    then have "name = ''hset'' \<or> name = ''hmset'' \<or> name = ''hincrby''" by (simp add: arity4_def)
    then show ?thesis using W(5,6,7) [OF len(2) [OF 2]] by (elim disjE; simp add: data_cmd_def)
  next
    case 3
    then have "name = ''incr'' \<or> name = ''decr'' \<or> name = ''incrby'' \<or> name = ''decrby''" by (simp add: arity2_def)
    then show ?thesis using W(2) [OF len(3) [OF 3] one(1)] W(2) [OF len(3) [OF 3] one(2)] I [OF len(3) [OF 3]] by (elim disjE; simp add: data_cmd_def)
  next
    case 4
    then have "name \<noteq> ''set''" "name \<noteq> ''append''" "name \<noteq> ''lpush''" "name \<noteq> ''rpush''" "name \<noteq> ''hset''" "name \<noteq> ''hmset''"
      "name \<noteq> ''hincrby''" "name \<noteq> ''incr''" "name \<noteq> ''decr''" "name \<noteq> ''incrby''" "name \<noteq> ''decrby''"
      by (auto simp: arity2_def arity3_def arity4_def)
    then show ?thesis
      unfolding data_cmd_def
      by - (intro if_good; (rule s R L T(1) T(2) [OF u(1)] T(2) [OF u(2)] M(1-4) M(5) [OF env(2)] M(6-8) | (erule notE, assumption)))
  qed
qed

section \<open>exec\<close>

lemma sstore_upd [simp]: "sstore (upd_client i f sv) = sstore sv"
  by (simp add: upd_client_def)

lemma sstore_foldl: "(\<And>sv x. sstore (g sv x) = sstore sv) \<Longrightarrow> sstore (foldl g sv xs) = sstore sv"
  by (induction xs arbitrary: sv) simp_all

lemma sstore_pubsub [simp]: "sstore (cmdSubscribe i a sv) = sstore sv" "sstore (cmdUnsubscribe ord i a sv) = sstore sv"
  "sstore (cmdPublish i a sv) = sstore sv" "sstore (cleanup ord i sv) = sstore sv"
proof -
  have s: "sstore (subscribe_one i ch sv) = sstore sv" for ch sv by (simp add: subscribe_one_def Let_def)
  have u: "sstore (unsubOne i n sv) = sstore sv" for n sv by (simp add: unsubOne_def Let_def split: option.splits)
  have r: "sstore (unsub_reply i n sv) = sstore sv" for n sv by (simp add: unsub_reply_def Let_def u)
  show "sstore (cmdSubscribe i a sv) = sstore sv" by (simp add: cmdSubscribe_def sstore_foldl s)
  show "sstore (cmdUnsubscribe ord i a sv) = sstore sv" by (simp add: cmdUnsubscribe_def Let_def sstore_foldl r)
  show "sstore (cmdPublish i a sv) = sstore sv" by (simp add: cmdPublish_def Let_def sstore_foldl)
  show "sstore (cleanup ord i sv) = sstore sv" by (simp add: cleanup_def pubsubUnsubAll_def Let_def sstore_foldl u)
qed

lemma sstore_run:
  "sstore (run_command se i name a sv) = (if name \<in> set [''ping'', ''quit'', ''subscribe'', ''unsubscribe'', ''publish''] then sstore sv
     else if name = ''info'' then sstore sv else fst (data_cmd (renv se) (cnow (clients sv i)) name a (sstore sv) (cout (clients sv i))))"
  by (simp add: run_command_def Let_def cmdInfo_def split: prod.splits)

lemma lookup_in_table: "lookup_command n = Some c \<Longrightarrow> c \<in> set command_table"
  by (auto simp: lookup_command_def find_Some_iff split: if_splits) (metis nth_mem)

definition store_ok :: "env \<Rightarrow> store \<Rightarrow> bool" where
  "store_ok e d \<longleftrightarrow> store_inv e d \<and> tidy (db e d)"

lemma exec_store:
  assumes env: "rand_ok (renv se)" "order_ok (renv se)" and inv: "store_ok (renv se) (sstore sv)"
    and a: "args_ok args" and room: "room_ok (renv se) (sstore sv)" and ck: "clock_ok (cnow (clients sv i))"
  shows "store_ok (renv se) (sstore (exec se i args sv)) \<and> maxMemory (proc (sstore (exec se i args sv))) = maxMemory (proc (sstore sv))"
proof (cases "lookup_command (args ! 0)")
  case None
  then show ?thesis using inv by (simp add: exec_def Let_def)
next
  case (Some c)
  obtain name arity subOK where c: "c = (name, arity, subOK)" by (metis prod_cases3)
  note tb = lookup_in_table [OF Some, unfolded c]
  let ?run = "sstore (run_command se i name args sv)"
  have run: "store_ok (renv se) ?run \<and> maxMemory (proc ?run) = maxMemory (proc (sstore sv))" if "\<not> bad_arity arity (length args)"
    using data_cmd_good [OF env _ _ a room ck tb that, of "cout (clients sv i)"] inv by (simp add: sstore_run good_def store_ok_def)
  show ?thesis
  proof (cases "bad_arity arity (length args) \<or> (subs (clients sv i) \<noteq> [] \<and> \<not> subOK)")
    case True
    then show ?thesis using inv by (auto simp: exec_def Some c Let_def)
  next
    case False
    then have "sstore (exec se i args sv) = ?run" by (auto simp: exec_def Some c Let_def)
    then show ?thesis using run False by simp
  qed
qed

text \<open>What the parser accepts is within the bounds.\<close>

lemma parse_args_ok: "parse_args b k i args = CmdOK r n \<Longrightarrow> args_ok args \<Longrightarrow> args_ok r"
proof (induction b k i args rule: parse_args.induct)
  case (2 b k i args)
  then show ?case by (auto simp: args_ok_def Let_def split: if_splits line_result.splits)
qed simp

lemma parseCommand_args: "parseCommand b = CmdOK args n \<Longrightarrow> args_ok args"
  using parse_args_ok [of b _ _ "[]"] by (auto simp: parseCommand_def args_ok_def split: if_splits line_result.splits)

end
