(* ===== verification/Pubsub_Inv.thy ===== *)
theory Pubsub_Inv
  imports Session
begin

text \<open>
  Invariants of the clients and of publish/subscribe: the two directions of the subscription table agree,
  the writer goroutine of a client is never left asleep with bytes pending, and its channel is neither
  closed twice nor used after it is closed.
\<close>

section \<open>The subscription table\<close>

definition members :: "server \<Rightarrow> bytes \<Rightarrow> nat list" where
  "members sv ch = (case chans sv ch of Some m \<Rightarrow> m | None \<Rightarrow> [])"

definition pub_inv :: "server \<Rightarrow> bool" where
  "pub_inv sv \<longleftrightarrow> (\<forall>ch i. i \<in> set (members sv ch) \<longleftrightarrow> ch \<in> set (subs (clients sv i)))
     \<and> (\<forall>ch. chans sv ch \<noteq> Some [] \<and> distinct (members sv ch)) \<and> (\<forall>i. distinct (subs (clients sv i)))"

lemma clients_upd [simp]: "clients (upd_client i f sv) j = (if j = i then f (clients sv i) else clients sv j)"
  "chans (upd_client i f sv) = chans sv"
  by (simp_all add: upd_client_def)

lemma subs_deliver [simp]: "subs (deliverLocked b c) = subs c" "subs (pushAsync c) = subs c" "subs (snd (flush c)) = subs c"
  "subs (startAsync c) = subs c"
  by (simp_all add: deliverLocked_def pushAsync_def flush_def conn_write_def startAsync_def Let_def)

lemma pub_inv_upd: "subs (f (clients sv i)) = subs (clients sv i) \<Longrightarrow> pub_inv (upd_client i f sv) = pub_inv sv"
  by (auto simp: pub_inv_def members_def)

lemma subscribe_one_ok:
  assumes "pub_inv sv"
  shows "pub_inv (subscribe_one i ch sv)" "subs (clients (subscribe_one i ch sv) i) = (if ch \<in> set (subs (clients sv i)) then subs (clients sv i) else subs (clients sv i) @ [ch])"
    "\<And>j. j \<noteq> i \<Longrightarrow> clients (subscribe_one i ch sv) j = clients sv j"
proof -
  let ?c = "clients sv i"
  let ?m = "members sv ch"
  let ?sv1 = "if ch \<in> set (subs ?c) then sv
     else (upd_client i (\<lambda>c. c\<lparr>subs := subs c @ [ch]\<rparr>) sv)\<lparr>chans := (chans sv)(ch \<mapsto> (if i \<in> set ?m then ?m else ?m @ [i]))\<rparr>"
  have eq: "subscribe_one i ch sv = upd_client i (deliverLocked (addInt (appendPushHdr [] ''subscribe'' ch) (int (length (subs (clients ?sv1 i)))))) ?sv1"
    unfolding subscribe_one_def Let_def members_def ..
  have "pub_inv ?sv1"
  proof (cases "ch \<in> set (subs ?c)")
    case False
    then have i: "i \<notin> set ?m" using assms by (simp add: pub_inv_def)
    have "members ?sv1 = (members sv)(ch := ?m @ [i])" using False i by (simp add: members_def fun_eq_iff)
    moreover have "chans ?sv1 = (chans sv)(ch \<mapsto> ?m @ [i])" using False i by simp
    ultimately show ?thesis using assms False i by (auto simp: pub_inv_def)
  qed (use assms in simp)
  then show "pub_inv (subscribe_one i ch sv)" unfolding eq by (subst pub_inv_upd) simp_all
  show "subs (clients (subscribe_one i ch sv) i) = (if ch \<in> set (subs ?c) then subs ?c else subs ?c @ [ch])" unfolding eq by simp
  show "\<And>j. j \<noteq> i \<Longrightarrow> clients (subscribe_one i ch sv) j = clients sv j" unfolding eq by simp
qed

lemma unsubOne_ok:
  assumes "pub_inv sv"
  shows "pub_inv (unsubOne i n sv)" "clients (unsubOne i n sv) = (clients sv)(i := (clients sv i)\<lparr>subs := filter (\<lambda>x. x \<noteq> n) (subs (clients sv i))\<rparr>)"
proof -
  show c: "clients (unsubOne i n sv) = (clients sv)(i := (clients sv i)\<lparr>subs := filter (\<lambda>x. x \<noteq> n) (subs (clients sv i))\<rparr>)"
    by (auto simp: unsubOne_def upd_client_def Let_def split: option.splits)
  have m: "members (unsubOne i n sv) = (members sv)(n := filter (\<lambda>j. j \<noteq> i) (members sv n))"
    by (auto simp: members_def unsubOne_def upd_client_def Let_def fun_eq_iff split: option.splits)
  have "chans (unsubOne i n sv) ch \<noteq> Some []" for ch
    using assms by (auto simp: pub_inv_def unsubOne_def upd_client_def Let_def split: option.splits)
  then show "pub_inv (unsubOne i n sv)" using assms by (auto simp: pub_inv_def c m)
qed

section \<open>Clients\<close>

text \<open>The channel is closed exactly when the client is marked dead; a client that has never subscribed uses
  none of this; pending bytes have a signal in the channel or a writer that is about to take them; and the
  writer ends only with nothing pending.\<close>

definition cl_inv :: "client \<Rightarrow> bool" where
  "cl_inv c \<longleftrightarrow> (sigClosed c \<longleftrightarrow> dead c)
     \<and> (\<not> async c \<longrightarrow> \<not> dead c \<and> subs c = [] \<and> pending c = [] \<and> \<not> sig c \<and> wst c = WDone)
     \<and> (async c \<and> wst c = WDone \<longrightarrow> dead c \<and> pending c = [] \<and> connClosed c)
     \<and> (pending c \<noteq> [] \<longrightarrow> sig c \<or> wst c = WWoken)"

lemma cl_inv_new [simp]: "cl_inv new_client"
  by (simp add: cl_inv_def new_client_def)

lemma cl_inv_deliver: "cl_inv c \<Longrightarrow> async c \<Longrightarrow> cl_inv (deliverLocked b c) \<and> async (deliverLocked b c)"
  by (auto simp: cl_inv_def deliverLocked_def Let_def)

lemma cl_inv_cout [simp]: "cl_inv (c\<lparr>cout := x\<rparr>) = cl_inv c" "cl_inv (c\<lparr>quit := q\<rparr>) = cl_inv c" "cl_inv (c\<lparr>cr := n\<rparr>) = cl_inv c"
  "cl_inv (c\<lparr>cw := n\<rparr>) = cl_inv c" "cl_inv (c\<lparr>rbuf := x\<rparr>) = cl_inv c" "cl_inv (c\<lparr>cnow := t\<rparr>) = cl_inv c" "cl_inv (c\<lparr>sent := x\<rparr>) = cl_inv c"
  "cl_inv (c\<lparr>peerGone := g\<rparr>) = cl_inv c"
  by (simp_all add: cl_inv_def)

lemma cl_inv_push: "cl_inv c \<Longrightarrow> async c \<Longrightarrow> cl_inv (pushAsync c) \<and> async (pushAsync c)"
  using cl_inv_deliver [of c "cout c"] by (simp add: pushAsync_def)

lemma cl_inv_flush: "cl_inv c \<Longrightarrow> cl_inv (snd (flush c)) \<and> async (snd (flush c)) = async c"
  using cl_inv_push [of c] by (auto simp: flush_def conn_write_def)

lemma cl_inv_start: "cl_inv c \<Longrightarrow> cl_inv (startAsync c) \<and> async (startAsync c)"
proof (cases "async c")
  case False
  assume "cl_inv c"
  then have "cl_inv (snd (flush c))" "\<not> async (snd (flush c))" using cl_inv_flush [of c] False by auto
  then show ?thesis using False by (auto simp: startAsync_def cl_inv_def)
qed (simp add: startAsync_def)

lemma cl_inv_subs: "cl_inv c \<Longrightarrow> async c \<or> s = [] \<Longrightarrow> cl_inv (c\<lparr>subs := s\<rparr>)"
  by (auto simp: cl_inv_def)

lemma cl_inv_writer: "cl_inv c \<Longrightarrow> writer_step c = Some c' \<Longrightarrow> cl_inv c' \<and> subs c' = subs c"
proof (cases "wst c")
  case (WWriting b)
  assume i: "cl_inv c" and s: "writer_step c = Some c'"
  then show ?thesis using WWriting by (auto simp: cl_inv_def writer_step_def conn_write_def Let_def split: if_splits)
qed (auto simp: cl_inv_def writer_step_def split: if_splits)

section \<open>The server\<close>

definition sys_inv :: "server \<Rightarrow> bool" where
  "sys_inv sv \<longleftrightarrow> pub_inv sv \<and> (\<forall>i. cl_inv (clients sv i))"

lemma sys_invD: "sys_inv sv \<Longrightarrow> cl_inv (clients sv i)" "sys_inv sv \<Longrightarrow> pub_inv sv"
  by (simp_all add: sys_inv_def)

lemma sys_upd:
  assumes "sys_inv sv" "subs (f (clients sv i)) = subs (clients sv i)" "cl_inv (f (clients sv i))"
  shows "sys_inv (upd_client i f sv)"
  using assms by (simp add: sys_inv_def pub_inv_upd)

lemma sys_subscribe_one:
  assumes "sys_inv sv" "async (clients sv i)"
  shows "sys_inv (subscribe_one i ch sv) \<and> async (clients (subscribe_one i ch sv) i)"
proof -
  note S = subscribe_one_ok [OF sys_invD(2) [OF assms(1)], where i = i and ch = ch]
  have "cl_inv (clients (subscribe_one i ch sv) i) \<and> async (clients (subscribe_one i ch sv) i)"
    using cl_inv_deliver cl_inv_subs assms sys_invD(1) [OF assms(1), of i] by (simp add: subscribe_one_def Let_def)
  moreover have "cl_inv (clients (subscribe_one i ch sv) j)" if "j \<noteq> i" for j using S(3) [OF that] assms(1) by (simp add: sys_inv_def)
  ultimately show ?thesis using S(1) unfolding sys_inv_def by (metis)
qed

lemma sys_subscribe: "sys_inv sv \<Longrightarrow> sys_inv (cmdSubscribe i a sv)"
proof -
  assume i: "sys_inv sv"
  let ?f = "\<lambda>c. pushAsync (startAsync c)"
  have "cl_inv (?f (clients sv i)) \<and> async (?f (clients sv i))"
    using cl_inv_start [OF sys_invD(1) [OF i, of i]] cl_inv_push by blast
  then have start: "sys_inv (upd_client i ?f sv)" "async (clients (upd_client i ?f sv) i)" using sys_upd [OF i, of ?f i] by simp_all
  have "sys_inv sv \<Longrightarrow> async (clients sv i) \<Longrightarrow> sys_inv (foldl (\<lambda>sv ch. subscribe_one i ch sv) sv chs)" for chs sv
    by (induction chs arbitrary: sv) (simp_all add: sys_subscribe_one)
  then show ?thesis using start by (simp add: cmdSubscribe_def)
qed

lemma sys_unsub:
  assumes "sys_inv sv"
  shows "sys_inv (unsubOne i n sv)"
proof -
  note U = unsubOne_ok [OF sys_invD(2) [OF assms], of i n]
  have "cl_inv (clients (unsubOne i n sv) j)" for j
    using sys_invD(1) [OF assms, of j] sys_invD(1) [OF assms, of i] by (auto simp: U(2) cl_inv_def)
  then show ?thesis using U(1) by (simp add: sys_inv_def)
qed

lemma sys_unsub_all: "sys_inv sv \<Longrightarrow> sys_inv (foldl (\<lambda>sv n. unsubOne i n sv) sv ns)"
  by (induction ns arbitrary: sv) (simp_all add: sys_unsub)

lemma sys_unsubscribe: "sys_inv sv \<Longrightarrow> sys_inv (cmdUnsubscribe ord i a sv)"
proof -
  have r: "sys_inv (unsub_reply i n sv)" if "sys_inv sv" for n sv
    unfolding unsub_reply_def Let_def by (rule sys_upd [OF sys_unsub [OF that]]) (simp_all add: sys_invD(1) [OF sys_unsub [OF that]])
  have "sys_inv sv \<Longrightarrow> sys_inv (foldl (\<lambda>sv n. unsub_reply i n sv) sv ns)" for sv ns
    by (induction ns arbitrary: sv) (simp_all add: r)
  moreover assume "sys_inv sv"
  ultimately show ?thesis by (auto simp: cmdUnsubscribe_def Let_def sys_invD(1) intro!: sys_upd)
qed

lemma sys_deliver: "sys_inv sv \<Longrightarrow> async (clients sv j) \<Longrightarrow> sys_inv (upd_client j (deliverLocked b) sv)"
  by (rule sys_upd) (simp_all add: cl_inv_deliver sys_invD(1))

lemma async_deliver [simp]: "async (deliverLocked b c) = async c"
  by (simp add: deliverLocked_def Let_def)

lemma sys_publish: "sys_inv sv \<Longrightarrow> sys_inv (cmdPublish i a sv)"
proof -
  assume inv: "sys_inv sv"
  have "sys_inv sv \<Longrightarrow> \<forall>j \<in> set m. async (clients sv j) \<Longrightarrow> sys_inv (foldl (\<lambda>sv j. upd_client j (deliverLocked b) sv) sv m)" for sv m b
    by (induction m arbitrary: sv) (simp_all add: sys_deliver)
  moreover have "\<forall>j \<in> set (members sv (a ! 1)). async (clients sv j)"
  proof
    fix j assume "j \<in> set (members sv (a ! 1))"
    then have "subs (clients sv j) \<noteq> []" using sys_invD(2) [OF inv] by (auto simp: pub_inv_def)
    then show "async (clients sv j)" using sys_invD(1) [OF inv, of j] by (auto simp: cl_inv_def)
  qed
  ultimately have "sys_inv (foldl (\<lambda>sv j. upd_client j (deliverLocked (publish_msg (a ! 1) (a ! 2))) sv) sv (members sv (a ! 1)))" using inv by blast
  then show ?thesis unfolding cmdPublish_def Let_def members_def [symmetric] by (intro sys_upd) (simp_all add: sys_invD(1))
qed

lemma sys_store: "sys_inv (sv\<lparr>sstore := d\<rparr>) = sys_inv sv" "sys_inv (sv\<lparr>connected := n\<rparr>) = sys_inv sv"
  by (simp_all add: sys_inv_def pub_inv_def members_def)

lemma sys_reply:
  assumes "sys_inv sv"
  shows "sys_inv (upd_client i (\<lambda>c. c\<lparr>cout := x c\<rparr>) sv)"
  by (rule sys_upd [OF assms]) (simp_all add: sys_invD(1) [OF assms])

lemma if_sys: "sys_inv x \<Longrightarrow> sys_inv y \<Longrightarrow> sys_inv (if C then x else y)"
  by simp

lemma sys_run:
  assumes inv: "sys_inv sv"
  shows "sys_inv (run_command se i name a sv)"
proof -
  have ping: "sys_inv (upd_client i (cmdPing a) sv)"
    unfolding cmdPing_def Let_def by (rule sys_reply [OF inv])
  have quit: "sys_inv (upd_client i cmdQuit sv)"
    by (rule sys_upd [OF inv]) (simp_all add: cmdQuit_def sys_invD(1) [OF inv])
  have data: "sys_inv ((upd_client i (\<lambda>c. c\<lparr>cout := snd r\<rparr>) sv)\<lparr>sstore := fst r\<rparr>)" for r :: "store \<times> bytes"
    unfolding sys_store by (rule sys_reply [OF inv])
  show ?thesis unfolding run_command_def Let_def case_prod_beta
    by (intro if_sys ping quit sys_subscribe [OF inv] sys_unsubscribe [OF inv] sys_publish [OF inv] data)
qed

lemma sys_exec: "sys_inv sv \<Longrightarrow> sys_inv (exec se i args sv)"
proof -
  assume inv: "sys_inv sv"
  have err: "sys_inv (upd_client i (\<lambda>c. c\<lparr>cout := addErr (cout c) t\<rparr>) sv)" for t by (rule sys_upd [OF inv]) (simp_all add: sys_invD(1) [OF inv])
  have push: "sys_inv (if async (clients s i) \<and> length (cout (clients s i)) > 0 then upd_client i pushAsync s else s)" if "sys_inv s" for s
    using that cl_inv_push [OF sys_invD(1) [OF that, of i]] by (auto intro!: sys_upd)
  have "sys_inv (case r of None \<Rightarrow> upd_client i (\<lambda>c. c\<lparr>cout := addErr (cout c) x\<rparr>) sv
      | Some (n, ar, ok) \<Rightarrow> if bad_arity ar (length args) then upd_client i (\<lambda>c. c\<lparr>cout := addErr (cout c) (errArgs n)\<rparr>) sv
          else if length (subs (clients sv i)) > 0 \<and> \<not> ok then upd_client i (\<lambda>c. c\<lparr>cout := addErr (cout c) (err_subscribed n)\<rparr>) sv
          else run_command se i n args sv)" for r x
    unfolding case_prod_beta by (cases r) (simp_all only: option.case err if_sys sys_run [OF inv])
  then show ?thesis unfolding exec_def Let_def by (rule push)
qed

lemma sys_flush: "sys_inv sv \<Longrightarrow> sys_inv (upd_client i (\<lambda>c. snd (flush c)) sv)"
  by (rule sys_upd) (simp_all add: cl_inv_flush sys_invD(1))

lemma sys_cleanup: "sys_inv sv \<Longrightarrow> sys_inv (cleanup ord i sv)"
proof -
  assume inv: "sys_inv sv"
  let ?sv1 = "if subs (clients sv i) \<noteq> [] then pubsubUnsubAll ord i sv else sv"
  have i1: "sys_inv ?sv1" using inv sys_unsub_all [OF inv, of i] by (simp add: pubsubUnsubAll_def)
  have "cl_inv (clients ?sv1 i)" by (rule sys_invD(1) [OF i1])
  then show ?thesis unfolding cleanup_def Let_def by (intro sys_upd [OF i1]) (auto simp: cl_inv_def)
qed

section \<open>Who gets a message\<close>

lemma clients_deliver_all:
  "distinct m \<Longrightarrow> clients (foldl (\<lambda>sv j. upd_client j f sv) sv m) j = (if j \<in> set m then f (clients sv j) else clients sv j)"
  by (induction m arbitrary: sv) auto

lemma members_subs: "pub_inv sv \<Longrightarrow> set (members sv ch) = {j. ch \<in> set (subs (clients sv j))}"
  by (auto simp: pub_inv_def)

lemma clients_publish:
  assumes "pub_inv sv"
  shows "clients (cmdPublish i a sv) j =
    (let c = (if a ! 1 \<in> set (subs (clients sv j)) then deliverLocked (publish_msg (a ! 1) (a ! 2)) (clients sv j) else clients sv j)
     in if j = i then c\<lparr>cout := addInt (cout c) (int (card {j. a ! 1 \<in> set (subs (clients sv j))}))\<rparr> else c)"
proof -
  have d: "distinct (members sv (a ! 1))" using assms by (simp add: pub_inv_def)
  have c: "int (length (members sv (a ! 1))) = int (card {j. a ! 1 \<in> set (subs (clients sv j))})"
    using distinct_card [OF d] members_subs [OF assms] by simp
  have m: "j \<in> set (members sv (a ! 1)) \<longleftrightarrow> a ! 1 \<in> set (subs (clients sv j))" for j using members_subs [OF assms] by auto
  show ?thesis unfolding cmdPublish_def Let_def members_def [symmetric] clients_upd clients_deliver_all [OF d] m c by auto
qed

section \<open>The byte stream of a client\<close>

definition inflight :: "client \<Rightarrow> bytes" where
  "inflight c = (case wst c of WWriting b \<Rightarrow> b | _ \<Rightarrow> [])"

definition stream :: "client \<Rightarrow> bytes" where
  "stream c = sent c @ inflight c @ pending c"

lemma deliver_fits:
  assumes "\<not> dead c" "length (pending c) + length b \<le> maxPending"
  shows "deliverLocked b c = c\<lparr>pending := pending c @ b, sig := True\<rparr>"
  using assms by (simp add: deliverLocked_def Let_def)

lemma writer_stream: "writer_step c = Some c' \<Longrightarrow> conn_ok c \<Longrightarrow> stream c' = stream c"
  by (cases "wst c") (auto simp: writer_step_def stream_def inflight_def conn_write_def Let_def split: if_splits)

lemma writer_same: "writer_step c = Some c' \<Longrightarrow> async c' = async c \<and> dead c' = dead c \<and> peerGone c' = peerGone c \<and> sigClosed c' = sigClosed c"
  by (cases "wst c") (auto simp: writer_step_def conn_write_def Let_def split: if_splits)

lemma writer_conn: "writer_step c = Some c' \<Longrightarrow> conn_ok c \<Longrightarrow> wst c' \<noteq> WDone \<Longrightarrow> conn_ok c'"
  by (cases "wst c") (auto simp: writer_step_def conn_ok_def conn_write_def Let_def split: if_splits)

lemma writer_stuck: "writer_step c = None \<Longrightarrow> cl_inv c \<Longrightarrow> pending c = [] \<and> inflight c = []"
  by (cases "wst c") (auto simp: writer_step_def cl_inv_def inflight_def Let_def split: if_splits)

text \<open>The writer on its own: how many steps it still has.\<close>

definition writer_work :: "client \<Rightarrow> nat" where
  "writer_work c = (case wst c of WIdle \<Rightarrow> 0 | WWoken \<Rightarrow> 2 | WWriting b \<Rightarrow> 1 | WDone \<Rightarrow> 0)
     + (if sig c then 3 else 0) + (if sigClosed c \<and> wst c \<noteq> WDone then 1 else 0)"

lemma writer_work_less: "writer_step c = Some c' \<Longrightarrow> writer_work c' < writer_work c"
  by (cases "wst c") (auto simp: writer_step_def writer_work_def conn_write_def Let_def split: if_splits)

function writer_run :: "client \<Rightarrow> client" where
  "writer_run c = (case writer_step c of None \<Rightarrow> c | Some c' \<Rightarrow> writer_run c')"
  by pat_completeness auto
termination by (relation "measure writer_work") (auto simp: writer_work_less)

declare writer_run.simps [simp del]

lemma writer_run_ok:
  "cl_inv c \<Longrightarrow> conn_ok c \<Longrightarrow> async c \<Longrightarrow> wst c \<noteq> WDone \<Longrightarrow>
     writer_step (writer_run c) = None \<and> sent (writer_run c) = stream c \<and> pending (writer_run c) = []
     \<and> (wst (writer_run c) = WDone \<longleftrightarrow> dead c) \<and> (dead c \<longrightarrow> connClosed (writer_run c))"
proof (induction c rule: writer_run.induct)
  case (1 c)
  show ?case
  proof (cases "writer_step c")
    case None
    then have r: "writer_run c = c" by (simp add: writer_run.simps)
    have "wst c = WIdle" "\<not> sigClosed c" using None "1.prems"(4) by (cases "wst c"; auto simp: writer_step_def Let_def split: if_splits)+
    then show ?thesis using None writer_stuck [OF None "1.prems"(1)] "1.prems" unfolding r by (auto simp: stream_def cl_inv_def)
  next
    case (Some c')
    have r: "writer_run c = writer_run c'" using Some by (simp add: writer_run.simps [of c])
    note inv = cl_inv_writer [OF "1.prems"(1) Some] and st = writer_stream [OF Some "1.prems"(2)] and sm = writer_same [OF Some]
    show ?thesis
    proof (cases "wst c' = WDone")
      case True
      then have stop: "writer_step c' = None" by (simp add: writer_step_def)
      then have r': "writer_run c' = c'" by (simp add: writer_run.simps)
      have "dead c'" "connClosed c'" using inv True sm "1.prems"(3) by (auto simp: cl_inv_def)
      then show ?thesis using stop writer_stuck [OF stop] inv st sm True unfolding r r' by (auto simp: stream_def)
    next
      case False
      show ?thesis unfolding r using "1.IH" [OF Some] inv writer_conn [OF Some "1.prems"(2) False] False sm "1.prems"(3) st by simp
    qed
  qed
qed

text \<open>Deliveries by other goroutines and moves of the writer, in any order.\<close>

datatype cevent = Deliver bytes | WriterMoves

fun cl_run :: "cevent list \<Rightarrow> client \<Rightarrow> client" where
  "cl_run [] c = c"
| "cl_run (Deliver b # evs) c = cl_run evs (deliverLocked b c)"
| "cl_run (WriterMoves # evs) c = cl_run evs (case writer_step c of Some c' \<Rightarrow> c' | None \<Rightarrow> c)"

fun delivered :: "cevent list \<Rightarrow> bytes" where
  "delivered [] = []"
| "delivered (Deliver b # evs) = b @ delivered evs"
| "delivered (WriterMoves # evs) = delivered evs"

lemma writer_pending: "writer_step c = Some c' \<Longrightarrow> length (pending c') \<le> length (pending c)"
  by (cases "wst c") (auto simp: writer_step_def conn_write_def Let_def split: if_splits)

lemma writer_alive: "writer_step c = Some c' \<Longrightarrow> \<not> sigClosed c \<Longrightarrow> wst c' \<noteq> WDone"
  by (cases "wst c") (auto simp: writer_step_def conn_write_def Let_def split: if_splits)

lemma cl_run_stream:
  "cl_inv c \<Longrightarrow> async c \<Longrightarrow> \<not> dead c \<Longrightarrow> conn_ok c \<Longrightarrow> length (pending c) + length (delivered evs) \<le> maxPending \<Longrightarrow>
     stream (cl_run evs c) = stream c @ delivered evs \<and> cl_inv (cl_run evs c) \<and> \<not> dead (cl_run evs c) \<and> conn_ok (cl_run evs c)
     \<and> async (cl_run evs c)"
proof (induction evs c rule: cl_run.induct)
  case (2 b evs c)
  let ?c = "deliverLocked b c"
  have f: "?c = c\<lparr>pending := pending c @ b, sig := True\<rparr>" using "2.prems" by (intro deliver_fits) simp_all
  have s: "stream ?c = stream c @ b" "conn_ok ?c = conn_ok c" unfolding f by (simp_all add: stream_def inflight_def conn_ok_def)
  have "stream (cl_run evs ?c) = stream ?c @ delivered evs \<and> cl_inv (cl_run evs ?c) \<and> \<not> dead (cl_run evs ?c) \<and> conn_ok (cl_run evs ?c) \<and> async (cl_run evs ?c)"
    using "2.prems" cl_inv_deliver [OF "2.prems"(1,2), of b] s f by (intro "2.IH") simp_all
  then show ?case using s by simp
next
  case (3 evs c)
  show ?case
  proof (cases "writer_step c")
    case (Some c')
    have nc: "\<not> sigClosed c" using "3.prems" by (simp add: cl_inv_def)
    have "stream (cl_run evs c') = stream c' @ delivered evs \<and> cl_inv (cl_run evs c') \<and> \<not> dead (cl_run evs c') \<and> conn_ok (cl_run evs c') \<and> async (cl_run evs c')"
      using "3.IH" "3.prems" cl_inv_writer [OF "3.prems"(1) Some] writer_same [OF Some] writer_conn [OF Some _ writer_alive [OF Some nc]]
        writer_pending [OF Some] by (simp add: Some)
    then show ?thesis using writer_stream [OF Some "3.prems"(4)] by (simp add: Some)
  qed (use 3 in simp)
qed simp

section \<open>Claims\<close>

text \<open>\<^bold>\<open>C6\<close> \<open>PUBLISH\<close> reaches exactly the subscribers. A client subscribed to the channel, alive and with room
  in its queue, gets the message appended to its pending output once and a wake-up for its writer; a client
  that is neither subscribed nor the publisher is not touched; and the reply is the number of clients that are
  subscribed to the channel, whether they are served by the same goroutine or not.\<close>

theorem publish_reaches_subscribers:
  assumes "sys_inv sv"
  shows "(ch \<in> set (subs (clients sv j)) \<and> \<not> dead (clients sv j)
        \<and> length (pending (clients sv j)) + length (publish_msg ch v) \<le> maxPending
      \<longrightarrow> pending (clients (cmdPublish i [name, ch, v] sv) j) = pending (clients sv j) @ publish_msg ch v
          \<and> sig (clients (cmdPublish i [name, ch, v] sv) j))
    \<and> (ch \<notin> set (subs (clients sv j)) \<and> j \<noteq> i \<longrightarrow> clients (cmdPublish i [name, ch, v] sv) j = clients sv j)
    \<and> cout (clients (cmdPublish i [name, ch, v] sv) i) = addInt (cout (clients sv i)) (int (card {j. ch \<in> set (subs (clients sv j))}))"
proof -
  note C = clients_publish [OF sys_invD(2) [OF assms], of i "[name, ch, v]"]
  have "cout (deliverLocked b c) = cout c" for b c by (simp add: deliverLocked_def Let_def)
  then show ?thesis by (auto simp: C Let_def deliver_fits)
qed

text \<open>Two clients, the second subscribed to channel \<open>c\<close>.\<close>

definition two_clients :: server where
  "two_clients = \<lparr>sstore = init_store 0, chans = [''c'' \<mapsto> [1]],
     clients = (\<lambda>_. new_client)(1 := new_client\<lparr>subs := [''c''], async := True, wst := WIdle\<rparr>), connected = 2\<rparr>"

lemma two_clients_inv: "sys_inv two_clients"
  by (auto simp: sys_inv_def pub_inv_def cl_inv_def two_clients_def members_def new_client_def)

theorem publish_reaches_subscribers_witness:
  "pending (clients (cmdPublish 0 [''PUBLISH'', ''c'', ''hi''] two_clients) 1) = publish_msg ''c'' ''hi''
    \<and> cout (clients (cmdPublish 0 [''PUBLISH'', ''c'', ''hi''] two_clients) 0) = '':1'' @ crlf"
proof -
  have "{j. ''c'' \<in> set (subs (clients two_clients j))} = {1}" by (auto simp: two_clients_def new_client_def)
  moreover have "length (publish_msg ''c'' ''hi'') = 32" "addInt [] 1 = '':1'' @ crlf" by code_simp+
  moreover have "subs (clients two_clients 1) = [''c'']" "\<not> dead (clients two_clients 1)" "pending (clients two_clients 1) = []"
    "cout (clients two_clients 0) = []" by (simp_all add: two_clients_def new_client_def)
  ultimately show ?thesis using publish_reaches_subscribers [OF two_clients_inv, of "''c''" 1 "''hi''" 0 "''PUBLISH''"] by (simp add: maxPending_def)
qed

text \<open>\<^bold>\<open>C7\<close> Published bytes reach the connection in order, none lost and none twice. Whatever the interleaving of
  deliveries by other goroutines with the moves of the writer, and as long as the queue does not overflow and
  the connection stays open, what has been written is a prefix of the bytes delivered so far; and once
  deliveries stop the writer comes to rest after finitely many moves with everything written.\<close>

theorem delivery_in_order:
  assumes "cl_inv c" "async c" "\<not> dead c" "conn_ok c" "length (pending c) + length (delivered evs) \<le> maxPending"
  shows "(\<exists>rest. sent (cl_run evs c) @ rest = stream c @ delivered evs)
    \<and> sent (writer_run (cl_run evs c)) = stream c @ delivered evs \<and> writer_step (writer_run (cl_run evs c)) = None"
proof -
  note R = cl_run_stream [OF assms]
  then have "wst (cl_run evs c) \<noteq> WDone" by (auto simp: cl_inv_def)
  note W = writer_run_ok [OF _ _ _ this]
  show ?thesis using R W by (auto simp: stream_def)
qed

theorem delivery_in_order_witness:
  "sent (writer_run (cl_run [Deliver ''ab'', WriterMoves, Deliver ''c'', WriterMoves] (clients two_clients 1))) = ''abc''"
proof -
  have c: "cl_inv (clients two_clients 1)" using sys_invD(1) [OF two_clients_inv] .
  have s: "async (clients two_clients 1)" "\<not> dead (clients two_clients 1)" "conn_ok (clients two_clients 1)"
    "stream (clients two_clients 1) = []" "pending (clients two_clients 1) = []"
    by (simp_all add: two_clients_def new_client_def conn_ok_def stream_def inflight_def)
  show ?thesis using delivery_in_order [OF c s(1-3), of "[Deliver ''ab'', WriterMoves, Deliver ''c'', WriterMoves]"] s
    by (simp add: maxPending_def)
qed

end
