(* ===== verification/Session_Loop.thy ===== *)
theory Session_Loop
  imports Pubsub_Inv
begin

text \<open>
  The session loop of \<open>redis/impl/go-1/main.go\<close>: how the network cuts the input does not matter, pipelined
  requests are executed in order, and the input buffer keeps the unread bytes and always has room for more.
\<close>

section \<open>The loop over a buffer\<close>

text \<open>What one complete command does: execute it, then flush when the output has grown too large; the flag
  says whether the connection goes on.\<close>

definition after_command :: "senv \<Rightarrow> nat \<Rightarrow> bytes list \<Rightarrow> server \<Rightarrow> bool \<times> server" where
  "after_command se i args sv =
     (if args = [] then (True, sv)
      else let sv1 = exec se i args sv; c1 = clients sv1 i; sv2 = upd_client i (\<lambda>c. snd (flush c)) sv1
        in if quit c1 then (False, sv2) else if length (cout c1) > outMax then (fst (flush c1), sv2) else (True, sv1))"

definition protocol_error :: "nat \<Rightarrow> server \<Rightarrow> server" where
  "protocol_error i sv = upd_client i (\<lambda>c. snd (flush (c\<lparr>cout := addErr (cout c) ''ERR Protocol error: invalid request''\<rparr>))) sv"

lemma process_loop_cases:
  "process_loop se i b sv =
     (if b = [] then (True, 0, sv)
      else case parseCommand b of
        CmdIncomplete \<Rightarrow> (True, 0, sv)
      | CmdError \<Rightarrow> (False, 0, protocol_error i sv)
      | CmdOK args n \<Rightarrow>
          (case after_command se i args sv of
             (True, sv1) \<Rightarrow> (case process_loop se i (drop n b) sv1 of (go, k, sv2) \<Rightarrow> (go, n + k, sv2))
           | (False, sv1) \<Rightarrow> (False, n, sv1)))"
proof (cases "b = [] \<or> (\<forall>args n. parseCommand b \<noteq> CmdOK args n)")
  case True
  then show ?thesis by (subst process_loop.simps) (auto simp: protocol_error_def split: cmd_result.splits)
next
  case False
  then obtain args n where p: "b \<noteq> []" "parseCommand b = CmdOK args n" by blast
  have n: "\<not> (n = 0 \<or> length b < n)" using parseCommand_bounds [OF p(2)] by auto
  have l: "process_loop se i b sv = (let sv1 = (if args \<noteq> [] then exec se i args sv else sv); c1 = clients sv1 i
            in if args \<noteq> [] \<and> quit c1 then (False, n, upd_client i (\<lambda>c. snd (flush c)) sv1)
               else if args \<noteq> [] \<and> length (cout c1) > outMax then
                 (if fst (flush c1) then
                    let (go, k, sv2) = process_loop se i (drop n b) (upd_client i (\<lambda>c. snd (flush c)) sv1) in (go, n + k, sv2)
                  else (False, n, upd_client i (\<lambda>c. snd (flush c)) sv1))
               else let (go, k, sv2) = process_loop se i (drop n b) sv1 in (go, n + k, sv2))"
    using p n by (subst process_loop.simps) simp
  show ?thesis unfolding l using p by (simp add: after_command_def Let_def)
qed

lemma process_loop_bound: "process_loop se i b sv = (go, n, sv') \<Longrightarrow> n \<le> length b"
proof (induction "length b" arbitrary: b sv go n sv' rule: less_induct)
  case less
  show ?case
  proof (cases "b = [] \<or> (\<forall>args n. parseCommand b \<noteq> CmdOK args n)")
    case True
    then show ?thesis using less.prems by (subst (asm) process_loop_cases) (auto split: cmd_result.splits if_splits)
  next
    case False
    then obtain args k where p: "b \<noteq> []" "parseCommand b = CmdOK args k" by blast
    note k = parseCommand_bounds [OF p(2)]
    obtain g sv1 where a: "after_command se i args sv = (g, sv1)" by fastforce
    obtain go2 m sv2 where r: "process_loop se i (drop k b) sv1 = (go2, m, sv2)" by (metis prod_cases3)
    have "m \<le> length b - k" using less.hyps [OF _ r] k by (auto simp: p(1))
    then show ?thesis using less.prems k by (subst (asm) process_loop_cases) (auto simp: p a r split: bool.splits)
  qed
qed

text \<open>Input that arrives in two pieces.\<close>

lemma process_loop_append:
  "process_loop se i b sv = (True, n, sv1) \<Longrightarrow>
     process_loop se i (b @ c) sv = (case process_loop se i (drop n b @ c) sv1 of (go, k, sv2) \<Rightarrow> (go, n + k, sv2))"
proof (induction "length b" arbitrary: b sv n sv1 rule: less_induct)
  case less
  show ?case
  proof (cases "b = [] \<or> parseCommand b = CmdIncomplete")
    case True
    then have "n = 0" "sv1 = sv" using less.prems by (auto simp: process_loop_cases [of se i b] split: if_splits)
    then show ?thesis by (simp split: prod.splits)
  next
    case False
    then obtain args k where p: "b \<noteq> []" "parseCommand b = CmdOK args k"
      using less.prems by (cases "parseCommand b") (auto simp: process_loop_cases [of se i b])
    note k = parseCommand_bounds [OF p(2)]
    have pc: "parseCommand (b @ c) = CmdOK args k" using verdict_final [of b c] p by simp
    obtain g svm where a: "after_command se i args sv = (g, svm)" by fastforce
    obtain go2 m sv2 where r: "process_loop se i (drop k b) svm = (go2, m, sv2)" by (metis prod_cases3)
    have g: g "go2" "n = k + m" "sv2 = sv1"
      using less.prems by (auto simp: process_loop_cases [of se i b] p a r split: bool.splits)
    have "process_loop se i (drop k b @ c) svm = (case process_loop se i (drop m (drop k b) @ c) sv1 of (go, j, sv2) \<Rightarrow> (go, m + j, sv2))"
      using less.hyps [of "drop k b" svm m sv1] r g k p by simp
    moreover have "drop m (drop k b) = drop n b" using g(3) by (simp add: add.commute)
    ultimately show ?thesis using p pc a g k by (simp add: process_loop_cases [of se i "b @ c"] split: prod.splits)
  qed
qed

text \<open>Requests one after the other.\<close>

fun run_requests :: "senv \<Rightarrow> nat \<Rightarrow> bytes list list \<Rightarrow> server \<Rightarrow> bool \<times> nat \<times> server" where
  "run_requests se i [] sv = (True, 0, sv)"
| "run_requests se i (r # rs) sv =
     (let (go, sv1) = after_command se i r sv; n = length (encode_request r)
      in if go then (let (go2, k, sv2) = run_requests se i rs sv1 in (go2, n + k, sv2)) else (False, n, sv1))"

lemma encode_nonempty: "encode_request r \<noteq> []"
  by (simp add: encode_request_eq addArr_def addLen_def)

lemma process_loop_requests:
  "\<forall>r \<in> set rs. length r \<le> 1048576 \<and> (\<forall>a \<in> set r. length a \<le> 536870912) \<Longrightarrow>
     process_loop se i (concat (map encode_request rs)) sv = run_requests se i rs sv"
proof (induction rs arbitrary: sv)
  case Nil
  show ?case by (simp add: process_loop_cases)
next
  case (Cons r rs)
  then have r: "length r \<le> 1048576" "\<forall>a \<in> set r. length a \<le> 536870912" by auto
  have IH: "process_loop se i (concat (map encode_request rs)) sv1 = run_requests se i rs sv1" for sv1
    using Cons by simp
  show ?case
    by (simp add: process_loop_cases [of se i "encode_request r @ _"] encode_nonempty resp_roundtrip_aux [OF r] IH Let_def split: prod.splits bool.splits)
qed

section \<open>The input buffer\<close>

definition buf_inv :: "client \<Rightarrow> bool" where
  "buf_inv c \<longleftrightarrow> cr c \<le> cw c \<and> cw c \<le> length (rbuf c) \<and> 0 < length (rbuf c)"

text \<open>The first half of \<open>compact\<close>: the unread bytes move to the front.\<close>

definition to_front :: "client \<Rightarrow> client" where
  "to_front c =
     (if cr c = cw c then
        c\<lparr>cr := 0, cw := 0, rbuf := (if length (rbuf c) > 256 * 1024 then replicate rbufInit (CHR 0x00) else rbuf c)\<rparr>
      else if cr c > 0 then c\<lparr>rbuf := go_copy (rbuf c) (unread c), cw := cw c - cr c, cr := 0\<rparr>
      else c)"

lemma compact_to_front:
  "compact c = (let c1 = to_front c in if cw c1 = length (rbuf c1)
     then c1\<lparr>rbuf := go_copy (replicate (length (rbuf c1) * 2) (CHR 0x00)) (take (cw c1) (rbuf c1))\<rparr> else c1)"
  by (simp add: compact_def to_front_def unread_def)

lemma unread_length: "buf_inv c \<Longrightarrow> length (unread c) = cw c - cr c"
  by (auto simp: buf_inv_def unread_def)

lemma to_front_ok:
  assumes b: "buf_inv c"
  shows "buf_inv (to_front c)" "unread (to_front c) = unread c" "cr (to_front c) = 0" "cw (to_front c) = length (unread c)"
    "length (rbuf (to_front c)) \<le> max rbufInit (length (rbuf c))"
proof -
  have "buf_inv (to_front c) \<and> unread (to_front c) = unread c \<and> cr (to_front c) = 0 \<and> cw (to_front c) = length (unread c)
      \<and> length (rbuf (to_front c)) \<le> max rbufInit (length (rbuf c))"
  proof (cases "cr c = cw c")
    case True
    then show ?thesis using b by (simp add: to_front_def buf_inv_def unread_def rbufInit_def)
  next
    case False
    note u = unread_length [OF b]
    have fits: "length (unread c) \<le> length (rbuf c)" using b u by (auto simp: buf_inv_def)
    show ?thesis
    proof (cases "cr c > 0")
      case True
      have "take (cw c - cr c) (go_copy (rbuf c) (unread c)) = unread c" using go_copy_fits [OF fits] u by simp
      then show ?thesis using False True b u by (simp add: to_front_def buf_inv_def unread_def)
    qed (use False b u in \<open>simp add: to_front_def\<close>)
  qed
  then show "buf_inv (to_front c)" "unread (to_front c) = unread c" "cr (to_front c) = 0" "cw (to_front c) = length (unread c)"
    "length (rbuf (to_front c)) \<le> max rbufInit (length (rbuf c))" by auto
qed

lemma compact_ok:
  assumes b: "buf_inv c"
  shows "buf_inv (compact c) \<and> unread (compact c) = unread c \<and> cr (compact c) = 0 \<and> cw (compact c) < length (rbuf (compact c))
    \<and> length (rbuf (compact c)) \<le> max rbufInit (max (length (rbuf c)) (2 * length (unread c)))"
proof (cases "cw (to_front c) = length (rbuf (to_front c))")
  case True
  note T = to_front_ok [OF b]
  let ?c = "to_front c"
  have "0 < length (rbuf ?c)" using T(1) by (simp add: buf_inv_def)
  moreover have "take (length (rbuf ?c)) (go_copy (replicate (length (rbuf ?c) * 2) (CHR 0x00)) (rbuf ?c)) = rbuf ?c"
    by (rule go_copy_fits) simp
  moreover have "unread c = rbuf ?c" using T(2,3) True by (simp add: unread_def)
  ultimately show ?thesis using True T(3) by (simp add: compact_to_front Let_def buf_inv_def unread_def)
next
  case False
  then show ?thesis using to_front_ok [OF b] by (simp add: compact_to_front Let_def buf_inv_def)
qed

lemma read_into_ok:
  assumes b: "buf_inv c" and d: "length data \<le> length (rbuf c) - cw c"
  shows "buf_inv (read_into data now c) \<and> unread (read_into data now c) = unread c @ data"
proof -
  have l: "cr c \<le> cw c" "cw c \<le> length (rbuf c)" using b by (simp_all add: buf_inv_def)
  have "take (length data) (go_copy (drop (cw c) (rbuf c)) data) = data" using d by (intro go_copy_fits) simp
  moreover have "take (cw c + length data) (take (cw c) (rbuf c) @ go_copy (drop (cw c) (rbuf c)) data)
      = take (cw c) (rbuf c) @ take (length data) (go_copy (drop (cw c) (rbuf c)) data)" using l by simp
  ultimately have "take (cw c + length data) (take (cw c) (rbuf c) @ go_copy (drop (cw c) (rbuf c)) data) = take (cw c) (rbuf c) @ data"
    by simp
  moreover have "unread (read_into data now c) = drop (cr c) (take (cw c + length data) (take (cw c) (rbuf c) @ go_copy (drop (cw c) (rbuf c)) data))"
    using d l by (simp add: unread_def read_into_def drop_take)
  ultimately show ?thesis using b d l by (simp add: buf_inv_def read_into_def unread_def drop_take)
qed

section \<open>Frame conditions\<close>

text \<open>Commands and flushing do not touch the input buffers.\<close>

definition bufs :: "client \<Rightarrow> bytes \<times> nat \<times> nat \<times> int" where
  "bufs c = (rbuf c, cr c, cw c, cnow c)"

definition all_bufs :: "server \<Rightarrow> nat \<Rightarrow> bytes \<times> nat \<times> nat \<times> int" where
  "all_bufs sv = (\<lambda>i. bufs (clients sv i))"

lemma all_bufs_upd: "bufs (f (clients sv i)) = bufs (clients sv i) \<Longrightarrow> all_bufs (upd_client i f sv) = all_bufs sv"
  by (auto simp: all_bufs_def upd_client_def)

lemma bufs_simps [simp]: "bufs (deliverLocked b c) = bufs c" "bufs (pushAsync c) = bufs c" "bufs (snd (flush c)) = bufs c"
  "bufs (startAsync c) = bufs c" "bufs (c\<lparr>cout := x\<rparr>) = bufs c" "bufs (c\<lparr>subs := s\<rparr>) = bufs c" "bufs (c\<lparr>quit := q\<rparr>) = bufs c"
  by (simp_all add: bufs_def deliverLocked_def pushAsync_def flush_def conn_write_def startAsync_def Let_def)

lemma all_bufs_simps [simp]: "all_bufs (sv\<lparr>sstore := d\<rparr>) = all_bufs sv" "all_bufs (sv\<lparr>chans := m\<rparr>) = all_bufs sv"
  "all_bufs (upd_client i (\<lambda>c. c\<lparr>cout := x c\<rparr>) sv) = all_bufs sv" "all_bufs (upd_client i pushAsync sv) = all_bufs sv"
  "all_bufs (upd_client i (deliverLocked b) sv) = all_bufs sv" "all_bufs (upd_client i (\<lambda>c. snd (flush c)) sv) = all_bufs sv"
  "all_bufs (upd_client i (\<lambda>c. c\<lparr>subs := y c\<rparr>) sv) = all_bufs sv"
  by (auto simp: all_bufs_def upd_client_def)

lemma all_bufs_foldl: "(\<And>sv x. all_bufs (g sv x) = all_bufs sv) \<Longrightarrow> all_bufs (foldl g sv xs) = all_bufs sv"
  by (induction xs arbitrary: sv) simp_all

lemma all_bufs_pubsub: "all_bufs (cmdSubscribe i a sv) = all_bufs sv" "all_bufs (cmdUnsubscribe ord i a sv) = all_bufs sv"
  "all_bufs (cmdPublish i a sv) = all_bufs sv"
proof -
  have s: "all_bufs (subscribe_one i ch sv) = all_bufs sv" for ch sv by (simp add: subscribe_one_def Let_def)
  have u: "all_bufs (unsubOne i n sv) = all_bufs sv" for n sv by (simp add: unsubOne_def Let_def split: option.splits)
  have r: "all_bufs (unsub_reply i n sv) = all_bufs sv" for n sv by (simp add: unsub_reply_def Let_def u)
  show "all_bufs (cmdSubscribe i a sv) = all_bufs sv"
    by (simp add: cmdSubscribe_def all_bufs_foldl s all_bufs_upd)
  show "all_bufs (cmdUnsubscribe ord i a sv) = all_bufs sv" by (simp add: cmdUnsubscribe_def Let_def all_bufs_foldl r)
  show "all_bufs (cmdPublish i a sv) = all_bufs sv" by (simp add: cmdPublish_def Let_def all_bufs_foldl)
qed

lemma if_eqI: "x = z \<Longrightarrow> y = z \<Longrightarrow> (if C then x else y) = z"
  by simp

lemma all_bufs_run: "all_bufs (run_command se i name a sv) = all_bufs sv"
proof -
  have ping: "all_bufs (upd_client i (cmdPing a) sv) = all_bufs sv" "all_bufs (upd_client i cmdQuit sv) = all_bufs sv"
    by (auto intro!: all_bufs_upd simp: cmdPing_def cmdQuit_def Let_def)
  show ?thesis unfolding run_command_def Let_def case_prod_beta if_distrib [of all_bufs]
    by (intro if_eqI ping all_bufs_pubsub) simp
qed

lemma all_bufs_exec: "all_bufs (exec se i args sv) = all_bufs sv"
proof -
  have "all_bufs (case r of None \<Rightarrow> upd_client i (\<lambda>c. c\<lparr>cout := addErr (cout c) x\<rparr>) sv
      | Some (n, ar, ok) \<Rightarrow> if bad_arity ar (length args) then upd_client i (\<lambda>c. c\<lparr>cout := addErr (cout c) (errArgs n)\<rparr>) sv
          else if length (subs (clients sv i)) > 0 \<and> \<not> ok then upd_client i (\<lambda>c. c\<lparr>cout := addErr (cout c) (err_subscribed n)\<rparr>) sv
          else run_command se i n args sv) = all_bufs sv" for r x
    unfolding case_prod_beta by (cases r) (simp_all add: all_bufs_run)
  then show ?thesis unfolding exec_def Let_def if_distrib [of all_bufs] all_bufs_simps if_cancel .
qed

lemma all_bufs_after: "after_command se i args sv = (go, sv') \<Longrightarrow> all_bufs sv' = all_bufs sv"
  by (auto simp: after_command_def Let_def all_bufs_exec split: if_splits)

lemma all_bufs_loop: "process_loop se i b sv = (go, n, sv') \<Longrightarrow> all_bufs sv' = all_bufs sv"
proof (induction "length b" arbitrary: b sv go n sv' rule: less_induct)
  case less
  show ?case
  proof (cases "b = [] \<or> (\<forall>args n. parseCommand b \<noteq> CmdOK args n)")
    case True
    have "all_bufs (protocol_error i sv) = all_bufs sv" unfolding protocol_error_def by (rule all_bufs_upd) simp
    then show ?thesis using less.prems True by (subst (asm) process_loop_cases) (auto split: cmd_result.splits if_splits)
  next
    case False
    then obtain args k where p: "b \<noteq> []" "parseCommand b = CmdOK args k" by blast
    obtain g sv1 where a: "after_command se i args sv = (g, sv1)" by fastforce
    obtain go2 m sv2 where r: "process_loop se i (drop k b) sv1 = (go2, m, sv2)" by (metis prod_cases3)
    have "all_bufs sv2 = all_bufs sv1" using less.hyps [OF _ r] parseCommand_bounds [OF p(2)] p(1) by auto
    then show ?thesis using less.prems all_bufs_after [OF a] by (subst (asm) process_loop_cases) (auto simp: p a r split: bool.splits)
  qed
qed

lemma bufs_clients: "all_bufs sv' = all_bufs sv \<Longrightarrow> rbuf (clients sv' i) = rbuf (clients sv i) \<and> cr (clients sv' i) = cr (clients sv i) \<and> cw (clients sv' i) = cw (clients sv i)"
  by (auto simp: all_bufs_def bufs_def dest: fun_cong [of _ _ i])

lemma process_ok:
  assumes b: "buf_inv (clients sv i)" and l: "process_loop se i (unread (clients sv i)) sv = (go, n, sv1)" and p: "process se i sv = (True, sv')"
  shows "go \<and> unread (clients sv' i) = drop n (unread (clients sv i)) \<and> buf_inv (clients sv' i)
    \<and> cw (clients sv' i) < length (rbuf (clients sv' i))"
proof -
  let ?c = "clients sv i" and ?c1 = "clients sv1 i"
  let ?c2 = "?c1\<lparr>cr := cr ?c1 + n\<rparr>"
  have same: "rbuf ?c1 = rbuf ?c" "cr ?c1 = cr ?c" "cw ?c1 = cw ?c" using bufs_clients [OF all_bufs_loop [OF l], of i] by auto
  have n: "n \<le> cw ?c - cr ?c" using process_loop_bound [OF l] unread_length [OF b] by simp
  have f: "rbuf (snd (flush c)) = rbuf c" "cr (snd (flush c)) = cr c" "cw (snd (flush c)) = cw c" for c
    using bufs_simps(3) [of c] unfolding bufs_def by auto
  have bi: "buf_inv (snd (flush ?c2))" using b n by (auto simp: buf_inv_def f same)
  have go: go and c': "clients sv' i = compact (snd (flush ?c2))" using p by (auto simp: process_def l Let_def split: if_splits)
  have "unread (snd (flush ?c2)) = drop n (unread ?c)" using n by (simp add: unread_def f same drop_take add.commute)
  then show ?thesis using compact_ok [OF bi] go by (simp add: c')
qed

section \<open>Claims\<close>

definition test_senv :: senv where
  "test_senv = \<lparr>renv = test_env, rangeOrder = id, memstats = \<lparr>heapInuse = 0, heapIdle = 0, heapReleased = 0, sysBytes = 0\<rparr>\<rparr>"

definition init_server :: "int \<Rightarrow> server" where
  "init_server mm = \<lparr>sstore = init_store mm, chans = Map.empty, clients = \<lambda>_. new_client, connected = 0\<rparr>"

text \<open>\<^bold>\<open>C3\<close> How the network cuts the input does not matter. When the bytes \<open>b\<close> have been processed up to an
  incomplete command, processing them together with later bytes \<open>c\<close> executes the same commands in the same
  order with the same replies as processing the unread rest of \<open>b\<close> followed by \<open>c\<close> afterwards.\<close>

theorem input_segmentation:
  assumes "process_loop se i b sv = (True, n, sv1)"
  shows "process_loop se i (b @ c) sv = (case process_loop se i (drop n b @ c) sv1 of (go, k, sv2) \<Rightarrow> (go, n + k, sv2))"
  by (rule process_loop_append [OF assms])

theorem input_segmentation_witness:
  "process_loop test_senv 0 ((encode_request [] @ ''*1'') @ crlf @ ''$4'' @ crlf @ ''PING'' @ crlf) (init_server 0)
    = (case process_loop test_senv 0 (''*1'' @ crlf @ ''$4'' @ crlf @ ''PING'' @ crlf) (init_server 0) of (go, k, sv2) \<Rightarrow> (go, 4 + k, sv2))"
proof -
  have p: "parseCommand (encode_request [] @ ''*1'') = CmdOK [] 4" "drop 4 (encode_request [] @ ''*1'') = ''*1''"
    "parseCommand ''*1'' = CmdIncomplete" by code_simp+
  have "process_loop test_senv 0 ''*1'' (init_server 0) = (True, 0, init_server 0)"
    by (subst process_loop_cases) (simp add: p)
  then have "process_loop test_senv 0 (encode_request [] @ ''*1'') (init_server 0) = (True, 4, init_server 0)"
    by (subst process_loop_cases) (simp only: p append_is_Nil_conv list.simps simp_thms if_False cmd_result.case after_command_def prod.case
        if_True add_0_right encode_nonempty refl bool.case)
  from input_segmentation [OF this, of "crlf @ ''$4'' @ crlf @ ''PING'' @ crlf"] show ?thesis by (simp only: p append_assoc)
qed

text \<open>\<^bold>\<open>C4\<close> Pipelined requests are executed one by one in the order they were sent, each with exactly the
  arguments that were encoded; processing stops early only when a request ends the session (\<open>QUIT\<close>) or the
  connection fails while replies are written, and then exactly the requests up to that one were consumed.\<close>

theorem pipelined_requests:
  assumes "\<forall>r \<in> set rs. length r \<le> 1048576 \<and> (\<forall>a \<in> set r. length a \<le> 536870912)"
  shows "process_loop se i (concat (map encode_request rs)) sv = run_requests se i rs sv"
  by (rule process_loop_requests [OF assms])

theorem pipelined_requests_witness:
  "process_loop test_senv 0 (concat (map encode_request [[''PING''], [''ECHO'', ''x'']])) (init_server 0)
    = run_requests test_senv 0 [[''PING''], [''ECHO'', ''x'']] (init_server 0)"
  by (rule pipelined_requests) simp

text \<open>\<^bold>\<open>C5\<close> A round of \<open>serve\<close> that goes on loses no input: with data that fits the free part of the buffer, what
  is unread afterwards is what was unread before followed by the data, less the bytes of the commands that were
  executed; the buffer stays well formed and has room, so that the next read makes progress.\<close>

theorem serve_round_keeps_input:
  assumes "buf_inv (clients sv i)" "length data \<le> length (rbuf (clients sv i)) - cw (clients sv i)" "data \<noteq> []"
    and "serve_round se i data now sv = (True, sv')"
  shows "\<exists>n sv1. process_loop se i (unread (clients sv i) @ data) (upd_client i (read_into data now) sv) = (True, n, sv1)
    \<and> unread (clients sv' i) = drop n (unread (clients sv i) @ data)
    \<and> buf_inv (clients sv' i) \<and> cw (clients sv' i) < length (rbuf (clients sv' i))"
proof -
  let ?sv = "upd_client i (read_into data now) sv"
  note R = read_into_ok [OF assms(1,2), of now]
  obtain go n sv1 where l: "process_loop se i (unread (clients ?sv i)) ?sv = (go, n, sv1)" by (metis prod_cases3)
  have "buf_inv (clients ?sv i)" "process se i ?sv = (True, sv')" using R assms(3,4) by (simp_all add: serve_round_def)
  from process_ok [OF this(1) l this(2)] R l show ?thesis by auto
qed

lemma serve_round_test: "serve_round test_senv 0 ''*1'' 500 (init_server 0) = (True, upd_client 0 (\<lambda>c. compact (read_into ''*1'' 500 c)) (init_server 0))"
proof -
  let ?sv = "upd_client 0 (read_into ''*1'' 500) (init_server 0)"
  have u: "unread (read_into ''*1'' 500 new_client) = ''*1''"
    by (subst conjunct2 [OF read_into_ok]) (simp_all add: buf_inv_def unread_def new_client_def rbufInit_def)
  have p: "parseCommand ''*1'' = CmdIncomplete" by code_simp
  have "clients ?sv 0 = read_into ''*1'' 500 new_client" by (simp add: init_server_def)
  then have "process_loop test_senv 0 (unread (clients ?sv 0)) ?sv = (True, 0, ?sv)"
    using u p by (simp add: process_loop_cases [of _ _ "''*1''"])
  moreover have "flush (c\<lparr>cr := cr c + 0\<rparr>) = (True, c)" if "cout c = []" for c using that by (simp add: flush_def)
  moreover have "cout (read_into ''*1'' 500 new_client) = []" by (simp add: read_into_def new_client_def)
  ultimately show ?thesis by (simp add: serve_round_def process_def upd_client_def init_server_def)
qed

theorem serve_round_keeps_input_witness:
  "\<exists>sv'. serve_round test_senv 0 ''*1'' 500 (init_server 0) = (True, sv') \<and> cw (clients sv' 0) < length (rbuf (clients sv' 0))"
proof -
  have "buf_inv (clients (init_server 0) 0)" "length ''*1'' \<le> length (rbuf (clients (init_server 0) 0)) - cw (clients (init_server 0) 0)"
    by (simp_all add: init_server_def new_client_def buf_inv_def rbufInit_def)
  from serve_round_keeps_input [OF this _ serve_round_test] show ?thesis using serve_round_test by auto
qed

end
