(* ===== verification/Server_Steps.thy ===== *)
theory Server_Steps
  imports Server_Inv Session_Loop
begin

text \<open>
  The running server as a step relation: sessions, writer goroutines and the expiry loop take steps in any
  order. The invariants of the store, of the clients and of publish/subscribe hold in every reachable state,
  and every round of \<open>serve\<close> is a run of these steps.
\<close>

declare One_nat_def [simp del]

section \<open>Steps\<close>

text \<open>The second component is the set of the sessions being served. A session touches its own input buffer,
  executes a command, and writes its output; the commands of different sessions interleave.\<close>

type_synonym sys = "server \<times> nat set"

inductive sys_step :: "senv \<Rightarrow> sys \<Rightarrow> sys \<Rightarrow> bool" for se where
  Accept: "i \<notin> L \<Longrightarrow> wst (clients sv i) = WDone \<Longrightarrow> subs (clients sv i) = [] \<Longrightarrow> sys_step se (sv, L) (serve_start i sv, insert i L)"
| Buffer: "i \<in> L \<Longrightarrow> clock_ok (cnow c') \<Longrightarrow> c' = (clients sv i)\<lparr>rbuf := rbuf c', cr := cr c', cw := cw c', cnow := cnow c'\<rparr> \<Longrightarrow>
    sys_step se (sv, L) (upd_client i (\<lambda>_. c') sv, L)"
| Exec: "i \<in> L \<Longrightarrow> clock_ok (cnow (clients sv i)) \<Longrightarrow> args_ok args \<Longrightarrow> room_ok (renv se) (sstore sv) \<Longrightarrow>
    sys_step se (sv, L) (exec se i args sv, L)"
| ErrorReply: "i \<in> L \<Longrightarrow> sys_step se (sv, L) (upd_client i (\<lambda>c. c\<lparr>cout := addErr (cout c) t\<rparr>) sv, L)"
| Flush: "i \<in> L \<Longrightarrow> sys_step se (sv, L) (upd_client i (\<lambda>c. snd (flush c)) sv, L)"
| Writer: "writer_step (clients sv i) = Some c' \<Longrightarrow> sys_step se (sv, L) (upd_client i (\<lambda>_. c') sv, L)"
| PeerGone: "sys_step se (sv, L) (upd_client i (\<lambda>c. c\<lparr>peerGone := True\<rparr>) sv, L)"
| Close: "i \<in> L \<Longrightarrow> sys_step se (sv, L) (serve_end se i sv, L - {i})"
| Expiry: "(\<And>i k. clock i k \<le> T) \<Longrightarrow> sys_step se (sv, L) (sv\<lparr>sstore := expiry_tick (renv se) clock (sstore sv)\<rparr>, L)"

abbreviation sys_steps :: "senv \<Rightarrow> sys \<Rightarrow> sys \<Rightarrow> bool" where
  "sys_steps se \<equiv> (sys_step se)\<^sup>*\<^sup>*"

definition server_inv :: "env \<Rightarrow> sys \<Rightarrow> bool" where
  "server_inv e s \<longleftrightarrow> sys_inv (fst s) \<and> store_ok e (sstore (fst s)) \<and> finite (snd s) \<and> connected (fst s) = int (card (snd s))"

section \<open>The invariant\<close>

lemma connected_upd [simp]: "connected (upd_client i f sv) = connected sv"
  by (simp add: upd_client_def)

lemma connected_foldl: "(\<And>sv x. connected (g sv x) = connected sv) \<Longrightarrow> connected (foldl g sv xs) = connected sv"
  by (induction xs arbitrary: sv) simp_all

lemma connected_pubsub [simp]: "connected (cmdSubscribe i a sv) = connected sv" "connected (cmdUnsubscribe ord i a sv) = connected sv"
  "connected (cmdPublish i a sv) = connected sv" "connected (cleanup ord i sv) = connected sv"
proof -
  have s: "connected (subscribe_one i ch sv) = connected sv" for ch sv by (simp add: subscribe_one_def Let_def)
  have u: "connected (unsubOne i n sv) = connected sv" for n sv by (simp add: unsubOne_def Let_def split: option.splits)
  have r: "connected (unsub_reply i n sv) = connected sv" for n sv by (simp add: unsub_reply_def Let_def u)
  show "connected (cmdSubscribe i a sv) = connected sv" by (simp add: cmdSubscribe_def connected_foldl s)
  show "connected (cmdUnsubscribe ord i a sv) = connected sv" by (simp add: cmdUnsubscribe_def Let_def connected_foldl r)
  show "connected (cmdPublish i a sv) = connected sv" by (simp add: cmdPublish_def Let_def connected_foldl)
  show "connected (cleanup ord i sv) = connected sv" by (simp add: cleanup_def pubsubUnsubAll_def Let_def connected_foldl u)
qed

lemma connected_exec: "connected (exec se i args sv) = connected sv"
proof -
  have run: "connected (run_command se i n args sv) = connected sv" for n
    unfolding run_command_def Let_def case_prod_beta if_distrib [of connected] by (intro if_eqI) simp_all
  have "connected (case r of None \<Rightarrow> upd_client i (\<lambda>c. c\<lparr>cout := addErr (cout c) x\<rparr>) sv
      | Some (n, ar, ok) \<Rightarrow> if bad_arity ar (length args) then upd_client i (\<lambda>c. c\<lparr>cout := addErr (cout c) (errArgs n)\<rparr>) sv
          else if length (subs (clients sv i)) > 0 \<and> \<not> ok then upd_client i (\<lambda>c. c\<lparr>cout := addErr (cout c) (err_subscribed n)\<rparr>) sv
          else run_command se i n args sv) = connected sv" for r x
    unfolding case_prod_beta by (cases r) (simp_all add: run)
  then show ?thesis unfolding exec_def Let_def if_distrib [of connected] connected_upd if_cancel .
qed

lemma cl_inv_buffer: "c' = c\<lparr>rbuf := rbuf c', cr := cr c', cw := cw c', cnow := cnow c'\<rparr> \<Longrightarrow> cl_inv c' = cl_inv c \<and> subs c' = subs c"
  by (cases c; cases c') (simp add: cl_inv_def)

lemma subs_new [simp]: "subs new_client = []"
  by (simp add: new_client_def)

lemma sys_start: "sys_inv sv \<Longrightarrow> subs (clients sv i) = [] \<Longrightarrow> sys_inv (serve_start i sv)"
  unfolding serve_start_def sys_store(2) by (rule sys_upd) (simp_all add: cl_inv_new)

lemma tidy_aged: "tidy m \<Longrightarrow> aged T m m' \<Longrightarrow> tidy m'"
  unfolding tidy_def aged_def by (metis tidy_simps(1))

lemma expiry_store_ok:
  assumes "store_ok e d" "\<And>i k. clock i k \<le> T"
  shows "store_ok e (expiry_tick e clock d)"
proof -
  have "store_inv e d" "\<forall>i \<in> set [0..<nShards]. i < nShards" using assms(1) by (simp_all add: store_ok_def)
  note F = foldl_expiry_ok [OF this(1) assms(2) this(2)]
  have "tidy (db e d)" using assms(1) by (simp add: store_ok_def)
  then have "tidy (db e (expiry_tick e clock d))" unfolding expiry_tick_def by (rule tidy_aged [OF _ conjunct2 [OF F]])
  then show ?thesis using conjunct1 [OF F] unfolding store_ok_def expiry_tick_def by (intro conjI)
qed

lemma server_inv_step:
  assumes env: "rand_ok (renv se)" "order_ok (renv se)" and st: "sys_step se s s'" and inv: "server_inv (renv se) s"
  shows "server_inv (renv se) s'"
  using st inv
proof cases
  case (Accept i L sv)
  then show ?thesis using inv sys_start [of sv i] by (simp add: server_inv_def serve_start_def)
next
  case (Buffer i L c' sv)
  then show ?thesis using inv cl_inv_buffer [OF Buffer(5)] sys_invD(1) [of sv i] by (auto simp: server_inv_def intro!: sys_upd)
next
  case (Exec i L sv args)
  then show ?thesis using inv exec_store [OF env _ Exec(5,6,4)] sys_exec [of sv se i args] by (simp add: server_inv_def connected_exec)
next
  case (ErrorReply i L sv t)
  then show ?thesis using inv by (simp add: server_inv_def sys_reply)
next
  case (Flush i L sv)
  then show ?thesis using inv by (simp add: server_inv_def sys_flush)
next
  case (Writer sv i c' L)
  then show ?thesis using inv cl_inv_writer [OF _ Writer(3)] sys_invD(1) [of sv i] by (auto simp: server_inv_def intro!: sys_upd)
next
  case (PeerGone sv L i)
  then show ?thesis using inv sys_invD(1) [of sv i] by (auto simp: server_inv_def intro!: sys_upd)
next
  case (Close i L sv)
  then have "card L > 0" using inv by (auto simp: server_inv_def card_gt_0_iff)
  then show ?thesis using Close inv sys_cleanup [of sv "rangeOrder se" i]
    by (simp add: server_inv_def serve_end_def sys_store card_Diff_singleton of_nat_diff)
next
  case (Expiry clock T sv L)
  then show ?thesis using inv expiry_store_ok [OF _ Expiry(3)] by (simp add: server_inv_def sys_store)
qed

lemma server_inv_reachable:
  assumes "rand_ok (renv se)" "order_ok (renv se)" "sys_steps se s s'" "server_inv (renv se) s"
  shows "server_inv (renv se) s'"
  using assms(3,4) by (induction rule: rtranclp_induct) (auto intro: server_inv_step [OF assms(1,2)])

lemma server_inv_init: "os_ok e \<Longrightarrow> server_inv e (init_server mm, {})"
  using init_store_inv [of e mm]
  by (auto simp: server_inv_def init_server_def sys_inv_def pub_inv_def members_def store_ok_def tidy_def)

section \<open>Rounds are runs\<close>

text \<open>The states in which the loop looks at its input.\<close>

inductive visits :: "senv \<Rightarrow> nat \<Rightarrow> bytes \<Rightarrow> server \<Rightarrow> server \<Rightarrow> bool" for se i where
  Here: "visits se i b sv sv"
| Later: "b \<noteq> [] \<Longrightarrow> parseCommand b = CmdOK args n \<Longrightarrow> after_command se i args sv = (True, sv1) \<Longrightarrow> visits se i (drop n b) sv1 sv2 \<Longrightarrow>
    visits se i b sv sv2"

lemma after_steps:
  assumes "i \<in> L" "clock_ok (cnow (clients sv i))" "args_ok args" "room_ok (renv se) (sstore sv)" "after_command se i args sv = (go, sv')"
  shows "sys_steps se (sv, L) (sv', L)"
proof (cases "args = []")
  case False
  let ?sv1 = "exec se i args sv"
  have e: "sys_steps se (sv, L) (?sv1, L)" using sys_step.Exec [OF assms(1-4)] by (rule r_into_rtranclp)
  have f: "sys_steps se (sv, L) (upd_client i (\<lambda>c. snd (flush c)) ?sv1, L)" using e sys_step.Flush [OF assms(1)] by (rule rtranclp.rtrancl_into_rtrancl)
  show ?thesis using assms(5) False e f by (auto simp: after_command_def Let_def split: if_splits)
qed (use assms in \<open>simp add: after_command_def\<close>)

lemma protocol_error_steps: "i \<in> L \<Longrightarrow> sys_steps se (sv, L) (protocol_error i sv, L)"
proof -
  assume i: "i \<in> L"
  let ?t = "''ERR Protocol error: invalid request''"
  have "sys_steps se (sv, L) (upd_client i (\<lambda>c. c\<lparr>cout := addErr (cout c) ?t\<rparr>) sv, L)"
    using sys_step.ErrorReply [OF i] by (rule r_into_rtranclp)
  then have "sys_steps se (sv, L) (upd_client i (\<lambda>c. snd (flush c)) (upd_client i (\<lambda>c. c\<lparr>cout := addErr (cout c) ?t\<rparr>) sv), L)"
    using sys_step.Flush [OF i] by (rule rtranclp.rtrancl_into_rtrancl)
  then show ?thesis by (simp add: protocol_error_def upd_client_def)
qed

lemma loop_steps:
  assumes "i \<in> L"
  shows "process_loop se i b sv = (go, n, sv') \<Longrightarrow> clock_ok (cnow (clients sv i)) \<Longrightarrow> (\<And>s. visits se i b sv s \<Longrightarrow> room_ok (renv se) (sstore s)) \<Longrightarrow>
     sys_steps se (sv, L) (sv', L)"
proof (induction "length b" arbitrary: b sv go n sv' rule: less_induct)
  case less
  show ?case
  proof (cases "b = [] \<or> (\<forall>args n. parseCommand b \<noteq> CmdOK args n)")
    case True
    then show ?thesis using less.prems(1) protocol_error_steps [OF assms] by (subst (asm) process_loop_cases) (auto split: cmd_result.splits if_splits)
  next
    case False
    then obtain args k where p: "b \<noteq> []" "parseCommand b = CmdOK args k" by blast
    obtain g sv1 where a: "after_command se i args sv = (g, sv1)" by fastforce
    have s1: "sys_steps se (sv, L) (sv1, L)"
      by (rule after_steps [OF assms less.prems(2) parseCommand_args [OF p(2)] less.prems(3) [OF visits.Here] a])
    show ?thesis
    proof (cases g)
      case True
      obtain go2 m sv2 where r: "process_loop se i (drop k b) sv1 = (go2, m, sv2)" by (metis prod_cases3)
      have now: "clock_ok (cnow (clients sv1 i))" using all_bufs_after [OF a] less.prems(2) by (auto simp: all_bufs_def bufs_def dest: fun_cong [of _ _ i])
      have "sys_steps se (sv1, L) (sv2, L)"
      proof (rule less.hyps [OF _ r now])
        show "length (drop k b) < length b" using parseCommand_bounds [OF p(2)] p(1) by simp
        show "room_ok (renv se) (sstore s)" if "visits se i (drop k b) sv1 s" for s
          using less.prems(3) visits.Later [OF p _ that] a True by simp
      qed
      then have "sys_steps se (sv, L) (sv2, L)" using s1 by (rule rtranclp_trans [rotated])
      moreover have "sv' = sv2" using less.prems(1) by (subst (asm) process_loop_cases) (auto simp: p a r True)
      ultimately show ?thesis by simp
    next
      case False
      then have "sv' = sv1" using less.prems(1) by (subst (asm) process_loop_cases) (auto simp: p a)
      then show ?thesis using s1 by simp
    qed
  qed
qed

lemma buffer_step:
  assumes "i \<in> L" "clock_ok (cnow (f (clients sv i)))"
    "\<And>c. f c = c\<lparr>rbuf := rbuf (f c), cr := cr (f c), cw := cw (f c), cnow := cnow (f c)\<rparr>"
  shows "sys_step se (sv, L) (upd_client i f sv, L)"
proof -
  have "upd_client i f sv = upd_client i (\<lambda>_. f (clients sv i)) sv" by (simp add: upd_client_def)
  then show ?thesis using sys_step.Buffer [OF assms(1,2) assms(3), of se] by metis
qed

lemma compact_fields: "compact c = c\<lparr>rbuf := rbuf (compact c), cr := cr (compact c), cw := cw (compact c), cnow := cnow (compact c)\<rparr>" "cnow (compact c) = cnow c"
  by (simp_all add: compact_def Let_def)

lemma serve_round_steps:
  assumes "i \<in> L" "clock_ok now" "data \<noteq> []"
    and room: "\<And>s. visits se i (unread (read_into data now (clients sv i))) (upd_client i (read_into data now) sv) s \<Longrightarrow> room_ok (renv se) (sstore s)"
    and r: "serve_round se i data now sv = (go, sv')"
  shows "sys_steps se (sv, L) (sv', L)"
proof -
  let ?sv = "upd_client i (read_into data now) sv"
  obtain g n sv1 where l: "process_loop se i (unread (clients ?sv i)) ?sv = (g, n, sv1)" by (metis prod_cases3)
  have ck: "clock_ok (cnow (clients ?sv i))" using assms(2) by (simp add: read_into_def)
  have "sys_step se (sv, L) (?sv, L)" by (rule buffer_step [OF assms(1)]) (simp_all add: read_into_def assms(2))
  moreover have "sys_steps se (?sv, L) (sv1, L)" by (rule loop_steps [OF assms(1) l ck room]) simp
  ultimately have s1: "sys_steps se (sv, L) (sv1, L)" by (rule converse_rtranclp_into_rtranclp)
  let ?sv2 = "upd_client i (\<lambda>c. c\<lparr>cr := cr c + n\<rparr>) sv1"
  have ck1: "clock_ok (cnow (clients sv1 i))" using all_bufs_loop [OF l] ck by (auto simp: all_bufs_def bufs_def dest: fun_cong [of _ _ i])
  then have "sys_step se (sv1, L) (?sv2, L)" by (intro buffer_step [OF assms(1)]) simp_all
  with s1 have s2: "sys_steps se (sv, L) (?sv2, L)" by (rule rtranclp.rtrancl_into_rtrancl)
  let ?sv3 = "upd_client i (\<lambda>c. snd (flush c)) ?sv2"
  have s3: "sys_steps se (sv, L) (?sv3, L)" using s2 sys_step.Flush [OF assms(1)] by (rule rtranclp.rtrancl_into_rtrancl)
  have "cnow (snd (flush c)) = cnow c" for c using bufs_simps(3) [of c] unfolding bufs_def by simp
  then have "clock_ok (cnow (compact (clients ?sv3 i)))" using ck1 by (simp add: compact_fields(2))
  then have "sys_step se (?sv3, L) (upd_client i compact ?sv3, L)" by (rule buffer_step [OF assms(1) _ compact_fields(1)])
  with s3 have s4: "sys_steps se (sv, L) (upd_client i compact ?sv3, L)" by (rule rtranclp.rtrancl_into_rtrancl)
  have eq: "upd_client i compact ?sv3 = upd_client i (\<lambda>c. compact (snd (flush c))) ?sv2" by (simp add: upd_client_def)
  show ?thesis using r assms(3) s2 s3 s4 l unfolding eq by (auto simp: serve_round_def process_def Let_def split: if_splits)
qed

section \<open>Claims\<close>


lemma test_senv_ok: "os_ok (renv test_senv)" "rand_ok (renv test_senv)" "order_ok (renv test_senv)"
  using test_env_ok by (simp_all add: test_senv_def order_ok_def test_env_def)

lemma accept_test: "sys_step test_senv (init_server 0, {}) (serve_start 0 (init_server 0), {0})"
  by (rule sys_step.Accept) (simp_all add: init_server_def new_client_def)



inductive_cases visitsE: "visits se i b sv s"


end
