(* ===== verification/Command_Claims.thy ===== *)
theory Command_Claims
  imports Server_Inv
begin

text \<open>
  What the commands of \<open>redis/impl/go-1/commands.go\<close> promise: each is a function from what a client can see
  of its keys to the reply and to what is seen afterwards.
\<close>

declare One_nat_def [simp del]

section \<open>Concrete stores\<close>

lemma refines_exact:
  assumes "refines_key e now key f d out r" "maxMemory (proc d) \<le> 0"
  shows "store_inv e (fst r)" "snd r = out @ fst (f (view e now d key))" "view e now (fst r) = (view e now d)(key := snd (f (view e now d key)))"
    "maxMemory (proc (fst r)) = maxMemory (proc d)"
  using assms by (auto simp: refines_key_def outcome_def Let_def split: prod.splits)

definition str_store :: store where
  "str_store = fst (cmdSet test_env 500 [''SET'', ''k'', ''7''] (init_store 0) [])"

definition list_store :: store where
  "list_store = fst (cmdPush test_env 500 [''RPUSH'', ''k'', ''a'', ''b'', ''c''] False (init_store 0) [])"

definition hash_store :: store where
  "hash_store = fst (cmdHset test_env 500 [''HSET'', ''k'', ''f'', ''1''] (init_store 0) [])"

lemma init_facts: "maxMemory (proc (init_store 0)) \<le> 0" "view test_env 500 (init_store 0) = Map.empty" "objs_room (shards (init_store 0) ! shard_idx h)"
  using test_store_inv(2) [of 0] shard_idx_less [of h] by (simp_all add: init_store_def view_def live_def fun_eq_iff objs_room_def init_shard_def)

lemma init_tidy: "tidy (db test_env (init_store 0))"
  using test_store_inv(2) [of 0] by (simp add: tidy_def)

lemma str_facts: "store_inv test_env str_store" "view test_env 500 str_store = [''k'' \<mapsto> (VStr ''7'', 0)]" "maxMemory (proc str_store) = 0" "tidy (db test_env str_store)"
proof -
  have r: "refines_key test_env 500 ''k'' (spec_set 500 0 ''k'' ''7'' []) (init_store 0) [] (cmdSet test_env 500 [''SET'', ''k'', ''7''] (init_store 0) [])"
    using cmdSet_ok [OF test_env_ok(2) test_store_inv(1) [of 0], of "[''SET'', ''k'', ''7'']" 500 "[]"] by (simp add: init_store_def)
  have s: "spec_set 500 0 ''k'' ''7'' [] None = (addOK [], Some (VStr ''7'', 0))"
    by (simp add: spec_set_def no_opts_def too_big_def)
  note x = refines_exact [OF r init_facts(1), unfolded init_facts(2) s]
  show "store_inv test_env str_store" "view test_env 500 str_store = [''k'' \<mapsto> (VStr ''7'', 0)]" "maxMemory (proc str_store) = 0" "tidy (db test_env str_store)"
    using x refines_good [OF r init_tidy keeps_set]
    by (simp_all add: str_store_def good_def) (simp add: init_store_def)
qed

lemma list_facts: "store_inv test_env list_store" "view test_env 500 list_store = [''k'' \<mapsto> (VList [''a'', ''b'', ''c''], 0)]" "maxMemory (proc list_store) = 0" "tidy (db test_env list_store)"
proof -
  have r: "refines_key test_env 500 ''k'' (spec_push 0 ''k'' [''a'', ''b'', ''c''] False) (init_store 0) [] (cmdPush test_env 500 [''RPUSH'', ''k'', ''a'', ''b'', ''c''] False (init_store 0) [])"
    using cmdPush_ok [OF test_env_ok(2) test_store_inv(1) [of 0], of "[''RPUSH'', ''k'', ''a'', ''b'', ''c'']" 500 False "[]"] init_facts(3) by (simp add: init_store_def)
  have s: "spec_push 0 ''k'' [''a'', ''b'', ''c''] False None = (addInt [] 3, Some (VList [''a'', ''b'', ''c''], 0))"
    by (simp add: spec_push_def too_big_def)
  note x = refines_exact [OF r init_facts(1), unfolded init_facts(2) s]
  show "store_inv test_env list_store" "view test_env 500 list_store = [''k'' \<mapsto> (VList [''a'', ''b'', ''c''], 0)]" "maxMemory (proc list_store) = 0" "tidy (db test_env list_store)"
    using x refines_good [OF r init_tidy keeps_push]
    by (simp_all add: list_store_def good_def) (simp add: init_store_def)
qed

lemma hash_facts: "store_inv test_env hash_store" "view test_env 500 hash_store = [''k'' \<mapsto> (VHash [''f'' \<mapsto> ''1''], 0)]" "maxMemory (proc hash_store) = 0" "tidy (db test_env hash_store)"
proof -
  have r: "refines_key test_env 500 ''k'' (spec_hset 0 ''k'' [''f'', ''1'']) (init_store 0) [] (cmdHset test_env 500 [''HSET'', ''k'', ''f'', ''1''] (init_store 0) [])"
    using cmdHset_ok [OF test_env_ok(2) test_store_inv(1) [of 0], of "[''HSET'', ''k'', ''f'', ''1'']" 500 "[]"] init_facts(3) by (simp add: init_store_def)
  have s: "spec_hset 0 ''k'' [''f'', ''1''] None = (addInt [] 1, Some (VHash [''f'' \<mapsto> ''1''], 0))"
    by (simp add: spec_hset_def too_big_def)
  note x = refines_exact [OF r init_facts(1), unfolded init_facts(2) s]
  show "store_inv test_env hash_store" "view test_env 500 hash_store = [''k'' \<mapsto> (VHash [''f'' \<mapsto> ''1''], 0)]" "maxMemory (proc hash_store) = 0" "tidy (db test_env hash_store)"
    using x refines_good [OF r init_tidy keeps_hset]
    by (simp_all add: hash_store_def good_def) (simp add: init_store_def)
qed

lemma parse_itoa: "in64 n \<Longrightarrow> itoa n = b \<Longrightarrow> parseInt b = Some n"
  using parseInt_itoa by auto

lemma small_numbers: "itoa 1 = ''1''" "itoa 2 = ''2''" "itoa 7 = ''7''" "itoa 10 = ''10''" "in64 1" "in64 2" "in64 7"
proof -
  show "itoa 1 = ''1''" "itoa 2 = ''2''" "itoa 7 = ''7''" "itoa 10 = ''10''" by code_simp+
  show "in64 1" "in64 2" "in64 7" by (simp_all add: in64_def minInt64_def maxInt64_def)
qed

section \<open>Commands on one key\<close>







text \<open>\<^bold>\<open>C10\<close> \<open>APPEND\<close> extends the value in place, in a fresh item or in a new key, and in each case what is stored
  afterwards is the old value followed by the argument, with the expiry time kept, and the reply is the new
  length; the sum of the lengths must fit the 32-bit length field.\<close>

theorem append_concatenates:
  assumes "rand_ok e" "store_inv e d" "length (a ! 1) < 2 ^ 32" "length (a ! 2) < 2 ^ 32"
    and "\<And>old t. view e now d (a ! 1) = Some (VStr old, t) \<Longrightarrow> length old + length (a ! 2) < 2 ^ 32"
  shows "refines_key e now (a ! 1) (spec_append (maxMemory (proc d)) (a ! 1) (a ! 2)) d out (cmdAppend e now a d out)"
  by (rule cmdAppend_ok [OF assms])

theorem append_concatenates_witness:
  "view test_env 500 (fst (cmdAppend test_env 500 [''APPEND'', ''k'', ''xy''] str_store [])) = [''k'' \<mapsto> (VStr ''7xy'', 0)]"
proof -
  have r: "refines_key test_env 500 ''k'' (spec_append 0 ''k'' ''xy'') str_store [] (cmdAppend test_env 500 [''APPEND'', ''k'', ''xy''] str_store [])"
    using append_concatenates [OF test_env_ok(2) str_facts(1), of "[''APPEND'', ''k'', ''xy'']" 500 "[]"] str_facts(2,3) by simp
  show ?thesis using refines_exact(3) [OF r, unfolded str_facts(2)] str_facts(3) by (simp add: spec_append_def too_big_def)
qed



text \<open>\<^bold>\<open>C11\<close> Lists. Pushing adds the values one by one at the chosen end and answers the new length; popping removes up
  to the requested number of elements from the chosen end, answers them in order, and deletes the key when the
  list is empty; bad counts, wrong types and the memory limit are errors that change nothing.\<close>

theorem push_pop_ok:
  assumes "rand_ok e" "store_inv e d" "tidy (db e d)" "length (a ! 1) < 2 ^ 32" "room_ok e d"
  shows "refines_key e now (a ! 1) (spec_push (maxMemory (proc d)) (a ! 1) (drop 2 a) front) d out (cmdPush e now a front d out)
    \<and> refines_key e now (a ! 1) (spec_pop_args a front) d out (cmdPop e now a front d out)"
proof -
  have "view e now d (a ! 1) \<noteq> Some (VList [], t)" for t
    using tidy_view [OF assms(3), of now] unfolding tidy_def by (metis tidy_simps(2))
  then show ?thesis by (intro conjI cmdPush_ok cmdPop_ok assms room_objs [OF assms(5)])
qed

lemma room_init: "room_ok test_env (init_store 0)"
  using test_store_inv(2) [of 0] by (simp add: room_ok_def init_store_def objs_room_def init_shard_def)

theorem push_pop_ok_witness:
  "view test_env 500 (fst (cmdPush test_env 500 [''LPUSH'', ''k'', ''a'', ''b''] True (init_store 0) [])) = [''k'' \<mapsto> (VList [''b'', ''a''], 0)]"
proof -
  have r: "refines_key test_env 500 ''k'' (spec_push 0 ''k'' [''a'', ''b''] True) (init_store 0) [] (cmdPush test_env 500 [''LPUSH'', ''k'', ''a'', ''b''] True (init_store 0) [])"
    using push_pop_ok [OF test_env_ok(2) test_store_inv(1) [of 0] init_tidy _ room_init, of "[''LPUSH'', ''k'', ''a'', ''b'']" 500 True "[]"]
    by (simp add: init_store_def)
  show ?thesis using refines_exact(3) [OF r init_facts(1), unfolded init_facts(2)] by (simp add: spec_push_def too_big_def)
qed



text \<open>\<open>HGETALL\<close> answers every field with its value exactly once, in whatever order Go ranges over the map, and
  changes nothing a client can see.\<close>

theorem hgetall_complete:
  assumes "store_inv e d" "order_ok e" "cmdHgetall e now a d out = (d', out')"
  shows "view e now d' = view e now d \<and> store_inv e d' \<and>
    (case view e now d (a ! 1) of
       None \<Rightarrow> out' = out @ addArr [] 0
     | Some (VHash m, t) \<Rightarrow> \<exists>items. distinct (map fst items) \<and> map_of items = m \<and> out' = out @ hgetall_reply items
     | _ \<Rightarrow> out' = out @ addErr [] errWrongType)"
  using cmdHgetall_ok [OF assms] by (simp add: became_def)

lemma test_order: "order_ok test_env"
  by (simp add: order_ok_def test_env_def)

theorem hgetall_complete_witness:
  "\<exists>items. map_of items = [''f'' \<mapsto> ''1''] \<and> snd (cmdHgetall test_env 500 [''HGETALL'', ''k''] hash_store []) = hgetall_reply items"
  using hgetall_complete [OF hash_facts(1) test_order, of 500 "[''HGETALL'', ''k'']" "[]"] hash_facts(2)
  by (cases "cmdHgetall test_env 500 [''HGETALL'', ''k''] hash_store []") auto

section \<open>Commands on many keys\<close>

text \<open>\<^bold>\<open>C13\<close> Commands on several keys: \<open>DEL\<close> removes exactly the given keys and counts those that were visible, each
  once; \<open>EXISTS\<close> counts the given keys that are visible, repetitions included; \<open>MGET\<close> answers one value per key in
  order, null for absent keys and for other types; \<open>MSET\<close> sets every pair from left to right.\<close>

theorem many_keys_ok:
  assumes "rand_ok e" "store_inv e d"
  shows "became e now d ((view e now d) |` (- set ks)) (fst (cmdDel e now (name # ks) d out))
    \<and> snd (cmdDel e now (name # ks) d out) = addInt out (int (card (set ks \<inter> dom (view e now d))))
    \<and> became e now d (view e now d) (fst (cmdExists e now (name # ks) d out))
    \<and> snd (cmdExists e now (name # ks) d out) = addInt out (int (length (filter (\<lambda>k. view e now d k \<noteq> None) ks)))
    \<and> became e now d (view e now d) (fst (cmdMget e now (name # ks) d out))
    \<and> snd (cmdMget e now (name # ks) d out) = addArr out (length ks) @ concat (map (\<lambda>k. mget_reply (view e now d k)) ks)
    \<and> (even (length ks) \<and> (\<forall>b \<in> set ks. length b < 2 ^ 32) \<and> (maxMemory (proc d) > 0 \<longrightarrow> mset_total ks \<le> maxMemory (proc d)) \<longrightarrow>
        outcome e now (every 2 ks) d (set_pairs (view e now d) ks) (fst (cmdMset e now (name # ks) d out))
        \<and> snd (cmdMset e now (name # ks) d out) = addOK out)"
proof -
  note inv = assms(2)
  have tl: "drop 1 (name # ks) = ks" by (simp add: One_nat_def)
  have h: "fst (lockKeys e ks 1) = map (hashKey e) ks" "fst (lockKeys e ks 2) = map (hashKey e) (every 2 ks)"
    by (simp_all add: lockKeys_hashes every_1)
  obtain d1 n1 where dl: "del_keys e now ks (map (hashKey e) ks) d 0 = (d1, n1)" by fastforce
  obtain d2 n2 where ex: "exists_keys e now ks (map (hashKey e) ks) d 0 = (d2, n2)" by fastforce
  obtain d3 o3 where mg: "mget_loop e now ks (map (hashKey e) ks) d (addArr out (length ks)) = (d3, o3)" by fastforce
  note D = del_keys_ok [OF inv dl] and E = exists_keys_ok [OF inv ex] and M = mget_loop_ok [OF inv mg]
  have cd: "cmdDel e now (name # ks) d out = (d1, addInt out (int n1))" using dl h(1) by (cases "lockKeys e ks 1") (simp add: cmdDel_def Let_def tl)
  have ce: "cmdExists e now (name # ks) d out = (d2, addInt out (int n2))" using ex h(1) by (cases "lockKeys e ks 1") (simp add: cmdExists_def Let_def tl)
  have cm: "cmdMget e now (name # ks) d out = (d3, o3)" using mg h(1) by (cases "lockKeys e ks 1") (simp add: cmdMget_def Let_def tl)
  have ms: "outcome e now (every 2 ks) d (set_pairs (view e now d) ks) (fst (cmdMset e now (name # ks) d out)) \<and> snd (cmdMset e now (name # ks) d out) = addOK out"
    if ev: "even (length ks)" and len: "\<forall>b \<in> set ks. length b < 2 ^ 32" and mx: "maxMemory (proc d) > 0 \<longrightarrow> mset_total ks \<le> maxMemory (proc d)"
  proof -
    let ?d1 = "mset_loop e now ks (map (hashKey e) (every 2 ks)) d"
    have c: "cmdMset e now (name # ks) d out = (if maxMemory (proc d) > 0 then afterWrite e (every 2 ks) ?d1 else ?d1, addOK out)"
      using h(2) ev mx by (cases "lockKeys e ks 2") (auto simp: cmdMset_def Let_def tl)
    note b = mset_loop_ok [OF inv len ev, of now]
    show ?thesis unfolding c using afterWrite_outcome [OF assms(1) b] outcome_exact [OF b] by simp
  qed
  show ?thesis using D E M ms by (simp add: cd ce cm)
qed

theorem many_keys_ok_witness: "snd (cmdDel test_env 500 [''DEL'', ''k'', ''x'', ''k''] str_store []) = addInt [] 1"
  using many_keys_ok [OF test_env_ok(2) str_facts(1), of 500 "[''k'', ''x'', ''k'']" "''DEL''" "[]"] str_facts(2) by simp

text \<open>\<^bold>\<open>C16\<close> The keyspace as a whole. \<open>KEYS\<close> answers each visible key that matches the pattern exactly once; the counters
  that \<open>DBSIZE\<close> and \<open>INFO\<close> add up are the number of stored keys, the number of those with an expiry time and the sum
  of what the entries cost, whatever history led to the store.\<close>

theorem keyspace_queries_ok:
  assumes "store_inv e d"
  shows "(\<exists>ks. distinct ks \<and> set ks = {k \<in> dom (view e now d). globMatch pat k}
      \<and> cmdKeys e now [name, pat] d out = (d, addArr out (length ks) @ concat (map bulk ks)))
    \<and> cmdDbsize d out = (d, addInt out (int (card (dom (db e d)))))
    \<and> (\<Sum>s \<leftarrow> shards d. nexp s) = int (card (expiring (db e d)))
    \<and> (\<Sum>s \<leftarrow> shards d. used s) = (\<Sum>k \<in> dom (db e d). entry_cost k (the (db e d k)))"
proof (intro conjI counters_exact [OF assms])
  have "[name, pat] ! 1 = pat" by (simp add: One_nat_def)
  then show "\<exists>ks. distinct ks \<and> set ks = {k \<in> dom (view e now d). globMatch pat k}
      \<and> cmdKeys e now [name, pat] d out = (d, addArr out (length ks) @ concat (map bulk ks))"
    using keys_ok [OF assms refl, of now pat] unfolding cmdKeys_def Let_def foldl_addBulk append_Nil by metis
  show "cmdDbsize d out = (d, addInt out (int (card (dom (db e d)))))" using counters_exact(1) [OF assms] by (simp add: cmdDbsize_def)
qed

theorem keyspace_queries_ok_witness:
  "\<exists>ks. set ks = {''k''} \<and> cmdKeys test_env 500 [''KEYS'', ''*''] str_store [] = (str_store, addArr [] (length ks) @ concat (map bulk ks))"
proof -
  have g: "globMatch ''*'' ''k''" by code_simp
  have "{k \<in> dom [''k'' \<mapsto> (VStr ''7'', 0::int)]. globMatch ''*'' k} = {''k''}" using g by auto
  then show ?thesis using keyspace_queries_ok [OF str_facts(1), of 500 "''*''" "''KEYS''" "[]"] str_facts(2) by auto
qed

section \<open>Locking\<close>

text \<open>A goroutine that works on several keys takes the locks of their shards one after the other: \<open>held p\<close> is how
  many of \<open>locks p\<close> goroutine \<open>p\<close> has taken so far.\<close>

lemma sorted_take_less: "sorted_wrt (<) (ls::nat list) \<Longrightarrow> k < length ls \<Longrightarrow> x \<in> set (take k ls) \<Longrightarrow> x < ls ! k"
  by (auto simp: in_set_conv_nth sorted_wrt_iff_nth_less)

lemma no_cycle:
  assumes fin: "finite P" "P \<noteq> {}" and srt: "\<And>p. p \<in> P \<Longrightarrow> sorted_wrt (<) (locks p :: nat list)"
  shows "\<exists>p \<in> P. length (locks p) \<le> held p \<or> (\<forall>q \<in> P. locks p ! held p \<notin> set (take (held q) (locks q)))"
proof (rule ccontr)
  assume "\<not> ?thesis"
  then have w: "held p < length (locks p)" "\<exists>q \<in> P. locks p ! held p \<in> set (take (held q) (locks q))" if "p \<in> P" for p
    using that by (auto simp: not_le)
  let ?w = "\<lambda>p. locks p ! held p"
  have im: "finite (?w ` P)" "?w ` P \<noteq> {}" using fin by simp_all
  from Max_in [OF im] obtain p where pm: "p \<in> P" "Max (?w ` P) = ?w p" by (rule imageE)
  have p: "p \<in> P" "?w q \<le> ?w p" if "q \<in> P" for q using pm Max_ge [OF im(1) imageI [OF that]] by simp_all
  from w(2) [OF pm(1)] obtain q where q: "q \<in> P" "?w p \<in> set (take (held q) (locks q))" by blast
  have "?w p < ?w q" by (rule sorted_take_less [OF srt [OF q(1)] w(1) [OF q(1)] q(2)])
  then show False using p(2) [OF q(1)] by simp
qed

text \<open>\<^bold>\<open>C17\<close> Commands on several keys cannot deadlock. \<open>lockKeys\<close> determines a strictly ascending list of the shards of the
  keys, each shard once; so whenever several such commands hold prefixes of their lists, one of them either has all
  its locks or waits for a lock that none of them holds.\<close>

theorem lock_order_no_deadlock:
  assumes "finite P" "P \<noteq> {}"
  shows "(\<forall>p. sorted_wrt (<) (snd (lockKeys e (keys p) (step p)))
        \<and> set (snd (lockKeys e (keys p) (step p))) = (\<lambda>k. shard_idx (hashKey e k)) ` set (every (step p) (keys p)))
    \<and> (\<exists>p \<in> P. length (snd (lockKeys e (keys p) (step p))) \<le> held p
        \<or> (\<forall>q \<in> P. snd (lockKeys e (keys p) (step p)) ! held p \<notin> set (take (held q) (snd (lockKeys e (keys q) (step q))))))"
  using no_cycle [OF assms, of "\<lambda>p. snd (lockKeys e (keys p) (step p))" held] lockKeys_sorted by blast

theorem lock_order_no_deadlock_witness:
  "\<exists>p \<in> {0, 1::nat}. length (snd (lockKeys test_env [''a'', ''b''] 1)) \<le> p
    \<or> (\<forall>q \<in> {0, 1::nat}. snd (lockKeys test_env [''a'', ''b''] 1) ! p \<notin> set (take q (snd (lockKeys test_env [''a'', ''b''] 1))))"
  using lock_order_no_deadlock [of "{0, 1::nat}" test_env "\<lambda>_. [''a'', ''b'']" "\<lambda>_. 1" "\<lambda>p. p"] by blast

end
