(* ===== verification/Search_Varint.thy ===== *)
theory Search_Varint
  imports Go_Prelude "HOL-Library.Word"
begin

text \<open>
  The variable-length integers of the search engine (\<open>search/impl/go-1/common.go\<close>): writing and reading one,
  and skipping many of them eight bytes at a time. Reading past the end of a slice panics in Go and is \<open>None\<close>
  here. The lemmas show that reading inverts writing and that the fast skip is the plain one.
\<close>

unbundle bit_operations_syntax

declare bit_numeral_word_iff [simp del]

section \<open>Suffixes\<close>

lemma drop_more: "drop i b = xs @ ys \<Longrightarrow> drop (i + length xs) b = ys"
  by (metis add.commute append_eq_conv_conj drop_drop)

lemma drop_less: "drop i b = x # xs \<Longrightarrow> i < length b \<and> b ! i = x \<and> drop (i + 1) b = xs"
proof -
  assume d: "drop i b = x # xs"
  have "i < length b" using d by (cases "i < length b") auto
  then show ?thesis using d drop_more [of i b "[x]" xs] by (simp add: Cons_nth_drop_Suc [symmetric])
qed

section \<open>Writing and reading\<close>

definition byte_of :: "64 word \<Rightarrow> byte" where
  "byte_of v = char_of (unat (v AND 0xFF))"

function putUvarint :: "bytes \<Rightarrow> 64 word \<Rightarrow> bytes" where
  "putUvarint b v = (if v \<ge> 0x80 then putUvarint (b @ [byte_of (v OR 0x80)]) (drop_bit 7 v) else b @ [byte_of v])"
  by pat_completeness auto
termination
proof (relation "measure (\<lambda>(b, v). unat v)")
  fix b and v :: "64 word" assume "0x80 \<le> v"
  then have "128 \<le> unat v" by (simp add: word_le_nat_alt)
  then have "unat v div 128 < unat v" by simp
  then show "((b @ [byte_of (v OR 0x80)], drop_bit 7 v), b, v) \<in> measure (\<lambda>(b, v). unat v)"
    by (simp add: drop_bit_eq_div unat_div)
qed simp

declare putUvarint.simps [simp del]

function uvarint_loop :: "bytes \<Rightarrow> nat \<Rightarrow> 64 word \<Rightarrow> nat \<Rightarrow> (64 word \<times> nat) option" where
  "uvarint_loop b i v s =
     (if i \<ge> length b then None
      else if bval (b ! i) < 0x80 then Some (v OR push_bit s (of_nat (bval (b ! i))), i + 1)
      else uvarint_loop b (i + 1) (v OR push_bit s (of_nat (bval (b ! i)) AND 0x7F)) (s + 7))"
  by pat_completeness auto
termination by (relation "measure (\<lambda>(b, i, v, s). length b - i)") auto

declare uvarint_loop.simps [simp del]

definition uvarint :: "bytes \<Rightarrow> nat \<Rightarrow> (64 word \<times> nat) option" where
  "uvarint b i =
     (if i \<ge> length b then None
      else if bval (b ! i) < 0x80 then Some (of_nat (bval (b ! i)), i + 1)
      else uvarint_loop b (i + 1) (of_nat (bval (b ! i)) AND 0x7F) 7)"

section \<open>Skipping\<close>

text \<open>\<open>binary.LittleEndian.Uint64\<close> and \<open>bits.OnesCount64\<close>.\<close>

fun le_word :: "bytes \<Rightarrow> 64 word" where
  "le_word [] = 0"
| "le_word (c # cs) = of_nat (bval c) OR push_bit 8 (le_word cs)"

definition onesCount :: "64 word \<Rightarrow> nat" where
  "onesCount w = length (filter (bit w) [0..<64])"

function skip_words :: "bytes \<Rightarrow> nat \<Rightarrow> int \<Rightarrow> nat \<times> int" where
  "skip_words b i n =
     (if n \<ge> 8 \<and> i + 8 \<le> length b then
        let w = le_word (take 8 (drop i b)); c = onesCount (NOT w AND 0x8080808080808080)
        in if int c \<ge> n then (i, n) else skip_words b (i + 8) (n - int c)
      else (i, n))"
  by pat_completeness auto
termination by (relation "measure (\<lambda>(b, i, n). length b - i)") auto

declare skip_words.simps [simp del]

function skip_bytes :: "bytes \<Rightarrow> nat \<Rightarrow> int \<Rightarrow> nat option" where
  "skip_bytes b i n =
     (if n > 0 then
        if i \<ge> length b then None else skip_bytes b (i + 1) (if bval (b ! i) < 0x80 then n - 1 else n)
      else Some i)"
  by pat_completeness auto
termination by (relation "measure (\<lambda>(b, i, n). length b - i)") auto

declare skip_bytes.simps [simp del]

definition skipVarints :: "bytes \<Rightarrow> nat \<Rightarrow> int \<Rightarrow> nat option" where
  "skipVarints b i n = (let (j, m) = skip_words b i n in skip_bytes b j m)"

section \<open>Hashing\<close>

definition numBuckets :: nat where "numBuckets = 16"

definition termBucket :: "bytes \<Rightarrow> nat" where
  "termBucket t =
     (let h = foldl (\<lambda>h c. (h XOR of_nat (bval c)) * 1099511628211) (14695981039346656037 :: 64 word) t
      in unat h mod numBuckets)"

section \<open>Reading inverts writing\<close>

definition enc :: "64 word \<Rightarrow> bytes" where
  "enc v = putUvarint [] v"

lemma put_big: "v \<ge> 0x80 \<Longrightarrow> putUvarint b v = putUvarint (b @ [byte_of (v OR 0x80)]) (drop_bit 7 v)"
  by (rule trans [OF putUvarint.simps]) (simp only: if_True)

lemma put_small: "\<not> v \<ge> 0x80 \<Longrightarrow> putUvarint b v = b @ [byte_of v]"
  by (rule trans [OF putUvarint.simps]) (simp only: if_False)

lemma put_prefix: "putUvarint (x @ b) v = x @ putUvarint b v"
proof (induction b v rule: putUvarint.induct)
  case (1 b v)
  show ?case
  proof (cases "v \<ge> 0x80")
    case True
    show ?thesis unfolding put_big [OF True] append_assoc by (rule "1.IH" [OF True])
  next
    case False
    show ?thesis unfolding put_small [OF False] append_assoc ..
  qed
qed

lemma putUvarint_append: "putUvarint b v = b @ enc v"
  using put_prefix [of b "[]"] by (simp add: enc_def)

lemma enc_big: "v \<ge> 0x80 \<Longrightarrow> enc v = byte_of (v OR 0x80) # enc (drop_bit 7 v)"
proof -
  assume "v \<ge> 0x80"
  then have "enc v = putUvarint [byte_of (v OR 0x80)] (drop_bit 7 v)" unfolding enc_def by (rule trans [OF put_big]) simp
  then show ?thesis unfolding putUvarint_append by simp
qed

lemma enc_small: "\<not> v \<ge> 0x80 \<Longrightarrow> enc v = [byte_of v]"
  unfolding enc_def by (rule trans [OF put_small]) simp_all

lemma enc_nonempty: "enc v \<noteq> []"
  by (cases "v \<ge> 0x80") (simp_all add: enc_big enc_small)

lemma masks: "(0xFF :: 64 word) = mask 8" "(0x7F :: 64 word) = mask 7"
  by (simp_all add: mask_eq_exp_minus_1)

lemma bval_byte_of: "bval (byte_of v) = unat (v AND 0xFF)"
proof -
  have "unat (v AND 0xFF) < 256" unfolding masks take_bit_eq_mask [symmetric] unsigned_take_bit_eq by (simp add: take_bit_eq_mod)
  then show ?thesis by (simp add: byte_of_def bval_eq_char_of)
qed

lemma of_nat_byte_of [simp]: "of_nat (bval (byte_of v)) = v AND 0xFF"
  by (simp add: bval_byte_of)

lemma bit_lits: "bit (0xFF :: 64 word) n \<longleftrightarrow> n < 8" "bit (0x7F :: 64 word) n \<longleftrightarrow> n < 7" "bit (0x80 :: 64 word) n \<longleftrightarrow> n = 7"
proof -
  show "bit (0xFF :: 64 word) n \<longleftrightarrow> n < 8" "bit (0x7F :: 64 word) n \<longleftrightarrow> n < 7" unfolding masks by (auto simp: bit_mask_iff)
  have m: "(0x80 :: 64 word) = push_bit 7 1" by simp
  show "bit (0x80 :: 64 word) n \<longleftrightarrow> n = 7" unfolding m bit_push_bit_iff bit_1_iff by auto
qed

lemma small_bits: "v < 0x80 \<Longrightarrow> bit (v :: 64 word) n \<Longrightarrow> n < 7"
proof (rule ccontr)
  assume v: "v < 0x80" "bit v n" "\<not> n < 7"
  have "unat v < 2 ^ 7" using v(1) by (simp add: word_less_nat_alt)
  then have "take_bit 7 (unat v) = unat v" by (rule take_bit_nat_eq_self)
  then have "take_bit 7 v = v" by (metis unsigned_take_bit_eq unsigned_word_eqI)
  then show False using v(2,3) by (metis bit_take_bit_iff)
qed

lemma byte_high: "v \<ge> 0x80 \<Longrightarrow> \<not> bval (byte_of (v OR 0x80)) < 0x80"
proof -
  have "bit (unat ((v OR 0x80) AND 0xFF)) 7" by (simp add: bit_unsigned_iff bit_and_iff bit_or_iff bit_lits)
  then have "2 ^ 7 \<le> unat ((v OR 0x80) AND 0xFF)" by (metis bit_take_bit_iff less_irrefl not_le take_bit_nat_eq_self)
  then show ?thesis by (simp add: bval_byte_of)
qed

lemma byte_low: "v < 0x80 \<Longrightarrow> bval (byte_of v) = unat v" for v :: "64 word"
proof -
  assume v: "v < 0x80"
  have "v AND 0xFF = v" by (rule bit_word_eqI) (use small_bits [OF v] in \<open>fastforce simp: bit_and_iff bit_lits\<close>)
  then show ?thesis by (simp add: bval_byte_of)
qed

lemma drop7_less: "v \<ge> 0x80 \<Longrightarrow> unat (drop_bit 7 v) < unat (v :: 64 word)"
proof -
  assume "v \<ge> 0x80"
  then have "128 \<le> unat v" by (simp add: word_le_nat_alt)
  then show ?thesis by (simp add: drop_bit_eq_div unat_div)
qed

lemma byte_last: "\<not> v \<ge> 0x80 \<Longrightarrow> bval (byte_of v) < 0x80 \<and> v AND 0xFF = (v :: 64 word)"
proof -
  assume v: "\<not> v \<ge> 0x80"
  then have lt: "v < 0x80" by simp
  then have "bval (byte_of v) = unat v" "unat v < 128" using byte_low [OF lt] by (simp_all add: word_less_nat_alt)
  then show ?thesis using bval_byte_of [of v] by (auto intro: unsigned_word_eqI)
qed

lemma enc_bytes: "enc v = xs @ [c] \<Longrightarrow> (\<forall>x \<in> set xs. bval x \<ge> 0x80) \<and> bval c < 0x80"
proof (induction v arbitrary: xs rule: measure_induct_rule [of unat])
  case (less v)
  show ?case
  proof (cases "v \<ge> 0x80")
    case True
    then have e: "xs @ [c] = byte_of (v OR 0x80) # enc (drop_bit 7 v)" using less.prems by (simp add: enc_big)
    then obtain ys where y: "xs = byte_of (v OR 0x80) # ys" "enc (drop_bit 7 v) = ys @ [c]" using enc_nonempty [of "drop_bit 7 v"] by (cases xs) auto
    from less.IH [OF drop7_less [OF True] y(2)] byte_high [OF True] show ?thesis by (auto simp: y(1))
  next
    case False
    then show ?thesis using less.prems byte_last [OF False] by (simp add: enc_small)
  qed
qed

lemma low_high: "acc OR push_bit s v = (acc OR push_bit s (v AND 0x7F)) OR push_bit (s + 7) (drop_bit 7 v)" for v :: "64 word"
proof (rule bit_word_eqI)
  fix n assume n: "n < LENGTH(64)"
  consider "n < s" | "s \<le> n" "n < s + 7" | "s + 7 \<le> n" by linarith
  then show "bit (acc OR push_bit s v) n = bit ((acc OR push_bit s (v AND 0x7F)) OR push_bit (s + 7) (drop_bit 7 v)) n"
  proof cases
    case 3
    then have "7 + (n - (s + 7)) = n - s" by simp
    then show ?thesis using 3 n by (simp add: bit_or_iff bit_push_bit_iff bit_and_iff bit_lits bit_drop_bit_eq) arith
  qed (use n in \<open>auto simp: bit_or_iff bit_push_bit_iff bit_and_iff bit_lits bit_drop_bit_eq\<close>)
qed

lemma low_byte: "(v OR 0x80) AND 0xFF AND 0x7F = v AND 0x7F" for v :: "64 word"
  by (rule bit_word_eqI) (auto simp: bit_and_iff bit_or_iff bit_lits)

lemma uvarint_loop_enc: "drop i b = enc v @ rest \<Longrightarrow> uvarint_loop b i acc s = Some (acc OR push_bit s v, i + length (enc v))"
proof (induction v arbitrary: i acc s rule: measure_induct_rule [of unat])
  case (less v)
  have i: "i < length b" using less.prems enc_nonempty [of v] by (cases "i < length b") auto
  show ?case
  proof (cases "v \<ge> 0x80")
    case True
    then have d: "drop i b = byte_of (v OR 0x80) # enc (drop_bit 7 v) @ rest" using less.prems by (simp add: enc_big)
    then have b: "b ! i = byte_of (v OR 0x80)" "drop (i + 1) b = enc (drop_bit 7 v) @ rest"
      using i by (simp_all add: Cons_nth_drop_Suc [symmetric])
    note IH = less.IH [OF drop7_less [OF True] b(2), of "acc OR push_bit s ((v OR 0x80) AND 0xFF AND 0x7F)" "s + 7"]
    have "uvarint_loop b i acc s = uvarint_loop b (i + 1) (acc OR push_bit s ((v OR 0x80) AND 0xFF AND 0x7F)) (s + 7)"
      by (subst uvarint_loop.simps) (use i byte_high [OF True] in \<open>simp add: b(1) and.assoc\<close>)
    also have "\<dots> = Some (acc OR push_bit s v, i + 1 + length (enc (drop_bit 7 v)))"
      by (rule trans [OF IH]) (simp only: low_byte low_high [of acc s v, symmetric])
    finally show ?thesis by (simp add: enc_big [OF True])
  next
    case False
    then have d: "drop i b = byte_of v # rest" using less.prems by (simp add: enc_small)
    then have b: "b ! i = byte_of v" using i by (simp add: Cons_nth_drop_Suc [symmetric])
    show ?thesis by (subst uvarint_loop.simps) (use i byte_last [OF False] in \<open>simp add: b enc_small [OF False]\<close>)
  qed
qed

lemma uvarint_enc:
  assumes d: "drop i b = enc v @ rest"
  shows "uvarint b i = Some (v, i + length (enc v))"
proof -
  have "uvarint b i = uvarint_loop b i 0 0" by (simp add: uvarint_def uvarint_loop.simps [of b i])
  then show ?thesis using uvarint_loop_enc [OF d, of 0 0] by simp
qed

section \<open>Eight bytes at a time\<close>

lemma bit_le_word_Cons: "bit (le_word (c # cs)) n \<longleftrightarrow> n < 8 \<and> bit (bval c) n \<or> 8 \<le> n \<and> n < 64 \<and> bit (le_word cs) (n - 8)"
proof -
  have "n < 8" if "bit (bval c) n"
  proof (rule ccontr)
    assume "\<not> n < 8"
    moreover have "take_bit 8 (bval c) = bval c" by (rule take_bit_nat_eq_self) simp
    ultimately show False using that by (metis bit_take_bit_iff)
  qed
  then show ?thesis by (auto simp: bit_or_iff bit_push_bit_iff bit_of_nat_iff)
qed

lemma bit7_byte: "bit (bval c) 7 \<longleftrightarrow> \<not> bval c < 0x80"
proof -
  have "bit (bval c) 7 \<longleftrightarrow> odd (bval c div 128)" by (simp add: bit_iff_odd)
  moreover have "bval c div 128 = (if bval c < 128 then 0 else 1)"
    using bval_less_256 [of c] by (auto simp: div_nat_eqI)
  ultimately show ?thesis by simp
qed

lemma high_bits: "filter (bit (0x8080808080808080 :: 64 word)) [0..<64] = [7, 15, 23, 31, 39, 47, 55, 63]"
  by code_simp

lemma ones_terminators:
  assumes "length cs = 8"
  shows "onesCount (NOT (le_word cs) AND 0x8080808080808080) = length (filter (\<lambda>c. bval c < 0x80) cs)"
proof -
  have c: "\<exists>x ys. zs = x # ys \<and> length ys = n" if "length zs = Suc n" for zs :: bytes and n
    using that by (cases zs) auto
  obtain c0 c1 c2 c3 c4 c5 c6 c7 where cs: "cs = [c0, c1, c2, c3, c4, c5, c6, c7]"
    using assms c [of cs 7] c [of _ 6] c [of _ 5] c [of _ 4] c [of _ 3] c [of _ 2] c [of _ 1] c [of _ 0] by (auto simp: length_Suc_conv numeral_eq_Suc)
  have "filter (bit (NOT (le_word cs) AND 0x8080808080808080)) [0..<64] = filter (\<lambda>n. \<not> bit (le_word cs) n) (filter (bit (0x8080808080808080 :: 64 word)) [0..<64])"
    unfolding filter_filter by (rule filter_cong) (auto simp: bit_and_iff bit_not_iff)
  then have o: "onesCount (NOT (le_word cs) AND 0x8080808080808080) = length (filter (\<lambda>n. \<not> bit (le_word cs) n) [7, 15, 23, 31, 39, 47, 55, 63])"
    unfolding onesCount_def high_bits by simp
  show ?thesis unfolding o unfolding cs by (simp add: bit_le_word_Cons bit7_byte del: le_word.simps)
qed

lemma skip_bytes_run:
  "int (length (filter (\<lambda>c. bval c < 0x80) (take m (drop i b)))) < n \<Longrightarrow> i + m \<le> length b \<Longrightarrow>
     skip_bytes b i n = skip_bytes b (i + m) (n - int (length (filter (\<lambda>c. bval c < 0x80) (take m (drop i b)))))"
proof (induction m arbitrary: i n)
  case (Suc m)
  have d: "drop i b = b ! i # drop (Suc i) b" using Suc.prems(2) by (simp add: Cons_nth_drop_Suc)
  let ?n = "if bval (b ! i) < 0x80 then n - 1 else n"
  have "skip_bytes b i n = skip_bytes b (i + 1) ?n" using Suc.prems by (subst skip_bytes.simps) auto
  also have "\<dots> = skip_bytes b (i + 1 + m) (?n - int (length (filter (\<lambda>c. bval c < 0x80) (take m (drop (i + 1) b)))))"
    using Suc.prems by (intro Suc.IH) (auto simp: d split: if_splits)
  finally show ?case by (simp add: d diff_diff_eq)
qed simp

lemma skip_words_bytes: "skip_words b i n = (j, m) \<Longrightarrow> skip_bytes b i n = skip_bytes b j m"
proof (induction b i n rule: skip_words.induct)
  case (1 b i n)
  let ?c = "onesCount (NOT (le_word (take 8 (drop i b))) AND 0x8080808080808080)"
  show ?case
  proof (cases "n \<ge> 8 \<and> i + 8 \<le> length b \<and> \<not> int ?c \<ge> n")
    case True
    have c: "?c = length (filter (\<lambda>c. bval c < 0x80) (take 8 (drop i b)))" using True by (intro ones_terminators) auto
    have "skip_words b (i + 8) (n - int ?c) = (j, m)" using "1.prems" True by (subst (asm) skip_words.simps) simp
    then have "skip_bytes b (i + 8) (n - int ?c) = skip_bytes b j m" using "1.IH" True by simp
    moreover have "skip_bytes b i n = skip_bytes b (i + 8) (n - int ?c)" unfolding c using True c by (intro skip_bytes_run) auto
    ultimately show ?thesis by simp
  next
    case False
    then have "skip_words b i n = (i, n)" by (subst skip_words.simps) (auto simp: Let_def)
    then show ?thesis using "1.prems" by simp
  qed
qed

lemma skipVarints_bytes: "skipVarints b i n = skip_bytes b i n"
proof -
  obtain j m where "skip_words b i n = (j, m)" by fastforce
  then show ?thesis using skip_words_bytes by (simp add: skipVarints_def)
qed

lemma skip_bytes_enc:
  assumes "drop i b = enc v @ rest" "0 < n"
  shows "skip_bytes b i n = skip_bytes b (i + length (enc v)) (n - 1)"
proof -
  obtain xs c where e: "enc v = xs @ [c]" using enc_nonempty [of v] by (metis rev_exhaust)
  note B = enc_bytes [OF e]
  have d: "drop i b = xs @ c # rest" using assms(1) e by simp
  have l: "i + length xs < length b"
  proof (rule ccontr)
    assume "\<not> i + length xs < length b"
    then have "length (drop i b) \<le> length xs" by simp
    then show False unfolding d by simp
  qed
  have d2: "drop (i + length xs) b = c # rest" using arg_cong [OF d, of "drop (length xs)"] by (simp add: add.commute)
  have nc: "b ! (i + length xs) = c" using d2 l by (simp add: Cons_nth_drop_Suc [symmetric])
  have z: "filter (\<lambda>c. bval c < 0x80) (take (length xs) (drop i b)) = []" using B d by (auto simp: filter_empty_conv)
  have "skip_bytes b i n = skip_bytes b (i + length xs) (n - int (length (filter (\<lambda>c. bval c < 0x80) (take (length xs) (drop i b)))))"
    by (rule skip_bytes_run) (use z assms(2) l in auto)
  also have "\<dots> = skip_bytes b (i + length xs) n" unfolding z by simp
  also have "\<dots> = skip_bytes b (i + length xs + 1) (n - 1)" using B assms(2) l nc by (subst skip_bytes.simps) auto
  finally show ?thesis by (simp add: e)
qed

lemma skip_bytes_encs: "drop i b = concat (map enc vs) @ rest \<Longrightarrow> skip_bytes b i (int (length vs)) = Some (i + length (concat (map enc vs)))"
proof (induction vs arbitrary: i)
  case Nil
  then show ?case by (subst skip_bytes.simps) simp
next
  case (Cons v vs)
  have d: "drop i b = enc v @ (concat (map enc vs) @ rest)" using Cons.prems by simp
  have d2: "drop (i + length (enc v)) b = concat (map enc vs) @ rest"
    using arg_cong [OF d, of "drop (length (enc v))"] by (simp add: add.commute)
  have "skip_bytes b i (int (length (v # vs))) = skip_bytes b (i + length (enc v)) (int (length vs))"
    using skip_bytes_enc [OF d, of "int (length (v # vs))"] by simp
  then show ?case using Cons.IH [OF d2] by simp
qed

section \<open>Claims\<close>

text \<open>Round trip of the variable-length integers: a number written by \<open>putUvarint\<close> anywhere in a byte string
  is read back by \<open>uvarint\<close>, which stops exactly behind it; every 64-bit value is covered.\<close>

theorem uvarint_roundtrip: "uvarint (putUvarint b v @ rest) (length b) = Some (v, length (putUvarint b v))"
proof -
  have "drop (length b) (putUvarint b v @ rest) = enc v @ rest" by (simp add: putUvarint_append)
  from uvarint_enc [OF this] show ?thesis by (simp add: putUvarint_append)
qed

text \<open>Skipping integers eight bytes at a time is correct. For any bytes, offset and count, valid or not,
  \<open>skipVarints\<close> ends where the loop over single bytes ends (or panics when it does), so over a run of written
  integers it lands exactly behind the last one.\<close>

theorem skipVarints_exact:
  "skipVarints b i n = skip_bytes b i n
    \<and> skipVarints (pre @ concat (map (putUvarint []) vs) @ rest) (length pre) (int (length vs))
        = Some (length pre + length (concat (map (putUvarint []) vs)))"
proof -
  have "drop (length pre) (pre @ concat (map enc vs) @ rest) = concat (map enc vs) @ rest" by simp
  moreover have "map enc vs = map (putUvarint []) vs" by (simp add: enc_def)
  ultimately show ?thesis using skip_bytes_encs by (simp only: skipVarints_bytes simp_thms)
qed

end
