(* ===== verification/Search_Token.thy ===== *)
theory Search_Token
  imports Go_Utf8
begin

text \<open>
  The tokenizer and the query parser of the search engine (\<open>tokenizer\<close>, \<open>tokenizeString\<close> in
  \<open>search/impl/go-1/common.go\<close>, \<open>parseQuery\<close> in \<open>query.go\<close>). The Unicode tables of Go's \<open>unicode\<close> package are a
  parameter. The lemmas show that the tokens are the maximal runs of letters and numbers, lower-cased, although
  ASCII takes a short cut through a table.
\<close>

section \<open>The tokenizer\<close>

record unicode =
  isLetter :: "nat \<Rightarrow> bool"
  isNumber :: "nat \<Rightarrow> bool"
  uLower :: "nat \<Rightarrow> nat"
  isSpace :: "nat \<Rightarrow> bool"

definition asciiTab :: "nat \<Rightarrow> nat" where
  "asciiTab c =
     (if 97 \<le> c \<and> c \<le> 122 \<or> 48 \<le> c \<and> c \<le> 57 then c
      else if 65 \<le> c \<and> c \<le> 90 then c + 32 else 0)"

function tok_loop :: "unicode \<Rightarrow> bytes \<Rightarrow> nat \<Rightarrow> bytes \<Rightarrow> bytes \<times> nat" where
  "tok_loop u s i buf =
     (if i \<ge> length s then (buf, i)
      else if bval (s ! i) < 0x80 then
        if asciiTab (bval (s ! i)) \<noteq> 0 then tok_loop u s (i + 1) (buf @ [char_of (asciiTab (bval (s ! i)))])
        else if buf \<noteq> [] then (buf, i + 1)
        else tok_loop u s (i + 1) buf
      else
        let (r, sz) = decode_rune (drop i s)
        in if isLetter u r \<or> isNumber u r then tok_loop u s (i + sz) (append_rune buf (uLower u r))
           else if buf \<noteq> [] then (buf, i + sz)
           else tok_loop u s (i + sz) buf)"
  by pat_completeness auto
termination
proof (relation "measure (\<lambda>(u, s, i, buf). length s - i)", goal_cases)
  case (4 u s i buf x r sz)
  then show ?case using decode_rune_width [of "drop i s"] by (cases "decode_rune (drop i s)") auto
next
  case (5 u s i buf x r sz)
  then show ?case using decode_rune_width [of "drop i s"] by (cases "decode_rune (drop i s)") auto
qed auto

declare tok_loop.simps [simp del]

definition tok_next :: "unicode \<Rightarrow> bytes \<Rightarrow> nat \<Rightarrow> bytes option \<times> nat" where
  "tok_next u s i = (let (buf, j) = tok_loop u s i [] in (if length buf > 0 then Some buf else None, j))"

section \<open>Runs of runes\<close>

lemma dropWhile_less [termination_simp]: "length (dropWhile p xs) < Suc (length xs)"
  by (simp add: length_dropWhile_le le_imp_less_Suc)

fun runs :: "('a \<Rightarrow> bool) \<Rightarrow> 'a list \<Rightarrow> 'a list list" where
  "runs p [] = []"
| "runs p (x # xs) = (if p x then (x # takeWhile p xs) # runs p (dropWhile p xs) else runs p xs)"

definition word_rune :: "unicode \<Rightarrow> nat \<Rightarrow> bool" where
  "word_rune u r \<longleftrightarrow> isLetter u r \<or> isNumber u r"

definition lower_runes :: "unicode \<Rightarrow> nat list \<Rightarrow> bytes" where
  "lower_runes u rs = concat (map (\<lambda>r. append_rune [] (uLower u r)) rs)"

text \<open>What \<open>unicode\<close> says about ASCII: the letters and digits are what they are, and \<open>ToLower\<close> maps the capitals.\<close>

definition ascii_ok :: "unicode \<Rightarrow> bool" where
  "ascii_ok u \<longleftrightarrow> (\<forall>r < 0x80. (isLetter u r \<or> isNumber u r \<longleftrightarrow> asciiTab r \<noteq> 0) \<and> (asciiTab r \<noteq> 0 \<longrightarrow> uLower u r = asciiTab r))"

lemma runs_dropWhile: "runs p (dropWhile (\<lambda>x. \<not> p x) xs) = runs p xs"
  by (induction xs) auto

lemma runs_split:
  "runs p xs = (case dropWhile (\<lambda>x. \<not> p x) xs of [] \<Rightarrow> [] | y # ys \<Rightarrow> takeWhile p (y # ys) # runs p (dropWhile p (y # ys)))"
  by (induction xs) auto

lemma runes_Cons: "s \<noteq> [] \<Longrightarrow> decode_rune s = (r, sz) \<Longrightarrow> runes_of s = r # runes_of (drop sz s)"
  by (subst runes_of.simps) simp

lemma decode_ascii: "i < length s \<Longrightarrow> bval (s ! i) < 0x80 \<Longrightarrow> decode_rune (drop i s) = (bval (s ! i), 1)"
  by (simp add: Cons_nth_drop_Suc [symmetric] decode_from_def)

lemma runes_ascii: "\<forall>c \<in> set s. bval c < 0x80 \<Longrightarrow> runes_of s = map bval s"
  by (induction s) (simp_all add: runes_Cons decode_from_def)

lemma append_rune_nonempty: "append_rune b r \<noteq> []"
  by (simp add: append_rune_def encode_valid_def)

lemma append_rune_append: "append_rune b r = b @ append_rune [] r"
  by (simp add: append_rune_def)

lemma ascii_append: "asciiTab c \<noteq> 0 \<Longrightarrow> append_rune b (asciiTab c) = b @ [char_of (asciiTab c)]"
  by (auto simp: asciiTab_def append_rune_def valid_rune_def encode_valid_def split: if_splits)

text \<open>One step of the loop in terms of the runes.\<close>

lemma tok_loop_step:
  assumes a: "ascii_ok u" and i: "i < length s" and d: "decode_rune (drop i s) = (r, sz)"
  shows "tok_loop u s i buf = (if word_rune u r then tok_loop u s (i + sz) (buf @ append_rune [] (uLower u r))
    else if buf \<noteq> [] then (buf, i + sz) else tok_loop u s (i + sz) buf)"
proof (cases "bval (s ! i) < 0x80")
  case True
  then have r: "r = bval (s ! i)" "sz = 1" using decode_ascii [OF i True] d by auto
  have w: "word_rune u r \<longleftrightarrow> asciiTab r \<noteq> 0" "asciiTab r \<noteq> 0 \<Longrightarrow> uLower u r = asciiTab r"
    using a True by (auto simp: ascii_ok_def word_rune_def r)
  show ?thesis using i True w ascii_append [of r "[]"] unfolding r by (subst tok_loop.simps) auto
next
  case False
  then show ?thesis using i d by (subst tok_loop.simps) (simp add: word_rune_def append_rune_append [of buf])
qed

lemma tok_loop_spec:
  assumes a: "ascii_ok u" and w: "p = word_rune u"
  shows "tok_loop u s i buf = (b, j) \<Longrightarrow>
    (let rs = runes_of (drop i s); rs1 = (if buf = [] then dropWhile (\<lambda>r. \<not> p r) rs else rs)
     in b = buf @ lower_runes u (takeWhile p rs1) \<and> runs p (runes_of (drop j s)) = runs p (dropWhile p rs1))"
proof (induction "length s - i" arbitrary: i buf rule: less_induct)
  case less
  show ?case
  proof (cases "i < length s")
    case False
    then have "b = buf" "j = i" using less.prems by (auto simp: tok_loop.simps [of u s i])
    moreover have "runes_of (drop i s) = []" using False by (simp add: runes_of.simps)
    ultimately show ?thesis by (simp add: lower_runes_def)
  next
    case True
    obtain r sz where d: "decode_rune (drop i s) = (r, sz)" by fastforce
    have sz: "0 < sz" "i + sz \<le> length s" using decode_rune_width [of "drop i s"] True d by auto
    have rs: "runes_of (drop i s) = r # runes_of (drop (i + sz) s)"
      using runes_Cons [OF _ d] True by (simp add: add.commute)
    note step = tok_loop_step [OF a True d, of buf]
    have lt: "length s - (i + sz) < length s - i" using sz True by simp
    show ?thesis
    proof (cases "p r")
      case True
      have ne: "buf @ append_rune [] (uLower u r) \<noteq> []" using append_rune_nonempty by simp
      have "tok_loop u s (i + sz) (buf @ append_rune [] (uLower u r)) = (b, j)" using less.prems step True w by simp
      from less.hyps [OF lt this] ne show ?thesis using True by (simp add: rs Let_def lower_runes_def)
    next
      case np: False
      show ?thesis
      proof (cases "buf = []")
        case True
        then have "tok_loop u s (i + sz) [] = (b, j)" using less.prems step np w by simp
        from less.hyps [OF lt this] show ?thesis using np True by (simp add: rs Let_def)
      next
        case False
        then have "b = buf" "j = i + sz" using less.prems step np w by auto
        then show ?thesis using np False by (simp add: rs Let_def lower_runes_def)
      qed
    qed
  qed
qed

lemma tok_next_spec:
  assumes a: "ascii_ok u" and n: "tok_next u s i = (t, j)"
  shows "case dropWhile (\<lambda>r. \<not> word_rune u r) (runes_of (drop i s)) of
      [] \<Rightarrow> t = None
    | y # ys \<Rightarrow> t = Some (lower_runes u (takeWhile (word_rune u) (y # ys)))
        \<and> runs (word_rune u) (runes_of (drop j s)) = runs (word_rune u) (dropWhile (word_rune u) (y # ys))"
proof -
  obtain b where l: "tok_loop u s i [] = (b, j)" and t: "t = (if length b > 0 then Some b else None)"
    using n by (cases "tok_loop u s i []") (auto simp: tok_next_def Let_def split: if_splits)
  let ?rs = "dropWhile (\<lambda>r. \<not> word_rune u r) (runes_of (drop i s))"
  have b: "b = lower_runes u (takeWhile (word_rune u) ?rs)" and r: "runs (word_rune u) (runes_of (drop j s)) = runs (word_rune u) (dropWhile (word_rune u) ?rs)"
    using tok_loop_spec [OF a refl l] by (simp_all add: Let_def)
  show ?thesis
  proof (cases ?rs)
    case Nil
    show ?thesis unfolding Nil using b [unfolded Nil] t by (simp add: lower_runes_def)
  next
    case (Cons y ys)
    then have "word_rune u y" by (metis dropWhile_eq_Cons_conv)
    then have "b \<noteq> []" using b Cons append_rune_nonempty by (simp add: lower_runes_def)
    then show ?thesis using Cons b r t by simp
  qed
qed

text \<open>The loop of \<open>tokenizeString\<close>; it ends because \<open>next\<close> moves on whenever it returns a token.\<close>

lemma tok_loop_moves: "tok_loop u s i buf = (b, j) \<Longrightarrow> i \<le> j \<and> (b \<noteq> buf \<longrightarrow> i < j \<and> i < length s)"
proof (induction "length s - i" arbitrary: i buf rule: less_induct)
  case less
  show ?case
  proof (cases "i < length s")
    case True
    obtain r sz where d: "decode_rune (drop i s) = (r, sz)" by fastforce
    have sz: "0 < sz" using decode_rune_width [of "drop i s"] True d by auto
    have rec: "i \<le> j \<and> i < j \<and> i < length s" if "tok_loop u s (i + k) b2 = (b, j)" "0 < k" for k b2
    proof -
      have "length s - (i + k) < length s - i" using that(2) True by linarith
      from less.hyps [OF this that(1)] show ?thesis using that(2) True by linarith
    qed
    show ?thesis
    proof (cases "bval (s ! i) < 0x80")
      case asc: True
      show ?thesis using less.prems rec [of 1] True asc by (subst (asm) tok_loop.simps) (auto split: if_splits)
    next
      case False
      show ?thesis using less.prems rec [of sz] True False sz by (subst (asm) tok_loop.simps) (auto simp: d split: if_splits)
    qed
  qed (use less.prems in \<open>auto simp: tok_loop.simps [of u s i]\<close>)
qed

lemma tok_next_moves: "tok_next u s i = (Some t, j) \<Longrightarrow> i < j \<and> i < length s"
  using tok_loop_moves [of u s i "[]"] by (cases "tok_loop u s i []") (auto simp: tok_next_def split: if_splits)

function tokens_from :: "unicode \<Rightarrow> bytes \<Rightarrow> nat \<Rightarrow> bytes list" where
  "tokens_from u s i = (case tok_next u s i of (None, j) \<Rightarrow> [] | (Some t, j) \<Rightarrow> t # tokens_from u s j)"
  by pat_completeness auto
termination
proof (relation "measure (\<lambda>(u, s, i). length s - i)", goal_cases)
  case (2 u s i x j t)
  then have "tok_next u s i = (Some t, j)" by simp
  from tok_next_moves [OF this] show ?case by auto
qed simp

declare tokens_from.simps [simp del]

definition tokenizeString :: "unicode \<Rightarrow> bytes \<Rightarrow> bytes list" where
  "tokenizeString u s = tokens_from u s 0"

lemma tokens_from_spec: "ascii_ok u \<Longrightarrow> tokens_from u s i = map (lower_runes u) (runs (word_rune u) (runes_of (drop i s)))"
proof (induction u s i rule: tokens_from.induct)
  case (1 u s i)
  obtain t j where n: "tok_next u s i = (t, j)" by fastforce
  note S = tok_next_spec [OF "1.prems" n]
  show ?case
  proof (cases "dropWhile (\<lambda>r. \<not> word_rune u r) (runes_of (drop i s))")
    case Nil
    have "t = None" using S [unfolded Nil] by simp
    then show ?thesis using n by (subst tokens_from.simps, subst runs_split) (simp add: Nil)
  next
    case (Cons y ys)
    then have t: "t = Some (lower_runes u (takeWhile (word_rune u) (y # ys)))" using S by simp
    have "tokens_from u s j = map (lower_runes u) (runs (word_rune u) (runes_of (drop j s)))" using "1.IH" n t "1.prems" by auto
    then show ?thesis using S Cons n t by (subst tokens_from.simps, subst runs_split) (simp add: Cons)
  qed
qed

text \<open>The indices of a sequence of terms in a list of terms.\<close>

definition refers :: "bytes list \<Rightarrow> nat list \<Rightarrow> bytes list \<Rightarrow> bool" where
  "refers us seq ts \<longleftrightarrow> list_all2 (\<lambda>i t. i < length us \<and> us ! i = t) seq ts"

lemma refers_prefix: "refers us seq ts \<Longrightarrow> refers (us @ vs) seq ts"
  unfolding refers_def by (erule list_all2_mono) (auto simp: nth_append)

lemma refers_length: "refers us s ts \<Longrightarrow> length s = length ts"
  by (simp add: refers_def list_all2_lengthD)

section \<open>Queries\<close>

record clause =
  neg :: bool
  tokens :: "bytes list"

function skip_space :: "unicode \<Rightarrow> bytes \<Rightarrow> nat \<Rightarrow> nat" where
  "skip_space u q i =
     (if i < length q then let (r, sz) = decode_rune (drop i q) in if \<not> isSpace u r then i else skip_space u q (i + sz) else i)"
  by pat_completeness auto
termination
proof (relation "measure (\<lambda>(u, q, i). length q - i)", goal_cases)
  case (2 u q i x r sz)
  then show ?case using decode_rune_width [of "drop i q"] by (cases "decode_rune (drop i q)") auto
qed simp

function word_end :: "unicode \<Rightarrow> bytes \<Rightarrow> nat \<Rightarrow> nat" where
  "word_end u q j =
     (if j < length q then let (r, sz) = decode_rune (drop j q) in if isSpace u r then j else word_end u q (j + sz) else j)"
  by pat_completeness auto
termination
proof (relation "measure (\<lambda>(u, q, i). length q - i)", goal_cases)
  case (2 u q i x r sz)
  then show ?case using decode_rune_width [of "drop i q"] by (cases "decode_rune (drop i q)") auto
qed simp

declare skip_space.simps [simp del] word_end.simps [simp del]

text \<open>\<open>strings.IndexByte\<close>.\<close>

definition indexByte :: "bytes \<Rightarrow> byte \<Rightarrow> nat option" where
  "indexByte s c = (let k = length (takeWhile (\<lambda>x. x \<noteq> c) s) in if k < length s then Some k else None)"

definition QUOTE :: byte where "QUOTE = CHR 0x22"

text \<open>The text of the clause that starts at \<open>i\<close> (behind the minus sign), and where the next one starts.\<close>

definition clause_text :: "unicode \<Rightarrow> bytes \<Rightarrow> nat \<Rightarrow> bytes \<times> nat" where
  "clause_text u q i =
     (if i < length q \<and> q ! i = QUOTE then
        (case indexByte (drop (i + 1) q) QUOTE of
           None \<Rightarrow> (drop (i + 1) q, length q)
         | Some j \<Rightarrow> (take j (drop (i + 1) q), i + 1 + (j + 1)))
      else let j = word_end u q i in (take (j - i) (drop i q), j))"

lemma skip_space_stops: "skip_space u q i < length q \<Longrightarrow> \<not> isSpace u (fst (decode_rune (drop (skip_space u q i) q)))"
proof (induction u q i rule: skip_space.induct)
  case (1 u q i)
  then show ?case by (cases "decode_rune (drop i q)") (auto simp: skip_space.simps [of u q i] split: if_splits)
qed

lemma skip_space_le: "i \<le> skip_space u q i"
proof (induction u q i rule: skip_space.induct)
  case (1 u q i)
  then show ?case by (cases "decode_rune (drop i q)") (fastforce simp: skip_space.simps [of u q i])
qed

lemma word_end_le: "j \<le> word_end u q j"
proof (induction u q j rule: word_end.induct)
  case (1 u q j)
  then show ?case by (cases "decode_rune (drop j q)") (fastforce simp: word_end.simps [of u q j])
qed

lemma word_end_moves: "j < length q \<Longrightarrow> \<not> isSpace u (fst (decode_rune (drop j q))) \<Longrightarrow> j < word_end u q j"
proof -
  assume j: "j < length q" "\<not> isSpace u (fst (decode_rune (drop j q)))"
  obtain r sz where d: "decode_rune (drop j q) = (r, sz)" by fastforce
  have "0 < sz" using decode_rune_width [of "drop j q"] j d by auto
  then show ?thesis using j d word_end_le [of "j + sz" u q] by (simp add: word_end.simps [of u q j])
qed

lemma clause_text_le: "i \<le> length q \<Longrightarrow> i \<le> snd (clause_text u q i)"
  using word_end_le [of i u q] by (auto simp: clause_text_def Let_def split: option.splits)

lemma parse_progress:
  assumes "skip_space u q i0 < length q"
    "(body, j) = clause_text u q (if q ! skip_space u q i0 = CHR ''-'' then skip_space u q i0 + 1 else skip_space u q i0)"
  shows "i0 < j"
proof -
  let ?i = "skip_space u q i0"
  have le: "i0 \<le> ?i" by (rule skip_space_le)
  show ?thesis
  proof (cases "q ! ?i = CHR ''-''")
    case True
    then have j: "j = snd (clause_text u q (?i + 1))" using arg_cong [OF assms(2), of snd] by simp
    have "?i + 1 \<le> length q" using assms(1) by simp
    from clause_text_le [OF this, of u] show ?thesis using le by (simp add: j)
  next
    case False
    then show ?thesis using assms le word_end_moves [OF assms(1) skip_space_stops [OF assms(1)]]
      by (auto simp: clause_text_def Let_def split: if_splits option.splits)
  qed
qed

function parse_from :: "unicode \<Rightarrow> bytes \<Rightarrow> nat \<Rightarrow> clause list" where
  "parse_from u q i0 =
     (let i = skip_space u q i0
      in if i \<ge> length q then []
         else let n = q ! i = CHR ''-''; (body, j) = clause_text u q (if n then i + 1 else i); ts = tokenizeString u body
           in if length ts > 0 then \<lparr>neg = n, tokens = ts\<rparr> # parse_from u q j else parse_from u q j)"
  by pat_completeness auto

termination
proof (relation "measure (\<lambda>(u, q, i). length q - i)", goal_cases)
  case (2 u q i0 x xa y body j ts)
  then show ?case using parse_progress [of u q i0 body j] skip_space_le [of i0 u q] by auto
next
  case (3 u q i0 x xa y body j ts)
  then show ?case using parse_progress [of u q i0 body j] skip_space_le [of i0 u q] by auto
qed simp

declare parse_from.simps [simp del]

definition parseQuery :: "unicode \<Rightarrow> bytes \<Rightarrow> clause list" where
  "parseQuery u q = parse_from u q 0"

section \<open>Claims\<close>

text \<open>\<^bold>\<open>C38\<close> The tokenizer finds exactly the maximal runs of letters and numbers of a text, in order, each lower-cased
  rune by rune, although ASCII bytes go through a table and other bytes through the UTF-8 decoder; ill-formed
  UTF-8 counts as U+FFFD.\<close>

theorem tokenize_correct:
  assumes "ascii_ok u"
  shows "tokenizeString u s = map (lower_runes u) (runs (word_rune u) (runes_of s))"
  using tokens_from_spec [OF assms] by (simp add: tokenizeString_def)

definition ascii_unicode :: unicode where
  "ascii_unicode = \<lparr>isLetter = \<lambda>r. 65 \<le> r \<and> r \<le> 90 \<or> 97 \<le> r \<and> r \<le> 122, isNumber = \<lambda>r. 48 \<le> r \<and> r \<le> 57,
     uLower = \<lambda>r. if 65 \<le> r \<and> r \<le> 90 then r + 32 else r, isSpace = \<lambda>r. r = 32 \<or> 9 \<le> r \<and> r \<le> 13\<rparr>"

lemma ascii_unicode_ok: "ascii_ok ascii_unicode"
  by (auto simp: ascii_ok_def ascii_unicode_def asciiTab_def)

lemma char_of_eq: "n < 256 \<Longrightarrow> char_of n = c \<longleftrightarrow> bval c = n"
  by (auto simp: bval_char_of)

theorem tokenize_correct_witness: "tokenizeString ascii_unicode ''Go-1.23 x'' = [''go'', ''1'', ''23'', ''x'']"
proof -
  have r: "runes_of ''Go-1.23 x'' = map bval ''Go-1.23 x''" by (rule runes_ascii) code_simp
  have w: "runs (word_rune ascii_unicode) (map bval ''Go-1.23 x'') = [map bval ''Go'', map bval ''1'', map bval ''23'', map bval ''x'']"
    by code_simp
  show ?thesis unfolding tokenize_correct [OF ascii_unicode_ok] r w
    by (simp add: lower_runes_def append_rune_def valid_rune_def encode_valid_def ascii_unicode_def char_of_eq)
qed

text \<open>Quoted clauses, written one after the other.\<close>

definition print_clause :: "bool \<times> bytes \<Rightarrow> bytes" where
  "print_clause c = (if fst c then ''-'' else []) @ QUOTE # snd c @ [QUOTE]"

definition print_query :: "(bool \<times> bytes) list \<Rightarrow> bytes" where
  "print_query cs = concat (map (\<lambda>c. print_clause c @ '' '') cs)"

lemma take_until: "c \<notin> set s \<Longrightarrow> indexByte (s @ c # r) c = Some (length s)"
proof -
  assume "c \<notin> set s"
  then have "takeWhile (\<lambda>x. x \<noteq> c) (s @ c # r) = s" by (induction s) auto
  then show ?thesis by (simp add: indexByte_def)
qed

lemma drop_one: "drop i q = x # xs \<Longrightarrow> drop (i + 1) q = xs"
  by (metis Suc_eq_plus1 drop_Suc list.sel(3) tl_drop)

lemma clause_text_quoted:
  assumes "drop i q = QUOTE # s @ QUOTE # r" "QUOTE \<notin> set s"
  shows "clause_text u q i = (s, i + length s + 2)"
proof -
  have i: "i < length q" using assms(1) by (cases "i < length q") auto
  then have "q ! i = QUOTE" "drop (i + 1) q = s @ QUOTE # r" using assms(1) by (simp_all add: Cons_nth_drop_Suc [symmetric])
  then show ?thesis using i take_until [OF assms(2), of r] by (simp add: clause_text_def)
qed

definition space_ok :: "unicode \<Rightarrow> bool" where
  "space_ok u \<longleftrightarrow> isSpace u 32 \<and> \<not> isSpace u 45 \<and> \<not> isSpace u 34"

lemma skip_space_at:
  assumes "drop i q = c # r" "bval c < 0x80"
  shows "skip_space u q i = (if isSpace u (bval c) then skip_space u q (i + 1) else i)"
proof -
  have i: "i < length q" using assms(1) by (cases "i < length q") auto
  then have "q ! i = c" using assms(1) by (simp add: Cons_nth_drop_Suc [symmetric])
  then have "decode_rune (drop i q) = (bval c, 1)" using decode_ascii [OF i] assms(2) by simp
  then show ?thesis using i by (subst skip_space.simps) simp
qed

lemma parse_end: "i \<ge> length q \<Longrightarrow> parse_from u q i = []"
  by (simp add: parse_from.simps [of u q i] skip_space.simps [of u q i])

lemma parse_skip: "skip_space u q (skip_space u q i) = skip_space u q i"
proof (induction u q i rule: skip_space.induct)
  case (1 u q i)
  then show ?case by (cases "decode_rune (drop i q)") (auto simp: skip_space.simps [of u q i])
qed

lemma parse_blank: "drop i q = CHR '' '' # r \<Longrightarrow> space_ok u \<Longrightarrow> parse_from u q i = parse_from u q (i + 1)"
  using skip_space_at [of i q "CHR '' ''" r u] by (subst (1 2) parse_from.simps) (simp add: space_ok_def)

lemma parse_clause:
  assumes q: "drop i q = print_clause (n, s) @ r" and s: "QUOTE \<notin> set s" and u: "space_ok u"
  shows "parse_from u q i = (let j = i + length (print_clause (n, s)); ts = tokenizeString u s
    in if length ts > 0 then \<lparr>neg = n, tokens = ts\<rparr> # parse_from u q j else parse_from u q j)"
proof -
  let ?i = "if n then i + 1 else i"
  have i: "i < length q" using q by (cases "i < length q") (auto simp: print_clause_def split: if_splits)
  have c: "q ! i = (if n then CHR ''-'' else QUOTE)" using q i by (auto simp: print_clause_def Cons_nth_drop_Suc [symmetric] split: if_splits)
  have stop: "skip_space u q i = i"
    using skip_space_at [OF Cons_nth_drop_Suc [OF i, symmetric], of u] c u by (cases n) (simp_all add: space_ok_def QUOTE_def)
  have d: "drop ?i q = QUOTE # s @ QUOTE # r" using q i by (auto simp: print_clause_def Cons_nth_drop_Suc [symmetric] split: if_splits)
  note t = clause_text_quoted [OF d s, of u]
  have "q ! i = CHR ''-'' \<longleftrightarrow> n" using c by (simp add: QUOTE_def)
  then show ?thesis using i stop t by (subst parse_from.simps) (simp add: print_clause_def Let_def)
qed

lemma parse_printed:
  "space_ok u \<Longrightarrow> \<forall>c \<in> set cs. QUOTE \<notin> set (snd c) \<Longrightarrow> drop i q = print_query cs \<Longrightarrow>
     parse_from u q i = map (\<lambda>c. \<lparr>neg = fst c, tokens = tokenizeString u (snd c)\<rparr>) (filter (\<lambda>c. tokenizeString u (snd c) \<noteq> []) cs)"
proof (induction cs arbitrary: i)
  case Nil
  then show ?case by (simp add: parse_end print_query_def)
next
  case (Cons c cs)
  obtain n s where c: "c = (n, s)" by fastforce
  let ?j = "i + length (print_clause (n, s))"
  have q: "drop i q = print_clause (n, s) @ CHR '' '' # print_query cs" using Cons.prems(3) by (simp add: print_query_def c)
  have d1: "drop ?j q = CHR '' '' # print_query cs" using arg_cong [OF q, of "drop (length (print_clause (n, s)))"] by (simp add: add.commute)
  then have d2: "drop (?j + 1) q = print_query cs" by (rule drop_one)
  have "parse_from u q ?j = parse_from u q (?j + 1)" by (rule parse_blank [OF d1 Cons.prems(1)])
  then show ?case using parse_clause [OF q _ Cons.prems(1)] Cons.IH [OF Cons.prems(1) _ d2] Cons.prems(2) by (simp add: c Let_def)
qed

text \<open>\<^bold>\<open>C39\<close> Queries round trip: a query written as quoted clauses, negative ones with a minus sign, parses into exactly
  these clauses in order, each with the tokens of its text, and without those that have none.\<close>

theorem parseQuery_printed:
  assumes "space_ok u" "\<forall>c \<in> set cs. QUOTE \<notin> set (snd c)"
  shows "parseQuery u (print_query cs)
    = map (\<lambda>c. \<lparr>neg = fst c, tokens = tokenizeString u (snd c)\<rparr>) (filter (\<lambda>c. tokenizeString u (snd c) \<noteq> []) cs)"
  using parse_printed [OF assms, of 0 "print_query cs"] by (simp add: parseQuery_def)

theorem parseQuery_printed_witness:
  "parseQuery ascii_unicode (print_query [(True, ''a b''), (False, ''!'')])
    = map (\<lambda>c. \<lparr>neg = fst c, tokens = tokenizeString ascii_unicode (snd c)\<rparr>)
        (filter (\<lambda>c. tokenizeString ascii_unicode (snd c) \<noteq> []) [(True, ''a b''), (False, ''!'')])"
  by (rule parseQuery_printed) (simp_all add: space_ok_def ascii_unicode_def QUOTE_def)

end
