(* ===== verification/Search_Worker.thy ===== *)
theory Search_Worker
  imports Search_Varint Search_Token
begin

text \<open>
  The indexing worker (\<open>worker\<close>, \<open>tokenizeInto\<close>, \<open>addDoc\<close> in \<open>search/impl/go-1/index.go\<close>): terms get
  numbers, and every document appends one posting to the buffer of each of its terms, with the positions grouped by a
  counting sort. Reads and writes outside a slice panic and are \<open>None\<close>. The lemmas show that the buffers
  hold the postings of the documents in order. \<open>wout\<close> is what has been written to the file of the worker (through a buffer
  that is flushed before anyone reads the file), \<open>woff\<close> the offset it keeps.
\<close>

record worker =
  wid :: nat
  wout :: bytes
  woff :: nat
  terms :: "bytes \<rightharpoonup> nat"
  strs :: "bytes list"
  wpost :: "bytes list"
  last_doc :: "32 word list"
  stamp :: "32 word list"
  cnt :: "32 word list"
  fill :: "32 word list"
  tids :: "nat list"
  posFlat :: "32 word list"

definition new_worker :: "nat \<Rightarrow> worker" where
  "new_worker i = \<lparr>wid = i, wout = [], woff = 0, terms = Map.empty, strs = [], wpost = [], last_doc = [], stamp = [], cnt = [], fill = [], tids = [], posFlat = []\<rparr>"

section \<open>Numbering the terms of a text\<close>

text \<open>A new term: the buffer left over from an earlier run is emptied, so it is a fresh one here.\<close>

definition new_term :: "bytes \<Rightarrow> worker \<Rightarrow> worker" where
  "new_term t w =
     (let tid = length (strs w);
          w = w\<lparr>terms := (terms w)(t \<mapsto> tid), strs := strs w @ [t], wpost := wpost w @ [[]], last_doc := last_doc w @ [0]\<rparr>
      in if tid \<ge> length (stamp w) then w\<lparr>stamp := stamp w @ [0], cnt := cnt w @ [0], fill := fill w @ [0]\<rparr> else w)"

definition add_token :: "bytes \<Rightarrow> worker \<Rightarrow> worker" where
  "add_token t w =
     (case terms w t of
        Some tid \<Rightarrow> w\<lparr>tids := tids w @ [tid]\<rparr>
      | None \<Rightarrow> let tid = length (strs w); w = new_term t w in w\<lparr>tids := tids w @ [tid]\<rparr>)"

definition tokenizeInto :: "unicode \<Rightarrow> bytes \<Rightarrow> worker \<Rightarrow> worker" where
  "tokenizeInto u s w = foldl (\<lambda>w t. add_token t w) w (tokens_from u s 0)"

section \<open>Adding a document\<close>

text \<open>The four passes: counting, prefix sums, filling, writing.\<close>

fun count_pass :: "32 word \<Rightarrow> nat list \<Rightarrow> 32 word list \<Rightarrow> 32 word list \<Rightarrow> nat list \<Rightarrow> (32 word list \<times> 32 word list \<times> nat list) option" where
  "count_pass v [] st cn ds = Some (st, cn, ds)"
| "count_pass v (t # ts) st cn ds =
     (if t < length st \<and> t < length cn then
        let (st, cn, ds) = (if st ! t \<noteq> v then (st[t := v], cn[t := 0], ds @ [t]) else (st, cn, ds))
        in count_pass v ts st (cn[t := cn ! t + 1]) ds
      else None)"

fun sum_pass :: "nat list \<Rightarrow> 32 word list \<Rightarrow> 32 word list \<Rightarrow> 32 word \<Rightarrow> 32 word list option" where
  "sum_pass [] cn fi s = Some fi"
| "sum_pass (t # ts) cn fi s = (if t < length cn \<and> t < length fi then sum_pass ts cn (fi[t := s]) (s + cn ! t) else None)"

fun fill_pass :: "nat list \<Rightarrow> nat \<Rightarrow> 32 word list \<Rightarrow> 32 word list \<Rightarrow> (32 word list \<times> 32 word list) option" where
  "fill_pass [] p fi pf = Some (fi, pf)"
| "fill_pass (t # ts) p fi pf =
     (if t < length fi \<and> unat (fi ! t) < length pf then fill_pass ts (p + 1) (fi[t := fi ! t + 1]) (pf[unat (fi ! t) := of_nat p]) else None)"

fun put_positions :: "32 word list \<Rightarrow> 32 word \<Rightarrow> bytes \<Rightarrow> bytes" where
  "put_positions [] prev b = b"
| "put_positions (p # ps) prev b = put_positions ps p (putUvarint b (ucast (p - prev)))"

definition put_posting :: "32 word \<Rightarrow> 32 word list \<Rightarrow> worker \<Rightarrow> nat \<Rightarrow> worker option" where
  "put_posting doc pf w t =
     (if t < length (cnt w) \<and> t < length (fill w) \<and> t < length (wpost w) \<and> t < length (last_doc w) then
        let c = cnt w ! t; start = fill w ! t - c in
        if unat start \<le> unat (start + c) \<and> unat (start + c) \<le> length pf then
          let b = putUvarint (wpost w ! t) (ucast (doc - last_doc w ! t));
              b = putUvarint b (ucast c);
              b = put_positions (take (unat (start + c) - unat start) (drop (unat start) pf)) 0 b
          in Some (w\<lparr>last_doc := (last_doc w)[t := doc], wpost := (wpost w)[t := b]\<rparr>)
        else None
      else None)"

fun put_postings :: "32 word \<Rightarrow> 32 word list \<Rightarrow> nat list \<Rightarrow> worker \<Rightarrow> worker option" where
  "put_postings doc pf [] w = Some w"
| "put_postings doc pf (t # ts) w = (case put_posting doc pf w t of None \<Rightarrow> None | Some w \<Rightarrow> put_postings doc pf ts w)"

text \<open>The buffer of positions is reused between documents; \<open>posFlat\<close> is all of it, up to its capacity.\<close>

definition addDoc :: "32 word \<Rightarrow> worker \<Rightarrow> worker option" where
  "addDoc doc w =
     (let n = length (tids w) in
      case count_pass (doc + 1) (tids w) (stamp w) (cnt w) [] of
        None \<Rightarrow> None
      | Some (st, cn, ds) \<Rightarrow>
          case sum_pass ds cn (fill w) 0 of
            None \<Rightarrow> None
          | Some fi \<Rightarrow>
              let old = (if length (posFlat w) < n then replicate (n * 2) 0 else posFlat w) in
              case fill_pass (tids w) 0 fi (take n old) of
                None \<Rightarrow> None
              | Some (fi, pf) \<Rightarrow>
                  put_postings doc pf ds (w\<lparr>stamp := st, cnt := cn, fill := fi, posFlat := pf @ drop n old\<rparr>))"

section \<open>Reference\<close>

text \<open>The positions of a term in a document, and the bytes of its posting.\<close>

definition occs :: "'a \<Rightarrow> 'a list \<Rightarrow> nat list" where
  "occs t ts = filter (\<lambda>p. ts ! p = t) [0..<length ts]"

fun gaps :: "nat \<Rightarrow> nat list \<Rightarrow> 64 word list" where
  "gaps prev [] = []"
| "gaps prev (p # ps) = of_nat (p - prev) # gaps p ps"

definition posting_bytes :: "32 word \<Rightarrow> 32 word \<Rightarrow> nat list \<Rightarrow> bytes" where
  "posting_bytes doc prev ps = enc (ucast (doc - prev)) @ enc (of_nat (length ps)) @ concat (map enc (gaps 0 ps))"


section \<open>Counting\<close>

lemma occs_snoc: "occs t (ts @ [x]) = occs t ts @ (if x = t then [length ts] else [])"
proof -
  have "filter (\<lambda>p. (ts @ [x]) ! p = t) [0..<length ts] = occs t ts"
    unfolding occs_def by (intro filter_cong) (auto simp: nth_append)
  then show ?thesis by (simp add: occs_def)
qed

lemma occs_Nil [simp]: "occs t [] = []"
  by (simp add: occs_def)

lemma length_occs: "length (occs t ts) = count_list ts t"
  by (induction ts rule: rev_induct) (auto simp: occs_snoc count_list_append)

definition counted :: "32 word \<Rightarrow> 32 word list \<Rightarrow> 32 word list \<Rightarrow> nat list \<Rightarrow> 32 word list \<times> 32 word list \<times> nat list \<Rightarrow> bool" where
  "counted v st0 cn0 us r \<longleftrightarrow> (case r of (st, cn, ds) \<Rightarrow> length st = length st0 \<and> length cn = length cn0 \<and> distinct ds \<and> set ds = set us
     \<and> (\<forall>t < length st0. st ! t = (if t \<in> set us then v else st0 ! t))
     \<and> (\<forall>t < length cn0. cn ! t = (if t \<in> set us then of_nat (count_list us t) else cn0 ! t)))"

lemma count_pass_at:
  "counted v st0 cn0 us (st, cn, ds) \<Longrightarrow> \<forall>t \<in> set ts. t < length st0 \<and> t < length cn0 \<Longrightarrow> \<forall>t < length st0. st0 ! t \<noteq> v \<Longrightarrow>
     \<exists>r. count_pass v ts st cn ds = Some r \<and> counted v st0 cn0 (us @ ts) r"
proof (induction ts arbitrary: us st cn ds)
  case (Cons t ts)
  have c: "length st = length st0" "length cn = length cn0" "distinct ds" "set ds = set us"
    "\<And>t. t < length st0 \<Longrightarrow> st ! t = (if t \<in> set us then v else st0 ! t)"
    "\<And>t. t < length cn0 \<Longrightarrow> cn ! t = (if t \<in> set us then of_nat (count_list us t) else cn0 ! t)"
    using Cons.prems(1) by (auto simp: counted_def)
  have t: "t < length st0" "t < length cn0" using Cons.prems(2) by auto
  let ?n = "st ! t \<noteq> v"
  have n: "?n \<longleftrightarrow> t \<notin> set us" using c(5) [OF t(1)] Cons.prems(3) t(1) by auto
  let ?st = "if ?n then st[t := v] else st" and ?zc = "if ?n then cn[t := 0] else cn" and ?ds = "if ?n then ds @ [t] else ds"
  let ?cn = "?zc[t := ?zc ! t + 1]"
  have "?zc ! t = of_nat (count_list us t)"
  proof (cases ?n)
    case True
    then have z: "count_list us t = 0" using n by (simp add: count_notin)
    have "t < length cn" using c(2) t(2) by simp
    then have "cn[t := 0] ! t = 0" by (rule nth_list_update_eq)
    then show ?thesis unfolding if_P [OF True] z by simp
  next
    case False
    then have "t \<in> set us" using n by simp
    then show ?thesis using False c(6) [OF t(2)] by simp
  qed
  then have new: "?cn ! t = of_nat (count_list (us @ [t]) t)" using c(2) t(2) by (simp add: count_list_append)
  have "counted v st0 cn0 (us @ [t]) (?st, ?cn, ?ds)"
    unfolding counted_def prod.case
  proof (intro conjI allI impI)
    show "?st ! s = (if s \<in> set (us @ [t]) then v else st0 ! s)" if "s < length st0" for s
      using c(1,5) that n t by (auto simp: nth_list_update)
    show "?cn ! s = (if s \<in> set (us @ [t]) then of_nat (count_list (us @ [t]) s) else cn0 ! s)" if "s < length cn0" for s
    proof (cases "s = t")
      case True
      then show ?thesis using new by simp
    next
      case False
      then show ?thesis using c(6) [OF that] n by (auto simp: count_list_append)
    qed
  qed (use c n in \<open>auto split: if_splits\<close>)
  from Cons.IH [OF this] Cons.prems(2,3) obtain r where "count_pass v ts ?st ?cn ?ds = Some r" "counted v st0 cn0 (us @ t # ts) r" by auto
  note r = this
  have "count_pass v (t # ts) st cn ds = Some r" using r(1) t c(1,2) by (auto simp: Let_def split: if_splits)
  then show ?case using r(2) by blast
qed simp

text \<open>Where the positions of a term begin.\<close>

fun base :: "nat list \<Rightarrow> nat list \<Rightarrow> nat \<Rightarrow> nat" where
  "base ts [] t = 0"
| "base ts (d # ds) t = (if d = t then 0 else count_list ts d + base ts ds t)"

lemma sum_pass_at:
  "\<forall>d \<in> set ds. d < length cn \<and> d < length fi \<and> cn ! d = of_nat (count_list ts d) \<Longrightarrow> distinct ds \<Longrightarrow>
     \<exists>fi'. sum_pass ds cn fi s = Some fi' \<and> length fi' = length fi \<and> (\<forall>t \<in> set ds. fi' ! t = s + of_nat (base ts ds t))
       \<and> (\<forall>t. t \<notin> set ds \<longrightarrow> fi' ! t = fi ! t)"
proof (induction ds arbitrary: fi s)
  case (Cons d ds)
  let ?fi = "fi[d := s]"
  have "\<forall>d \<in> set ds. d < length cn \<and> d < length ?fi \<and> cn ! d = of_nat (count_list ts d)" using Cons.prems(1) by simp
  from Cons.IH [OF this, of "s + cn ! d"] Cons.prems(2) obtain fi' where f: "sum_pass ds cn ?fi (s + cn ! d) = Some fi'" "length fi' = length ?fi"
    "\<forall>t \<in> set ds. fi' ! t = s + cn ! d + of_nat (base ts ds t)" "\<forall>t. t \<notin> set ds \<longrightarrow> fi' ! t = ?fi ! t" by auto
  have d: "d < length cn" "d < length fi" "cn ! d = of_nat (count_list ts d)" "d \<notin> set ds" using Cons.prems by auto
  have "\<forall>t \<in> set (d # ds). fi' ! t = s + of_nat (base ts (d # ds) t)"
  proof
    fix t assume "t \<in> set (d # ds)"
    then show "fi' ! t = s + of_nat (base ts (d # ds) t)" using f(3,4) d by (cases "t = d") (auto simp: algebra_simps)
  qed
  moreover have "\<forall>t. t \<notin> set (d # ds) \<longrightarrow> fi' ! t = fi ! t" using f(4) by auto
  ultimately show ?case using f(1,2) d(1,2) by simp
qed simp

lemma base_bound: "distinct ds \<Longrightarrow> set ds \<subseteq> set ts \<Longrightarrow> t \<in> set ds \<Longrightarrow> base ts ds t + count_list ts t \<le> (\<Sum>d \<leftarrow> ds. count_list ts d)"
  by (induction ds) auto

lemma sum_counts: "distinct ds \<Longrightarrow> set ts \<subseteq> set ds \<Longrightarrow> (\<Sum>d \<leftarrow> ds. count_list ts d) = length ts"
proof (induction ts)
  case (Cons t ts)
  have "(\<Sum>d \<leftarrow> ds. count_list (t # ts) d) = (\<Sum>d \<leftarrow> ds. count_list ts d) + (\<Sum>d \<leftarrow> ds. if d = t then 1 else 0)"
    by (simp add: sum_list_addf [symmetric]) (rule arg_cong [of _ _ sum_list], simp)
  moreover have "(\<Sum>d \<leftarrow> ds. if d = t then 1 else (0 :: nat)) = 1"
    using Cons.prems by (simp add: sum_list_distinct_conv_sum_set sum.If_cases)
  ultimately show ?case using Cons by simp
qed simp

lemma base_apart:
  "t \<in> set ds \<Longrightarrow> t' \<in> set ds \<Longrightarrow> t \<noteq> t' \<Longrightarrow> base ts ds t + count_list ts t \<le> base ts ds t' \<or> base ts ds t' + count_list ts t' \<le> base ts ds t"
  by (induction ds) auto


section \<open>Filling and writing\<close>

definition filled :: "nat list \<Rightarrow> nat list \<Rightarrow> nat list \<Rightarrow> 32 word list \<Rightarrow> 32 word list \<Rightarrow> bool" where
  "filled ts ds us fi pf \<longleftrightarrow> length pf = length ts
     \<and> (\<forall>t \<in> set ds. t < length fi \<and> fi ! t = of_nat (base ts ds t + count_list us t)
          \<and> (\<forall>k < count_list us t. pf ! (base ts ds t + k) = of_nat (occs t us ! k)))"

lemma fill_pass_at:
  assumes ds: "distinct ds" "set ds = set ts" and small: "length ts < 2 ^ 32"
  shows "filled ts ds us fi pf \<Longrightarrow> us @ rs = ts \<Longrightarrow>
     \<exists>fi' pf'. fill_pass rs (length us) fi pf = Some (fi', pf') \<and> filled ts ds ts fi' pf' \<and> length fi' = length fi
       \<and> (\<forall>t. t \<notin> set ds \<longrightarrow> fi' ! t = fi ! t)"
proof (induction rs arbitrary: us fi pf)
  case (Cons x rs)
  let ?b = "base ts ds"
  have tse: "ts = us @ x # rs" using Cons.prems(2) by simp
  have x: "x \<in> set ds" unfolding ds(2) tse by simp
  have cle: "count_list us t \<le> count_list ts t" for t unfolding tse count_list_append by simp
  have cx: "count_list us x < count_list ts x" unfolding tse count_list_append by simp
  have bd: "?b x + count_list ts x \<le> length ts" using base_bound [OF ds(1) _ x, of ts] sum_counts [OF ds(1), of ts] ds(2) by simp
  let ?i = "?b x + count_list us x"
  have i: "?i < length ts" using cx bd by simp
  have f: "x < length fi" "fi ! x = of_nat ?i" "length pf = length ts" using Cons.prems(1) x by (auto simp: filled_def)
  have ui: "unat (fi ! x) = ?i" using i small by (simp add: f(2) unat_of_nat del: of_nat_add)
  let ?fi = "fi[x := fi ! x + 1]" and ?pf = "pf[?i := of_nat (length us)]"
  have "filled ts ds (us @ [x]) ?fi ?pf"
    unfolding filled_def
  proof (intro conjI ballI allI impI)
    fix t assume t: "t \<in> set ds"
    show "t < length ?fi" using Cons.prems(1) t by (simp add: filled_def)
    show "?fi ! t = of_nat (?b t + count_list (us @ [x]) t)"
      using Cons.prems(1) t f by (cases "t = x") (auto simp: filled_def count_list_append)
    fix k assume k: "k < count_list (us @ [x]) t"
    show "?pf ! (?b t + k) = of_nat (occs t (us @ [x]) ! k)"
    proof (cases "t = x \<and> k = count_list us x")
      case True
      then have "occs t (us @ [x]) ! k = length us" using length_occs [of x us] by (simp add: occs_snoc nth_append)
      then show ?thesis using True i f(3) by simp
    next
      case False
      then have k': "k < count_list us t" using k by (cases "t = x") (auto simp: count_list_append)
      have ne: "?b t + k \<noteq> ?i"
      proof (cases "t = x")
        case True
        then show ?thesis using False k' by simp
      next
        case False
        then show ?thesis using base_apart [OF t x False, of ts] k' cle [of t] cx by auto
      qed
      have "occs t (us @ [x]) ! k = occs t us ! k" using k' length_occs [of t us] by (simp add: occs_snoc nth_append)
      then show ?thesis using ne k' t Cons.prems(1) by (simp add: filled_def)
    qed
  qed (use f in simp)
  have "(us @ [x]) @ rs = ts" using Cons.prems(2) by simp
  from Cons.IH [OF \<open>filled ts ds (us @ [x]) ?fi ?pf\<close> this] obtain fi' pf' where r: "fill_pass rs (length us + 1) ?fi ?pf = Some (fi', pf')" "filled ts ds ts fi' pf'"
    "length fi' = length ?fi" "\<forall>t. t \<notin> set ds \<longrightarrow> fi' ! t = ?fi ! t" unfolding length_append_singleton Suc_eq_plus1 by blast
  have "fill_pass (x # rs) (length us) fi pf = Some (fi', pf')" using r(1) f ui i by simp
  moreover have "\<forall>t. t \<notin> set ds \<longrightarrow> fi' ! t = fi ! t"
  proof (intro allI impI)
    fix t assume t: "t \<notin> set ds"
    then have "t \<noteq> x" using x by blast
    then show "fi' ! t = fi ! t" using r(4) t by simp
  qed
  ultimately show ?case using r(2,3) by simp
qed simp

lemma put_positions_at:
  "sorted (prev # qs) \<Longrightarrow> \<forall>q \<in> set qs. q < 2 ^ 32 \<Longrightarrow> put_positions (map of_nat qs) (of_nat prev) b = b @ concat (map enc (gaps prev qs))"
proof (induction qs arbitrary: prev b)
  case (Cons q qs)
  have le: "prev \<le> q" "q - prev < 2 ^ 32" using Cons.prems by auto
  have "(of_nat q - of_nat prev :: 32 word) = of_nat (q - prev)" using le(1) by simp
  moreover have "(ucast (of_nat (q - prev) :: 32 word) :: 64 word) = of_nat (q - prev)"
    using le(2) by (simp add: unsigned_of_nat take_bit_eq_mod)
  ultimately show ?case using Cons.IH [of q] Cons.prems by (simp add: putUvarint_append)
qed simp

lemma sorted_occs: "sorted (occs t ts)" "\<forall>q \<in> set (occs t ts). q < length ts"
  by (auto simp: occs_def sorted_wrt_filter)

lemma put_posting_at:
  assumes f: "filled ts ds ts (fill w) pf" and ds: "distinct ds" "set ds = set ts" and small: "length ts < 2 ^ 32" and t: "t \<in> set ds"
    and len: "t < length (cnt w)" "t < length (wpost w)" "t < length (last_doc w)" and c: "cnt w ! t = of_nat (count_list ts t)"
  shows "put_posting d pf w t = Some (w\<lparr>last_doc := (last_doc w)[t := d],
    wpost := (wpost w)[t := wpost w ! t @ posting_bytes d (last_doc w ! t) (occs t ts)]\<rparr>)"
proof -
  let ?b = "base ts ds t" and ?c = "count_list ts t"
  have fl: "t < length (fill w)" "fill w ! t = of_nat (?b + ?c)" "length pf = length ts" "\<And>k. k < ?c \<Longrightarrow> pf ! (?b + k) = of_nat (occs t ts ! k)"
    using f t by (auto simp: filled_def)
  have bd: "?b + ?c \<le> length ts" using base_bound [OF ds(1) _ t, of ts] sum_counts [OF ds(1), of ts] ds(2) by simp
  have s: "fill w ! t - of_nat ?c = of_nat ?b" using fl(2) by simp
  have e: "of_nat ?b + (of_nat ?c :: 32 word) = of_nat (?b + ?c)" by simp
  have u: "unat (of_nat ?b :: 32 word) = ?b" "unat (of_nat (?b + ?c) :: 32 word) = ?b + ?c"
    using bd small by (simp_all add: unat_of_nat del: of_nat_add)
  have sl: "take ?c (drop ?b pf) = map of_nat (occs t ts)"
    by (rule nth_equalityI) (use bd fl length_occs [of t ts] in auto)
  have uc: "(ucast (of_nat ?c :: 32 word) :: 64 word) = of_nat ?c" using bd small by (simp add: unsigned_of_nat take_bit_eq_mod)
  have so: "sorted (0 # occs t ts)" "\<forall>q \<in> set (occs t ts). q < 2 ^ 32" using sorted_occs [of t ts] small by auto
  have "put_positions (map of_nat (occs t ts)) 0 b = b @ concat (map enc (gaps 0 (occs t ts)))" for b
    using put_positions_at [OF so] by simp
  note pp = this
  have g: "t < length (cnt w) \<and> t < length (fill w) \<and> t < length (wpost w) \<and> t < length (last_doc w)" using len fl(1) by simp
  have g2: "?b \<le> ?b + ?c \<and> ?b + ?c \<le> length pf" using bd fl(3) by simp
  have d: "?b + ?c - ?b = ?c" by simp
  show ?thesis
    unfolding put_posting_def if_P [OF g] Let_def c s e u if_P [OF g2] d sl pp uc putUvarint_append posting_bytes_def length_occs append_assoc ..
qed


lemma put_postings_at:
  assumes ds: "distinct ds" "set ds = set ts" and small: "length ts < 2 ^ 32"
  shows "distinct es \<Longrightarrow> set es \<subseteq> set ds \<Longrightarrow> filled ts ds ts (fill w) pf \<Longrightarrow>
     \<forall>t \<in> set ds. t < length (cnt w) \<and> t < length (wpost w) \<and> t < length (last_doc w) \<and> cnt w ! t = of_nat (count_list ts t) \<Longrightarrow>
     \<exists>w'. put_postings d pf es w = Some w' \<and> w' = w\<lparr>last_doc := last_doc w', wpost := wpost w'\<rparr>
       \<and> length (last_doc w') = length (last_doc w) \<and> length (wpost w') = length (wpost w)
       \<and> (\<forall>t. last_doc w' ! t = (if t \<in> set es then d else last_doc w ! t))
       \<and> (\<forall>t. wpost w' ! t = (if t \<in> set es then wpost w ! t @ posting_bytes d (last_doc w ! t) (occs t ts) else wpost w ! t))"
proof (induction es arbitrary: w)
  case (Cons e es)
  have e: "e \<in> set ds" "e \<notin> set es" using Cons.prems(1,2) by auto
  let ?w = "w\<lparr>last_doc := (last_doc w)[e := d], wpost := (wpost w)[e := wpost w ! e @ posting_bytes d (last_doc w ! e) (occs e ts)]\<rparr>"
  have l: "e < length (cnt w)" "e < length (wpost w)" "e < length (last_doc w)" "cnt w ! e = of_nat (count_list ts e)" using Cons.prems(4) e(1) by auto
  have p: "put_posting d pf w e = Some ?w" by (rule put_posting_at [OF Cons.prems(3) ds small e(1) l])
  have "\<exists>w'. put_postings d pf es ?w = Some w' \<and> w' = ?w\<lparr>last_doc := last_doc w', wpost := wpost w'\<rparr>
       \<and> length (last_doc w') = length (last_doc ?w) \<and> length (wpost w') = length (wpost ?w)
       \<and> (\<forall>t. last_doc w' ! t = (if t \<in> set es then d else last_doc ?w ! t))
       \<and> (\<forall>t. wpost w' ! t = (if t \<in> set es then wpost ?w ! t @ posting_bytes d (last_doc ?w ! t) (occs t ts) else wpost ?w ! t))"
    by (rule Cons.IH) (use Cons.prems in auto)
  then obtain w' where w': "put_postings d pf es ?w = Some w'" "w' = ?w\<lparr>last_doc := last_doc w', wpost := wpost w'\<rparr>"
    "length (last_doc w') = length (last_doc ?w)" "length (wpost w') = length (wpost ?w)"
    "\<And>t. last_doc w' ! t = (if t \<in> set es then d else last_doc ?w ! t)"
    "\<And>t. wpost w' ! t = (if t \<in> set es then wpost ?w ! t @ posting_bytes d (last_doc ?w ! t) (occs t ts) else wpost ?w ! t)" by blast
  have "put_postings d pf (e # es) w = Some w'" using p w'(1) by simp
  moreover have "w' = w\<lparr>last_doc := last_doc w', wpost := wpost w'\<rparr>" using w'(2) by simp
  moreover have "last_doc w' ! t = (if t \<in> set (e # es) then d else last_doc w ! t)" for t
    using w'(5) [of t] l(3) by (cases "t = e") auto
  moreover have "wpost w' ! t = (if t \<in> set (e # es) then wpost w ! t @ posting_bytes d (last_doc w ! t) (occs t ts) else wpost w ! t)" for t
    using w'(6) [of t] l(2) e(2) by (cases "t = e") auto
  ultimately show ?case using w'(3,4) by auto
qed simp

lemma addDoc_at:
  assumes t: "\<forall>t \<in> set (tids w). t < length (wpost w)" and l: "length (last_doc w) = length (wpost w)" "length (wpost w) \<le> length (stamp w)"
      "length (cnt w) = length (stamp w)" "length (fill w) = length (stamp w)"
    and fresh: "\<forall>i < length (stamp w). stamp w ! i \<noteq> d + 1" and small: "length (tids w) < 2 ^ 32"
  shows "\<exists>w'. addDoc d w = Some w' \<and> terms w' = terms w \<and> strs w' = strs w \<and> tids w' = tids w
    \<and> wid w' = wid w \<and> wout w' = wout w \<and> woff w' = woff w
    \<and> length (last_doc w') = length (last_doc w) \<and> length (wpost w') = length (wpost w)
    \<and> length (stamp w') = length (stamp w) \<and> length (cnt w') = length (stamp w) \<and> length (fill w') = length (stamp w)
    \<and> (\<forall>i < length (stamp w). stamp w' ! i = d + 1 \<or> stamp w' ! i = stamp w ! i)
    \<and> (\<forall>t. last_doc w' ! t = (if t \<in> set (tids w) then d else last_doc w ! t))
    \<and> (\<forall>t. wpost w' ! t = (if t \<in> set (tids w) then wpost w ! t @ posting_bytes d (last_doc w ! t) (occs t (tids w)) else wpost w ! t))"
proof -
  let ?ts = "tids w"
  have start: "counted (d + 1) (stamp w) (cnt w) [] (stamp w, cnt w, [])" by (simp add: counted_def)
  have in1: "\<forall>t \<in> set ?ts. t < length (stamp w) \<and> t < length (cnt w)" using t l by fastforce
  from count_pass_at [OF start in1 fresh] obtain st cn ds where c: "count_pass (d + 1) ?ts (stamp w) (cnt w) [] = Some (st, cn, ds)"
    "length st = length (stamp w)" "length cn = length (cnt w)" "distinct ds" "set ds = set ?ts"
    "\<forall>i < length (stamp w). st ! i = (if i \<in> set ?ts then d + 1 else stamp w ! i)"
    "\<forall>i < length (cnt w). cn ! i = (if i \<in> set ?ts then of_nat (count_list ?ts i) else cnt w ! i)"
    by (auto simp: counted_def)
  have in2: "\<forall>t \<in> set ds. t < length cn \<and> t < length (fill w) \<and> cn ! t = of_nat (count_list ?ts t)" using c(3,5,7) in1 l by auto
  from sum_pass_at [OF in2 c(4), of 0] obtain fi where f: "sum_pass ds cn (fill w) 0 = Some fi" "length fi = length (fill w)"
    "\<forall>t \<in> set ds. fi ! t = of_nat (base ?ts ds t)" by auto
  define old where "old = (if length (posFlat w) < length ?ts then replicate (length ?ts * 2) 0 else posFlat w)"
  let ?pf = "take (length ?ts) old"
  have f0: "filled ?ts ds [] fi ?pf" using f in2 by (simp add: filled_def old_def)
  from fill_pass_at [OF c(4,5) small f0, of ?ts] obtain fi' pf where g: "fill_pass ?ts 0 fi ?pf = Some (fi', pf)" "filled ?ts ds ?ts fi' pf" "length fi' = length fi" by auto
  let ?w = "w\<lparr>stamp := st, cnt := cn, fill := fi', posFlat := pf @ drop (length ?ts) old\<rparr>"
  have in3: "\<forall>t \<in> set ds. t < length (cnt ?w) \<and> t < length (wpost ?w) \<and> t < length (last_doc ?w) \<and> cnt ?w ! t = of_nat (count_list ?ts t)"
    using in2 t c(5) l by simp
  have gf: "filled ?ts ds ?ts (fill ?w) pf" using g(2) by simp
  from put_postings_at [OF c(4,5) small c(4) subset_refl gf in3, of d] obtain w' where w': "put_postings d pf ds ?w = Some w'"
    "w' = ?w\<lparr>last_doc := last_doc w', wpost := wpost w'\<rparr>" "length (last_doc w') = length (last_doc ?w)" "length (wpost w') = length (wpost ?w)"
    "\<forall>t. last_doc w' ! t = (if t \<in> set ds then d else last_doc ?w ! t)"
    "\<forall>t. wpost w' ! t = (if t \<in> set ds then wpost ?w ! t @ posting_bytes d (last_doc ?w ! t) (occs t ?ts) else wpost ?w ! t)" by blast
  have a: "addDoc d w = Some w'" using c(1) f(1) g(1) w'(1) by (simp add: addDoc_def old_def Let_def)
  have eqs: "terms w' = terms w" "strs w' = strs w" "tids w' = tids w" "wid w' = wid w" "wout w' = wout w" "woff w' = woff w" "stamp w' = st" "cnt w' = cn" "fill w' = fi'"
    using arg_cong [OF w'(2), of wid] arg_cong [OF w'(2), of wout] arg_cong [OF w'(2), of woff] arg_cong [OF w'(2), of terms] arg_cong [OF w'(2), of strs] arg_cong [OF w'(2), of tids]
      arg_cong [OF w'(2), of stamp] arg_cong [OF w'(2), of cnt] arg_cong [OF w'(2), of fill] by simp_all
  show ?thesis using a eqs w'(3-6) c(2,3,5,6) f(2) g(3) l by (intro exI [of _ w']) auto
qed

section \<open>The postings of a sequence of documents\<close>

text \<open>The documents with a term and its positions in them, and the bytes of their postings.\<close>

definition docs_with :: "bytes \<Rightarrow> (32 word \<times> bytes list) list \<Rightarrow> (32 word \<times> nat list) list" where
  "docs_with t D = map (\<lambda>(d, ts). (d, occs t ts)) (filter (\<lambda>(d, ts). t \<in> set ts) D)"

fun run_bytes :: "32 word \<Rightarrow> (32 word \<times> nat list) list \<Rightarrow> bytes" where
  "run_bytes prev [] = []"
| "run_bytes prev ((d, ps) # r) = posting_bytes d prev ps @ run_bytes d r"

definition prev_of :: "32 word \<Rightarrow> (32 word \<times> 'a) list \<Rightarrow> 32 word" where
  "prev_of p ps = (if ps = [] then p else fst (last ps))"

lemma run_bytes_snoc: "run_bytes p (ps @ [(d, q)]) = run_bytes p ps @ posting_bytes d (prev_of p ps) q"
  by (induction p ps rule: run_bytes.induct) (auto simp: prev_of_def)

lemma prev_of_snoc [simp]: "prev_of p (ps @ [x]) = fst x"
  by (simp add: prev_of_def)

definition numbered :: "worker \<Rightarrow> bool" where
  "numbered w \<longleftrightarrow> (\<forall>t i. terms w t = Some i \<longleftrightarrow> i < length (strs w) \<and> strs w ! i = t)"

definition sized :: "worker \<Rightarrow> bool" where
  "sized w \<longleftrightarrow> length (wpost w) = length (strs w) \<and> length (last_doc w) = length (strs w) \<and> length (strs w) \<le> length (stamp w)
     \<and> length (cnt w) = length (stamp w) \<and> length (fill w) = length (stamp w)"

definition stamped :: "worker \<Rightarrow> nat \<Rightarrow> bool" where
  "stamped w m \<longleftrightarrow> (\<forall>i < length (stamp w). unat (stamp w ! i) \<le> m)"

text \<open>The buffers of the worker hold the postings of the documents \<open>D\<close>; \<open>seen\<close> are its terms.\<close>

definition worker_ok :: "worker \<Rightarrow> (32 word \<times> bytes list) list \<Rightarrow> bool" where
  "worker_ok w D \<longleftrightarrow> numbered w \<and> sized w
     \<and> (\<forall>i < length (strs w). wpost w ! i = run_bytes 0 (docs_with (strs w ! i) D) \<and> last_doc w ! i = prev_of 0 (docs_with (strs w ! i) D))
     \<and> (\<forall>(d, ts) \<in> set D. set ts \<subseteq> set (strs w))"

lemma numbered_distinct: "numbered w \<Longrightarrow> distinct (strs w)"
  unfolding numbered_def distinct_conv_nth by (metis option.inject)

lemma docs_with_none: "\<forall>(d, ts) \<in> set D. t \<notin> set ts \<Longrightarrow> docs_with t D = []"
  by (auto simp: docs_with_def filter_empty_conv)

lemma add_token_ok:
  assumes "worker_ok w D" "stamped w m"
  shows "\<exists>vs i. strs (add_token t w) = strs w @ vs \<and> set (strs w @ vs) = insert t (set (strs w)) \<and> tids (add_token t w) = tids w @ [i]
    \<and> i < length (strs (add_token t w)) \<and> strs (add_token t w) ! i = t \<and> worker_ok (add_token t w) D \<and> stamped (add_token t w) m
    \<and> wid (add_token t w) = wid w \<and> wout (add_token t w) = wout w \<and> woff (add_token t w) = woff w"
proof (cases "terms w t")
  case None
  let ?n = "length (strs w)" and ?w = "add_token t w"
  have num: "numbered w" "sized w" using assms(1) by (simp_all add: worker_ok_def)
  have new: "t \<notin> set (strs w)" 
  proof
    assume "t \<in> set (strs w)"
    then obtain i where "i < ?n" "strs w ! i = t" by (auto simp: in_set_conv_nth)
    then have "terms w t = Some i" using num(1) by (simp add: numbered_def)
    then show False using None by simp
  qed
  have s: "strs ?w = strs w @ [t]" "tids ?w = tids w @ [?n]" "terms ?w = (terms w)(t \<mapsto> ?n)" "wpost ?w = wpost w @ [[]]" "last_doc ?w = last_doc w @ [0]"
    using None by (simp_all add: add_token_def new_term_def Let_def)
  have z: "sized ?w" "stamped ?w m" using None num(2) assms(2)
    by (auto simp: add_token_def new_term_def Let_def sized_def stamped_def nth_append)
  have n: "numbered ?w"
    unfolding numbered_def s
  proof (intro allI)
    fix x i
    have "terms w x = Some i \<longleftrightarrow> i < ?n \<and> strs w ! i = x" using num(1) by (simp add: numbered_def)
    moreover have "i < ?n \<Longrightarrow> strs w ! i \<noteq> t" using new nth_mem by blast
    ultimately show "((terms w)(t \<mapsto> ?n)) x = Some i \<longleftrightarrow> i < length (strs w @ [t]) \<and> (strs w @ [t]) ! i = x"
      by (cases "x = t") (auto simp: nth_append less_Suc_eq)
  qed
  have d0: "docs_with t D = []" using assms(1) new by (intro docs_with_none) (fastforce simp: worker_ok_def)
  have "worker_ok ?w D" using assms(1) num(2) n z d0 unfolding worker_ok_def s
    by (auto simp: nth_append sized_def prev_of_def less_Suc_eq)
  moreover have "wid ?w = wid w \<and> wout ?w = wout w \<and> woff ?w = woff w" using None by (simp add: add_token_def new_term_def Let_def)
  ultimately show ?thesis using s z(2) by (intro exI [of _ "[t]"] exI [of _ ?n]) auto
next
  case (Some i)
  then have i: "i < length (strs w)" "strs w ! i = t" using assms(1) by (auto simp: worker_ok_def numbered_def)
  then have "t \<in> set (strs w)" using nth_mem by blast
  then have t: "insert t (set (strs w)) = set (strs w)" by blast
  have a: "add_token t w = w\<lparr>tids := tids w @ [i]\<rparr>" using Some by (simp add: add_token_def)
  have "worker_ok (w\<lparr>tids := tids w @ [i]\<rparr>) D" "stamped (w\<lparr>tids := tids w @ [i]\<rparr>) m"
    using assms by (simp_all add: worker_ok_def numbered_def sized_def stamped_def)
  then show ?thesis unfolding a t using i by (intro exI [of _ "[]"] exI [of _ i]) simp
qed

lemma add_tokens_ok:
  "worker_ok w D \<Longrightarrow> stamped w m \<Longrightarrow> refers (strs w) (tids w) us \<Longrightarrow>
     (let w' = foldl (\<lambda>w t. add_token t w) w ts in
        worker_ok w' D \<and> stamped w' m \<and> refers (strs w') (tids w') (us @ ts) \<and> set (strs w') = set (strs w) \<union> set ts
        \<and> wid w' = wid w \<and> wout w' = wout w \<and> woff w' = woff w)"
proof (induction ts arbitrary: w us)
  case (Cons t ts)
  let ?w = "add_token t w"
  obtain vs i where s: "strs ?w = strs w @ vs" "set (strs w @ vs) = insert t (set (strs w))" "tids ?w = tids w @ [i]" "i < length (strs ?w)"
    "strs ?w ! i = t" "worker_ok ?w D" "stamped ?w m" "wid ?w = wid w" "wout ?w = wout w" "woff ?w = woff w"
    using add_token_ok [OF Cons.prems(1,2), of t] by blast
  have "refers (strs ?w) (tids w) us" unfolding s(1) by (rule refers_prefix [OF Cons.prems(3)])
  then have "refers (strs ?w) (tids ?w) (us @ [t])" using s(4,5) unfolding s(3) refers_def by (simp add: list_all2_appendI)
  then show ?case using Cons.IH [OF s(6,7), of "us @ [t]"] s(1,2,8-10) by (simp add: Let_def)
qed simp

lemma refers_occs: "refers us s ts \<Longrightarrow> distinct us \<Longrightarrow> i < length us \<Longrightarrow> occs i s = occs (us ! i) ts \<and> (i \<in> set s \<longleftrightarrow> us ! i \<in> set ts)"
proof -
  assume r: "refers us s ts" and u: "distinct us" "i < length us"
  have l: "length s = length ts" "\<And>p. p < length s \<Longrightarrow> s ! p < length us \<and> us ! (s ! p) = ts ! p"
    using r by (auto simp: refers_def list_all2_conv_all_nth)
  have "s ! p = i \<longleftrightarrow> ts ! p = us ! i" if "p < length s" for p
    using l(2) [OF that] u nth_eq_iff_index_eq [OF u(1), of "s ! p" i] by auto
  note e = this
  have "occs i s = occs (us ! i) ts" unfolding occs_def l(1) by (rule filter_cong) (use e l(1) in auto)
  moreover have "i \<in> set s \<longleftrightarrow> us ! i \<in> set ts" using e l(1) by (metis in_set_conv_nth)
  ultimately show ?thesis by blast
qed

lemma refers_set: "refers us s ts \<Longrightarrow> set ts \<subseteq> set us"
proof
  fix t assume r: "refers us s ts" and "t \<in> set ts"
  then obtain p where p: "p < length ts" "ts ! p = t" by (auto simp: in_set_conv_nth)
  then have "s ! p < length us" "us ! (s ! p) = t" using r by (auto simp: refers_def list_all2_conv_all_nth)
  then show "t \<in> set us" using nth_mem by blast
qed

lemma docs_with_snoc: "docs_with t (D @ [(d, ts)]) = docs_with t D @ (if t \<in> set ts then [(d, occs t ts)] else [])"
  by (simp add: docs_with_def)

lemma addDoc_ok:
  assumes w: "worker_ok w D" "stamped w (unat d)" and d: "unat d + 1 < 2 ^ 32"
    and ts: "refers (strs w) (tids w) ts" "length ts < 2 ^ 32"
  shows "\<exists>w'. addDoc d w = Some w' \<and> worker_ok w' (D @ [(d, ts)]) \<and> stamped w' (unat d + 1) \<and> strs w' = strs w \<and> tids w' = tids w
    \<and> wid w' = wid w \<and> wout w' = wout w \<and> woff w' = woff w"
proof -
  have z: "numbered w" "sized w" using w(1) by (simp_all add: worker_ok_def)
  have u: "unat (d + 1) = unat d + 1" using d by (simp add: unat_word_ariths)
  have t: "\<forall>t \<in> set (tids w). t < length (wpost w)" using ts(1) z(2) by (auto simp: refers_def list_all2_conv_all_nth in_set_conv_nth sized_def)
  have fresh: "\<forall>i < length (stamp w). stamp w ! i \<noteq> d + 1" using w(2) u by (auto simp: stamped_def)
  have small: "length (tids w) < 2 ^ 32" using refers_length [OF ts(1)] ts(2) by simp
  obtain w' where w': "addDoc d w = Some w'" "terms w' = terms w" "strs w' = strs w" "tids w' = tids w"
    "length (last_doc w') = length (last_doc w)" "length (wpost w') = length (wpost w)"
    "length (stamp w') = length (stamp w)" "length (cnt w') = length (stamp w)" "length (fill w') = length (stamp w)"
    "\<forall>i < length (stamp w). stamp w' ! i = d + 1 \<or> stamp w' ! i = stamp w ! i"
    "\<forall>t. last_doc w' ! t = (if t \<in> set (tids w) then d else last_doc w ! t)"
    "\<forall>t. wpost w' ! t = (if t \<in> set (tids w) then wpost w ! t @ posting_bytes d (last_doc w ! t) (occs t (tids w)) else wpost w ! t)"
    "wid w' = wid w" "wout w' = wout w" "woff w' = woff w"
    using addDoc_at [OF t _ _ _ _ fresh small] z(2) by (auto simp: sized_def)
  have "wpost w' ! i = run_bytes 0 (docs_with (strs w ! i) (D @ [(d, ts)])) \<and> last_doc w' ! i = prev_of 0 (docs_with (strs w ! i) (D @ [(d, ts)]))"
    if i: "i < length (strs w)" for i
  proof -
    have o: "occs i (tids w) = occs (strs w ! i) ts" "i \<in> set (tids w) \<longleftrightarrow> strs w ! i \<in> set ts"
      using refers_occs [OF ts(1) numbered_distinct [OF z(1)] i] by simp_all
    have "wpost w ! i = run_bytes 0 (docs_with (strs w ! i) D)" "last_doc w ! i = prev_of 0 (docs_with (strs w ! i) D)"
      using w(1) i by (simp_all add: worker_ok_def)
    then show ?thesis using w'(11,12) o by (simp add: docs_with_snoc run_bytes_snoc)
  qed
  moreover have "set ts \<subseteq> set (strs w)" by (rule refers_set [OF ts(1)])
  ultimately have "worker_ok w' (D @ [(d, ts)])" using w(1) w' by (auto simp: worker_ok_def numbered_def sized_def)
  moreover have "stamped w' (unat d + 1)" using w(2) w'(7,10) u unfolding stamped_def by (metis le_Suc_eq Suc_eq_plus1 order_refl)
  ultimately show ?thesis using w' by blast
qed

end
