(* ===== verification/Search_Json.thy ===== *)
theory Search_Json
  imports Search_Token Search_Varint
begin

text \<open>
  The JSON reader of the indexer (\<open>scanString\<close>, \<open>hexVal\<close>, \<open>unescape\<close>, \<open>skipValue\<close>, \<open>parseLine\<close>, \<open>isBlank\<close> in
  \<open>search/impl/go-1/common.go\<close>, \<open>countDocs\<close> in \<open>index.go\<close>). The lemmas show that a line written with any mixture of
  plain bytes and escapes is read back to the strings it stands for.
\<close>

definition BSL :: byte where "BSL = CHR 0x5C"

definition isWS :: "byte \<Rightarrow> bool" where
  "isWS c \<longleftrightarrow> c = CHR '' '' \<or> c = CHR 0x09 \<or> c = CHR 0x0A \<or> c = CHR 0x0D"

section \<open>Strings\<close>

text \<open>The content between the quotes, the index behind the closing quote, and whether there were escapes.\<close>

function scan_loop :: "bytes \<Rightarrow> nat \<Rightarrow> nat \<Rightarrow> bool \<Rightarrow> (bytes \<times> nat \<times> bool) option" where
  "scan_loop b i j esc =
     (if j < length b then
        if b ! j = QUOTE then Some (take (j - (i + 1)) (drop (i + 1) b), j + 1, esc)
        else if b ! j = BSL then scan_loop b i (j + 2) True
        else scan_loop b i (j + 1) esc
      else None)"
  by pat_completeness auto
termination by (relation "measure (\<lambda>(b, i, j, esc). length b - j)") auto

declare scan_loop.simps [simp del]

definition scanString :: "bytes \<Rightarrow> nat \<Rightarrow> (bytes \<times> nat \<times> bool) option" where
  "scanString b i = scan_loop b i (i + 1) False"

definition hex_digit :: "byte \<Rightarrow> nat option" where
  "hex_digit c =
     (if CHR ''0'' \<le> c \<and> c \<le> CHR ''9'' then Some (bval c - 48)
      else if CHR ''a'' \<le> c \<and> c \<le> CHR ''f'' then Some (bval c - 97 + 10)
      else if CHR ''A'' \<le> c \<and> c \<le> CHR ''F'' then Some (bval c - 65 + 10)
      else None)"

fun hex_run :: "bytes \<Rightarrow> nat \<Rightarrow> nat option" where
  "hex_run [] r = Some r"
| "hex_run (c # cs) r = (case hex_digit c of Some d \<Rightarrow> hex_run cs (r * 16 + d) | None \<Rightarrow> None)"

definition hexVal :: "bytes \<Rightarrow> nat option" where
  "hexVal b = (if length b < 4 then None else hex_run (take 4 b) 0)"

text \<open>The escape behind the backslash at \<open>i\<close>: what is appended and where reading goes on.\<close>

definition escape_at :: "bytes \<Rightarrow> nat \<Rightarrow> bytes \<Rightarrow> bytes \<times> nat" where
  "escape_at raw i dst =
     (let e = raw ! (i + 1); i = i + 2 in
      if e = CHR ''n'' then (dst @ [CHR 0x0A], i)
      else if e = CHR ''t'' then (dst @ [CHR 0x09], i)
      else if e = CHR ''r'' then (dst @ [CHR 0x0D], i)
      else if e = CHR ''b'' then (dst @ [CHR 0x08], i)
      else if e = CHR ''f'' then (dst @ [CHR 0x0C], i)
      else if e = CHR ''u'' then
        (case hexVal (drop i raw) of
           None \<Rightarrow> (append_rune dst runeError, i)
         | Some r \<Rightarrow>
             let i = i + 4 in
             if 0xD800 \<le> r \<and> r < 0xDC00 then
               (if i + 6 \<le> length raw \<and> raw ! i = BSL \<and> raw ! (i + 1) = CHR ''u'' then
                  (case hexVal (drop (i + 2) raw) of
                     Some r2 \<Rightarrow>
                       if 0xDC00 \<le> r2 \<and> r2 < 0xE000
                       then (append_rune dst (0x10000 + (r - 0xD800) * 1024 + (r2 - 0xDC00)), i + 6)
                       else (append_rune dst 0xFFFD, i)
                   | None \<Rightarrow> (append_rune dst 0xFFFD, i))
                else (append_rune dst 0xFFFD, i))
             else if 0xDC00 \<le> r \<and> r < 0xE000 then (append_rune dst 0xFFFD, i)
             else (append_rune dst r, i))
      else (dst @ [e], i))"

lemma escape_at_moves: "i + 2 \<le> snd (escape_at raw i dst)"
  by (simp add: escape_at_def Let_def split: option.splits)

function unescape_from :: "bytes \<Rightarrow> nat \<Rightarrow> bytes \<Rightarrow> bytes" where
  "unescape_from raw i dst =
     (if i \<ge> length raw then dst
      else if raw ! i \<noteq> BSL then
        let j = i + 1 + length (takeWhile (\<lambda>c. c \<noteq> BSL) (drop (i + 1) raw))
        in unescape_from raw j (dst @ take (j - i) (drop i raw))
      else if i + 1 \<ge> length raw then dst
      else let (d, j) = escape_at raw i dst in unescape_from raw j d)"
  by pat_completeness auto
termination
proof (relation "measure (\<lambda>(raw, i, dst). length raw - i)", goal_cases)
  case (3 raw i dst x d j)
  then show ?case using escape_at_moves [of i raw dst] by (cases "escape_at raw i dst") auto
qed auto

declare unescape_from.simps [simp del]

definition unescape :: "bytes \<Rightarrow> bytes \<Rightarrow> bytes" where
  "unescape dst raw = unescape_from raw 0 dst"

section \<open>Values\<close>

definition skip_while :: "(byte \<Rightarrow> bool) \<Rightarrow> bytes \<Rightarrow> nat \<Rightarrow> nat" where
  "skip_while p b i = i + length (takeWhile p (drop i b))"

lemma scan_loop_moves: "scan_loop b i j esc = Some (raw, n, e) \<Longrightarrow> j < n \<and> n \<le> length b"
proof (induction b i j esc rule: scan_loop.induct)
  case (1 b i j esc)
  then show ?case by (subst (asm) (3) scan_loop.simps) (fastforce split: if_splits)
qed

text \<open>Behind the bracket that closes the one at depth one; strings are skipped as a whole.\<close>

function skip_nested :: "bytes \<Rightarrow> nat \<Rightarrow> int \<Rightarrow> nat option" where
  "skip_nested b i depth =
     (if i < length b then
        if b ! i = QUOTE then (case scanString b i of Some (_, n, _) \<Rightarrow> skip_nested b n depth | None \<Rightarrow> None)
        else if b ! i = CHR ''{'' \<or> b ! i = CHR ''['' then skip_nested b (i + 1) (depth + 1)
        else if b ! i = CHR ''}'' \<or> b ! i = CHR '']'' then
          (if depth - 1 = 0 then Some (i + 1) else skip_nested b (i + 1) (depth - 1))
        else skip_nested b (i + 1) depth
      else None)"
  by pat_completeness auto
termination
proof (relation "measure (\<lambda>(b, i, depth). length b - i)", goal_cases)
  case (2 b i depth x y n z)
  then show ?case using scan_loop_moves [of b i "i + 1" False] by (auto simp: scanString_def)
qed auto

declare skip_nested.simps [simp del]

definition skipValue :: "bytes \<Rightarrow> nat \<Rightarrow> nat option" where
  "skipValue b i0 =
     (let i = skip_while isWS b i0 in
      if i \<ge> length b then None
      else if b ! i = QUOTE then (case scanString b i of Some (_, n, _) \<Rightarrow> Some n | None \<Rightarrow> None)
      else if b ! i = CHR ''{'' \<or> b ! i = CHR ''['' then skip_nested b i 0
      else Some (skip_while (\<lambda>c. c \<noteq> CHR '','' \<and> c \<noteq> CHR ''}'' \<and> c \<noteq> CHR '']'' \<and> \<not> isWS c) b i))"

section \<open>Lines\<close>

record rawDoc =
  rid :: "32 word"
  title :: bytes
  dtext :: bytes
  titleEsc :: bool
  textEsc :: bool

definition empty_doc :: rawDoc where
  "empty_doc = \<lparr>rid = 0, title = [], dtext = [], titleEsc = False, textEsc = False\<rparr>"

definition read_id :: "bytes \<Rightarrow> 64 word" where
  "read_id ds = foldl (\<lambda>v c. v * 10 + of_nat (bval c - 48)) 0 ds"

text \<open>The member with key \<open>key\<close> whose value starts at \<open>i\<close>.\<close>

definition member_value :: "bytes \<Rightarrow> bytes \<Rightarrow> nat \<Rightarrow> rawDoc \<Rightarrow> (rawDoc \<times> nat) option" where
  "member_value b key i d =
     (if key = ''id'' then
        let ds = takeWhile is_digit (drop i b) in Some (d\<lparr>rid := ucast (read_id ds)\<rparr>, i + length ds)
      else if key = ''title'' \<or> key = ''text'' then
        (if b ! i \<noteq> QUOTE then None
         else case scanString b i of
           None \<Rightarrow> None
         | Some (raw, n, esc) \<Rightarrow>
             Some (if key ! 1 = CHR ''i'' then d\<lparr>title := raw, titleEsc := esc\<rparr> else d\<lparr>dtext := raw, textEsc := esc\<rparr>, n))
      else case skipValue b i of None \<Rightarrow> None | Some n \<Rightarrow> Some (d, n))"

lemma skip_while_le: "i \<le> skip_while p b i"
  by (simp add: skip_while_def)

lemma skip_nested_moves: "skip_nested b i depth = Some n \<Longrightarrow> i < n"
proof (induction b i depth rule: skip_nested.induct)
  case (1 b i depth)
  have s: "scanString b i = Some (raw, k, e) \<Longrightarrow> i < k" for raw k e using scan_loop_moves [of b i "i + 1" False] by (auto simp: scanString_def)
  show ?case using "1.prems" s "1.IH" by (subst (asm) skip_nested.simps) (fastforce split: if_splits option.splits)
qed

lemma scanString_moves: "scanString b i = Some (raw, n, e) \<Longrightarrow> i + 1 < n \<and> n \<le> length b"
  unfolding scanString_def by (rule scan_loop_moves)

lemma skipValue_le: "skipValue b i = Some m \<Longrightarrow> i \<le> m"
proof -
  assume v: "skipValue b i = Some m"
  define j where "j = skip_while isWS b i"
  have ij: "i \<le> j" by (simp add: j_def skip_while_le)
  have "j \<le> m"
  proof (cases "b ! j = QUOTE")
    case True
    then show ?thesis using v scanString_moves [of b j] by (auto simp: skipValue_def j_def [symmetric] Let_def split: if_splits option.splits)
  next
    case False
    then show ?thesis using v skip_nested_moves [of b j 0 m] skip_while_le [of j _ b]
      by (auto simp: skipValue_def j_def [symmetric] Let_def split: if_splits)
  qed
  then show ?thesis using ij by simp
qed

lemma member_value_le: "member_value b key i d = Some (d', n) \<Longrightarrow> i \<le> n"
proof -
  assume m: "member_value b key i d = Some (d', n)"
  consider "key = ''id''" | "key \<noteq> ''id''" "key = ''title'' \<or> key = ''text''" | "key \<noteq> ''id''" "\<not> (key = ''title'' \<or> key = ''text'')" by blast
  then show ?thesis
  proof cases
    case 2
    then show ?thesis using m scanString_moves [of b i] by (fastforce simp: member_value_def split: if_splits option.splits)
  qed (use m skipValue_le [of b i n] in \<open>auto simp: member_value_def Let_def split: option.splits\<close>)
qed

function members_from :: "bytes \<Rightarrow> nat \<Rightarrow> rawDoc \<Rightarrow> rawDoc option" where
  "members_from b i0 d =
     (let i = skip_while (\<lambda>c. isWS c \<or> c = CHR '','') b i0 in
      if i \<ge> length b then None
      else if b ! i = CHR ''}'' then Some d
      else if b ! i \<noteq> QUOTE then None
      else case scanString b i of
        None \<Rightarrow> None
      | Some (key, n, _) \<Rightarrow>
          let i = skip_while isWS b n in
          if i \<ge> length b \<or> b ! i \<noteq> CHR '':'' then None
          else
            let i = skip_while isWS b (i + 1) in
            if i \<ge> length b then None
            else case member_value b key i d of None \<Rightarrow> None | Some (d', n) \<Rightarrow> members_from b n d')"
  by pat_completeness auto
termination
proof (relation "measure (\<lambda>(b, i, d). length b - i)", goal_cases)
  case (2 b i0 d i x key y n z j k w d' m)
  then have "i0 \<le> i" "i < n" "n \<le> j" "j + 1 \<le> k" "k \<le> m"
    using skip_while_le scan_loop_moves [of b i "i + 1" False] member_value_le by (auto simp: scanString_def)
  then show ?case using 2 by auto
qed simp

declare members_from.simps [simp del]

definition parseLine_doc :: "bytes \<Rightarrow> rawDoc option" where
  "parseLine_doc b =
     (let i = skip_while isWS b 0 in
      if i \<ge> length b \<or> b ! i \<noteq> CHR ''{'' then None else members_from b (i + 1) empty_doc)"

definition isBlank :: "bytes \<Rightarrow> bool" where
  "isBlank line = list_all isWS line"

text \<open>\<open>countDocs\<close>: lines end at a newline.\<close>

function countDocs :: "bytes \<Rightarrow> nat" where
  "countDocs data =
     (if data = [] then 0
      else let line = takeWhile (\<lambda>c. c \<noteq> CHR 0x0A) data
        in (if \<not> isBlank line then 1 else 0) + countDocs (drop (length line + 1) data))"
  by pat_completeness auto
termination by (relation "measure length") auto

declare countDocs.simps [simp del]

section \<open>Reading back what was written\<close>

text \<open>The ways to write a piece of a string: a plain byte, a backslash before any byte but \<open>u\<close>, four hexadecimal
  digits, and a surrogate pair.\<close>

datatype piece = Lit byte | Esc byte | Uni bytes | Pair bytes bytes

definition piece_ok :: "piece \<Rightarrow> bool" where
  "piece_ok p = (case p of
      Lit c \<Rightarrow> c \<noteq> QUOTE \<and> c \<noteq> BSL
    | Esc c \<Rightarrow> c \<noteq> CHR ''u''
    | Uni h \<Rightarrow> length h = 4 \<and> (case hexVal h of Some r \<Rightarrow> valid_rune r | None \<Rightarrow> False)
    | Pair h l \<Rightarrow> length h = 4 \<and> length l = 4 \<and> (case (hexVal h, hexVal l) of
        (Some r, Some r2) \<Rightarrow> 0xD800 \<le> r \<and> r < 0xDC00 \<and> 0xDC00 \<le> r2 \<and> r2 < 0xE000 | _ \<Rightarrow> False))"

fun print_piece :: "piece \<Rightarrow> bytes" where
  "print_piece (Lit c) = [c]"
| "print_piece (Esc c) = [BSL, c]"
| "print_piece (Uni h) = BSL # CHR ''u'' # h"
| "print_piece (Pair h l) = BSL # CHR ''u'' # h @ BSL # CHR ''u'' # l"

definition escaped :: "byte \<Rightarrow> byte" where
  "escaped c = (if c = CHR ''n'' then CHR 0x0A else if c = CHR ''t'' then CHR 0x09 else if c = CHR ''r'' then CHR 0x0D
     else if c = CHR ''b'' then CHR 0x08 else if c = CHR ''f'' then CHR 0x0C else c)"

fun meaning :: "piece \<Rightarrow> bytes" where
  "meaning (Lit c) = [c]"
| "meaning (Esc c) = [escaped c]"
| "meaning (Uni h) = encode_valid (the (hexVal h))"
| "meaning (Pair h l) = encode_valid (0x10000 + (the (hexVal h) - 0xD800) * 1024 + (the (hexVal l) - 0xDC00))"

definition print_pieces :: "piece list \<Rightarrow> bytes" where
  "print_pieces ps = concat (map print_piece ps)"

definition meaning_all :: "piece list \<Rightarrow> bytes" where
  "meaning_all ps = concat (map meaning ps)"

lemma meaning_all_Cons [simp]: "meaning_all (p # ps) = meaning p @ meaning_all ps"
  by (simp add: meaning_all_def)

lemma lit_step:
  assumes "i < length raw" "raw ! i \<noteq> BSL"
  shows "unescape_from raw i dst = unescape_from raw (i + 1) (dst @ [raw ! i])"
proof -
  let ?t = "\<lambda>i. takeWhile (\<lambda>c. c \<noteq> BSL) (drop i raw)"
  let ?j = "i + 1 + length (?t (i + 1))"
  have d: "drop i raw = raw ! i # drop (i + 1) raw" using assms(1) by (simp add: Cons_nth_drop_Suc)
  have l: "unescape_from raw i dst = unescape_from raw ?j (dst @ raw ! i # ?t (i + 1))"
    using assms by (subst unescape_from.simps) (simp add: d takeWhile_eq_take [symmetric] take_Cons')
  show ?thesis
  proof (cases "?t (i + 1) = []")
    case True
    then show ?thesis using l by simp
  next
    case False
    have i1: "i + 1 < length raw"
    proof (rule ccontr)
      assume "\<not> i + 1 < length raw"
      then show False using False by simp
    qed
    then have d1: "drop (i + 1) raw = raw ! (i + 1) # drop (i + 2) raw" by (simp add: Cons_nth_drop_Suc)
    then have i2: "raw ! (i + 1) \<noteq> BSL" using False by (auto split: if_splits)
    have t1: "?t (i + 1) = raw ! (i + 1) # ?t (i + 2)" unfolding d1 using i2 by simp
    have "unescape_from raw (i + 1) (dst @ [raw ! i]) = unescape_from raw (i + 2 + length (?t (i + 2))) (dst @ [raw ! i] @ raw ! (i + 1) # ?t (i + 2))"
      using i1 i2 d1 by (subst unescape_from.simps) (simp add: takeWhile_eq_take [symmetric])
    then show ?thesis unfolding l t1 by simp
  qed
qed

lemma hexVal_prefix: "length h = 4 \<Longrightarrow> hexVal (h @ r) = hexVal h"
  by (simp add: hexVal_def)

lemma unescape_pieces:
  "\<forall>p \<in> set ps. piece_ok p \<Longrightarrow> drop i raw = print_pieces ps \<Longrightarrow> unescape_from raw i dst = dst @ meaning_all ps"
proof (induction ps arbitrary: i dst)
  case Nil
  then have "length raw \<le> i" by (simp add: print_pieces_def)
  then show ?case by (subst unescape_from.simps) (simp add: meaning_all_def)
next
  case (Cons p ps)
  have pk: "piece_ok p" using Cons.prems(1) by simp
  have d: "drop i raw = print_piece p @ print_pieces ps" using Cons.prems(2) by (simp add: print_pieces_def)
  have IH: "unescape_from raw (i + length (print_piece p)) dst' = dst' @ meaning_all ps" for dst'
    using Cons.IH [OF _ drop_more [OF d]] Cons.prems(1) by simp
  have esc: "unescape_from raw i dst = (case escape_at raw i dst of (d, j) \<Rightarrow> unescape_from raw j d)"
    if "drop i raw = BSL # c # r" for c r
  proof -
    have "i < length raw" "raw ! i = BSL" "drop (i + 1) raw = c # r" using drop_less [OF that] by auto
    moreover from drop_less [OF this(3)] have "i + 1 < length raw" by simp
    ultimately show ?thesis by (subst unescape_from.simps) simp
  qed
  show ?case
  proof (cases p)
    case (Lit c)
    have "i < length raw" "raw ! i = c" using drop_less [of i raw c] d Lit by auto
    then show ?thesis using lit_step [of i raw dst] pk IH [of "dst @ [c]"] by (simp add: Lit piece_ok_def)
  next
    case (Esc c)
    have d0: "drop i raw = BSL # c # print_pieces ps" using d Esc by simp
    have "raw ! (i + 1) = c" using drop_less [OF d0] drop_less [of "i + 1" raw c] by auto
    then have "escape_at raw i dst = (dst @ [escaped c], i + 2)" using pk by (simp add: escape_at_def escaped_def Esc piece_ok_def Let_def)
    then show ?thesis using esc [OF d0] IH [of "dst @ [escaped c]"] by (simp add: Esc)
  next
    case (Uni h)
    have d0: "drop i raw = BSL # CHR ''u'' # h @ print_pieces ps" using d Uni by simp
    have d1: "raw ! (i + 1) = CHR ''u''" "drop (i + 2) raw = h @ print_pieces ps"
      using drop_less [OF d0] drop_less [of "i + 1" raw] by auto
    obtain r where r: "hexVal h = Some r" "valid_rune r" "length h = 4" using pk by (auto simp: Uni piece_ok_def split: option.splits)
    have f: "(0xD800 \<le> r \<and> r < 0xDC00) = False" "(0xDC00 \<le> r \<and> r < 0xE000) = False" using r(2) by (auto simp: valid_rune_def)
    then have "escape_at raw i dst = (append_rune dst r, i + 6)"
      unfolding escape_at_def Let_def d1 hexVal_prefix [OF r(3)] r(1) option.case f if_False by simp
    then show ?thesis using esc [OF d0] IH [of "append_rune dst r"] r by (simp add: Uni append_rune_def)
  next
    case (Pair h l)
    have d0: "drop i raw = BSL # CHR ''u'' # h @ BSL # CHR ''u'' # l @ print_pieces ps" using d Pair by simp
    have d1: "raw ! (i + 1) = CHR ''u''" "drop (i + 2) raw = h @ BSL # CHR ''u'' # l @ print_pieces ps"
      using drop_less [OF d0] drop_less [of "i + 1" raw] by auto
    obtain r r2 where r: "hexVal h = Some r" "length h = 4" "hexVal l = Some r2" "length l = 4" "0xD800 \<le> r" "r < 0xDC00" "0xDC00 \<le> r2" "r2 < 0xE000"
      using pk by (auto simp: Pair piece_ok_def split: option.splits)
    have d2: "drop (i + 6) raw = BSL # CHR ''u'' # l @ print_pieces ps" using drop_more [OF d1(2)] r(2) by (simp add: add.commute)
    have d3: "raw ! (i + 6) = BSL" "raw ! (i + 7) = CHR ''u''" "drop (i + 8) raw = l @ print_pieces ps"
      using drop_less [OF d2] drop_less [of "i + 7" raw] by (auto simp: add.commute)
    have len: "i + 12 \<le> length raw"
    proof -
      have "length raw - (i + 8) \<ge> 4" using arg_cong [OF d3(3), of length] r(4) by simp
      then show ?thesis by simp
    qed
    let ?u = "0x10000 + (r - 0xD800) * 1024 + (r2 - 0xDC00)"
    have v: "valid_rune ?u" using r(5-8) by (simp add: valid_rune_def)
    have "escape_at raw i dst = (append_rune dst ?u, i + 12)"
    proof -
      have hi: "0xD800 \<le> r \<and> r < 0xDC00" and lo: "0xDC00 \<le> r2 \<and> r2 < 0xE000" using r by auto
      have nx: "i + 2 + 4 + 6 \<le> length raw \<and> raw ! (i + 2 + 4) = BSL \<and> raw ! (i + 2 + 4 + 1) = CHR ''u''"
        using len d3 by (simp add: add.commute)
      have "drop (i + 2 + 4 + 2) raw = l @ print_pieces ps" using d3(3) by (simp add: add.commute)
      then have hx: "hexVal (drop (i + 2 + 4 + 2) raw) = Some r2" using hexVal_prefix [OF r(4)] r(3) by simp
      show ?thesis
        unfolding escape_at_def Let_def d1 hexVal_prefix [OF r(2)] r(1) option.case if_P [OF hi] if_P [OF nx] hx if_P [OF lo] by simp
    qed
    then show ?thesis using esc [OF d0] IH [of "append_rune dst ?u"] r v by (simp add: Pair append_rune_def add.assoc)
  qed
qed

text \<open>Scanning over a written string.\<close>

definition has_escape :: "piece list \<Rightarrow> bool" where
  "has_escape ps = list_ex (\<lambda>p. case p of Lit c \<Rightarrow> False | _ \<Rightarrow> True) ps"

lemma scan_plain:
  "drop j b = xs @ r \<Longrightarrow> \<forall>c \<in> set xs. c \<noteq> QUOTE \<and> c \<noteq> BSL \<Longrightarrow> scan_loop b i j esc = scan_loop b i (j + length xs) esc"
proof (induction xs arbitrary: j)
  case (Cons x xs)
  have d: "j < length b" "b ! j = x" "drop (j + 1) b = xs @ r" using drop_less [of j b x "xs @ r"] Cons.prems(1) by auto
  have "scan_loop b i j esc = scan_loop b i (j + 1) esc" using d Cons.prems(2) by (subst scan_loop.simps) simp
  then show ?case using Cons.IH [OF d(3)] Cons.prems(2) by simp
qed simp

lemma scan_escape: "drop j b = BSL # c # r \<Longrightarrow> scan_loop b i j esc = scan_loop b i (j + 2) True"
  using drop_less [of j b BSL "c # r"] by (subst scan_loop.simps) (simp add: BSL_def QUOTE_def)

lemma hex_run_digits: "hex_run h r = Some v \<Longrightarrow> \<forall>c \<in> set h. hex_digit c \<noteq> None"
  by (induction h arbitrary: r) (auto split: option.splits)

lemma hex_plain: "length h = 4 \<Longrightarrow> hexVal h = Some r \<Longrightarrow> \<forall>c \<in> set h. c \<noteq> QUOTE \<and> c \<noteq> BSL"
proof -
  assume "length h = 4" "hexVal h = Some r"
  then have "\<forall>c \<in> set h. hex_digit c \<noteq> None" using hex_run_digits by (auto simp: hexVal_def)
  moreover have "hex_digit QUOTE = None" "hex_digit BSL = None" by code_simp+
  ultimately show ?thesis by metis
qed

lemma scan_hex:
  assumes d: "drop j b = BSL # CHR ''u'' # h @ r" and h: "length h = 4" "hexVal h = Some v"
  shows "scan_loop b i j esc = scan_loop b i (j + 6) True"
proof -
  have "drop (j + 2) b = h @ r" using drop_more [of j b "[BSL, CHR ''u'']" "h @ r"] d by simp
  from scan_plain [OF this hex_plain [OF h]] show ?thesis using scan_escape [OF d] h(1) by (simp add: add.commute)
qed

lemma scan_piece:
  assumes p: "piece_ok p" and d: "drop j b = print_piece p @ r"
  shows "scan_loop b i j esc = scan_loop b i (j + length (print_piece p)) (esc \<or> has_escape [p])"
proof (cases p)
  case (Lit c)
  then show ?thesis using scan_plain [OF d] p by (simp add: piece_ok_def has_escape_def)
next
  case (Esc c)
  then show ?thesis using scan_escape [of j b c r] d by (simp add: has_escape_def)
next
  case (Uni h)
  then obtain v where "length h = 4" "hexVal h = Some v" using p by (auto simp: piece_ok_def split: option.splits)
  then show ?thesis using scan_hex [of j b h r] d Uni by (simp add: has_escape_def)
next
  case (Pair h l)
  obtain v w where h: "length h = 4" "hexVal h = Some v" "length l = 4" "hexVal l = Some w" using p by (auto simp: Pair piece_ok_def split: option.splits)
  have d0: "drop j b = BSL # CHR ''u'' # h @ BSL # CHR ''u'' # l @ r" using d Pair by simp
  have "drop (j + 6) b = BSL # CHR ''u'' # l @ r" using drop_more [of j b "BSL # CHR ''u'' # h"] d0 h(1) by simp
  from scan_hex [OF this h(3,4)] scan_hex [OF d0 h(1,2)] show ?thesis using h by (simp add: Pair has_escape_def add.commute)
qed

lemma scan_pieces:
  "\<forall>p \<in> set ps. piece_ok p \<Longrightarrow> drop j b = print_pieces ps @ r \<Longrightarrow>
     scan_loop b i j esc = scan_loop b i (j + length (print_pieces ps)) (esc \<or> has_escape ps)"
proof (induction ps arbitrary: j esc)
  case (Cons p ps)
  have d: "drop j b = print_piece p @ print_pieces ps @ r" using Cons.prems(2) by (simp add: print_pieces_def)
  have "scan_loop b i j esc = scan_loop b i (j + length (print_piece p)) (esc \<or> has_escape [p])"
    using scan_piece [OF _ d] Cons.prems(1) by simp
  also have "\<dots> = scan_loop b i (j + length (print_piece p) + length (print_pieces ps)) ((esc \<or> has_escape [p]) \<or> has_escape ps)"
    using Cons.IH [OF _ drop_more [OF d]] Cons.prems(1) by simp
  finally show ?case by (simp add: print_pieces_def has_escape_def add.assoc)
qed (simp add: print_pieces_def has_escape_def)

lemma scanString_pieces:
  assumes "\<forall>p \<in> set ps. piece_ok p" "drop i b = QUOTE # print_pieces ps @ QUOTE # r"
  shows "scanString b i = Some (print_pieces ps, i + length (print_pieces ps) + 2, has_escape ps)"
proof -
  let ?k = "i + 1 + length (print_pieces ps)"
  have d: "drop (i + 1) b = print_pieces ps @ QUOTE # r" using drop_less [OF assms(2)] by simp
  have k: "?k < length b" "b ! ?k = QUOTE" using drop_less [OF drop_more [OF d]] by auto
  have "scanString b i = scan_loop b i ?k (has_escape ps)" using scan_pieces [OF assms(1) d, of i False] by (simp add: scanString_def)
  also have "\<dots> = Some (take (?k - (i + 1)) (drop (i + 1) b), ?k + 1, has_escape ps)" using k by (subst scan_loop.simps) simp
  finally show ?thesis using d by simp
qed

lemma skip_while_at: "drop i b = xs @ c # r \<Longrightarrow> \<forall>x \<in> set xs. p x \<Longrightarrow> \<not> p c \<Longrightarrow> skip_while p b i = i + length xs"
  by (simp add: skip_while_def takeWhile_append2)

text \<open>One member of an object.\<close>

definition plain :: "bytes \<Rightarrow> bool" where
  "plain key \<longleftrightarrow> (\<forall>c \<in> set key. c \<noteq> QUOTE \<and> c \<noteq> BSL)"

lemma plain_pieces: "plain key \<Longrightarrow> (\<forall>p \<in> set (map Lit key). piece_ok p) \<and> print_pieces (map Lit key) = key"
  by (induction key) (auto simp: plain_def piece_ok_def print_pieces_def)

lemma member_step:
  assumes d: "drop i0 b = pre @ QUOTE # key @ QUOTE # CHR '':'' # CHR '' '' # v # r"
    and pre: "\<forall>c \<in> set pre. isWS c \<or> c = CHR '',''" and key: "plain key" and v: "\<not> isWS v"
  shows "members_from b i0 d0 = (case member_value b key (i0 + length pre + length key + 4) d0 of None \<Rightarrow> None | Some (d', n) \<Rightarrow> members_from b n d')"
proof -
  let ?i = "i0 + length pre"
  have s1: "skip_while (\<lambda>c. isWS c \<or> c = CHR '','') b i0 = ?i"
    by (rule skip_while_at [OF d]) (use pre in \<open>auto simp: isWS_def QUOTE_def\<close>)
  have d1: "drop ?i b = QUOTE # key @ QUOTE # CHR '':'' # CHR '' '' # v # r" by (rule drop_more [OF d])
  have i: "?i < length b" "b ! ?i = QUOTE" using drop_less [OF d1] by auto
  have sc: "scanString b ?i = Some (key, ?i + length key + 2, has_escape (map Lit key))"
    using scanString_pieces [of "map Lit key" ?i b] plain_pieces [OF key] d1 by simp
  let ?j = "?i + length key + 2"
  have d2: "drop ?j b = CHR '':'' # CHR '' '' # v # r"
    using drop_more [of ?i b "QUOTE # key @ [QUOTE]"] d1 by simp
  have s2: "skip_while isWS b ?j = ?j" using skip_while_at [of ?j b "[]"] d2 by (simp add: isWS_def)
  have j: "?j < length b" "b ! ?j = CHR '':''" "drop (?j + 1) b = CHR '' '' # v # r" using drop_less [OF d2] by auto
  have s3: "skip_while isWS b (?j + 1) = i0 + length pre + length key + 4" using skip_while_at [of "?j + 1" b "[CHR '' '']"] j(3) v by (simp add: isWS_def)
  have k: "?j + 2 < length b" using drop_less [OF drop_less [OF j(3), THEN conjunct2, THEN conjunct2]] by simp
  have c: "\<not> length b \<le> ?i" "b ! ?i \<noteq> CHR ''}''" "\<not> b ! ?i \<noteq> QUOTE" "\<not> (length b \<le> ?j \<or> b ! ?j \<noteq> CHR '':'')" "\<not> length b \<le> i0 + length pre + length key + 4"
    using i j k by (simp_all add: QUOTE_def)
  show ?thesis
    unfolding members_from.simps [of b i0 d0] Let_def s1 if_not_P [OF c(1)] if_not_P [OF c(2)] if_not_P [OF c(3)] sc option.case prod.case
      s2 if_not_P [OF c(4)] s3 if_not_P [OF c(5)] ..
qed


lemma string_member:
  assumes ps: "\<forall>p \<in> set ps. piece_ok p" and d: "drop i b = QUOTE # print_pieces ps @ QUOTE # r" and k: "key = ''title'' \<or> key = ''text''"
  shows "member_value b key i d0 = Some (if key = ''title'' then d0\<lparr>title := print_pieces ps, titleEsc := has_escape ps\<rparr>
           else d0\<lparr>dtext := print_pieces ps, textEsc := has_escape ps\<rparr>, i + length (print_pieces ps) + 2)"
proof -
  have "b ! i = QUOTE" using drop_less [OF d] by simp
  then show ?thesis using scanString_pieces [OF ps d] k by (auto simp: member_value_def)
qed

lemma id_member:
  assumes ds: "\<forall>c \<in> set ds. is_digit c" and d: "drop i b = ds @ c # r" "\<not> is_digit c"
  shows "member_value b ''id'' i d0 = Some (d0\<lparr>rid := ucast (read_id ds)\<rparr>, i + length ds)"
  using ds d by (simp add: member_value_def Let_def takeWhile_append2)

lemma read_id_dec: "\<forall>c \<in> set ds. is_digit c \<Longrightarrow> read_id ds = of_nat (dec_val ds)"
proof (induction ds rule: rev_induct)
  case (snoc c cs)
  then have "read_id cs = of_nat (dec_val cs)" by simp
  then show ?case by (simp add: read_id_def digit_val_def of_nat_mult)
qed (simp add: read_id_def)

definition print_member :: "bytes \<Rightarrow> bytes \<Rightarrow> bytes" where
  "print_member key v = QUOTE # key @ QUOTE # CHR '':'' # CHR '' '' # v"

definition print_string :: "piece list \<Rightarrow> bytes" where
  "print_string ps = QUOTE # print_pieces ps @ [QUOTE]"

definition print_doc :: "nat \<Rightarrow> piece list \<Rightarrow> piece list \<Rightarrow> bytes" where
  "print_doc n ps qs = ''{'' @ print_member ''id'' (udigits n) @ '', '' @ print_member ''title'' (print_string ps)
     @ '', '' @ print_member ''text'' (print_string qs) @ ''}''"

lemma bval_not_WS: "is_digit c \<Longrightarrow> \<not> isWS c"
  by (auto simp: is_digit_iff isWS_def)

lemma members_end: "drop i b = CHR ''}'' # r \<Longrightarrow> members_from b i d = Some d"
proof -
  assume d: "drop i b = CHR ''}'' # r"
  have "skip_while (\<lambda>c. isWS c \<or> c = CHR '','') b i = i" using skip_while_at [of i b "[]"] d by (simp add: isWS_def)
  then show ?thesis using drop_less [OF d] by (subst members_from.simps) simp
qed

lemma parseLine_fields:
  assumes ps: "\<forall>p \<in> set ps. piece_ok p" and qs: "\<forall>p \<in> set qs. piece_ok p"
  shows "parseLine_doc (print_doc n ps qs) = Some \<lparr>rid = ucast (of_nat n :: 64 word), title = print_pieces ps, dtext = print_pieces qs,
           titleEsc = has_escape ps, textEsc = has_escape qs\<rparr>"
proof -
  let ?b = "print_doc n ps qs"
  obtain c ds where u: "udigits n = c # ds" by (cases "udigits n") auto
  have c: "\<not> isWS c" using udigits_digits [of n] u by (intro bval_not_WS) simp
  have q: "\<not> isWS QUOTE" "\<not> is_digit (CHR '','')" by (simp_all add: isWS_def QUOTE_def is_digit_iff)
  let ?t3 = "'', '' @ print_member ''text'' (print_string qs) @ ''}''"
  let ?t2 = "'', '' @ print_member ''title'' (print_string ps) @ ?t3"
  have p: "plain ''id''" "plain ''title''" "plain ''text''" by (simp_all add: plain_def QUOTE_def BSL_def)
  have b1: "drop 1 ?b = [] @ QUOTE # ''id'' @ QUOTE # CHR '':'' # CHR '' '' # c # ds @ ?t2"
    by (simp add: print_doc_def print_member_def u)
  have b1v: "drop 7 ?b = udigits n @ CHR '','' # tl ?t2" by (simp add: print_doc_def print_member_def)
  let ?n1 = "7 + length (udigits n)"
  have b2: "drop ?n1 ?b = '', '' @ QUOTE # ''title'' @ QUOTE # CHR '':'' # CHR '' '' # QUOTE # print_pieces ps @ QUOTE # ?t3"
    using drop_more [OF b1v] by (simp add: print_member_def print_string_def)
  let ?m2 = "?n1 + length '', '' + length ''title'' + 4"
  have b2v: "drop ?m2 ?b = QUOTE # print_pieces ps @ QUOTE # ?t3"
    using drop_more [of ?n1 ?b "'', '' @ QUOTE # ''title'' @ QUOTE # '': ''" "QUOTE # print_pieces ps @ QUOTE # ?t3"] b2 by simp
  let ?n2 = "?m2 + length (print_pieces ps) + 2"
  have b3: "drop ?n2 ?b = '', '' @ QUOTE # ''text'' @ QUOTE # CHR '':'' # CHR '' '' # QUOTE # print_pieces qs @ QUOTE # ''}''"
    using drop_more [of ?m2 ?b "QUOTE # print_pieces ps @ [QUOTE]" ?t3] b2v by (simp add: print_member_def print_string_def)
  let ?m3 = "?n2 + length '', '' + length ''text'' + 4"
  have b3v: "drop ?m3 ?b = QUOTE # print_pieces qs @ QUOTE # ''}''"
    using drop_more [of ?n2 ?b "'', '' @ QUOTE # ''text'' @ QUOTE # '': ''" "QUOTE # print_pieces qs @ QUOTE # ''}''"] b3 by simp
  let ?n3 = "?m3 + length (print_pieces qs) + 2"
  have b4: "drop ?n3 ?b = CHR ''}'' # []"
    using drop_more [of ?m3 ?b "QUOTE # print_pieces qs @ [QUOTE]" "''}''"] b3v by simp
  let ?d1 = "empty_doc\<lparr>rid := ucast (of_nat n :: 64 word)\<rparr>"
  let ?d2 = "?d1\<lparr>title := print_pieces ps, titleEsc := has_escape ps\<rparr>"
  let ?d3 = "?d2\<lparr>dtext := print_pieces qs, textEsc := has_escape qs\<rparr>"
  have v1: "member_value ?b ''id'' (1 + length [] + length ''id'' + 4) empty_doc = Some (?d1, ?n1)"
    using id_member [OF udigits_digits b1v q(2), of empty_doc] by (simp add: read_id_dec [OF udigits_digits])
  have v2: "member_value ?b ''title'' ?m2 ?d1 = Some (?d2, ?n2)"
    using string_member [OF ps b2v, of "''title''" ?d1] by simp
  have v3: "member_value ?b ''text'' ?m3 ?d2 = Some (?d3, ?n3)"
    using string_member [OF qs b3v, of "''text''" ?d2] by simp
  have sep: "\<forall>c \<in> set '', ''. isWS c \<or> c = CHR '',''" by (simp add: isWS_def)
  have "members_from ?b 1 empty_doc = members_from ?b ?n1 ?d1"
    by (rule trans [OF member_step [OF b1 _ p(1) c]]) (simp_all only: v1 option.case prod.case list.set empty_iff ball_empty HOL.simp_thms)
  also have "\<dots> = members_from ?b ?n2 ?d2"
    by (rule trans [OF member_step [OF b2 sep p(2) q(1)]]) (simp only: v2 option.case prod.case)
  also have "\<dots> = members_from ?b ?n3 ?d3"
    by (rule trans [OF member_step [OF b3 sep p(3) q(1)]]) (simp only: v3 option.case prod.case)
  also have "\<dots> = Some ?d3" by (rule members_end [OF b4])
  finally have m: "members_from ?b 1 empty_doc = Some ?d3" .
  have h: "drop 0 ?b = [] @ CHR ''{'' # tl ?b" by (simp add: print_doc_def)
  have "skip_while isWS ?b 0 = 0" using skip_while_at [OF h, of isWS] by (simp add: isWS_def)
  then show ?thesis using m drop_less [of 0 ?b "CHR ''{''" "tl ?b"] h by (simp add: parseLine_doc_def empty_doc_def)
qed

text \<open>
  \<^bold>\<open>C37\<close> A document line is read back to what it stands for: for any identifier and any title and text written with any
  mixture of plain bytes, backslash escapes, four-digit escapes and surrogate pairs, \<open>parseLine\<close> succeeds with the
  identifier modulo \<open>2 ^ 32\<close>, \<open>unescape\<close> turns the two raw strings into the intended UTF-8 bytes, and where
  the escape flag is off the raw string, which the indexer then uses as it is, already is the intended one.
\<close>
theorem parseLine_printed:
  assumes "\<forall>p \<in> set ps. piece_ok p" and "\<forall>p \<in> set qs. piece_ok p"
  shows "\<exists>d. parseLine_doc (print_doc n ps qs) = Some d \<and> unat (rid d) = n mod 2 ^ 32
    \<and> unescape [] (title d) = meaning_all ps \<and> unescape [] (dtext d) = meaning_all qs
    \<and> (titleEsc d \<or> title d = meaning_all ps) \<and> (textEsc d \<or> dtext d = meaning_all qs)"
proof -
  have un: "\<forall>p \<in> set ps. piece_ok p \<Longrightarrow> unescape [] (print_pieces ps) = meaning_all ps" for ps
    using unescape_pieces [of ps 0 "print_pieces ps" "[]"] by (simp add: unescape_def)
  have pl: "has_escape ps \<or> print_pieces ps = meaning_all ps" for ps
    by (induction ps) (auto simp: has_escape_def print_pieces_def meaning_all_def split: piece.splits)
  have "unat (ucast (of_nat n :: 64 word) :: 32 word) = n mod 2 ^ 32"
    by (simp add: unsigned_ucast_eq unat_of_nat take_bit_eq_mod mod_mod_cancel)
  then show ?thesis using parseLine_fields [OF assms] un [OF assms(1)] un [OF assms(2)] pl by simp
qed

theorem parseLine_printed_witness:
  "\<exists>d. parseLine_doc (print_doc 7 [Lit CHR ''a'', Esc CHR ''n''] [Uni ''20ac'', Pair ''d83d'' ''DE00'']) = Some d \<and> unat (rid d) = 7 mod 2 ^ 32
    \<and> unescape [] (title d) = meaning_all [Lit CHR ''a'', Esc CHR ''n''] \<and> unescape [] (dtext d) = meaning_all [Uni ''20ac'', Pair ''d83d'' ''DE00'']
    \<and> (titleEsc d \<or> title d = meaning_all [Lit CHR ''a'', Esc CHR ''n''])
    \<and> (textEsc d \<or> dtext d = meaning_all [Uni ''20ac'', Pair ''d83d'' ''DE00''])"
proof -
  have a: "\<forall>p \<in> set [Lit CHR ''a'', Esc CHR ''n'']. piece_ok p" by (simp add: piece_ok_def QUOTE_def BSL_def)
  have "hexVal ''20ac'' = Some 0x20AC" "hexVal ''d83d'' = Some 0xD83D" "hexVal ''DE00'' = Some 0xDE00"
    by (simp_all add: hexVal_def hex_digit_def char_le_iff)
  then have b: "\<forall>p \<in> set [Uni ''20ac'', Pair ''d83d'' ''DE00'']. piece_ok p" by (simp add: piece_ok_def valid_rune_def)
  show ?thesis by (rule parseLine_printed [OF a b])
qed

end
