(* ===== verification/Search_Cursor.thy ===== *)
theory Search_Cursor
  imports Search_Varint "HOL-Library.Monad_Syntax"
begin

text \<open>
  The posting lists of the search engine: the dictionary entry of a term and the cursor over its documents
  (\<open>search/impl/go-1/serve.go\<close>). A read outside a slice panics in Go and is \<open>None\<close> here. The lemmas show that a
  cursor over a posting list, laid out in blocks of 128 documents with a skip table, walks over the documents in
  order and that \<open>advance\<close> stops at the first document not below its target.
\<close>

section \<open>Slices\<close>

definition idx :: "'a list \<Rightarrow> nat \<Rightarrow> 'a option" where
  "idx xs i = (if i < length xs then Some (xs ! i) else None)"

definition slice_from :: "'a list \<Rightarrow> nat \<Rightarrow> 'a list option" where
  "slice_from xs i = (if i \<le> length xs then Some (drop i xs) else None)"

definition slice_to :: "'a list \<Rightarrow> nat \<Rightarrow> 'a list option" where
  "slice_to xs i = (if i \<le> length xs then Some (take i xs) else None)"

definition store_at :: "'a list \<Rightarrow> nat \<Rightarrow> 'a \<Rightarrow> 'a list option" where
  "store_at xs i x = (if i < length xs then Some (xs[i := x]) else None)"

definition le32 :: "bytes \<Rightarrow> nat \<Rightarrow> 32 word option" where
  "le32 b i = (if i + 4 \<le> length b then Some (ucast (le_word (take 4 (drop i b)))) else None)"

definition le64 :: "bytes \<Rightarrow> nat \<Rightarrow> 64 word option" where
  "le64 b i = (if i + 8 \<le> length b then Some (le_word (take 8 (drop i b))) else None)"

section \<open>The cursor\<close>

definition docsPerBlock :: nat where "docsPerBlock = 128"
definition endDoc :: "32 word" where "endDoc = NOT 0"

record dict =
  dcount :: nat
  entries :: bytes
  blob :: bytes
  ddocs :: bytes
  dpos :: bytes

record termEntry =
  edf :: "32 word"
  docOff :: "64 word"
  posOff :: "64 word"
  edict :: dict

record cursor =
  df :: "32 word"
  nblocks :: nat
  skip :: "bytes option"
  blocks :: bytes
  cpos :: bytes
  posOff0 :: "64 word"
  blk :: nat
  cn :: nat
  ci :: nat
  doc :: "32 word"
  docs :: "32 word list"
  tfs :: "32 word list"
  pj :: nat
  pp :: nat

definition zero_cursor :: cursor where
  "zero_cursor = \<lparr>df = 0, nblocks = 0, skip = None, blocks = [], cpos = [], posOff0 = 0, blk = 0, cn = 0, ci = 0, doc = 0,
     docs = replicate docsPerBlock 0, tfs = replicate docsPerBlock 0, pj = 0, pp = 0\<rparr>"

definition lastDoc :: "cursor \<Rightarrow> nat \<Rightarrow> 32 word option" where
  "lastDoc c b = (case skip c of None \<Rightarrow> Some (endDoc - 1) | Some s \<Rightarrow> le32 s (16 * b))"

fun read_docs :: "bytes \<Rightarrow> nat \<Rightarrow> nat \<Rightarrow> nat \<Rightarrow> 32 word \<Rightarrow> 32 word list \<Rightarrow> (32 word list \<times> nat) option" where
  "read_docs b p 0 i prev ds = Some (ds, p)"
| "read_docs b p (Suc m) i prev ds = do {
     (v, p) \<leftarrow> uvarint b p;
     ds \<leftarrow> store_at ds i (prev + ucast v);
     read_docs b p m (i + 1) (prev + ucast v) ds }"

fun read_tfs :: "bytes \<Rightarrow> nat \<Rightarrow> nat \<Rightarrow> nat \<Rightarrow> 32 word list \<Rightarrow> (32 word list \<times> nat) option" where
  "read_tfs b p 0 i ts = Some (ts, p)"
| "read_tfs b p (Suc m) i ts = do {
     (v, p) \<leftarrow> uvarint b p;
     ts \<leftarrow> store_at ts i (ucast v);
     read_tfs b p m (i + 1) ts }"

text \<open>Where a block starts in the block bytes and in the positions, and the document before it.\<close>

definition block_start :: "cursor \<Rightarrow> nat \<Rightarrow> (nat \<times> nat \<times> 32 word) option" where
  "block_start c b = (case skip c of
      None \<Rightarrow> Some (0, unat (posOff0 c), 0)
    | Some s \<Rightarrow> do {
        off \<leftarrow> le32 s (16 * b + 4);
        pp \<leftarrow> le64 s (16 * b + 8);
        prev \<leftarrow> (if b > 0 then le32 s (16 * (b - 1)) else Some 0);
        Some (unat off, unat pp, prev) })"

definition loadBlock :: "nat \<Rightarrow> cursor \<Rightarrow> cursor option" where
  "loadBlock b c = do {
     (off, p0, prev) \<leftarrow> block_start c b;
     let n = (if b + 1 = nblocks c then unat (df c) - docsPerBlock * (nblocks c - 1) else docsPerBlock);
     (ds, p) \<leftarrow> read_docs (blocks c) off n 0 prev (docs c);
     (ts, p) \<leftarrow> read_tfs (blocks c) p n 0 (tfs c);
     Some (c\<lparr>blk := b, cn := n, docs := ds, tfs := ts, pj := 0, pp := p0\<rparr>) }"

definition cursor_init :: "termEntry \<Rightarrow> cursor option" where
  "cursor_init e = do {
     let nb = unat ((edf e + 127) div 128);
     data \<leftarrow> slice_from (ddocs (edict e)) (unat (docOff e));
     (s, data) \<leftarrow> (if nb > 1 then do { s \<leftarrow> slice_to data (16 * nb); data \<leftarrow> slice_from data (16 * nb); Some (Some s, data) }
                  else Some (None, data));
     c \<leftarrow> loadBlock 0 (zero_cursor\<lparr>df := edf e, nblocks := nb, skip := s, blocks := data, cpos := dpos (edict e), posOff0 := posOff e\<rparr>);
     d \<leftarrow> idx (docs c) 0;
     Some (c\<lparr>ci := 0, doc := d\<rparr>) }"

definition cursor_next :: "cursor \<Rightarrow> cursor option" where
  "cursor_next c =
     (if ci c + 1 \<ge> cn c then
        if blk c + 1 \<ge> nblocks c then Some (c\<lparr>doc := endDoc, ci := cn c\<rparr>)
        else do { c \<leftarrow> loadBlock (blk c + 1) c; d \<leftarrow> idx (docs c) 0; Some (c\<lparr>ci := 0, doc := d\<rparr>) }
      else do { d \<leftarrow> idx (docs c) (ci c + 1); Some (c\<lparr>ci := ci c + 1, doc := d\<rparr>) })"

text \<open>The binary search over the last documents of the blocks, and the scan inside a block.\<close>

function find_block :: "cursor \<Rightarrow> 32 word \<Rightarrow> nat \<Rightarrow> nat \<Rightarrow> nat option" where
  "find_block c t lo hi =
     (if lo < hi then
        let m = (lo + hi) div 2 in
        case lastDoc c m of None \<Rightarrow> None
        | Some l \<Rightarrow> if l \<ge> t then find_block c t lo m else find_block c t (m + 1) hi
      else Some lo)"
  by pat_completeness auto
termination by (relation "measure (\<lambda>(c, t, lo, hi). hi - lo)") auto

declare find_block.simps [simp del]

function scan_block :: "32 word list \<Rightarrow> 32 word \<Rightarrow> nat \<Rightarrow> nat \<Rightarrow> nat option" where
  "scan_block ds t n i =
     (if i < n then case idx ds i of None \<Rightarrow> None | Some d \<Rightarrow> if d < t then scan_block ds t n (i + 1) else Some i
      else Some i)"
  by pat_completeness auto
termination by (relation "measure (\<lambda>(ds, t, n, i). n - i)") auto

declare scan_block.simps [simp del]

definition advance_in_block :: "32 word \<Rightarrow> cursor \<Rightarrow> cursor option" where
  "advance_in_block t c = do {
     i \<leftarrow> scan_block (docs c) t (cn c) (ci c);
     if i \<ge> cn c then Some (c\<lparr>ci := cn c, doc := endDoc\<rparr>)
     else do { d \<leftarrow> idx (docs c) i; Some (c\<lparr>ci := i, doc := d\<rparr>) } }"

definition advance :: "32 word \<Rightarrow> cursor \<Rightarrow> cursor option" where
  "advance t c =
     (if doc c \<ge> t then Some c
      else do {
        l \<leftarrow> lastDoc c (blk c);
        if t > l then do {
          lo \<leftarrow> find_block c t (blk c + 1) (nblocks c);
          if lo \<ge> nblocks c then Some (c\<lparr>doc := endDoc, blk := nblocks c - 1, ci := cn c\<rparr>)
          else do { c \<leftarrow> loadBlock lo c; advance_in_block t (c\<lparr>ci := 0\<rparr>) } }
        else advance_in_block t c })"

definition tf :: "cursor \<Rightarrow> 32 word option" where
  "tf c = idx (tfs c) (ci c)"

definition posStart :: "cursor \<Rightarrow> (nat \<times> cursor) option" where
  "posStart c =
     (if pj c < ci c then
        if ci c \<le> length (tfs c) then do {
          let n = sum_list (map unat (take (ci c - pj c) (drop (pj c) (tfs c))));
          p \<leftarrow> skipVarints (cpos c) (pp c) (int n);
          Some (p, c\<lparr>pp := p, pj := ci c\<rparr>) }
        else None
      else Some (pp c, c))"

section \<open>The layout of a posting list\<close>

text \<open>A posting is a document with the deltas of its positions.\<close>

record posting =
  pdoc :: "32 word"
  ppos :: "64 word list"

definition ptf :: "posting \<Rightarrow> 32 word" where
  "ptf p = of_nat (length (ppos p))"

definition pos_bytes :: "posting list \<Rightarrow> bytes" where
  "pos_bytes ps = concat (map (\<lambda>p. concat (map enc (ppos p))) ps)"

fun deltas :: "32 word \<Rightarrow> 32 word list \<Rightarrow> 64 word list" where
  "deltas prev [] = []"
| "deltas prev (d # ds) = ucast (d - prev) # deltas d ds"

definition block_bytes :: "32 word \<Rightarrow> posting list \<Rightarrow> bytes" where
  "block_bytes prev ps = concat (map enc (deltas prev (map pdoc ps))) @ concat (map (\<lambda>p. enc (ucast (ptf p))) ps)"

definition block :: "posting list \<Rightarrow> nat \<Rightarrow> posting list" where
  "block ps b = take docsPerBlock (drop (docsPerBlock * b) ps)"

definition before :: "posting list \<Rightarrow> nat \<Rightarrow> 32 word" where
  "before ps b = (if b = 0 then 0 else pdoc (ps ! (min (docsPerBlock * b) (length ps) - 1)))"

definition block_count :: "posting list \<Rightarrow> nat" where
  "block_count ps = (length ps + 127) div docsPerBlock"

definition blocks_bytes :: "posting list \<Rightarrow> nat \<Rightarrow> bytes" where
  "blocks_bytes ps n = concat (map (\<lambda>b. block_bytes (before ps b) (block ps b)) [0..<n])"

fun le_bytes :: "nat \<Rightarrow> 64 word \<Rightarrow> bytes" where
  "le_bytes 0 v = []"
| "le_bytes (Suc n) v = byte_of v # le_bytes n (drop_bit 8 v)"

definition skip_entry :: "posting list \<Rightarrow> 64 word \<Rightarrow> nat \<Rightarrow> bytes" where
  "skip_entry ps p0 b = le_bytes 4 (ucast (before ps (b + 1))) @ le_bytes 4 (of_nat (length (blocks_bytes ps b)))
     @ le_bytes 8 (p0 + of_nat (length (pos_bytes (take (docsPerBlock * b) ps))))"

definition skip_bytes_of :: "posting list \<Rightarrow> 64 word \<Rightarrow> bytes" where
  "skip_bytes_of ps p0 = concat (map (skip_entry ps p0) [0..<block_count ps])"

definition laid_out :: "termEntry \<Rightarrow> posting list \<Rightarrow> bool" where
  "laid_out e ps \<longleftrightarrow> ps \<noteq> [] \<and> length ps < 2 ^ 32 - 128 \<and> edf e = of_nat (length ps)
     \<and> sorted_wrt (<) (map pdoc ps) \<and> (\<forall>p \<in> set ps. pdoc p < endDoc \<and> length (ppos p) < 2 ^ 32)
     \<and> length (blocks_bytes ps (block_count ps)) < 2 ^ 32 \<and> unat (posOff e) + length (pos_bytes ps) < 2 ^ 63
     \<and> (\<exists>rest. drop (unat (docOff e)) (ddocs (edict e)) =
          (if block_count ps > 1 then skip_bytes_of ps (posOff e) else []) @ blocks_bytes ps (block_count ps) @ rest)
     \<and> (\<exists>rest. drop (unat (posOff e)) (dpos (edict e)) = pos_bytes ps @ rest)"


lemma ucast_back [simp]: "ucast (ucast (x :: 32 word) :: 64 word) = x"
  by (rule bit_word_eqI) (simp add: bit_simps)

lemma le_word_bytes: "n \<le> 8 \<Longrightarrow> le_word (le_bytes n v) = take_bit (8 * n) v"
proof (induction n arbitrary: v)
  case (Suc n)
  have "(of_nat (bval (byte_of v)) :: 64 word) = take_bit 8 v" by (simp add: bval_byte_of take_bit_eq_mask mask_eq_exp_minus_1)
  moreover have "push_bit 8 (take_bit (8 * n) (drop_bit 8 v)) = push_bit 8 (drop_bit 8 (take_bit (8 * Suc n) v))"
    by (simp add: drop_bit_take_bit)
  ultimately have "le_word (le_bytes (Suc n) v) = take_bit 8 v OR push_bit 8 (drop_bit 8 (take_bit (8 * Suc n) v))"
    using Suc by simp
  also have "\<dots> = take_bit (8 * Suc n) v"
    by (rule bit_word_eqI) (auto simp: bit_simps)
  finally show ?case .
qed simp

lemma length_le_bytes [simp]: "length (le_bytes n v) = n"
  by (induction n arbitrary: v) auto

lemma le32_at: "drop i b = le_bytes 4 v @ rest \<Longrightarrow> le32 b i = Some (ucast v)"
proof -
  assume d: "drop i b = le_bytes 4 v @ rest"
  have "length b - i \<ge> 4" using arg_cong [OF d, of length] by simp
  moreover have "(ucast (take_bit 32 v) :: 32 word) = ucast v" by (rule bit_word_eqI) (simp add: bit_simps)
  ultimately show ?thesis using d le_word_bytes [of 4 v] by (simp add: le32_def)
qed

lemma le64_at: "drop i b = le_bytes 8 v @ rest \<Longrightarrow> le64 b i = Some v"
proof -
  assume d: "drop i b = le_bytes 8 v @ rest"
  have "length b - i \<ge> 8" using arg_cong [OF d, of length] by simp
  moreover have "take_bit 64 v = v" by (rule bit_word_eqI) (simp add: bit_simps)
  ultimately show ?thesis using d le_word_bytes [of 8 v] by (simp add: le64_def)
qed

lemma store_at_app: "i < length xs \<Longrightarrow> store_at xs i x = Some (take i xs @ x # drop (i + 1) xs)"
  by (simp add: store_at_def upd_conv_take_nth_drop)

lemma read_docs_at:
  "drop p b = concat (map enc (deltas prev ds)) @ rest \<Longrightarrow> i + length ds \<le> length arr \<Longrightarrow>
     read_docs b p (length ds) i prev arr = Some (take i arr @ ds @ drop (i + length ds) arr, p + length (concat (map enc (deltas prev ds))))"
proof (induction ds arbitrary: p i prev arr)
  case (Cons d ds)
  have b: "drop p b = enc (ucast (d - prev)) @ concat (map enc (deltas d ds)) @ rest" using Cons.prems(1) by simp
  have u: "uvarint b p = Some (ucast (d - prev), p + length (enc (ucast (d - prev))))" by (rule uvarint_enc [OF b])
  have w: "prev + ucast (ucast (d - prev) :: 64 word) = d" by simp
  let ?arr = "take i arr @ d # drop (i + 1) arr"
  have "store_at arr i d = Some ?arr" using Cons.prems(2) by (intro store_at_app) simp
  moreover note Cons.IH [OF drop_more [OF b], of "i + 1" ?arr]
  ultimately show ?case using Cons.prems(2) u w by (simp add: ac_simps)
qed simp

lemma read_tfs_at:
  "drop p b = concat (map (\<lambda>t. enc (ucast t)) ts) @ rest \<Longrightarrow> i + length ts \<le> length arr \<Longrightarrow>
     read_tfs b p (length ts) i arr = Some (take i arr @ ts @ drop (i + length ts) arr, p + length (concat (map (\<lambda>t. enc (ucast t)) ts)))"
proof (induction ts arbitrary: p i arr)
  case (Cons t ts)
  have b: "drop p b = enc (ucast t) @ concat (map (\<lambda>t. enc (ucast t)) ts) @ rest" using Cons.prems(1) by simp
  have u: "uvarint b p = Some (ucast t, p + length (enc (ucast t)))" by (rule uvarint_enc [OF b])
  let ?arr = "take i arr @ t # drop (i + 1) arr"
  have "store_at arr i t = Some ?arr" using Cons.prems(2) by (intro store_at_app) simp
  moreover note Cons.IH [OF drop_more [OF b], of "i + 1" ?arr]
  ultimately show ?case using Cons.prems(2) u by (simp add: ac_simps)
qed simp


section \<open>Blocks\<close>

definition good :: "posting list \<Rightarrow> 64 word \<Rightarrow> bool" where
  "good ps p0 \<longleftrightarrow> ps \<noteq> [] \<and> length ps < 2 ^ 32 - 128 \<and> sorted_wrt (<) (map pdoc ps)
     \<and> (\<forall>p \<in> set ps. pdoc p < endDoc \<and> length (ppos p) < 2 ^ 32)
     \<and> length (blocks_bytes ps (block_count ps)) < 2 ^ 32 \<and> unat p0 + length (pos_bytes ps) < 2 ^ 63"

definition over :: "cursor \<Rightarrow> posting list \<Rightarrow> bool" where
  "over c ps \<longleftrightarrow> good ps (posOff0 c) \<and> df c = of_nat (length ps) \<and> nblocks c = block_count ps
     \<and> skip c = (if block_count ps > 1 then Some (skip_bytes_of ps (posOff0 c)) else None)
     \<and> (\<exists>rest. blocks c = blocks_bytes ps (block_count ps) @ rest)
     \<and> (\<exists>rest. drop (unat (posOff0 c)) (cpos c) = pos_bytes ps @ rest)
     \<and> length (docs c) = docsPerBlock \<and> length (tfs c) = docsPerBlock"

definition loaded :: "cursor \<Rightarrow> posting list \<Rightarrow> nat \<Rightarrow> bool" where
  "loaded c ps b \<longleftrightarrow> b < block_count ps \<and> blk c = b \<and> cn c = length (block ps b)
     \<and> take (cn c) (docs c) = map pdoc (block ps b) \<and> take (cn c) (tfs c) = map ptf (block ps b)
     \<and> pp c = unat (posOff0 c) + length (pos_bytes (take (docsPerBlock * b + pj c) ps))"

lemma over_moved [simp]: "over (c\<lparr>ci := i, doc := d\<rparr>) ps = over c ps" "over (c\<lparr>pp := p, pj := j\<rparr>) ps = over c ps" "over (c\<lparr>ci := i\<rparr>) ps = over c ps"
    "over (c\<lparr>blk := b, ci := i, doc := d\<rparr>) ps = over c ps"
  by (simp_all add: over_def)

lemma loaded_moved [simp]: "loaded (c\<lparr>ci := i, doc := d\<rparr>) ps b = loaded c ps b" "loaded (c\<lparr>ci := i\<rparr>) ps b = loaded c ps b"
  by (simp_all add: loaded_def)

lemma block_count_pos: "ps \<noteq> [] \<Longrightarrow> 0 < block_count ps"
  by (cases ps) (simp_all add: block_count_def docsPerBlock_def)

lemma length_block: "b < block_count ps \<Longrightarrow> length (block ps b) = (if b + 1 = block_count ps then length ps - docsPerBlock * (block_count ps - 1) else docsPerBlock)"
  by (auto simp: block_def block_count_def docsPerBlock_def)

lemma block_nonempty: "b < block_count ps \<Longrightarrow> 0 < length (block ps b)"
  by (auto simp: block_def block_count_def docsPerBlock_def)

lemma length_block_le: "length (block ps b) \<le> docsPerBlock"
  by (simp add: block_def)

lemma blocks_split: "b < n \<Longrightarrow> \<exists>r. blocks_bytes ps n = blocks_bytes ps b @ block_bytes (before ps b) (block ps b) @ r"
proof -
  assume "b < n"
  then have "[0..<n] = [0..<b] @ b # [Suc b..<n]" by (metis less_imp_add_positive upt_add_eq_append upt_rec zero_le)
  then show ?thesis by (simp add: blocks_bytes_def)
qed

lemma blocks_bytes_mono: "b \<le> n \<Longrightarrow> length (blocks_bytes ps b) \<le> length (blocks_bytes ps n)"
  using blocks_split [of b n ps] by (cases "b = n") auto

lemma pos_bytes_append: "pos_bytes (xs @ ys) = pos_bytes xs @ pos_bytes ys"
  by (simp add: pos_bytes_def)

lemma pos_bytes_mono: "length (pos_bytes (take k ps)) \<le> length (pos_bytes ps)"
  using pos_bytes_append [of "take k ps" "drop k ps"] by simp

lemma drop_concat_map:
  "(\<And>x. x \<in> set xs \<Longrightarrow> length (f x) = m) \<Longrightarrow> b < length xs \<Longrightarrow> \<exists>r. drop (m * b) (concat (map f xs)) = f (xs ! b) @ r"
proof (induction xs arbitrary: b)
  case (Cons x xs)
  show ?case
  proof (cases b)
    case (Suc c)
    then have "drop (m * b) (concat (map f (x # xs))) = drop (m * c) (concat (map f xs))"
      using Cons.prems(1) [of x] by simp
    then show ?thesis using Cons.IH [of c] Cons.prems Suc by simp
  qed simp
qed simp

lemma skip_at: "b < block_count ps \<Longrightarrow> \<exists>r. drop (16 * b) (skip_bytes_of ps p0) = skip_entry ps p0 b @ r"
  using drop_concat_map [of "[0..<block_count ps]" "skip_entry ps p0" 16 b] by (simp add: skip_bytes_of_def skip_entry_def)

lemma length_skip: "length (skip_bytes_of ps p0) = 16 * block_count ps"
  by (simp add: skip_bytes_of_def skip_entry_def length_concat comp_def sum_list_triv)

lemma skip_fields:
  assumes "b < block_count ps"
  shows "le32 (skip_bytes_of ps p0) (16 * b) = Some (before ps (b + 1))"
    and "le32 (skip_bytes_of ps p0) (16 * b + 4) = Some (of_nat (length (blocks_bytes ps b)))"
    and "le64 (skip_bytes_of ps p0) (16 * b + 8) = Some (p0 + of_nat (length (pos_bytes (take (docsPerBlock * b) ps))))"
proof -
  obtain r where r: "drop (16 * b) (skip_bytes_of ps p0) = skip_entry ps p0 b @ r" using skip_at [OF assms] by blast
  then show "le32 (skip_bytes_of ps p0) (16 * b) = Some (before ps (b + 1))"
    using le32_at [of "16 * b"] by (simp add: skip_entry_def)
  have d4: "drop (16 * b + 4) (skip_bytes_of ps p0) = drop 4 (skip_entry ps p0 b) @ r"
    using arg_cong [OF r, of "drop 4"] by (simp add: add.commute skip_entry_def)
  have "(ucast (of_nat k :: 64 word) :: 32 word) = of_nat k" for k by (rule bit_word_eqI) (simp add: bit_simps)
  then show "le32 (skip_bytes_of ps p0) (16 * b + 4) = Some (of_nat (length (blocks_bytes ps b)))"
    using le32_at [of "16 * b + 4"] d4 by (simp add: skip_entry_def)
  have "drop (16 * b + 8) (skip_bytes_of ps p0) = drop 8 (skip_entry ps p0 b) @ r"
    using arg_cong [OF r, of "drop 8"] by (simp add: add.commute skip_entry_def)
  then show "le64 (skip_bytes_of ps p0) (16 * b + 8) = Some (p0 + of_nat (length (pos_bytes (take (docsPerBlock * b) ps))))"
    using le64_at [of "16 * b + 8"] by (simp add: skip_entry_def)
qed

lemma block_start_at:
  assumes o: "over c ps" and b: "b < block_count ps"
  shows "block_start c b = Some (length (blocks_bytes ps b), unat (posOff0 c) + length (pos_bytes (take (docsPerBlock * b) ps)), before ps b)"
proof (cases "block_count ps > 1")
  case True
  let ?s = "skip_bytes_of ps (posOff0 c)"
  have g: "length (blocks_bytes ps (block_count ps)) < 2 ^ 32" "unat (posOff0 c) + length (pos_bytes ps) < 2 ^ 63" using o by (auto simp: over_def good_def)
  have s: "skip c = Some ?s" using o True by (simp add: over_def)
  have l: "length (blocks_bytes ps b) < 2 ^ 32" using blocks_bytes_mono [of b "block_count ps" ps] b g(1) by simp
  let ?p = "length (pos_bytes (take (docsPerBlock * b) ps))"
  have p: "unat (posOff0 c + of_nat ?p) = unat (posOff0 c) + ?p"
  proof -
    have "unat (posOff0 c) + ?p < 2 ^ 63" using pos_bytes_mono [of "docsPerBlock * b" ps] g(2) by simp
    then have "unat (posOff0 c) + ?p < 2 ^ 64" "?p < 2 ^ 64" by simp_all
    then show ?thesis by (simp add: unat_word_ariths unat_of_nat)
  qed
  have pv: "(if b > 0 then le32 ?s (16 * (b - 1)) else Some 0) = Some (before ps b)"
    using skip_fields(1) [of "b - 1" ps] b by (cases b) (auto simp: before_def)
  have "unat (of_nat (length (blocks_bytes ps b)) :: 32 word) = length (blocks_bytes ps b)" using l by (simp add: unat_of_nat)
  then show ?thesis
    unfolding block_start_def s option.case skip_fields(2,3) [OF b] pv by (simp add: p)
next
  case False
  then have "b = 0" "skip c = None" using b o by (auto simp: over_def)
  then show ?thesis by (simp add: block_start_def blocks_bytes_def pos_bytes_def before_def)
qed

lemma length_deltas [simp]: "length (deltas p ds) = length ds"
  by (induction ds arbitrary: p) auto

lemma load_block:
  assumes o: "over c ps" and b: "b < block_count ps"
  shows "\<exists>c'. loadBlock b c = Some c' \<and> over c' ps \<and> loaded c' ps b \<and> pj c' = 0 \<and> ci c' = ci c \<and> doc c' = doc c"
proof -
  let ?x = "block ps b" and ?off = "length (blocks_bytes ps b)"
  have len: "unat (df c) = length ps" using o by (simp add: over_def good_def unat_of_nat)
  have n: "(if b + 1 = nblocks c then unat (df c) - docsPerBlock * (nblocks c - 1) else docsPerBlock) = length ?x"
    using length_block [OF b] o len by (simp add: over_def)
  obtain r1 where r1: "blocks c = blocks_bytes ps (block_count ps) @ r1" using o by (auto simp: over_def)
  obtain r2 where r2: "blocks_bytes ps (block_count ps) = blocks_bytes ps b @ block_bytes (before ps b) ?x @ r2"
    using blocks_split [OF b] by blast
  let ?ds = "concat (map enc (deltas (before ps b) (map pdoc ?x)))" and ?ts = "concat (map (\<lambda>t. enc (ucast t)) (map ptf ?x))"
  have d1: "drop ?off (blocks c) = ?ds @ ?ts @ r2 @ r1" using r1 r2 by (simp add: block_bytes_def comp_def)
  have lx: "0 + length (map pdoc ?x) \<le> length (docs c)" "0 + length (map ptf ?x) \<le> length (tfs c)"
    using o length_block_le by (simp_all add: over_def)
  from read_docs_at [OF d1 lx(1)] have rd: "read_docs (blocks c) ?off (length ?x) 0 (before ps b) (docs c)
      = Some (map pdoc ?x @ drop (length ?x) (docs c), ?off + length ?ds)" by simp
  from read_tfs_at [OF drop_more [OF d1] lx(2)] have rt: "read_tfs (blocks c) (?off + length ?ds) (length ?x) 0 (tfs c)
      = Some (map ptf ?x @ drop (length ?x) (tfs c), ?off + length ?ds + length ?ts)" by simp
  let ?c = "c\<lparr>blk := b, cn := length ?x, docs := map pdoc ?x @ drop (length ?x) (docs c),
      tfs := map ptf ?x @ drop (length ?x) (tfs c), pj := 0, pp := unat (posOff0 c) + length (pos_bytes (take (docsPerBlock * b) ps))\<rparr>"
  have l: "loadBlock b c = Some ?c"
    unfolding loadBlock_def block_start_at [OF o b] Option.bind.bind_lunit prod.case Let_def n rd rt ..
  have "length ?x \<le> docsPerBlock" by (rule length_block_le)
  then have "over ?c ps" using o by (simp add: over_def)
  moreover have "loaded ?c ps b" using b by (simp add: loaded_def)
  ultimately show ?thesis using l by (intro exI [of _ ?c]) simp
qed


section \<open>Walking\<close>

definition cur_at :: "cursor \<Rightarrow> posting list \<Rightarrow> nat \<Rightarrow> bool" where
  "cur_at c ps k \<longleftrightarrow> over c ps \<and> loaded c ps (blk c) \<and> ci c < cn c \<and> pj c \<le> ci c
     \<and> k = docsPerBlock * blk c + ci c \<and> doc c = pdoc (ps ! k)"

definition cur_end :: "cursor \<Rightarrow> posting list \<Rightarrow> bool" where
  "cur_end c ps \<longleftrightarrow> over c ps \<and> doc c = endDoc \<and> blk c + 1 \<ge> nblocks c \<and> ci c = cn c"

text \<open>The cursor stands before the posting with index \<open>k\<close>, or behind the last one.\<close>

definition cur :: "cursor \<Rightarrow> posting list \<Rightarrow> nat \<Rightarrow> bool" where
  "cur c ps k \<longleftrightarrow> (if k < length ps then cur_at c ps k else k = length ps \<and> cur_end c ps)"

definition first_ge :: "posting list \<Rightarrow> 32 word \<Rightarrow> nat" where
  "first_ge ps t = length (takeWhile (\<lambda>p. pdoc p < t) ps)"

lemma first_geI:
  assumes "k \<le> length ps" "\<And>j. j < k \<Longrightarrow> pdoc (ps ! j) < t" "k < length ps \<Longrightarrow> \<not> pdoc (ps ! k) < t"
  shows "first_ge ps t = k"
proof (cases "k < length ps")
  case True
  have "takeWhile (\<lambda>p. pdoc p < t) ps = take k ps" using assms True by (intro takeWhile_eq_take_P_nth) auto
  then show ?thesis using True by (simp add: first_ge_def)
next
  case False
  then have "k = length ps" "\<forall>p \<in> set ps. pdoc p < t" using assms by (auto simp: in_set_conv_nth)
  then have "takeWhile (\<lambda>p. pdoc p < t) ps = ps" by (simp only: takeWhile_eq_all_conv)
  then show ?thesis using \<open>k = length ps\<close> by (simp only: first_ge_def)
qed

lemma ps_mono: "good ps p0 \<Longrightarrow> i < j \<Longrightarrow> j < length ps \<Longrightarrow> pdoc (ps ! i) < pdoc (ps ! j)"
  using sorted_wrt_nth_less [of "(<)" "map pdoc ps" i j] by (simp add: good_def)

lemma block_index:
  assumes "loaded c ps b" "i < cn c"
  shows "docsPerBlock * b + i < length ps" "block ps b ! i = ps ! (docsPerBlock * b + i)" "i < docsPerBlock"
  using assms by (auto simp: loaded_def block_def docsPerBlock_def)

lemma loaded_doc:
  assumes "over c ps" "loaded c ps b" "i < cn c"
  shows "idx (docs c) i = Some (pdoc (ps ! (docsPerBlock * b + i)))" "idx (tfs c) i = Some (ptf (ps ! (docsPerBlock * b + i)))"
proof -
  have m: "take (cn c) (docs c) = map pdoc (block ps b)" "take (cn c) (tfs c) = map ptf (block ps b)" "i < length (block ps b)"
    using assms unfolding loaded_def by (blast, blast, metis)
  have "docs c ! i = pdoc (block ps b ! i)" "tfs c ! i = ptf (block ps b ! i)"
    using arg_cong [OF m(1), of "\<lambda>xs. xs ! i"] arg_cong [OF m(2), of "\<lambda>xs. xs ! i"] m(3) assms(3) by simp_all
  then show "idx (docs c) i = Some (pdoc (ps ! (docsPerBlock * b + i)))" "idx (tfs c) i = Some (ptf (ps ! (docsPerBlock * b + i)))"
    using block_index [OF assms(2,3)] assms by (auto simp: idx_def over_def)
qed

lemma last_block: "loaded c ps b \<Longrightarrow> b + 1 = block_count ps \<Longrightarrow> docsPerBlock * b + cn c = length ps"
  by (auto simp: loaded_def length_block block_count_def docsPerBlock_def)

lemma full_block: "loaded c ps b \<Longrightarrow> b + 1 < block_count ps \<Longrightarrow> cn c = docsPerBlock"
  by (simp add: loaded_def length_block)

lemma start_block:
  assumes o: "over c ps" and b: "b < block_count ps"
  shows "\<exists>c'. do { c \<leftarrow> loadBlock b c; d \<leftarrow> idx (docs c) 0; Some (c\<lparr>ci := 0, doc := d\<rparr>) } = Some c' \<and> cur c' ps (docsPerBlock * b)"
proof -
  from load_block [OF o b] obtain c' where c: "loadBlock b c = Some c'" "over c' ps" "loaded c' ps b" "pj c' = 0" by blast
  have n: "0 < cn c'" using c(3) block_nonempty [OF b] by (simp add: loaded_def)
  from loaded_doc(1) [OF c(2,3) n] have d: "idx (docs c') 0 = Some (pdoc (ps ! (docsPerBlock * b)))" by simp
  have k: "docsPerBlock * b < length ps" using block_index(1) [OF c(3) n] by simp
  have "cur_at (c'\<lparr>ci := 0, doc := pdoc (ps ! (docsPerBlock * b))\<rparr>) ps (docsPerBlock * b)"
    using c n by (auto simp: cur_at_def over_def loaded_def)
  then show ?thesis using c(1) d k by (simp add: cur_def)
qed

lemma cursor_init_at:
  assumes l: "laid_out e ps"
  shows "\<exists>c. cursor_init e = Some c \<and> cur c ps 0"
proof -
  have g: "good ps (posOff e)" and df: "edf e = of_nat (length ps)" using l by (auto simp: laid_out_def good_def)
  obtain r where r: "drop (unat (docOff e)) (ddocs (edict e)) =
      (if block_count ps > 1 then skip_bytes_of ps (posOff e) else []) @ blocks_bytes ps (block_count ps) @ r" using l by (auto simp: laid_out_def)
  obtain r2 where r2: "drop (unat (posOff e)) (dpos (edict e)) = pos_bytes ps @ r2" using l by (auto simp: laid_out_def)
  have ne: "ps \<noteq> []" "length ps < 2 ^ 32 - 128" using g by (simp_all add: good_def)
  have nb: "unat ((edf e + 127) div 128) = block_count ps"
  proof -
    have "unat (edf e + 127) = length ps + 127"
      using ne(2) by (simp add: df unat_word_ariths unat_of_nat)
    then show ?thesis by (simp add: unat_div block_count_def docsPerBlock_def)
  qed
  have b0: "0 < block_count ps" by (rule block_count_pos [OF ne(1)])
  have bl: "blocks_bytes ps (block_count ps) \<noteq> []"
  proof -
    obtain r where "blocks_bytes ps (block_count ps) = blocks_bytes ps 0 @ block_bytes (before ps 0) (block ps 0) @ r" using blocks_split [OF b0] by blast
    moreover have "block ps 0 \<noteq> []" using block_nonempty [OF b0] by auto
    ultimately show ?thesis by (cases "block ps 0") (auto simp: block_bytes_def enc_nonempty)
  qed
  then have off: "unat (docOff e) \<le> length (ddocs (edict e))" using r by (cases "unat (docOff e) \<le> length (ddocs (edict e))") (auto split: if_splits)
  let ?s = "if block_count ps > 1 then Some (skip_bytes_of ps (posOff e)) else None"
  let ?d = "drop (unat (docOff e)) (ddocs (edict e))"
  have s: "(if block_count ps > 1 then do { s \<leftarrow> slice_to ?d (16 * block_count ps); data \<leftarrow> slice_from ?d (16 * block_count ps); Some (Some s, data) }
      else Some (None, ?d)) = Some (?s, blocks_bytes ps (block_count ps) @ r)"
    by (simp add: r slice_to_def slice_from_def length_skip)
  let ?c = "zero_cursor\<lparr>df := edf e, nblocks := block_count ps, skip := ?s, blocks := blocks_bytes ps (block_count ps) @ r,
    cpos := dpos (edict e), posOff0 := posOff e\<rparr>"
  have "over ?c ps" using g df r2 by (simp add: over_def zero_cursor_def)
  from start_block [OF this b0] obtain c' where
    c: "do { c \<leftarrow> loadBlock 0 ?c; d \<leftarrow> idx (docs c) 0; Some (c\<lparr>ci := 0, doc := d\<rparr>) } = Some c'" "cur c' ps (docsPerBlock * 0)" by blast
  have "cursor_init e = Some c'"
    unfolding cursor_init_def Let_def nb slice_from_def [of "ddocs _"] if_P [OF off] Option.bind.bind_lunit s prod.case by (rule c(1))
  then show ?thesis using c(2) by simp
qed

lemma cursor_next_at:
  assumes c: "cur c ps k" and k: "k < length ps"
  shows "\<exists>c'. cursor_next c = Some c' \<and> cur c' ps (Suc k)"
proof -
  have a: "over c ps" "loaded c ps (blk c)" "ci c < cn c" "pj c \<le> ci c" "k = docsPerBlock * blk c + ci c"
    using c k by (auto simp: cur_def cur_at_def)
  have nb: "nblocks c = block_count ps" using a(1) by (simp add: over_def)
  have b: "blk c < block_count ps" using a(2) by (simp add: loaded_def)
  show ?thesis
  proof (cases "ci c + 1 \<ge> cn c")
    case True
    show ?thesis
    proof (cases "blk c + 1 \<ge> nblocks c")
      case last: True
      then have "Suc k = length ps" using last_block [OF a(2)] a(3,5) True b nb by simp
      moreover have "cur_end (c\<lparr>doc := endDoc, ci := cn c\<rparr>) ps" using a(1) last by (simp add: cur_end_def over_def)
      ultimately show ?thesis using True last by (simp add: cursor_next_def cur_def)
    next
      case False
      then have b1: "blk c + 1 < block_count ps" using nb by simp
      have "Suc k = docsPerBlock * (blk c + 1)" using full_block [OF a(2) b1] True a(3,5) by simp
      then show ?thesis using start_block [OF a(1) b1] True False by (simp add: cursor_next_def)
    qed
  next
    case False
    then have i: "ci c + 1 < cn c" by simp
    note d = loaded_doc(1) [OF a(1,2) i]
    have "Suc k < length ps" using block_index(1) [OF a(2) i] a(5) by simp
    then have "cur (c\<lparr>ci := ci c + 1, doc := pdoc (ps ! Suc k)\<rparr>) ps (Suc k)"
      using a i by (simp add: cur_def cur_at_def)
    then show ?thesis using False d a(5) by (simp add: cursor_next_def)
  qed
qed


lemma scan_block_at:
  "n \<le> length ds \<Longrightarrow> i \<le> n \<Longrightarrow> \<exists>r. scan_block ds t n i = Some r \<and> i \<le> r \<and> r \<le> n \<and> (\<forall>m. i \<le> m \<longrightarrow> m < r \<longrightarrow> ds ! m < t) \<and> (r < n \<longrightarrow> \<not> ds ! r < t)"
proof (induction ds t n i rule: scan_block.induct)
  case (1 ds t n i)
  show ?case
  proof (cases "i < n \<and> ds ! i < t")
    case True
    then have s: "scan_block ds t n i = scan_block ds t n (i + 1)" using 1(2) by (subst scan_block.simps) (simp add: idx_def)
    have "idx ds i = Some (ds ! i)" using True 1(2) by (simp add: idx_def)
    from "1.IH" [OF _ this] True 1(2) obtain r where
      r: "scan_block ds t n (i + 1) = Some r" "i + 1 \<le> r" "r \<le> n" "\<forall>m. i + 1 \<le> m \<longrightarrow> m < r \<longrightarrow> ds ! m < t" "r < n \<longrightarrow> \<not> ds ! r < t" by auto
    have "\<forall>m. i \<le> m \<longrightarrow> m < r \<longrightarrow> ds ! m < t" using r(4) True by (metis Suc_eq_plus1 le_antisym not_less_eq_eq)
    then show ?thesis using s r by (intro exI [of _ r]) simp
  next
    case False
    then have "scan_block ds t n i = Some i" using 1(2) by (subst scan_block.simps) (simp add: idx_def)
    then show ?thesis using False 1(3) by auto
  qed
qed

lemma find_block_at:
  "(\<And>m. m < hi \<Longrightarrow> lastDoc c m = Some (f m)) \<Longrightarrow> (\<And>m m'. m \<le> m' \<Longrightarrow> m' < hi \<Longrightarrow> f m \<le> f m') \<Longrightarrow> lo \<le> hi \<Longrightarrow>
     \<exists>r. find_block c t lo hi = Some r \<and> lo \<le> r \<and> r \<le> hi \<and> (\<forall>m. lo \<le> m \<longrightarrow> m < r \<longrightarrow> f m < t) \<and> (r < hi \<longrightarrow> t \<le> f r)"
proof (induction c t lo hi rule: find_block.induct)
  case (1 c t lo hi)
  show ?case
  proof (cases "lo < hi")
    case True
    let ?m = "(lo + hi) div 2"
    have m: "lo \<le> ?m" "?m < hi" using True by auto
    have l: "lastDoc c ?m = Some (f ?m)" by (rule 1(3) [OF m(2)])
    show ?thesis
    proof (cases "t \<le> f ?m")
      case c: True
      have "\<exists>r. find_block c t lo ?m = Some r \<and> lo \<le> r \<and> r \<le> ?m \<and> (\<forall>m. lo \<le> m \<longrightarrow> m < r \<longrightarrow> f m < t) \<and> (r < ?m \<longrightarrow> t \<le> f r)"
        by (rule "1.IH"(1) [OF True refl l c]) (use 1(3,4) m in auto)
      then obtain r where "find_block c t lo ?m = Some r" "lo \<le> r" "r \<le> ?m" "\<forall>m. lo \<le> m \<longrightarrow> m < r \<longrightarrow> f m < t" "r < ?m \<longrightarrow> t \<le> f r" by blast
      then show ?thesis using c m True l by (subst find_block.simps) (auto simp: Let_def nat_less_le)
    next
      case c: False
      have "\<exists>r. find_block c t (?m + 1) hi = Some r \<and> ?m + 1 \<le> r \<and> r \<le> hi \<and> (\<forall>m. ?m + 1 \<le> m \<longrightarrow> m < r \<longrightarrow> f m < t) \<and> (r < hi \<longrightarrow> t \<le> f r)"
        by (rule "1.IH"(2) [OF True refl l c]) (use 1(3,4) m in auto)
      then obtain r where r: "find_block c t (?m + 1) hi = Some r" "?m + 1 \<le> r" "r \<le> hi" "\<forall>m. ?m + 1 \<le> m \<longrightarrow> m < r \<longrightarrow> f m < t" "r < hi \<longrightarrow> t \<le> f r" by blast
      have "f k < t" if "lo \<le> k" "k < r" for k
      proof (cases "k \<le> ?m")
        case True
        then have "f k \<le> f ?m" using 1(4) m(2) by blast
        then show ?thesis using c by simp
      qed (use r(4) that in simp)
      then show ?thesis using r c m True l by (subst find_block.simps) (auto simp: Let_def)
    qed
  next
    case False
    then show ?thesis using 1(5) by (subst find_block.simps) auto
  qed
qed

lemma below_end: "d < endDoc \<Longrightarrow> d \<le> endDoc - 1"
proof -
  assume "d < endDoc"
  moreover have "unat endDoc = 4294967295" "unat (endDoc - 1) = 4294967294" by (simp_all add: endDoc_def unsigned_minus_1_eq_mask mask_eq_exp_minus_1)
  ultimately show ?thesis by (simp add: word_le_nat_alt word_less_nat_alt)
qed

lemma before_bound:
  assumes "good ps p0" "j < length ps" "j < docsPerBlock * (b + 1)"
  shows "pdoc (ps ! j) \<le> before ps (b + 1)"
proof -
  let ?l = "min (docsPerBlock * (b + 1)) (length ps) - 1"
  have "j \<le> ?l" "?l < length ps" using assms by auto
  then show ?thesis using ps_mono [OF assms(1), of j ?l] by (cases "j = ?l") (auto simp: before_def less_imp_le)
qed

lemma advance_in_block_at:
  assumes o: "over c ps" and l: "loaded c ps (blk c)" and i: "ci c \<le> cn c" "pj c \<le> ci c"
    and below: "\<And>j. j < docsPerBlock * blk c + ci c \<Longrightarrow> pdoc (ps ! j) < t"
    and stop: "blk c + 1 = block_count ps \<or> \<not> before ps (blk c + 1) < t"
  shows "\<exists>c'. advance_in_block t c = Some c' \<and> cur c' ps (first_ge ps t)"
proof -
  have g: "good ps (posOff0 c)" using o by (simp add: over_def)
  have n: "cn c \<le> length (docs c)" using o l length_block_le by (simp add: over_def loaded_def)
  from scan_block_at [OF n i(1), of t] obtain r where r: "scan_block (docs c) t (cn c) (ci c) = Some r" "ci c \<le> r" "r \<le> cn c"
    "\<And>m. ci c \<le> m \<Longrightarrow> m < r \<Longrightarrow> docs c ! m < t" "r < cn c \<Longrightarrow> \<not> docs c ! r < t" by blast
  have dc: "docs c ! m = pdoc (ps ! (docsPerBlock * blk c + m))" if "m < cn c" for m
    using loaded_doc(1) [OF o l that] by (simp add: idx_def split: if_splits)
  let ?k = "docsPerBlock * blk c + r"
  have lt: "pdoc (ps ! j) < t" if "j < ?k" for j
  proof (cases "j < docsPerBlock * blk c + ci c")
    case False
    then have m: "ci c \<le> j - docsPerBlock * blk c" "j - docsPerBlock * blk c < r" "docsPerBlock * blk c + (j - docsPerBlock * blk c) = j" using that by auto
    then have "docs c ! (j - docsPerBlock * blk c) < t" using r(4) by blast
    then show ?thesis using dc [of "j - docsPerBlock * blk c"] m r(3) by simp
  qed (rule below)
  show ?thesis
  proof (cases "r < cn c")
    case True
    then have k: "?k < length ps" using block_index(1) [OF l] by simp
    have "\<not> pdoc (ps ! ?k) < t" using r(5) [OF True] dc [OF True] by simp
    then have f: "first_ge ps t = ?k" using k lt by (intro first_geI) auto
    have "advance_in_block t c = Some (c\<lparr>ci := r, doc := pdoc (ps ! ?k)\<rparr>)"
      using r(1) True loaded_doc(1) [OF o l True] by (simp add: advance_in_block_def)
    moreover have "cur (c\<lparr>ci := r, doc := pdoc (ps ! ?k)\<rparr>) ps ?k"
      using o l True k r(2) i(2) by (simp add: cur_def cur_at_def)
    ultimately show ?thesis by (simp add: f)
  next
    case False
    then have rn: "r = cn c" using r(3) by simp
    have b: "blk c < block_count ps" using l by (simp add: loaded_def)
    have last: "blk c + 1 = block_count ps"
    proof (rule ccontr)
      assume nl: "blk c + 1 \<noteq> block_count ps"
      then have b1: "blk c + 1 < block_count ps" using b by simp
      have "cn c = docsPerBlock" by (rule full_block [OF l b1])
      then have k: "?k - 1 < length ps" "?k - 1 < ?k" "?k = docsPerBlock * (blk c + 1)"
        using rn block_index(1) [OF l, of "cn c - 1"] by (simp_all add: docsPerBlock_def)
      have "before ps (blk c + 1) = pdoc (ps ! (?k - 1))" using k by (simp add: before_def ac_simps)
      then show False using lt [OF k(2)] stop nl by simp
    qed
    then have k: "?k = length ps" using last_block [OF l] rn by simp
    then have f: "first_ge ps t = length ps" using lt by (intro first_geI) auto
    have "cur_end (c\<lparr>ci := cn c, doc := endDoc\<rparr>) ps" using o last by (simp add: cur_end_def over_def)
    then show ?thesis using r(1) rn f by (simp add: advance_in_block_def cur_def)
  qed
qed

lemma advance_at:
  assumes c: "cur c ps k"
  shows "\<exists>c'. advance t c = Some c' \<and> cur c' ps (max k (first_ge ps t))"
proof (cases "t \<le> doc c")
  case True
  have "first_ge ps t \<le> k"
  proof (cases "k < length ps")
    case k: True
    then have "\<not> pdoc (ps ! k) < t" using True c by (simp add: cur_def cur_at_def)
    then show ?thesis by (metis (mono_tags, lifting) first_ge_def not_le nth_length_takeWhile nth_mem set_takeWhileD takeWhile_nth)
  next
    case False
    then show ?thesis using c length_takeWhile_le by (auto simp: first_ge_def cur_def)
  qed
  then show ?thesis using True c by (simp add: advance_def max_absorb1)
next
  case False
  have k: "k < length ps" using False c by (auto simp: cur_def cur_end_def endDoc_def split: if_splits)
  then have a: "over c ps" "loaded c ps (blk c)" "ci c < cn c" "pj c \<le> ci c" "k = docsPerBlock * blk c + ci c" "doc c = pdoc (ps ! k)"
    using c by (auto simp: cur_def cur_at_def)
  have g: "good ps (posOff0 c)" and nb: "nblocks c = block_count ps" using a(1) by (simp_all add: over_def)
  have kt: "pdoc (ps ! j) < t" if "j \<le> k" for j
    using False a(6) ps_mono [OF g, of j k] k that by (cases "j = k") auto
  have fk: "k < first_ge ps t"
  proof (rule ccontr)
    assume "\<not> k < first_ge ps t"
    then have "first_ge ps t \<le> k" by simp
    then have "pdoc (ps ! first_ge ps t) < t" "first_ge ps t < length ps" using kt k by auto
    then show False using nth_length_takeWhile [of "\<lambda>p. pdoc p < t" ps] by (simp add: first_ge_def)
  qed
  let ?f = "\<lambda>m. if block_count ps > 1 then before ps (m + 1) else endDoc - 1"
  have ld: "lastDoc c m = Some (?f m)" if "m < block_count ps" for m
    using a(1) skip_fields(1) [OF that] by (simp add: lastDoc_def over_def)
  have b: "blk c < block_count ps" using a(2) by (simp add: loaded_def)
  show ?thesis
  proof (cases "t > ?f (blk c)")
    case False': False
    have stop: "blk c + 1 = block_count ps \<or> \<not> before ps (blk c + 1) < t" using False' b by (auto split: if_splits)
    have "\<exists>c'. advance_in_block t c = Some c' \<and> cur c' ps (first_ge ps t)"
      by (rule advance_in_block_at [OF a(1,2) _ a(4) _ stop]) (use a(3,5) kt in auto)
    then show ?thesis using False False' ld [OF b] fk by (simp add: advance_def)
  next
    case True
    have mono: "?f m \<le> ?f m'" if "m \<le> m'" "m' < block_count ps" for m m'
    proof (cases "block_count ps > 1")
      case True
      let ?l = "min (docsPerBlock * (m + 1)) (length ps) - 1"
      have "?l < length ps" "?l < docsPerBlock * (m' + 1)" using k that(1) by (auto simp: docsPerBlock_def)
      from before_bound [OF g this] show ?thesis using True by (simp add: before_def docsPerBlock_def)
    qed simp
    have "\<exists>r. find_block c t (blk c + 1) (nblocks c) = Some r \<and> blk c + 1 \<le> r \<and> r \<le> nblocks c
        \<and> (\<forall>m. blk c + 1 \<le> m \<longrightarrow> m < r \<longrightarrow> ?f m < t) \<and> (r < nblocks c \<longrightarrow> t \<le> ?f r)"
    proof (rule find_block_at)
      show "lastDoc c m = Some (?f m)" if "m < nblocks c" for m using ld [of m] that nb by simp
      show "?f m \<le> ?f m'" if "m \<le> m'" "m' < nblocks c" for m m' using mono [OF that(1)] that(2) nb by simp
    qed (use b nb in simp)
    then obtain r where
      r: "find_block c t (blk c + 1) (nblocks c) = Some r" "blk c + 1 \<le> r" "r \<le> nblocks c"
        "\<And>m. blk c + 1 \<le> m \<Longrightarrow> m < r \<Longrightarrow> ?f m < t" "r < nblocks c \<Longrightarrow> t \<le> ?f r" by blast
    have rt: "?f m < t" if "m < r" for m
      using r(4) [of m] True mono [of m "blk c"] b that by (cases "blk c + 1 \<le> m") (auto simp: not_less_eq_eq intro: le_less_trans)
    have below: "pdoc (ps ! j) < t" if "j < docsPerBlock * r" "j < length ps" for j
    proof -
      have m: "j < docsPerBlock * (j div docsPerBlock + 1)" "j div docsPerBlock < r" using that(1) by (auto simp: docsPerBlock_def)
      have "pdoc (ps ! j) \<le> ?f (j div docsPerBlock)"
      proof (cases "block_count ps > 1")
        case True
        then show ?thesis using before_bound [OF g that(2) m(1)] by simp
      next
        case False
        have "pdoc (ps ! j) < endDoc" using g that(2) by (simp add: good_def)
        then show ?thesis using False below_end by simp
      qed
      then show ?thesis using rt [OF m(2)] by (rule le_less_trans)
    qed
    show ?thesis
    proof (cases "r \<ge> nblocks c")
      case end': True
      then have "r = block_count ps" using r(3) nb by simp
      then have "j < docsPerBlock * r" if "j < length ps" for j using that by (auto simp: block_count_def docsPerBlock_def)
      then have f: "first_ge ps t = length ps" using below by (intro first_geI) auto
      have "cur_end (c\<lparr>doc := endDoc, blk := nblocks c - 1, ci := cn c\<rparr>) ps" using a(1) b nb by (simp add: cur_end_def over_def)
      then have "cur (c\<lparr>doc := endDoc, blk := nblocks c - 1, ci := cn c\<rparr>) ps (length ps)" by (simp add: cur_def)
      then show ?thesis using False True ld [OF b] r(1) end' fk f k by (simp add: advance_def)
    next
      case in': False
      then have rb: "r < block_count ps" using nb by simp
      from load_block [OF a(1) rb] obtain c' where c': "loadBlock r c = Some c'" "over c' ps" "loaded c' ps r" "pj c' = 0" by blast
      have bk: "blk c' = r" using c'(3) by (simp add: loaded_def)
      have len: "docsPerBlock * r < length ps" using block_index(1) [OF c'(3), of 0] block_nonempty [OF rb] c'(3) by (simp add: loaded_def)
      have b1: "block_count ps > 1" using r(2) rb by simp
      have "\<exists>d. advance_in_block t (c'\<lparr>ci := 0\<rparr>) = Some d \<and> cur d ps (first_ge ps t)"
        by (rule advance_in_block_at) (use c' bk below len r(5) in' b1 in auto)
      then show ?thesis using False True ld [OF b] r(1) in' c'(1) fk by (simp add: advance_def)
    qed
  qed
qed


lemma cursor_next_end: "cur c ps (length ps) \<Longrightarrow> \<exists>c'. cursor_next c = Some c' \<and> cur c' ps (length ps)"
  by (auto simp: cur_def cur_end_def cursor_next_def over_def)

lemma tf_at: "cur c ps k \<Longrightarrow> k < length ps \<Longrightarrow> tf c = Some (ptf (ps ! k))"
  using loaded_doc(2) [of c ps "blk c" "ci c"] by (auto simp: cur_def cur_at_def tf_def)

lemma pos_bytes_flat: "pos_bytes ps = concat (map enc (concat (map ppos ps)))"
  by (induction ps) (simp_all add: pos_bytes_def)

lemma posStart_at:
  assumes c: "cur c ps k" and k: "k < length ps"
  shows "\<exists>c'. posStart c = Some (unat (posOff0 c) + length (pos_bytes (take k ps)), c') \<and> cur c' ps k
    \<and> cpos c' = cpos c \<and> posOff0 c' = posOff0 c \<and> doc c' = doc c"
proof -
  have a: "over c ps" "loaded c ps (blk c)" "ci c < cn c" "pj c \<le> ci c" "k = docsPerBlock * blk c + ci c"
    using c k by (auto simp: cur_def cur_at_def)
  have pp: "pp c = unat (posOff0 c) + length (pos_bytes (take (docsPerBlock * blk c + pj c) ps))" using a(2) by (simp add: loaded_def)
  show ?thesis
  proof (cases "pj c < ci c")
    case False
    then have "pj c = ci c" using a(4) by simp
    then show ?thesis using c pp a(5) by (simp add: posStart_def)
  next
    case True
    let ?j = "docsPerBlock * blk c + pj c" and ?n = "ci c - pj c"
    let ?xs = "take ?n (drop ?j ps)"
    have kj: "k = ?j + ?n" using a(5) True by simp
    have bl: "take (cn c) (tfs c) = map ptf (block ps (blk c))" "cn c = length (block ps (blk c))" using a(2) unfolding loaded_def by blast+
    have lt: "ci c \<le> length (tfs c)" using arg_cong [OF bl(1), of length] bl(2) a(3) by simp
    have e1: "take ?n (drop (pj c) (take (cn c) (tfs c))) = take ?n (drop (pj c) (tfs c))" using a(3) by (simp add: drop_take)
    have e2: "take ?n (drop (pj c) (block ps (blk c))) = ?xs"
    proof -
      have m: "min ?n (docsPerBlock - pj c) = ?n" using block_index(3) [OF a(2,3)] by simp
      have "take ?n (drop (pj c) (block ps (blk c))) = take (min ?n (docsPerBlock - pj c)) (drop (pj c) (drop (docsPerBlock * blk c) ps))"
        unfolding block_def drop_take take_take ..
      then show ?thesis unfolding m drop_drop by (simp only: add.commute)
    qed
    have t: "take ?n (drop (pj c) (tfs c)) = map ptf ?xs"
      by (subst e1 [symmetric]) (simp only: bl(1) drop_map take_map e2)
    have small: "length (ppos p) < 2 ^ 32" if "p \<in> set ?xs" for p
      using a(1) in_set_dropD [OF in_set_takeD [OF that]] by (simp add: over_def good_def)
    have mm: "map unat (map ptf ?xs) = map (\<lambda>p. length (ppos p)) ?xs"
      using small by (simp add: ptf_def unat_of_nat)
    have n: "sum_list (map unat (take ?n (drop (pj c) (tfs c)))) = length (concat (map ppos ?xs))"
      unfolding t mm unfolding length_concat map_map comp_def ..
    obtain r where r: "drop (unat (posOff0 c)) (cpos c) = pos_bytes ps @ r" using a(1) by (auto simp: over_def)
    have sp: "pos_bytes ps = pos_bytes (take ?j ps) @ pos_bytes ?xs @ pos_bytes (drop k ps)"
      unfolding pos_bytes_append [symmetric] kj by (metis add.commute append_take_drop_id drop_drop)
    have "drop (pp c) (cpos c) = concat (map enc (concat (map ppos ?xs))) @ pos_bytes (drop k ps) @ r"
      unfolding pp using drop_more [OF r [unfolded sp append_assoc]] by (simp add: pos_bytes_flat [of ?xs])
    from skip_bytes_encs [OF this] have "skipVarints (cpos c) (pp c) (int (length (concat (map ppos ?xs)))) = Some (pp c + length (pos_bytes ?xs))"
      by (simp add: skipVarints_bytes pos_bytes_flat)
    moreover have "pp c + length (pos_bytes ?xs) = unat (posOff0 c) + length (pos_bytes (take k ps))"
      unfolding pp kj take_add pos_bytes_append by simp
    ultimately have "posStart c = Some (unat (posOff0 c) + length (pos_bytes (take k ps)), c\<lparr>pp := unat (posOff0 c) + length (pos_bytes (take k ps)), pj := ci c\<rparr>)"
      using True lt n by (simp add: posStart_def)
    moreover have "cur (c\<lparr>pp := unat (posOff0 c) + length (pos_bytes (take k ps)), pj := ci c\<rparr>) ps k"
      using c k a by (simp add: cur_def cur_at_def loaded_def)
    ultimately show ?thesis by simp
  qed
qed

section \<open>The interface of a cursor\<close>

text \<open>What the evaluation of a query relies on: a cursor stands at an index of a strictly increasing list of documents,
  a step moves it by one, and a search moves it to the first document not below the target, never backwards.\<close>

locale doc_cursor =
  fixes at :: "'c \<Rightarrow> 'p list \<Rightarrow> nat \<Rightarrow> bool"
    and key :: "'p \<Rightarrow> 'd :: linorder"
    and top :: 'd
    and cdoc :: "'c \<Rightarrow> 'd"
    and step :: "'c \<Rightarrow> 'c option"
    and seek :: "'d \<Rightarrow> 'c \<Rightarrow> 'c option"
  assumes at_le: "at c ps k \<Longrightarrow> k \<le> length ps"
    and at_sorted: "at c ps k \<Longrightarrow> sorted_wrt (<) (map key ps) \<and> (\<forall>p \<in> set ps. key p < top)"
    and at_doc: "at c ps k \<Longrightarrow> cdoc c = (if k < length ps then key (ps ! k) else top)"
    and step_at: "at c ps k \<Longrightarrow> k < length ps \<Longrightarrow> \<exists>c'. step c = Some c' \<and> at c' ps (Suc k)"
    and seek_at: "at c ps k \<Longrightarrow> \<exists>c'. seek t c = Some c' \<and> at c' ps (max k (length (takeWhile (\<lambda>p. key p < t) ps)))"
begin

definition behind :: "'c \<Rightarrow> 'p list \<Rightarrow> 'd \<Rightarrow> bool" where
  "behind c ps d \<longleftrightarrow> (\<exists>k. at c ps k \<and> (\<forall>j < k. key (ps ! j) < d))"

lemma behind_mono: "behind c ps d \<Longrightarrow> d \<le> e \<Longrightarrow> behind c ps e"
  by (force simp: behind_def)

lemma keys_less: "at c ps k \<Longrightarrow> i < j \<Longrightarrow> j < length ps \<Longrightarrow> key (ps ! i) < key (ps ! j)"
  using at_sorted sorted_wrt_nth_less [of "(<)" "map key ps" i j] by auto

text \<open>A document not yet passed is not below the one the cursor stands at.\<close>

lemma doc_least: "behind c ps d \<Longrightarrow> p \<in> set ps \<Longrightarrow> d \<le> key p \<Longrightarrow> cdoc c \<le> key p"
proof -
  assume b: "behind c ps d" and p: "p \<in> set ps" "d \<le> key p"
  obtain k where k: "at c ps k" "\<forall>j < k. key (ps ! j) < d" using b by (auto simp: behind_def)
  obtain j where j: "j < length ps" "ps ! j = p" using p(1) by (auto simp: in_set_conv_nth)
  then have kj: "k \<le> j" using k(2) p(2) by (meson not_le)
  then have kl: "k < length ps" using j by simp
  have "key (ps ! k) \<le> key (ps ! j)" using keys_less [OF k(1), of k j] kj j(1) by (cases "k = j") auto
  then show ?thesis using at_doc [OF k(1)] j(2) kl by simp
qed

lemma doc_in: "at c ps k \<Longrightarrow> cdoc c = top \<or> k < length ps \<and> cdoc c = key (ps ! k)"
  using at_doc by auto

lemma seek_behind:
  assumes b: "behind c ps d" and t: "d \<le> t"
  shows "\<exists>c'. seek t c = Some c' \<and> behind c' ps t \<and> t \<le> max t (cdoc c') \<and> (t \<le> top \<longrightarrow> t \<le> cdoc c')"
proof -
  obtain k where k: "at c ps k" "\<forall>j < k. key (ps ! j) < d" using b by (auto simp: behind_def)
  let ?m = "length (takeWhile (\<lambda>p. key p < t) ps)"
  obtain c' where c: "seek t c = Some c'" "at c' ps (max k ?m)" using seek_at [OF k(1)] by blast
  have lt: "key (ps ! j) < t" if "j < max k ?m" for j
  proof (cases "j < k")
    case True
    then show ?thesis using k(2) t by force
  next
    case False
    then have "j < ?m" using that by simp
    then show ?thesis by (metis (mono_tags, lifting) nth_mem set_takeWhileD takeWhile_nth)
  qed
  have "behind c' ps t" using c(2) lt by (auto simp: behind_def)
  moreover have "t \<le> cdoc c'" if "t \<le> top"
  proof (cases "max k ?m < length ps")
    case True
    have "\<not> key (ps ! max k ?m) < t"
    proof
      assume "key (ps ! max k ?m) < t"
      then have "key (ps ! ?m) < t" using keys_less [OF c(2), of ?m "max k ?m"] True by (cases "?m = max k ?m") (auto simp: max_def split: if_splits)
      then show False using nth_length_takeWhile [of "\<lambda>p. key p < t" ps] True by simp
    qed
    then show ?thesis using at_doc [OF c(2)] True by simp
  next
    case False
    show ?thesis using that unfolding at_doc [OF c(2)] if_not_P [OF False] .
  qed
  ultimately show ?thesis using c(1) by auto
qed

lemma step_behind:
  assumes b: "behind c ps d" and k: "cdoc c \<noteq> top"
  shows "\<exists>c'. step c = Some c' \<and> (\<forall>e. cdoc c < e \<longrightarrow> behind c' ps e) \<and> cdoc c < cdoc c'"
proof -
  obtain k where k: "at c ps k" "k < length ps" using b k at_doc unfolding behind_def by (metis (full_types))
  obtain c' where c: "step c = Some c'" "at c' ps (Suc k)" using step_at [OF k] by blast
  have d: "cdoc c = key (ps ! k)" using at_doc [OF k(1)] k(2) by simp
  have "behind c' ps e" if "cdoc c < e" for e
    using c(2) that keys_less [OF k(1) _ k(2)] d unfolding behind_def
    by (intro exI [of _ "Suc k"]) (auto simp: less_Suc_eq intro: less_trans)
  moreover have "cdoc c < cdoc c'"
    using at_doc [OF c(2)] keys_less [OF k(1), of k "Suc k"] d at_sorted [OF k(1)] k(2) by (auto split: if_splits)
  ultimately show ?thesis using c(1) by blast
qed

end

interpretation curs: doc_cursor cur pdoc endDoc doc cursor_next advance
proof
  fix c ps k t assume c: "cur c ps k"
  show "k \<le> length ps" using c by (auto simp: cur_def split: if_splits)
  have "over c ps" using c by (auto simp: cur_def cur_at_def cur_end_def split: if_splits)
  then show "sorted_wrt (<) (map pdoc ps) \<and> (\<forall>p \<in> set ps. pdoc p < endDoc)" by (simp add: over_def good_def)
  show "doc c = (if k < length ps then pdoc (ps ! k) else endDoc)" using c by (auto simp: cur_def cur_at_def cur_end_def)
  show "\<exists>c'. cursor_next c = Some c' \<and> cur c' ps (Suc k)" if "k < length ps" by (rule cursor_next_at [OF c that])
  show "\<exists>c'. advance t c = Some c' \<and> cur c' ps (max k (length (takeWhile (\<lambda>p. pdoc p < t) ps)))"
    using advance_at [OF c] by (simp add: first_ge_def)
qed


section \<open>Claims\<close>

datatype move = Next | Seek "32 word"

fun move_step :: "move \<Rightarrow> cursor \<Rightarrow> cursor option" where
  "move_step Next c = cursor_next c"
| "move_step (Seek t) c = advance t c"

fun spec_step :: "posting list \<Rightarrow> move \<Rightarrow> nat \<Rightarrow> nat" where
  "spec_step ps Next k = min (k + 1) (length ps)"
| "spec_step ps (Seek t) k = max k (first_ge ps t)"

fun run_moves :: "move list \<Rightarrow> cursor \<Rightarrow> cursor option" where
  "run_moves [] c = Some c"
| "run_moves (m # ms) c = (case move_step m c of None \<Rightarrow> None | Some c \<Rightarrow> run_moves ms c)"

lemma moves_at: "cur c ps k \<Longrightarrow> \<exists>c'. run_moves ms c = Some c' \<and> cur c' ps (fold (spec_step ps) ms k)"
proof (induction ms arbitrary: c k)
  case (Cons m ms)
  have "\<exists>c'. move_step m c = Some c' \<and> cur c' ps (spec_step ps m k)"
  proof (cases m)
    case Next
    show ?thesis
    proof (cases "k < length ps")
      case True
      then show ?thesis using cursor_next_at [OF Cons.prems] by (simp add: Next)
    next
      case False
      then have "k = length ps" using Cons.prems by (simp add: cur_def)
      then show ?thesis using cursor_next_end [of c ps] Cons.prems by (simp add: Next)
    qed
  next
    case (Seek t)
    then show ?thesis using advance_at [OF Cons.prems] by simp
  qed
  then obtain c' where "move_step m c = Some c'" "cur c' ps (spec_step ps m k)" by blast
  then show ?case using Cons.IH by simp
qed simp

lemma loadBlock_data: "loadBlock b c = Some c' \<Longrightarrow> cpos c' = cpos c \<and> posOff0 c' = posOff0 c"
  by (auto simp: loadBlock_def Let_def split: Option.bind_splits)

lemma next_data: "cursor_next c = Some c' \<Longrightarrow> cpos c' = cpos c \<and> posOff0 c' = posOff0 c"
  using loadBlock_data by (fastforce simp: cursor_next_def split: if_splits Option.bind_splits)

lemma advance_data: "advance t c = Some c' \<Longrightarrow> cpos c' = cpos c \<and> posOff0 c' = posOff0 c"
  using loadBlock_data by (fastforce simp: advance_def advance_in_block_def split: if_splits Option.bind_splits)

lemma init_data: "cursor_init e = Some c \<Longrightarrow> cpos c = dpos (edict e) \<and> posOff0 c = posOff e"
  using loadBlock_data by (fastforce simp: cursor_init_def Let_def split: Option.bind_splits)

lemma moves_data: "run_moves ms c = Some c' \<Longrightarrow> cpos c' = cpos c \<and> posOff0 c' = posOff0 c"
proof (induction ms arbitrary: c)
  case (Cons m ms)
  then obtain d where "move_step m c = Some d" "run_moves ms d = Some c'" by (auto split: option.splits)
  then show ?case using Cons.IH [of d] next_data advance_data by (cases m) auto
qed simp

text \<open>
  \<^bold>\<open>C35\<close> The cursor of a posting list refines an index into the list. Over any posting list in the on-disk layout,
  and after any sequence of \<open>next\<close> and \<open>advance\<close> calls, no call has read outside the files, and the cursor stands
  at the document an index would stand at that \<open>next\<close> increments and \<open>advance\<close> moves to the first document not
  below the target, never backwards; behind the list it reports \<open>endDoc\<close>. On a document it gives the
  number of its positions, and \<open>posStart\<close> gives the offset where they start.
\<close>
theorem cursor_walks:
  assumes "laid_out e ps"
  shows "\<exists>c c'. cursor_init e = Some c \<and> run_moves ms c = Some c'
    \<and> (let k = fold (spec_step ps) ms 0 in
        if k < length ps then doc c' = pdoc (ps ! k) \<and> tf c' = Some (of_nat (length (ppos (ps ! k))))
          \<and> map_option fst (posStart c') = Some (unat (posOff e) + length (concat (map (\<lambda>p. concat (map enc (ppos p))) (take k ps))))
        else doc c' = endDoc)"
proof -
  let ?k = "fold (spec_step ps) ms 0"
  obtain c where c: "cursor_init e = Some c" "cur c ps 0" using cursor_init_at [OF assms] by blast
  obtain c' where c': "run_moves ms c = Some c'" "cur c' ps ?k" using moves_at [OF c(2)] by blast
  have p: "posOff0 c' = posOff e" using init_data [OF c(1)] moves_data [OF c'(1)] by simp
  show ?thesis
  proof (cases "?k < length ps")
    case True
    have "doc c' = pdoc (ps ! ?k)" using c'(2) True by (simp add: cur_def cur_at_def)
    then show ?thesis using c(1) c'(1) True tf_at [OF c'(2) True] posStart_at [OF c'(2) True] p by (auto simp: ptf_def pos_bytes_def Let_def)
  next
    case False
    then show ?thesis using c(1) c'(1,2) by (auto simp: cur_def cur_end_def Let_def)
  qed
qed

theorem cursor_walks_witness:
  "\<exists>c c'. cursor_init \<lparr>edf = 1, docOff = 0, posOff = 0, edict = \<lparr>dcount = 1, entries = [], blob = [], ddocs = [CHR 0x03, CHR 0x02], dpos = [CHR 0x05, CHR 0x05]\<rparr>\<rparr> = Some c
    \<and> run_moves [Seek 2] c = Some c' \<and> doc c' = 3"
proof -
  let ?e = "\<lparr>edf = 1, docOff = 0, posOff = 0, edict = \<lparr>dcount = 1, entries = [], blob = [], ddocs = [CHR 0x03, CHR 0x02], dpos = [CHR 0x05, CHR 0x05]\<rparr>\<rparr>"
  let ?ps = "[\<lparr>pdoc = 3, ppos = [5, 5]\<rparr>]"
  have e: "enc 3 = [CHR 0x03]" "enc 2 = [CHR 0x02]" "enc 5 = [CHR 0x05]" by (simp_all add: enc_small byte_of_def char_of_def bit_0)
  have b: "blocks_bytes ?ps (block_count ?ps) = [CHR 0x03, CHR 0x02]"
    by (simp add: blocks_bytes_def block_count_def docsPerBlock_def block_bytes_def before_def block_def ptf_def e)
  have "laid_out ?e ?ps" unfolding laid_out_def b by (simp add: endDoc_def block_count_def docsPerBlock_def pos_bytes_def e)
  from cursor_walks [OF this, of "[Seek 2]"] show ?thesis by (auto simp: first_ge_def simp del: run_moves.simps)
qed

end
