(* ===== verification/Search_Dict.thy ===== *)
theory Search_Dict
  imports Search_Cursor
begin

text \<open>
  The read side of the index files (\<open>search/impl/go-1/serve.go\<close>): the term dictionary, the map from identifiers to
  documents that \<open>writeIDMap\<close> of \<open>index.go\<close> writes, titles and stored texts. The lemmas show that the
  binary searches find exactly what was written.
\<close>

section \<open>Files as slices\<close>

definition asU32 :: "bytes \<Rightarrow> 32 word list" where
  "asU32 b = map (\<lambda>i. ucast (le_word (take 4 (drop (4 * i) b)))) [0..<length b div 4]"

definition asU64 :: "bytes \<Rightarrow> 64 word list" where
  "asU64 b = map (\<lambda>i. le_word (take 8 (drop (8 * i) b))) [0..<length b div 8]"

definition slice_of :: "'a list \<Rightarrow> nat \<Rightarrow> nat \<Rightarrow> 'a list option" where
  "slice_of xs a b = (if a \<le> b \<and> b \<le> length xs then Some (take (b - a) (drop a xs)) else None)"

record 's index =
  ixn :: "64 word"
  dicts :: "dict list"
  ids :: "32 word list"
  dls :: "32 word list"
  titles :: bytes
  titleOff :: "64 word list"
  storeFile :: bytes
  storeIdx :: bytes
  nBlocks :: nat
  idmap :: "32 word list"
  normC1 :: 's
  normC2 :: 's

section \<open>Binary search\<close>

text \<open>\<open>sort.Search\<close>; the condition may panic.\<close>

function sort_search :: "(nat \<Rightarrow> bool option) \<Rightarrow> nat \<Rightarrow> nat \<Rightarrow> nat option" where
  "sort_search f i j =
     (if i < j then
        let h = (i + j) div 2 in
        case f h of None \<Rightarrow> None | Some b \<Rightarrow> if \<not> b then sort_search f (h + 1) j else sort_search f i h
      else Some i)"
  by pat_completeness auto
termination by (relation "measure (\<lambda>(f, i, j). j - i)") auto

declare sort_search.simps [simp del]

lemma sort_search_at:
  "(\<And>m. m < j \<Longrightarrow> f m = Some (g m)) \<Longrightarrow> (\<And>m m'. m \<le> m' \<Longrightarrow> m' < j \<Longrightarrow> g m \<Longrightarrow> g m') \<Longrightarrow> i \<le> j \<Longrightarrow>
     \<exists>r. sort_search f i j = Some r \<and> i \<le> r \<and> r \<le> j \<and> (\<forall>m. i \<le> m \<longrightarrow> m < r \<longrightarrow> \<not> g m) \<and> (r < j \<longrightarrow> g r)"
proof (induction f i j rule: sort_search.induct)
  case (1 f i j)
  show ?case
  proof (cases "i < j")
    case True
    let ?m = "(i + j) div 2"
    have m: "i \<le> ?m" "?m < j" using True by auto
    note l = 1(3) [OF m(2)]
    show ?thesis
    proof (cases "g ?m")
      case c: True
      have "\<exists>r. sort_search f i ?m = Some r \<and> i \<le> r \<and> r \<le> ?m \<and> (\<forall>m. i \<le> m \<longrightarrow> m < r \<longrightarrow> \<not> g m) \<and> (r < ?m \<longrightarrow> g r)"
        by (rule "1.IH"(2) [OF True refl l]) (use 1(3,4) m c in auto)
      then obtain r where "sort_search f i ?m = Some r" "i \<le> r" "r \<le> ?m" "\<forall>m. i \<le> m \<longrightarrow> m < r \<longrightarrow> \<not> g m" "r < ?m \<longrightarrow> g r" by blast
      then show ?thesis using c m True l by (subst sort_search.simps) (auto simp: Let_def nat_less_le)
    next
      case c: False
      have "\<exists>r. sort_search f (?m + 1) j = Some r \<and> ?m + 1 \<le> r \<and> r \<le> j \<and> (\<forall>m. ?m + 1 \<le> m \<longrightarrow> m < r \<longrightarrow> \<not> g m) \<and> (r < j \<longrightarrow> g r)"
        by (rule "1.IH"(1) [OF True refl l]) (use 1(3,4) m c in auto)
      then obtain r where r: "sort_search f (?m + 1) j = Some r" "?m + 1 \<le> r" "r \<le> j" "\<forall>m. ?m + 1 \<le> m \<longrightarrow> m < r \<longrightarrow> \<not> g m" "r < j \<longrightarrow> g r" by blast
      have "\<not> g k" if "i \<le> k" "k < r" for k
      proof (cases "k \<le> ?m")
        case True
        then show ?thesis using c 1(4) [of k ?m] m(2) by blast
      qed (use r(4) that in simp)
      then show ?thesis using r c m True l by (subst sort_search.simps) (auto simp: Let_def)
    qed
  next
    case False
    then show ?thesis using 1(5) by (subst sort_search.simps) auto
  qed
qed

section \<open>The dictionary\<close>

text \<open>\<open>bytes.Compare\<close> below zero.\<close>

fun bytes_less :: "bytes \<Rightarrow> bytes \<Rightarrow> bool" where
  "bytes_less _ [] = False"
| "bytes_less [] (_ # _) = True"
| "bytes_less (a # as) (b # bs) = (bval a < bval b \<or> a = b \<and> bytes_less as bs)"

definition term_at :: "dict \<Rightarrow> nat \<Rightarrow> bytes option" where
  "term_at d i = do {
     a \<leftarrow> le32 (entries d) (24 * i);
     b \<leftarrow> le32 (entries d) (24 * i + 24);
     slice_of (blob d) (unat a) (unat b) }"

function find_term :: "dict \<Rightarrow> bytes \<Rightarrow> nat \<Rightarrow> nat \<Rightarrow> nat option" where
  "find_term d t lo hi =
     (if lo < hi then
        let m = (lo + hi) div 2 in
        case term_at d m of None \<Rightarrow> None | Some s \<Rightarrow> if bytes_less s t then find_term d t (m + 1) hi else find_term d t lo m
      else Some lo)"
  by pat_completeness auto
termination by (relation "measure (\<lambda>(d, t, lo, hi). hi - lo)") auto

declare find_term.simps [simp del]

definition dict_lookup :: "dict \<Rightarrow> bytes \<Rightarrow> termEntry option option" where
  "dict_lookup d t = do {
     lo \<leftarrow> find_term d t 0 (dcount d);
     if lo \<ge> dcount d then Some None
     else do {
       s \<leftarrow> term_at d lo;
       if s \<noteq> t then Some None
       else do {
         f \<leftarrow> le32 (entries d) (24 * lo + 4);
         a \<leftarrow> le64 (entries d) (24 * lo + 8);
         b \<leftarrow> le64 (entries d) (24 * lo + 16);
         Some (Some \<lparr>edf = f, docOff = a, posOff = b, edict = d\<rparr>) } } }"

definition index_lookup :: "'s index \<Rightarrow> bytes \<Rightarrow> termEntry option option" where
  "index_lookup ix t = do { d \<leftarrow> idx (dicts ix) (termBucket t); dict_lookup d t }"

lemma find_term_search: "find_term d t lo hi = sort_search (\<lambda>m. map_option (\<lambda>s. \<not> bytes_less s t) (term_at d m)) lo hi"
proof (induction d t lo hi rule: find_term.induct)
  case (1 d t lo hi)
  show ?case
  proof (cases "lo < hi")
    case True
    note IH = "1.IH" [OF True refl]
    show ?thesis using IH by (subst find_term.simps, subst sort_search.simps) (simp add: True Let_def split: option.splits)
  qed (subst find_term.simps, subst sort_search.simps, simp)
qed

lemma bytes_less_irrefl: "\<not> bytes_less s s"
  by (induction s) auto

lemma bytes_less_trans: "bytes_less r s \<Longrightarrow> bytes_less s t \<Longrightarrow> bytes_less r t"
proof (induction r s arbitrary: t rule: bytes_less.induct)
  case (2 b bs)
  then show ?case by (cases t) auto
next
  case (3 a as b bs)
  then show ?case by (cases t) (auto intro: less_trans)
qed simp

text \<open>What the merge writes: terms in order, one entry each, and a closing entry with the end of the last term.\<close>

definition entry_bytes :: "bytes list \<Rightarrow> (32 word \<times> 64 word \<times> 64 word) list \<Rightarrow> nat \<Rightarrow> bytes" where
  "entry_bytes ts es i = le_bytes 4 (of_nat (length (concat (take i ts))))
     @ (if i < length es then (case es ! i of (f, a, b) \<Rightarrow> le_bytes 4 (ucast f) @ le_bytes 8 a @ le_bytes 8 b) else replicate 20 (CHR 0x00))"

definition dict_ok :: "dict \<Rightarrow> bytes list \<Rightarrow> (32 word \<times> 64 word \<times> 64 word) list \<Rightarrow> bool" where
  "dict_ok d ts es \<longleftrightarrow> sorted_wrt bytes_less ts \<and> length es = length ts \<and> dcount d = length ts \<and> blob d = concat ts
     \<and> length (concat ts) < 2 ^ 32 \<and> entries d = concat (map (entry_bytes ts es) [0..<length ts + 1])"

definition entry_of :: "dict \<Rightarrow> 32 word \<times> 64 word \<times> 64 word \<Rightarrow> termEntry" where
  "entry_of d e = (case e of (f, a, b) \<Rightarrow> \<lparr>edf = f, docOff = a, posOff = b, edict = d\<rparr>)"

lemma entry_at:
  assumes "dict_ok d ts es" "i \<le> length ts"
  shows "\<exists>r. drop (24 * i) (entries d) = entry_bytes ts es i @ r"
proof -
  have "length (entry_bytes ts es k) = 24" for k by (simp add: entry_bytes_def split: prod.splits)
  then show ?thesis using drop_concat_map [of "[0..<length ts + 1]" "entry_bytes ts es" 24 i] assms by (simp add: dict_ok_def del: upt_Suc)
qed

lemma off_at:
  assumes "dict_ok d ts es" "i \<le> length ts"
  shows "le32 (entries d) (24 * i) = Some (of_nat (length (concat (take i ts))))"
proof -
  have u: "(ucast (of_nat k :: 64 word) :: 32 word) = of_nat k" for k by (rule bit_word_eqI) (simp add: bit_simps)
  obtain r where "drop (24 * i) (entries d) = entry_bytes ts es i @ r" using entry_at [OF assms] by blast
  then show ?thesis using le32_at [of "24 * i"] by (simp add: entry_bytes_def u)
qed

lemma concat_take_Suc: "i < length ts \<Longrightarrow> concat (take (Suc i) ts) = concat (take i ts) @ ts ! i"
  by (simp add: take_Suc_conv_app_nth)

lemma concat_split: "concat ts = concat (take i ts) @ concat (drop i ts)"
  by (metis append_take_drop_id concat_append)

lemma term_at_ok:
  assumes d: "dict_ok d ts es" and i: "i < length ts"
  shows "term_at d i = Some (ts ! i)"
proof -
  have b: "length (concat ts) < 2 ^ 32" "blob d = concat ts" using d by (simp_all add: dict_ok_def)
  have s: "concat ts = concat (take i ts) @ ts ! i @ concat (drop (Suc i) ts)"
    using concat_split [of ts "Suc i"] concat_take_Suc [OF i] by simp
  have n: "unat (of_nat (length (concat (take k ts))) :: 32 word) = length (concat (take k ts))" for k
  proof -
    have "length (concat (take k ts)) \<le> length (concat ts)" using arg_cong [OF concat_split [of ts k], of length] by simp
    then have "length (concat (take k ts)) < 2 ^ 32" using b(1) by (rule le_less_trans)
    then show ?thesis by (simp add: unat_of_nat)
  qed
  have o: "le32 (entries d) (24 * i) = Some (of_nat (length (concat (take i ts))))" "le32 (entries d) (24 * i + 24) = Some (of_nat (length (concat (take (Suc i) ts))))"
    using off_at [OF d, of i] off_at [OF d, of "Suc i"] i by (simp_all add: add.commute)
  show ?thesis
    unfolding term_at_def o Option.bind.bind_lunit n slice_of_def b(2) using s concat_take_Suc [OF i] by simp
qed

lemma fields_at:
  assumes d: "dict_ok d ts es" and i: "i < length ts" and e: "es ! i = (f, a, b)"
  shows "le32 (entries d) (24 * i + 4) = Some f" "le64 (entries d) (24 * i + 8) = Some a" "le64 (entries d) (24 * i + 16) = Some b"
proof -
  obtain r where r: "drop (24 * i) (entries d) = entry_bytes ts es i @ r" using entry_at [OF d] i by fastforce
  have eb: "entry_bytes ts es i = le_bytes 4 (of_nat (length (concat (take i ts)))) @ le_bytes 4 (ucast f) @ le_bytes 8 a @ le_bytes 8 b"
    using d i e by (simp add: entry_bytes_def dict_ok_def)
  have "drop (24 * i + 4) (entries d) = le_bytes 4 (ucast f) @ le_bytes 8 a @ le_bytes 8 b @ r"
    using arg_cong [OF r, of "drop 4"] by (simp add: eb add.commute)
  then show "le32 (entries d) (24 * i + 4) = Some f" using le32_at by fastforce
  have "drop (24 * i + 8) (entries d) = le_bytes 8 a @ le_bytes 8 b @ r"
    using arg_cong [OF r, of "drop 8"] by (simp add: eb add.commute)
  then show "le64 (entries d) (24 * i + 8) = Some a" by (rule le64_at)
  have "drop (24 * i + 16) (entries d) = le_bytes 8 b @ r"
    using arg_cong [OF r, of "drop 16"] by (simp add: eb add.commute)
  then show "le64 (entries d) (24 * i + 16) = Some b" by (rule le64_at)
qed

lemma dict_lookup_at:
  assumes d: "dict_ok d ts es"
  shows "dict_lookup d t = Some (map_of (zip ts (map (entry_of d) es)) t)"
proof -
  let ?n = "length ts" and ?f = "\<lambda>m. map_option (\<lambda>s. \<not> bytes_less s t) (term_at d m)"
  have s: "sorted_wrt bytes_less ts" "dcount d = ?n" "length es = ?n" using d by (simp_all add: dict_ok_def)
  have lt: "bytes_less (ts ! i) (ts ! j)" if "i < j" "j < ?n" for i j using sorted_wrt_nth_less [OF s(1) that] .
  have "\<exists>r. sort_search ?f 0 ?n = Some r \<and> 0 \<le> r \<and> r \<le> ?n \<and> (\<forall>m. 0 \<le> m \<longrightarrow> m < r \<longrightarrow> \<not> \<not> bytes_less (ts ! m) t) \<and> (r < ?n \<longrightarrow> \<not> bytes_less (ts ! r) t)"
  proof (rule sort_search_at)
    show "?f m = Some (\<not> bytes_less (ts ! m) t)" if "m < ?n" for m using term_at_ok [OF d that] by simp
    show "\<not> bytes_less (ts ! m') t" if "m \<le> m'" "m' < ?n" "\<not> bytes_less (ts ! m) t" for m m'
      using that lt [of m m'] bytes_less_trans by (cases "m = m'") auto
  qed simp
  then obtain r where r: "find_term d t 0 ?n = Some r" "r \<le> ?n" "\<And>m. m < r \<Longrightarrow> bytes_less (ts ! m) t" "r < ?n \<Longrightarrow> \<not> bytes_less (ts ! r) t"
    unfolding find_term_search by auto
  have mem: "t \<in> set ts \<longleftrightarrow> r < ?n \<and> ts ! r = t"
  proof
    assume "t \<in> set ts"
    then obtain j where j: "j < ?n" "ts ! j = t" by (auto simp: in_set_conv_nth)
    have "\<not> j < r" using r(3) [of j] j(2) bytes_less_irrefl by auto
    moreover have "\<not> r < j" using lt [OF _ j(1), of r] j r(4) by auto
    ultimately show "r < ?n \<and> ts ! r = t" using j by (metis nat_neq_iff)
  qed auto
  have dist: "distinct ts" using lt bytes_less_irrefl by (metis distinct_conv_nth nat_neq_iff)
  show ?thesis
  proof (cases "t \<in> set ts")
    case True
    then have k: "r < ?n" "ts ! r = t" using mem by auto
    obtain f a b where e: "es ! r = (f, a, b)" by (cases "es ! r") auto
    have "map_of (zip ts (map (entry_of d) es)) t = Some (entry_of d (es ! r))"
      using map_of_zip_nth [of ts "map (entry_of d) es" r] dist k s(3) by simp
    moreover have "dict_lookup d t = Some (Some (entry_of d (es ! r)))"
      using r(1) k s(2) term_at_ok [OF d k(1)] fields_at [OF d k(1) e] by (simp add: dict_lookup_def entry_of_def e)
    ultimately show ?thesis by simp
  next
    case False
    then have "map_of (zip ts (map (entry_of d) es)) t = None" using s(3) by (simp add: map_of_zip_is_None)
    moreover have "dict_lookup d t = Some None"
    proof (cases "r < ?n")
      case True
      then show ?thesis using False mem r(1) s(2) term_at_ok [OF d True] by (simp add: dict_lookup_def)
    next
      case False
      then show ?thesis using r(1) s(2) by (simp add: dict_lookup_def)
    qed
    ultimately show ?thesis by simp
  qed
qed


section \<open>Identifiers\<close>

definition le_put32 :: "32 word \<Rightarrow> bytes" where
  "le_put32 v = le_bytes 4 (ucast v)"

definition id_pair :: "32 word \<Rightarrow> nat \<Rightarrow> 64 word" where
  "id_pair i d = push_bit 32 (ucast i) OR of_nat d"

definition id_pairs :: "32 word list \<Rightarrow> 64 word list" where
  "id_pairs js = map (\<lambda>d. id_pair (js ! d) d) [0..<length js]"

definition writeIDMap :: "32 word list \<Rightarrow> bytes" where
  "writeIDMap js = concat (map (\<lambda>p. le_put32 (ucast (drop_bit 32 p)) @ le_put32 (ucast p)) (sort (id_pairs js)))"

definition docByID :: "'s index \<Rightarrow> 32 word \<Rightarrow> 32 word option option" where
  "docByID ix i = do {
     let n = length (idmap ix) div 2;
     r \<leftarrow> sort_search (\<lambda>k. map_option (\<lambda>x. x \<ge> i) (idx (idmap ix) (2 * k))) 0 n;
     if r < n then do {
       x \<leftarrow> idx (idmap ix) (2 * r);
       if x = i then do { d \<leftarrow> idx (idmap ix) (2 * r + 1); Some (Some d) } else Some None }
     else Some None }"

section \<open>Titles and texts\<close>

definition title_of :: "'s index \<Rightarrow> 32 word \<Rightarrow> bytes option" where
  "title_of ix d = do {
     a \<leftarrow> idx (titleOff ix) (unat d);
     b \<leftarrow> idx (titleOff ix) (unat (d + 1));
     slice_of (titles ix) (unat a) (unat b) }"

lemma uvarint_loop_moves: "uvarint_loop b i v s = Some (w, j) \<Longrightarrow> i < j \<and> j \<le> length b"
proof (induction b i v s rule: uvarint_loop.induct)
  case (1 b i v s)
  then show ?case by (subst (asm) (2) uvarint_loop.simps) (fastforce split: if_splits)
qed

lemma uvarint_moves: "uvarint b i = Some (w, j) \<Longrightarrow> i < j \<and> j \<le> length b"
  using uvarint_loop_moves by (fastforce simp: uvarint_def split: if_splits)

text \<open>The walk over the texts of a block.\<close>

function text_in_block :: "bytes \<Rightarrow> 32 word \<Rightarrow> 32 word \<Rightarrow> nat \<Rightarrow> bytes option" where
  "text_in_block raw target d p =
     (case uvarint raw p of
        None \<Rightarrow> None
      | Some (l, p) \<Rightarrow>
          if d = target then slice_of raw p (p + unat l)
          else text_in_block raw target (d + 1) (p + unat l))"
  by pat_completeness auto
termination
  by (relation "measure (\<lambda>(raw, target, d, p). length raw - p)") (use uvarint_moves in fastforce)+

declare text_in_block.simps [simp del]

text \<open>The decoder of the compressed blocks is a parameter; \<open>Some None\<close> is the error it reports.\<close>

definition docText :: "(bytes \<Rightarrow> bytes option) \<Rightarrow> 's index \<Rightarrow> 32 word \<Rightarrow> bytes option option" where
  "docText decodeAll ix d = do {
     b \<leftarrow> sort_search (\<lambda>i. map_option (\<lambda>x. x > d) (le32 (storeIdx ix) (12 * (i + 1)))) 0 (nBlocks ix);
     first \<leftarrow> le32 (storeIdx ix) (12 * b);
     off \<leftarrow> le64 (storeIdx ix) (12 * b + 4);
     e \<leftarrow> le64 (storeIdx ix) (12 * (b + 1) + 4);
     comp \<leftarrow> slice_of (storeFile ix) (unat off) (unat e);
     case decodeAll comp of
       None \<Rightarrow> Some None
     | Some raw \<Rightarrow> map_option Some (text_in_block raw d first 0) }"

section \<open>The map of identifiers\<close>

lemma length_le_put32 [simp]: "length (le_put32 v) = 4"
  by (simp add: le_put32_def)

lemma asU32_put: "asU32 (concat (map le_put32 ws)) = ws"
proof (rule nth_equalityI)
  have len: "length (concat (map le_put32 ws)) = 4 * length ws" by (simp add: length_concat comp_def sum_list_triv)
  then show l: "length (asU32 (concat (map le_put32 ws))) = length ws" by (simp add: asU32_def)
  fix i assume "i < length (asU32 (concat (map le_put32 ws)))"
  then have i: "i < length ws" using l by simp
  obtain r where r: "drop (4 * i) (concat (map le_put32 ws)) = le_put32 (ws ! i) @ r" using drop_concat_map [of ws le_put32 4 i] i by auto
  have "take 4 (drop (4 * i) (concat (map le_put32 ws))) = le_put32 (ws ! i)" by (simp add: r)
  moreover have "ucast (take_bit 32 (ucast (ws ! i) :: 64 word)) = ws ! i" by (rule bit_word_eqI) (simp add: bit_simps)
  ultimately show "asU32 (concat (map le_put32 ws)) ! i = ws ! i"
    using le_word_bytes [of 4 "ucast (ws ! i)"] i len by (simp add: asU32_def le_put32_def)
qed

lemma unat_hi: "unat (ucast (drop_bit 32 p) :: 32 word) = unat p div 2 ^ 32" for p :: "64 word"
proof -
  have "unat p < 2 ^ 64" using unsigned_less [of p] by simp
  then have "unat p div 2 ^ 32 < 2 ^ 32" by (simp add: less_mult_imp_div_less)
  then show ?thesis by (simp add: unsigned_ucast_eq take_bit_eq_mod drop_bit_eq_div unat_div)
qed

lemma unat_lo: "unat (ucast p :: 32 word) = unat p mod 2 ^ 32" for p :: "64 word"
  by (simp add: unsigned_ucast_eq take_bit_eq_mod)

lemma id_pair_parts:
  assumes "d < 2 ^ 32"
  shows "ucast (drop_bit 32 (id_pair i d)) = i" "ucast (id_pair i d) = (of_nat d :: 32 word)"
proof -
  have u: "(of_nat d :: 64 word) = ucast (of_nat d :: 32 word)" using assms by (simp add: unsigned_of_nat take_bit_eq_mod)
  show "ucast (drop_bit 32 (id_pair i d)) = i" "ucast (id_pair i d) = (of_nat d :: 32 word)"
    by (rule bit_word_eqI; auto simp: id_pair_def u bit_simps)+
qed

lemma parts_order: "p \<le> q \<Longrightarrow> (ucast (drop_bit 32 p) :: 32 word) \<le> ucast (drop_bit 32 q)" for p q :: "64 word"
  by (simp only: word_le_nat_alt unat_hi div_le_mono)

lemma parts_order_low: "p \<le> q \<Longrightarrow> (ucast (drop_bit 32 p) :: 32 word) = ucast (drop_bit 32 q) \<Longrightarrow> (ucast p :: 32 word) \<le> ucast q" for p q :: "64 word"
proof -
  assume a: "p \<le> q" "(ucast (drop_bit 32 p) :: 32 word) = ucast (drop_bit 32 q)"
  have h: "unat p div 2 ^ 32 = unat q div 2 ^ 32" unfolding unat_hi [symmetric] a(2) ..
  have "unat p \<le> unat q" using a(1) by (simp add: word_le_nat_alt)
  then have "unat p mod 2 ^ 32 \<le> unat q mod 2 ^ 32" using h by (metis add_le_cancel_left div_mult_mod_eq)
  then show ?thesis by (simp only: word_le_nat_alt unat_lo)
qed

definition id_words :: "64 word list \<Rightarrow> 32 word list" where
  "id_words ps = concat (map (\<lambda>p. [ucast (drop_bit 32 p), ucast p]) ps)"

lemma id_words_nth:
  assumes "k < length ps"
  shows "idx (id_words ps) (2 * k) = Some (ucast (drop_bit 32 (ps ! k)))" "idx (id_words ps) (2 * k + 1) = Some (ucast (ps ! k))"
proof -
  let ?f = "\<lambda>p :: 64 word. [ucast (drop_bit 32 p), ucast p :: 32 word]"
  have "length (?f p) = 2" for p by simp
  from drop_concat_map [of ps ?f 2 k] assms obtain r where r: "drop (2 * k) (id_words ps) = ?f (ps ! k) @ r" by (auto simp: id_words_def)
  from drop_less [of "2 * k" "id_words ps"] r show "idx (id_words ps) (2 * k) = Some (ucast (drop_bit 32 (ps ! k)))" by (auto simp: idx_def)
  have "drop (2 * k + 1) (id_words ps) = ucast (ps ! k) # r" using drop_less [of "2 * k" "id_words ps"] r by auto
  from drop_less [OF this] show "idx (id_words ps) (2 * k + 1) = Some (ucast (ps ! k))" by (auto simp: idx_def)
qed

lemma asU32_writeIDMap: "asU32 (writeIDMap js) = id_words (sort (id_pairs js))"
proof -
  have "concat (map (\<lambda>p. le_put32 (ucast (drop_bit 32 p)) @ le_put32 (ucast p)) ps) = concat (map le_put32 (id_words ps))" for ps
    by (induction ps) (simp_all add: id_words_def)
  then have "writeIDMap js = concat (map le_put32 (id_words (sort (id_pairs js))))" by (simp add: writeIDMap_def)
  then show ?thesis by (simp add: asU32_put)
qed


lemma length_id_words: "length (id_words ps) = 2 * length ps"
  by (induction ps) (simp_all add: id_words_def)

text \<open>The first document with an identifier.\<close>

definition first_doc :: "32 word list \<Rightarrow> 32 word \<Rightarrow> nat" where
  "first_doc js i = length (takeWhile (\<lambda>x. x \<noteq> i) js)"

lemma first_doc_at:
  assumes "i \<in> set js"
  shows "first_doc js i < length js" "js ! first_doc js i = i" "e < first_doc js i \<Longrightarrow> js ! e \<noteq> i"
proof -
  obtain as bs where s: "js = as @ i # bs" "i \<notin> set as" using assms by (meson split_list_first)
  then have "takeWhile (\<lambda>x. x \<noteq> i) js = as @ takeWhile (\<lambda>x. x \<noteq> i) (i # bs)"
    unfolding s(1) by (intro takeWhile_append2) auto
  then have "takeWhile (\<lambda>x. x \<noteq> i) js = as" by simp
  then show "first_doc js i < length js" "js ! first_doc js i = i" "e < first_doc js i \<Longrightarrow> js ! e \<noteq> i"
    using s by (auto simp: first_doc_def nth_append)
qed

text \<open>With the file that \<open>writeIDMap\<close> writes for the identifiers of all documents, \<open>docByID\<close> returns the first document
  that carries an identifier and reports an unknown one as missing.\<close>

lemma docByID_at:
  assumes "length js < 2 ^ 32" and "idmap ix = asU32 (writeIDMap js)"
  shows "docByID ix i = Some (if i \<in> set js then Some (of_nat (first_doc js i)) else None)"
proof -
  let ?ps = "sort (id_pairs js)" and ?n = "length js"
  let ?hi = "\<lambda>p. ucast (drop_bit 32 (p :: 64 word)) :: 32 word"
  have n: "length ?ps = ?n" "length (idmap ix) div 2 = ?n" by (simp_all add: id_pairs_def assms(2) asU32_writeIDMap length_id_words)
  have ix: "idx (idmap ix) (2 * k) = Some (?hi (?ps ! k))" "idx (idmap ix) (2 * k + 1) = Some (ucast (?ps ! k))" if "k < ?n" for k
    using id_words_nth [of k ?ps] that n(1) by (simp_all add: assms(2) asU32_writeIDMap)
  have le: "?ps ! k \<le> ?ps ! k'" if "k \<le> k'" "k' < ?n" for k k' by (intro sorted_nth_mono) (use that n(1) in simp_all)
  have el: "\<exists>d < ?n. ?ps ! k = id_pair (js ! d) d" if "k < ?n" for k
  proof -
    have "?ps ! k \<in> set (id_pairs js)" using that n(1) by (metis nth_mem set_sort)
    then show ?thesis by (auto simp: id_pairs_def)
  qed
  have ex: "\<exists>k < ?n. ?ps ! k = id_pair (js ! d) d" if "d < ?n" for d
  proof -
    have "id_pair (js ! d) d \<in> set ?ps" using that by (auto simp: id_pairs_def)
    then show ?thesis using n(1) by (metis in_set_conv_nth)
  qed
  have parts: "?hi (id_pair x d) = x" "ucast (id_pair x d) = (of_nat d :: 32 word)" if "d < ?n" for x d
    using id_pair_parts [of d x] that assms(1) by simp_all
  let ?f = "\<lambda>k. map_option (\<lambda>x. x \<ge> i) (idx (idmap ix) (2 * k))"
  have "\<exists>r. sort_search ?f 0 ?n = Some r \<and> 0 \<le> r \<and> r \<le> ?n \<and> (\<forall>m. 0 \<le> m \<longrightarrow> m < r \<longrightarrow> \<not> i \<le> ?hi (?ps ! m)) \<and> (r < ?n \<longrightarrow> i \<le> ?hi (?ps ! r))"
  proof (rule sort_search_at)
    show "?f m = Some (i \<le> ?hi (?ps ! m))" if "m < ?n" for m using ix(1) [OF that] by simp
    show "i \<le> ?hi (?ps ! m')" if "m \<le> m'" "m' < ?n" "i \<le> ?hi (?ps ! m)" for m m'
      using that(3) parts_order [OF le [OF that(1,2)]] by (rule order_trans)
  qed simp
  then obtain r where r: "sort_search ?f 0 ?n = Some r" "r \<le> ?n" "\<And>m. m < r \<Longrightarrow> \<not> i \<le> ?hi (?ps ! m)" "r < ?n \<Longrightarrow> i \<le> ?hi (?ps ! r)" by auto
  show ?thesis
  proof (cases "i \<in> set js")
    case True
    let ?d = "first_doc js i"
    note d = first_doc_at [OF True]
    obtain k where k: "k < ?n" "?ps ! k = id_pair i ?d" using ex [OF d(1)] d(2) by auto
    have rk: "r \<le> k" using r(3) [of k] k parts(1) [OF d(1)] by (metis not_less order_refl)
    then have rn: "r < ?n" using k(1) by simp
    obtain e where e: "e < ?n" "?ps ! r = id_pair (js ! e) e" using el [OF rn] by blast
    have "?hi (?ps ! r) \<le> i" using parts_order [OF le [OF rk k(1)]] k(2) parts(1) [OF d(1)] by simp
    then have hr: "?hi (?ps ! r) = i" using r(4) [OF rn] by simp
    then have "js ! e = i" using e parts(1) by simp
    then have "\<not> e < ?d" using d(3) by blast
    then have de: "?d \<le> e" by simp
    have "(of_nat e :: 32 word) \<le> of_nat ?d"
      using parts_order_low [OF le [OF rk k(1)]] hr k(2) e(2) parts [OF d(1)] parts(2) [OF e(1)] by simp
    then have "e \<le> ?d" using e(1) d(1) assms(1) by (simp add: word_le_nat_alt unat_of_nat)
    then have "e = ?d" using de by simp
    then have "ucast (?ps ! r) = (of_nat ?d :: 32 word)" using e parts(2) by simp
    then show ?thesis using True r(1) rn ix [OF rn] hr n(2) by (simp add: docByID_def)
  next
    case False
    have "?hi (?ps ! r) \<noteq> i" if rn: "r < ?n"
    proof -
      obtain e where "e < ?n" "?ps ! r = id_pair (js ! e) e" using el [OF rn] by blast
      then show ?thesis using parts(1) False by auto
    qed
    then show ?thesis using False r(1,2) ix n(2) by (auto simp: docByID_def)
  qed
qed

end
