(* ===== verification/Search_Run.thy ===== *)
theory Search_Run
  imports Search_Worker Search_Json Search_Dict "HOL-Library.List_Lexorder"
begin

text \<open>
  One run of the indexer (\<open>process\<close> and \<open>flushRun\<close> in \<open>search/impl/go-1/index.go\<close>): the lines of a chunk are read,
  tokenized and added, and the postings are written out by bucket, the terms of a bucket in order. The encoder of
  compressed blocks is a parameter. The lemmas show that what is written depends on the documents of the chunk
  only, not on what the worker did before.
\<close>

section \<open>A chunk of documents\<close>

record chunk =
  cidx :: nat
  cbase :: "32 word"
  ccount :: nat
  cdata :: bytes

record storeBlock =
  sbFirst :: "32 word"
  sbData :: bytes

record chunkResult =
  ridx :: nat
  rbase :: "32 word"
  rids :: "32 word list"
  rdls :: "32 word list"
  rblob :: bytes
  rends :: "32 word list"
  rblocks :: "storeBlock list"
  rtokens :: "64 word"

text \<open>The variables of \<open>process\<close>: the worker, the result, the block being filled with its first document, and
  the number of the next document.\<close>

record pstate =
  pworker :: worker
  pres :: chunkResult
  pblk :: bytes
  pfirst :: "32 word"
  pnext :: "32 word"

definition storeBlockSize :: nat where "storeBlockSize = 65536"

definition flushBlock :: "(bytes \<Rightarrow> bytes) \<Rightarrow> pstate \<Rightarrow> pstate" where
  "flushBlock e st =
     (if pblk st = [] then st
      else st\<lparr>pres := (pres st)\<lparr>rblocks := rblocks (pres st) @ [\<lparr>sbFirst = pfirst st, sbData = e (pblk st)\<rparr>]\<rparr>, pblk := []\<rparr>)"

definition field_text :: "bool \<Rightarrow> bytes \<Rightarrow> bytes" where
  "field_text escs raw = (if escs then unescape [] raw else raw)"

definition process_doc :: "unicode \<Rightarrow> (bytes \<Rightarrow> bytes) \<Rightarrow> rawDoc \<Rightarrow> pstate \<Rightarrow> pstate option" where
  "process_doc u e d st =
     (let w = (pworker st)\<lparr>tids := []\<rparr>;
          w = tokenizeInto u (field_text (titleEsc d) (title d)) w;
          w = tokenizeInto u (field_text (textEsc d) (dtext d)) w
      in case addDoc (pnext st) w of
        None \<Rightarrow> None
      | Some w \<Rightarrow>
          let r = pres st;
              r = r\<lparr>rids := rids r @ [rid d], rdls := rdls r @ [of_nat (length (tids w))], rtokens := rtokens r + of_nat (length (tids w)),
                    rblob := rblob r @ title d\<rparr>;
              r = r\<lparr>rends := rends r @ [of_nat (length (rblob r))]\<rparr>;
              st = st\<lparr>pworker := w, pres := r, pfirst := (if pblk st = [] then pnext st else pfirst st),
                     pblk := putUvarint (pblk st) (of_nat (length (dtext d))) @ dtext d\<rparr>;
              st = (if length (pblk st) \<ge> storeBlockSize then flushBlock e st else st)
          in Some (st\<lparr>pnext := pnext st + 1\<rparr>))"

text \<open>The loop over the lines; \<open>Inl\<close> is the error for the document that is no JSON object.\<close>

function process_lines :: "unicode \<Rightarrow> (bytes \<Rightarrow> bytes) \<Rightarrow> bytes \<Rightarrow> pstate \<Rightarrow> (32 word + pstate) option" where
  "process_lines u e data st =
     (if data = [] then Some (Inr st)
      else let line = takeWhile (\<lambda>c. c \<noteq> CHR 0x0A) data; rest = drop (length line + 1) data in
        if isBlank line then process_lines u e rest st
        else case parseLine_doc line of
          None \<Rightarrow> Some (Inl (pnext st))
        | Some d \<Rightarrow> case process_doc u e d st of None \<Rightarrow> None | Some st \<Rightarrow> process_lines u e rest st)"
  by pat_completeness auto
termination by (relation "measure (\<lambda>(u, e, data, st). length data)") auto

declare process_lines.simps [simp del]

section \<open>Writing the run\<close>

record runMeta =
  rfile :: nat
  roff :: "nat list"
  rlen :: "nat list"

text \<open>The terms of a bucket in the order of \<open>slices.SortFunc\<close>; they are all different.\<close>

definition bucket_tids :: "bytes list \<Rightarrow> nat \<Rightarrow> nat list" where
  "bucket_tids ss b = sort_key (\<lambda>i. map (bval :: byte \<Rightarrow> nat) (ss ! i)) (filter (\<lambda>i. termBucket (ss ! i) = b) [0..<length ss])"

definition write_term :: "worker \<Rightarrow> nat \<Rightarrow> worker" where
  "write_term w t =
     (let p = wpost w ! t;
          hdr = putUvarint [] (of_nat (length (strs w ! t))) @ strs w ! t;
          hdr = putUvarint hdr (of_nat (length p))
      in w\<lparr>wout := wout w @ hdr @ p, woff := woff w + (length hdr + length p)\<rparr>)"

fun flush_buckets :: "nat list \<Rightarrow> runMeta \<Rightarrow> worker \<Rightarrow> runMeta \<times> worker" where
  "flush_buckets [] rm w = (rm, w)"
| "flush_buckets (b # bs) rm w =
     (let w' = foldl write_term w (bucket_tids (strs w) b)
      in flush_buckets bs (rm\<lparr>roff := roff rm @ [woff w], rlen := rlen rm @ [woff w' - woff w]\<rparr>) w')"

definition flushRun :: "worker \<Rightarrow> runMeta \<times> worker" where
  "flushRun w =
     (let (rm, w) = flush_buckets [0..<numBuckets] \<lparr>rfile = wid w, roff = [], rlen = []\<rparr> w
      in (rm, w\<lparr>terms := Map.empty, strs := [], wpost := [], last_doc := []\<rparr>))"

definition process_chunk :: "unicode \<Rightarrow> (bytes \<Rightarrow> bytes) \<Rightarrow> chunk \<Rightarrow> worker \<Rightarrow> (32 word + chunkResult \<times> runMeta \<times> worker) option" where
  "process_chunk u e c w =
     (let r = \<lparr>ridx = cidx c, rbase = cbase c, rids = [], rdls = [], rblob = [], rends = [], rblocks = [], rtokens = 0\<rparr> in
      case process_lines u e (cdata c) \<lparr>pworker = w, pres = r, pblk = [], pfirst = cbase c, pnext = cbase c\<rparr> of
        None \<Rightarrow> None
      | Some (Inl d) \<Rightarrow> Some (Inl d)
      | Some (Inr st) \<Rightarrow> let st = flushBlock e st; (rm, w) = flushRun (pworker st) in Some (Inr (pres st, rm, w)))"

section \<open>What a run holds\<close>

text \<open>The entry of a term, the terms of a bucket in order, and the section of a bucket.\<close>

definition term_entry :: "bytes \<Rightarrow> bytes \<Rightarrow> bytes" where
  "term_entry t p = enc (of_nat (length t)) @ t @ enc (of_nat (length p)) @ p"

definition all_terms :: "(32 word \<times> bytes list) list \<Rightarrow> bytes list" where
  "all_terms D = concat (map snd D)"

definition bytes_key :: "bytes \<Rightarrow> nat list" where
  "bytes_key t = map bval t"

definition bucket_terms :: "bytes list \<Rightarrow> nat \<Rightarrow> bytes list" where
  "bucket_terms ts b = sort_key bytes_key (filter (\<lambda>t. termBucket t = b) (remdups ts))"

definition run_section :: "(32 word \<times> bytes list) list \<Rightarrow> nat \<Rightarrow> bytes" where
  "run_section D b = concat (map (\<lambda>t. term_entry t (run_bytes 0 (docs_with t D))) (bucket_terms (all_terms D) b))"

definition run_in :: "bytes \<Rightarrow> runMeta \<Rightarrow> (32 word \<times> bytes list) list \<Rightarrow> bool" where
  "run_in file rm D \<longleftrightarrow> length (roff rm) = numBuckets \<and> length (rlen rm) = numBuckets
     \<and> (\<forall>b < numBuckets. roff rm ! b + rlen rm ! b \<le> length file \<and> take (rlen rm ! b) (drop (roff rm ! b) file) = run_section D b)"

lemma run_in_append: "run_in file rm D \<Longrightarrow> run_in (file @ xs) rm D"
  by (auto simp: run_in_def)

lemma bytes_key_inj: "bytes_key s = bytes_key t \<Longrightarrow> s = t"
  unfolding bytes_key_def by (rule map_injective) (auto simp: inj_def bval_eq_iff)

lemma bytes_less_key: "bytes_less s t \<longleftrightarrow> bytes_key s < bytes_key t"
  by (induction s t rule: bytes_less.induct) (auto simp: bytes_key_def bval_eq_iff)

lemma sorted_terms_unique:
  assumes "sorted (map bytes_key xs)" "distinct xs" "sorted (map bytes_key ys)" "distinct ys" "set xs = set ys"
  shows "xs = ys"
proof -
  have inj: "inj_on bytes_key A" for A by (auto simp: inj_on_def dest: bytes_key_inj)
  have "map bytes_key xs = map bytes_key ys"
    using assms inj by (intro sorted_distinct_set_unique) (auto simp: distinct_map)
  then show ?thesis by (rule map_injective) (auto simp: inj_def dest: bytes_key_inj)
qed

lemma bucket_terms_ok: "sorted (map bytes_key (bucket_terms ts b))" "distinct (bucket_terms ts b)"
  "set (bucket_terms ts b) = {t \<in> set ts. termBucket t = b}"
  by (auto simp: bucket_terms_def)

lemma bucket_tids_terms:
  assumes "distinct ss" "set ss = set ts"
  shows "map ((!) ss) (bucket_tids ss b) = bucket_terms ts b"
proof (rule sorted_terms_unique)
  have k: "map bytes_key (map ((!) ss) (bucket_tids ss b)) = map (\<lambda>i. map bval (ss ! i)) (bucket_tids ss b)" by (simp add: bytes_key_def)
  show "sorted (map bytes_key (map ((!) ss) (bucket_tids ss b)))" unfolding k by (simp add: bucket_tids_def)
  have i: "set (bucket_tids ss b) = {i. i < length ss \<and> termBucket (ss ! i) = b}" "distinct (bucket_tids ss b)" by (auto simp: bucket_tids_def)
  show "distinct (map ((!) ss) (bucket_tids ss b))" using i assms(1) by (auto simp: distinct_map inj_on_def nth_eq_iff_index_eq)
  have "set (map ((!) ss) (bucket_tids ss b)) = {t \<in> set ss. termBucket t = b}" unfolding set_map i(1) set_conv_nth [of ss] by blast
  then show "set (map ((!) ss) (bucket_tids ss b)) = set (bucket_terms ts b)" unfolding bucket_terms_ok(3) assms(2) .
qed (simp_all add: bucket_terms_ok)

lemma write_terms:
  "foldl write_term w js = w\<lparr>wout := wout w @ concat (map (\<lambda>i. term_entry (strs w ! i) (wpost w ! i)) js),
     woff := woff w + length (concat (map (\<lambda>i. term_entry (strs w ! i) (wpost w ! i)) js))\<rparr>"
  by (induction js arbitrary: w) (auto simp: write_term_def Let_def term_entry_def enc_def [symmetric] putUvarint_append)

lemma flush_buckets_at:
  assumes "woff w = length (wout w)" "\<And>b. concat (map (\<lambda>i. term_entry (strs w ! i) (wpost w ! i)) (bucket_tids (strs w) b)) = sec b"
  shows "\<exists>os ls. flush_buckets bs rm w = (rm\<lparr>roff := roff rm @ os, rlen := rlen rm @ ls\<rparr>,
       w\<lparr>wout := wout w @ concat (map sec bs), woff := length (wout w @ concat (map sec bs))\<rparr>)
     \<and> length os = length bs \<and> length ls = length bs
     \<and> (\<forall>k < length bs. os ! k + ls ! k \<le> length (wout w @ concat (map sec bs)) \<and> take (ls ! k) (drop (os ! k) (wout w @ concat (map sec bs))) = sec (bs ! k))"
  using assms
proof (induction bs arbitrary: rm w)
  case Nil
  then show ?case by simp
next
  case (Cons b bs)
  let ?w = "w\<lparr>wout := wout w @ sec b, woff := woff w + length (sec b)\<rparr>"
  have w: "foldl write_term w (bucket_tids (strs w) b) = ?w" unfolding write_terms Cons.prems(2) ..
  have p: "woff ?w = length (wout ?w)" "\<And>b. concat (map (\<lambda>i. term_entry (strs ?w ! i) (wpost ?w ! i)) (bucket_tids (strs ?w) b)) = sec b"
    using Cons.prems by simp_all
  let ?rm = "rm\<lparr>roff := roff rm @ [woff w], rlen := rlen rm @ [length (sec b)]\<rparr>"
  let ?all = "wout w @ sec b @ concat (map sec bs)"
  obtain os ls where r: "flush_buckets bs ?rm ?w = (?rm\<lparr>roff := roff ?rm @ os, rlen := rlen ?rm @ ls\<rparr>,
       ?w\<lparr>wout := wout ?w @ concat (map sec bs), woff := length (wout ?w @ concat (map sec bs))\<rparr>)"
     "length os = length bs" "length ls = length bs"
     "\<forall>k < length bs. os ! k + ls ! k \<le> length (wout ?w @ concat (map sec bs)) \<and> take (ls ! k) (drop (os ! k) (wout ?w @ concat (map sec bs))) = sec (bs ! k)"
    using Cons.IH [OF p, of ?rm] by blast
  have f: "flush_buckets (b # bs) rm w = flush_buckets bs ?rm ?w" using w by (simp add: Let_def)
  have "(woff w # os) ! k + (length (sec b) # ls) ! k \<le> length ?all \<and> take ((length (sec b) # ls) ! k) (drop ((woff w # os) ! k) ?all) = sec ((b # bs) ! k)"
    if "k < length (b # bs)" for k
    using r(4) that Cons.prems(1) by (cases k) auto
  then show ?case unfolding f r(1) using r(2,3) by (intro exI [of _ "woff w # os"] exI [of _ "length (sec b) # ls"]) simp
qed

lemma flushRun_at:
  assumes w: "worker_ok w D" "woff w = length (wout w)" "set (strs w) = set (all_terms D)"
  shows "\<exists>rm xs. flushRun w = (rm, w\<lparr>terms := Map.empty, strs := [], wpost := [], last_doc := [], wout := wout w @ xs, woff := length (wout w @ xs)\<rparr>)
    \<and> rfile rm = wid w \<and> run_in (wout w @ xs) rm D"
proof -
  have n: "numbered w" "sized w" using w(1) by (simp_all add: worker_ok_def)
  have "concat (map (\<lambda>i. term_entry (strs w ! i) (wpost w ! i)) (bucket_tids (strs w) b)) = run_section D b" for b
  proof -
    have "map (\<lambda>i. term_entry (strs w ! i) (wpost w ! i)) (bucket_tids (strs w) b)
        = map (\<lambda>t. term_entry t (run_bytes 0 (docs_with t D))) (map ((!) (strs w)) (bucket_tids (strs w) b))"
      using w(1) by (auto simp: worker_ok_def bucket_tids_def)
    then show ?thesis unfolding bucket_tids_terms [OF numbered_distinct [OF n(1)] w(3)] run_section_def by simp
  qed
  note sec = this
  let ?more = "concat (map (run_section D) [0..<numBuckets])"
  obtain os ls where r: "flush_buckets [0..<numBuckets] \<lparr>rfile = wid w, roff = [], rlen = []\<rparr> w
     = (\<lparr>rfile = wid w, roff = os, rlen = ls\<rparr>, w\<lparr>wout := wout w @ ?more, woff := length (wout w @ ?more)\<rparr>)"
     "length os = numBuckets" "length ls = numBuckets"
     "\<forall>k < numBuckets. os ! k + ls ! k \<le> length (wout w @ ?more) \<and> take (ls ! k) (drop (os ! k) (wout w @ ?more)) = run_section D ([0..<numBuckets] ! k)"
    using flush_buckets_at [OF w(2) sec, of "[0..<numBuckets]" "\<lparr>rfile = wid w, roff = [], rlen = []\<rparr>"] by auto
  have "run_in (wout w @ ?more) \<lparr>rfile = wid w, roff = os, rlen = ls\<rparr> D" using r(2-4) by (simp add: run_in_def del: upt_Suc)
  then show ?thesis using r(1) by (intro exI [of _ "\<lparr>rfile = wid w, roff = os, rlen = ls\<rparr>"] exI [of _ ?more]) (simp add: flushRun_def Let_def)
qed

section \<open>What a chunk becomes\<close>

text \<open>The documents of a text: its lines that are not blank.\<close>

function lines_of :: "bytes \<Rightarrow> bytes list" where
  "lines_of data =
     (if data = [] then []
      else let line = takeWhile (\<lambda>c. c \<noteq> CHR 0x0A) data in line # lines_of (drop (length line + 1) data))"
  by pat_completeness auto
termination by (relation "measure length") auto

declare lines_of.simps [simp del]

definition chunk_docs :: "bytes \<Rightarrow> rawDoc list option" where
  "chunk_docs data = those (map parseLine_doc (filter (\<lambda>l. \<not> isBlank l) (lines_of data)))"

definition doc_tokens :: "unicode \<Rightarrow> rawDoc \<Rightarrow> bytes list" where
  "doc_tokens u d = tokenizeString u (field_text (titleEsc d) (title d)) @ tokenizeString u (field_text (textEsc d) (dtext d))"

fun number_docs :: "unicode \<Rightarrow> 32 word \<Rightarrow> rawDoc list \<Rightarrow> (32 word \<times> bytes list) list" where
  "number_docs u n [] = []"
| "number_docs u n (d # ds) = (n, doc_tokens u d) # number_docs u (n + 1) ds"

definition text_entry :: "rawDoc \<Rightarrow> bytes" where
  "text_entry d = enc (of_nat (length (dtext d))) @ dtext d"

definition title_ends :: "rawDoc list \<Rightarrow> nat list" where
  "title_ends ds = map (\<lambda>k. length (concat (map title (take (Suc k) ds)))) [0..<length ds]"

fun blocks_hold :: "(bytes \<Rightarrow> bytes) \<Rightarrow> storeBlock list \<Rightarrow> 32 word \<Rightarrow> rawDoc list \<Rightarrow> bool" where
  "blocks_hold e [] n ds = (ds = [])"
| "blocks_hold e (b # bs) n ds = (\<exists>xs ys. ds = xs @ ys \<and> xs \<noteq> [] \<and> sbFirst b = n \<and> sbData b = e (concat (map text_entry xs))
     \<and> blocks_hold e bs (n + of_nat (length xs)) ys)"

definition token_count :: "unicode \<Rightarrow> rawDoc list \<Rightarrow> nat" where
  "token_count u ds = length (concat (map (doc_tokens u) ds))"

definition result_ok :: "unicode \<Rightarrow> (bytes \<Rightarrow> bytes) \<Rightarrow> chunkResult \<Rightarrow> rawDoc list \<Rightarrow> bool" where
  "result_ok u e r ds \<longleftrightarrow> rids r = map rid ds \<and> rdls r = map (\<lambda>d. of_nat (length (doc_tokens u d))) ds \<and> rblob r = concat (map title ds)
     \<and> rends r = map of_nat (title_ends ds) \<and> rtokens r = of_nat (token_count u ds)"

lemma number_docs_snoc: "number_docs u n (ds @ [d]) = number_docs u n ds @ [(n + of_nat (length ds), doc_tokens u d)]"
  by (induction ds arbitrary: n) (auto simp: algebra_simps)

lemma all_terms_snoc: "all_terms (D @ [(d, ts)]) = all_terms D @ ts"
  by (simp add: all_terms_def)

lemma title_ends_snoc: "title_ends (ds @ [d]) = title_ends ds @ [length (concat (map title ds) @ title d)]"
  by (simp add: title_ends_def)

lemma blocks_hold_snoc:
  "blocks_hold e bs n ds \<Longrightarrow> xs \<noteq> [] \<Longrightarrow> sbFirst b = n + of_nat (length ds) \<Longrightarrow> sbData b = e (concat (map text_entry xs)) \<Longrightarrow>
     blocks_hold e (bs @ [b]) n (ds @ xs)"
proof (induction e bs n ds rule: blocks_hold.induct)
  case (1 e n ds)
  then show ?case by (auto intro: exI [of _ xs])
next
  case (2 e c bs n ds)
  obtain ys zs where d: "ds = ys @ zs" "ys \<noteq> []" "sbFirst c = n" "sbData c = e (concat (map text_entry ys))" "blocks_hold e bs (n + of_nat (length ys)) zs"
    using 2(2) by auto
  have "blocks_hold e (bs @ [b]) (n + of_nat (length ys)) (zs @ xs)"
    using 2(4) d(1) by (intro "2.IH" [OF d(5) 2(3) _ 2(5)]) (simp add: algebra_simps)
  then show ?case using d(1-4) by auto
qed

text \<open>The state after the documents \<open>ds\<close>.\<close>

definition pstate_ok :: "unicode \<Rightarrow> (bytes \<Rightarrow> bytes) \<Rightarrow> 32 word \<Rightarrow> bytes \<Rightarrow> nat \<Rightarrow> pstate \<Rightarrow> rawDoc list \<Rightarrow> bool" where
  "pstate_ok u e n out i st ds \<longleftrightarrow> worker_ok (pworker st) (number_docs u n ds) \<and> stamped (pworker st) (unat (pnext st))
     \<and> set (strs (pworker st)) = set (all_terms (number_docs u n ds)) \<and> wout (pworker st) = out \<and> woff (pworker st) = length out \<and> wid (pworker st) = i
     \<and> pnext st = n + of_nat (length ds) \<and> result_ok u e (pres st) ds
     \<and> (\<exists>xs ys. ds = xs @ ys \<and> blocks_hold e (rblocks (pres st)) n xs \<and> pblk st = concat (map text_entry ys)
          \<and> (ys \<noteq> [] \<longrightarrow> pfirst st = n + of_nat (length xs)))"

lemma text_entry_nonempty [simp]: "text_entry d \<noteq> []"
  by (simp add: text_entry_def enc_nonempty)

lemma flushBlock_ok:
  assumes "pstate_ok u e n out i st ds"
  shows "pstate_ok u e n out i (flushBlock e st) ds \<and> pblk (flushBlock e st) = [] \<and> blocks_hold e (rblocks (pres (flushBlock e st))) n ds
    \<and> pnext (flushBlock e st) = pnext st \<and> pworker (flushBlock e st) = pworker st"
proof (cases "pblk st = []")
  case True
  then have "flushBlock e st = st" by (simp add: flushBlock_def)
  moreover obtain xs ys where "ds = xs @ ys" "blocks_hold e (rblocks (pres st)) n xs" "pblk st = concat (map text_entry ys)"
    using assms by (auto simp: pstate_ok_def)
  ultimately show ?thesis using assms True by (cases ys) auto
next
  case False
  obtain xs ys where d: "ds = xs @ ys" "blocks_hold e (rblocks (pres st)) n xs" "pblk st = concat (map text_entry ys)"
    "ys \<noteq> [] \<longrightarrow> pfirst st = n + of_nat (length xs)" using assms by (auto simp: pstate_ok_def)
  have ys: "ys \<noteq> []" using False d(3) by auto
  let ?b = "\<lparr>sbFirst = pfirst st, sbData = e (pblk st)\<rparr>"
  have f: "flushBlock e st = st\<lparr>pres := (pres st)\<lparr>rblocks := rblocks (pres st) @ [?b]\<rparr>, pblk := []\<rparr>" using False by (simp add: flushBlock_def)
  have b: "blocks_hold e (rblocks (pres st) @ [?b]) n ds" unfolding d(1)
    using d(3,4) ys by (intro blocks_hold_snoc [OF d(2) ys]) simp_all
  have "pstate_ok u e n out i (flushBlock e st) ds" using assms b unfolding f pstate_ok_def result_ok_def
    by (auto intro!: exI [of _ ds] exI [of _ "[]"])
  then show ?thesis using b f by simp
qed

lemma tokenizeInto_ok:
  assumes "worker_ok w D" "stamped w m" "refers (strs w) (tids w) us"
  shows "let w' = tokenizeInto u s w in
     worker_ok w' D \<and> stamped w' m \<and> refers (strs w') (tids w') (us @ tokenizeString u s) \<and> set (strs w') = set (strs w) \<union> set (tokenizeString u s)
     \<and> wid w' = wid w \<and> wout w' = wout w \<and> woff w' = woff w"
  unfolding tokenizeInto_def tokenizeString_def by (rule add_tokens_ok [OF assms])

lemma process_doc_ok:
  assumes st: "pstate_ok u e n out i st ds" and small: "unat n + length ds + 1 < 2 ^ 32" "length (doc_tokens u d) < 2 ^ 32"
  shows "\<exists>st'. process_doc u e d st = Some st' \<and> pstate_ok u e n out i st' (ds @ [d])"
proof -
  let ?D = "number_docs u n ds"
  have p: "worker_ok (pworker st) ?D" "stamped (pworker st) (unat (pnext st))" "set (strs (pworker st)) = set (all_terms ?D)"
    "wout (pworker st) = out" "woff (pworker st) = length out" "wid (pworker st) = i" "pnext st = n + of_nat (length ds)" "result_ok u e (pres st) ds"
    using st unfolding pstate_ok_def by blast+
  obtain xs ys where b: "ds = xs @ ys" "blocks_hold e (rblocks (pres st)) n xs" "pblk st = concat (map text_entry ys)"
    "ys \<noteq> [] \<longrightarrow> pfirst st = n + of_nat (length xs)" using st by (auto simp: pstate_ok_def)
  have un: "unat (pnext st) = unat n + length ds" using small(1) p(7) by (simp add: unat_word_ariths unat_of_nat take_bit_eq_mod)
  define w0 where "w0 = (pworker st)\<lparr>tids := []\<rparr>"
  have w0: "worker_ok w0 ?D" "stamped w0 (unat (pnext st))" "refers (strs w0) (tids w0) []"
    using p(1,2) by (simp_all add: w0_def worker_ok_def numbered_def sized_def stamped_def refers_def)
  define w1 where "w1 = tokenizeInto u (field_text (titleEsc d) (title d)) w0"
  note t1 = tokenizeInto_ok [OF w0, of u "field_text (titleEsc d) (title d)", folded w1_def, unfolded Let_def]
  define w2 where "w2 = tokenizeInto u (field_text (textEsc d) (dtext d)) w1"
  have t2: "worker_ok w2 ?D" "stamped w2 (unat (pnext st))" "refers (strs w2) (tids w2) (doc_tokens u d)"
    "set (strs w2) = set (strs w1) \<union> set (tokenizeString u (field_text (textEsc d) (dtext d)))" "wid w2 = wid w1" "wout w2 = wout w1" "woff w2 = woff w1"
    using tokenizeInto_ok [of w1 ?D _ _ u "field_text (textEsc d) (dtext d)", folded w2_def, unfolded Let_def] t1 by (auto simp: doc_tokens_def)
  have ss: "set (strs w2) = set (all_terms ?D) \<union> set (doc_tokens u d)" using t1 t2(4) p(3) by (auto simp: doc_tokens_def w0_def)
  have lt: "length (tids w2) = length (doc_tokens u d)" by (rule refers_length [OF t2(3)])
  obtain w3 where w3: "addDoc (pnext st) w2 = Some w3" "worker_ok w3 (?D @ [(pnext st, doc_tokens u d)])" "stamped w3 (unat (pnext st) + 1)"
    "strs w3 = strs w2" "tids w3 = tids w2" "wid w3 = wid w2" "wout w3 = wout w2" "woff w3 = woff w2"
    using addDoc_ok [OF t2(1,2) _ t2(3) small(2)] un small(1) by auto
  define r1 where "r1 = (pres st)\<lparr>rids := rids (pres st) @ [rid d], rdls := rdls (pres st) @ [of_nat (length (doc_tokens u d))],
    rtokens := rtokens (pres st) + of_nat (length (doc_tokens u d)), rblob := rblob (pres st) @ title d,
    rends := rends (pres st) @ [of_nat (length (rblob (pres st) @ title d))]\<rparr>"
  define st1 where "st1 = st\<lparr>pworker := w3, pres := r1, pfirst := (if pblk st = [] then pnext st else pfirst st), pblk := pblk st @ text_entry d\<rparr>"
  define st2 where "st2 = (if length (pblk st1) \<ge> storeBlockSize then flushBlock e st1 else st1)"
  have "process_doc u e d st = Some (st2\<lparr>pnext := pnext st2 + 1\<rparr>)"
    using w3(1,5) lt unfolding process_doc_def Let_def st2_def st1_def r1_def w2_def w1_def w0_def
    by (simp add: putUvarint_append text_entry_def)
  moreover
  have r: "result_ok u e r1 (ds @ [d])" "rblocks r1 = rblocks (pres st)" using p(8)
    by (simp_all add: result_ok_def r1_def title_ends_snoc token_count_def)
  have D: "number_docs u n (ds @ [d]) = ?D @ [(pnext st, doc_tokens u d)]" by (simp add: number_docs_snoc p(7))
  have u1: "unat (pnext st + 1) = unat (pnext st) + 1" using un small(1) by (simp add: unat_word_ariths)
  define st3 where "st3 = st1\<lparr>pnext := pnext st + 1\<rparr>"
  have first: "pfirst st1 = n + of_nat (length xs)" using b p(7) by (cases ys) (auto simp: st1_def)
  have "pstate_ok u e n out i st3 (ds @ [d])" unfolding pstate_ok_def
  proof (intro conjI)
    show "\<exists>xs ys. ds @ [d] = xs @ ys \<and> blocks_hold e (rblocks (pres st3)) n xs \<and> pblk st3 = concat (map text_entry ys)
        \<and> (ys \<noteq> [] \<longrightarrow> pfirst st3 = n + of_nat (length xs))"
      by (rule exI [of _ xs], rule exI [of _ "ys @ [d]"]) (use b r(2) first in \<open>simp add: st3_def st1_def\<close>)
  qed (use w3 t1 t2 ss p r(1) u1 D in \<open>simp_all add: st3_def st1_def all_terms_snoc w0_def algebra_simps\<close>)
  note ok3 = this
  have "st2\<lparr>pnext := pnext st2 + 1\<rparr> = (if length (pblk st1) \<ge> storeBlockSize then flushBlock e st3 else st3)"
    by (simp add: st2_def st3_def flushBlock_def, simp add: st1_def)
  then have "pstate_ok u e n out i (st2\<lparr>pnext := pnext st2 + 1\<rparr>) (ds @ [d])" using ok3 conjunct1 [OF flushBlock_ok [OF ok3]] by simp
  ultimately show ?thesis by blast
qed

text \<open>The lines that are not blank, one after the other.\<close>

fun process_list :: "unicode \<Rightarrow> (bytes \<Rightarrow> bytes) \<Rightarrow> bytes list \<Rightarrow> pstate \<Rightarrow> (32 word + pstate) option" where
  "process_list u e [] st = Some (Inr st)"
| "process_list u e (l # ls) st =
     (case parseLine_doc l of
        None \<Rightarrow> Some (Inl (pnext st))
      | Some d \<Rightarrow> case process_doc u e d st of None \<Rightarrow> None | Some st \<Rightarrow> process_list u e ls st)"

lemma process_lines_list: "process_lines u e data st = process_list u e (filter (\<lambda>l. \<not> isBlank l) (lines_of data)) st"
proof (induction data arbitrary: st rule: lines_of.induct)
  case (1 data)
  show ?case
  proof (cases "data = []")
    case True
    then show ?thesis by (subst process_lines.simps, subst lines_of.simps) simp
  next
    case False
    note IH = "1.IH" [OF False refl]
    show ?thesis using False by (subst process_lines.simps, subst lines_of.simps) (simp add: Let_def IH [simplified] split: option.split)
  qed
qed

lemma process_list_ok:
  "pstate_ok u e n out i st ds \<Longrightarrow> those (map parseLine_doc ls) = Some es \<Longrightarrow> unat n + length ds + length es < 2 ^ 32 \<Longrightarrow>
     \<forall>d \<in> set es. length (doc_tokens u d) < 2 ^ 32 \<Longrightarrow>
     \<exists>st'. (\<forall>xs. process_list u e (ls @ xs) st = process_list u e xs st') \<and> pstate_ok u e n out i st' (ds @ es) \<and> ridx (pres st') = ridx (pres st)"
proof (induction ls arbitrary: st ds es)
  case (Cons l ls)
  obtain d es' where d: "parseLine_doc l = Some d" "es = d # es'" "those (map parseLine_doc ls) = Some es'"
    using Cons.prems(2) by (auto split: option.splits)
  have small: "unat n + length ds + 1 < 2 ^ 32" "length (doc_tokens u d) < 2 ^ 32" using Cons.prems(3,4) d(2) by auto
  obtain st1 where st1: "process_doc u e d st = Some st1" "pstate_ok u e n out i st1 (ds @ [d])"
    using process_doc_ok [OF Cons.prems(1) small] by blast
  have "ridx (pres st1) = ridx (pres st)"
    using st1(1) by (auto simp: process_doc_def Let_def flushBlock_def split: option.splits)
  moreover have "process_list u e ((l # ls) @ xs) st = process_list u e (ls @ xs) st1" for xs using d(1) st1(1) by simp
  moreover have "unat n + length (ds @ [d]) + length es' < 2 ^ 32" "\<forall>d \<in> set es'. length (doc_tokens u d) < 2 ^ 32"
    using Cons.prems(3,4) d(2) by auto
  note IH = Cons.IH [OF st1(2) d(3) this]
  ultimately show ?case using d(2) by auto
qed auto

text \<open>A worker between two chunks: nothing of the old run is left but the stamps.\<close>

definition ready :: "worker \<Rightarrow> nat \<Rightarrow> bool" where
  "ready w m \<longleftrightarrow> worker_ok w [] \<and> strs w = [] \<and> stamped w m \<and> woff w = length (wout w)"

lemma ready_start:
  assumes "ready w m" "m \<le> unat (cbase c)"
  shows "pstate_ok u e (cbase c) (wout w) (wid w) \<lparr>pworker = w, pres = \<lparr>ridx = cidx c, rbase = cbase c, rids = [], rdls = [], rblob = [],
    rends = [], rblocks = [], rtokens = 0\<rparr>, pblk = [], pfirst = cbase c, pnext = cbase c\<rparr> []"
proof -
  have z: "stamped w (unat (cbase c))" using assms by (force simp: ready_def stamped_def)
  then show ?thesis using assms(1)
    by (simp add: pstate_ok_def ready_def result_ok_def all_terms_def title_ends_def token_count_def)
qed

lemma process_chunk_ok:
  assumes w: "ready w m" "m \<le> unat (cbase c)" and ds: "chunk_docs (cdata c) = Some ds"
    and small: "unat (cbase c) + length ds < 2 ^ 32" "\<forall>d \<in> set ds. length (doc_tokens u d) < 2 ^ 32"
  shows "\<exists>r rm w'. process_chunk u e c w = Some (Inr (r, rm, w')) \<and> result_ok u e r ds \<and> blocks_hold e (rblocks r) (cbase c) ds
    \<and> ridx r = cidx c \<and> rfile rm = wid w \<and> (\<exists>xs. wout w' = wout w @ xs) \<and> run_in (wout w') rm (number_docs u (cbase c) ds)
    \<and> ready w' (unat (cbase c) + length ds) \<and> wid w' = wid w"
proof -
  let ?r = "\<lparr>ridx = cidx c, rbase = cbase c, rids = [], rdls = [], rblob = [], rends = [], rblocks = [], rtokens = 0\<rparr>"
  let ?st = "\<lparr>pworker = w, pres = ?r, pblk = [], pfirst = cbase c, pnext = cbase c\<rparr>"
  obtain st where l: "\<forall>xs. process_list u e (filter (\<lambda>l. \<not> isBlank l) (lines_of (cdata c)) @ xs) ?st = process_list u e xs st"
    "pstate_ok u e (cbase c) (wout w) (wid w) st ds" "ridx (pres st) = cidx c"
    using process_list_ok [OF ready_start [OF w] ds [unfolded chunk_docs_def], of u e] small by auto
  note st = process_lines_list [of u e "cdata c" ?st, unfolded spec [OF l(1), of "[]", unfolded append_Nil2 process_list.simps]] l(2,3)
  define st' where "st' = flushBlock e st"
  have f: "pstate_ok u e (cbase c) (wout w) (wid w) st' ds" "blocks_hold e (rblocks (pres st')) (cbase c) ds" "ridx (pres st') = cidx c"
    using flushBlock_ok [OF st(2)] st(3) by (auto simp: st'_def, simp add: flushBlock_def)
  let ?D = "number_docs u (cbase c) ds" and ?w = "pworker st'"
  have p: "worker_ok ?w ?D" "stamped ?w (unat (pnext st'))" "set (strs ?w) = set (all_terms ?D)" "wout ?w = wout w" "woff ?w = length (wout w)"
    "wid ?w = wid w" "pnext st' = cbase c + of_nat (length ds)" "result_ok u e (pres st') ds"
    using f(1) unfolding pstate_ok_def by blast+
  obtain rm xs where r: "flushRun ?w = (rm, ?w\<lparr>terms := Map.empty, strs := [], wpost := [], last_doc := [], wout := wout ?w @ xs, woff := length (wout ?w @ xs)\<rparr>)"
    "rfile rm = wid ?w" "run_in (wout ?w @ xs) rm ?D"
    using flushRun_at [OF p(1) _ p(3)] p(4,5) by auto
  let ?w' = "?w\<lparr>terms := Map.empty, strs := [], wpost := [], last_doc := [], wout := wout ?w @ xs, woff := length (wout ?w @ xs)\<rparr>"
  have un: "unat (pnext st') = unat (cbase c) + length ds" using p(7) small(1) by (simp add: unat_word_ariths unat_of_nat take_bit_eq_mod)
  have "ready ?w' (unat (cbase c) + length ds)" using p(1,2) un by (simp add: ready_def worker_ok_def numbered_def sized_def stamped_def)
  moreover have "process_chunk u e c w = Some (Inr (pres st', rm, ?w'))" using st(1) r(1) by (simp add: process_chunk_def st'_def Let_def)
  ultimately show ?thesis using p(4,6,8) f(2,3) r(2,3) by auto
qed

lemma process_chunk_error:
  assumes w: "ready w m" "m \<le> unat (cbase c)" and ls: "filter (\<lambda>l. \<not> isBlank l) (lines_of (cdata c)) = ls @ l # xs"
    "those (map parseLine_doc ls) = Some ds" "parseLine_doc l = None"
    and small: "unat (cbase c) + length ds < 2 ^ 32" "\<forall>d \<in> set ds. length (doc_tokens u d) < 2 ^ 32"
  shows "process_chunk u e c w = Some (Inl (cbase c + of_nat (length ds)))"
proof -
  let ?st = "\<lparr>pworker = w, pres = \<lparr>ridx = cidx c, rbase = cbase c, rids = [], rdls = [], rblob = [],
    rends = [], rblocks = [], rtokens = 0\<rparr>, pblk = [], pfirst = cbase c, pnext = cbase c\<rparr>"
  obtain st where st: "\<forall>xs. process_list u e (ls @ xs) ?st = process_list u e xs st" "pstate_ok u e (cbase c) (wout w) (wid w) st ([] @ ds)"
    using process_list_ok [OF ready_start [OF w] ls(2), of u e] small by auto
  have "pnext st = cbase c + of_nat (length ds)" using st(2) unfolding pstate_ok_def by simp
  then show ?thesis using ls(3) by (simp add: process_chunk_def process_lines_list ls(1) st(1) Let_def)
qed

end
