(* ===== verification/Search_Merged.thy ===== *)
theory Search_Merged
  imports Search_Merge
begin

text \<open>
  What \<open>mergeBucket\<close> writes: the encoder lays the postings of a term out in blocks with a skip table, and the
  merge takes the terms in order, each with the postings of all runs.
\<close>

section \<open>Encoding\<close>

definition to_posting :: "32 word \<times> nat list \<Rightarrow> posting" where
  "to_posting x = \<lparr>pdoc = fst x, ppos = gaps 0 (snd x)\<rparr>"

lemma length_gaps [simp]: "length (gaps p qs) = length qs"
  by (induction p qs rule: gaps.induct) auto

lemma le_bytes_low: "take_bit (8 * n) v = take_bit (8 * n) w \<Longrightarrow> le_bytes n v = le_bytes n w"
proof (induction n arbitrary: v w)
  case (Suc n)
  have m: "min 8 (8 * Suc n) = 8" and n: "8 * Suc n - 8 = 8 * n" by simp_all
  have "take_bit 8 (take_bit (8 * Suc n) v) = take_bit 8 (take_bit (8 * Suc n) w)" by (rule arg_cong [OF Suc.prems])
  then have t: "take_bit 8 v = take_bit 8 w" unfolding take_bit_take_bit m .
  have b: "byte_of v = byte_of w" unfolding byte_of_def masks take_bit_eq_mask [symmetric] t ..
  have "drop_bit 8 (take_bit (8 * Suc n) v) = drop_bit 8 (take_bit (8 * Suc n) w)" by (rule arg_cong [OF Suc.prems])
  then have "take_bit (8 * n) (drop_bit 8 v) = take_bit (8 * n) (drop_bit 8 w)" unfolding drop_bit_take_bit n .
  note IH = Suc.IH [OF this]
  show ?case unfolding le_bytes.simps b IH ..
qed simp

lemma le_put32_of_nat: "le_put32 (of_nat n) = le_bytes 4 (of_nat n)"
  unfolding le_put32_def
proof (rule le_bytes_low)
  have "(ucast (of_nat n :: 32 word) :: 64 word) = take_bit 32 (of_nat n)" by (rule bit_word_eqI) (simp add: bit_simps)
  then show "take_bit (8 * 4) (ucast (of_nat n :: 32 word) :: 64 word) = take_bit (8 * 4) (of_nat n)" by (simp add: take_bit_take_bit)
qed

lemma put_deltas_at: "put_deltas b prev ds = b @ concat (map enc (deltas prev ds))"
  by (induction b prev ds rule: put_deltas.induct) (simp_all add: putUvarint_append)

lemma put_tfs_at: "foldl (\<lambda>b f. putUvarint b (ucast f)) b fs = b @ concat (map (\<lambda>f. enc (ucast f)) fs)"
  by (induction fs arbitrary: b) (simp_all add: putUvarint_append)

lemma block_append: "docsPerBlock * (b + 1) \<le> length ps \<Longrightarrow> block (ps @ qs) b = block ps b"
  by (simp add: block_def docsPerBlock_def)

lemma before_append: "docsPerBlock * b \<le> length ps \<Longrightarrow> before (ps @ qs) b = before ps b"
  by (auto simp: before_def docsPerBlock_def nth_append min_def)

lemma blocks_append: "docsPerBlock * n \<le> length ps \<Longrightarrow> blocks_bytes (ps @ qs) n = blocks_bytes ps n"
  unfolding blocks_bytes_def
  by (intro arg_cong [of _ _ concat] map_cong refl arg_cong2 [of _ _ _ _ block_bytes] before_append block_append) (auto simp: docsPerBlock_def)

lemma skip_entry_append: "docsPerBlock * (b + 1) \<le> length ps \<Longrightarrow> skip_entry (ps @ qs) p b = skip_entry ps p b"
  using blocks_append [of b ps qs] before_append [of "b + 1" ps qs] by (simp add: skip_entry_def docsPerBlock_def)

lemma skips_append:
  "docsPerBlock * k \<le> length ps \<Longrightarrow> concat (map (skip_entry (ps @ qs) p) [0..<k]) = concat (map (skip_entry ps p) [0..<k])"
  by (intro arg_cong [of _ _ concat] map_cong refl skip_entry_append) (auto simp: docsPerBlock_def)

text \<open>The encoder has flushed the first \<open>k\<close> blocks of \<open>ps\<close> and holds the rest, at most one block.\<close>

definition encoded :: "bytes \<Rightarrow> encoder \<Rightarrow> posting list \<Rightarrow> nat \<Rightarrow> bool" where
  "encoded pw g ps k \<longleftrightarrow> length ps \<le> docsPerBlock * (k + 1)
     \<and> gblocks g = blocks_bytes ps k \<and> gskip g = concat (map (skip_entry ps (of_nat (length pw))) [0..<k]) \<and> gdf g = of_nat (length ps)
     \<and> gdocs g = map pdoc (drop (docsPerBlock * k) ps) \<and> gtfs g = map ptf (drop (docsPerBlock * k) ps) \<and> gprev g = before ps k
     \<and> gposW g = pw @ pos_bytes ps
     \<and> (gdocs g \<noteq> [] \<longrightarrow> gpos g = of_nat (length pw) + of_nat (length (pos_bytes (take (docsPerBlock * k) ps))))"

lemma flush_encoded:
  assumes e: "encoded pw g ps k" and ne: "gdocs g \<noteq> []"
  shows "encoded pw (flush_block g) ps (k + 1)"
proof -
  let ?r = "drop (docsPerBlock * k) ps"
  have g: "length ps \<le> docsPerBlock * (k + 1)" "gblocks g = blocks_bytes ps k" "gskip g = concat (map (skip_entry ps (of_nat (length pw))) [0..<k])"
    "gdf g = of_nat (length ps)" "gdocs g = map pdoc ?r" "gtfs g = map ptf ?r" "gprev g = before ps k" "gposW g = pw @ pos_bytes ps"
    "gpos g = of_nat (length pw) + of_nat (length (pos_bytes (take (docsPerBlock * k) ps)))"
    using e ne by (simp_all add: encoded_def)
  have r: "?r \<noteq> []" using ne g(5) by auto
  then have lp: "docsPerBlock * k < length ps" by simp
  have blk: "block ps k = ?r" using g(1) by (simp add: block_def algebra_simps)
  have "last ?r = ps ! (length ps - 1)" using r lp by (simp add: last_drop last_conv_nth)
  moreover have "min (docsPerBlock * (k + 1)) (length ps) = length ps" using g(1) by simp
  ultimately have last: "last (gdocs g) = before ps (k + 1)" using r unfolding g(5) before_def by (simp add: last_map)
  have b: "blocks_bytes ps (k + 1) = blocks_bytes ps k @ concat (map enc (deltas (before ps k) (map pdoc ?r))) @ concat (map (\<lambda>p. enc (ucast (ptf p))) ?r)"
    by (simp add: blocks_bytes_def block_bytes_def blk)
  have s: "skip_entry ps (of_nat (length pw)) k = le_put32 (last (gdocs g)) @ le_put32 (of_nat (length (gblocks g))) @ le_bytes 8 (gpos g)"
    unfolding skip_entry_def last g(2,9) le_put32_of_nat by (simp add: le_put32_def)
  have d: "drop (docsPerBlock * (k + 1)) ps = []" using g(1) by simp
  have m: "map (\<lambda>f. enc (ucast f)) (map ptf ?r) = map (\<lambda>p. enc (ucast (ptf p))) ?r" by simp
  have bb: "foldl (\<lambda>b f. putUvarint b (ucast f)) (put_deltas (gblocks g) (gprev g) (gdocs g)) (gtfs g) = blocks_bytes ps (k + 1)"
    unfolding put_deltas_at put_tfs_at b g(2,5,6,7) m append_assoc ..
  show ?thesis unfolding encoded_def flush_block_def Let_def bb
    using g(1,3,4,8) s d last by simp
qed

definition encoding :: "bytes \<Rightarrow> encoder \<Rightarrow> posting list \<Rightarrow> bool" where
  "encoding pw g ps \<longleftrightarrow> (\<exists>k. encoded pw g ps k \<and> docsPerBlock * k \<le> length ps \<and> length ps < docsPerBlock * (k + 1))"

lemma add_posting_encoded:
  assumes e: "encoding pw g ps" and x: "ucast f = ptf x"
  shows "encoding pw (add_posting (pdoc x) f (concat (map enc (ppos x))) g) (ps @ [x])"
proof -
  obtain k where k: "encoded pw g ps k" "docsPerBlock * k \<le> length ps" "length ps < docsPerBlock * (k + 1)" using e by (auto simp: encoding_def)
  let ?ps = "ps @ [x]"
  define g1 where "g1 = (if gdocs g = [] then g\<lparr>gpos := of_nat (length (gposW g))\<rparr> else g)"
  define g2 where "g2 = g1\<lparr>gposW := gposW g1 @ concat (map enc (ppos x)), gdocs := gdocs g1 @ [pdoc x], gtfs := gtfs g1 @ [ucast f], gdf := gdf g1 + 1\<rparr>"
  have d: "drop (docsPerBlock * k) ?ps = drop (docsPerBlock * k) ps @ [x]" using k(2) by simp
  have t: "take (docsPerBlock * k) ?ps = take (docsPerBlock * k) ps" using k(2) by simp
  have gp: "gpos g1 = of_nat (length pw) + of_nat (length (pos_bytes (take (docsPerBlock * k) ps)))"
  proof (cases "gdocs g = []")
    case True
    then have "length ps \<le> docsPerBlock * k" using k(1) by (simp add: encoded_def)
    then show ?thesis using True k(1,2) by (simp add: g1_def encoded_def)
  qed (use k(1) in \<open>simp add: g1_def encoded_def\<close>)
  have same: "gblocks g1 = gblocks g" "gskip g1 = gskip g" "gdf g1 = gdf g" "gdocs g1 = gdocs g" "gtfs g1 = gtfs g" "gprev g1 = gprev g" "gposW g1 = gposW g"
    by (simp_all add: g1_def)
  have e2: "encoded pw g2 ?ps k" using k gp x
    by (simp add: encoded_def g2_def same d t blocks_append before_append skips_append pos_bytes_append, simp add: pos_bytes_def)
  have a: "add_posting (pdoc x) f (concat (map enc (ppos x))) g = (if length (gdocs g2) = docsPerBlock then flush_block g2 else g2)"
    by (simp add: add_posting_def g2_def g1_def Let_def)
  have l: "length (gdocs g2) = length ?ps - docsPerBlock * k" "gdocs g2 \<noteq> []" using e2 d k(2) by (simp_all add: encoded_def Suc_diff_le)
  show ?thesis
  proof (cases "length (gdocs g2) = docsPerBlock")
    case True
    then have "length ?ps = docsPerBlock * (k + 1)" using l(1) k(2) by simp
    then show ?thesis unfolding a using True flush_encoded [OF e2 l(2)]
      by (auto simp: encoding_def docsPerBlock_def intro!: exI [of _ "k + 1"])
  next
    case False
    then show ?thesis unfolding a using e2 k l(1) by (auto simp: encoding_def intro!: exI [of _ k])
  qed
qed

lemma merge_data_at:
  "drop i data = run_bytes d0 qs \<Longrightarrow> encoding pw g ps \<Longrightarrow> \<forall>q \<in> set qs. length (snd q) < 2 ^ 32 \<Longrightarrow>
     \<exists>g'. merge_data data i d0 g = Some g' \<and> encoding pw g' (ps @ map to_posting qs)"
proof (induction qs arbitrary: i d0 g ps)
  case Nil
  then show ?case by (subst merge_data.simps) simp
next
  case (Cons q qs)
  obtain d ls where q: "q = (d, ls)" by fastforce
  have small: "length ls < 2 ^ 32" using Cons.prems(3) q by simp
  let ?f = "of_nat (length ls) :: 64 word" and ?v = "ucast (d - d0) :: 64 word" and ?P = "concat (map enc (gaps 0 ls))"
  have d1: "drop i data = enc ?v @ enc ?f @ ?P @ run_bytes d qs" using Cons.prems(1) by (simp add: q posting_bytes_def)
  note u1 = uvarint_enc [OF d1]
  note d2 = drop_more [OF d1]
  note u2 = uvarint_enc [OF d2]
  note d3 = drop_more [OF d2]
  let ?k = "i + length (enc ?v) + length (enc ?f)"
  have sf: "sint ?f = int (length (gaps 0 ls))" using small by (simp add: sint_uint signed_take_bit_int_eq_self unsigned_of_nat take_bit_eq_mod)
  have u3: "skipVarints data ?k (sint ?f) = Some (?k + length ?P)" unfolding sf skipVarints_bytes by (rule skip_bytes_encs [OF d3])
  have "?k + length ?P \<le> length data" 
    using arg_cong [OF d2, of length] enc_nonempty [of ?f, folded length_greater_0_conv] unfolding length_append length_drop by linarith
  moreover have "take (length ?P) (drop ?k data) = ?P" using d3 by simp
  ultimately have s: "slice_of data ?k (?k + length ?P) = Some ?P" by (simp add: slice_of_def)
  have i: "i < length data" using d1 enc_nonempty [of ?v] by (cases "i < length data") auto
  have v: "d0 + ucast ?v = d" by simp
  let ?g = "add_posting d ?f ?P g"
  have "(ucast ?f :: 32 word) = of_nat (length ls)" by (rule bit_word_eqI) (simp add: bit_simps)
  then have "ucast ?f = ptf (to_posting q)" by (simp add: ptf_def to_posting_def q)
  from add_posting_encoded [OF Cons.prems(2) this] have e: "encoding pw ?g (ps @ [to_posting q])" by (simp add: to_posting_def q)
  have "merge_data data i d0 g = merge_data data (?k + length ?P) d ?g"
    by (subst merge_data.simps) (simp add: i u1 u2 u3 s v)
  then show ?case using Cons.IH [OF drop_more [OF d3] e] Cons.prems(3) by simp
qed

lemma new_encoding: "encoding pw (new_encoder pw) []"
  by (simp add: encoding_def encoded_def new_encoder_def blocks_bytes_def before_def pos_bytes_def docsPerBlock_def)

lemma merge_group_at:
  "encoding pw g ps \<Longrightarrow> list_all2 (\<lambda>c qs. rdata c = run_bytes 0 qs \<and> (\<forall>q \<in> set qs. length (snd q) < 2 ^ 32)) cs qss \<Longrightarrow>
     \<exists>g'. merge_group cs g = Some g' \<and> encoding pw g' (ps @ map to_posting (concat qss))"
proof (induction cs arbitrary: g ps qss)
  case (Cons c cs)
  obtain qs r where q: "qss = qs # r" "rdata c = run_bytes 0 qs" "\<forall>q \<in> set qs. length (snd q) < 2 ^ 32"
    "list_all2 (\<lambda>c qs. rdata c = run_bytes 0 qs \<and> (\<forall>q \<in> set qs. length (snd q) < 2 ^ 32)) cs r"
    using Cons.prems(2) by (cases qss) auto
  obtain g1 where g1: "merge_data (rdata c) 0 0 g = Some g1" "encoding pw g1 (ps @ map to_posting qs)"
    using merge_data_at [of 0 "rdata c" 0 qs pw g ps] Cons.prems(1) q(2,3) by auto
  then show ?case using Cons.IH [OF g1(2) q(4)] q(1) by simp
qed simp

text \<open>The last block is flushed.\<close>

lemma final_encoded:
  assumes "encoding pw g ps" "ps \<noteq> []"
  shows "let g' = (if gdocs g \<noteq> [] then flush_block g else g) in
    gblocks g' = blocks_bytes ps (block_count ps) \<and> gskip g' = skip_bytes_of ps (of_nat (length pw)) \<and> gdf g' = of_nat (length ps)
    \<and> gposW g' = pw @ pos_bytes ps"
proof -
  obtain k where k: "encoded pw g ps k" "docsPerBlock * k \<le> length ps" "length ps < docsPerBlock * (k + 1)" using assms(1) by (auto simp: encoding_def)
  show ?thesis
  proof (cases "gdocs g = []")
    case True
    then have "length ps = docsPerBlock * k" using k by (simp add: encoded_def)
    then have "block_count ps = k" by (simp add: block_count_def docsPerBlock_def)
    then show ?thesis using True k(1) by (simp add: encoded_def skip_bytes_of_def)
  next
    case False
    then have "length ps > docsPerBlock * k" using k by (simp add: encoded_def)
    then have "block_count ps = k + 1" using k(3) unfolding block_count_def docsPerBlock_def
      by (intro div_nat_eqI) auto
    then show ?thesis using False flush_encoded [OF k(1) False] by (simp add: encoded_def skip_bytes_of_def)
  qed
qed

section \<open>The heap of cursors\<close>

lemma cursor_less_trans: "cursor_less a b \<Longrightarrow> cursor_less b c \<Longrightarrow> cursor_less a c"
  by (auto simp: cursor_less_def bytes_less_key split: if_splits dest: bytes_key_inj)

lemma cursor_less_total: "rrun a \<noteq> rrun b \<Longrightarrow> \<not> cursor_less a b \<Longrightarrow> cursor_less b a"
  using bytes_key_inj [of "rterm b" "rterm a"] by (cases "rterm a = rterm b") (auto simp: cursor_less_def bytes_less_key not_less le_less)

lemma heap_push_ok:
  "sorted_wrt cursor_less h \<Longrightarrow> \<forall>d \<in> set h. rrun d \<noteq> rrun c \<Longrightarrow> sorted_wrt cursor_less (heap_push c h) \<and> set (heap_push c h) = insert c (set h)"
proof (induction h)
  case (Cons d h)
  have IH: "sorted_wrt cursor_less (heap_push c h)" "set (heap_push c h) = insert c (set h)" using Cons by auto
  show ?case
  proof (cases "cursor_less d c")
    case True
    then show ?thesis using IH Cons.prems(1) by auto
  next
    case False
    then have "cursor_less c d" using Cons.prems(2) by (intro cursor_less_total) auto
    then show ?thesis using False Cons.prems(1) cursor_less_trans by auto
  qed
qed simp

lemma heap_init_ok:
  "distinct (map rrun cs) \<Longrightarrow> sorted_wrt cursor_less (heap_init cs) \<and> set (heap_init cs) = set cs"
proof (induction cs)
  case (Cons c cs)
  have IH: "sorted_wrt cursor_less (heap_init cs)" "set (heap_init cs) = set cs" using Cons by auto
  have "\<forall>d \<in> set (heap_init cs). rrun d \<noteq> rrun c" unfolding IH(2) using Cons.prems by (auto simp: image_iff)
  from heap_push_ok [OF IH(1) this] IH(2) show ?case by (simp add: heap_init_def)
qed (simp add: heap_init_def)

lemma pop_group_filter:
  "sorted_wrt cursor_less h \<Longrightarrow> \<forall>c \<in> set h. rterm c = t \<or> bytes_less t (rterm c) \<Longrightarrow>
     pop_group t h = (filter (\<lambda>c. rterm c = t) h, filter (\<lambda>c. rterm c \<noteq> t) h)"
proof (induction h)
  case (Cons c h)
  show ?case
  proof (cases "rterm c = t")
    case True
    then show ?thesis using Cons by simp
  next
    case False
    then have c: "bytes_key t < bytes_key (rterm c)" using Cons.prems(2) by (simp add: bytes_less_key)
    have "rterm d \<noteq> t" if "d \<in> set h" for d
    proof
      assume d: "rterm d = t"
      have "cursor_less c d" using Cons.prems(1) that by simp
      then show False using c False d by (auto simp: cursor_less_def bytes_less_key)
    qed
    then have "filter (\<lambda>c. rterm c = t) h = []" "filter (\<lambda>c. rterm c \<noteq> t) h = h" by (auto simp: filter_empty_conv)
    then show ?thesis using False by simp
  qed
qed simp

lemma advance_group_ok:
  "\<forall>c \<in> set g. run_advance c = Some (case nxt c of Some c' \<Rightarrow> (True, c') | None \<Rightarrow> (False, c)) \<and> (\<forall>c'. nxt c = Some c' \<longrightarrow> rrun c' = rrun c) \<Longrightarrow>
     distinct (map rrun g) \<Longrightarrow> rrun ` set g \<inter> rrun ` set h = {} \<Longrightarrow> sorted_wrt cursor_less h \<Longrightarrow>
     \<exists>h'. advance_group g h = Some h' \<and> sorted_wrt cursor_less h' \<and> set h' = set h \<union> {c'. \<exists>c \<in> set g. nxt c = Some c'}"
proof (induction g arbitrary: h)
  case (Cons c g)
  let ?h = "case nxt c of Some c' \<Rightarrow> heap_push c' h | None \<Rightarrow> h"
  have adv: "run_advance c = Some (case nxt c of Some c' \<Rightarrow> (True, c') | None \<Rightarrow> (False, c))" "\<And>c'. nxt c = Some c' \<Longrightarrow> rrun c' = rrun c"
    using bspec [OF Cons.prems(1) list.set_intros(1)] by blast+
  have apart: "\<forall>d \<in> set h. rrun d \<noteq> rrun c"
  proof
    fix d assume "d \<in> set h"
    then have "rrun d \<in> rrun ` set h" by (rule imageI)
    then show "rrun d \<noteq> rrun c" using Cons.prems(3) by auto
  qed
  have h: "sorted_wrt cursor_less ?h \<and> set ?h = set h \<union> {c'. nxt c = Some c'}"
  proof (cases "nxt c")
    case (Some c')
    then have "\<forall>d \<in> set h. rrun d \<noteq> rrun c'" using apart adv(2) by simp
    from heap_push_ok [OF Cons.prems(4) this] Some show ?thesis by auto
  qed (use Cons.prems(4) in simp)
  have "rrun ` set ?h \<subseteq> insert (rrun c) (rrun ` set h)" unfolding conjunct2 [OF h] using adv(2) by auto
  moreover have "rrun c \<notin> rrun ` set g" "rrun ` set g \<inter> rrun ` set h = {}" using Cons.prems(2,3) by auto
  moreover have "A \<subseteq> insert x B \<Longrightarrow> x \<notin> G \<Longrightarrow> G \<inter> B = {} \<Longrightarrow> G \<inter> A = {}" for A B G and x :: nat by blast
  ultimately have "rrun ` set g \<inter> rrun ` set ?h = {}" by metis
  note disj = this
  have "\<forall>c \<in> set g. run_advance c = Some (case nxt c of Some c' \<Rightarrow> (True, c') | None \<Rightarrow> (False, c)) \<and> (\<forall>c'. nxt c = Some c' \<longrightarrow> rrun c' = rrun c)"
    "distinct (map rrun g)" using Cons.prems(1,2) by simp_all
  from Cons.IH [OF this disj conjunct1 [OF h]] obtain h' where h': "advance_group g ?h = Some h'" "sorted_wrt cursor_less h'"
    "set h' = set ?h \<union> {c'. \<exists>c \<in> set g. nxt c = Some c'}" by blast
  have "advance_group (c # g) h = Some h'" using h'(1) by (cases "nxt c") (simp_all add: adv(1))
  moreover have "set h' = set h \<union> {c'. \<exists>c \<in> set (c # g). nxt c = Some c'}" unfolding h'(3) conjunct2 [OF h] by auto
  ultimately show ?case using h'(2) by blast
qed simp

section \<open>The cursors of the runs\<close>

text \<open>\<open>Ds\<close> are the documents of the runs. The cursor of run \<open>i\<close> when the terms \<open>ts\<close> are left.\<close>

definition entry_in :: "(32 word \<times> bytes list) list \<Rightarrow> bytes \<Rightarrow> bytes" where
  "entry_in D t = term_entry t (run_bytes 0 (docs_with t D))"

definition cursor_at :: "(32 word \<times> bytes list) list list \<Rightarrow> nat \<Rightarrow> bytes list \<Rightarrow> runCursor option" where
  "cursor_at Ds i ts = (case ts of [] \<Rightarrow> None
     | t # r \<Rightarrow> Some \<lparr>rrest = concat (map (entry_in (Ds ! i)) r), rrun = i, rterm = t, rdata = run_bytes 0 (docs_with t (Ds ! i))\<rparr>)"

definition left_in :: "(32 word \<times> bytes list) list list \<Rightarrow> nat \<Rightarrow> bytes list \<Rightarrow> bytes list" where
  "left_in Ds i todo = filter (\<lambda>t. t \<in> set (all_terms (Ds ! i))) todo"

definition merge_heap :: "(32 word \<times> bytes list) list list \<Rightarrow> bytes list \<Rightarrow> runCursor list \<Rightarrow> bool" where
  "merge_heap Ds todo h \<longleftrightarrow> sorted_wrt cursor_less h \<and> (\<forall>c. c \<in> set h \<longleftrightarrow> (\<exists>i < length Ds. cursor_at Ds i (left_in Ds i todo) = Some c))"

text \<open>What the sizes of the runs have to satisfy.\<close>

definition runs_fit :: "(32 word \<times> bytes list) list list \<Rightarrow> bool" where
  "runs_fit Ds \<longleftrightarrow> (\<forall>D \<in> set Ds. \<forall>t \<in> set (all_terms D). length t < 2 ^ 64 \<and> length (run_bytes 0 (docs_with t D)) < 2 ^ 64)
     \<and> (\<forall>D \<in> set Ds. \<forall>(d, ts) \<in> set D. length ts < 2 ^ 32)"

lemma cursor_at_run: "cursor_at Ds i ts = Some c \<Longrightarrow> rrun c = i \<and> rterm c = hd ts \<and> ts \<noteq> []"
  by (cases ts) (auto simp: cursor_at_def)

lemma cursor_at_next:
  assumes "runs_fit Ds" "i < length Ds" "set ts \<subseteq> set (all_terms (Ds ! i))" "cursor_at Ds i (t # ts) = Some c"
  shows "run_advance c = Some (case cursor_at Ds i ts of Some c' \<Rightarrow> (True, c') | None \<Rightarrow> (False, c))"
proof (cases ts)
  case Nil
  then show ?thesis using assms(4) by (auto simp: cursor_at_def intro: run_advance_end)
next
  case (Cons t' ts')
  have "Ds ! i \<in> set Ds" "t' \<in> set (all_terms (Ds ! i))" using assms(2,3) Cons by auto
  then have l: "length t' < 2 ^ 64" "length (run_bytes 0 (docs_with t' (Ds ! i))) < 2 ^ 64" using assms(1) by (auto simp: runs_fit_def)
  have c: "rrest c = term_entry t' (run_bytes 0 (docs_with t' (Ds ! i))) @ concat (map (entry_in (Ds ! i)) ts')" "rrun c = i"
    using assms(4) Cons by (auto simp: cursor_at_def entry_in_def)
  show ?thesis using run_advance_entry [OF c(1) l] c(2) Cons by (cases c) (simp add: cursor_at_def)
qed

lemma docs_with_append: "docs_with t (D @ E) = docs_with t D @ docs_with t E"
  by (simp add: docs_with_def)

lemma docs_with_absent: "t \<notin> set (all_terms D) \<Longrightarrow> docs_with t D = []"
  by (intro docs_with_none) (auto simp: all_terms_def)

lemma docs_with_runs: "concat (map (\<lambda>i. docs_with t (Ds ! i)) (filter (\<lambda>i. t \<in> set (all_terms (Ds ! i))) [0..<length Ds])) = docs_with t (concat Ds)"
proof -
  have "concat (map (\<lambda>i. docs_with t (Ds ! i)) (filter (\<lambda>i. t \<in> set (all_terms (Ds ! i))) js)) = concat (map (\<lambda>i. docs_with t (Ds ! i)) js)" for js
    by (induction js) (auto simp: docs_with_absent)
  moreover have "concat (map (docs_with t) Ds) = docs_with t (concat Ds)"
    by (induction Ds) (simp_all add: docs_with_append, simp add: docs_with_def)
  moreover have "map (\<lambda>i. docs_with t (Ds ! i)) [0..<length Ds] = map (docs_with t) Ds"
    by (rule nth_equalityI) simp_all
  ultimately show ?thesis by simp
qed

lemma occs_short: "length (occs t ts) \<le> length ts"
  by (simp add: length_occs count_le_length)

lemma docs_with_small: "\<forall>(d, ts) \<in> set D. length ts < n \<Longrightarrow> q \<in> set (docs_with t D) \<Longrightarrow> length (snd q) < n"
  using occs_short by (fastforce simp: docs_with_def intro: le_less_trans)

end
