(* ===== verification/Search_Bucket.thy ===== *)
theory Search_Bucket
  imports Search_Merged
begin

text \<open>
  The merge of a bucket as a whole: the terms come out in order, each once, and the files of the bucket are a
  dictionary of these terms whose entries point to their posting lists.
\<close>

section \<open>One term\<close>

definition holders :: "(32 word \<times> bytes list) list list \<Rightarrow> bytes \<Rightarrow> nat list" where
  "holders Ds t = filter (\<lambda>i. t \<in> set (all_terms (Ds ! i))) [0..<length Ds]"

definition next_cursor :: "(32 word \<times> bytes list) list list \<Rightarrow> bytes list \<Rightarrow> nat \<Rightarrow> runCursor" where
  "next_cursor Ds todo i = the (cursor_at Ds i (left_in Ds i todo))"

lemma left_in_Cons: "left_in Ds i (t # todo) = (if t \<in> set (all_terms (Ds ! i)) then t # left_in Ds i todo else left_in Ds i todo)"
  by (simp add: left_in_def)

lemma next_cursor_holder:
  assumes "i \<in> set (holders Ds t)"
  shows "cursor_at Ds i (left_in Ds i (t # todo)) = Some (next_cursor Ds (t # todo) i) \<and> i < length Ds \<and> rrun (next_cursor Ds (t # todo) i) = i
    \<and> rterm (next_cursor Ds (t # todo) i) = t \<and> rdata (next_cursor Ds (t # todo) i) = run_bytes 0 (docs_with t (Ds ! i))"
  using assms by (simp add: holders_def next_cursor_def left_in_Cons cursor_at_def)

lemma heap_member:
  assumes "merge_heap Ds (t # todo) h" "c \<in> set h"
  shows "if rterm c = t \<and> rrun c \<in> set (holders Ds t) then c = next_cursor Ds (t # todo) (rrun c)
    else rterm c \<in> set todo \<and> rrun c \<notin> set (holders Ds t) \<and> rrun c < length Ds \<and> cursor_at Ds (rrun c) (left_in Ds (rrun c) todo) = Some c"
proof -
  obtain i where i: "i < length Ds" "cursor_at Ds i (left_in Ds i (t # todo)) = Some c" using assms by (auto simp: merge_heap_def)
  note r = cursor_at_run [OF i(2)]
  show ?thesis
  proof (cases "t \<in> set (all_terms (Ds ! i))")
    case True
    then have "i \<in> set (holders Ds t)" "rterm c = t" using i(1) r by (simp_all add: holders_def left_in_Cons)
    then show ?thesis using i(2) r by (simp add: next_cursor_def)
  next
    case False
    then have n: "i \<notin> set (holders Ds t)" "left_in Ds i (t # todo) = left_in Ds i todo" by (simp_all add: holders_def left_in_Cons)
    have "rterm c \<in> set (left_in Ds i todo)" using r unfolding n(2) by auto
    then show ?thesis using n i r by (simp add: left_in_def)
  qed
qed

lemma pop_group_holders:
  assumes m: "merge_heap Ds (t # todo) h" and less: "\<forall>t' \<in> set todo. bytes_less t t'"
  shows "pop_group t h = (map (next_cursor Ds (t # todo)) (holders Ds t), filter (\<lambda>c. rterm c \<noteq> t) h)"
proof -
  let ?g = "filter (\<lambda>c. rterm c = t) h"
  have nt: "t \<notin> set todo" using less bytes_less_irrefl by blast
  have srt: "sorted_wrt cursor_less h" using m by (simp add: merge_heap_def)
  have g: "c = next_cursor Ds (t # todo) (rrun c) \<and> rrun c \<in> set (holders Ds t)" if "c \<in> set ?g" for c
    using heap_member [OF m, of c] that nt by (auto split: if_splits)
  have "sorted_wrt cursor_less ?g" by (rule sorted_wrt_filter [OF srt])
  then have "sorted_wrt (\<lambda>a b. rrun a < rrun b) ?g"
    by (rule sorted_wrt_mono_rel [rotated]) (auto simp: cursor_less_def)
  then have "sorted_wrt (<) (map rrun ?g)" by (simp add: sorted_wrt_map)
  moreover have "sorted_wrt (<) (holders Ds t)" unfolding holders_def by (rule sorted_wrt_filter) simp
  moreover have "set (map rrun ?g) = set (holders Ds t)"
  proof
    show "set (map rrun ?g) \<subseteq> set (holders Ds t)" using g by auto
    show "set (holders Ds t) \<subseteq> set (map rrun ?g)"
    proof
      fix i assume i: "i \<in> set (holders Ds t)"
      note c = next_cursor_holder [OF i, of todo]
      have "next_cursor Ds (t # todo) i \<in> set h" using c m by (auto simp: merge_heap_def)
      then have "next_cursor Ds (t # todo) i \<in> set ?g" using c by simp
      then show "i \<in> set (map rrun ?g)" using c by (metis imageI list.set_map)
    qed
  qed
  ultimately have r: "map rrun ?g = holders Ds t" by (metis strict_sorted_equal)
  have "?g = map (next_cursor Ds (t # todo)) (map rrun ?g)" unfolding map_map by (rule map_idI [symmetric]) (use g in auto)
  then have "?g = map (next_cursor Ds (t # todo)) (holders Ds t)" unfolding r .
  moreover have "\<forall>c \<in> set h. rterm c = t \<or> bytes_less t (rterm c)"

  proof
    fix c assume "c \<in> set h"
    from heap_member [OF m this] less show "rterm c = t \<or> bytes_less t (rterm c)" by (cases "rterm c = t") auto
  qed
  ultimately show ?thesis using pop_group_filter [OF srt] by simp
qed

lemma advance_holders:
  assumes m: "merge_heap Ds (t # todo) h" and less: "\<forall>t' \<in> set todo. bytes_less t t'" and fit: "runs_fit Ds"
  shows "\<exists>h'. advance_group (map (next_cursor Ds (t # todo)) (holders Ds t)) (filter (\<lambda>c. rterm c \<noteq> t) h) = Some h' \<and> merge_heap Ds todo h'"
proof -
  let ?next_cursor = "next_cursor Ds (t # todo)" and ?r = "filter (\<lambda>c. rterm c \<noteq> t) h"
  let ?nxt = "\<lambda>c. cursor_at Ds (rrun c) (left_in Ds (rrun c) todo)"
  have nt: "t \<notin> set todo" using less bytes_less_irrefl by blast
  have srt: "sorted_wrt cursor_less ?r" using m by (simp add: merge_heap_def sorted_wrt_filter)
  have adv: "\<forall>c \<in> set (map ?next_cursor (holders Ds t)). run_advance c = Some (case ?nxt c of Some c' \<Rightarrow> (True, c') | None \<Rightarrow> (False, c))
      \<and> (\<forall>c'. ?nxt c = Some c' \<longrightarrow> rrun c' = rrun c)"
  proof
    fix c assume "c \<in> set (map ?next_cursor (holders Ds t))"
    then obtain i where i: "i \<in> set (holders Ds t)" "c = ?next_cursor i" by auto
    note c = next_cursor_holder [OF i(1), of todo]
    have l: "left_in Ds i (t # todo) = t # left_in Ds i todo" using i(1) by (simp add: holders_def left_in_Cons)
    have "set (left_in Ds i todo) \<subseteq> set (all_terms (Ds ! i))" by (auto simp: left_in_def)
    from cursor_at_next [OF fit _ this] c l i(2)
    show "run_advance c = Some (case ?nxt c of Some c' \<Rightarrow> (True, c') | None \<Rightarrow> (False, c)) \<and> (\<forall>c'. ?nxt c = Some c' \<longrightarrow> rrun c' = rrun c)"
      using cursor_at_run by fastforce
  qed
  have runs: "map rrun (map ?next_cursor (holders Ds t)) = holders Ds t" unfolding map_map
    by (rule map_idI) (use next_cursor_holder in auto)
  have dis: "distinct (map rrun (map ?next_cursor (holders Ds t)))" unfolding runs by (simp add: holders_def)
  have r: "rrun c \<notin> set (holders Ds t) \<and> rrun c < length Ds \<and> ?nxt c = Some c" if "c \<in> set ?r" for c
    using heap_member [OF m, of c] that by (auto split: if_splits)
  have "rrun ` set (map ?next_cursor (holders Ds t)) = set (holders Ds t)" unfolding set_map [symmetric] runs ..
  then have "rrun ` set (map ?next_cursor (holders Ds t)) \<inter> rrun ` set ?r = {}" using r by auto
  from advance_group_ok [OF adv dis this srt] obtain h' where h': "advance_group (map ?next_cursor (holders Ds t)) ?r = Some h'" "sorted_wrt cursor_less h'"
    "set h' = set ?r \<union> {c'. \<exists>c \<in> set (map ?next_cursor (holders Ds t)). ?nxt c = Some c'}" by blast
  have "c \<in> set h' \<longleftrightarrow> (\<exists>i < length Ds. cursor_at Ds i (left_in Ds i todo) = Some c)" for c
  proof
    assume "c \<in> set h'"
    then consider "c \<in> set ?r" | i where "i \<in> set (holders Ds t)" "?nxt (?next_cursor i) = Some c" unfolding h'(3) by auto
    then show "\<exists>i < length Ds. cursor_at Ds i (left_in Ds i todo) = Some c"
    proof cases
      case 1
      then show ?thesis using r [OF 1] by blast
    next
      case 2
      then show ?thesis using next_cursor_holder [OF 2(1), of todo] by auto
    qed
  next
    assume "\<exists>i < length Ds. cursor_at Ds i (left_in Ds i todo) = Some c"
    then obtain i where i: "i < length Ds" "cursor_at Ds i (left_in Ds i todo) = Some c" by blast
    show "c \<in> set h'"
    proof (cases "i \<in> set (holders Ds t)")
      case True
      then have "?nxt (?next_cursor i) = Some c" using i(2) next_cursor_holder [OF True, of todo] by simp
      then show ?thesis unfolding h'(3) using True by auto
    next
      case False
      then have l: "left_in Ds i (t # todo) = left_in Ds i todo" using i(1) by (simp add: holders_def left_in_Cons)
      have "c \<in> set h" using m i l by (auto simp: merge_heap_def)
      moreover have "rterm c \<in> set todo" using cursor_at_run [OF i(2)] hd_in_set [of "left_in Ds i todo"] by (auto simp: left_in_def)
      ultimately show ?thesis unfolding h'(3) using nt by auto
    qed
  qed
  then show ?thesis using h'(1,2) by (auto simp: merge_heap_def)
qed

section \<open>All terms\<close>

text \<open>What the merge writes for the terms \<open>ts\<close> with the postings \<open>P\<close>: the files of documents and positions
  and the fields of the entries.\<close>

definition list_bytes :: "64 word \<Rightarrow> posting list \<Rightarrow> bytes" where
  "list_bytes p0 ps = (if block_count ps > 1 then skip_bytes_of ps p0 else []) @ blocks_bytes ps (block_count ps)"

definition write_list :: "(bytes \<Rightarrow> posting list) \<Rightarrow> bytes \<times> bytes \<times> (32 word \<times> 64 word \<times> 64 word) list \<Rightarrow> bytes
    \<Rightarrow> bytes \<times> bytes \<times> (32 word \<times> 64 word \<times> 64 word) list" where
  "write_list P f t = (case f of (ds, ps, es) \<Rightarrow>
     (ds @ list_bytes (of_nat (length ps)) (P t), ps @ pos_bytes (P t),
      es @ [(of_nat (length (P t)), of_nat (length ds), of_nat (length ps))]))"

definition written :: "(bytes \<Rightarrow> posting list) \<Rightarrow> bytes list \<Rightarrow> bytes \<times> bytes \<times> (32 word \<times> 64 word \<times> 64 word) list" where
  "written P ts = foldl (write_list P) ([], [], []) ts"

definition postings_in :: "(32 word \<times> bytes list) list \<Rightarrow> bytes \<Rightarrow> posting list" where
  "postings_in D t = map to_posting (docs_with t D)"

definition merge_inv :: "(32 word \<times> bytes list) list list \<Rightarrow> bytes list \<Rightarrow> bytes list \<Rightarrow> merge_state \<Rightarrow> bool" where
  "merge_inv Ds ts todo m \<longleftrightarrow> merge_heap Ds todo (mheap m) \<and> mterms m = concat ts
     \<and> (\<exists>es. written (postings_in (concat Ds)) ts = (mdocs m, mpos m, es) \<and> length es = length ts
          \<and> ments m = concat (map (entry_bytes ts es) [0..<length ts]))"

lemma length_skip_bytes_of: "length (skip_bytes_of ps p) = 16 * block_count ps"
proof -
  have "length (concat (map (skip_entry ps p) xs)) = 16 * length xs" for xs by (induction xs) (auto simp: skip_entry_def)
  then show ?thesis by (simp add: skip_bytes_of_def)
qed

lemma entry_bytes_snoc: "length es = length ts \<Longrightarrow> i < length ts \<Longrightarrow> entry_bytes (ts @ [t]) (es @ [e]) i = entry_bytes ts es i"
  by (auto simp: entry_bytes_def nth_append)

lemma postings_nonempty: "t \<in> set (all_terms D) \<Longrightarrow> postings_in D t \<noteq> []"
  by (fastforce simp: postings_in_def docs_with_def all_terms_def filter_empty_conv)

lemma merge_step_ok:
  assumes m: "merge_inv Ds ts (t # todo) m" and less: "\<forall>t' \<in> set todo. bytes_less t t'" and fit: "runs_fit Ds" and t: "t \<in> set (all_terms (concat Ds))"
  shows "\<exists>m'. merge_step m = Some m' \<and> merge_inv Ds (ts @ [t]) todo m' \<and> mheap m \<noteq> []"
proof -
  let ?P = "postings_in (concat Ds)"
  have h: "merge_heap Ds (t # todo) (mheap m)" "mterms m = concat ts" using m by (simp_all add: merge_inv_def)
  obtain es where es: "written ?P ts = (mdocs m, mpos m, es)" "length es = length ts" "ments m = concat (map (entry_bytes ts es) [0..<length ts])"
    using m by (auto simp: merge_inv_def)
  note pop = pop_group_holders [OF h(1) less]
  obtain D where D: "D \<in> set Ds" "t \<in> set (all_terms D)" using t by (auto simp: all_terms_def)
  then obtain i where i: "i < length Ds" "t \<in> set (all_terms (Ds ! i))" by (auto simp: in_set_conv_nth [of D])
  then have hi: "i \<in> set (holders Ds t)" by (simp add: holders_def)
  then have ne: "mheap m \<noteq> []" using pop by (cases "mheap m") auto
  have hd: "rterm (hd (mheap m)) = t"
  proof (rule ccontr)
    assume "rterm (hd (mheap m)) \<noteq> t"
    then have "fst (pop_group t (mheap m)) = []" using ne by (cases "mheap m") auto
    then show False using pop hi by simp
  qed
  let ?g = "map (next_cursor Ds (t # todo)) (holders Ds t)" and ?qss = "map (\<lambda>i. docs_with t (Ds ! i)) (holders Ds t)"
  have "list_all2 (\<lambda>c qs. rdata c = run_bytes 0 qs \<and> (\<forall>q \<in> set qs. length (snd q) < 2 ^ 32)) ?g ?qss"
    unfolding list_all2_map1 list_all2_map2 list_all2_same
  proof (intro conjI ballI)
    fix i assume i: "i \<in> set (holders Ds t)"
    show "rdata (next_cursor Ds (t # todo) i) = run_bytes 0 (docs_with t (Ds ! i))" using next_cursor_holder [OF i, of todo] by simp
    fix q assume q: "q \<in> set (docs_with t (Ds ! i))"
    have "Ds ! i \<in> set Ds" using next_cursor_holder [OF i, of todo] by simp
    then have "\<forall>(d, ts) \<in> set (Ds ! i). length ts < 2 ^ 32" using fit by (simp add: runs_fit_def)
    from docs_with_small [OF this q] show "length (snd q) < 2 ^ 32" .
  qed
  from merge_group_at [OF new_encoding this] obtain g where g: "merge_group ?g (new_encoder (mpos m)) = Some g"
    "encoding (mpos m) g (?P t)" by (auto simp: postings_in_def docs_with_runs [folded holders_def])
  define g' where "g' = (if gdocs g \<noteq> [] then flush_block g else g)"
  have f: "gblocks g' = blocks_bytes (?P t) (block_count (?P t))" "gskip g' = skip_bytes_of (?P t) (of_nat (length (mpos m)))"
    "gdf g' = of_nat (length (?P t))" "gposW g' = mpos m @ pos_bytes (?P t)"
    using final_encoded [OF g(2) postings_nonempty [OF t]] by (simp_all add: g'_def Let_def)
  obtain h' where h': "advance_group ?g (filter (\<lambda>c. rterm c \<noteq> t) (mheap m)) = Some h'" "merge_heap Ds todo h'"
    using advance_holders [OF h(1) less fit] by blast
  let ?e = "(of_nat (length (?P t)), of_nat (length (mdocs m)), of_nat (length (mpos m)))"
  let ?ent = "le_put32 (of_nat (length (mterms m))) @ le_put32 (gdf g') @ le_bytes 8 (of_nat (length (mdocs m))) @ le_bytes 8 (of_nat (length (mpos m)))"
  define m' where "m' = \<lparr>mheap = h', mdocs = mdocs m @ list_bytes (of_nat (length (mpos m))) (?P t), mpos = mpos m @ pos_bytes (?P t),
    mterms = mterms m @ t, ments = ments m @ ?ent\<rparr>"
  have "length (gskip g') > 16 \<longleftrightarrow> block_count (?P t) > 1" unfolding f(2) length_skip_bytes_of by simp
  then have "merge_step m = Some m'" using h'(1) g(1) f unfolding merge_step_def hd Let_def pop
    by (simp add: g'_def [symmetric] m'_def list_bytes_def)
  moreover have "written ?P (ts @ [t]) = (mdocs m', mpos m', es @ [?e])" using es(1) by (simp add: written_def write_list_def m'_def)
  moreover have "ments m' = concat (map (entry_bytes (ts @ [t]) (es @ [?e])) [0..<length (ts @ [t])])"
  proof -
    have a: "map (entry_bytes (ts @ [t]) (es @ [?e])) [0..<length ts] = map (entry_bytes ts es) [0..<length ts]"
      by (rule map_cong) (use entry_bytes_snoc [OF es(2)] in auto)
    have b: "entry_bytes (ts @ [t]) (es @ [?e]) (length ts) = ?ent"
      using es(2) unfolding h(2) le_put32_of_nat [of "length (concat ts)"] f(3)
      by (simp add: entry_bytes_def nth_append, simp add: le_put32_def)
    have u: "[0..<length (ts @ [t])] = [0..<length ts] @ [length ts]" by simp
    show ?thesis unfolding u map_append a concat_append list.map b concat.simps append_Nil2 by (simp add: m'_def es(3))
  qed
  ultimately show ?thesis using h'(2) es(2) h(2) ne by (auto simp: merge_inv_def m'_def)
qed

lemma merge_loop_ok:
  "merge_inv Ds ts todo m \<Longrightarrow> sorted_wrt bytes_less todo \<Longrightarrow> runs_fit Ds \<Longrightarrow> set todo \<subseteq> set (all_terms (concat Ds)) \<Longrightarrow>
     \<exists>m'. merge_loop m = Some m' \<and> merge_inv Ds (ts @ todo) [] m'"
proof (induction todo arbitrary: ts m)
  case Nil
  then have "mheap m = []" by (cases "mheap m") (auto simp: merge_inv_def merge_heap_def left_in_def cursor_at_def)
  then show ?case using Nil(1) by (subst merge_loop.simps) simp
next
  case (Cons t todo)
  obtain m1 where m1: "merge_step m = Some m1" "merge_inv Ds (ts @ [t]) todo m1" "mheap m \<noteq> []"
    using merge_step_ok [OF Cons.prems(1) _ Cons.prems(3)] Cons.prems(2,4) by auto
  then have "merge_loop m = merge_loop m1" by (subst merge_loop.simps) simp
  then show ?case using Cons.IH [OF m1(2)] Cons.prems(2-4) by simp
qed

section \<open>Opening the runs\<close>

definition bucket_runs :: "(32 word \<times> bytes list) list list \<Rightarrow> nat \<Rightarrow> nat \<Rightarrow> runCursor option" where
  "bucket_runs Ds b i = cursor_at Ds i (bucket_terms (all_terms (Ds ! i)) b)"

definition runs_at :: "bytes list \<Rightarrow> runMeta list \<Rightarrow> (32 word \<times> bytes list) list list \<Rightarrow> bool" where
  "runs_at files rms Ds \<longleftrightarrow> list_all2 (\<lambda>rm D. run_in (files ! rfile rm) rm D) rms Ds"

lemma run_section_entries: "run_section D b = concat (map (entry_in D) (bucket_terms (all_terms D) b))"
proof -
  have "entry_in D = (\<lambda>t. term_entry t (run_bytes 0 (docs_with t D)))" by (simp add: fun_eq_iff entry_in_def)
  then show ?thesis by (simp only: run_section_def)
qed

lemma term_entry_nonempty: "term_entry t p \<noteq> []"
  by (simp add: term_entry_def enc_nonempty)

lemma open_cursors_ok:
  "(\<And>k. k < length rms \<Longrightarrow> i + k < length Ds \<and> run_in (files ! rfile (rms ! k)) (rms ! k) (Ds ! (i + k))) \<Longrightarrow> runs_fit Ds \<Longrightarrow> b < numBuckets \<Longrightarrow>
     open_cursors files b rms i = Some (map (\<lambda>k. the (bucket_runs Ds b k)) (filter (\<lambda>k. bucket_runs Ds b k \<noteq> None) [i..<i + length rms]))"
proof (induction rms arbitrary: i)
  case (Cons rm rms)
  let ?D = "Ds ! i"
  let ?ts = "bucket_terms (all_terms ?D) b"
  have r: "i < length Ds" "run_in (files ! rfile rm) rm ?D" using Cons.prems(1) [of 0] by auto
  have step: "i + 1 + k < length Ds \<and> run_in (files ! rfile (rms ! k)) (rms ! k) (Ds ! (i + 1 + k))" if "k < length rms" for k
    using Cons.prems(1) [of "Suc k"] that by simp
  note IH = Cons.IH [OF step Cons.prems(2,3)]
  have sec: "take (rlen rm ! b) (drop (roff rm ! b) (files ! rfile rm)) = run_section ?D b" "roff rm ! b + rlen rm ! b \<le> length (files ! rfile rm)"
    using r(2) Cons.prems(3) by (simp_all add: run_in_def)
  have len: "rlen rm ! b = length (run_section ?D b)" using arg_cong [OF sec(1), of length] sec(2) by simp
  have u: "[i..<i + length (rm # rms)] = i # [i + 1..<i + 1 + length rms]" by (rule trans [OF upt_conv_Cons]) simp_all
  show ?case
  proof (cases ?ts)
    case Nil
    then have "rlen rm ! b = 0" "bucket_runs Ds b i = None" unfolding len by (simp_all add: run_section_entries bucket_runs_def cursor_at_def)
    then show ?thesis unfolding u using IH by simp
  next
    case (Cons t ts)
    have s: "run_section ?D b = term_entry t (run_bytes 0 (docs_with t ?D)) @ concat (map (entry_in ?D) ts)" "bucket_runs Ds b i =
        Some \<lparr>rrest = concat (map (entry_in ?D) ts), rrun = i, rterm = t, rdata = run_bytes 0 (docs_with t ?D)\<rparr>"
      by (simp_all add: run_section_entries bucket_runs_def cursor_at_def Cons entry_in_def)
    then have ne: "rlen rm ! b \<noteq> 0" unfolding len using term_entry_nonempty by simp
    have "t \<in> set (all_terms ?D)" using bucket_terms_ok(3) [of "all_terms ?D" b] Cons by auto
    then have l: "length t < 2 ^ 64" "length (run_bytes 0 (docs_with t ?D)) < 2 ^ 64" using Cons.prems(2) r(1) by (auto simp: runs_fit_def)
    let ?c = "\<lparr>rrest = take (rlen rm ! b) (drop (roff rm ! b) (files ! rfile rm)), rrun = i, rterm = [], rdata = []\<rparr>"
    have "rrest ?c = term_entry t (run_bytes 0 (docs_with t ?D)) @ concat (map (entry_in ?D) ts)" unfolding sec(1) s(1) by simp
    from run_advance_entry [OF this l] have "run_advance ?c = Some (True, the (bucket_runs Ds b i))" unfolding s(2) by simp
    then show ?thesis unfolding u using IH ne s(2) by simp
  qed
qed simp

lemma left_in_bucket:
  assumes "i < length Ds"
  shows "left_in Ds i (bucket_terms (all_terms (concat Ds)) b) = bucket_terms (all_terms (Ds ! i)) b"
proof (rule sorted_terms_unique)
  let ?T = "bucket_terms (all_terms (concat Ds)) b"
  have "sorted_wrt (\<lambda>s t. bytes_key s \<le> bytes_key t) ?T" using bucket_terms_ok(1) [of "all_terms (concat Ds)" b] by (simp add: sorted_map)
  then show "sorted (map bytes_key (left_in Ds i ?T))" unfolding left_in_def sorted_map by (rule sorted_wrt_filter)
  show "distinct (left_in Ds i ?T)" unfolding left_in_def by (rule distinct_filter) (rule bucket_terms_ok)
  have "set (all_terms (Ds ! i)) \<subseteq> set (all_terms (concat Ds))" using assms by (force simp: all_terms_def)
  then show "set (left_in Ds i ?T) = set (bucket_terms (all_terms (Ds ! i)) b)" unfolding left_in_def bucket_terms_ok(3) set_filter by auto
qed (simp_all add: bucket_terms_ok)

lemma bucket_terms_sorted: "sorted_wrt bytes_less (bucket_terms ts b)"
proof -
  have "sorted_wrt (<) (map bytes_key (bucket_terms ts b))" unfolding strict_sorted_iff
    using bucket_terms_ok(1,2) by (auto simp: distinct_map inj_on_def dest: bytes_key_inj)
  moreover have "bytes_less = (\<lambda>s t. bytes_key s < bytes_key t)" by (simp add: fun_eq_iff bytes_less_key)
  ultimately show ?thesis by (simp add: sorted_wrt_map)
qed

lemma mergeBucket_at:
  assumes r: "runs_at files rms Ds" and fit: "runs_fit Ds" and b: "b < numBuckets"
  defines "T \<equiv> bucket_terms (all_terms (concat Ds)) b"
  shows "\<exists>F es. mergeBucket files rms b = Some F \<and> written (postings_in (concat Ds)) T = (fdocs F, fpos F, es) \<and> length es = length T
    \<and> fterms F = concat T \<and> fents F = concat (map (entry_bytes T es) [0..<length T + 1])"
proof -
  have len: "length rms = length Ds" using r by (simp add: runs_at_def list_all2_lengthD)
  let ?cs = "map (\<lambda>k. the (bucket_runs Ds b k)) (filter (\<lambda>k. bucket_runs Ds b k \<noteq> None) [0..<length Ds])"
  have "k < length rms \<Longrightarrow> 0 + k < length Ds \<and> run_in (files ! rfile (rms ! k)) (rms ! k) (Ds ! (0 + k))" for k
    using r by (simp add: runs_at_def list_all2_conv_all_nth)
  from open_cursors_ok [OF this fit b] have o: "open_cursors files b rms 0 = Some ?cs" using len by simp
  have run: "rrun (the (bucket_runs Ds b k)) = k" if "bucket_runs Ds b k \<noteq> None" for k
    using that cursor_at_run by (fastforce simp: bucket_runs_def)
  have "map rrun ?cs = filter (\<lambda>k. bucket_runs Ds b k \<noteq> None) [0..<length Ds]" unfolding map_map
    by (rule map_idI) (use run in auto)
  then have "distinct (map rrun ?cs)" by simp
  note h = heap_init_ok [OF this]
  have br: "cursor_at Ds i (left_in Ds i T) = bucket_runs Ds b i" if "i < length Ds" for i
    unfolding T_def bucket_runs_def left_in_bucket [OF that] ..
  have "c \<in> set ?cs \<longleftrightarrow> (\<exists>i < length Ds. cursor_at Ds i (left_in Ds i T) = Some c)" for c
    using br by force
  then have "merge_heap Ds T (heap_init ?cs)" using h by (simp add: merge_heap_def)
  then have inv: "merge_inv Ds [] T \<lparr>mheap = heap_init ?cs, mdocs = [], mpos = [], mterms = [], ments = []\<rparr>"
    by (simp add: merge_inv_def written_def)
  have "set T \<subseteq> set (all_terms (concat Ds))" unfolding T_def bucket_terms_ok(3) by auto
  from merge_loop_ok [OF inv _ fit this] obtain m where
    m: "merge_loop \<lparr>mheap = heap_init ?cs, mdocs = [], mpos = [], mterms = [], ments = []\<rparr> = Some m" "merge_inv Ds T [] m"
    unfolding T_def using bucket_terms_sorted by auto
  obtain es where es: "written (postings_in (concat Ds)) T = (mdocs m, mpos m, es)" "length es = length T"
    "ments m = concat (map (entry_bytes T es) [0..<length T])" "mterms m = concat T"
    using m(2) by (auto simp: merge_inv_def)
  let ?F = "\<lparr>fdocs = mdocs m, fpos = mpos m, fterms = mterms m, fents = ments m @ le_put32 (of_nat (length (mterms m))) @ replicate 20 (CHR 0x00)\<rparr>"
  have "mergeBucket files rms b = Some ?F" unfolding mergeBucket_def o option.case m(1) ..
  moreover have "entry_bytes T es (length T) = le_put32 (of_nat (length (mterms m))) @ replicate 20 (CHR 0x00)"
    unfolding le_put32_of_nat es(4) using es(2) by (simp add: entry_bytes_def)
  then have "fents ?F = concat (map (entry_bytes T es) [0..<length T + 1])" using es(3) by simp
  ultimately show ?thesis using es by (intro exI [of _ ?F] exI [of _ es]) simp
qed

section \<open>The dictionary of the bucket\<close>

lemma written_prefix: "written P (ts @ rs) = (ds, ps, es) \<Longrightarrow> written P ts = (ds0, ps0, es0) \<Longrightarrow> \<exists>x y z. ds = ds0 @ x \<and> ps = ps0 @ y \<and> es = es0 @ z"
proof (induction rs arbitrary: ds ps es rule: rev_induct)
  case Nil
  then show ?case by auto
next
  case (snoc r rs)
  obtain ds1 ps1 es1 where w: "written P (ts @ rs) = (ds1, ps1, es1)" by (metis prod_cases3)
  then obtain x y z where i: "ds1 = ds0 @ x" "ps1 = ps0 @ y" "es1 = es0 @ z" using snoc by blast
  have "written P ((ts @ rs) @ [r]) = write_list P (ds1, ps1, es1) r" unfolding written_def foldl_append using w by (simp add: written_def)
  then show ?case using snoc.prems(1) i by (simp add: write_list_def)
qed

lemma written_length: "written P ts = (ds, ps, es) \<Longrightarrow> length es = length ts"
proof (induction ts arbitrary: ds ps es rule: rev_induct)
  case (snoc t ts)
  obtain ds1 ps1 es1 where w: "written P ts = (ds1, ps1, es1)" by (metis prod_cases3)
  have "written P (ts @ [t]) = write_list P (ds1, ps1, es1) t" using w by (simp add: written_def)
  then show ?case using snoc.prems snoc.IH [OF w] by (simp add: write_list_def)
qed (simp add: written_def)

lemma written_at:
  assumes w: "written P T = (ds, ps, es)" and i: "i < length T"
  shows "\<exists>d0 p0 d1 p1. es ! i = (of_nat (length (P (T ! i))), of_nat (length d0), of_nat (length p0))
    \<and> ds = d0 @ list_bytes (of_nat (length p0)) (P (T ! i)) @ d1 \<and> ps = p0 @ pos_bytes (P (T ! i)) @ p1"
proof -
  obtain d0 p0 e0 where a: "written P (take i T) = (d0, p0, e0)" by (metis prod_cases3)
  have T: "(take i T @ [T ! i]) @ drop (Suc i) T = T" using i by (simp add: id_take_nth_drop [symmetric])
  have w': "written P ((take i T @ [T ! i]) @ drop (Suc i) T) = (ds, ps, es)" unfolding T by (rule w)
  have b: "written P (take i T @ [T ! i]) = (d0 @ list_bytes (of_nat (length p0)) (P (T ! i)), p0 @ pos_bytes (P (T ! i)),
      e0 @ [(of_nat (length (P (T ! i))), of_nat (length d0), of_nat (length p0))])"
    using a by (simp add: written_def write_list_def)
  obtain x y z where "ds = (d0 @ list_bytes (of_nat (length p0)) (P (T ! i))) @ x" "ps = (p0 @ pos_bytes (P (T ! i))) @ y"
    "es = (e0 @ [(of_nat (length (P (T ! i))), of_nat (length d0), of_nat (length p0))]) @ z"
    using written_prefix [OF w' b] by blast
  note xyz = this
  have "length e0 = i" using written_length [OF a] i by simp
  then show ?thesis by (intro exI [of _ d0] exI [of _ p0] exI [of _ x] exI [of _ y]) (simp add: nth_append xyz)
qed

end
