(* ===== verification/Search_Phrase.thy ===== *)
theory Search_Phrase
  imports Search_Cursor
begin

text \<open>
  Phrase matching over the encoded positions of the terms of a phrase (\<open>pstream\<close>, \<open>phraseMatch\<close> in
  \<open>search/impl/go-1/query.go\<close>). The lemmas show that the loop ends and that it answers whether the terms occur at
  consecutive positions.
\<close>

section \<open>Streams of positions\<close>

record pstream =
  sdata :: bytes
  sp :: nat
  left :: "32 word"
  scur :: int

definition pstream_next :: "pstream \<Rightarrow> (bool \<times> pstream) option" where
  "pstream_next s =
     (if left s = 0 then Some (False, s)
      else case uvarint (sdata s) (sp s) of
        None \<Rightarrow> None
      | Some (v, p) \<Rightarrow> Some (True, s\<lparr>sp := p, scur := wrap64 (scur s + uint v), left := left s - 1\<rparr>))"

text \<open>The loop \<open>for s.cur < want\<close>: \<open>Some None\<close> when the stream ends first.\<close>

function catch_up :: "pstream \<Rightarrow> int \<Rightarrow> pstream option option" where
  "catch_up s want =
     (if scur s < want then
        case pstream_next s of
          None \<Rightarrow> None
        | Some (ok, s') \<Rightarrow> if \<not> ok then Some None else catch_up s' want
      else Some (Some s))"
  by pat_completeness auto
termination
proof (relation "measure (\<lambda>(s, want). unat (left s))", goal_cases)
  case (2 s want x ok s')
  then have "left s \<noteq> 0" "left s' = left s - 1" by (auto simp: pstream_next_def split: if_splits option.splits)
  then show ?case by (simp add: measure_unat)
qed simp

declare catch_up.simps [simp del]

text \<open>One pass over the streams for a target; \<open>Again\<close> is the restart with a later target.\<close>

datatype round = Fail | Again int "pstream list" | Hit

fun pass :: "int \<Rightarrow> nat \<Rightarrow> pstream list \<Rightarrow> round option" where
  "pass target j [] = Some Hit"
| "pass target j (s # ss) =
     (let want = wrap64 (target + int j) in
      case catch_up s want of
        None \<Rightarrow> None
      | Some None \<Rightarrow> Some Fail
      | Some (Some s) \<Rightarrow>
          if scur s > want then Some (Again (wrap64 (scur s - int j)) (s # ss))
          else case pass target (j + 1) ss of
            Some (Again t ss) \<Rightarrow> Some (Again t (s # ss))
          | r \<Rightarrow> r)"

partial_function (option) phrase_loop :: "int \<Rightarrow> pstream list \<Rightarrow> bool option" where
  "phrase_loop target st = do {
     r \<leftarrow> pass target 0 st;
     case r of Fail \<Rightarrow> Some False | Hit \<Rightarrow> Some True | Again t st \<Rightarrow> phrase_loop t st }"

text \<open>The cursors are shared with the evaluation of the query, so \<open>posStart\<close> updates them in place.\<close>

fun start_streams :: "nat list \<Rightarrow> cursor list \<Rightarrow> (pstream list \<times> cursor list) option" where
  "start_streams [] cs = Some ([], cs)"
| "start_streams (i # is) cs = do {
     c \<leftarrow> idx cs i;
     (p, c) \<leftarrow> posStart c;
     n \<leftarrow> tf c;
     (_, s) \<leftarrow> pstream_next \<lparr>sdata = cpos c, sp = p, left = n, scur = 0\<rparr>;
     (ss, cs) \<leftarrow> start_streams is (cs[i := c]);
     Some (s # ss, cs) }"

definition phraseMatch :: "nat list \<Rightarrow> cursor list \<Rightarrow> (bool \<times> cursor list) option" where
  "phraseMatch seq cs = do {
     (st, cs) \<leftarrow> start_streams seq cs;
     s \<leftarrow> idx st 0;
     r \<leftarrow> phrase_loop (scur s) st;
     Some (r, cs) }"

section \<open>What a stream stands for\<close>

fun psums :: "int \<Rightarrow> 64 word list \<Rightarrow> int list" where
  "psums a [] = []"
| "psums a (d # ds) = (a + uint d) # psums (a + uint d) ds"

definition positions :: "posting \<Rightarrow> int list" where
  "positions p = psums 0 (ppos p)"

definition POS_MAX :: int where "POS_MAX = 2 ^ 62"

definition positions_ok :: "posting \<Rightarrow> bool" where
  "positions_ok p \<longleftrightarrow> ppos p \<noteq> [] \<and> length (ppos p) < 2 ^ 32 \<and> (\<forall>x \<in> set (positions p). x < POS_MAX)"

definition stream :: "pstream \<Rightarrow> int list \<Rightarrow> bool" where
  "stream s xs \<longleftrightarrow> (\<exists>ds rest. xs = scur s # psums (scur s) ds \<and> drop (sp s) (sdata s) = concat (map enc ds) @ rest
     \<and> length ds < 2 ^ 32 \<and> left s = of_nat (length ds)) \<and> sorted xs \<and> (\<forall>x \<in> set xs. 0 \<le> x \<and> x < POS_MAX)"

lemma psums_ge: "x \<in> set (psums a ds) \<Longrightarrow> a \<le> x"
proof (induction ds arbitrary: a)
  case (Cons d ds)
  have "a + uint d \<le> x" using Cons.IH [of "a + uint d"] Cons.prems by auto
  moreover have "0 \<le> uint d" by simp
  ultimately show ?case by linarith
qed simp

lemma sorted_psums: "sorted (psums a ds)"
  using psums_ge by (induction ds arbitrary: a) auto

lemma in64_pos: "0 \<le> x \<Longrightarrow> x < 2 * POS_MAX \<Longrightarrow> wrap64 x = x"
  by (rule wrap64_id) (simp add: in64_iff POS_MAX_def)

lemma stream_next:
  assumes s: "stream s (x # y # ys)"
  shows "\<exists>s'. pstream_next s = Some (True, s') \<and> stream s' (y # ys) \<and> left s \<noteq> 0"
proof -
  obtain ds rest where d: "x = scur s" "y # ys = psums (scur s) ds" "drop (sp s) (sdata s) = concat (map enc ds) @ rest"
    "length ds < 2 ^ 32" "left s = of_nat (length ds)" using s by (auto simp: stream_def)
  obtain v vs where v: "ds = v # vs" using d(2) by (cases ds) auto
  have y: "y = scur s + uint v" "ys = psums y vs" using d(2) v by auto
  have b: "0 \<le> y" "y < POS_MAX" using s by (auto simp: stream_def)
  then have w: "wrap64 (scur s + uint v) = y" using y(1) in64_pos [of y] by (simp add: POS_MAX_def)
  have nz: "left s \<noteq> 0"
  proof
    assume "left s = 0"
    moreover have "unat (left s) = length ds" using d(4,5) by (simp add: unat_of_nat)
    ultimately show False using v by simp
  qed
  have dr: "drop (sp s) (sdata s) = enc v @ concat (map enc vs) @ rest" using d(3) v by simp
  let ?s = "s\<lparr>sp := sp s + length (enc v), scur := y, left := left s - 1\<rparr>"
  have "pstream_next s = Some (True, ?s)" using nz uvarint_enc [OF dr] w by (simp add: pstream_next_def)
  moreover have "stream ?s (y # ys)"
    unfolding stream_def
  proof (intro conjI exI)
    show "y # ys = scur ?s # psums (scur ?s) vs" using y by simp
    show "drop (sp ?s) (sdata ?s) = concat (map enc vs) @ rest" using drop_more [OF dr] by simp
    show "length vs < 2 ^ 32" "left ?s = of_nat (length vs)" using d(4,5) v by simp_all
  qed (use s in \<open>auto simp: stream_def\<close>)
  ultimately show ?thesis using nz by blast
qed

lemma stream_last: "stream s [x] \<Longrightarrow> left s = 0 \<and> scur s = x"
proof -
  assume "stream s [x]"
  then obtain ds where "x = scur s" "[] = psums (scur s) ds" "left s = of_nat (length ds)" by (auto simp: stream_def)
  then show ?thesis by (cases ds) auto
qed

lemma catch_up_at:
  "stream s xs \<Longrightarrow> \<exists>r. catch_up s want = Some r \<and>
     (case r of None \<Rightarrow> dropWhile (\<lambda>x. x < want) xs = [] | Some s' \<Rightarrow> stream s' (dropWhile (\<lambda>x. x < want) xs) \<and> \<not> scur s' < want)"
proof (induction xs arbitrary: s)
  case Nil
  then show ?case by (simp add: stream_def)
next
  case (Cons x xs)
  have x: "scur s = x" using Cons.prems by (auto simp: stream_def)
  show ?case
  proof (cases "x < want")
    case False
    then show ?thesis using Cons.prems x by (subst catch_up.simps) simp
  next
    case True
    show ?thesis
    proof (cases xs)
      case Nil
      then have "left s = 0" using stream_last Cons.prems by simp
      then show ?thesis using True x Nil by (subst catch_up.simps) (simp add: pstream_next_def)
    next
      case (Cons y ys)
      from stream_next [of s x y ys] Cons.prems Cons obtain s' where "pstream_next s = Some (True, s')" "stream s' xs" by auto
      note s' = this
      have "catch_up s want = catch_up s' want" using s' True x by (subst catch_up.simps) simp
      moreover have "dropWhile (\<lambda>x. x < want) (x # xs) = dropWhile (\<lambda>x. x < want) xs" using True by simp
      ultimately show ?thesis using Cons.IH [OF s'(2)] by (simp only:)
    qed
  qed
qed


section \<open>The search for a common start\<close>

text \<open>\<open>p\<close> solves the streams from number \<open>j\<close> on: each holds the position behind \<open>p\<close> by its number.\<close>

fun solves :: "int list list \<Rightarrow> nat \<Rightarrow> int \<Rightarrow> bool" where
  "solves [] j p = True"
| "solves (xs # xss) j p = (p + int j \<in> set xs \<and> solves xss (j + 1) p)"

definition streams :: "pstream list \<Rightarrow> int list list \<Rightarrow> bool" where
  "streams ss xss = list_all2 stream ss xss"

lemma dropWhile_solves:
  assumes "sorted xs" "target \<le> p"
  shows "p + int j \<in> set (dropWhile (\<lambda>x. x < target + int j) xs) \<longleftrightarrow> p + int j \<in> set xs"
proof -
  have "p + int j \<notin> set (takeWhile (\<lambda>x. x < target + int j) xs)" using set_takeWhileD [of "p + int j"] assms(2) by fastforce
  then show ?thesis using takeWhile_dropWhile_id [of "\<lambda>x. x < target + int j" xs] by (metis Un_iff set_append)
qed

text \<open>The pass: a hit solves all streams, a failure excludes every later start, and a restart has a strictly later
  target and loses no solution.\<close>

lemma pass_at:
  "streams ss xss \<Longrightarrow> 0 \<le> target \<Longrightarrow> target < POS_MAX \<Longrightarrow> j + length ss < 2 ^ 32 \<Longrightarrow> \<exists>r. pass target j ss = Some r \<and> (case r of
      Hit \<Rightarrow> solves xss j target
    | Fail \<Rightarrow> \<forall>p \<ge> target. \<not> solves xss j p
    | Again t ss' \<Rightarrow> target < t \<and> t < POS_MAX \<and> length ss' = length ss
        \<and> (\<exists>xss'. streams ss' xss' \<and> (\<forall>p \<ge> target. solves xss j p \<longleftrightarrow> t \<le> p \<and> solves xss' j p)))"
proof (induction ss arbitrary: xss j)
  case Nil
  then show ?case by (simp add: streams_def)
next
  case (Cons s ss)
  obtain xs yss where x: "xss = xs # yss" "stream s xs" "streams ss yss" using Cons.prems(1) by (cases xss) (auto simp: streams_def)
  have sx: "sorted xs" "\<forall>x \<in> set xs. 0 \<le> x \<and> x < POS_MAX" using x(2) by (auto simp: stream_def)
  let ?w = "target + int j"
  have jb: "int j < 2 ^ 32" using Cons.prems(4) by simp
  have w: "wrap64 ?w = ?w" using Cons.prems(2,3) jb by (intro in64_pos) (auto simp: POS_MAX_def)
  let ?d = "dropWhile (\<lambda>x. x < ?w) xs"
  have keep: "p + int j \<in> set ?d \<longleftrightarrow> p + int j \<in> set xs" if "target \<le> p" for p by (rule dropWhile_solves [OF sx(1) that])
  from catch_up_at [OF x(2), of ?w] obtain r where r: "catch_up s ?w = Some r"
    "case r of None \<Rightarrow> ?d = [] | Some s' \<Rightarrow> stream s' ?d \<and> \<not> scur s' < ?w" by blast
  show ?case
  proof (cases r)
    case None
    then have "\<forall>p \<ge> target. \<not> solves xss j p" using r(2) keep x(1) by auto
    then show ?thesis using r(1) None w by simp
  next
    case (Some s')
    have s': "stream s' ?d" "?w \<le> scur s'" using r(2) Some by auto
    obtain ds where dd: "?d = scur s' # ds" using s'(1) by (auto simp: stream_def)
    show ?thesis
    proof (cases "scur s' > ?w")
      case True
      let ?t = "scur s' - int j"
      have "scur s' \<in> set ?d" unfolding dd by simp
      then have c: "0 \<le> scur s'" "scur s' < POS_MAX" using s'(1) by (auto simp: stream_def)
      have t: "target < ?t" "?t < POS_MAX" using True c by auto
      have wt: "wrap64 ?t = ?t" using t Cons.prems(2) by (intro in64_pos) auto
      have least: "?t \<le> p" if "target \<le> p" "p + int j \<in> set xs" for p
      proof -
        have m: "p + int j \<in> set ?d" using keep [OF that(1)] that(2) by simp
        have "sorted (scur s' # ds)" using s'(1) dd by (simp add: stream_def)
        then have "scur s' \<le> p + int j" using m unfolding dd by auto
        then show ?thesis by simp
      qed
      have "\<forall>p \<ge> target. solves xss j p \<longleftrightarrow> ?t \<le> p \<and> solves (?d # yss) j p" using keep least by (auto simp: x(1))
      moreover have "streams (s' # ss) (?d # yss)" using s'(1) x(3) by (simp add: streams_def)
      moreover have "pass target j (s # ss) = Some (Again ?t (s' # ss))" using r(1) Some True wt by (simp add: w)
      ultimately show ?thesis using t by (intro exI [of _ "Again ?t (s' # ss)"]) auto
    next
      case False
      then have eq: "scur s' = ?w" using s'(2) by simp
      have wx: "?w \<in> set xs" using keep [of target] dd eq by simp
      from Cons.IH [OF x(3) Cons.prems(2,3), of "j + 1"] Cons.prems(4) obtain q where q: "pass target (j + 1) ss = Some q"
        "case q of Hit \<Rightarrow> solves yss (j + 1) target | Fail \<Rightarrow> \<forall>p \<ge> target. \<not> solves yss (j + 1) p
          | Again t ss' \<Rightarrow> target < t \<and> t < POS_MAX \<and> length ss' = length ss
              \<and> (\<exists>xss'. streams ss' xss' \<and> (\<forall>p \<ge> target. solves yss (j + 1) p \<longleftrightarrow> t \<le> p \<and> solves xss' (j + 1) p))" by auto
      have p: "pass target j (s # ss) = Some (case q of Again t ss \<Rightarrow> Again t (s' # ss) | r \<Rightarrow> r)"
        using r(1) Some False q(1) by (simp add: w split: round.splits)
      show ?thesis
      proof (cases q)
        case Hit
        then show ?thesis using p q(2) wx x(1) by simp
      next
        case Fail
        then show ?thesis using p q(2) x(1) by simp
      next
        case (Again t ss')
        then obtain yss' where y: "streams ss' yss'" "\<forall>p \<ge> target. solves yss (j + 1) p \<longleftrightarrow> t \<le> p \<and> solves yss' (j + 1) p" "target < t" "t < POS_MAX" "length ss' = length ss"
          using q(2) by auto
        have "streams (s' # ss') (?d # yss')" using y(1) s'(1) by (simp add: streams_def)
        moreover have "\<forall>p \<ge> target. solves xss j p \<longleftrightarrow> t \<le> p \<and> solves (?d # yss') j p" using y(2) keep by (auto simp: x(1))
        ultimately show ?thesis using p Again y(3-5) by (intro exI [of _ "Again t (s' # ss')"]) auto
      qed
    qed
  qed
qed

lemma phrase_loop_at:
  "streams ss xss \<Longrightarrow> 0 \<le> target \<Longrightarrow> target < POS_MAX \<Longrightarrow> length ss < 2 ^ 32 \<Longrightarrow> phrase_loop target ss = Some (\<exists>p \<ge> target. solves xss 0 p)"
proof (induction "nat (POS_MAX - target)" arbitrary: target ss xss rule: less_induct)
  case less
  from pass_at [OF less.prems(1-3), of 0] less.prems(4) obtain r where r: "pass target 0 ss = Some r" "case r of
      Hit \<Rightarrow> solves xss 0 target
    | Fail \<Rightarrow> \<forall>p \<ge> target. \<not> solves xss 0 p
    | Again t ss' \<Rightarrow> target < t \<and> t < POS_MAX \<and> length ss' = length ss
        \<and> (\<exists>xss'. streams ss' xss' \<and> (\<forall>p \<ge> target. solves xss 0 p \<longleftrightarrow> t \<le> p \<and> solves xss' 0 p))" by auto
  show ?case
  proof (cases r)
    case (Again t ss')
    then obtain xss' where x: "target < t" "t < POS_MAX" "length ss' = length ss" "streams ss' xss'" "\<forall>p \<ge> target. solves xss 0 p \<longleftrightarrow> t \<le> p \<and> solves xss' 0 p"
      using r(2) by auto
    have "phrase_loop t ss' = Some (\<exists>p \<ge> t. solves xss' 0 p)" using less.hyps [OF _ x(4) _ x(2)] x(1,3) less.prems by auto
    moreover have "(\<exists>p \<ge> t. solves xss' 0 p) \<longleftrightarrow> (\<exists>p \<ge> target. solves xss 0 p)" using x(1,5) by (metis less_imp_le order.trans)
    ultimately show ?thesis using r(1) Again by (subst phrase_loop.simps) simp
  qed (use r in \<open>subst phrase_loop.simps; auto\<close>)+
qed


section \<open>Phrases over cursors\<close>

definition all_at :: "cursor list \<Rightarrow> (nat \<Rightarrow> posting list) \<Rightarrow> (nat \<Rightarrow> nat) \<Rightarrow> bool" where
  "all_at cs P K \<longleftrightarrow> (\<forall>i < length cs. cur (cs ! i) (P i) (K i))"

lemma all_at_update: "all_at cs P K \<Longrightarrow> i < length cs \<Longrightarrow> cur c (P i) (K i) \<Longrightarrow> all_at (cs[i := c]) P K"
  by (auto simp: all_at_def nth_list_update)

lemma first_position:
  assumes c: "cur c ps k" and k: "k < length ps" and ok: "positions_ok (ps ! k)"
  shows "\<exists>p c' s b. posStart c = Some (p, c') \<and> cur c' ps k \<and> tf c' = Some (ptf (ps ! k))
    \<and> pstream_next \<lparr>sdata = cpos c', sp = p, left = ptf (ps ! k), scur = 0\<rparr> = Some (b, s) \<and> stream s (positions (ps ! k))"
proof -
  let ?off = "unat (posOff0 c) + length (pos_bytes (take k ps))"
  obtain c' where c': "posStart c = Some (?off, c')" "cur c' ps k" "cpos c' = cpos c" using posStart_at [OF c k] by blast
  have "over c ps" using c k by (simp add: cur_def cur_at_def)
  then obtain r where "drop (unat (posOff0 c)) (cpos c) = pos_bytes ps @ r" by (auto simp: over_def)
  moreover have "pos_bytes ps = pos_bytes (take k ps) @ pos_bytes (drop k ps)" unfolding pos_bytes_append [symmetric] by simp
  ultimately have "drop ?off (cpos c) = pos_bytes (drop k ps) @ r" using drop_more [of "unat (posOff0 c)" "cpos c" "pos_bytes (take k ps)"] by simp
  moreover have "drop k ps = (ps ! k) # drop (Suc k) ps" using k by (simp add: Cons_nth_drop_Suc)
  ultimately have d0: "drop ?off (cpos c) = concat (map enc (ppos (ps ! k))) @ pos_bytes (drop (Suc k) ps) @ r" by (simp add: pos_bytes_def)
  obtain d ds where d: "ppos (ps ! k) = d # ds" using ok by (cases "ppos (ps ! k)") (auto simp: positions_ok_def)
  let ?r = "concat (map enc ds) @ pos_bytes (drop (Suc k) ps) @ r"
  have d1: "drop ?off (cpos c) = enc d @ ?r" using d0 d by simp
  have len: "length ds < 2 ^ 32 - 1" using ok d by (simp add: positions_ok_def)
  have ps: "positions (ps ! k) = uint d # psums (uint d) ds" by (simp add: positions_def d)
  have mx: "\<forall>x \<in> set (positions (ps ! k)). 0 \<le> x \<and> x < POS_MAX"
    using ok psums_ge [of _ 0 "ppos (ps ! k)"] by (auto simp: positions_ok_def positions_def)
  then have w: "wrap64 (0 + uint d) = uint d" using in64_pos [of "uint d"] by (auto simp: ps POS_MAX_def)
  have l: "ptf (ps ! k) = of_nat (length ds) + 1" by (simp add: ptf_def d)
  have nz: "ptf (ps ! k) \<noteq> 0"
  proof
    assume "ptf (ps ! k) = 0"
    moreover have "unat (ptf (ps ! k)) = length (ppos (ps ! k))" using ok by (simp add: ptf_def positions_ok_def unat_of_nat)
    ultimately show False by (simp add: d)
  qed
  let ?s = "\<lparr>sdata = cpos c', sp = ?off + length (enc d), left = of_nat (length ds), scur = uint d\<rparr>"
  have n: "pstream_next \<lparr>sdata = cpos c', sp = ?off, left = ptf (ps ! k), scur = 0\<rparr> = Some (True, ?s)"
    using nz uvarint_enc [OF d1] w l by (simp add: pstream_next_def c'(3))
  have "stream ?s (positions (ps ! k))"
    unfolding stream_def
  proof (intro conjI exI)
    show "positions (ps ! k) = scur ?s # psums (scur ?s) ds" by (simp add: ps)
    show "drop (sp ?s) (sdata ?s) = ?r" using drop_more [OF d1] c'(3) by simp
    show "length ds < 2 ^ 32" using len by simp
    show "sorted (positions (ps ! k))" unfolding positions_def by (rule sorted_psums)
  qed (use mx in simp_all)
  then show ?thesis using c' n tf_at [OF c'(2) k] by blast
qed

lemma start_streams_at:
  "all_at cs P K \<Longrightarrow> \<forall>i \<in> set seq. i < length cs \<and> K i < length (P i) \<and> positions_ok (P i ! K i) \<Longrightarrow>
     \<exists>ss cs'. start_streams seq cs = Some (ss, cs') \<and> all_at cs' P K \<and> length cs' = length cs
       \<and> streams ss (map (\<lambda>i. positions (P i ! K i)) seq)"
proof (induction seq arbitrary: cs)
  case Nil
  then show ?case by (simp add: streams_def)
next
  case (Cons i js)
  have i: "i < length cs" "K i < length (P i)" "positions_ok (P i ! K i)" using Cons.prems(2) by auto
  have "cur (cs ! i) (P i) (K i)" using Cons.prems(1) i(1) by (simp add: all_at_def)
  from first_position [OF this i(2,3)] obtain p c' s b where c': "posStart (cs ! i) = Some (p, c')" "cur c' (P i) (K i)" "tf c' = Some (ptf (P i ! K i))"
    "pstream_next \<lparr>sdata = cpos c', sp = p, left = ptf (P i ! K i), scur = 0\<rparr> = Some (b, s)" "stream s (positions (P i ! K i))" by blast
  have "all_at (cs[i := c']) P K" by (rule all_at_update [OF Cons.prems(1) i(1) c'(2)])
  from Cons.IH [OF this] Cons.prems(2) obtain ss cs' where "start_streams js (cs[i := c']) = Some (ss, cs')" "all_at cs' P K"
    "length cs' = length cs" "streams ss (map (\<lambda>i. positions (P i ! K i)) js)" by auto
  then show ?case using c' i(1) by (simp add: idx_def streams_def)
qed

definition phrase_at :: "(nat \<Rightarrow> int list) \<Rightarrow> nat list \<Rightarrow> bool" where
  "phrase_at pos seq \<longleftrightarrow> (\<exists>p. \<forall>j < length seq. p + int j \<in> set (pos (seq ! j)))"

lemma solves_nth: "solves xss j p \<longleftrightarrow> (\<forall>i < length xss. p + int (j + i) \<in> set (xss ! i))"
proof (induction xss arbitrary: j)
  case (Cons xs xss)
  then show ?case by (simp add: All_less_Suc2 ac_simps)
qed simp

lemma phraseMatch_at:
  assumes a: "all_at cs P K" and s: "\<forall>i \<in> set seq. i < length cs \<and> K i < length (P i) \<and> positions_ok (P i ! K i)"
    and n: "seq \<noteq> []" "length seq < 2 ^ 32"
  shows "\<exists>cs'. phraseMatch seq cs = Some (phrase_at (\<lambda>i. positions (P i ! K i)) seq, cs') \<and> all_at cs' P K \<and> length cs' = length cs"
proof -
  let ?xss = "map (\<lambda>i. positions (P i ! K i)) seq"
  from start_streams_at [OF a s] obtain ss cs' where st: "start_streams seq cs = Some (ss, cs')" "all_at cs' P K" "length cs' = length cs" "streams ss ?xss" by blast
  have len: "length ss = length seq" using st(4) by (auto simp: streams_def dest: list_all2_lengthD)
  obtain x xss where x: "?xss = x # xss" using n(1) by (cases seq) auto
  obtain s0 ss0 where s0: "ss = s0 # ss0" "stream s0 x" using st(4) x by (auto simp: streams_def list_all2_Cons2)
  obtain ds where ds: "x = scur s0 # ds" using s0(2) by (auto simp: stream_def)
  have b: "0 \<le> scur s0" "scur s0 < POS_MAX" "sorted x" using s0(2) ds by (auto simp: stream_def)
  have "phrase_loop (scur s0) ss = Some (\<exists>p \<ge> scur s0. solves ?xss 0 p)"
    by (rule phrase_loop_at [OF st(4) b(1,2)]) (use len n(2) in simp)
  moreover have "(\<exists>p \<ge> scur s0. solves ?xss 0 p) \<longleftrightarrow> (\<exists>p. solves ?xss 0 p)"
  proof -
    have "scur s0 \<le> p" if "solves ?xss 0 p" for p using that b(3) unfolding x by (auto simp: ds)
    then show ?thesis by blast
  qed
  ultimately have "phrase_loop (scur s0) ss = Some (phrase_at (\<lambda>i. positions (P i ! K i)) seq)"
    by (simp add: phrase_at_def solves_nth)
  then show ?thesis using st s0(1) by (simp add: phraseMatch_def idx_def)
qed

end
