(* ===== verification/Search_TopK.thy ===== *)
theory Search_TopK
  imports Main "HOL-Library.Multiset"
begin

text \<open>
  The bounded heap that keeps the best hits of a query (\<open>topK\<close> in \<open>search/impl/go-1/query.go\<close>). Scores are any
  linearly ordered type; in the program they are finite floating-point numbers. The lemmas show that the heap holds
  the best \<open>k\<close> of everything pushed, and that the best hits of several parts merge into the best hits of the whole.
\<close>

record 's hit =
  score :: 's
  hid :: nat
  hdoc :: nat

definition worse :: "('s :: linorder) hit \<Rightarrow> 's hit \<Rightarrow> bool" where
  "worse a b = (if score a \<noteq> score b then score a < score b else hid a > hid b)"

record 's topK =
  kmax :: nat
  heap :: "'s hit list"

definition swap :: "'a list \<Rightarrow> nat \<Rightarrow> nat \<Rightarrow> 'a list" where
  "swap h i j = h[i := h ! j, j := h ! i]"

function sift_up :: "('s :: linorder) hit list \<Rightarrow> nat \<Rightarrow> 's hit list" where
  "sift_up h i =
     (if i > 0 then
        let p = (i - 1) div 2
        in if \<not> worse (h ! i) (h ! p) then h else sift_up (swap h i p) p
      else h)"
  by pat_completeness auto
termination by (relation "measure snd") auto

function sift_down :: "('s :: linorder) hit list \<Rightarrow> nat \<Rightarrow> 's hit list" where
  "sift_down h i =
     (let l = 2 * i + 1
      in if l \<ge> length h then h
         else let r = l + 1; m = (if r < length h \<and> worse (h ! r) (h ! l) then r else l)
           in if \<not> worse (h ! m) (h ! i) then h else sift_down (swap h i m) m)"
  by pat_completeness auto
termination by (relation "measure (\<lambda>(h, i). length h - i)") (auto simp: swap_def)

declare sift_up.simps [simp del] sift_down.simps [simp del]

definition push :: "('s :: linorder) hit \<Rightarrow> 's topK \<Rightarrow> 's topK" where
  "push x t =
     (let h = heap t in
      if length h < kmax t then t\<lparr>heap := sift_up (h @ [x]) (length h)\<rparr>
      else if \<not> worse (h ! 0) x then t
      else t\<lparr>heap := sift_down (h[0 := x]) 0\<rparr>)"

section \<open>The order\<close>

lemma worse_trans: "\<not> worse b a \<Longrightarrow> \<not> worse c b \<Longrightarrow> \<not> worse c a"
  by (auto simp: worse_def split: if_splits)

lemma worse_asym: "worse a b \<Longrightarrow> \<not> worse b a"
  by (auto simp: worse_def split: if_splits)

lemma worse_irrefl [simp]: "\<not> worse a a"
  by (simp add: worse_def)

lemma worse_tie: "\<not> worse a b \<Longrightarrow> \<not> worse b a \<Longrightarrow> score a = score b \<and> hid a = hid b"
  by (auto simp: worse_def split: if_splits)

section \<open>Sifting\<close>

definition parent :: "nat \<Rightarrow> nat" where
  "parent i = (i - 1) div 2"

text \<open>Heap order except at \<open>i\<close>, whose children may stand under its parent.\<close>

definition ordered :: "('s :: linorder) hit list \<Rightarrow> bool" where
  "ordered h \<longleftrightarrow> (\<forall>j < length h. j > 0 \<longrightarrow> \<not> worse (h ! j) (h ! parent j))"

definition but_above :: "nat \<Rightarrow> ('s :: linorder) hit list \<Rightarrow> bool" where
  "but_above i h \<longleftrightarrow> (\<forall>j < length h. j > 0 \<and> j \<noteq> i \<longrightarrow> \<not> worse (h ! j) (h ! parent j))
     \<and> (\<forall>j < length h. j > 0 \<and> i > 0 \<and> parent j = i \<longrightarrow> \<not> worse (h ! j) (h ! parent i))"

definition but_below :: "nat \<Rightarrow> ('s :: linorder) hit list \<Rightarrow> bool" where
  "but_below i h \<longleftrightarrow> (\<forall>j < length h. j > 0 \<and> parent j \<noteq> i \<longrightarrow> \<not> worse (h ! j) (h ! parent j))
     \<and> (\<forall>j < length h. j > 0 \<and> i > 0 \<and> parent j = i \<longrightarrow> \<not> worse (h ! j) (h ! parent i))"

lemma length_swap [simp]: "length (swap h i j) = length h"
  by (simp add: swap_def)

lemma mset_swap [simp]: "i < length h \<Longrightarrow> j < length h \<Longrightarrow> mset (swap h i j) = mset h"
  by (simp add: swap_def mset_swap)

lemma nth_swap: "i < length h \<Longrightarrow> j < length h \<Longrightarrow> k < length h \<Longrightarrow> swap h i j ! k = (if k = j then h ! i else if k = i then h ! j else h ! k)"
  by (simp add: swap_def nth_list_update)

lemma parent_less: "0 < i \<Longrightarrow> parent i < i"
  by (simp add: parent_def)

lemma sift_up_ok: "i < length h \<Longrightarrow> but_above i h \<Longrightarrow> ordered (sift_up h i) \<and> mset (sift_up h i) = mset h"
proof (induction h i rule: sift_up.induct)
  case (1 h i)
  show ?case
  proof (cases "i > 0 \<and> worse (h ! i) (h ! parent i)")
    case False
    then have "sift_up h i = h" by (subst sift_up.simps) (auto simp: parent_def)
    moreover have "ordered h" using "1.prems"(2) False unfolding ordered_def but_above_def by metis
    ultimately show ?thesis by simp
  next
    case True
    let ?p = "parent i" and ?h = "swap h i (parent i)"
    have p: "?p < i" using True parent_less by blast
    have n: "?h ! k = (if k = ?p then h ! i else if k = i then h ! ?p else h ! k)" if "k < length h" for k
      using nth_swap [of i h ?p k] that p "1.prems"(1) by auto
    have A: "\<not> worse (h ! j) (h ! parent j)" if "j < length h" "j > 0" "j \<noteq> i" for j
      using "1.prems"(2) that by (auto simp: but_above_def)
    have B: "\<not> worse (h ! j) (h ! ?p)" if "j < length h" "j > 0" "parent j = i" for j
      using "1.prems"(2) that True by (auto simp: but_above_def)
    have w: "\<not> worse (h ! ?p) (h ! i)" using True worse_asym by blast
    have "but_above ?p ?h" unfolding but_above_def
    proof (intro conjI allI impI; elim conjE)
      fix j assume j: "j < length ?h" "0 < j" "j \<noteq> ?p"
      have pj: "parent j < j" "parent j < length h" using parent_less [OF j(2)] j(1) by auto
      show "\<not> worse (?h ! j) (?h ! parent j)"
      proof (cases "j = i")
        case True
        then show ?thesis using n [of i] n [of ?p] p "1.prems"(1) w by auto
      next
        case ji: False
        show ?thesis
        proof (cases "parent j = i")
          case True
          then show ?thesis using n [of j] n [of i] B [of j] ji j p "1.prems"(1) by auto
        next
          case False
          show ?thesis
          proof (cases "parent j = ?p")
            case True
            have "\<not> worse (h ! j) (h ! ?p)" using A [of j] j ji True by auto
            then have "\<not> worse (h ! j) (h ! i)" using worse_trans [OF _ \<open>\<not> worse (h ! j) (h ! ?p)\<close>, of "h ! i"] w by blast
            then show ?thesis using n [of j] n [of ?p] True ji j p "1.prems"(1) by auto
          next
            case False
            then show ?thesis using n [of j] n [of "parent j"] A [of j] \<open>parent j \<noteq> i\<close> ji j pj by auto
          qed
        qed
      qed
    next
      fix j assume j: "j < length ?h" "0 < j" "0 < ?p" "parent j = ?p"
      have pp: "parent ?p < ?p" by (rule parent_less [OF j(3)])
      have up: "\<not> worse (h ! ?p) (h ! parent ?p)" using A [of ?p] j(3) p "1.prems"(1) by auto
      have jp: "j \<noteq> ?p" using parent_less [OF j(2)] j(4) by auto
      have hj: "?h ! j = (if j = i then h ! ?p else h ! j)" using n [of j] jp j(1) by simp
      have hp: "?h ! parent ?p = h ! parent ?p" using n [of "parent ?p"] pp p "1.prems"(1) by auto
      show "\<not> worse (?h ! j) (?h ! parent ?p)"
      proof (cases "j = i")
        case False
        have "\<not> worse (h ! j) (h ! ?p)" using A [of j] j False by auto
        then show ?thesis using worse_trans [OF up] hj hp False by simp
      qed (use hj hp up in simp)
    qed
    moreover have "sift_up h i = sift_up ?h ?p" using True by (subst sift_up.simps) (simp add: parent_def Let_def)
    ultimately show ?thesis using "1.IH" [OF _ refl] True p "1.prems"(1) by (simp add: parent_def)
  qed
qed

lemma children: "j > 0 \<Longrightarrow> parent j = i \<longleftrightarrow> j = 2 * i + 1 \<or> j = 2 * i + 2"
  by (auto simp: parent_def)

lemma sift_down_ok: "i < length h \<Longrightarrow> but_below i h \<Longrightarrow> ordered (sift_down h i) \<and> mset (sift_down h i) = mset h"
proof (induction "length h - i" arbitrary: h i rule: less_induct)
  case less
  let ?l = "2 * i + 1"
  show ?case
  proof (cases "?l < length h")
    case False
    then have "sift_down h i = h" by (subst sift_down.simps) simp
    moreover have "ordered h" unfolding ordered_def
    proof (intro allI impI)
      fix j assume j: "j < length h" "0 < j"
      then have "parent j \<noteq> i" using children [OF j(2), of i] False by auto
      then show "\<not> worse (h ! j) (h ! parent j)" using less.prems(2) j by (auto simp: but_below_def)
    qed
    ultimately show ?thesis by simp
  next
    case True
    define m where "m = (if ?l + 1 < length h \<and> worse (h ! (?l + 1)) (h ! ?l) then ?l + 1 else ?l)"
    have m: "m < length h" "parent m = i" "0 < m" "i < m" using True by (auto simp: parent_def m_def)
    have least: "\<not> worse (h ! j) (h ! m)" if "j < length h" "j > 0" "parent j = i" for j
      using children [OF that(2), of i] that worse_asym [of "h ! (?l + 1)" "h ! ?l"] by (auto simp: m_def split: if_splits)
    have step: "sift_down h i = (if \<not> worse (h ! m) (h ! i) then h else sift_down (swap h i m) m)"
      using True by (subst sift_down.simps) (simp add: Let_def m_def)
    have A: "\<not> worse (h ! j) (h ! parent j)" if "j < length h" "j > 0" "parent j \<noteq> i" for j
      using less.prems(2) that by (auto simp: but_below_def)
    have B: "\<not> worse (h ! j) (h ! parent i)" if "j < length h" "j > 0" "i > 0" "parent j = i" for j
      using less.prems(2) that by (auto simp: but_below_def)
    show ?thesis
    proof (cases "worse (h ! m) (h ! i)")
      case False
      have "ordered h" unfolding ordered_def
      proof (intro allI impI)
        fix j assume j: "j < length h" "0 < j"
        show "\<not> worse (h ! j) (h ! parent j)"
        proof (cases "parent j = i")
          case True
          then show ?thesis using worse_trans [OF False least [OF j True]] by simp
        qed (use A j in simp)
      qed
      then show ?thesis using step False by simp
    next
      case w: True
      let ?h = "swap h i m"
      have n: "?h ! k = (if k = m then h ! i else if k = i then h ! m else h ! k)" if "k < length h" for k
        using nth_swap [of i h m k] that m less.prems(1) by auto
      have "but_below m ?h" unfolding but_below_def
      proof (intro conjI allI impI; elim conjE)
        fix j assume j: "j < length ?h" "0 < j" "parent j \<noteq> m"
        have pj: "parent j < j" "parent j < length h" using parent_less [OF j(2)] j(1) by auto
        have hp: "?h ! parent j = (if parent j = i then h ! m else h ! parent j)" using n [OF pj(2)] j(3) by simp
        show "\<not> worse (?h ! j) (?h ! parent j)"
        proof (cases "parent j = i")
          case True
          have "j \<noteq> i" using True pj by auto
          then have "?h ! j = (if j = m then h ! i else h ! j)" using n [of j] j(1) by simp
          moreover have "\<not> worse (h ! j) (h ! m)" by (rule least) (use j True in simp_all)
          moreover have "?h ! parent j = h ! m" using hp True by simp
          ultimately show ?thesis using worse_asym [OF w] by (cases "j = m") simp_all
        next
          case False
          have jm: "j \<noteq> m" using False m(2) by metis
          then have hj: "?h ! j = (if j = i then h ! m else h ! j)" using n [of j] j(1) by simp
          show ?thesis
          proof (cases "j = i")
            case True
            then show ?thesis using hj hp False B [OF m(1) m(3) _ m(2)] j(2) by simp
          next
            case ji: False
            then show ?thesis using hj hp False A [of j] j by simp
          qed
        qed
      next
        fix j assume j: "j < length ?h" "0 < j" "0 < m" "parent j = m"
        have "j \<noteq> m" "j \<noteq> i" using parent_less [OF j(2)] j(4) m(4) by auto
        then have "?h ! j = h ! j" using n [of j] j(1) by simp
        moreover have "?h ! parent m = h ! m" using n [of i] m less.prems(1) by auto
        moreover have "\<not> worse (h ! j) (h ! m)" using A [of j] j m(4) by auto
        ultimately show "\<not> worse (?h ! j) (?h ! parent m)" by simp
      qed
      moreover have "length ?h - m < length h - i" using m by auto
      ultimately have "ordered (sift_down ?h m) \<and> mset (sift_down ?h m) = mset ?h" using less.hyps [of ?h m] m(1) by simp
      then show ?thesis using step w m less.prems(1) by simp
    qed
  qed
qed

section \<open>The best hits\<close>

text \<open>\<open>h\<close> holds the best \<open>k\<close> of \<open>xs\<close>: nothing left out is better than something kept.\<close>

definition best :: "nat \<Rightarrow> ('s :: linorder) hit multiset \<Rightarrow> 's hit multiset \<Rightarrow> bool" where
  "best k xs h \<longleftrightarrow> h \<subseteq># xs \<and> size h = min k (size xs) \<and> (\<forall>x \<in># h. \<forall>y \<in># xs - h. \<not> worse x y)"

definition topk_inv :: "('s :: linorder) topK \<Rightarrow> 's hit multiset \<Rightarrow> bool" where
  "topk_inv t xs \<longleftrightarrow> 0 < kmax t \<and> ordered (heap t) \<and> best (kmax t) xs (mset (heap t))"

lemma ordered_root: "ordered h \<Longrightarrow> j < length h \<Longrightarrow> \<not> worse (h ! j) (h ! 0)"
proof (induction j rule: less_induct)
  case (less j)
  show ?case
  proof (cases "j = 0")
    case False
    then have p: "parent j < j" by (simp add: parent_less)
    have "\<not> worse (h ! parent j) (h ! 0)" using less.IH [OF p less.prems(1)] p less.prems(2) by simp
    moreover have "\<not> worse (h ! j) (h ! parent j)" using less.prems False by (simp add: ordered_def)
    ultimately show ?thesis using worse_trans by blast
  qed simp
qed

lemma append_but_above: "ordered h \<Longrightarrow> but_above (length h) (h @ [x])"
proof -
  assume o: "ordered h"
  have "\<not> worse ((h @ [x]) ! j) ((h @ [x]) ! parent j)" if "j < length h" "0 < j" for j
    using o that parent_less [OF that(2)] by (auto simp: ordered_def nth_append)
  moreover have "parent j \<noteq> length h" if "j < length (h @ [x])" "0 < j" for j using parent_less [OF that(2)] that by auto
  ultimately show ?thesis by (auto simp: but_above_def)
qed

lemma replace_but_below: "ordered h \<Longrightarrow> but_below 0 (h[0 := x])"
proof -
  assume o: "ordered h"
  have "\<not> worse (h[0 := x] ! j) (h[0 := x] ! parent j)" if "j < length h" "0 < j" "parent j \<noteq> 0" for j
    using o that by (auto simp: ordered_def)
  then show ?thesis by (auto simp: but_below_def)
qed

lemma push_ok:
  assumes inv: "topk_inv t xs"
  shows "topk_inv (push x t) (add_mset x xs) \<and> kmax (push x t) = kmax t"
proof -
  let ?h = "heap t" and ?k = "kmax t"
  have k: "0 < ?k" "ordered ?h" "mset ?h \<subseteq># xs" "length ?h = min ?k (size xs)" "\<And>a b. a \<in># mset ?h \<Longrightarrow> b \<in># xs - mset ?h \<Longrightarrow> \<not> worse a b"
    using inv by (auto simp: topk_inv_def best_def)
  consider (grow) "length ?h < ?k" | (skip) "\<not> length ?h < ?k" "\<not> worse (?h ! 0) x" | (repl) "\<not> length ?h < ?k" "worse (?h ! 0) x" by blast
  then show ?thesis
  proof cases
    case grow
    then have all: "mset ?h = xs" using k(3,4) by (metis min_def mset_subset_size less_irrefl size_mset subset_mset.order_iff_strict)
    from sift_up_ok [of "length ?h" "?h @ [x]"] append_but_above [OF k(2), of x]
    have "ordered (sift_up (?h @ [x]) (length ?h)) \<and> mset (sift_up (?h @ [x]) (length ?h)) = add_mset x (mset ?h)" by simp
    moreover have "push x t = t\<lparr>heap := sift_up (?h @ [x]) (length ?h)\<rparr>" using grow by (simp add: push_def Let_def)
    moreover have "size xs = length ?h" using all [symmetric] by simp
    ultimately show ?thesis using all grow k(1) by (auto simp: topk_inv_def best_def)
  next
    case skip
    have ge: "\<not> worse a x" if "a \<in># mset ?h" for a
    proof -
      obtain j where "j < length ?h" "a = ?h ! j" using \<open>a \<in># mset ?h\<close> by (auto simp: in_set_conv_nth)
      then show ?thesis using worse_trans [OF skip(2) ordered_root [OF k(2)]] by simp
    qed
    have "add_mset x xs - mset ?h = add_mset x (xs - mset ?h)" 
    proof -
      obtain ys where "xs = mset ?h + ys" using k(3) by (rule mset_subset_eq_exists_conv [THEN iffD1, THEN exE])
      then show ?thesis by simp
    qed
    moreover have "mset ?h \<subseteq># add_mset x xs" using k(3) by (rule subset_mset.trans) simp
    moreover have "push x t = t" using skip by (simp add: push_def Let_def)
    moreover have "length ?h = min ?k (Suc (size xs))" using skip(1) k(4) by simp
    ultimately show ?thesis using k ge by (auto simp: topk_inv_def best_def)
  next
    case repl
    let ?r = "?h ! 0" and ?h2 = "sift_down (?h[0 := x]) 0"
    have len: "0 < length ?h" "length ?h = ?k" using repl(1) k(1,4) by auto
    obtain tl where tl: "?h = ?r # tl" using len(1) by (cases ?h) auto
    have S: "ordered ?h2" "mset ?h2 = add_mset x (mset tl)"
      using sift_down_ok [of 0 "?h[0 := x]"] replace_but_below [OF k(2), of x] len(1) by (simp, subst (asm) tl) (auto, subst tl, simp)
    have root: "\<not> worse a ?r" if "a \<in># mset ?h" for a
      using that ordered_root [OF k(2)] by (auto simp: in_set_conv_nth)
    have mh: "mset ?h = add_mset ?r (mset tl)" by (subst tl) simp
    have sub: "add_mset ?r (mset tl) \<subseteq># xs" using k(3) unfolding mh .
    then have tlx: "mset tl \<subseteq># xs" by (metis mset_subset_eq_insertD subset_mset.less_imp_le)
    obtain ys where ys: "xs = add_mset ?r (mset tl) + ys" using sub by (rule mset_subset_eq_exists_conv [THEN iffD1, THEN exE])
    have rest: "add_mset x xs - add_mset x (mset tl) = add_mset ?r (xs - mset ?h)" unfolding mh ys by simp
    have "\<not> worse a b" if a: "a \<in># add_mset x (mset tl)" and b: "b \<in># add_mset ?r (xs - mset ?h)" for a b
    proof -
      have ar: "\<not> worse a ?r" using a root worse_asym [OF repl(2)] by (auto simp: mh)
      have "\<not> worse ?r b" using b k(5) [of ?r b] by (auto simp: mh)
      then show ?thesis using ar worse_trans by blast
    qed
    moreover have "size (add_mset x (mset tl)) = min ?k (Suc (size xs))" using len k(4) arg_cong [OF tl, of length] by simp
    moreover have "add_mset x (mset tl) \<subseteq># add_mset x xs" using tlx by simp
    moreover have "push x t = t\<lparr>heap := ?h2\<rparr>" using repl by (simp add: push_def Let_def)
    ultimately show ?thesis using S k(1) rest by (auto simp: topk_inv_def best_def)
  qed
qed

lemma foldl_push:
  "topk_inv t xs \<Longrightarrow> topk_inv (foldl (\<lambda>t x. push x t) t ys) (xs + mset ys) \<and> kmax (foldl (\<lambda>t x. push x t) t ys) = kmax t"
proof (induction ys arbitrary: t xs)
  case (Cons y ys)
  from push_ok [OF Cons.prems, of y] have "topk_inv (push y t) (add_mset y xs)" "kmax (push y t) = kmax t" by auto
  from Cons.IH [OF this(1)] this(2) show ?case by simp
qed simp

lemma topk_empty: "0 < k \<Longrightarrow> topk_inv \<lparr>kmax = k, heap = []\<rparr> {#}"
  by (simp add: topk_inv_def ordered_def best_def)

text \<open>The parts of a query that is split over document ranges, merged.\<close>

lemma best_merge:
  assumes parts: "\<And>p. p \<in> set ps \<Longrightarrow> best k (X p) (H p)" and top: "best k (\<Sum>p \<leftarrow> ps. H p) h"
  shows "best k (\<Sum>p \<leftarrow> ps. X p) h"
proof -
  let ?X = "\<Sum>p \<leftarrow> ps. X p" and ?H = "\<Sum>p \<leftarrow> ps. H p"
  have sub: "H p \<subseteq># X p" if "p \<in> set ps" for p using parts [OF that] by (simp add: best_def)
  have split: "?X = ?H + (\<Sum>p \<leftarrow> ps. X p - H p)" using sub
  proof (induction ps)
    case (Cons p ps)
    obtain ys where "X p = H p + ys" using Cons.prems [of p] by (meson list.set_intros(1) mset_subset_eq_exists_conv)
    then show ?case using Cons.IH Cons.prems by simp
  qed simp
  have h: "h \<subseteq># ?H" "size h = min k (size ?H)" "\<And>x y. x \<in># h \<Longrightarrow> y \<in># ?H - h \<Longrightarrow> \<not> worse x y" using top by (auto simp: best_def)
  obtain rest where rest: "?H = h + rest" using h(1) by (rule mset_subset_eq_exists_conv [THEN iffD1, THEN exE])
  have left: "?X - h = rest + (\<Sum>p \<leftarrow> ps. X p - H p)" unfolding split rest by simp
  have full: "k \<le> size (H p)" if "p \<in> set ps" "y \<in># X p - H p" for p y
  proof -
    have "size (H p) < size (X p)" using sub [OF that(1)] that(2) by (metis Diff_eq_empty_iff_mset empty_iff mset_subset_size set_mset_empty subset_mset.le_less)
    then show ?thesis using parts [OF that(1)] by (simp add: best_def)
  qed
  have part_le: "H p \<subseteq># ?H" if "p \<in> set ps" for p
    using that by (induction ps) (auto intro: subset_mset.add_increasing subset_mset.add_increasing2)
  have good: "\<not> worse x y" if x: "x \<in># h" and p: "p \<in> set ps" and y: "y \<in># X p - H p" for x y p
  proof (cases "H p \<subseteq># h")
    case True
    have "size h \<le> k" using h(2) by simp
    then have "H p = h" using True full [OF p y] by (metis le_less_trans mset_subset_size not_le subset_mset.le_less)
    then show ?thesis using parts [OF p] x y by (auto simp: best_def)
  next
    case False
    then obtain z where z: "count (H p) z > count h z" by (auto simp: subseteq_mset_def not_le)
    then have zp: "z \<in># H p" by (metis count_eq_zero_iff not_less_zero)
    have "count (H p) z \<le> count ?H z" using part_le [OF p] by (simp add: subseteq_mset_def)
    then have "z \<in># ?H - h" using z by (simp add: in_diff_count)
    then have "\<not> worse x z" using h(3) [OF x] by simp
    moreover have "\<not> worse z y" using parts [OF p] zp y by (auto simp: best_def)
    ultimately show ?thesis using worse_trans by blast
  qed
  have sum: "\<exists>p \<in> set ps. y \<in># X p - H p" if "y \<in># (\<Sum>p \<leftarrow> ps. X p - H p)" for y
    using that by (induction ps) auto
  have sz: "size h = min k (size ?X)"
  proof (cases "k \<le> size ?H")
    case True
    then show ?thesis using h(2) by (simp add: split)
  next
    case False
    have none: "X p - H p = {#}" if "p \<in> set ps" for p
    proof (rule ccontr)
      assume "X p - H p \<noteq> {#}"
      then obtain y where "y \<in># X p - H p" by (meson multiset_nonemptyE)
      then have "k \<le> size (H p)" by (rule full [OF that])
      then show False using False size_mset_mono [OF part_le [OF that]] by simp
    qed
    then have "(\<Sum>p \<leftarrow> ps. X p - H p) = {#}" using sum by (metis empty_iff multiset_nonemptyE set_mset_empty)
    then show ?thesis using h(2) by (simp add: split)
  qed
  have "\<not> worse x y" if "x \<in># h" "y \<in># ?X - h" for x y
    using that(2) sum good [OF that(1)] h(3) [OF that(1)] unfolding left by (auto simp: rest)
  moreover have "h \<subseteq># ?X" using h(1) unfolding split by (rule subset_mset.trans) simp
  ultimately show ?thesis using sz by (simp add: best_def)
qed

lemma top_of_parts:
  assumes "0 < k"
  shows "best k (mset xs) (mset (heap (foldl (\<lambda>t x. push x t) \<lparr>kmax = k, heap = []\<rparr> xs)))
    \<and> best k (mset (concat parts))
        (mset (heap (foldl (\<lambda>t x. push x t) \<lparr>kmax = k, heap = []\<rparr>
          (concat (map (\<lambda>ys. heap (foldl (\<lambda>t x. push x t) \<lparr>kmax = k, heap = []\<rparr> ys)) parts)))))"
proof -
  let ?top = "\<lambda>ys. heap (foldl (\<lambda>t x. push x t) \<lparr>kmax = k, heap = []\<rparr> ys)"
  have b: "best k (mset ys) (mset (?top ys))" for ys
    using foldl_push [OF topk_empty [OF assms], of ys] by (auto simp: topk_inv_def)
  have "best k (\<Sum>ys \<leftarrow> parts. mset ys) (mset (?top (concat (map ?top parts))))"
  proof (rule best_merge [where H = "\<lambda>ys. mset (?top ys)"])
    show "best k (mset ys) (mset (?top ys))" for ys by (rule b)
    show "best k (\<Sum>ys \<leftarrow> parts. mset (?top ys)) (mset (?top (concat (map ?top parts))))"
      using b [of "concat (map ?top parts)"] by (simp add: mset_concat comp_def)
  qed
  then show ?thesis using b by (simp add: mset_concat)
qed

section \<open>Claims\<close>

text \<open>\<^bold>\<open>C36\<close> The bounded heap keeps the best hits. After pushing any hits into an empty \<open>topK\<close>, it holds as many as fit,
  all of them pushed, with multiplicities, and no hit left out ranks above one that was kept; and hits that were
  selected from parts in this way and pushed into one more \<open>topK\<close> give the best hits of all parts together, so a
  query may be split over document ranges.\<close>

theorem topk_keeps_best:
  assumes "0 < k"
  shows "best k (mset xs) (mset (heap (foldl (\<lambda>t x. push x t) \<lparr>kmax = k, heap = []\<rparr> xs)))
    \<and> best k (mset (concat parts))
        (mset (heap (foldl (\<lambda>t x. push x t) \<lparr>kmax = k, heap = []\<rparr>
          (concat (map (\<lambda>ys. heap (foldl (\<lambda>t x. push x t) \<lparr>kmax = k, heap = []\<rparr> ys)) parts)))))"
  by (rule top_of_parts [OF assms])

theorem topk_keeps_best_witness:
  "mset (heap (foldl (\<lambda>t x. push x t) \<lparr>kmax = 1, heap = []\<rparr> [\<lparr>score = 2 :: nat, hid = 7, hdoc = 0\<rparr>, \<lparr>score = 3, hid = 5, hdoc = 1\<rparr>]))
    = {# \<lparr>score = 3, hid = 5, hdoc = 1\<rparr> #}"
proof -
  let ?a = "\<lparr>score = 2 :: nat, hid = 7, hdoc = 0\<rparr>" and ?b = "\<lparr>score = 3 :: nat, hid = 5, hdoc = 1\<rparr>"
  have b: "best 1 (mset [?a, ?b]) (mset (heap (foldl (\<lambda>t x. push x t) \<lparr>kmax = 1, heap = []\<rparr> [?a, ?b])))"
    by (rule conjunct1 [OF topk_keeps_best [of 1 "[?a, ?b]" "[]"]]) simp
  then have "size (mset (heap (foldl (\<lambda>t x. push x t) \<lparr>kmax = 1, heap = []\<rparr> [?a, ?b]))) = 1" by (simp add: best_def del: foldl.simps)
  from size_1_singleton_mset [OF this] obtain z where z: "mset (heap (foldl (\<lambda>t x. push x t) \<lparr>kmax = 1, heap = []\<rparr> [?a, ?b])) = {# z #}" ..
  have "z = ?a \<or> z = ?b" using b unfolding z best_def by auto
  have "z \<noteq> ?a"
  proof
    assume "z = ?a"
    then have "\<not> worse ?a ?b" using b unfolding z(1) by (simp add: best_def)
    then show False by (simp add: worse_def)
  qed
  then show ?thesis using z \<open>z = ?a \<or> z = ?b\<close> by blast
qed

end
