(* ===== verification/Search_Exec.thy ===== *)
theory Search_Exec
  imports Search_Phrase Search_Dict Search_TopK
begin

text \<open>
  The evaluation of a query plan over a range of documents (\<open>exec\<close> in \<open>search/impl/go-1/query.go\<close>). The cursors of
  the positive terms leapfrog to their common documents; phrases and negated clauses filter them; the
  scores go into the heap. Floating-point arithmetic and the order that \<open>slices.SortFunc\<close> gives to equal elements are
  parameters. The lemmas show that exactly the matching documents are counted and pushed, in increasing order.
\<close>

section \<open>Plans\<close>

record 's planTerm =
  pentry :: termEntry
  idf :: 's

record negPlan =
  nuniq :: "termEntry list"
  nseq :: "nat list"

record 's plan =
  pterms :: "'s planTerm list"
  phrases :: "nat list list"
  pnegs :: "negPlan list"

text \<open>\<open>float64\<close>: conversion of unsigned integers, decimal literals as fractions, arithmetic and \<open>math.Log\<close>.\<close>

record 's floats =
  of_uint :: "nat \<Rightarrow> 's"
  lit :: "nat \<Rightarrow> nat \<Rightarrow> 's"
  fadd :: "'s \<Rightarrow> 's \<Rightarrow> 's"
  fsub :: "'s \<Rightarrow> 's \<Rightarrow> 's"
  fmul :: "'s \<Rightarrow> 's \<Rightarrow> 's"
  fdiv :: "'s \<Rightarrow> 's \<Rightarrow> 's"
  flog :: "'s \<Rightarrow> 's"

section \<open>Evaluation\<close>

fun init_all :: "termEntry list \<Rightarrow> cursor list option" where
  "init_all [] = Some []"
| "init_all (e # es) = do { c \<leftarrow> cursor_init e; cs \<leftarrow> init_all es; Some (c # cs) }"

fun init_negs :: "negPlan list \<Rightarrow> (cursor list \<times> nat list) list option" where
  "init_negs [] = Some []"
| "init_negs (n # ns) = do { cs \<leftarrow> init_all (nuniq n); rest \<leftarrow> init_negs ns; Some ((cs, nseq n) # rest) }"

text \<open>The inner loop over the other cursors: all stand at \<open>d\<close>, one is at its end, or one has passed \<open>d\<close> and the
  leading cursor has followed it.\<close>

datatype alignment = Aligned | Exhausted | Passed

fun align_rest :: "nat list \<Rightarrow> nat \<Rightarrow> 32 word \<Rightarrow> cursor list \<Rightarrow> (alignment \<times> cursor list) option" where
  "align_rest [] lead d cs = Some (Aligned, cs)"
| "align_rest (i # js) lead d cs = do {
     c \<leftarrow> idx cs i;
     c \<leftarrow> advance d c;
     let cs = cs[i := c];
     if doc c \<noteq> d then
       if doc c = endDoc then Some (Exhausted, cs)
       else do { l \<leftarrow> idx cs lead; l \<leftarrow> advance (doc c) l; Some (Passed, cs[lead := l]) }
     else align_rest js lead d cs }"

fun phrases_match :: "nat list list \<Rightarrow> cursor list \<Rightarrow> (bool \<times> cursor list) option" where
  "phrases_match [] cs = Some (True, cs)"
| "phrases_match (ph # phs) cs = do {
     (m, cs) \<leftarrow> phraseMatch ph cs;
     if \<not> m then Some (False, cs) else phrases_match phs cs }"

fun reach :: "32 word \<Rightarrow> cursor list \<Rightarrow> (bool \<times> cursor list) option" where
  "reach d [] = Some (True, [])"
| "reach d (c # cs) = do {
     c \<leftarrow> advance d c;
     if doc c \<noteq> d then Some (False, c # cs)
     else do { (b, cs) \<leftarrow> reach d cs; Some (b, c # cs) } }"

fun excluded :: "32 word \<Rightarrow> (cursor list \<times> nat list) list \<Rightarrow> (bool \<times> (cursor list \<times> nat list) list) option" where
  "excluded d [] = Some (False, [])"
| "excluded d ((cs, seq) # ns) = do {
     (all, cs) \<leftarrow> reach d cs;
     (hit, cs) \<leftarrow> (if all then if length seq = 1 then Some (True, cs) else phraseMatch seq cs else Some (False, cs));
     if hit then Some (True, (cs, seq) # ns)
     else do { (b, ns) \<leftarrow> excluded d ns; Some (b, (cs, seq) # ns) } }"

fun add_scores :: "'s floats \<Rightarrow> 's \<Rightarrow> 's list \<Rightarrow> cursor list \<Rightarrow> 's \<Rightarrow> 's option" where
  "add_scores F norm (w # ws) (c # cs) s = do {
     t \<leftarrow> tf c;
     let t = of_uint F (unat t);
     add_scores F norm ws cs (fadd F s (fdiv F (fmul F (fmul F w t) (lit F 22 10)) (fadd F t norm))) }"
| "add_scores F norm _ _ s = Some s"

definition make_hit :: "'s floats \<Rightarrow> 's index \<Rightarrow> 's plan \<Rightarrow> cursor list \<Rightarrow> 32 word \<Rightarrow> 's hit option" where
  "make_hit F ix pl cs d = do {
     l \<leftarrow> idx (dls ix) (unat d);
     let norm = fadd F (normC1 ix) (fmul F (normC2 ix) (of_uint F (unat l)));
     s \<leftarrow> add_scores F norm (map idf (pterms pl)) cs (of_uint F 0);
     i \<leftarrow> idx (ids ix) (unat d);
     Some \<lparr>score = s, hid = unat i, hdoc = unat d\<rparr> }"

text \<open>One pass of the outer loop, up to \<open>lead.next()\<close>; the result says whether the loop is left.\<close>

definition visit :: "'s floats \<Rightarrow> ('s :: linorder) index \<Rightarrow> 's plan \<Rightarrow> nat \<Rightarrow> 32 word \<Rightarrow> cursor list \<Rightarrow> (cursor list \<times> nat list) list
    \<Rightarrow> nat \<Rightarrow> 's topK \<Rightarrow> (cursor list \<times> (cursor list \<times> nat list) list \<times> nat \<times> 's topK) option" where
  "visit F ix pl lead d cs ns n t = do {
     (m, cs) \<leftarrow> phrases_match (phrases pl) cs;
     (m, ns) \<leftarrow> (if m then do { (x, ns) \<leftarrow> excluded d ns; Some (\<not> x, ns) } else Some (False, ns));
     (n, t) \<leftarrow> (if m then do { h \<leftarrow> make_hit F ix pl cs d; Some (n + 1, push h t) } else Some (n, t));
     l \<leftarrow> idx cs lead;
     l \<leftarrow> cursor_next l;
     Some (cs[lead := l], ns, n, t) }"

partial_function (option) exec_loop :: "'s floats \<Rightarrow> ('s :: linorder) index \<Rightarrow> 's plan \<Rightarrow> nat \<Rightarrow> nat list \<Rightarrow> 32 word \<Rightarrow> cursor list
    \<Rightarrow> (cursor list \<times> nat list) list \<Rightarrow> nat \<Rightarrow> 's topK \<Rightarrow> (nat \<times> 's topK) option" where
  "exec_loop F ix pl lead rest hi cs ns n t = do {
     l \<leftarrow> idx cs lead;
     if doc l < hi then do {
       (a, cs) \<leftarrow> align_rest rest lead (doc l) cs;
       case a of
         Exhausted \<Rightarrow> Some (n, t)
       | Passed \<Rightarrow> exec_loop F ix pl lead rest hi cs ns n t
       | Aligned \<Rightarrow> do {
           (cs, ns, n, t) \<leftarrow> visit F ix pl lead (doc l) cs ns n t;
           exec_loop F ix pl lead rest hi cs ns n t } }
     else Some (n, t) }"

definition exec_plan :: "'s floats \<Rightarrow> (32 word list \<Rightarrow> nat list) \<Rightarrow> ('s :: linorder) index \<Rightarrow> 's plan \<Rightarrow> 32 word \<Rightarrow> 32 word \<Rightarrow> nat
    \<Rightarrow> (nat \<times> 's hit list) option" where
  "exec_plan F srt ix pl lo hi k = do {
     cs \<leftarrow> init_all (map pentry (pterms pl));
     let order = srt (map df cs);
     ns \<leftarrow> init_negs (pnegs pl);
     lead \<leftarrow> idx order 0;
     l \<leftarrow> idx cs lead;
     l \<leftarrow> advance lo l;
     (n, t) \<leftarrow> exec_loop F ix pl lead (drop 1 order) hi (cs[lead := l]) ns 0 \<lparr>kmax = k, heap = []\<rparr>;
     Some (n, heap t) }"

section \<open>What a query asks for\<close>

definition docs_of :: "posting list \<Rightarrow> 32 word set" where
  "docs_of ps = pdoc ` set ps"

definition posting_of :: "posting list \<Rightarrow> 32 word \<Rightarrow> posting" where
  "posting_of ps d = hd (filter (\<lambda>p. pdoc p = d) ps)"

definition phrase_in :: "posting list list \<Rightarrow> 32 word \<Rightarrow> nat list \<Rightarrow> bool" where
  "phrase_in PS d seq = phrase_at (\<lambda>i. positions (posting_of (PS ! i) d)) seq"

text \<open>All terms occur, all phrases occur, and no negated clause does.\<close>

definition clause_in :: "posting list list \<Rightarrow> nat list \<Rightarrow> 32 word \<Rightarrow> bool" where
  "clause_in N seq d \<longleftrightarrow> (\<forall>ps \<in> set N. d \<in> docs_of ps) \<and> (length seq = 1 \<or> phrase_in N d seq)"

definition matches :: "posting list list \<Rightarrow> nat list list \<Rightarrow> (posting list list \<times> nat list) list \<Rightarrow> 32 word \<Rightarrow> bool" where
  "matches PS phs NS d \<longleftrightarrow> (\<forall>ps \<in> set PS. d \<in> docs_of ps) \<and> (\<forall>seq \<in> set phs. phrase_in PS d seq)
     \<and> (\<forall>(N, seq) \<in> set NS. \<not> clause_in N seq d)"

definition seq_ok :: "posting list list \<Rightarrow> nat list \<Rightarrow> bool" where
  "seq_ok PS seq \<longleftrightarrow> seq \<noteq> [] \<and> length seq < 2 ^ 32 \<and> (\<forall>i \<in> set seq. i < length PS)"

definition lists_ok :: "posting list list \<Rightarrow> bool" where
  "lists_ok PS \<longleftrightarrow> (\<forall>ps \<in> set PS. \<forall>p \<in> set ps. positions_ok p)"

text \<open>The cursors have passed documents below \<open>d\<close> only.\<close>

definition behind_all :: "cursor list \<Rightarrow> posting list list \<Rightarrow> 32 word \<Rightarrow> bool" where
  "behind_all cs PS d \<longleftrightarrow> list_all2 (\<lambda>c ps. curs.behind c ps d) cs PS"

lemma behind_all_nth: "behind_all cs PS d \<longleftrightarrow> length cs = length PS \<and> (\<forall>i < length PS. curs.behind (cs ! i) (PS ! i) d)"
  by (auto simp: behind_all_def list_all2_conv_all_nth)

lemma behind_all_mono: "behind_all cs PS d \<Longrightarrow> d \<le> e \<Longrightarrow> behind_all cs PS e"
  using curs.behind_mono by (auto simp: behind_all_nth)

lemma behind_all_update: "behind_all cs PS d \<Longrightarrow> i < length PS \<Longrightarrow> curs.behind c (PS ! i) d \<Longrightarrow> behind_all (cs[i := c]) PS d"
  by (auto simp: behind_all_nth nth_list_update)

lemma cur_doc_least: "curs.behind c ps d \<Longrightarrow> x \<in> docs_of ps \<Longrightarrow> d \<le> x \<Longrightarrow> doc c \<le> x"
  using curs.doc_least by (auto simp: docs_of_def)

lemma le_endDoc: "d \<le> endDoc"
  by (simp add: endDoc_def)

lemma seek: "curs.behind c ps d \<Longrightarrow> d \<le> t \<Longrightarrow> \<exists>c'. advance t c = Some c' \<and> curs.behind c' ps t \<and> t \<le> doc c'"
  using curs.seek_behind [of c ps d t] le_endDoc [of t] by blast

lemma cur_doc_in: "curs.behind c ps d \<Longrightarrow> doc c \<noteq> endDoc \<Longrightarrow> \<exists>k. cur c ps k \<and> k < length ps \<and> doc c = pdoc (ps ! k)"
  using curs.doc_in unfolding curs.behind_def by blast

lemma doc_in_docs: "curs.behind c ps d \<Longrightarrow> doc c \<noteq> endDoc \<Longrightarrow> doc c \<in> docs_of ps"
  using cur_doc_in [of c ps d] by (auto simp: docs_of_def)

lemma posting_of_nth: "cur c ps k \<Longrightarrow> k < length ps \<Longrightarrow> posting_of ps (pdoc (ps ! k)) = ps ! k"
proof -
  assume c: "cur c ps k" and k: "k < length ps"
  have "filter (\<lambda>p. pdoc p = pdoc (ps ! k)) (take k ps) = []"
    using curs.keys_less [OF c _ k] by (force simp: filter_empty_conv in_set_conv_nth)
  then have "filter (\<lambda>p. pdoc p = pdoc (ps ! k)) ps = (ps ! k) # filter (\<lambda>p. pdoc p = pdoc (ps ! k)) (drop (Suc k) ps)"
    by (subst id_take_nth_drop [OF k]) simp
  then show ?thesis by (simp add: posting_of_def)
qed

lemma align_rest_at:
  "behind_all cs PS d \<Longrightarrow> lead < length PS \<Longrightarrow> doc (cs ! lead) = d \<Longrightarrow> \<forall>i \<in> set js. i < length PS \<and> i \<noteq> lead \<Longrightarrow>
     \<exists>a cs'. align_rest js lead d cs = Some (a, cs') \<and> (case a of
        Aligned \<Rightarrow> behind_all cs' PS d \<and> doc (cs' ! lead) = d \<and> (\<forall>i \<in> set js. doc (cs' ! i) = d)
          \<and> (\<forall>i. i \<notin> set js \<longrightarrow> cs' ! i = cs ! i)
      | Exhausted \<Rightarrow> \<exists>ps \<in> set PS. \<forall>x \<in> docs_of ps. \<not> (d \<le> x \<and> x < endDoc)
      | Passed \<Rightarrow> d < doc (cs' ! lead) \<and> behind_all cs' PS (doc (cs' ! lead))
          \<and> (\<forall>x. d \<le> x \<longrightarrow> x < doc (cs' ! lead) \<longrightarrow> (\<exists>ps \<in> set PS. x \<notin> docs_of ps)))"
proof (induction js arbitrary: cs)
  case Nil
  then show ?case by simp
next
  case (Cons i js)
  have i: "i < length PS" "i \<noteq> lead" "i < length cs" "lead < length cs" and b: "curs.behind (cs ! i) (PS ! i) d"
    using Cons.prems by (auto simp: behind_all_nth)
  obtain c where c: "advance d (cs ! i) = Some c" "curs.behind c (PS ! i) d" "d \<le> doc c" using seek [OF b] by auto
  have b1: "behind_all (cs[i := c]) PS d" by (rule behind_all_update [OF Cons.prems(1) i(1) c(2)])
  have l1: "cs[i := c] ! lead = cs ! lead" using i(2) by simp
  have PSi: "PS ! i \<in> set PS" "PS ! lead \<in> set PS" using i Cons.prems(2) by simp_all
  show ?case
  proof (cases "doc c = d")
    case True
    from Cons.IH [OF b1 Cons.prems(2)] l1 Cons.prems(3,4) obtain a cs' where a: "align_rest js lead d (cs[i := c]) = Some (a, cs')" "case a of
        Aligned \<Rightarrow> behind_all cs' PS d \<and> doc (cs' ! lead) = d \<and> (\<forall>i \<in> set js. doc (cs' ! i) = d)
          \<and> (\<forall>m. m \<notin> set js \<longrightarrow> cs' ! m = cs[i := c] ! m)
      | Exhausted \<Rightarrow> \<exists>ps \<in> set PS. \<forall>x \<in> docs_of ps. \<not> (d \<le> x \<and> x < endDoc)
      | Passed \<Rightarrow> d < doc (cs' ! lead) \<and> behind_all cs' PS (doc (cs' ! lead))
          \<and> (\<forall>x. d \<le> x \<longrightarrow> x < doc (cs' ! lead) \<longrightarrow> (\<exists>ps \<in> set PS. x \<notin> docs_of ps))" by auto
    have r: "align_rest (i # js) lead d cs = Some (a, cs')" using a(1) c(1) i(3) True by (simp add: idx_def)
    show ?thesis
    proof (cases a)
      case Aligned
      have "doc (cs' ! i) = d" using a(2) Aligned True i(3) by (cases "i \<in> set js") auto
      then show ?thesis using r a(2) Aligned by auto
    next
      case Exhausted
      then show ?thesis using r a(2) by (intro exI [of _ a] exI [of _ cs']) simp
    next
      case Passed
      then show ?thesis using r a(2) by (intro exI [of _ a] exI [of _ cs']) simp
    qed
  next
    case False
    have none: "x \<notin> docs_of (PS ! i)" if "d \<le> x" "x < doc c" for x using cur_doc_least [OF c(2) _ that(1)] that(2) by force
    show ?thesis
    proof (cases "doc c = endDoc")
      case True
      have "\<exists>ps \<in> set PS. \<forall>x \<in> docs_of ps. \<not> (d \<le> x \<and> x < endDoc)" using none PSi(1) True by auto
      then show ?thesis using c(1) i(3) False True by (simp add: idx_def)
    next
      case e: False
      have bl: "curs.behind (cs ! lead) (PS ! lead) d" using Cons.prems(1,2) by (simp add: behind_all_nth)
      obtain l where l: "advance (doc c) (cs ! lead) = Some l" "curs.behind l (PS ! lead) (doc c)" "doc c \<le> doc l" using seek [OF bl c(3)] by auto
      let ?cs = "cs[i := c, lead := l]"
      have r: "align_rest (i # js) lead d cs = Some (Passed, ?cs)" using c(1) i False e l(1) by (simp add: idx_def)
      have dl: "?cs ! lead = l" using i(4) by simp
      have gt: "d < doc l" using c(3) l(3) False by simp
      have "behind_all (cs[i := c]) PS (doc l)" using behind_all_mono [OF b1] gt by simp
      then have "behind_all ?cs PS (doc l)"
        using behind_all_update Cons.prems(2) curs.behind_mono [OF l(2) l(3)] by blast
      moreover have "\<exists>ps \<in> set PS. x \<notin> docs_of ps" if "d \<le> x" "x < doc l" for x
      proof (cases "x < doc c")
        case True
        then show ?thesis using none [OF that(1)] PSi(1) by blast
      next
        case False
        then have "x \<notin> docs_of (PS ! lead)" using cur_doc_least [OF l(2), of x] that(2) by force
        then show ?thesis using PSi(2) by blast
      qed
      ultimately show ?thesis using r gt dl by (intro exI [of _ Passed] exI [of _ ?cs]) simp
    qed
  qed
qed


section \<open>One document\<close>

text \<open>Cursors that all stand at the document \<open>d\<close>.\<close>

definition on_doc :: "cursor list \<Rightarrow> posting list list \<Rightarrow> (nat \<Rightarrow> nat) \<Rightarrow> 32 word \<Rightarrow> bool" where
  "on_doc cs PS K d \<longleftrightarrow> length cs = length PS \<and> all_at cs (\<lambda>i. PS ! i) K
     \<and> (\<forall>i < length PS. K i < length (PS ! i) \<and> pdoc (PS ! i ! K i) = d)"

lemma on_doc_exists:
  assumes b: "behind_all cs PS d" and e: "d \<noteq> endDoc" and d: "\<forall>i < length PS. doc (cs ! i) = d"
  shows "\<exists>K. on_doc cs PS K d"
proof -
  have len: "length cs = length PS" using b by (simp add: behind_all_nth)
  have "\<exists>k. i < length PS \<longrightarrow> cur (cs ! i) (PS ! i) k \<and> k < length (PS ! i) \<and> pdoc (PS ! i ! k) = d" for i
  proof (cases "i < length PS")
    case True
    then have "curs.behind (cs ! i) (PS ! i) d" "doc (cs ! i) \<noteq> endDoc" using b d e by (auto simp: behind_all_nth)
    from cur_doc_in [OF this] show ?thesis using d True by metis
  qed simp
  then obtain K where "\<forall>i. i < length PS \<longrightarrow> cur (cs ! i) (PS ! i) (K i) \<and> K i < length (PS ! i) \<and> pdoc (PS ! i ! K i) = d" by metis
  then show ?thesis using len by (auto simp: on_doc_def all_at_def)
qed

lemma on_doc_posting: "on_doc cs PS K d \<Longrightarrow> i < length PS \<Longrightarrow> posting_of (PS ! i) d = PS ! i ! K i"
  using posting_of_nth [of "cs ! i" "PS ! i" "K i"] by (auto simp: on_doc_def all_at_def)

lemma on_doc_doc: "on_doc cs PS K d \<Longrightarrow> i < length PS \<Longrightarrow> doc (cs ! i) = d"
  by (auto simp: on_doc_def all_at_def cur_def cur_at_def)

lemma on_doc_behind: "on_doc cs PS K d \<Longrightarrow> behind_all cs PS d"
  unfolding behind_all_nth curs.behind_def on_doc_def all_at_def using curs.keys_less by metis

lemma on_doc_in: "on_doc cs PS K d \<Longrightarrow> ps \<in> set PS \<Longrightarrow> d \<in> docs_of ps"
  by (force simp: on_doc_def docs_of_def in_set_conv_nth)

lemma phrase_on_doc:
  assumes o: "on_doc cs PS K d" and ok: "lists_ok PS" and s: "seq_ok PS seq"
  shows "\<exists>cs'. phraseMatch seq cs = Some (phrase_in PS d seq, cs') \<and> on_doc cs' PS K d"
proof -
  have "positions_ok (PS ! i ! K i)" if "i < length PS" for i
  proof -
    have "PS ! i \<in> set PS" "PS ! i ! K i \<in> set (PS ! i)" using o that by (simp_all add: on_doc_def)
    then show ?thesis using ok by (auto simp: lists_ok_def)
  qed
  then have sq: "\<forall>i \<in> set seq. i < length cs \<and> K i < length (PS ! i) \<and> positions_ok (PS ! i ! K i)"
    using o s by (auto simp: on_doc_def seq_ok_def)
  have "all_at cs (\<lambda>i. PS ! i) K" using o by (simp add: on_doc_def)
  from phraseMatch_at [OF this sq] s obtain cs' where
    c: "phraseMatch seq cs = Some (phrase_at (\<lambda>i. positions (PS ! i ! K i)) seq, cs')" "all_at cs' (\<lambda>i. PS ! i) K" "length cs' = length cs"
    by (auto simp: seq_ok_def)
  have "phrase_at (\<lambda>i. positions (PS ! i ! K i)) seq = phrase_in PS d seq"
    using on_doc_posting [OF o] s by (auto simp: phrase_in_def phrase_at_def seq_ok_def)
  then show ?thesis using c o by (auto simp: on_doc_def)
qed

lemma phrases_on_doc:
  "on_doc cs PS K d \<Longrightarrow> lists_ok PS \<Longrightarrow> \<forall>seq \<in> set phs. seq_ok PS seq \<Longrightarrow>
     \<exists>cs'. phrases_match phs cs = Some (\<forall>seq \<in> set phs. phrase_in PS d seq, cs') \<and> on_doc cs' PS K d"
proof (induction phs arbitrary: cs)
  case (Cons ph phs)
  from phrase_on_doc [OF Cons.prems(1,2), of ph] Cons.prems(3) obtain cs' where
    c: "phraseMatch ph cs = Some (phrase_in PS d ph, cs')" "on_doc cs' PS K d" by auto
  show ?case
  proof (cases "phrase_in PS d ph")
    case True
    then show ?thesis using Cons.IH [OF c(2) Cons.prems(2)] Cons.prems(3) c(1) by auto
  next
    case False
    then show ?thesis using c by auto
  qed
qed simp

lemma reach_at:
  "behind_all cs PS d \<Longrightarrow> \<exists>b cs'. reach d cs = Some (b, cs') \<and> behind_all cs' PS d
     \<and> (if b then \<forall>i < length PS. doc (cs' ! i) = d else \<exists>ps \<in> set PS. d \<notin> docs_of ps)"
proof (induction cs arbitrary: PS)
  case Nil
  then show ?case by (simp add: behind_all_def exI [of _ True])
next
  case (Cons c cs)
  obtain ps QS where p: "PS = ps # QS" "curs.behind c ps d" "behind_all cs QS d" using Cons.prems by (cases PS) (auto simp: behind_all_def)
  obtain c' where c': "advance d c = Some c'" "curs.behind c' ps d" "d \<le> doc c'" using seek [OF p(2)] by auto
  show ?case
  proof (cases "doc c' = d")
    case True
    obtain b cs' where r: "reach d cs = Some (b, cs')" "behind_all cs' QS d" "if b then \<forall>i < length QS. doc (cs' ! i) = d else \<exists>ps \<in> set QS. d \<notin> docs_of ps"
      using Cons.IH [OF p(3)] by blast
    have "behind_all (c' # cs') PS d" using c'(2) r(2) p(1) by (simp add: behind_all_def)
    moreover have "if b then \<forall>i < length PS. doc ((c' # cs') ! i) = d else \<exists>ps \<in> set PS. d \<notin> docs_of ps"
      using r(3) True p(1) by (auto simp: nth_Cons split: nat.splits if_splits)
    ultimately show ?thesis using c'(1) True r(1) by simp
  next
    case False
    have "d \<notin> docs_of ps" using cur_doc_least [OF c'(2), of d] c'(3) False by force
    moreover have "behind_all (c' # cs) PS d" using c'(2) p by (simp add: behind_all_def)
    ultimately show ?thesis using c'(1) False p(1) by (simp add: exI [of _ False])
  qed
qed

definition negs_behind :: "(cursor list \<times> nat list) list \<Rightarrow> (posting list list \<times> nat list) list \<Rightarrow> 32 word \<Rightarrow> bool" where
  "negs_behind ns NS d \<longleftrightarrow> list_all2 (\<lambda>(cs, seq) (N, seq'). seq' = seq \<and> behind_all cs N d) ns NS"

definition negs_ok :: "(posting list list \<times> nat list) list \<Rightarrow> bool" where
  "negs_ok NS \<longleftrightarrow> (\<forall>(N, seq) \<in> set NS. lists_ok N \<and> seq_ok N seq)"

lemma excluded_at:
  "negs_behind ns NS d \<Longrightarrow> negs_ok NS \<Longrightarrow> d \<noteq> endDoc \<Longrightarrow>
     \<exists>ns'. excluded d ns = Some (\<exists>(N, seq) \<in> set NS. clause_in N seq d, ns') \<and> negs_behind ns' NS d"
proof (induction ns arbitrary: NS)
  case Nil
  then show ?case by (simp add: negs_behind_def)
next
  case (Cons n ns)
  obtain cs seq where n: "n = (cs, seq)" by (cases n)
  obtain N MS where N: "NS = (N, seq) # MS" "behind_all cs N d" "negs_behind ns MS d" using Cons.prems(1) n by (cases NS) (auto simp: negs_behind_def)
  have ok: "lists_ok N" "seq_ok N seq" "negs_ok MS" using Cons.prems(2) N(1) by (auto simp: negs_ok_def)
  obtain b cs' where r: "reach d cs = Some (b, cs')" "behind_all cs' N d" "if b then \<forall>i < length N. doc (cs' ! i) = d else \<exists>ps \<in> set N. d \<notin> docs_of ps"
    using reach_at [OF N(2)] by blast
  have "\<exists>cs''. (if b then if length seq = 1 then Some (True, cs') else phraseMatch seq cs' else Some (False, cs')) = Some (clause_in N seq d, cs'') \<and> behind_all cs'' N d"
  proof (cases b)
    case True
    then obtain K where K: "on_doc cs' N K d" using on_doc_exists [OF r(2) Cons.prems(3)] r(3) by auto
    then have all: "\<forall>ps \<in> set N. d \<in> docs_of ps" using on_doc_in by blast
    from phrase_on_doc [OF K ok(1,2)] obtain cs'' where "phraseMatch seq cs' = Some (phrase_in N d seq, cs'')" "on_doc cs'' N K d" by blast
    then show ?thesis using True all r(2) on_doc_behind by (auto simp: clause_in_def)
  next
    case False
    then show ?thesis using r by (auto simp: clause_in_def)
  qed
  then obtain cs'' where h: "(if b then if length seq = 1 then Some (True, cs') else phraseMatch seq cs' else Some (False, cs')) = Some (clause_in N seq d, cs'')"
    "behind_all cs'' N d" by blast
  obtain ns' where i: "excluded d ns = Some (\<exists>(N, seq) \<in> set MS. clause_in N seq d, ns')" "negs_behind ns' MS d"
    using Cons.IH [OF N(3) ok(3) Cons.prems(3)] by blast
  have x: "excluded d ((cs, seq) # ns) = (if clause_in N seq d then Some (True, (cs'', seq) # ns) else Some (\<exists>(N, seq) \<in> set MS. clause_in N seq d, (cs'', seq) # ns'))"
    using r(1) h(1) i(1) by simp
  show ?case
  proof (cases "clause_in N seq d")
    case True
    then have "negs_behind ((cs'', seq) # ns) NS d" using N h(2) by (simp add: negs_behind_def)
    then show ?thesis using x True n N(1) by auto
  next
    case False
    then have "negs_behind ((cs'', seq) # ns') NS d" using N(1) i(2) h(2) by (simp add: negs_behind_def)
    then show ?thesis using x False n N(1) by auto
  qed
qed


section \<open>The loop\<close>

fun scores_of :: "'s floats \<Rightarrow> 's \<Rightarrow> 's list \<Rightarrow> posting list list \<Rightarrow> 32 word \<Rightarrow> 's \<Rightarrow> 's" where
  "scores_of F norm (w # ws) (ps # PS) d s =
     (let t = of_uint F (length (ppos (posting_of ps d)))
      in scores_of F norm ws PS d (fadd F s (fdiv F (fmul F (fmul F w t) (lit F 22 10)) (fadd F t norm))))"
| "scores_of F norm _ _ d s = s"

definition hit_of :: "'s floats \<Rightarrow> 's index \<Rightarrow> 's plan \<Rightarrow> posting list list \<Rightarrow> 32 word \<Rightarrow> 's hit" where
  "hit_of F ix pl PS d =
     \<lparr>score = scores_of F (fadd F (normC1 ix) (fmul F (normC2 ix) (of_uint F (unat (dls ix ! unat d))))) (map idf (pterms pl)) PS d (of_uint F 0),
      hid = unat (ids ix ! unat d), hdoc = unat d\<rparr>"

lemma add_scores_at:
  "on_doc cs PS K d \<Longrightarrow> lists_ok PS \<Longrightarrow> add_scores F norm ws cs s = Some (scores_of F norm ws PS d s)"
proof (induction ws arbitrary: cs PS K s)
  case (Cons w ws)
  show ?case
  proof (cases cs)
    case Nil
    then have "PS = []" using Cons.prems by (simp add: on_doc_def)
    then show ?thesis by (simp add: Nil)
  next
    case c: (Cons c cs')
    then obtain ps QS where p: "PS = ps # QS" using Cons.prems(1) by (cases PS) (auto simp: on_doc_def)
    have k: "cur c ps (K 0)" "K 0 < length ps" "pdoc (ps ! K 0) = d" using Cons.prems(1) c p by (auto simp: on_doc_def all_at_def)
    have po: "posting_of ps d = ps ! K 0" using posting_of_nth [OF k(1,2)] k(3) by simp
    have "ps ! K 0 \<in> set ps" using k(2) by simp
    then have "positions_ok (ps ! K 0)" using Cons.prems(2) p by (simp add: lists_ok_def)
    then have t: "tf c = Some (ptf (ps ! K 0))" "unat (ptf (ps ! K 0)) = length (ppos (ps ! K 0))"
      using tf_at [OF k(1,2)] by (simp_all add: ptf_def positions_ok_def unat_of_nat)
    have "on_doc cs' QS (K \<circ> Suc) d" using Cons.prems(1) c p by (auto simp: on_doc_def all_at_def All_less_Suc2)
    from Cons.IH [OF this] Cons.prems(2) p show ?thesis using t po by (simp add: c lists_ok_def Let_def)
  qed
qed simp

definition index_ok :: "'s index \<Rightarrow> posting list list \<Rightarrow> bool" where
  "index_ok ix PS \<longleftrightarrow> (\<forall>ps \<in> set PS. \<forall>x \<in> docs_of ps. unat x < length (ids ix) \<and> unat x < length (dls ix))"

lemma make_hit_at:
  "on_doc cs PS K d \<Longrightarrow> lists_ok PS \<Longrightarrow> index_ok ix PS \<Longrightarrow> PS \<noteq> [] \<Longrightarrow> make_hit F ix pl cs d = Some (hit_of F ix pl PS d)"
proof -
  assume o: "on_doc cs PS K d" "lists_ok PS" "index_ok ix PS" "PS \<noteq> []"
  have "d \<in> docs_of (hd PS)" using on_doc_in [OF o(1)] o(4) by simp
  then have "unat d < length (ids ix) \<and> unat d < length (dls ix)" using o(3) hd_in_set [OF o(4)] by (auto simp: index_ok_def)
  then show ?thesis by (simp add: make_hit_def hit_of_def idx_def add_scores_at [OF o(1,2)])
qed

definition found :: "posting list list \<Rightarrow> nat list list \<Rightarrow> (posting list list \<times> nat list) list \<Rightarrow> nat \<Rightarrow> 32 word \<Rightarrow> 32 word \<Rightarrow> 32 word list" where
  "found PS phs NS lead lo hi = filter (\<lambda>x. lo \<le> x \<and> x < hi \<and> matches PS phs NS x) (map pdoc (PS ! lead))"

definition setting :: "'s index \<Rightarrow> posting list list \<Rightarrow> nat list list \<Rightarrow> (posting list list \<times> nat list) list \<Rightarrow> bool" where
  "setting ix PS phs NS \<longleftrightarrow> lists_ok PS \<and> index_ok ix PS \<and> negs_ok NS \<and> (\<forall>seq \<in> set phs. seq_ok PS seq)"

lemma visit_at:
  assumes o: "on_doc cs PS K d" and st: "setting ix PS (phrases pl) NS" and nb: "negs_behind ns NS d" and d: "d < endDoc" and l: "lead < length PS"
  shows "\<exists>cs' ns'. visit F ix pl lead d cs ns n t = Some (cs', ns', if matches PS (phrases pl) NS d then n + 1 else n,
      if matches PS (phrases pl) NS d then push (hit_of F ix pl PS d) t else t)
    \<and> negs_behind ns' NS d \<and> d < doc (cs' ! lead) \<and> behind_all cs' PS (doc (cs' ! lead))
    \<and> (\<forall>x \<in> docs_of (PS ! lead). d < x \<longrightarrow> doc (cs' ! lead) \<le> x)"
proof -
  have ok: "lists_ok PS" "index_ok ix PS" "negs_ok NS" "\<forall>seq \<in> set (phrases pl). seq_ok PS seq" using st by (simp_all add: setting_def)
  have ne: "d \<noteq> endDoc" "PS \<noteq> []" using d l by auto
  from phrases_on_doc [OF o ok(1,4)] obtain cs1 where p: "phrases_match (phrases pl) cs = Some (\<forall>seq \<in> set (phrases pl). phrase_in PS d seq, cs1)"
    "on_doc cs1 PS K d" by blast
  let ?P = "\<forall>seq \<in> set (phrases pl). phrase_in PS d seq" and ?X = "\<exists>(N, seq) \<in> set NS. clause_in N seq d"
  obtain ns1 where x: "excluded d ns = Some (?X, ns1)" "negs_behind ns1 NS d" using excluded_at [OF nb ok(3) ne(1)] by blast
  have m: "matches PS (phrases pl) NS d \<longleftrightarrow> ?P \<and> \<not> ?X" using on_doc_in [OF o] by (auto simp: matches_def)
  let ?ns = "if ?P then ns1 else ns"
  have e: "(if ?P then do { (x, ns) \<leftarrow> excluded d ns; Some (\<not> x, ns) } else Some (False, ns)) = Some (matches PS (phrases pl) NS d, ?ns)"
    using x(1) m by simp
  have h: "(if matches PS (phrases pl) NS d then do { h \<leftarrow> make_hit F ix pl cs1 d; Some (n + 1, push h t) } else Some (n, t))
      = Some (if matches PS (phrases pl) NS d then n + 1 else n, if matches PS (phrases pl) NS d then push (hit_of F ix pl PS d) t else t)"
    using make_hit_at [OF p(2) ok(1,2) ne(2)] by simp
  have len: "lead < length cs1" using p(2) l by (simp add: on_doc_def)
  have bl: "curs.behind (cs1 ! lead) (PS ! lead) d" using on_doc_behind [OF p(2)] l by (simp add: behind_all_nth)
  have dl: "doc (cs1 ! lead) = d" by (rule on_doc_doc [OF p(2) l])
  from curs.step_behind [OF bl] dl ne(1) obtain c where c: "cursor_next (cs1 ! lead) = Some c" "\<forall>e. d < e \<longrightarrow> curs.behind c (PS ! lead) e" "d < doc c" by auto
  let ?cs = "cs1[lead := c]"
  have "behind_all cs1 PS (doc c)" using behind_all_mono [OF on_doc_behind [OF p(2)]] c(3) by simp
  then have b: "behind_all ?cs PS (doc c)" using behind_all_update l c(2,3) by blast
  have "visit F ix pl lead d cs ns n t = Some (?cs, ?ns, if matches PS (phrases pl) NS d then n + 1 else n,
      if matches PS (phrases pl) NS d then push (hit_of F ix pl PS d) t else t)"
    unfolding visit_def p(1) Option.bind.bind_lunit prod.case e h using len c(1) by (simp add: idx_def)
  moreover have "negs_behind ?ns NS d" using x(2) nb by simp
  moreover have "\<forall>x \<in> docs_of (PS ! lead). d < x \<longrightarrow> doc c \<le> x" using c(2) cur_doc_least by blast
  ultimately show ?thesis using b c(3) len by (intro exI [of _ ?cs] exI [of _ ?ns]) simp
qed

lemma negs_behind_mono: "negs_behind ns NS d \<Longrightarrow> d \<le> e \<Longrightarrow> negs_behind ns NS e"
  unfolding negs_behind_def by (erule list_all2_mono) (auto intro: behind_all_mono)

lemma found_skip:
  assumes "d \<le> e" "\<And>x. d \<le> x \<Longrightarrow> x < e \<Longrightarrow> \<not> matches PS phs NS x"
  shows "found PS phs NS lead d hi = found PS phs NS lead e hi"
proof -
  have "d \<le> x \<and> x < hi \<and> matches PS phs NS x \<longleftrightarrow> e \<le> x \<and> x < hi \<and> matches PS phs NS x" for x
    using assms(1) assms(2) [of x] by fastforce
  then show ?thesis unfolding found_def by (simp only:)
qed

lemma found_first:
  assumes s: "sorted_wrt (<) (map pdoc (PS ! lead))" and d: "d \<in> docs_of (PS ! lead)" "d < hi" "d < e"
    and n: "\<And>x. x \<in> docs_of (PS ! lead) \<Longrightarrow> d < x \<Longrightarrow> e \<le> x"
  shows "found PS phs NS lead d hi = (if matches PS phs NS d then d # found PS phs NS lead e hi else found PS phs NS lead e hi)"
proof -
  let ?xs = "map pdoc (PS ! lead)"
  have "d \<in> set ?xs" using d(1) by (simp add: docs_of_def)
  then obtain as bs where x: "?xs = as @ d # bs" by (meson split_list)
  have o: "\<forall>a \<in> set as. a < d" "\<forall>b \<in> set bs. d < b" using s unfolding x by (auto simp: sorted_wrt_append)
  have ge: "\<forall>b \<in> set bs. e \<le> b"
  proof
    fix b assume b: "b \<in> set bs"
    then have "b \<in> docs_of (PS ! lead)" using arg_cong [OF x, of set] by (auto simp: docs_of_def)
    then show "e \<le> b" using n o(2) b by blast
  qed
  have none: "filter (\<lambda>y. c \<le> y \<and> y < hi \<and> matches PS phs NS y) as = []" if "d \<le> c" for c
    using o(1) that by (fastforce simp: filter_empty_conv)
  have same: "filter (\<lambda>y. d \<le> y \<and> y < hi \<and> matches PS phs NS y) bs = filter (\<lambda>y. e \<le> y \<and> y < hi \<and> matches PS phs NS y) bs"
    using o(2) ge by (intro filter_cong) auto
  have "\<not> e \<le> d" using d(3) by simp
  then show ?thesis using none [of d] none [of e] d(2,3) by (simp add: found_def x same)
qed

lemma exec_loop_at:
  assumes st: "setting ix PS (phrases pl) NS" and l: "lead < length PS" and rest: "set rest = {i. i < length PS \<and> i \<noteq> lead}"
  shows "behind_all cs PS (doc (cs ! lead)) \<Longrightarrow> negs_behind ns NS (doc (cs ! lead)) \<Longrightarrow>
    exec_loop F ix pl lead rest hi cs ns n t =
      Some (n + length (found PS (phrases pl) NS lead (doc (cs ! lead)) hi),
            foldl (\<lambda>t x. push x t) t (map (hit_of F ix pl PS) (found PS (phrases pl) NS lead (doc (cs ! lead)) hi)))"
proof (induction "unat endDoc - unat (doc (cs ! lead))" arbitrary: cs ns n t rule: less_induct)
  case less
  let ?d = "doc (cs ! lead)"
  let ?f = "\<lambda>d. found PS (phrases pl) NS lead d hi"
  have len: "lead < length cs" using less.prems(1) l by (simp add: behind_all_nth)
  have dec: "unat endDoc - unat e < unat endDoc - unat ?d" if "?d < e" for e :: "32 word"
  proof -
    have "unat ?d < unat e" "unat e \<le> unat endDoc" using that le_endDoc [of e] by (simp_all add: word_less_nat_alt word_le_nat_alt)
    then show ?thesis by simp
  qed
  show ?case
  proof (cases "?d < hi")
    case False
    then have "?f ?d = []" by (auto simp: found_def filter_empty_conv)
    then show ?thesis using False len by (subst exec_loop.simps) (simp add: idx_def)
  next
    case True
    have e: "?d < endDoc" using True le_endDoc [of hi] by simp
    have js: "\<forall>i \<in> set rest. i < length PS \<and> i \<noteq> lead" using rest by simp
    obtain a cs' where a: "align_rest rest lead ?d cs = Some (a, cs')" "case a of
        Aligned \<Rightarrow> behind_all cs' PS ?d \<and> doc (cs' ! lead) = ?d \<and> (\<forall>i \<in> set rest. doc (cs' ! i) = ?d)
          \<and> (\<forall>i. i \<notin> set rest \<longrightarrow> cs' ! i = cs ! i)
      | Exhausted \<Rightarrow> \<exists>ps \<in> set PS. \<forall>x \<in> docs_of ps. \<not> (?d \<le> x \<and> x < endDoc)
      | Passed \<Rightarrow> ?d < doc (cs' ! lead) \<and> behind_all cs' PS (doc (cs' ! lead))
          \<and> (\<forall>x. ?d \<le> x \<longrightarrow> x < doc (cs' ! lead) \<longrightarrow> (\<exists>ps \<in> set PS. x \<notin> docs_of ps))"
      using align_rest_at [OF less.prems(1) l refl js] by blast
    show ?thesis
    proof (cases a)
      case Exhausted
      then have "\<exists>ps \<in> set PS. \<forall>x \<in> docs_of ps. \<not> (?d \<le> x \<and> x < endDoc)" using a(2) by simp
      then have "\<not> matches PS (phrases pl) NS x" if "?d \<le> x" "x < hi" for x
        using that le_endDoc [of hi] unfolding matches_def by (meson less_le_trans)
      then have "?f ?d = []" by (auto simp: found_def filter_empty_conv)
      then show ?thesis using True len a(1) Exhausted by (subst exec_loop.simps) (simp add: idx_def)
    next
      case Passed
      let ?e = "doc (cs' ! lead)"
      have p: "?d < ?e" "behind_all cs' PS ?e" "\<And>x. ?d \<le> x \<Longrightarrow> x < ?e \<Longrightarrow> \<exists>ps \<in> set PS. x \<notin> docs_of ps" using a(2) Passed by auto
      have "\<not> matches PS (phrases pl) NS x" if "?d \<le> x" "x < ?e" for x using p(3) [OF that] unfolding matches_def by blast
      then have f: "?f ?d = ?f ?e" using p(1) by (intro found_skip) auto
      have nb: "negs_behind ns NS ?e" by (rule negs_behind_mono [OF less.prems(2)]) (use p(1) in simp)
      have "exec_loop F ix pl lead rest hi cs ns n t = exec_loop F ix pl lead rest hi cs' ns n t"
        using True len a(1) Passed by (subst exec_loop.simps) (simp add: idx_def)
      then show ?thesis using less.hyps [OF dec [OF p(1)] p(2) nb] f by simp
    next
      case Aligned
      have p: "behind_all cs' PS ?d" "doc (cs' ! lead) = ?d" "\<forall>i \<in> set rest. doc (cs' ! i) = ?d" using a(2) Aligned by auto
      have all: "\<forall>i < length PS. doc (cs' ! i) = ?d" using p(2,3) rest by auto
      obtain K where K: "on_doc cs' PS K ?d" using on_doc_exists [OF p(1) less_imp_neq [OF e] all] by blast
      let ?m = "matches PS (phrases pl) NS ?d"
      obtain cs2 ns2 where v: "visit F ix pl lead ?d cs' ns n t = Some (cs2, ns2, if ?m then n + 1 else n, if ?m then push (hit_of F ix pl PS ?d) t else t)"
        "negs_behind ns2 NS ?d" "?d < doc (cs2 ! lead)" "behind_all cs2 PS (doc (cs2 ! lead))" "\<forall>x \<in> docs_of (PS ! lead). ?d < x \<longrightarrow> doc (cs2 ! lead) \<le> x"
        using visit_at [OF K st less.prems(2) e l] by blast
      let ?e = "doc (cs2 ! lead)"
      have nb: "negs_behind ns2 NS ?e" by (rule negs_behind_mono [OF v(2)]) (use v(3) in simp)
      have x: "exec_loop F ix pl lead rest hi cs ns n t = exec_loop F ix pl lead rest hi cs2 ns2 (if ?m then n + 1 else n) (if ?m then push (hit_of F ix pl PS ?d) t else t)"
        using True len a(1) Aligned v(1) by (subst exec_loop.simps) (simp add: idx_def)
      have f: "?f ?d = (if ?m then ?d # ?f ?e else ?f ?e)"
      proof (rule found_first [OF _ _ True v(3)])
        have "cur (cs' ! lead) (PS ! lead) (K lead)" using K l by (simp add: on_doc_def all_at_def)
        then show "sorted_wrt (<) (map pdoc (PS ! lead))" using curs.at_sorted by blast
        show "?d \<in> docs_of (PS ! lead)" using on_doc_in [OF K] l by simp
      qed (use v(5) in blast)
      show ?thesis using less.hyps [OF dec [OF v(3)] v(4) nb] x f by simp
    qed
  qed
qed

end
