(* ===== verification/Search_Query.thy ===== *)
theory Search_Query
  imports Search_Exec Search_Token
begin

text \<open>
  Queries end to end (\<open>buildPlan\<close> and \<open>search\<close> in \<open>search/impl/go-1/query.go\<close>): from the query string over the
  dictionary to the ranked hits, with the split of large queries into document ranges. The lemmas show that the
  answer is the number of documents the query describes, and the best of them in order.
\<close>

section \<open>Plans\<close>

text \<open>The terms of one clause: \<open>Some None\<close> when a term is not in the dictionary. The terms collected so far, the map
  from terms to their indices, and the sequence of indices.\<close>

fun plan_tokens :: "'s index \<Rightarrow> (termEntry \<Rightarrow> 'a) \<Rightarrow> bytes list \<Rightarrow> 'a list \<Rightarrow> (bytes \<rightharpoonup> nat) \<Rightarrow> nat list
    \<Rightarrow> ('a list \<times> (bytes \<rightharpoonup> nat) \<times> nat list) option option" where
  "plan_tokens ix mk [] es m seq = Some (Some (es, m, seq))"
| "plan_tokens ix mk (t # ts) es m seq =
     (case m t of
        Some i \<Rightarrow> plan_tokens ix mk ts es m (seq @ [i])
      | None \<Rightarrow> do {
          r \<leftarrow> index_lookup ix t;
          case r of
            None \<Rightarrow> Some None
          | Some e \<Rightarrow> plan_tokens ix mk ts (es @ [mk e]) (m(t \<mapsto> length es)) (seq @ [length es]) })"

definition idf_of :: "'s floats \<Rightarrow> 's index \<Rightarrow> 32 word \<Rightarrow> 's" where
  "idf_of F ix f =
     (let n = of_uint F (unat (ixn ix)); d = of_uint F (unat f); half = lit F 5 10
      in flog F (fadd F (lit F 1 1) (fdiv F (fadd F (fsub F n d) half) (fadd F d half))))"

definition plan_term :: "'s floats \<Rightarrow> 's index \<Rightarrow> termEntry \<Rightarrow> 's planTerm" where
  "plan_term F ix e = \<lparr>pentry = e, idf = idf_of F ix (edf e)\<rparr>"

fun plan_pos :: "'s floats \<Rightarrow> 's index \<Rightarrow> clause list \<Rightarrow> 's planTerm list \<Rightarrow> (bytes \<rightharpoonup> nat) \<Rightarrow> nat list list
    \<Rightarrow> ('s planTerm list \<times> nat list list) option option" where
  "plan_pos F ix [] ts m phs = Some (Some (ts, phs))"
| "plan_pos F ix (c # cs) ts m phs =
     (if neg c then plan_pos F ix cs ts m phs
      else do {
        r \<leftarrow> plan_tokens ix (plan_term F ix) (tokens c) ts m [];
        case r of
          None \<Rightarrow> Some None
        | Some (ts, m, seq) \<Rightarrow> plan_pos F ix cs ts m (if length seq > 1 then phs @ [seq] else phs) })"

fun plan_neg :: "'s index \<Rightarrow> clause list \<Rightarrow> negPlan list \<Rightarrow> negPlan list option" where
  "plan_neg ix [] ns = Some ns"
| "plan_neg ix (c # cs) ns =
     (if \<not> neg c then plan_neg ix cs ns
      else do {
        r \<leftarrow> plan_tokens ix (\<lambda>e. e) (tokens c) [] Map.empty [];
        plan_neg ix cs (case r of None \<Rightarrow> ns | Some (es, m, seq) \<Rightarrow> ns @ [\<lparr>nuniq = es, nseq = seq\<rparr>]) })"

definition buildPlan :: "unicode \<Rightarrow> 's floats \<Rightarrow> 's index \<Rightarrow> bytes \<Rightarrow> 's plan option option" where
  "buildPlan u F ix q = do {
     let clauses = parseQuery u q;
     r \<leftarrow> plan_pos F ix clauses [] Map.empty [];
     case r of
       None \<Rightarrow> Some None
     | Some (ts, phs) \<Rightarrow>
         if \<not> list_ex (\<lambda>c. \<not> neg c) clauses then Some None
         else do { ns \<leftarrow> plan_neg ix clauses []; Some (Some \<lparr>pterms = ts, phrases = phs, pnegs = ns\<rparr>) } }"

section \<open>Search\<close>

definition min_df :: "'s plan \<Rightarrow> 32 word option" where
  "min_df pl = (case map (edf \<circ> pentry) (pterms pl) of [] \<Rightarrow> None | f # fs \<Rightarrow> Some (foldl min f (f # fs)))"

definition range_bound :: "64 word \<Rightarrow> nat \<Rightarrow> nat \<Rightarrow> 32 word" where
  "range_bound n p parts = ucast ((ucast (ucast n :: 32 word) * of_nat p :: 64 word) div of_nat parts)"

text \<open>The parts run in their own goroutines and share no state; their results are collected in order.\<close>

fun exec_parts :: "'s floats \<Rightarrow> (32 word list \<Rightarrow> nat list) \<Rightarrow> ('s :: linorder) index \<Rightarrow> 's plan \<Rightarrow> nat \<Rightarrow> nat \<Rightarrow> nat list
    \<Rightarrow> (nat \<times> 's hit list) list option" where
  "exec_parts F srt ix pl k parts [] = Some []"
| "exec_parts F srt ix pl k parts (p # ps) = do {
     r \<leftarrow> exec_plan F srt ix pl (range_bound (ixn ix) p parts) (range_bound (ixn ix) (p + 1) parts) k;
     rs \<leftarrow> exec_parts F srt ix pl k parts ps;
     Some (r # rs) }"

definition search_plan :: "'s floats \<Rightarrow> (32 word list \<Rightarrow> nat list) \<Rightarrow> nat \<Rightarrow> ('s :: linorder) index \<Rightarrow> 's plan \<Rightarrow> nat
    \<Rightarrow> (nat \<times> 's hit list) option" where
  "search_plan F srt procs ix pl k = do {
     f \<leftarrow> min_df pl;
     let unit = (if phrases pl \<noteq> [] \<or> pnegs pl \<noteq> [] then 2048 else 16384);
     let parts = min (min procs (unat (f div unit))) 8;
     if parts \<le> 1 then exec_plan F srt ix pl 0 endDoc k
     else do {
       rs \<leftarrow> exec_parts F srt ix pl k parts [0..<parts];
       Some (sum_list (map fst rs), heap (foldl (\<lambda>t x. push x t) \<lparr>kmax = k, heap = []\<rparr> (concat (map snd rs)))) } }"

definition search :: "unicode \<Rightarrow> 's floats \<Rightarrow> (32 word list \<Rightarrow> nat list) \<Rightarrow> ('s hit list \<Rightarrow> 's hit list) \<Rightarrow> nat \<Rightarrow> ('s :: linorder) index
    \<Rightarrow> bytes \<Rightarrow> nat \<Rightarrow> (nat \<times> 's hit list) option" where
  "search u F srt sortHits procs ix q k = do {
     r \<leftarrow> buildPlan u F ix q;
     case r of
       None \<Rightarrow> Some (0, [])
     | Some pl \<Rightarrow> do { (n, hits) \<leftarrow> search_plan F srt procs ix pl k; Some (n, sortHits hits) } }"

section \<open>One range\<close>

definition matching :: "posting list list \<Rightarrow> nat list list \<Rightarrow> (posting list list \<times> nat list) list \<Rightarrow> 32 word \<Rightarrow> 32 word \<Rightarrow> 32 word list" where
  "matching PS phs NS lo hi = sorted_list_of_set {x. lo \<le> x \<and> x < hi \<and> matches PS phs NS x}"

definition sorts :: "(32 word list \<Rightarrow> nat list) \<Rightarrow> bool" where
  "sorts srt \<longleftrightarrow> (\<forall>ds. mset (srt ds) = mset [0..<length ds])"

lemma init_all_at: "list_all2 laid_out es PS \<Longrightarrow> \<exists>cs. init_all es = Some cs \<and> behind_all cs PS d"
proof (induction es arbitrary: PS)
  case (Cons e es)
  obtain ps QS where p: "PS = ps # QS" "laid_out e ps" "list_all2 laid_out es QS" using Cons.prems by (cases PS) auto
  obtain c where c: "cursor_init e = Some c" "cur c ps 0" using cursor_init_at [OF p(2)] by blast
  obtain cs where cs: "init_all es = Some cs" "behind_all cs QS d" using Cons.IH [OF p(3)] by blast
  have "curs.behind c ps d" using c(2) by (auto simp: curs.behind_def)
  then show ?case using c(1) cs p(1) by (simp add: behind_all_def)
qed (simp add: behind_all_def)

definition negs_laid :: "negPlan list \<Rightarrow> (posting list list \<times> nat list) list \<Rightarrow> bool" where
  "negs_laid ns NS \<longleftrightarrow> list_all2 (\<lambda>n (N, seq). nseq n = seq \<and> list_all2 laid_out (nuniq n) N) ns NS"

lemma init_negs_at: "negs_laid ns NS \<Longrightarrow> \<exists>xs. init_negs ns = Some xs \<and> negs_behind xs NS d"
proof (induction ns arbitrary: NS)
  case (Cons n ns)
  obtain N MS where p: "NS = (N, nseq n) # MS" "list_all2 laid_out (nuniq n) N" "negs_laid ns MS" using Cons.prems by (cases NS) (auto simp: negs_laid_def)
  obtain cs where "init_all (nuniq n) = Some cs" "behind_all cs N d" using init_all_at [OF p(2)] by blast
  moreover obtain xs where "init_negs ns = Some xs" "negs_behind xs MS d" using Cons.IH [OF p(3)] by blast
  ultimately show ?case using p(1) by (simp add: negs_behind_def)
qed (simp add: negs_laid_def negs_behind_def)

lemma found_matching:
  assumes l: "lead < length PS" and s: "sorted_wrt (<) (map pdoc (PS ! lead))"
  shows "found PS phs NS lead lo hi = matching PS phs NS lo hi"
proof -
  let ?A = "{x. lo \<le> x \<and> x < hi \<and> matches PS phs NS x}"
  have "x \<in> docs_of (PS ! lead)" if "matches PS phs NS x" for x using that l by (simp add: matches_def)
  then have "set (found PS phs NS lead lo hi) = ?A" by (auto simp: found_def docs_of_def)
  moreover have "sorted_wrt (<) (found PS phs NS lead lo hi)" using s by (simp add: found_def sorted_wrt_filter)
  ultimately show ?thesis unfolding matching_def
    by (metis finite_code sorted_list_of_set.idem_if_sorted_distinct strict_sorted_iff)
qed

definition plan_laid :: "'s plan \<Rightarrow> posting list list \<Rightarrow> (posting list list \<times> nat list) list \<Rightarrow> bool" where
  "plan_laid pl PS NS \<longleftrightarrow> PS \<noteq> [] \<and> list_all2 laid_out (map pentry (pterms pl)) PS \<and> negs_laid (pnegs pl) NS"

lemma exec_at:
  assumes p: "plan_laid pl PS NS" and st: "setting ix PS (phrases pl) NS" and so: "sorts srt"
  shows "exec_plan F srt ix pl lo hi k = Some (length (matching PS (phrases pl) NS lo hi),
    heap (foldl (\<lambda>t x. push x t) \<lparr>kmax = k, heap = []\<rparr> (map (hit_of F ix pl PS) (matching PS (phrases pl) NS lo hi))))"
proof -
  have pl: "PS \<noteq> []" "list_all2 laid_out (map pentry (pterms pl)) PS" "negs_laid (pnegs pl) NS" using p by (simp_all add: plan_laid_def)
  obtain cs where cs: "init_all (map pentry (pterms pl)) = Some cs" "behind_all cs PS 0" using init_all_at [OF pl(2)] by blast
  let ?o = "srt (map df cs)"
  have len: "length cs = length PS" using cs(2) by (simp add: behind_all_nth)
  have om: "mset ?o = mset [0..<length PS]" using so len by (simp add: sorts_def)
  then have os: "set ?o = {0..<length PS}" "distinct ?o" using mset_eq_setD [OF om] mset_eq_imp_distinct_iff [OF om] by auto
  obtain lead rest where o: "?o = lead # rest" using os(1) pl(1) by (cases ?o) auto
  have os': "insert lead (set rest) = {0..<length PS}" "lead \<notin> set rest" using os by (simp_all add: o)
  have l: "lead < length PS" "set rest = {i. i < length PS \<and> i \<noteq> lead}"
  proof -
    have "lead \<in> {0..<length PS}" unfolding os'(1) [symmetric] by simp
    then show "lead < length PS" by simp
    show "set rest = {i. i < length PS \<and> i \<noteq> lead}"
    proof (rule set_eqI)
      fix i
      have "i \<in> insert lead (set rest) \<longleftrightarrow> i < length PS" unfolding os'(1) by simp
      then show "i \<in> set rest \<longleftrightarrow> i \<in> {i. i < length PS \<and> i \<noteq> lead}" using os'(2) by (cases "i = lead") (simp_all only: insert_iff mem_Collect_eq simp_thms)
    qed
  qed
  have b0: "curs.behind (cs ! lead) (PS ! lead) 0" using cs(2) l(1) by (simp add: behind_all_nth)
  obtain c where c: "advance lo (cs ! lead) = Some c" "curs.behind c (PS ! lead) lo" "lo \<le> doc c" using seek [OF b0, of lo] by auto
  let ?cs = "cs[lead := c]"
  have dl: "?cs ! lead = c" using l(1) len by simp
  have "behind_all cs PS (doc c)" using behind_all_mono [OF cs(2)] by simp
  then have b: "behind_all ?cs PS (doc (?cs ! lead))"
    unfolding dl using behind_all_update l(1) curs.behind_mono [OF c(2,3)] by blast
  obtain xs where xs: "init_negs (pnegs pl) = Some xs" "negs_behind xs NS (doc (?cs ! lead))" using init_negs_at [OF pl(3)] by blast
  have s: "sorted_wrt (<) (map pdoc (PS ! lead))" using b0 curs.at_sorted unfolding curs.behind_def by blast
  have "\<not> matches PS (phrases pl) NS x" if "lo \<le> x" "x < doc c" for x
  proof
    assume "matches PS (phrases pl) NS x"
    then have "x \<in> docs_of (PS ! lead)" using l(1) by (simp add: matches_def)
    then show False using cur_doc_least [OF c(2) _ that(1)] that(2) by force
  qed
  then have f: "found PS (phrases pl) NS lead (doc (?cs ! lead)) hi = matching PS (phrases pl) NS lo hi"
    using found_skip [OF c(3)] found_matching [OF l(1) s] dl by metis
  show ?thesis
    using exec_loop_at [OF st l b xs(2), where F = F and hi = hi and n = 0 and t = "\<lparr>kmax = k, heap = []\<rparr>"] f
    by (simp add: exec_plan_def cs(1) xs(1) o idx_def l(1) len c(1) Let_def)
qed


section \<open>Ranges\<close>

lemma matching_append:
  assumes "lo \<le> mid" "mid \<le> hi"
  shows "matching PS phs NS lo hi = matching PS phs NS lo mid @ matching PS phs NS mid hi"
proof -
  let ?S = "\<lambda>a b. {x. a \<le> x \<and> x < b \<and> matches PS phs NS x}"
  have fin: "finite (?S a b)" for a b by simp
  have "set (matching PS phs NS lo hi) = set (matching PS phs NS lo mid @ matching PS phs NS mid hi)"
    using assms by (auto simp: matching_def)
  moreover have "sorted_wrt (<) (matching PS phs NS lo mid @ matching PS phs NS mid hi)"
    by (auto simp: matching_def sorted_wrt_append)
  moreover have "sorted_wrt (<) (matching PS phs NS lo hi)" by (simp add: matching_def)
  ultimately show ?thesis by (metis sorted_distinct_set_unique strict_sorted_iff)
qed

lemma matching_parts:
  "\<forall>p < m. r p \<le> (r (p + 1) :: 32 word) \<Longrightarrow> concat (map (\<lambda>p. matching PS phs NS (r p) (r (p + 1))) [0..<m]) = matching PS phs NS (r 0) (r m)"
proof (induction m)
  case 0
  have none: "\<not> (r 0 \<le> x \<and> x < r 0 \<and> matches PS phs NS x)" for x by auto
  then show ?case by (simp add: matching_def none)
next
  case (Suc m)
  have up: "r 0 \<le> r k" if "k \<le> Suc m" for k
    using that
  proof (induction k)
    case (Suc j)
    then have "r j \<le> r (j + 1)" using Suc.prems \<open>\<forall>p < Suc m. r p \<le> r (p + 1)\<close> by simp
    then show ?case using Suc by simp
  qed simp
  have "matching PS phs NS (r 0) (r (Suc m)) = matching PS phs NS (r 0) (r m) @ matching PS phs NS (r m) (r (Suc m))"
    by (rule matching_append) (use up [of m] Suc.prems [rule_format, of m] in simp_all)
  then show ?case using Suc by simp
qed

lemma unat_range_bound:
  assumes "p \<le> parts" "parts \<le> 8" "0 < parts"
  shows "unat (range_bound n p parts) = unat (ucast n :: 32 word) * p div parts"
proof -
  let ?N = "unat (ucast n :: 32 word)"
  have N: "?N < 2 ^ 32" using unsigned_less [of "ucast n :: 32 word"] by simp
  have "?N * p \<le> ?N * 8" using assms by simp
  moreover have "?N * 8 < 2 ^ 64" using N by simp
  ultimately have a: "?N * p < 2 ^ 64" by (rule le_less_trans)
  have p: "unat (of_nat p :: 64 word) = p" "unat (of_nat parts :: 64 word) = parts" using assms by (simp_all add: unat_of_nat)
  have m: "unat (ucast (ucast n :: 32 word) * of_nat p :: 64 word) = ?N * p"
    using a p(1) by (simp add: unat_word_ariths unsigned_ucast_eq take_bit_eq_mod)
  have "?N * p div parts \<le> ?N" using assms(1,3) by (metis div_le_mono div_mult_self_is_m mult_le_mono2)
  then have q: "?N * p div parts < 2 ^ 32" using N by simp
  have "unat (ucast (w div v) :: 32 word) = unat w div unat v mod 2 ^ 32" for w v :: "64 word"
    by (simp add: unsigned_ucast_eq take_bit_eq_mod unat_div)
  then show ?thesis using q by (simp only: range_bound_def m p(2) mod_less)
qed

lemma range_bound_ends:
  assumes "parts \<le> 8" "0 < parts"
  shows "range_bound n 0 parts = 0" "range_bound n parts parts = ucast n"
proof -
  have "unat (range_bound n 0 parts) = 0" "unat (range_bound n parts parts) = unat (ucast n :: 32 word)"
    using unat_range_bound [of 0 parts n] unat_range_bound [of parts parts n] assms by simp_all
  then show "range_bound n 0 parts = 0" "range_bound n parts parts = ucast n" by (simp_all add: unsigned_word_eqI word_unat_eq_iff)
qed

lemma range_bound_mono: "p < parts \<Longrightarrow> parts \<le> 8 \<Longrightarrow> range_bound n p parts \<le> range_bound n (p + 1) parts"
  by (simp add: word_le_nat_alt unat_range_bound div_le_mono)

lemma exec_parts_at:
  assumes p: "plan_laid pl PS NS" and st: "setting ix PS (phrases pl) NS" and so: "sorts srt"
  shows "exec_parts F srt ix pl k parts ps = Some (map (\<lambda>p. let M = matching PS (phrases pl) NS (range_bound (ixn ix) p parts) (range_bound (ixn ix) (p + 1) parts)
      in (length M, heap (foldl (\<lambda>t x. push x t) \<lparr>kmax = k, heap = []\<rparr> (map (hit_of F ix pl PS) M)))) ps)"
  using exec_at [OF assms] by (induction ps) (simp_all add: Let_def)

lemma search_plan_at:
  assumes p: "plan_laid pl PS NS" and st: "setting ix PS (phrases pl) NS" and so: "sorts srt"
    and n: "\<forall>ps \<in> set PS. \<forall>x \<in> docs_of ps. x < ucast (ixn ix)" and k: "0 < k"
  shows "\<exists>hs. search_plan F srt procs ix pl k = Some (length (matching PS (phrases pl) NS 0 endDoc), hs)
    \<and> best k (mset (map (hit_of F ix pl PS) (matching PS (phrases pl) NS 0 endDoc))) (mset hs)"
proof -
  let ?M = "matching PS (phrases pl) NS" and ?h = "hit_of F ix pl PS"
  let ?top = "\<lambda>xs. heap (foldl (\<lambda>t x. push x t) \<lparr>kmax = k, heap = []\<rparr> xs)"
  have "pterms pl \<noteq> []" using p by (auto simp: plan_laid_def)
  then obtain f where f: "min_df pl = Some f" by (cases "pterms pl") (auto simp: min_df_def)
  let ?unit = "if phrases pl \<noteq> [] \<or> pnegs pl \<noteq> [] then 2048 else 16384 :: 32 word"
  let ?parts = "min (min procs (unat (f div ?unit))) 8"
  show ?thesis
  proof (cases "?parts \<le> 1")
    case True
    have "search_plan F srt procs ix pl k = exec_plan F srt ix pl 0 endDoc k"
      unfolding search_plan_def f Option.bind.bind_lunit Let_def if_P [OF True] ..
    then show ?thesis using exec_at [OF p st so, where F = F and lo = 0 and hi = endDoc and k = k] conjunct1 [OF top_of_parts [OF k, of "map ?h (?M 0 endDoc)" "[]"]] by simp
  next
    case False
    let ?r = "\<lambda>p. range_bound (ixn ix) p ?parts"
    let ?Ms = "map (\<lambda>p. ?M (?r p) (?r (p + 1))) [0..<?parts]"
    have b: "?parts \<le> 8" "0 < ?parts" using False by auto
    have cc: "concat ?Ms = ?M (?r 0) (?r ?parts)"
      by (rule matching_parts) (use range_bound_mono [OF _ b(1)] in simp)
    have all: "?M (?r 0) (?r ?parts) = ?M 0 endDoc"
    proof -
      obtain ps where ps: "ps \<in> set PS" using p by (cases PS) (auto simp: plan_laid_def)
      have "x < ucast (ixn ix)" "x < endDoc" if "matches PS (phrases pl) NS x" for x
        using that n ps le_endDoc [of "ucast (ixn ix)"] by (auto simp: matches_def intro: less_le_trans)
      then have "{x. ?r 0 \<le> x \<and> x < ?r ?parts \<and> matches PS (phrases pl) NS x} = {x. 0 \<le> x \<and> x < endDoc \<and> matches PS (phrases pl) NS x}"
        unfolding range_bound_ends [OF b] by auto
      then show ?thesis by (simp only: matching_def)
    qed
    let ?rs = "map (\<lambda>M. (length M, ?top (map ?h M))) ?Ms"
    have rs: "exec_parts F srt ix pl k ?parts [0..<?parts] = Some ?rs"
      unfolding exec_parts_at [OF p st so] Let_def map_map comp_def ..
    have "sum_list (map fst ?rs) = length (concat ?Ms)" by (simp add: length_concat comp_def)
    moreover have "map snd ?rs = map ?top (map (map ?h) ?Ms)" by simp
    ultimately have s: "search_plan F srt procs ix pl k = Some (length (concat ?Ms), ?top (concat (map ?top (map (map ?h) ?Ms))))"
      unfolding search_plan_def f Option.bind.bind_lunit Let_def if_not_P [OF False] rs by (simp only:)
    have "best k (mset (concat (map (map ?h) ?Ms))) (mset (?top (concat (map ?top (map (map ?h) ?Ms)))))"
      using top_of_parts [OF k, of "[]" "map (map ?h) ?Ms"] by (rule conjunct2)
    then show ?thesis using s unfolding map_concat [symmetric] cc all by blast
  qed
qed

end
