(* ===== verification/Search_Answers.thy ===== *)
theory Search_Answers
  imports Search_Query
begin

text \<open>
  What a query string asks of the indexed documents, and that \<open>buildPlan\<close> turns it into a plan with this meaning.
  The dictionary is abstracted to a map from terms to their postings.
\<close>

section \<open>The meaning of a query\<close>

definition token_phrase :: "(bytes \<rightharpoonup> posting list) \<Rightarrow> 32 word \<Rightarrow> bytes list \<Rightarrow> bool" where
  "token_phrase post d ts \<longleftrightarrow> (\<exists>p. \<forall>j < length ts. p + int j \<in> set (positions (posting_of (the (post (ts ! j))) d)))"

text \<open>All terms of the clause occur in the document, at consecutive positions when there are several.\<close>

definition clause_holds :: "(bytes \<rightharpoonup> posting list) \<Rightarrow> 32 word \<Rightarrow> bytes list \<Rightarrow> bool" where
  "clause_holds post d ts \<longleftrightarrow> (\<forall>t \<in> set ts. \<exists>ps. post t = Some ps \<and> d \<in> docs_of ps) \<and> (length ts = 1 \<or> token_phrase post d ts)"

definition answers :: "(bytes \<rightharpoonup> posting list) \<Rightarrow> clause list \<Rightarrow> 32 word \<Rightarrow> bool" where
  "answers post cs d \<longleftrightarrow> (\<exists>c \<in> set cs. \<not> neg c) \<and> (\<forall>c \<in> set cs. clause_holds post d (tokens c) = (\<not> neg c))"

definition index_models :: "'s index \<Rightarrow> (bytes \<rightharpoonup> posting list) \<Rightarrow> bool" where
  "index_models ix post \<longleftrightarrow> (\<forall>t. case post t of
      None \<Rightarrow> index_lookup ix t = Some None
    | Some ps \<Rightarrow> \<exists>e. index_lookup ix t = Some (Some e) \<and> laid_out e ps)"

section \<open>Terms and indices\<close>

text \<open>The terms in the order of their first occurrence.\<close>

definition uniq :: "bytes list \<Rightarrow> bytes list \<Rightarrow> bytes list" where
  "uniq us ts = foldl (\<lambda>us t. if t \<in> set us then us else us @ [t]) us ts"

definition numbering :: "bytes list \<Rightarrow> (bytes \<rightharpoonup> nat)" where
  "numbering us = map_of (zip us [0..<length us])"

definition ent :: "'s index \<Rightarrow> bytes \<Rightarrow> termEntry" where
  "ent ix t = the (the (index_lookup ix t))"

lemma uniq_prefix: "\<exists>vs. uniq us ts = us @ vs"
proof (induction ts arbitrary: us)
  case (Cons t ts)
  then show ?case by (cases "t \<in> set us") (auto simp: uniq_def, metis append_assoc)
qed (simp add: uniq_def)

lemma uniq_append: "uniq us (ts @ rs) = uniq (uniq us ts) rs"
  by (simp add: uniq_def)

lemma uniq_Cons: "uniq us (t # ts) = uniq (if t \<in> set us then us else us @ [t]) ts"
  by (simp add: uniq_def)

lemma set_uniq: "set (uniq us ts) = set us \<union> set ts"
  by (induction ts arbitrary: us) (auto simp: uniq_Cons, auto simp: uniq_def)

lemma distinct_uniq: "distinct us \<Longrightarrow> distinct (uniq us ts)"
  by (induction ts arbitrary: us) (auto simp: uniq_Cons, auto simp: uniq_def)

lemma numbering_snoc: "t \<notin> set us \<Longrightarrow> (numbering us)(t \<mapsto> length us) = numbering (us @ [t])"
proof -
  assume t: "t \<notin> set us"
  have "map_of (zip us [0..<length us]) t \<noteq> Some i" for i using t by (auto dest!: map_of_SomeD set_zip_leftD)
  then show ?thesis by (auto simp: numbering_def map_add_def fun_eq_iff split: option.splits)
qed

lemma numbering_Some: "distinct us \<Longrightarrow> t \<in> set us \<Longrightarrow> \<exists>i. numbering us t = Some i \<and> i < length us \<and> us ! i = t"
  by (metis (no_types, lifting) add_0 diff_zero in_set_conv_nth length_upt map_of_zip_nth nth_upt numbering_def)

lemma numbering_None: "t \<notin> set us \<Longrightarrow> numbering us t = None"
  by (simp add: numbering_def map_of_zip_is_None)

definition known :: "(bytes \<rightharpoonup> posting list) \<Rightarrow> bytes list \<Rightarrow> bool" where
  "known post ts \<longleftrightarrow> (\<forall>t \<in> set ts. post t \<noteq> None)"

lemma known_simps [simp]: "known post []" "known post (t # ts) \<longleftrightarrow> post t \<noteq> None \<and> known post ts" "known post (us @ ts) \<longleftrightarrow> known post us \<and> known post ts"
  by (auto simp: known_def)

lemma known_uniq: "known post us \<Longrightarrow> known post ts \<Longrightarrow> known post (uniq us ts)"
  by (auto simp: known_def set_uniq)

lemma lookup_known: "index_models ix post \<Longrightarrow> post t = Some ps \<Longrightarrow> index_lookup ix t = Some (Some (ent ix t)) \<and> laid_out (ent ix t) ps"
  unfolding index_models_def ent_def by (drule spec [of _ t]) auto

lemma lookup_unknown: "index_models ix post \<Longrightarrow> post t = None \<Longrightarrow> index_lookup ix t = Some None"
  unfolding index_models_def by (drule spec [of _ t]) simp

lemma plan_tokens_at:
  "index_models ix post \<Longrightarrow> distinct us \<Longrightarrow> known post us \<Longrightarrow>
     (if known post ts
      then \<exists>s. refers (uniq us ts) s ts \<and> plan_tokens ix mk ts (map (mk \<circ> ent ix) us) (numbering us) seq
          = Some (Some (map (mk \<circ> ent ix) (uniq us ts), numbering (uniq us ts), seq @ s))
      else plan_tokens ix mk ts (map (mk \<circ> ent ix) us) (numbering us) seq = Some None)"
proof (induction ts arbitrary: us seq)
  case Nil
  then show ?case by (simp add: uniq_def refers_def)
next
  case (Cons t ts)
  have step: ?case if us': "distinct vs" "known post vs" "uniq us (t # ts) = uniq vs ts" "i < length vs" "vs ! i = t" "post t \<noteq> None"
      "plan_tokens ix mk (t # ts) (map (mk \<circ> ent ix) us) (numbering us) seq = plan_tokens ix mk ts (map (mk \<circ> ent ix) vs) (numbering vs) (seq @ [i])"
    for vs i
  proof -
    note IH = Cons.IH [OF Cons.prems(1) us'(1,2), of "seq @ [i]"]
    show ?thesis
    proof (cases "known post ts")
      case True
      then obtain s where s: "refers (uniq vs ts) s ts" "plan_tokens ix mk ts (map (mk \<circ> ent ix) vs) (numbering vs) (seq @ [i])
          = Some (Some (map (mk \<circ> ent ix) (uniq vs ts), numbering (uniq vs ts), (seq @ [i]) @ s))" using IH by auto
      obtain ws where "uniq vs ts = vs @ ws" using uniq_prefix by blast
      then have "i < length (uniq vs ts)" "uniq vs ts ! i = t" using us'(4,5) by (simp_all add: nth_append)
      then have "refers (uniq us (t # ts)) (i # s) (t # ts)" using s(1) us'(3) by (simp add: refers_def)
      moreover have "plan_tokens ix mk (t # ts) (map (mk \<circ> ent ix) us) (numbering us) seq
          = Some (Some (map (mk \<circ> ent ix) (uniq us (t # ts)), numbering (uniq us (t # ts)), seq @ i # s))" using s(2) us'(3,7) by (simp del: plan_tokens.simps)
      ultimately show ?thesis using True us'(6) by auto
    next
      case False
      then show ?thesis using IH us'(7) by (simp del: plan_tokens.simps)
    qed
  qed
  show ?case
  proof (cases "t \<in> set us")
    case True
    obtain i where i: "numbering us t = Some i" "i < length us" "us ! i = t" using numbering_Some [OF Cons.prems(2) True] by blast
    show ?thesis by (rule step [of us i]) (use True i Cons.prems in \<open>auto simp: uniq_Cons known_def\<close>)
  next
    case False
    note n = numbering_None [OF False]
    show ?thesis
    proof (cases "post t")
      case None
      then show ?thesis using lookup_unknown [OF Cons.prems(1) None] n by simp
    next
      case (Some ps)
      note l = conjunct1 [OF lookup_known [OF Cons.prems(1) Some]]
      show ?thesis
        by (rule step [of "us @ [t]" "length us"]) (use False Some l n Cons.prems numbering_snoc [OF False] in \<open>auto simp: uniq_Cons\<close>)
    qed
  qed
qed

definition pos_tokens :: "clause list \<Rightarrow> bytes list list" where
  "pos_tokens cs = map tokens (filter (\<lambda>c. \<not> neg c) cs)"

definition neg_tokens :: "clause list \<Rightarrow> bytes list list" where
  "neg_tokens cs = map tokens (filter neg cs)"

lemma plan_pos_at:
  "index_models ix post \<Longrightarrow> distinct us \<Longrightarrow> known post us \<Longrightarrow>
     (let f = \<lambda>us. map (plan_term F ix \<circ> ent ix) us; all = concat (pos_tokens cs) in
      if known post all
      then \<exists>new. list_all2 (refers (uniq us all)) new (filter (\<lambda>ts. length ts > 1) (pos_tokens cs))
          \<and> plan_pos F ix cs (f us) (numbering us) phs = Some (Some (f (uniq us all), phs @ new))
      else plan_pos F ix cs (f us) (numbering us) phs = Some None)"
proof (induction cs arbitrary: us phs)
  case Nil
  then show ?case by (simp add: pos_tokens_def uniq_def)
next
  case (Cons c cs)
  let ?f = "\<lambda>us. map (plan_term F ix \<circ> ent ix) us"
  show ?case
  proof (cases "neg c")
    case True
    then have e: "pos_tokens (c # cs) = pos_tokens cs" "plan_pos F ix (c # cs) ts m phs = plan_pos F ix cs ts m phs" for ts m phs
      by (simp_all add: pos_tokens_def)
    show ?thesis unfolding e by (rule Cons.IH [OF Cons.prems])
  next
    case False
    let ?ts = "tokens c" and ?rest = "concat (pos_tokens cs)"
    have all: "concat (pos_tokens (c # cs)) = ?ts @ ?rest" "pos_tokens (c # cs) = ?ts # pos_tokens cs" using False by (simp_all add: pos_tokens_def)
    note P = plan_tokens_at [OF Cons.prems, of ?ts "plan_term F ix" "[]"]
    show ?thesis
    proof (cases "known post ?ts")
      case True
      let ?us = "uniq us ?ts"
      obtain s where s: "refers ?us s ?ts" "plan_tokens ix (plan_term F ix) ?ts (?f us) (numbering us) [] = Some (Some (?f ?us, numbering ?us, s))"
        using P True by auto
      have u: "distinct ?us" "known post ?us" using Cons.prems(2,3) True by (simp_all add: distinct_uniq known_uniq)
      let ?phs = "if length s > 1 then phs @ [s] else phs"
      have st: "plan_pos F ix (c # cs) (?f us) (numbering us) phs = plan_pos F ix cs (?f ?us) (numbering ?us) ?phs"
        using s(2) False by simp
      note IH = Cons.IH [OF Cons.prems(1) u, of ?phs, unfolded Let_def]
      show ?thesis
      proof (cases "known post ?rest")
        case rest: True
        then obtain new where new: "list_all2 (refers (uniq ?us ?rest)) new (filter (\<lambda>ts. length ts > 1) (pos_tokens cs))"
          "plan_pos F ix cs (?f ?us) (numbering ?us) ?phs = Some (Some (?f (uniq ?us ?rest), ?phs @ new))" using IH by auto
        obtain ws where ws: "uniq ?us ?rest = ?us @ ws" using uniq_prefix by blast
        have r: "refers (uniq ?us ?rest) s ?ts" unfolding ws by (rule refers_prefix [OF s(1)])
        have len: "length s = length ?ts" by (rule refers_length [OF s(1)])
        let ?new = "if length s > 1 then s # new else new"
        have "list_all2 (refers (uniq us (?ts @ ?rest))) ?new (filter (\<lambda>ts. length ts > 1) (?ts # pos_tokens cs))"
          using new(1) r len by (simp add: uniq_append)
        moreover have "plan_pos F ix (c # cs) (?f us) (numbering us) phs = Some (Some (?f (uniq us (?ts @ ?rest)), phs @ ?new))"
          unfolding st new(2) by (simp add: uniq_append)
        moreover have k: "known post (?ts @ ?rest)" using True rest by auto
        ultimately show ?thesis unfolding Let_def all(2) concat.simps if_P [OF k] by blast
      next
        case rest: False
        then have "plan_pos F ix (c # cs) (?f us) (numbering us) phs = Some None" using IH st by (simp split: if_splits)
        moreover have k: "\<not> known post (?ts @ ?rest)" using rest by auto
        ultimately show ?thesis unfolding Let_def all(2) concat.simps if_not_P [OF k] by blast
      qed
    next
      case no: False
      then have "plan_pos F ix (c # cs) (?f us) (numbering us) phs = Some None" using P False by (simp split: if_splits)
      moreover have k: "\<not> known post (?ts @ ?rest)" using no by auto
      ultimately show ?thesis unfolding Let_def all(2) concat.simps if_not_P [OF k] by blast
    qed
  qed
qed

lemma plan_neg_at:
  "index_models ix post \<Longrightarrow> \<exists>new. plan_neg ix cs ns = Some (ns @ new)
     \<and> list_all2 (\<lambda>n ts. nuniq n = map (ent ix) (uniq [] ts) \<and> refers (uniq [] ts) (nseq n) ts) new
         (filter (known post) (neg_tokens cs))"
proof (induction cs arbitrary: ns)
  case (Cons c cs)
  show ?case
  proof (cases "neg c")
    case False
    then show ?thesis using Cons.IH [OF Cons.prems, of ns] by (simp add: neg_tokens_def)
  next
    case True
    have P: "if known post (tokens c)
      then \<exists>s. refers (uniq [] (tokens c)) s (tokens c) \<and> plan_tokens ix (\<lambda>e. e) (tokens c) [] Map.empty []
          = Some (Some (map (ent ix) (uniq [] (tokens c)), numbering (uniq [] (tokens c)), s))
      else plan_tokens ix (\<lambda>e. e) (tokens c) [] Map.empty [] = Some None"
      using plan_tokens_at [OF Cons.prems, of "[]" "tokens c" "\<lambda>e. e" "[]"] by (simp add: numbering_def comp_def cong: if_cong)
    show ?thesis
    proof (cases "known post (tokens c)")
      case known: True
      then obtain s where s: "refers (uniq [] (tokens c)) s (tokens c)" "plan_tokens ix (\<lambda>e. e) (tokens c) [] Map.empty []
          = Some (Some (map (ent ix) (uniq [] (tokens c)), numbering (uniq [] (tokens c)), s))" using P by auto
      let ?n = "\<lparr>nuniq = map (ent ix) (uniq [] (tokens c)), nseq = s\<rparr>"
      obtain new where "plan_neg ix cs (ns @ [?n]) = Some ((ns @ [?n]) @ new)" "list_all2 (\<lambda>n ts. nuniq n = map (ent ix) (uniq [] ts) \<and> refers (uniq [] ts) (nseq n) ts) new
         (filter (known post) (neg_tokens cs))" using Cons.IH [OF Cons.prems] by blast
      then show ?thesis using True known s by (intro exI [of _ "?n # new"]) (simp add: neg_tokens_def)
    next
      case unknown: False
      then have "plan_neg ix (c # cs) ns = plan_neg ix cs ns" using P True by (auto split: if_splits)
      then show ?thesis using Cons.IH [OF Cons.prems, of ns] True unknown by (simp add: neg_tokens_def del: plan_neg.simps)
    qed
  qed
qed (simp add: neg_tokens_def)


section \<open>The plan means the query\<close>

definition corpus :: "'s index \<Rightarrow> (bytes \<rightharpoonup> posting list) \<Rightarrow> bool" where
  "corpus ix post \<longleftrightarrow> index_models ix post \<and> unat (ixn ix) < 2 ^ 32 \<and> length (ids ix) = unat (ixn ix) \<and> length (dls ix) = unat (ixn ix)
     \<and> (\<forall>t ps. post t = Some ps \<longrightarrow> (\<forall>p \<in> set ps. positions_ok p \<and> unat (pdoc p) < unat (ixn ix)))"

definition posts :: "(bytes \<rightharpoonup> posting list) \<Rightarrow> bytes list \<Rightarrow> posting list list" where
  "posts post us = map (\<lambda>t. the (post t)) us"

lemma tokens_from_length: "length (tokens_from u s i) \<le> length s - i"
proof (induction u s i rule: tokens_from.induct)
  case (1 u s i)
  show ?case
  proof (cases "tok_next u s i")
    case (Pair t j)
    show ?thesis
    proof (cases t)
      case (Some b)
      then have "i < j" "i < length s" using tok_next_moves [of u s i b j] Pair by simp_all
      then show ?thesis using "1.IH" [of t j b] Pair Some by (subst tokens_from.simps) auto
    qed (use Pair in \<open>subst tokens_from.simps; simp\<close>)
  qed
qed

lemma clause_text_length: "length (fst (clause_text u q i)) \<le> length q"
  by (auto simp: clause_text_def Let_def split: option.splits)

lemma parse_tokens: "c \<in> set (parseQuery u q) \<Longrightarrow> tokens c \<noteq> [] \<and> length (tokens c) \<le> length q"
proof -
  have "\<forall>c \<in> set (parse_from u q i). tokens c \<noteq> [] \<and> length (tokens c) \<le> length q" for i
  proof (induction u q i rule: parse_from.induct)
    case (1 u q i0)
    show ?case
    proof (cases "skip_space u q i0 \<ge> length q")
      case True
      then show ?thesis by (subst parse_from.simps) simp
    next
      case False
      let ?n = "q ! skip_space u q i0 = CHR ''-''"
      obtain body j where b: "clause_text u q (if ?n then skip_space u q i0 + 1 else skip_space u q i0) = (body, j)" by fastforce
      have "length (tokenizeString u body) \<le> length body" using tokens_from_length [of u body 0] by (simp add: tokenizeString_def)
      then have l: "length (tokenizeString u body) \<le> length q"
        using clause_text_length [of u q "if ?n then skip_space u q i0 + 1 else skip_space u q i0"] b by simp
      note IH = "1.IH" [OF refl False refl b [symmetric] refl refl]
      show ?thesis using IH False b l by (subst parse_from.simps) (auto simp: Let_def)
    qed
  qed
  then show "c \<in> set (parseQuery u q) \<Longrightarrow> tokens c \<noteq> [] \<and> length (tokens c) \<le> length q" by (simp add: parseQuery_def)
qed

lemma list_all2_ball: "list_all2 R xs ys \<Longrightarrow> (\<And>x y. R x y \<Longrightarrow> P x \<longleftrightarrow> Q y) \<Longrightarrow> (\<forall>x \<in> set xs. P x) \<longleftrightarrow> (\<forall>y \<in> set ys. Q y)"
  by (induction rule: list_all2_induct) auto

lemma phrase_in_tokens: "refers us s ts \<Longrightarrow> phrase_in (posts post us) d s \<longleftrightarrow> token_phrase post d ts"
proof -
  assume r: "refers us s ts"
  then have "length s = length ts" "\<And>j. j < length ts \<Longrightarrow> s ! j < length us \<and> us ! (s ! j) = ts ! j" by (auto simp: refers_def list_all2_conv_all_nth)
  then show ?thesis by (simp add: phrase_in_def phrase_at_def token_phrase_def posts_def cong: conj_cong)
qed

lemma clause_in_tokens:
  assumes r: "refers (uniq [] ts) s ts" and k: "known post ts"
  shows "clause_in (posts post (uniq [] ts)) s d \<longleftrightarrow> clause_holds post d ts"
proof -
  have "(\<forall>ps \<in> set (posts post (uniq [] ts)). d \<in> docs_of ps) \<longleftrightarrow> (\<forall>t \<in> set ts. \<exists>ps. post t = Some ps \<and> d \<in> docs_of ps)"
    using k by (force simp: posts_def set_uniq known_def)
  then show ?thesis using refers_length [OF r] phrase_in_tokens [OF r] by (simp add: clause_in_def clause_holds_def)
qed

lemma refers_seq_ok: "refers us s ts \<Longrightarrow> ts \<noteq> [] \<Longrightarrow> length ts < 2 ^ 32 \<Longrightarrow> seq_ok (posts post us) s"
  by (auto simp: seq_ok_def refers_def list_all2_conv_all_nth posts_def in_set_conv_nth)

lemma known_lists_ok: "corpus ix post \<Longrightarrow> known post us \<Longrightarrow> lists_ok (posts post us)"
  by (force simp: lists_ok_def posts_def known_def corpus_def)

lemma known_laid: "corpus ix post \<Longrightarrow> known post us \<Longrightarrow> list_all2 laid_out (map (ent ix) us) (posts post us)"
  using lookup_known by (force simp: posts_def known_def corpus_def list_all2_conv_all_nth)

lemma known_docs: "corpus ix post \<Longrightarrow> known post us \<Longrightarrow> ps \<in> set (posts post us) \<Longrightarrow> x \<in> docs_of ps \<Longrightarrow> unat x < unat (ixn ix)"
  by (force simp: posts_def known_def corpus_def docs_of_def)

text \<open>The weights and the score of a document, from the dictionary abstraction.\<close>

definition doc_score :: "'s floats \<Rightarrow> 's index \<Rightarrow> (bytes \<rightharpoonup> posting list) \<Rightarrow> clause list \<Rightarrow> 32 word \<Rightarrow> 's" where
  "doc_score F ix post cs d =
     (let us = uniq [] (concat (pos_tokens cs));
          norm = fadd F (normC1 ix) (fmul F (normC2 ix) (of_uint F (unat (dls ix ! unat d))))
      in scores_of F norm (map (\<lambda>t. idf_of F ix (of_nat (length (the (post t))))) us) (posts post us) d (of_uint F 0))"

definition doc_hit :: "'s floats \<Rightarrow> 's index \<Rightarrow> (bytes \<rightharpoonup> posting list) \<Rightarrow> clause list \<Rightarrow> 32 word \<Rightarrow> 's hit" where
  "doc_hit F ix post cs d = \<lparr>score = doc_score F ix post cs d, hid = unat (ids ix ! unat d), hdoc = unat d\<rparr>"

lemma buildPlan_none:
  assumes c: "corpus ix post" and no: "\<not> known post (concat (pos_tokens (parseQuery u q))) \<or> (\<forall>c \<in> set (parseQuery u q). neg c)"
  shows "buildPlan u F ix q = Some None \<and> \<not> answers post (parseQuery u q) d"
proof -
  let ?cs = "parseQuery u q"
  have im: "index_models ix post" using c by (simp add: corpus_def)
  note P = plan_pos_at [OF im, of "[]" F ?cs "[]", unfolded Let_def, simplified numbering_def, simplified]
  have "buildPlan u F ix q = Some None"
  proof (cases "known post (concat (pos_tokens ?cs))")
    case False
    then show ?thesis using P by (simp add: buildPlan_def Let_def)
  next
    case True
    then have "\<not> list_ex (\<lambda>c. \<not> neg c) ?cs" using no by (auto simp: list_ex_iff)
    then show ?thesis using P True by (auto simp: buildPlan_def Let_def)
  qed
  moreover have "\<not> answers post ?cs d"
  proof (cases "known post (concat (pos_tokens ?cs))")
    case False
    then obtain c t where "c \<in> set ?cs" "\<not> neg c" "t \<in> set (tokens c)" "post t = None" by (auto simp: known_def pos_tokens_def)
    then have "c \<in> set ?cs" "\<not> clause_holds post d (tokens c)" "\<not> neg c" by (fastforce simp: clause_holds_def)+
    then show ?thesis by (auto simp: answers_def)
  qed (use no in \<open>auto simp: answers_def\<close>)
  ultimately show ?thesis by blast
qed

lemma buildPlan_some:
  fixes ix :: "'s index"
  assumes c: "corpus ix post" and k: "known post (concat (pos_tokens (parseQuery u q)))" and p: "\<not> (\<forall>c \<in> set (parseQuery u q). neg c)"
    and len: "length q < 2 ^ 32"
  shows "\<exists>pl PS NS. buildPlan u F ix q = Some (Some pl) \<and> plan_laid pl PS NS \<and> setting ix PS (phrases pl) NS
    \<and> (\<forall>ps \<in> set PS. \<forall>x \<in> docs_of ps. unat x < unat (ixn ix))
    \<and> (\<forall>d. matches PS (phrases pl) NS d \<longleftrightarrow> answers post (parseQuery u q) d)
    \<and> hit_of F ix pl PS = doc_hit F ix post (parseQuery u q)"
proof -
  let ?cs = "parseQuery u q"
  let ?U = "uniq [] (concat (pos_tokens ?cs))"
  let ?PS = "posts post ?U"
  have im: "index_models ix post" using c by (simp add: corpus_def)
  have kU: "known post ?U" using k known_uniq by simp
  from plan_pos_at [OF im, of "[]" F ?cs "[]"] k obtain phs where
    phs: "list_all2 (refers ?U) phs (filter (\<lambda>ts. length ts > 1) (pos_tokens ?cs))"
      "plan_pos F ix ?cs [] Map.empty [] = Some (Some (map (plan_term F ix \<circ> ent ix) ?U, phs))"
    by (auto simp: Let_def numbering_def)
  let ?Q = "\<lambda>n ts. nuniq n = map (ent ix) (uniq [] ts) \<and> refers (uniq [] ts) (nseq n) ts"
  let ?neg = "filter (known post) (neg_tokens ?cs)"
  from plan_neg_at [OF im, of ?cs "[]"] obtain ns where ns: "plan_neg ix ?cs [] = Some ns" "list_all2 ?Q ns ?neg" by auto
  let ?NS = "map (\<lambda>(n, ts). (posts post (uniq [] ts), nseq n)) (zip ns ?neg)"
  have nlen: "length ns = length ?neg" using ns(2) by (rule list_all2_lengthD)
  have nth: "?Q (ns ! i) (?neg ! i)" "known post (?neg ! i)" "?neg ! i \<in> set (neg_tokens ?cs)" if "i < length ns" for i
    using ns(2) that nlen nth_mem [of i ?neg] by (auto simp: list_all2_conv_all_nth)
  let ?pl = "\<lparr>pterms = map (plan_term F ix \<circ> ent ix) ?U, phrases = phs, pnegs = ns\<rparr>"
  have b: "buildPlan u F ix q = Some (Some ?pl)" using phs(2) ns(1) p by (auto simp: buildPlan_def Let_def list_ex_iff)
  have tk: "ts \<noteq> [] \<and> length ts < 2 ^ 32" if "ts \<in> set (pos_tokens ?cs) \<union> set (neg_tokens ?cs)" for ts
    using that len parse_tokens by (fastforce simp: pos_tokens_def neg_tokens_def)
  have ne: "?U \<noteq> []"
  proof -
    obtain c where "c \<in> set ?cs" "\<not> neg c" using p by blast
    then have "tokens c \<noteq> []" "set (tokens c) \<subseteq> set ?U" using parse_tokens by (auto simp: set_uniq pos_tokens_def)
    then show ?thesis by auto
  qed
  have "negs_laid ns ?NS"
    using nth known_laid [OF c] known_uniq [of post "[]"] nlen by (auto simp: negs_laid_def list_all2_conv_all_nth)
  then have laid: "plan_laid ?pl ?PS ?NS"
    using ne known_laid [OF c kU] by (simp add: plan_laid_def posts_def comp_def plan_term_def)
  have ph_ok: "\<forall>seq \<in> set phs. seq_ok ?PS seq"
  proof
    fix seq assume "seq \<in> set phs"
    then obtain i where i: "i < length phs" "phs ! i = seq" by (auto simp: in_set_conv_nth)
    let ?ts = "filter (\<lambda>ts. length ts > 1) (pos_tokens ?cs) ! i"
    have "refers ?U seq ?ts" "?ts \<in> set (pos_tokens ?cs)"
      using phs(1) i nth_mem [of i "filter (\<lambda>ts. length ts > 1) (pos_tokens ?cs)"] by (auto simp: list_all2_conv_all_nth)
    then show "seq_ok ?PS seq" using refers_seq_ok tk by blast
  qed
  have neg_ok: "negs_ok ?NS"
  proof -
    have "lists_ok (posts post (uniq [] (?neg ! i))) \<and> seq_ok (posts post (uniq [] (?neg ! i))) (nseq (ns ! i))" if "i < length ns" for i
      using nth [OF that] known_lists_ok [OF c known_uniq [of post "[]"]] refers_seq_ok tk by auto
    then show ?thesis by (auto simp: negs_ok_def set_zip nlen)
  qed
  have io: "index_ok ix ?PS" using known_docs [OF c kU] c by (auto simp: index_ok_def corpus_def)
  have st: "setting ix ?PS phs ?NS" using known_lists_ok [OF c kU] io neg_ok ph_ok by (simp add: setting_def)
  have m: "matches ?PS phs ?NS d \<longleftrightarrow> answers post ?cs d" for d
  proof -
    have 1: "(\<forall>ps \<in> set ?PS. d \<in> docs_of ps) \<longleftrightarrow> (\<forall>ts \<in> set (pos_tokens ?cs). \<forall>t \<in> set ts. \<exists>ps. post t = Some ps \<and> d \<in> docs_of ps)"
      using k by (force simp: posts_def set_uniq known_def)
    have 2: "(\<forall>seq \<in> set phs. phrase_in ?PS d seq) \<longleftrightarrow> (\<forall>ts \<in> set (filter (\<lambda>ts. length ts > 1) (pos_tokens ?cs)). token_phrase post d ts)"
      by (rule list_all2_ball [OF phs(1) phrase_in_tokens])
    have 3: "(\<forall>(N, seq) \<in> set ?NS. \<not> clause_in N seq d) \<longleftrightarrow> (\<forall>ts \<in> set ?neg. \<not> clause_holds post d ts)"
    proof (rule list_all2_ball)
      show "list_all2 (\<lambda>x ts. x = (posts post (uniq [] ts), snd x) \<and> known post ts \<and> refers (uniq [] ts) (snd x) ts) ?NS ?neg"
        using nth nlen by (simp add: list_all2_conv_all_nth split_beta)
    next
      fix x ts assume x: "x = (posts post (uniq [] ts), snd x) \<and> known post ts \<and> refers (uniq [] ts) (snd x) ts"
      then have "clause_in (posts post (uniq [] ts)) (snd x) d \<longleftrightarrow> clause_holds post d ts" using clause_in_tokens by blast
      then show "(case x of (N, seq) \<Rightarrow> \<not> clause_in N seq d) \<longleftrightarrow> \<not> clause_holds post d ts" using x by (metis case_prod_conv)
    qed
    have 4: "(\<forall>ts \<in> set ?neg. \<not> clause_holds post d ts) \<longleftrightarrow> (\<forall>ts \<in> set (neg_tokens ?cs). \<not> clause_holds post d ts)"
    proof -
      have "known post ts" if "clause_holds post d ts" for ts using that by (auto simp: known_def clause_holds_def)
      then show ?thesis by auto
    qed
    have 5: "(\<forall>ts \<in> set (pos_tokens ?cs). \<forall>t \<in> set ts. \<exists>ps. post t = Some ps \<and> d \<in> docs_of ps)
        \<and> (\<forall>ts \<in> set (filter (\<lambda>ts. length ts > 1) (pos_tokens ?cs)). token_phrase post d ts)
        \<longleftrightarrow> (\<forall>ts \<in> set (pos_tokens ?cs). clause_holds post d ts)"
    proof -
      have "length ts = 1 \<or> length ts > 1" if "ts \<in> set (pos_tokens ?cs)" for ts using tk [of ts] that by (cases ts) auto
      then show ?thesis by (fastforce simp: clause_holds_def)
    qed
    have 6: "answers post ?cs d \<longleftrightarrow> (\<forall>ts \<in> set (pos_tokens ?cs). clause_holds post d ts) \<and> (\<forall>ts \<in> set (neg_tokens ?cs). \<not> clause_holds post d ts)"
      using p by (auto simp: answers_def pos_tokens_def neg_tokens_def)
    show ?thesis unfolding matches_def 1 2 3 4 6 5 [symmetric] by blast
  qed
  have mi: "map idf (pterms ?pl) = map (\<lambda>t. idf_of F ix (of_nat (length (the (post t))))) ?U"
  proof -
    have "edf (ent ix t) = of_nat (length (the (post t)))" if "t \<in> set ?U" for t
    proof -
      have "post t \<noteq> None" using kU that unfolding known_def by blast
      then obtain ps where "post t = Some ps" by blast
      then show ?thesis using lookup_known [OF im] by (auto simp: laid_out_def)
    qed
    then show ?thesis by (simp add: plan_term_def)
  qed
  have "hit_of F ix ?pl ?PS d = doc_hit F ix post ?cs d" for d
    unfolding hit_of_def doc_hit_def doc_score_def Let_def mi ..
  then have "hit_of F ix ?pl ?PS = doc_hit F ix post ?cs" by (rule ext)
  then show ?thesis using b laid st m known_docs [OF c kU]
    by (intro exI [of _ ?pl] exI [of _ ?PS] exI [of _ ?NS]) simp
qed


section \<open>Sorting the hits\<close>

definition sorts_hits :: "('s :: linorder hit list \<Rightarrow> 's hit list) \<Rightarrow> bool" where
  "sorts_hits f \<longleftrightarrow> (\<forall>hs. mset (f hs) = mset hs \<and> sorted_wrt (\<lambda>a b. \<not> worse a b) (f hs))"

text \<open>Such functions exist.\<close>

fun insert_hit :: "'s :: linorder hit \<Rightarrow> 's hit list \<Rightarrow> 's hit list" where
  "insert_hit x [] = [x]"
| "insert_hit x (y # ys) = (if worse x y then y # insert_hit x ys else x # y # ys)"

definition insertion_sort :: "'s :: linorder hit list \<Rightarrow> 's hit list" where
  "insertion_sort hs = foldr insert_hit hs []"

lemma mset_insert_hit: "mset (insert_hit x ys) = add_mset x (mset ys)"
  by (induction ys) auto

lemma insert_hit_sorted: "sorted_wrt (\<lambda>a b. \<not> worse a b) ys \<Longrightarrow> sorted_wrt (\<lambda>a b. \<not> worse a b) (insert_hit x ys)"
proof (induction ys)
  case (Cons y ys)
  have s: "set (insert_hit x ys) = insert x (set ys)" using mset_insert_hit [of x ys] by (metis set_mset_add_mset_insert set_mset_mset)
  show ?case
  proof (cases "worse x y")
    case True
    then show ?thesis using Cons worse_asym [OF True] by (simp add: s)
  next
    case False
    have "\<not> worse x z" if "z \<in> set ys" for z using worse_trans [of y z x] False Cons.prems that by simp
    then show ?thesis using False Cons.prems by simp
  qed
qed simp

lemma insertion_sort_ok: "sorts_hits insertion_sort"
proof -
  have "mset (insertion_sort hs) = mset hs \<and> sorted_wrt (\<lambda>a b. \<not> worse a b) (insertion_sort hs)" for hs :: "'a hit list"
    by (induction hs) (simp_all add: insertion_sort_def mset_insert_hit insert_hit_sorted)
  then show ?thesis by (simp add: sorts_hits_def)
qed

lemma best_mset_eq: "best k xs (mset hs) \<Longrightarrow> mset hs' = mset hs \<Longrightarrow> best k xs (mset hs')"
  by simp

lemma search_hits:
  assumes "corpus ix post" and "sorts srt" and "sorts_hits sortHits" and "0 < k" and "length q < 2 ^ 32"
  shows "\<exists>hits. search u F srt sortHits procs ix q k = Some (card {d. answers post (parseQuery u q) d}, hits)
    \<and> best k (image_mset (doc_hit F ix post (parseQuery u q)) (mset_set {d. answers post (parseQuery u q) d})) (mset hits)
    \<and> sorted_wrt (\<lambda>a b. \<not> worse a b) hits"
proof (cases "\<not> known post (concat (pos_tokens (parseQuery u q))) \<or> (\<forall>c \<in> set (parseQuery u q). neg c)")
  case True
  then have "buildPlan u F ix q = Some None" "{d. answers post (parseQuery u q) d} = {}" using buildPlan_none [OF assms(1) True] by auto
  then show ?thesis by (simp add: search_def best_def)
next
  case False
  then have k: "known post (concat (pos_tokens (parseQuery u q)))" "\<not> (\<forall>c \<in> set (parseQuery u q). neg c)" by auto
  obtain pl PS NS where pl: "buildPlan u F ix q = Some (Some pl)" "plan_laid pl PS NS" "setting ix PS (phrases pl) NS"
    "\<forall>ps \<in> set PS. \<forall>x \<in> docs_of ps. unat x < unat (ixn ix)" "\<forall>d. matches PS (phrases pl) NS d \<longleftrightarrow> answers post (parseQuery u q) d"
    "hit_of F ix pl PS = doc_hit F ix post (parseQuery u q)"
    using buildPlan_some [OF assms(1) k assms(5)] by blast
  let ?A = "{d. answers post (parseQuery u q) d}"
  have n: "unat (ucast (ixn ix) :: 32 word) = unat (ixn ix)" using assms(1) by (simp add: corpus_def unsigned_ucast_eq take_bit_eq_mod)
  have small: "\<forall>ps \<in> set PS. \<forall>x \<in> docs_of ps. x < ucast (ixn ix)" using pl(4) n by (simp add: word_less_nat_alt)
  have "x < endDoc" if "matches PS (phrases pl) NS x" for x
  proof -
    have "hd PS \<in> set PS" using pl(2) by (simp add: plan_laid_def)
    then have "x < ucast (ixn ix)" using that small by (auto simp: matches_def)
    then show ?thesis using le_endDoc by (rule less_le_trans)
  qed
  then have "{x. 0 \<le> x \<and> x < endDoc \<and> matches PS (phrases pl) NS x} = ?A" using pl(5) by auto
  then have m: "matching PS (phrases pl) NS 0 endDoc = sorted_list_of_set ?A" by (simp only: matching_def)
  obtain hs where hs: "search_plan F srt procs ix pl k = Some (length (sorted_list_of_set ?A), hs)"
    "best k (mset (map (doc_hit F ix post (parseQuery u q)) (sorted_list_of_set ?A))) (mset hs)"
    using search_plan_at [OF pl(2,3) assms(2) small assms(4), of F procs] unfolding m pl(6) by blast
  have s: "mset (sortHits hs) = mset hs" "sorted_wrt (\<lambda>a b. \<not> worse a b) (sortHits hs)" using assms(3) by (simp_all add: sorts_hits_def)
  have "search u F srt sortHits procs ix q k = Some (card ?A, sortHits hs)" using pl(1) hs(1) by (simp add: search_def)
  moreover have "mset_set ?A = mset (sorted_list_of_set ?A)"
    using mset_set_set [OF distinct_sorted_list_of_set, of ?A] by simp
  ultimately show ?thesis using hs(2) s(2) unfolding s(1) [symmetric] mset_map by auto
qed

section \<open>Claims\<close>

text \<open>
  \<^bold>\<open>C32\<close> Search answers the query. On an index that holds the postings of a corpus, whatever the number of processors and
  whatever the order sorting gives to equal elements, \<open>search\<close> reads nothing outside the files and returns the number
  of documents that contain every positive clause (its words at consecutive positions) and no negative
  clause, together with the best \<open>k\<close> of these documents by their scores, ties broken by identifier, best first.
\<close>
theorem search_answers:
  assumes "corpus ix post" and "sorts srt" and "sorts_hits sortHits" and "0 < k" and "length q < 2 ^ 32"
  shows "\<exists>hits. search u F srt sortHits procs ix q k = Some (card {d. answers post (parseQuery u q) d}, hits)
    \<and> best k (image_mset (doc_hit F ix post (parseQuery u q)) (mset_set {d. answers post (parseQuery u q) d})) (mset hits)
    \<and> sorted_wrt (\<lambda>a b. \<not> worse a b) hits"
  by (rule search_hits [OF assms])

definition tiny_dict :: dict where
  "tiny_dict = \<lparr>dcount = 1, entries = concat (map (entry_bytes [''a''] [(1, 0, 0)]) [0..<length [''a''] + 1]), blob = ''a'',
     ddocs = [CHR 0x00, CHR 0x02], dpos = [CHR 0x05, CHR 0x05]\<rparr>"

definition tiny_index :: "nat index" where
  "tiny_index = \<lparr>ixn = 1, dicts = replicate 16 tiny_dict, ids = [7], dls = [11], titles = [], titleOff = [], storeFile = [], storeIdx = [],
     nBlocks = 0, idmap = [], normC1 = 1, normC2 = 0\<rparr>"

definition tiny_floats :: "nat floats" where
  "tiny_floats = \<lparr>of_uint = id, lit = (\<lambda>a b. a), fadd = (+), fsub = (-), fmul = (*), fdiv = (div), flog = id\<rparr>"

lemma tiny_corpus: "corpus tiny_index [''a'' \<mapsto> [\<lparr>pdoc = 0, ppos = [5, 5]\<rparr>]]"
proof -
  let ?ps = "[\<lparr>pdoc = 0, ppos = [5, 5]\<rparr>]"
  have e: "enc 0 = [CHR 0x00]" "enc 2 = [CHR 0x02]" "enc 5 = [CHR 0x05]" by (simp_all add: enc_small byte_of_def char_of_def bit_0)
  have b: "blocks_bytes ?ps (block_count ?ps) = [CHR 0x00, CHR 0x02]"
    by (simp add: blocks_bytes_def block_count_def docsPerBlock_def block_bytes_def before_def block_def ptf_def e)
  have l: "laid_out \<lparr>edf = 1, docOff = 0, posOff = 0, edict = tiny_dict\<rparr> ?ps" unfolding laid_out_def b
    by (simp add: tiny_dict_def endDoc_def word_gt_0 block_count_def docsPerBlock_def pos_bytes_def e)
  have "dict_ok tiny_dict [''a''] [(1, 0, 0)]" by (simp add: dict_ok_def tiny_dict_def del: upt_Suc)
  note lk = dict_lookup_at [OF this]
  have "termBucket t < 16" for t by (simp add: termBucket_def numBuckets_def Let_def)
  then have "index_lookup tiny_index t = dict_lookup tiny_dict t" for t by (simp add: index_lookup_def idx_def tiny_index_def)
  then have "index_models tiny_index [''a'' \<mapsto> ?ps]" using l by (simp add: index_models_def lk entry_of_def)
  then show ?thesis by (simp add: corpus_def tiny_index_def positions_ok_def positions_def POS_MAX_def)
qed

theorem search_answers_witness:
  "\<exists>hits. search ascii_unicode tiny_floats (\<lambda>ds. [0..<length ds]) insertion_sort 4 tiny_index ''a'' 3
      = Some (card {d. answers [''a'' \<mapsto> [\<lparr>pdoc = 0, ppos = [5, 5]\<rparr>]] (parseQuery ascii_unicode ''a'') d}, hits)
    \<and> best 3 (image_mset (doc_hit tiny_floats tiny_index [''a'' \<mapsto> [\<lparr>pdoc = 0, ppos = [5, 5]\<rparr>]] (parseQuery ascii_unicode ''a''))
          (mset_set {d. answers [''a'' \<mapsto> [\<lparr>pdoc = 0, ppos = [5, 5]\<rparr>]] (parseQuery ascii_unicode ''a'') d})) (mset hits)
    \<and> sorted_wrt (\<lambda>a b. \<not> worse a b) hits"
  by (rule search_answers [OF tiny_corpus _ insertion_sort_ok]) (simp_all add: sorts_def)

end
