(* ===== verification/Search_Built.thy ===== *)
theory Search_Built
  imports Search_Bucket Search_Answers
begin

text \<open>
  The dictionaries that \<open>openIndex\<close> finds in the merged files: over the documents of all runs they map every term to
  the list of its postings, so a search answers as the documents say.
\<close>

section \<open>Sizes\<close>

text \<open>The bounds on a corpus: its documents are numbered in order, fewer than \<open>2 ^ 27\<close>, and the lengths fit the fields
  of the files.\<close>

definition corpus_fits :: "(32 word \<times> bytes list) list \<Rightarrow> bool" where
  "corpus_fits D \<longleftrightarrow> length D < 2 ^ 27 \<and> length (all_terms D) < 2 ^ 56 \<and> length (concat (remdups (all_terms D))) < 2 ^ 32
     \<and> (\<forall>(d, ts) \<in> set D. length ts < 2 ^ 32 \<and> d < endDoc) \<and> sorted_wrt (<) (map fst D)"

lemma length_enc_aux: "unat v < 2 ^ (7 * n) \<Longrightarrow> 0 < n \<Longrightarrow> length (enc v) \<le> n"
proof (induction n arbitrary: v)
  case (Suc n)
  show ?case
  proof (cases "v \<ge> 0x80")
    case True
    then have v: "128 \<le> unat v" by (simp add: word_le_nat_alt)
    have n: "0 < n" using Suc.prems(1) v by (cases n) auto
    have "unat (drop_bit 7 v) = unat v div 2 ^ 7" by (simp add: drop_bit_eq_div unat_div)
    moreover have "unat v < 2 ^ (7 * n) * 2 ^ 7" using Suc.prems(1) by (simp add: power_add)
    ultimately have "unat (drop_bit 7 v) < 2 ^ (7 * n)" by (simp add: less_mult_imp_div_less)
    from Suc.IH [OF this n] show ?thesis using True by (simp add: enc_big)
  next
    case False
    then show ?thesis by (simp add: enc_small)
  qed
qed simp

lemma length_enc: "length (enc v) \<le> 10"
proof (rule length_enc_aux)
  have "unat v < 2 ^ 64" using unsigned_less [of v] by simp
  then show "unat v < 2 ^ (7 * 10)" by simp
qed simp

lemma length_encs: "length (concat (map enc vs)) \<le> 10 * length vs"
proof (induction vs)
  case (Cons v vs)
  then show ?case using length_enc [of v] by simp
qed simp

definition total :: "(32 word \<times> bytes list) list \<Rightarrow> bytes \<Rightarrow> nat" where
  "total D t = count_list (all_terms D) t"

lemma docs_with_total: "(\<Sum>q \<leftarrow> docs_with t D. length (snd q)) = total D t \<and> length (docs_with t D) \<le> total D t"
proof (induction D)
  case (Cons x D)
  obtain d ts where x: "x = (d, ts)" by fastforce
  have a: "docs_with t (x # D) = (if t \<in> set ts then [(d, occs t ts)] else []) @ docs_with t D" by (simp add: docs_with_def x)
  have b: "total (x # D) t = count_list ts t + total D t" by (simp add: total_def all_terms_def x count_list_append)
  show ?case
  proof (cases "t \<in> set ts")
    case True
    then have "count_list ts t \<noteq> 0" by (simp add: count_list_0_iff)
    then show ?thesis using Cons True unfolding a b by (simp add: length_occs)
  next
    case False
    then show ?thesis using Cons unfolding a b by (simp add: count_notin)
  qed
qed (simp add: docs_with_def total_def all_terms_def)

lemma docs_with_length: "length (docs_with t D) \<le> length D"
  by (simp add: docs_with_def)

lemma run_bytes_length: "length (run_bytes p qs) \<le> 20 * length qs + 10 * (\<Sum>q \<leftarrow> qs. length (snd q))"
proof (induction p qs rule: run_bytes.induct)
  case (2 prev d ps r)
  have "length (posting_bytes d prev ps) \<le> 20 + 10 * length ps"
    using length_enc [of "ucast (d - prev)"] length_enc [of "of_nat (length ps)"] length_encs [of "gaps 0 ps"]
    unfolding posting_bytes_def length_append length_gaps by linarith
  then show ?case using 2 by simp
qed simp

lemma total_le: "total D t \<le> length (all_terms D)"
  by (simp add: total_def count_le_length)

lemma total_sum: "distinct T \<Longrightarrow> (\<Sum>t \<leftarrow> T. total D t) \<le> length (all_terms D)"
proof -
  assume d: "distinct T"
  have "(\<Sum>t \<leftarrow> T. count_list xs t) \<le> length xs" for xs :: "bytes list"
  proof (induction xs)
    case (Cons x xs)
    have "(\<Sum>t \<leftarrow> T. count_list (x # xs) t) = (\<Sum>t \<leftarrow> T. count_list xs t) + (\<Sum>t \<leftarrow> T. if t = x then 1 else 0)"
      by (simp add: sum_list_addf [symmetric]) (rule arg_cong [of _ _ sum_list], simp)
    moreover have "(\<Sum>t \<leftarrow> T. if t = x then 1 else (0 :: nat)) \<le> 1"
      using d by (simp add: sum_list_distinct_conv_sum_set sum.If_cases card_le_Suc0_iff_eq)
    ultimately show ?case using Cons by simp
  qed simp
  then show ?thesis by (simp add: total_def)
qed

lemma pos_bytes_length: "length (pos_bytes (postings_in D t)) \<le> 10 * total D t"
proof -
  have "length (pos_bytes (map to_posting qs)) \<le> 10 * (\<Sum>q \<leftarrow> qs. length (snd q))" for qs
  proof (induction qs)
    case (Cons q qs)
    then show ?case using length_encs [of "gaps 0 (snd q)"] by (simp add: pos_bytes_def to_posting_def)
  qed (simp add: pos_bytes_def)
  then show ?thesis using docs_with_total [of t D] by (simp add: postings_in_def) (metis le_trans)
qed

lemma blocks_bytes_length: "length (blocks_bytes ps n) \<le> 20 * length (take (docsPerBlock * n) ps)"
proof (induction n)
  case (Suc n)
  have "length (block_bytes p qs) \<le> 20 * length qs" for p qs
  proof -
    have "length (deltas p ds) = length ds" for p ds by (induction p ds rule: deltas.induct) auto
    moreover have "length (concat (map (\<lambda>p. enc (ucast (ptf p))) qs)) \<le> 10 * length qs"
      using length_encs [of "map (\<lambda>p. ucast (ptf p)) qs"] by (simp add: comp_def)
    ultimately show ?thesis using length_encs [of "deltas p (map pdoc qs)"] by (simp add: block_bytes_def)
  qed
  note b = this [of "before ps n" "block ps n"]
  have "length (take (docsPerBlock * Suc n) ps) = length (take (docsPerBlock * n) ps) + length (block ps n)"
    by (auto simp: block_def docsPerBlock_def)
  then show ?case using Suc b by (simp add: blocks_bytes_def)
qed (simp add: blocks_bytes_def)

lemma list_bytes_length: "length (list_bytes p ps) \<le> 36 * length ps"
proof (cases "ps = []")
  case False
  then have "block_count ps \<le> length ps" unfolding block_count_def docsPerBlock_def by (cases "length ps") auto
  then show ?thesis using blocks_bytes_length [of ps "block_count ps"] by (auto simp: list_bytes_def length_skip_bytes_of)
qed (simp add: list_bytes_def block_count_def docsPerBlock_def blocks_bytes_def)

lemma written_size:
  "written (postings_in D) T = (ds, ps, es) \<Longrightarrow> length ds \<le> 36 * (\<Sum>t \<leftarrow> T. total D t) \<and> length ps \<le> 10 * (\<Sum>t \<leftarrow> T. total D t)"
proof (induction T arbitrary: ds ps es rule: rev_induct)
  case (snoc t T)
  obtain ds1 ps1 es1 where w: "written (postings_in D) T = (ds1, ps1, es1)" by (metis prod_cases3)
  have "written (postings_in D) (T @ [t]) = write_list (postings_in D) (ds1, ps1, es1) t" using w by (simp add: written_def)
  moreover have "length (postings_in D t) \<le> total D t" using docs_with_total [of t D] by (simp add: postings_in_def)
  ultimately show ?case using snoc.prems snoc.IH [OF w] list_bytes_length [of "of_nat (length ps1)" "postings_in D t"] pos_bytes_length [of D t]
    by (auto simp: write_list_def)
qed (simp add: written_def)

lemma length_le_concat: "t \<in> set ts \<Longrightarrow> length t \<le> length (concat ts)"
  by (induction ts) auto

lemma fits_runs: "corpus_fits (concat Ds) \<Longrightarrow> runs_fit Ds"
  unfolding runs_fit_def
proof (intro conjI ballI)
  fix D assume f: "corpus_fits (concat Ds)" and D: "D \<in> set Ds"
  have sub: "set D \<subseteq> set (concat Ds)" using D by auto
  show "case x of (d, ts) \<Rightarrow> length ts < 2 ^ 32" if "x \<in> set D" for x
  proof -
    have "x \<in> set (concat Ds)" using sub that by blast
    then show ?thesis using f unfolding corpus_fits_def by fastforce
  qed
  fix t assume t: "t \<in> set (all_terms D)"
  then have "t \<in> set (all_terms (concat Ds))" using sub by (auto simp: all_terms_def)
  then have "length t \<le> length (concat (remdups (all_terms (concat Ds))))" by (intro length_le_concat) simp
  then show "length t < 2 ^ 64" using f by (simp add: corpus_fits_def)
  obtain xs ys where Ds: "Ds = xs @ D # ys" using D by (meson split_list)
  have len: "length D \<le> length (concat Ds)" "length (all_terms D) \<le> length (all_terms (concat Ds))" by (simp_all add: Ds all_terms_def)
  have "length (run_bytes 0 (docs_with t D)) \<le> 20 * length D + 10 * length (all_terms D)"
    using run_bytes_length [of 0 "docs_with t D"] docs_with_length [of t D] docs_with_total [of t D] total_le [of D t] by linarith
  then show "length (run_bytes 0 (docs_with t D)) < 2 ^ 64" using len f by (simp add: corpus_fits_def)
qed

section \<open>Postings as the search reads them\<close>

lemma psums_gaps: "sorted (p # qs) \<Longrightarrow> \<forall>q \<in> set qs. q < 2 ^ 64 \<Longrightarrow> psums (int p) (gaps p qs) = map int qs"
proof (induction qs arbitrary: p)
  case (Cons q qs)
  have q: "p \<le> q" "q - p < 2 ^ 64" using Cons.prems by auto
  have "uint (of_nat (q - p) :: 64 word) = int (q - p)" using q(2) by (simp add: unsigned_of_nat take_bit_eq_mod del: of_nat_diff)
  moreover note q(1)
  ultimately have "int p + uint (of_nat (q - p) :: 64 word) = int q" by simp
  then show ?case using Cons.IH [of q] Cons.prems by simp
qed simp

lemma positions_at:
  assumes "length ts < 2 ^ 32"
  shows "positions (to_posting (d, occs t ts)) = map int (occs t ts)"
proof -
  have "sorted (0 # occs t ts)" "\<forall>q \<in> set (occs t ts). q < 2 ^ 64" using sorted_occs [of t ts] assms by auto
  from psums_gaps [OF this] show ?thesis by (simp add: positions_def to_posting_def)
qed

lemma postings_doc: "p \<in> set (postings_in D t) \<longleftrightarrow> (\<exists>d ts. (d, ts) \<in> set D \<and> t \<in> set ts \<and> p = to_posting (d, occs t ts))"
  by (fastforce simp: postings_in_def docs_with_def image_iff)

lemma posting_fits:
  assumes f: "corpus_fits D" and p: "p \<in> set (postings_in D t)"
  shows "positions_ok p \<and> pdoc p < endDoc \<and> length (ppos p) < 2 ^ 32"
proof -
  obtain d ts where d: "(d, ts) \<in> set D" "t \<in> set ts" "p = to_posting (d, occs t ts)" using p by (auto simp: postings_doc)
  have l: "length ts < 2 ^ 32" "d < endDoc" using f d(1) by (auto simp: corpus_fits_def)
  have ps: "positions p = map int (occs t ts)" unfolding d(3) by (rule positions_at [OF l(1)])
  have "count_list ts t \<noteq> 0" using d(2) by (simp add: count_list_0_iff)
  then have o: "length (ppos p) = length (occs t ts)" "ppos p \<noteq> []" using length_occs [of t ts] by (auto simp: d(3) to_posting_def simp flip: length_0_conv)
  have "x < POS_MAX" if "x \<in> set (positions p)" for x
  proof -
    obtain q where "q \<in> set (occs t ts)" "x = int q" using \<open>x \<in> set (positions p)\<close> unfolding ps by auto
    then show ?thesis using sorted_occs(2) [of t ts] l(1) by (auto simp: POS_MAX_def)
  qed
  then show ?thesis using o occs_short [of t ts] l by (simp add: positions_ok_def d(3), simp add: to_posting_def)
qed

lemma postings_sorted: "corpus_fits D \<Longrightarrow> sorted_wrt (<) (map pdoc (postings_in D t))"
proof -
  assume "corpus_fits D"
  then have "sorted_wrt (\<lambda>x y. fst x < fst y) D" by (simp add: corpus_fits_def sorted_wrt_map)
  then have "sorted_wrt (\<lambda>x y. fst x < fst y) (filter (\<lambda>(d, ts). t \<in> set ts) D)" by (rule sorted_wrt_filter)
  then show ?thesis unfolding postings_in_def docs_with_def map_map sorted_wrt_map
    by (rule sorted_wrt_mono_rel [rotated]) (auto simp: to_posting_def)
qed

section \<open>The dictionary of a bucket\<close>

text \<open>\<open>openIndex\<close> on the files of a bucket.\<close>

definition open_dict :: "bucketFiles \<Rightarrow> dict" where
  "open_dict F = \<lparr>dcount = length (fents F) div 24 - 1, entries = fents F, blob = fterms F, ddocs = fdocs F, dpos = fpos F\<rparr>"

lemma length_entry: "length (entry_bytes ts es i) = 24"
  by (simp add: entry_bytes_def split: prod.split)

lemma length_entries: "length (concat (map (entry_bytes ts es) js)) = 24 * length js"
  by (induction js) (simp_all add: length_entry)

lemma bucket_dict:
  assumes r: "runs_at files rms Ds" and fit: "corpus_fits (concat Ds)" and b: "b < numBuckets"
  defines "T \<equiv> bucket_terms (all_terms (concat Ds)) b"
  shows "\<exists>F es. mergeBucket files rms b = Some F \<and> dict_ok (open_dict F) T es
    \<and> (\<forall>i < length T. laid_out (entry_of (open_dict F) (es ! i)) (postings_in (concat Ds) (T ! i)))"
proof -
  let ?D = "concat Ds" and ?P = "postings_in (concat Ds)"
  obtain F es where F: "mergeBucket files rms b = Some F" "written ?P T = (fdocs F, fpos F, es)" "length es = length T"
    "fterms F = concat T" "fents F = concat (map (entry_bytes T es) [0..<length T + 1])"
    using mergeBucket_at [OF r fits_runs [OF fit] b] unfolding T_def by blast
  have T: "distinct T" "set T \<subseteq> set (all_terms ?D)" unfolding T_def using bucket_terms_ok by auto
  have "length (fents F) = 24 * (length T + 1)" unfolding F(5) length_entries by simp
  then have cnt: "dcount (open_dict F) = length T" by (simp add: open_dict_def)
  have "length (concat T) = (\<Sum>t \<in> set T. length t)" using T(1) by (simp add: length_concat sum_list_distinct_conv_sum_set)
  also have "\<dots> \<le> (\<Sum>t \<in> set (all_terms ?D). length t)" by (rule sum_mono2) (use T(2) in auto)
  also have "\<dots> = length (concat (remdups (all_terms ?D)))" by (simp add: length_concat sum_list_distinct_conv_sum_set)
  finally have blob: "length (concat T) < 2 ^ 32" using fit by (simp add: corpus_fits_def)
  have ok: "dict_ok (open_dict F) T es" using F blob cnt bucket_terms_sorted [of "all_terms ?D" b]
    by (simp add: dict_ok_def open_dict_def T_def del: upt_Suc)
  have "(\<Sum>t \<leftarrow> T. total ?D t) < 2 ^ 56" using total_sum [OF T(1), of ?D] fit by (simp add: corpus_fits_def)
  then have size: "length (fdocs F) < 2 ^ 64" "length (fpos F) < 2 ^ 63" using written_size [OF F(2)] by auto
  have "laid_out (entry_of (open_dict F) (es ! i)) (?P (T ! i))" if i: "i < length T" for i
  proof -
    obtain d0 p0 d1 p1 where w: "es ! i = (of_nat (length (?P (T ! i))), of_nat (length d0), of_nat (length p0))"
      "fdocs F = d0 @ list_bytes (of_nat (length p0)) (?P (T ! i)) @ d1" "fpos F = p0 @ pos_bytes (?P (T ! i)) @ p1"
      using written_at [OF F(2) i] by blast
    let ?ps = "?P (T ! i)"
    have "T ! i \<in> set (all_terms ?D)" using T(2) i by (meson nth_mem subsetD)
    note ne = postings_nonempty [OF this]
    have len: "length ?ps < 2 ^ 27" using docs_with_length [of "T ! i" ?D] fit by (simp add: postings_in_def corpus_fits_def)
    have "length (blocks_bytes ?ps (block_count ?ps)) \<le> 20 * length ?ps"
      using blocks_bytes_length [of ?ps "block_count ?ps"] by simp
    then have bl: "length (blocks_bytes ?ps (block_count ?ps)) < 2 ^ 32" using len by simp
    have un: "unat (of_nat (length d0) :: 64 word) = length d0" "unat (of_nat (length p0) :: 64 word) = length p0"
      using size w(2,3) by (simp_all add: unat_of_nat)
    have e: "entry_of (open_dict F) (es ! i) = \<lparr>edf = of_nat (length ?ps), docOff = of_nat (length d0), posOff = of_nat (length p0), edict = open_dict F\<rparr>"
      by (simp add: entry_of_def w(1))
    show ?thesis unfolding e laid_out_def termEntry.simps un
    proof (intro conjI)
      show "sorted_wrt (<) (map pdoc ?ps)" by (rule postings_sorted [OF fit])
      show "\<forall>p \<in> set ?ps. pdoc p < endDoc \<and> length (ppos p) < 2 ^ 32" using posting_fits [OF fit] by blast
      show "length p0 + length (pos_bytes ?ps) < 2 ^ 63" using size(2) unfolding w(3) by simp
      show "\<exists>rest. drop (length d0) (ddocs (open_dict F)) =
          (if block_count ?ps > 1 then skip_bytes_of ?ps (of_nat (length p0)) else []) @ blocks_bytes ?ps (block_count ?ps) @ rest"
        by (rule exI [of _ d1]) (simp add: open_dict_def w(2) list_bytes_def)
      show "\<exists>rest. drop (length p0) (dpos (open_dict F)) = pos_bytes ?ps @ rest"
        by (rule exI [of _ p1]) (simp add: open_dict_def w(3))
    qed (use ne len bl in simp_all)
  qed
  then show ?thesis using F(1) ok by blast
qed

section \<open>The index of a corpus\<close>

text \<open>The postings of every term of the documents \<open>D\<close>.\<close>

definition post_of :: "(32 word \<times> bytes list) list \<Rightarrow> (bytes \<rightharpoonup> posting list)" where
  "post_of D t = (if t \<in> set (all_terms D) then Some (postings_in D t) else None)"

lemma bucket_lookup:
  assumes r: "runs_at files rms Ds" and fit: "corpus_fits (concat Ds)"
  shows "\<exists>F. mergeBucket files rms (termBucket t) = Some F \<and> (case post_of (concat Ds) t of
      None \<Rightarrow> dict_lookup (open_dict F) t = Some None
    | Some ps \<Rightarrow> \<exists>e. dict_lookup (open_dict F) t = Some (Some e) \<and> laid_out e ps)"
proof -
  let ?T = "bucket_terms (all_terms (concat Ds)) (termBucket t)"
  have b: "termBucket t < numBuckets" by (simp add: termBucket_def numBuckets_def Let_def)
  obtain F es where F: "mergeBucket files rms (termBucket t) = Some F" "dict_ok (open_dict F) ?T es"
    "\<forall>i < length ?T. laid_out (entry_of (open_dict F) (es ! i)) (postings_in (concat Ds) (?T ! i))"
    using bucket_dict [OF r fit b] by blast
  have l: "length es = length ?T" using F(2) by (simp add: dict_ok_def)
  note lk = dict_lookup_at [OF F(2), of t]
  show ?thesis
  proof (cases "t \<in> set (all_terms (concat Ds))")
    case True
    then have "t \<in> set ?T" unfolding bucket_terms_ok(3) by simp
    then obtain i where i: "i < length ?T" "?T ! i = t" by (auto simp: in_set_conv_nth)
    have "map_of (zip ?T (map (entry_of (open_dict F)) es)) (?T ! i) = Some (map (entry_of (open_dict F)) es ! i)"
      by (rule map_of_zip_nth) (use i l bucket_terms_ok(2) in auto)
    then have "dict_lookup (open_dict F) t = Some (Some (entry_of (open_dict F) (es ! i)))" using lk i l by simp
    then show ?thesis using F(1,3) i True by (auto simp: post_of_def)
  next
    case False
    then have "t \<notin> set ?T" unfolding bucket_terms_ok(3) by simp
    then have "map_of (zip ?T (map (entry_of (open_dict F)) es)) t = None" using l by (simp add: map_of_zip_is_None)
    then show ?thesis using F(1) lk False by (simp add: post_of_def)
  qed
qed

lemma index_corpus:
  assumes r: "runs_at files rms Ds" and fit: "corpus_fits (concat Ds)"
    and d: "dicts ix = map (\<lambda>b. open_dict (the (mergeBucket files rms b))) [0..<numBuckets]"
    and n: "ixn ix = of_nat (length (concat Ds))" "length (ids ix) = length (concat Ds)" "length (dls ix) = length (concat Ds)"
      "\<forall>(d, ts) \<in> set (concat Ds). unat d < length (concat Ds)"
  shows "corpus ix (post_of (concat Ds))"
proof -
  let ?D = "concat Ds"
  have len: "length ?D < 2 ^ 27" using fit by (simp add: corpus_fits_def)
  then have un: "unat (ixn ix) = length ?D" by (simp add: n(1) unat_of_nat)
  have "index_lookup ix t = dict_lookup (open_dict (the (mergeBucket files rms (termBucket t)))) t" for t
    by (simp add: index_lookup_def idx_def d termBucket_def numBuckets_def Let_def)
  note lk = this
  have "index_models ix (post_of ?D)" unfolding index_models_def
  proof
    fix t
    obtain F where F: "mergeBucket files rms (termBucket t) = Some F" "case post_of ?D t of None \<Rightarrow> dict_lookup (open_dict F) t = Some None
      | Some ps \<Rightarrow> \<exists>e. dict_lookup (open_dict F) t = Some (Some e) \<and> laid_out e ps" using bucket_lookup [OF r fit, of t] by blast
    show "case post_of ?D t of None \<Rightarrow> index_lookup ix t = Some None | Some ps \<Rightarrow> \<exists>e. index_lookup ix t = Some (Some e) \<and> laid_out e ps"
      unfolding lk F(1) option.sel by (rule F(2))
  qed
  moreover have "positions_ok p \<and> unat (pdoc p) < length ?D" if "post_of ?D t = Some ps" "p \<in> set ps" for t ps p
  proof -
    have p: "p \<in> set (postings_in ?D t)" using that by (auto simp: post_of_def split: if_splits)
    then obtain d ts where "(d, ts) \<in> set ?D" "p = to_posting (d, occs t ts)" by (auto simp: postings_doc)
    then show ?thesis using posting_fits [OF fit p] n(4) by (auto simp: to_posting_def)
  qed
  ultimately show ?thesis using len n(2,3) un by (simp add: corpus_def)
qed

end
