(* ===== verification/Search_Index.thy ===== *)
theory Search_Index
  imports Search_Built
begin

text \<open>
  The indexer as a whole (\<open>runIndex\<close> and \<open>writeDocData\<close> in \<open>search/impl/go-1/index.go\<close>) and \<open>openIndex\<close> of
  \<open>serve.go\<close>. How many bytes a read delivers beyond the wanted ones, which worker takes which chunk and the
  order in which the results arrive are parameters, as is the encoder of compressed blocks. A worker sees its
  chunks in the order of the channel; workers share nothing, so the chunks are processed one after the other.
\<close>

section \<open>Reading the corpus in chunks\<close>

definition chunkSize :: nat where "chunkSize = 8388608"

text \<open>\<open>bytes.LastIndexByte\<close>.\<close>

definition lastIndexByte :: "bytes \<Rightarrow> byte \<Rightarrow> nat option" where
  "lastIndexByte s c = (let k = length (takeWhile (\<lambda>x. x \<noteq> c) (rev s)) in if k < length s then Some (length s - 1 - k) else None)"

lemma lastIndexByte_Some: "lastIndexByte s c = Some j \<Longrightarrow> j < length s \<and> s ! j = c"
proof -
  assume l: "lastIndexByte s c = Some j"
  let ?k = "length (takeWhile (\<lambda>x. x \<noteq> c) (rev s))"
  have k: "?k < length (rev s)" "j = length s - 1 - ?k" using l by (auto simp: lastIndexByte_def Let_def split: if_splits)
  have "rev s ! ?k = c" using nth_length_takeWhile [OF k(1)] by simp
  then show ?thesis using k by (simp add: rev_nth)
qed

definition read_target :: "bytes \<Rightarrow> nat" where
  "read_target carry = (if length carry \<ge> chunkSize div 2 then 2 * length carry + chunkSize else chunkSize)"

lemma read_target_more: "length carry < read_target carry"
  by (simp add: read_target_def chunkSize_def)

text \<open>The loop of the reading goroutine: the rest of the last line is carried over to the next chunk. The file
  ends when fewer bytes are left than are wanted.\<close>

function read_chunks :: "(nat \<Rightarrow> nat) \<Rightarrow> nat \<Rightarrow> bytes \<Rightarrow> nat \<Rightarrow> 32 word \<Rightarrow> bytes \<Rightarrow> chunk list" where
  "read_chunks extra it carry i b rest =
     (let need = read_target carry - length carry in
      if length rest < need then [\<lparr>cidx = i, cbase = b, ccount = countDocs (carry @ rest), cdata = carry @ rest\<rparr>]
      else
        let k = min (need + extra it) (length rest); buf = carry @ take k rest in
        case lastIndexByte buf (CHR 0x0A) of
          None \<Rightarrow> read_chunks extra (it + 1) buf i b (drop k rest)
        | Some j \<Rightarrow>
            let data = take (j + 1) buf; n = countDocs data in
            \<lparr>cidx = i, cbase = b, ccount = n, cdata = data\<rparr> # read_chunks extra (it + 1) (drop (j + 1) buf) (i + 1) (b + of_nat n) (drop k rest))"
  by pat_completeness auto
termination
proof (relation "measure (\<lambda>(extra, it, carry, i, b, rest). length rest)", goal_cases)
  case (2 extra it carry i b rest x k buf)
  then have "0 < k" "k \<le> length rest" using read_target_more [of carry] by auto
  then show ?case by simp
next
  case (3 extra it carry i b rest x k buf j data n)
  then have "0 < k" "k \<le> length rest" using read_target_more [of carry] by auto
  then show ?case by simp
qed simp

declare read_chunks.simps [simp del]

section \<open>The documents in order\<close>

record docData =
  wids :: bytes
  wdls :: bytes
  wtitles :: bytes
  wtitleoff :: bytes
  wstore :: bytes
  wstoreidx :: bytes
  wall :: "32 word list"
  wtoff :: "64 word"
  wsoff :: "64 word"
  wN :: "64 word"
  wTokens :: "64 word"

definition emit_block :: "docData \<Rightarrow> storeBlock \<Rightarrow> docData" where
  "emit_block w b = w\<lparr>wstoreidx := wstoreidx w @ le_put32 (sbFirst b) @ le_bytes 8 (wsoff w), wstore := wstore w @ sbData b,
     wsoff := wsoff w + of_nat (length (sbData b))\<rparr>"

text \<open>A missing length or title end panics.\<close>

definition emit :: "chunkResult \<Rightarrow> docData \<Rightarrow> docData option" where
  "emit r w =
     (let n = length (rids r) in
      if length (rdls r) < n \<or> length (rends r) < n then None
      else
        let w = w\<lparr>wids := wids w @ concat (map le_put32 (rids r)), wdls := wdls w @ concat (map le_put32 (take n (rdls r))),
                  wtitleoff := wtitleoff w @ concat (map (\<lambda>t. le_bytes 8 (wtoff w + ucast t)) (take n (rends r)))\<rparr>;
            w = w\<lparr>wall := wall w @ rids r, wtitles := wtitles w @ rblob r, wtoff := wtoff w + of_nat (length (rblob r))\<rparr>;
            w = foldl emit_block w (rblocks r)
        in Some (w\<lparr>wN := wN w + of_nat n, wTokens := wTokens w + rtokens r\<rparr>))"

text \<open>\<open>pending\<close> is the list of the results that have arrived and wait for their turn.\<close>

function drain :: "chunkResult list \<Rightarrow> nat \<Rightarrow> docData \<Rightarrow> (chunkResult list \<times> nat \<times> docData) option" where
  "drain pending k w =
     (case find (\<lambda>r. ridx r = k) pending of
        None \<Rightarrow> Some (pending, k, w)
      | Some p \<Rightarrow> (case emit p w of None \<Rightarrow> None | Some w \<Rightarrow> drain (filter (\<lambda>r. ridx r \<noteq> k) pending) (k + 1) w))"
  by pat_completeness auto
termination
proof (relation "measure (\<lambda>(pending, k, w). length pending)", goal_cases)
  case (2 pending k w p w')
  then have "p \<in> set pending" "ridx p = k" by (auto simp: find_Some_iff)
  then have "length (filter (\<lambda>r. ridx r \<noteq> k) pending) < length pending" by (intro length_filter_less) auto
  then show ?case by simp
qed simp

declare drain.simps [simp del]

fun collect :: "chunkResult list \<Rightarrow> chunkResult list \<Rightarrow> nat \<Rightarrow> docData \<Rightarrow> docData option" where
  "collect [] pending k w = Some w"
| "collect (r # rs) pending k w =
     (case drain (r # filter (\<lambda>p. ridx p \<noteq> ridx r) pending) k w of
        None \<Rightarrow> None
      | Some (pending, k, w) \<Rightarrow> collect rs pending k w)"

definition writeDocData :: "chunkResult list \<Rightarrow> docData option" where
  "writeDocData rs =
     (case collect rs [] 0 \<lparr>wids = [], wdls = [], wtitles = [], wtitleoff = le_bytes 8 0, wstore = [], wstoreidx = [], wall = [],
        wtoff = 0, wsoff = 0, wN = 0, wTokens = 0\<rparr> of
        None \<Rightarrow> None
      | Some w \<Rightarrow> Some (w\<lparr>wstoreidx := wstoreidx w @ le_put32 (ucast (wN w)) @ le_bytes 8 (wsoff w)\<rparr>))"

section \<open>The whole run\<close>

datatype index_error = InvalidLine "32 word" | MissingRun

record indexFiles =
  xN :: "64 word"
  xTokens :: "64 word"
  xBuckets :: nat
  xbucket :: "bucketFiles list"
  xdocs :: docData
  xidmap :: bytes

fun run_chunks :: "unicode \<Rightarrow> (bytes \<Rightarrow> bytes) \<Rightarrow> (nat \<Rightarrow> nat) \<Rightarrow> chunk list \<Rightarrow> worker list
    \<Rightarrow> (32 word + (chunkResult \<times> runMeta) list \<times> worker list) option" where
  "run_chunks u e who [] ws = Some (Inr ([], ws))"
| "run_chunks u e who (c # cs) ws =
     (case process_chunk u e c (ws ! who (cidx c)) of
        None \<Rightarrow> None
      | Some (Inl d) \<Rightarrow> Some (Inl d)
      | Some (Inr (r, rm, w)) \<Rightarrow> (case run_chunks u e who cs (ws[who (cidx c) := w]) of
          None \<Rightarrow> None
        | Some (Inl d) \<Rightarrow> Some (Inl d)
        | Some (Inr (rs, ws)) \<Rightarrow> Some (Inr ((r, rm) # rs, ws))))"

definition run_list :: "(nat \<times> runMeta) list \<Rightarrow> runMeta list option" where
  "run_list rs = those (map (map_of rs) [0..<length rs])"

definition mergeRuns :: "bytes list \<Rightarrow> runMeta list \<Rightarrow> bucketFiles list option" where
  "mergeRuns files rms = those (map (mergeBucket files rms) [0..<numBuckets])"

definition runIndex :: "unicode \<Rightarrow> (bytes \<Rightarrow> bytes) \<Rightarrow> (nat \<Rightarrow> nat) \<Rightarrow> nat \<Rightarrow> (nat \<Rightarrow> nat) \<Rightarrow> (chunkResult list \<Rightarrow> chunkResult list) \<Rightarrow> bytes
    \<Rightarrow> (index_error + indexFiles) option" where
  "runIndex u e extra nw who arrive file =
     (case run_chunks u e who (read_chunks extra 0 [] 0 0 file) (map new_worker [0..<nw]) of
        None \<Rightarrow> None
      | Some (Inl d) \<Rightarrow> Some (Inl (InvalidLine d))
      | Some (Inr (out, ws)) \<Rightarrow> (case writeDocData (arrive (map fst out)) of
          None \<Rightarrow> None
        | Some w \<Rightarrow> (case run_list (map (\<lambda>(r, rm). (ridx r, rm)) out) of
            None \<Rightarrow> Some (Inl MissingRun)
          | Some rms \<Rightarrow> (case mergeRuns (map wout ws) rms of
              None \<Rightarrow> None
            | Some bs \<Rightarrow> Some (Inr \<lparr>xN = wN w, xTokens = wTokens w, xBuckets = numBuckets, xbucket = bs, xdocs = w, xidmap = writeIDMap (wall w)\<rparr>)))))"

text \<open>The constants of the ranking, from the length of the average document: \<open>bm25K1 * (1 - bm25B)\<close> and
  \<open>bm25K1 * bm25B\<close> are exact constants in Go.\<close>

definition norm_constants :: "('s :: linorder) floats \<Rightarrow> nat \<Rightarrow> nat \<Rightarrow> 's \<times> 's" where
  "norm_constants F n m =
     (let avgdl = if n > 0 then fdiv F (of_uint F m) (of_uint F n) else of_uint F 0
      in if avgdl > of_uint F 0 then (lit F 3 10, fdiv F (lit F 9 10) avgdl) else (of_uint F 0, of_uint F 0))"

definition openIndex :: "('s :: linorder) floats \<Rightarrow> indexFiles \<Rightarrow> 's index option" where
  "openIndex F x =
     (if xBuckets x \<noteq> numBuckets then None
      else
        let w = xdocs x; c = norm_constants F (unat (xN x)) (unat (xTokens x))
        in Some \<lparr>ixn = xN x, dicts = map open_dict (xbucket x), ids = asU32 (wids w), dls = asU32 (wdls w), titles = wtitles w,
             titleOff = asU64 (wtitleoff w), storeFile = wstore w, storeIdx = wstoreidx w, nBlocks = length (wstoreidx w) div 12 - 1,
             idmap = asU32 (xidmap x), normC1 = fst c, normC2 = snd c\<rparr>)"

end
