(* ===== verification/Search_Pipeline.thy ===== *)
theory Search_Pipeline
  imports Search_Index
begin

text \<open>
  From the bytes of the corpus to the runs: however the corpus is cut into chunks and whichever worker takes
  them, the chunks hold the lines of the corpus in order and the runs hold the documents of the chunks.
\<close>

section \<open>Chunks and lines\<close>

lemma lines_of_append: "xs = [] \<or> last xs = CHR 0x0A \<Longrightarrow> lines_of (xs @ ys) = lines_of xs @ lines_of ys"
proof (induction xs rule: lines_of.induct)
  case (1 xs)
  show ?case
  proof (cases "xs = []")
    case True
    then show ?thesis by (simp add: lines_of.simps [of "[]"])
  next
    case False
    let ?p = "\<lambda>c :: byte. c \<noteq> CHR 0x0A"
    let ?n = "length (takeWhile ?p xs) + 1"
    have nl: "CHR 0x0A \<in> set xs" using 1(2) False by (metis last_in_set)
    then have t: "takeWhile ?p (xs @ ys) = takeWhile ?p xs" by (rule takeWhile_append1) simp
    have n: "?n \<le> length xs"
    proof (rule ccontr)
      assume "\<not> ?n \<le> length xs"
      then have "length (takeWhile ?p xs) = length xs" using length_takeWhile_le [of ?p xs] by simp
      then have all: "takeWhile ?p xs = xs" using takeWhile_eq_take [of ?p xs] by simp
      have "CHR 0x0A \<in> set (takeWhile ?p xs)" unfolding all by (rule nl)
      then show False using set_takeWhileD by fastforce
    qed
    have "drop ?n xs = [] \<or> last (drop ?n xs) = CHR 0x0A" using 1(2) False by (cases "?n < length xs") (auto simp: last_drop)
    note IH = "1.IH" [OF False refl this]
    have "lines_of (xs @ ys) = takeWhile ?p xs # lines_of (drop ?n xs @ ys)"
      using False n by (subst lines_of.simps) (simp add: t Let_def)
    also have "\<dots> = (takeWhile ?p xs # lines_of (drop ?n xs)) @ lines_of ys" unfolding IH by simp
    also have "takeWhile ?p xs # lines_of (drop ?n xs) = lines_of xs" using False by (subst (2) lines_of.simps) (simp add: Let_def)
    finally show ?thesis .
  qed
qed

lemma countDocs_lines: "countDocs data = length (filter (\<lambda>l. \<not> isBlank l) (lines_of data))"
proof (induction data rule: lines_of.induct)
  case (1 data)
  show ?case
  proof (cases "data = []")
    case False
    then show ?thesis using "1.IH" [OF False refl] by (subst countDocs.simps, subst lines_of.simps) (simp add: Let_def)
  qed (simp add: countDocs.simps lines_of.simps)
qed

text \<open>Chunks are numbered in order, each from the number of documents before it.\<close>

fun chunked :: "nat \<Rightarrow> 32 word \<Rightarrow> chunk list \<Rightarrow> bool" where
  "chunked i b [] = True"
| "chunked i b (c # cs) = (cidx c = i \<and> cbase c = b \<and> chunked (i + 1) (b + of_nat (countDocs (cdata c))) cs)"

lemma read_chunks_ok:
  "chunked i b (read_chunks extra it carry i b rest) \<and> concat (map (\<lambda>c. lines_of (cdata c)) (read_chunks extra it carry i b rest)) = lines_of (carry @ rest)"
proof (induction extra it carry i b rest rule: read_chunks.induct)
  case (1 extra it carry i b rest)
  let ?need = "read_target carry - length carry"
  show ?case
  proof (cases "length rest < ?need")
    case True
    then show ?thesis by (subst (1 2) read_chunks.simps) simp
  next
    case False
    let ?k = "min (?need + extra it) (length rest)"
    let ?buf = "carry @ take ?k rest"
    show ?thesis
    proof (cases "lastIndexByte ?buf (CHR 0x0A)")
      case None
      have "read_chunks extra it carry i b rest = read_chunks extra (it + 1) ?buf i b (drop ?k rest)"
        using False None by (subst read_chunks.simps) (simp add: Let_def)
      then show ?thesis using "1.IH"(1) [OF refl False refl refl None] by simp
    next
      case (Some j)
      let ?data = "take (j + 1) ?buf"
      note j = lastIndexByte_Some [OF Some]
      have r: "read_chunks extra it carry i b rest = \<lparr>cidx = i, cbase = b, ccount = countDocs ?data, cdata = ?data\<rparr>
          # read_chunks extra (it + 1) (drop (j + 1) ?buf) (i + 1) (b + of_nat (countDocs ?data)) (drop ?k rest)"
        using False Some by (subst read_chunks.simps) (simp add: Let_def)
      note IH = "1.IH"(2) [OF refl False refl refl Some refl refl]
      have "?data = take j ?buf @ [?buf ! j]" using take_Suc_conv_app_nth [OF conjunct1 [OF j]] by (simp only: Suc_eq_plus1)
      then have "last ?data = CHR 0x0A" using conjunct2 [OF j] by (simp only: last_snoc)
      then have "lines_of (?data @ (drop (j + 1) ?buf @ drop ?k rest)) = lines_of ?data @ lines_of (drop (j + 1) ?buf @ drop ?k rest)"
        by (intro lines_of_append) simp
      moreover have "?data @ (drop (j + 1) ?buf @ drop ?k rest) = carry @ rest"
        unfolding append_assoc [symmetric] append_take_drop_id by (simp add: append_assoc)
      ultimately show ?thesis unfolding r using IH by simp
    qed
  qed
qed

lemma those_append: "those (xs @ ys) = Some zs \<longleftrightarrow> (\<exists>as bs. those xs = Some as \<and> those ys = Some bs \<and> zs = as @ bs)"
  by (induction xs arbitrary: zs) (auto split: option.splits)

lemma those_length: "those xs = Some ys \<Longrightarrow> length ys = length xs"
  by (induction xs arbitrary: ys) (auto split: option.splits)

text \<open>The documents of the chunks are those of the corpus.\<close>

lemma chunks_docs:
  "those (map parseLine_doc (filter (\<lambda>l. \<not> isBlank l) (concat (map (\<lambda>c. lines_of (cdata c)) cs)))) = Some ds \<Longrightarrow>
     \<exists>dss. list_all2 (\<lambda>c es. chunk_docs (cdata c) = Some es) cs dss \<and> concat dss = ds"
proof (induction cs arbitrary: ds)
  case (Cons c cs)
  obtain as bs where a: "chunk_docs (cdata c) = Some as" "those (map parseLine_doc (filter (\<lambda>l. \<not> isBlank l) (concat (map (\<lambda>c. lines_of (cdata c)) cs)))) = Some bs"
    "ds = as @ bs" using Cons.prems by (auto simp: those_append chunk_docs_def)
  obtain dss where "list_all2 (\<lambda>c es. chunk_docs (cdata c) = Some es) cs dss" "concat dss = bs" using Cons.IH [OF a(2)] by blast
  then show ?case using a by (intro exI [of _ "as # dss"]) simp
qed simp

lemma corpus_docs:
  assumes "chunk_docs src = Some ds"
  shows "\<exists>dss. chunked 0 0 (read_chunks extra 0 [] 0 0 src) \<and> list_all2 (\<lambda>c es. chunk_docs (cdata c) = Some es) (read_chunks extra 0 [] 0 0 src) dss
    \<and> concat dss = ds"
  using chunks_docs [of "read_chunks extra 0 [] 0 0 src" ds] read_chunks_ok [of 0 0 extra 0 "[]" src] assms by (auto simp: chunk_docs_def)

lemma chunk_docs_count: "chunk_docs data = Some ds \<Longrightarrow> countDocs data = length ds"
  by (auto simp: chunk_docs_def countDocs_lines dest: those_length)

section \<open>The workers\<close>

lemma number_docs_append: "number_docs u n (ds @ es) = number_docs u n ds @ number_docs u (n + of_nat (length ds)) es"
  by (induction ds arbitrary: n) (auto simp: algebra_simps)

lemma ready_mono: "ready w m \<Longrightarrow> m \<le> m' \<Longrightarrow> ready w m'"
  by (force simp: ready_def stamped_def)

definition run_ok :: "unicode \<Rightarrow> (bytes \<Rightarrow> bytes) \<Rightarrow> worker list \<Rightarrow> chunkResult \<times> runMeta \<Rightarrow> chunk \<times> rawDoc list \<Rightarrow> bool" where
  "run_ok u e ws x c \<longleftrightarrow> result_ok u e (fst x) (snd c) \<and> blocks_hold e (rblocks (fst x)) (cbase (fst c)) (snd c) \<and> ridx (fst x) = cidx (fst c)
     \<and> rfile (snd x) < length ws \<and> run_in (wout (ws ! rfile (snd x))) (snd x) (number_docs u (cbase (fst c)) (snd c))"

definition grown :: "worker list \<Rightarrow> worker list \<Rightarrow> bool" where
  "grown ws ws' \<longleftrightarrow> length ws' = length ws \<and> (\<forall>j < length ws. wid (ws' ! j) = wid (ws ! j) \<and> (\<exists>xs. wout (ws' ! j) = wout (ws ! j) @ xs))"

lemma run_ok_grown: "run_ok u e ws x c \<Longrightarrow> grown ws ws' \<Longrightarrow> run_ok u e ws' x c"
  unfolding run_ok_def grown_def by (metis run_in_append)

lemma those_set: "those (map f ls) = Some ds \<Longrightarrow> d \<in> set ds \<Longrightarrow> \<exists>l \<in> set ls. f l = Some d"
  by (induction ls arbitrary: ds) (auto split: option.splits)

lemma process_chunk_step:
  assumes j: "k < length ws" "\<forall>j < length ws. wid (ws ! j) = j \<and> ready (ws ! j) (unat b)" and c: "cbase c = b" "chunk_docs (cdata c) = Some ds"
    and small: "unat b + length ds < 2 ^ 32" "\<forall>d \<in> set ds. length (doc_tokens u d) < 2 ^ 32"
  shows "\<exists>r rm w'. process_chunk u e c (ws ! k) = Some (Inr (r, rm, w')) \<and> unat (b + of_nat (length ds)) = unat b + length ds
    \<and> (\<forall>j < length (ws[k := w']). wid (ws[k := w'] ! j) = j \<and> ready (ws[k := w'] ! j) (unat (b + of_nat (length ds))))
    \<and> grown ws (ws[k := w']) \<and> run_ok u e (ws[k := w']) (r, rm) (c, ds)"
proof -
  have w: "wid (ws ! k) = k" "ready (ws ! k) (unat b)" using j by auto
  have sm: "unat (cbase c) + length ds < 2 ^ 32" using small(1) c(1) by simp
  obtain r rm w' where p: "process_chunk u e c (ws ! k) = Some (Inr (r, rm, w'))" "result_ok u e r ds" "blocks_hold e (rblocks r) (cbase c) ds"
    "ridx r = cidx c" "rfile rm = k" "\<exists>xs. wout w' = wout (ws ! k) @ xs" "run_in (wout w') rm (number_docs u (cbase c) ds)"
    "ready w' (unat b + length ds)" "wid w' = k"
    using process_chunk_ok [OF w(2) _ c(2) sm small(2)] c(1) w(1) by fastforce
  have ub: "unat (b + of_nat (length ds)) = unat b + length ds" using small(1) by (simp add: unat_word_ariths unat_of_nat take_bit_eq_mod)
  have "\<forall>j < length (ws[k := w']). wid (ws[k := w'] ! j) = j \<and> ready (ws[k := w'] ! j) (unat b + length ds)"
    using j p(8,9) ready_mono [of _ "unat b" "unat b + length ds"] by (auto simp: nth_list_update)
  moreover have "grown ws (ws[k := w'])" using p(6,9) j(1) w(1) by (auto simp: grown_def nth_list_update)
  moreover have "run_ok u e (ws[k := w']) (r, rm) (c, ds)" using p j(1) by (simp add: run_ok_def)
  ultimately show ?thesis unfolding ub using p(1) by blast
qed

lemma run_chunks_ok:
  "chunked i b cs \<Longrightarrow> list_all2 (\<lambda>c es. chunk_docs (cdata c) = Some es) cs dss \<Longrightarrow> unat b + length (concat dss) < 2 ^ 32 \<Longrightarrow>
     \<forall>d \<in> set (concat dss). length (doc_tokens u d) < 2 ^ 32 \<Longrightarrow> \<forall>k. who k < length ws \<Longrightarrow>
     \<forall>j < length ws. wid (ws ! j) = j \<and> ready (ws ! j) (unat b) \<Longrightarrow>
     \<exists>out ws'. run_chunks u e who cs ws = Some (Inr (out, ws')) \<and> grown ws ws' \<and> list_all2 (run_ok u e ws') out (zip cs dss)"
proof (induction cs arbitrary: i b dss ws)
  case Nil
  then show ?case by (auto simp: grown_def)
next
  case (Cons c cs)
  obtain ds dss' where d: "dss = ds # dss'" "chunk_docs (cdata c) = Some ds" "list_all2 (\<lambda>c es. chunk_docs (cdata c) = Some es) cs dss'"
    using Cons.prems(2) by (auto simp: list_all2_Cons1)
  have c: "cidx c = i" "cbase c = b" "chunked (i + 1) (b + of_nat (length ds)) cs" using Cons.prems(1) chunk_docs_count [OF d(2)] by simp_all
  let ?ws = "\<lambda>w'. ws[who (cidx c) := w']"
  have small: "unat b + length ds < 2 ^ 32" "\<forall>d \<in> set ds. length (doc_tokens u d) < 2 ^ 32" "who (cidx c) < length ws"
    using Cons.prems(3-5) d(1) by auto
  obtain r rm w' where p: "process_chunk u e c (ws ! who (cidx c)) = Some (Inr (r, rm, w'))" "unat (b + of_nat (length ds)) = unat b + length ds"
    "\<forall>j < length (?ws w'). wid (?ws w' ! j) = j \<and> ready (?ws w' ! j) (unat (b + of_nat (length ds)))" "grown ws (?ws w')" "run_ok u e (?ws w') (r, rm) (c, ds)"
    using process_chunk_step [OF small(3) Cons.prems(6) c(2) d(2) small(1,2), of e] by blast
  have "unat (b + of_nat (length ds)) + length (concat dss') < 2 ^ 32" "\<forall>d \<in> set (concat dss'). length (doc_tokens u d) < 2 ^ 32"
    "\<forall>k. who k < length (?ws w')" using Cons.prems(3-5) d(1) unfolding p(2) by auto
  from Cons.IH [OF c(3) d(3) this p(3)] obtain out ws' where IH: "run_chunks u e who cs (?ws w') = Some (Inr (out, ws'))" "grown (?ws w') ws'"
    "list_all2 (run_ok u e ws') out (zip cs dss')" by blast
  have "grown ws ws'" using p(4) IH(2) unfolding grown_def by (metis append_assoc)
  moreover have "run_ok u e ws' (r, rm) (c, ds)" by (rule run_ok_grown [OF p(5) IH(2)])
  moreover have "run_chunks u e who (c # cs) ws = Some (Inr ((r, rm) # out, ws'))" using p(1) IH(1) by simp
  ultimately show ?case using IH(3) d(1) by (intro exI [of _ "(r, rm) # out"] exI [of _ ws']) simp
qed

lemma run_chunks_docs:
  "chunked i b cs \<Longrightarrow> list_all2 (\<lambda>c es. chunk_docs (cdata c) = Some es) cs dss \<Longrightarrow>
     concat (map (\<lambda>(c, ds). number_docs u (cbase c) ds) (zip cs dss)) = number_docs u b (concat dss)"
proof (induction cs arbitrary: i b dss)
  case (Cons c cs)
  obtain ds dss' where d: "dss = ds # dss'" "chunk_docs (cdata c) = Some ds" "list_all2 (\<lambda>c es. chunk_docs (cdata c) = Some es) cs dss'"
    using Cons.prems(2) by (auto simp: list_all2_Cons1)
  have c: "cbase c = b" "chunked (i + 1) (b + of_nat (length ds)) cs" using Cons.prems(1) chunk_docs_count [OF d(2)] by simp_all
  show ?case using Cons.IH [OF c(2) d(3)] by (simp add: d(1) c(1) number_docs_append)
qed simp

text \<open>A line that is no object stops the run.\<close>

lemma those_None: "those xs = None \<Longrightarrow> \<exists>ys zs as. xs = ys @ None # zs \<and> those ys = Some as"
proof (induction xs)
  case (Cons x xs)
  show ?case
  proof (cases x)
    case None
    then show ?thesis by (intro exI [of _ "[]"] exI [of _ xs]) auto
  next
    case (Some a)
    then have "those xs = None" using Cons.prems by (auto split: option.splits)
    then obtain ys zs as where "xs = ys @ None # zs" "those ys = Some as" using Cons.IH by blast
    then show ?thesis using Some by (intro exI [of _ "x # ys"] exI [of _ zs]) auto
  qed
qed simp

definition kept_lines :: "bytes list \<Rightarrow> bytes list" where
  "kept_lines ls = filter (\<lambda>l. \<not> isBlank l) ls"

lemma kept_lines_append: "kept_lines (xs @ ys) = kept_lines xs @ kept_lines ys"
  by (simp add: kept_lines_def)

lemma chunk_docs_kept: "chunk_docs data = those (map parseLine_doc (kept_lines (lines_of data)))"
  by (simp add: chunk_docs_def kept_lines_def)

lemma process_chunk_fails:
  assumes "chunk_docs (cdata c) = None" and w: "ready w m" "m \<le> unat (cbase c)"
    and small: "unat (cbase c) + length (kept_lines (lines_of (cdata c))) < 2 ^ 32"
      "\<forall>l \<in> set (kept_lines (lines_of (cdata c))). \<forall>d. parseLine_doc l = Some d \<longrightarrow> length (doc_tokens u d) < 2 ^ 32"
  shows "\<exists>k < length (kept_lines (lines_of (cdata c))). parseLine_doc (kept_lines (lines_of (cdata c)) ! k) = None
    \<and> process_chunk u e c w = Some (Inl (cbase c + of_nat k))"
proof -
  let ?ls = "kept_lines (lines_of (cdata c))"
  obtain ys zs as where y: "map parseLine_doc ?ls = ys @ None # zs" "those ys = Some as"
    using those_None [OF assms(1) [unfolded chunk_docs_kept]] by blast
  then obtain ls l xs where l: "?ls = ls @ l # xs" "ys = map parseLine_doc ls" "parseLine_doc l = None"
    by (auto simp: map_eq_append_conv map_eq_Cons_conv)
  have len: "length as = length ls" using those_length [OF y(2)] l(2) by simp
  have as: "those (map parseLine_doc ls) = Some as" using y(2) l(2) by simp
  have "length (doc_tokens u d) < 2 ^ 32" if d: "d \<in> set as" for d
    using those_set [OF as d] small(2) l(1) by auto
  moreover have "unat (cbase c) + length as < 2 ^ 32" using small(1) len l(1) by simp
  ultimately have "process_chunk u e c w = Some (Inl (cbase c + of_nat (length as)))"
    using process_chunk_error [OF w l(1) [unfolded kept_lines_def] as l(3)] by blast
  then show ?thesis using l(1,3) len by (intro exI [of _ "length ls"]) simp
qed

lemma run_chunks_error:
  defines "kept \<equiv> \<lambda>cs. kept_lines (concat (map (\<lambda>c. lines_of (cdata c)) cs))"
  shows "chunked i b cs \<Longrightarrow> those (map parseLine_doc (kept cs)) = None \<Longrightarrow> unat b + length (kept cs) < 2 ^ 32 \<Longrightarrow>
     \<forall>l \<in> set (kept cs). \<forall>d. parseLine_doc l = Some d \<longrightarrow> length (doc_tokens u d) < 2 ^ 32 \<Longrightarrow>
     \<forall>k. who k < length ws \<Longrightarrow> \<forall>j < length ws. wid (ws ! j) = j \<and> ready (ws ! j) (unat b) \<Longrightarrow>
     \<exists>k < length (kept cs). parseLine_doc (kept cs ! k) = None \<and> run_chunks u e who cs ws = Some (Inl (b + of_nat k))"
proof (induction cs arbitrary: i b ws)
  case Nil
  then show ?case by (simp add: kept_def kept_lines_def)
next
  case (Cons c cs)
  let ?here = "kept_lines (lines_of (cdata c))" and ?j = "who (cidx c)"
  have all: "kept (c # cs) = ?here @ kept cs" by (simp add: kept_def kept_lines_append)
  have c: "cidx c = i" "cbase c = b" using Cons.prems(1) by simp_all
  have j: "?j < length ws" "ready (ws ! ?j) (unat b)" using Cons.prems(5,6) by auto
  have small: "unat (cbase c) + length ?here < 2 ^ 32" "\<forall>l \<in> set ?here. \<forall>d. parseLine_doc l = Some d \<longrightarrow> length (doc_tokens u d) < 2 ^ 32"
    using Cons.prems(3,4) c by (auto simp: all)
  show ?case
  proof (cases "chunk_docs (cdata c)")
    case None
    have "unat b \<le> unat (cbase c)" using c by simp
    from process_chunk_fails [OF None j(2) this small, of e] obtain k where k: "k < length ?here" "parseLine_doc (?here ! k) = None"
      "process_chunk u e c (ws ! ?j) = Some (Inl (cbase c + of_nat k))" by blast
    show ?thesis by (rule exI [of _ k]) (use k c in \<open>simp add: all nth_append\<close>)
  next
    case (Some ds)
    have ds: "length ds = length ?here" using Some by (auto simp: chunk_docs_kept dest: those_length)
    have toks: "\<forall>d \<in> set ds. length (doc_tokens u d) < 2 ^ 32" using those_set [OF Some [unfolded chunk_docs_kept]] small(2) by blast
    have "unat b + length ds < 2 ^ 32" using small(1) c(2) ds by simp
    from process_chunk_step [OF j(1) Cons.prems(6) c(2) Some this toks, of e]
    obtain r rm w' where p: "process_chunk u e c (ws ! ?j) = Some (Inr (r, rm, w'))" "unat (b + of_nat (length ds)) = unat b + length ds"
      "\<forall>m < length (ws[?j := w']). wid (ws[?j := w'] ! m) = m \<and> ready (ws[?j := w'] ! m) (unat (b + of_nat (length ds)))" by blast
    have ch: "chunked (i + 1) (b + of_nat (length ds)) cs" using Cons.prems(1) chunk_docs_count [OF Some] by simp
    have n: "those (map parseLine_doc (kept cs)) = None"
    proof (rule ccontr)
      assume "those (map parseLine_doc (kept cs)) \<noteq> None"
      then obtain bs where "those (map parseLine_doc (kept cs)) = Some bs" by blast
      then have "those (map parseLine_doc (kept (c # cs))) = Some (ds @ bs)" using Some by (simp add: all chunk_docs_kept those_append)
      then show False using Cons.prems(2) by simp
    qed
    have "unat (b + of_nat (length ds)) + length (kept cs) < 2 ^ 32" "\<forall>l \<in> set (kept cs). \<forall>d. parseLine_doc l = Some d \<longrightarrow> length (doc_tokens u d) < 2 ^ 32"
      "\<forall>k. who k < length (ws[?j := w'])" using Cons.prems(3-5) p(2) ds by (auto simp: all)
    from Cons.IH [OF ch n this p(3)] obtain k where k: "k < length (kept cs)" "parseLine_doc (kept cs ! k) = None"
      "run_chunks u e who cs (ws[?j := w']) = Some (Inl (b + of_nat (length ds) + of_nat k))" by blast
    show ?thesis by (rule exI [of _ "length ds + k"]) (use k p(1) ds in \<open>simp add: all nth_append add.assoc\<close>)
  qed
qed

end
