(* ===== verification/Search_Store.thy ===== *)
theory Search_Store
  imports Search_Index
begin

text \<open>
  The data of the documents: whatever the order in which the results arrive, \<open>writeDocData\<close> writes them in the
  order of the chunks, and identifiers, lengths, titles and texts are read back as they were.
\<close>

section \<open>The order of the results\<close>

fun emit_all :: "chunkResult list \<Rightarrow> docData \<Rightarrow> docData option" where
  "emit_all [] w = Some w"
| "emit_all (r # rs) w = (case emit r w of None \<Rightarrow> None | Some w \<Rightarrow> emit_all rs w)"

lemma emit_all_append: "emit_all (xs @ ys) w = (case emit_all xs w of None \<Rightarrow> None | Some w \<Rightarrow> emit_all ys w)"
  by (induction xs arbitrary: w) (auto split: option.splits)

lemma find_idx: "find (\<lambda>r. ridx r = k) rs = None \<longleftrightarrow> k \<notin> ridx ` set rs"
  by (auto simp: find_None_iff)

lemma find_idx_Some: "find (\<lambda>r. ridx r = k) rs = Some p \<Longrightarrow> p \<in> set rs \<and> ridx p = k"
  by (auto simp: find_Some_iff)

text \<open>What holds between two results: the first \<open>k\<close> are written, the next one has not arrived.\<close>

definition ordered_upto :: "chunkResult list \<Rightarrow> docData \<Rightarrow> chunkResult list \<Rightarrow> chunkResult list \<Rightarrow> nat \<Rightarrow> docData \<Rightarrow> bool" where
  "ordered_upto rs w0 coming pending k w \<longleftrightarrow> emit_all (take k rs) w0 = Some w \<and> set pending \<subseteq> set rs
     \<and> set (drop k rs) \<subseteq> set coming \<union> set pending \<and> k \<le> length rs"

lemma drain_ok:
  "map ridx rs = [0..<length rs] \<Longrightarrow> emit_all rs w0 \<noteq> None \<Longrightarrow> ordered_upto rs w0 coming pending k w \<Longrightarrow>
     \<exists>pending' k' w'. drain pending k w = Some (pending', k', w') \<and> ordered_upto rs w0 coming pending' k' w' \<and> k' \<notin> ridx ` set pending'"
proof (induction pending k w rule: drain.induct)
  case (1 pending k w)
  note o = "1.prems"(3) [unfolded ordered_upto_def]
  have idx: "ridx (rs ! j) = j" if "j < length rs" for j using arg_cong [OF "1.prems"(1), of "\<lambda>xs. xs ! j"] that by simp
  show ?case
  proof (cases "find (\<lambda>r. ridx r = k) pending")
    case None
    note n = None [unfolded find_idx]
    have "drain pending k w = Some (pending, k, w)" using None by (subst drain.simps) simp
    then show ?thesis using "1.prems"(3) n by blast
  next
    case (Some p)
    note p = find_idx_Some [OF Some]
    have "p \<in> set rs" using p o by blast
    then obtain j where "j < length rs" "rs ! j = p" by (auto simp: in_set_conv_nth)
    then have k: "k < length rs" "rs ! k = p" using idx p by auto
    have split: "rs = take k rs @ p # drop (Suc k) rs" using id_take_nth_drop [OF k(1)] k(2) by simp
    have "emit p w \<noteq> None"
    proof
      assume "emit p w = None"
      then have "emit_all (take k rs @ p # drop (Suc k) rs) w0 = None" using o by (simp add: emit_all_append)
      then show False using "1.prems"(2) split by simp
    qed
    then obtain w1 where w1: "emit p w = Some w1" by blast
    let ?q = "filter (\<lambda>r. ridx r \<noteq> k) pending"
    have "take (k + 1) rs = take k rs @ [p]" using k by (simp add: take_Suc_conv_app_nth)
    then have "emit_all (take (k + 1) rs) w0 = Some w1" using o w1 by (simp add: emit_all_append)
    moreover have "set (drop (k + 1) rs) \<subseteq> set coming \<union> set ?q"
    proof
      fix r assume r: "r \<in> set (drop (k + 1) rs)"
      then obtain j where j: "j < length rs - (k + 1)" "r = rs ! (k + 1 + j)" by (auto simp: in_set_conv_nth)
      then have "ridx r \<noteq> k" using idx [of "k + 1 + j"] by simp
      moreover have "r \<in> set (drop k rs)" using r set_drop_subset_set_drop [of k "k + 1" rs] by auto
      ultimately show "r \<in> set coming \<union> set ?q" using o by auto
    qed
    ultimately have "ordered_upto rs w0 coming ?q (k + 1) w1" using o k(1) by (auto simp: ordered_upto_def)
    from "1.IH" [OF Some w1 "1.prems"(1,2) this] show ?thesis using Some w1 by (subst drain.simps) simp
  qed
qed

lemma collect_ok:
  "map ridx rs = [0..<length rs] \<Longrightarrow> emit_all rs w0 = Some w' \<Longrightarrow> ordered_upto rs w0 coming pending k w \<Longrightarrow> k \<notin> ridx ` set pending \<Longrightarrow>
     set coming \<subseteq> set rs \<Longrightarrow> collect coming pending k w = Some w'"
proof (induction coming arbitrary: pending k w)
  case Nil
  have "k = length rs"
  proof (rule ccontr)
    assume "k \<noteq> length rs"
    then have k: "k < length rs" using Nil.prems(3) by (simp add: ordered_upto_def)
    then have "rs ! k \<in> set (drop k rs)" by (metis Cons_nth_drop_Suc list.set_intros(1))
    then have "rs ! k \<in> set pending" using Nil.prems(3) by (auto simp: ordered_upto_def)
    moreover have "ridx (rs ! k) = k" using arg_cong [OF Nil.prems(1), of "\<lambda>xs. xs ! k"] k by simp
    ultimately show False using Nil.prems(4) by force
  qed
  then show ?case using Nil.prems(2,3) by (simp add: ordered_upto_def)
next
  case (Cons r coming)
  let ?p = "r # filter (\<lambda>p. ridx p \<noteq> ridx r) pending"
  have r: "r \<in> set rs" using Cons.prems(5) by simp
  have same: "q = r" if "q \<in> set rs" "ridx q = ridx r" for q
  proof -
    have "distinct (map ridx rs)" unfolding Cons.prems(1) by simp
    then show ?thesis using that r by (auto simp: distinct_map inj_on_def)
  qed
  note o = Cons.prems(3) [unfolded ordered_upto_def]
  have "set (drop k rs) \<subseteq> set coming \<union> set ?p"
  proof
    fix q assume q: "q \<in> set (drop k rs)"
    then have "q \<in> set rs" by (rule in_set_dropD)
    then show "q \<in> set coming \<union> set ?p" using q o same [of q] by auto
  qed
  then have "ordered_upto rs w0 coming ?p k w" using o r by (auto simp: ordered_upto_def)
  from drain_ok [OF Cons.prems(1) _ this] Cons.prems(2) obtain p' k' w1 where
    d: "drain ?p k w = Some (p', k', w1)" "ordered_upto rs w0 coming p' k' w1" "k' \<notin> ridx ` set p'" by auto
  show ?case using Cons.IH [OF Cons.prems(1,2) d(2,3)] Cons.prems(5) d(1) by simp
qed

section \<open>The files of the documents\<close>

definition store_index :: "storeBlock list \<Rightarrow> nat \<Rightarrow> bytes" where
  "store_index bs k = le_put32 (sbFirst (bs ! k)) @ le_bytes 8 (of_nat (length (concat (map sbData (take k bs)))))"

definition docs_written :: "unicode \<Rightarrow> (bytes \<Rightarrow> bytes) \<Rightarrow> docData \<Rightarrow> storeBlock list \<Rightarrow> rawDoc list \<Rightarrow> bool" where
  "docs_written u e w bs ds \<longleftrightarrow> wids w = concat (map le_put32 (map rid ds)) \<and> wall w = map rid ds
     \<and> wdls w = concat (map le_put32 (map (\<lambda>d. of_nat (length (doc_tokens u d))) ds))
     \<and> wtitles w = concat (map title ds) \<and> wtitleoff w = concat (map (le_bytes 8) (0 # map of_nat (title_ends ds)))
     \<and> wtoff w = of_nat (length (wtitles w)) \<and> wN w = of_nat (length ds) \<and> wTokens w = of_nat (token_count u ds)
     \<and> blocks_hold e bs 0 ds \<and> wstore w = concat (map sbData bs) \<and> wsoff w = of_nat (length (wstore w))
     \<and> wstoreidx w = concat (map (store_index bs) [0..<length bs])"

lemma title_ends_append: "title_ends (xs @ ys) = title_ends xs @ map (\<lambda>n. length (concat (map title xs)) + n) (title_ends ys)"
proof (induction ys rule: rev_induct)
  case (snoc y ys)
  then show ?case using title_ends_snoc [of "xs @ ys" y] by (simp add: title_ends_snoc)
qed (simp add: title_ends_def)

lemma blocks_hold_append: "blocks_hold e bs n xs \<Longrightarrow> blocks_hold e cs (n + of_nat (length xs)) ys \<Longrightarrow> blocks_hold e (bs @ cs) n (xs @ ys)"
proof (induction e bs n xs rule: blocks_hold.induct)
  case (2 e b bs n xs)
  obtain as zs where d: "xs = as @ zs" "as \<noteq> []" "sbFirst b = n" "sbData b = e (concat (map text_entry as))" "blocks_hold e bs (n + of_nat (length as)) zs"
    using 2(2) by auto
  have "blocks_hold e (bs @ cs) (n + of_nat (length as)) (zs @ ys)"
    using 2(3) d(1) by (intro "2.IH" [OF d(5)]) (simp add: algebra_simps)
  then show ?case using d(1-4) by auto
qed simp

lemma store_index_append: "k < length bs \<Longrightarrow> store_index (bs @ cs) k = store_index bs k"
  by (simp add: store_index_def nth_append)

lemma emit_blocks:
  assumes "wstore w = concat (map sbData bs)" "wsoff w = of_nat (length (wstore w))" "wstoreidx w = concat (map (store_index bs) [0..<length bs])"
  shows "\<exists>s so si. foldl emit_block w cs = w\<lparr>wstore := s, wsoff := so, wstoreidx := si\<rparr> \<and> s = concat (map sbData (bs @ cs)) \<and> so = of_nat (length s)
    \<and> si = concat (map (store_index (bs @ cs)) [0..<length (bs @ cs)])"
  using assms
proof (induction cs arbitrary: w bs)
  case Nil
  show ?case by (rule exI [of _ "wstore w"], rule exI [of _ "wsoff w"], rule exI [of _ "wstoreidx w"]) (use Nil in simp)
next
  case (Cons c cs)
  let ?w = "emit_block w c"
  have i: "map (store_index (bs @ [c])) [0..<length bs] = map (store_index bs) [0..<length bs]" by (rule map_cong) (simp_all add: store_index_append)
  have s: "store_index (bs @ [c]) (length bs) = le_put32 (sbFirst c) @ le_bytes 8 (wsoff w)" using Cons.prems by (simp add: store_index_def)
  have u: "[0..<length (bs @ [c])] = [0..<length bs] @ [length bs]" by simp
  have "wstore ?w = concat (map sbData (bs @ [c]))" "wsoff ?w = of_nat (length (wstore ?w))" using Cons.prems by (simp_all add: emit_block_def)
  moreover have "wstoreidx ?w = concat (map (store_index (bs @ [c])) [0..<length (bs @ [c])])"
    unfolding u map_append concat_append i list.map s concat.simps append_Nil2 using Cons.prems(3) by (simp add: emit_block_def)
  ultimately obtain t so si where r: "foldl emit_block ?w cs = ?w\<lparr>wstore := t, wsoff := so, wstoreidx := si\<rparr>" "t = concat (map sbData ((bs @ [c]) @ cs))"
    "so = of_nat (length t)" "si = concat (map (store_index ((bs @ [c]) @ cs)) [0..<length ((bs @ [c]) @ cs)])"
    using Cons.IH [of ?w "bs @ [c]"] by blast
  have a: "(bs @ [c]) @ cs = bs @ c # cs" by simp
  have "?w\<lparr>wstore := t, wsoff := so, wstoreidx := si\<rparr> = w\<lparr>wstore := t, wsoff := so, wstoreidx := si\<rparr>" by (simp add: emit_block_def)
  moreover have "foldl emit_block w (c # cs) = foldl emit_block ?w cs" by simp
  ultimately have "foldl emit_block w (c # cs) = w\<lparr>wstore := t, wsoff := so, wstoreidx := si\<rparr>" using r(1) by simp
  then show ?case using r(2-4) unfolding a by blast
qed

lemma emit_ok:
  assumes w: "docs_written u e w bs ds" and r: "result_ok u e r es" "blocks_hold e (rblocks r) (of_nat (length ds)) es"
    and small: "length (concat (map title es)) < 2 ^ 32"
  shows "\<exists>w'. emit r w = Some w' \<and> docs_written u e w' (bs @ rblocks r) (ds @ es)"
proof -
  have rr: "rids r = map rid es" "rdls r = map (\<lambda>d. of_nat (length (doc_tokens u d))) es" "rblob r = concat (map title es)"
    "rends r = map of_nat (title_ends es)" "rtokens r = of_nat (token_count u es)" using r(1) by (simp_all add: result_ok_def)
  have te: "length (title_ends es) = length es" by (simp add: title_ends_def)
  have "x < 2 ^ 32" if "x \<in> set (title_ends es)" for x
  proof -
    obtain k where "x = length (concat (map title (take (Suc k) es)))" using \<open>x \<in> set (title_ends es)\<close> by (auto simp: title_ends_def)
    moreover have "length (concat (map title es)) = length (concat (map title (take (Suc k) es))) + length (concat (map title (drop (Suc k) es)))"
      by (metis append_take_drop_id concat_append length_append map_append)
    ultimately show ?thesis using small by simp
  qed
  then have uc: "(ucast (of_nat x :: 32 word) :: 64 word) = of_nat x" if "x \<in> set (title_ends es)" for x
    using that by (simp add: unsigned_of_nat take_bit_eq_mod)
  let ?w1 = "w\<lparr>wids := wids w @ concat (map le_put32 (rids r)), wdls := wdls w @ concat (map le_put32 (rdls r)),
      wtitleoff := wtitleoff w @ concat (map (\<lambda>t. le_bytes 8 (wtoff w + ucast t)) (rends r)), wall := wall w @ rids r, wtitles := wtitles w @ rblob r,
      wtoff := wtoff w + of_nat (length (rblob r))\<rparr>"
  have st: "wstore ?w1 = concat (map sbData bs)" "wsoff ?w1 = of_nat (length (wstore ?w1))" "wstoreidx ?w1 = concat (map (store_index bs) [0..<length bs])"
    using w by (simp_all add: docs_written_def)
  obtain s so si where f: "foldl emit_block ?w1 (rblocks r) = ?w1\<lparr>wstore := s, wsoff := so, wstoreidx := si\<rparr>" "s = concat (map sbData (bs @ rblocks r))"
    "so = of_nat (length s)" "si = concat (map (store_index (bs @ rblocks r)) [0..<length (bs @ rblocks r)])"
    using emit_blocks [OF st] by blast
  let ?w2 = "?w1\<lparr>wstore := s, wsoff := so, wstoreidx := si, wN := wN w + of_nat (length (rids r)), wTokens := wTokens w + rtokens r\<rparr>"
  have "take (length es) (rdls r) = rdls r" "take (length es) (rends r) = rends r" by (simp_all add: rr te)
  then have e: "emit r w = Some ?w2" using f(1) by (simp add: emit_def Let_def rr(1) te) (simp add: rr te)
  have wo: "wtoff w = of_nat (length (concat (map title ds)))" using w by (simp add: docs_written_def)
  have t: "map (\<lambda>t. le_bytes 8 (wtoff w + ucast t)) (rends r) = map (le_bytes 8) (map of_nat (map (\<lambda>n. length (concat (map title ds)) + n) (title_ends es)))"
    unfolding rr(4) map_map by (rule map_cong) (simp_all add: uc wo)
  have "docs_written u e ?w2 (bs @ rblocks r) (ds @ es)"
    unfolding docs_written_def
  proof (intro conjI)
    show "blocks_hold e (bs @ rblocks r) 0 (ds @ es)" using w r(2) by (intro blocks_hold_append) (simp_all add: docs_written_def)
    show "wtitleoff ?w2 = concat (map (le_bytes 8) (0 # map of_nat (title_ends (ds @ es))))"
      using w t unfolding title_ends_append by (simp add: docs_written_def)
    show "wTokens ?w2 = of_nat (token_count u (ds @ es))" using w by (simp add: docs_written_def rr token_count_def)
  qed (use w f in \<open>simp_all add: docs_written_def rr\<close>)
  then show ?thesis using e by blast
qed

text \<open>All results: \<open>rss\<close> are the documents of each.\<close>

lemma emit_all_ok:
  "docs_written u e w bs ds \<Longrightarrow> list_all2 (\<lambda>r es. result_ok u e r es) rs ess \<Longrightarrow>
     (\<And>k. k < length rs \<Longrightarrow> blocks_hold e (rblocks (rs ! k)) (of_nat (length ds + length (concat (take k ess)))) (ess ! k)) \<Longrightarrow>
     length (concat (map title (concat ess))) < 2 ^ 32 \<Longrightarrow> \<exists>w' bs'. emit_all rs w = Some w' \<and> docs_written u e w' bs' (ds @ concat ess)"
proof (induction rs arbitrary: w bs ds ess)
  case Nil
  then show ?case by auto
next
  case (Cons r rs)
  obtain es ess' where e: "ess = es # ess'" "result_ok u e r es" "list_all2 (\<lambda>r es. result_ok u e r es) rs ess'" using Cons.prems(2) by (auto simp: list_all2_Cons1)
  have b: "blocks_hold e (rblocks r) (of_nat (length ds)) es" using Cons.prems(3) [of 0] e(1) by simp
  obtain w1 where w1: "emit r w = Some w1" "docs_written u e w1 (bs @ rblocks r) (ds @ es)"
    using emit_ok [OF Cons.prems(1) e(2) b] Cons.prems(4) e(1) by auto
  have "blocks_hold e (rblocks (rs ! k)) (of_nat (length (ds @ es) + length (concat (take k ess')))) (ess' ! k)" if "k < length rs" for k
    using Cons.prems(3) [of "Suc k"] that e(1) by (simp add: add.assoc)
  from Cons.IH [OF w1(2) e(3) this] Cons.prems(4) e(1) show ?case using w1(1) by auto
qed

definition no_docs :: docData where
  "no_docs = \<lparr>wids = [], wdls = [], wtitles = [], wtitleoff = le_bytes 8 0, wstore = [], wstoreidx = [], wall = [],
     wtoff = 0, wsoff = 0, wN = 0, wTokens = 0\<rparr>"

lemma writeDocData_ok:
  assumes idx: "map ridx rs = [0..<length rs]" and arr: "set coming = set rs" and ok: "list_all2 (\<lambda>r es. result_ok u e r es) rs ess"
    and b: "\<And>k. k < length rs \<Longrightarrow> blocks_hold e (rblocks (rs ! k)) (of_nat (length (concat (take k ess)))) (ess ! k)"
    and small: "length (concat (map title (concat ess))) < 2 ^ 32"
  shows "\<exists>w bs. writeDocData coming = Some (w\<lparr>wstoreidx := wstoreidx w @ le_put32 (ucast (wN w)) @ le_bytes 8 (wsoff w)\<rparr>)
    \<and> docs_written u e w bs (concat ess)"
proof -
  have z: "docs_written u e no_docs [] []" by (simp add: docs_written_def no_docs_def title_ends_def token_count_def)
  obtain w bs where w: "emit_all rs no_docs = Some w" "docs_written u e w bs (concat ess)"
    using emit_all_ok [OF z ok _ small] b by auto
  have o: "ordered_upto rs no_docs coming [] 0 no_docs" using arr by (simp add: ordered_upto_def)
  have "collect coming [] 0 no_docs = Some w"
    by (rule collect_ok [OF idx w(1) o]) (simp_all add: arr)
  then show ?thesis using w(2) by (auto simp: writeDocData_def no_docs_def)
qed

section \<open>Reading the documents\<close>

lemma asU64_put: "asU64 (concat (map (le_bytes 8) ws)) = ws"
proof (rule nth_equalityI)
  have len: "length (concat (map (le_bytes 8) ws)) = 8 * length ws" by (simp add: length_concat comp_def sum_list_triv)
  then show l: "length (asU64 (concat (map (le_bytes 8) ws))) = length ws" by (simp add: asU64_def)
  fix i assume "i < length (asU64 (concat (map (le_bytes 8) ws)))"
  then have i: "i < length ws" using l by simp
  obtain r where r: "drop (8 * i) (concat (map (le_bytes 8) ws)) = le_bytes 8 (ws ! i) @ r" using drop_concat_map [of ws "le_bytes 8" 8 i] i by auto
  have "take 8 (drop (8 * i) (concat (map (le_bytes 8) ws))) = le_bytes 8 (ws ! i)" by (simp add: r)
  moreover have "take_bit 64 (ws ! i) = ws ! i" by (rule bit_word_eqI) (simp add: bit_simps)
  ultimately show "asU64 (concat (map (le_bytes 8) ws)) ! i = ws ! i"
    using le_word_bytes [of 8 "ws ! i"] i len by (simp add: asU64_def)
qed

lemma title_at:
  assumes w: "titles ix = concat (map title ds)" "titleOff ix = 0 # map of_nat (title_ends ds)" and d: "unat d < length ds" "length ds < 2 ^ 32 - 1"
    and small: "length (concat (map title ds)) < 2 ^ 64"
  shows "title_of ix d = Some (title (ds ! unat d))"
proof -
  let ?n = "unat d"
  let ?L = "\<lambda>k. length (concat (map title (take k ds)))"
  have u: "unat (d + 1) = ?n + 1" using d by (simp add: unat_word_ariths)
  have off: "idx (titleOff ix) k = Some (of_nat (?L k))" if "k \<le> length ds" for k
    using that unfolding w(2) by (cases k) (simp_all add: idx_def title_ends_def)
  have le: "?L k \<le> length (concat (map title ds))" for k
    by (metis append_take_drop_id concat_append length_append map_append le_add1)
  have un: "unat (of_nat (?L k) :: 64 word) = ?L k" for k using le_less_trans [OF le small] by (simp add: unat_of_nat)
  have split: "ds = take ?n ds @ ds ! ?n # drop (Suc ?n) ds" by (rule id_take_nth_drop [OF d(1)])
  have s: "?L (?n + 1) = ?L ?n + length (title (ds ! ?n))" using d(1) by (simp add: take_Suc_conv_app_nth)
  have c: "concat (map title ds) = concat (map title (take ?n ds)) @ title (ds ! ?n) @ concat (map title (drop (Suc ?n) ds))"
    by (subst split) simp
  have "slice_of (titles ix) (?L ?n) (?L (?n + 1)) = Some (title (ds ! ?n))" unfolding w(1) s slice_of_def c by simp
  then show ?thesis using off [of ?n] off [of "?n + 1"] d(1) by (simp add: title_of_def u un del: of_nat_add of_nat_Suc)
qed

lemma blocks_segments:
  "blocks_hold e bs n ds \<Longrightarrow> \<exists>segs. concat segs = ds \<and> length segs = length bs
     \<and> (\<forall>k < length bs. segs ! k \<noteq> [] \<and> sbFirst (bs ! k) = n + of_nat (length (concat (take k segs))) \<and> sbData (bs ! k) = e (concat (map text_entry (segs ! k))))"
proof (induction e bs n ds rule: blocks_hold.induct)
  case (2 e b bs n ds)
  obtain xs ys where d: "ds = xs @ ys" "xs \<noteq> []" "sbFirst b = n" "sbData b = e (concat (map text_entry xs))" "blocks_hold e bs (n + of_nat (length xs)) ys"
    using 2(2) by auto
  obtain segs where s: "concat segs = ys" "length segs = length bs"
    "\<forall>k < length bs. segs ! k \<noteq> [] \<and> sbFirst (bs ! k) = n + of_nat (length xs) + of_nat (length (concat (take k segs))) \<and> sbData (bs ! k) = e (concat (map text_entry (segs ! k)))"
    using "2.IH" [OF d(5)] by blast
  have "(xs # segs) ! k \<noteq> [] \<and> sbFirst ((b # bs) ! k) = n + of_nat (length (concat (take k (xs # segs))))
      \<and> sbData ((b # bs) ! k) = e (concat (map text_entry ((xs # segs) ! k)))" if "k < length (b # bs)" for k
    using that d(2-4) s(3) by (cases k) (simp_all add: add.assoc)
  then show ?case using s(1,2) d(1) by (intro exI [of _ "xs # segs"]) simp
qed simp

lemma text_in_block_at:
  "drop p raw = concat (map text_entry xs) \<Longrightarrow> k < length xs \<Longrightarrow> unat n + k < 2 ^ 32 \<Longrightarrow> \<forall>x \<in> set xs. length (dtext x) < 2 ^ 64 \<Longrightarrow>
     text_in_block raw (n + of_nat k) n p = Some (dtext (xs ! k))"
proof (induction xs arbitrary: p k n)
  case (Cons x xs)
  let ?l = "of_nat (length (dtext x)) :: 64 word"
  have d: "drop p raw = enc ?l @ dtext x @ concat (map text_entry xs)"
    using Cons.prems(1) unfolding list.map concat.simps text_entry_def [of x] by simp
  have u: "uvarint raw p = Some (?l, p + length (enc ?l))" by (rule uvarint_enc [OF d])
  have un: "unat ?l = length (dtext x)" using Cons.prems(4) by (simp add: unat_of_nat)
  note d2 = drop_more [OF d]
  show ?case
  proof (cases k)
    case 0
    have "p + length (enc ?l) + length (dtext x) \<le> length raw"
      using arg_cong [OF d, of length] enc_nonempty [of ?l, folded length_greater_0_conv] unfolding length_append length_drop by linarith
    then have "slice_of raw (p + length (enc ?l)) (p + length (enc ?l) + unat ?l) = Some (dtext x)" using d2 by (simp add: slice_of_def un)
    then show ?thesis using 0 u by (subst text_in_block.simps) simp
  next
    case (Suc j)
    have "unat (of_nat k :: 32 word) = k" using Cons.prems(3) by (simp add: unat_of_nat)
    then have ne: "n \<noteq> n + of_nat k" using Suc by auto
    have un1: "unat (n + 1) = unat n + 1" using Cons.prems(3) Suc by (simp add: unat_word_ariths)
    have t: "n + of_nat k = (n + 1) + of_nat j" by (simp add: Suc)
    have "text_in_block raw (n + of_nat k) n p = text_in_block raw (n + of_nat k) (n + 1) (p + length (enc ?l) + unat ?l)"
      using ne u by (subst text_in_block.simps) simp
    also have "\<dots> = Some (dtext (xs ! j))" unfolding t un
      by (rule Cons.IH [OF drop_more [OF d2]]) (use Cons.prems Suc un1 in auto)
    finally show ?thesis by (simp add: Suc)
  qed
qed simp

lemma store_entry:
  assumes i: "storeIdx ix = concat (map (store_index bs) [0..<length bs]) @ le_put32 n @ le_bytes 8 (of_nat (length (concat (map sbData bs))))"
    and k: "k \<le> length bs"
  shows "le32 (storeIdx ix) (12 * k) = Some (if k < length bs then sbFirst (bs ! k) else n)
    \<and> le64 (storeIdx ix) (12 * k + 4) = Some (of_nat (length (concat (map sbData (take k bs)))))"
proof -
  define v where "v = (if k < length bs then sbFirst (bs ! k) else n)"
  define off where "off = (of_nat (length (concat (map sbData (take k bs)))) :: 64 word)"
  have len: "length (store_index bs j) = 12" for j by (simp add: store_index_def)
  have ll: "length (concat (map (store_index bs) js)) = 12 * length js" for js by (induction js) (simp_all add: len)
  have "\<exists>r. drop (12 * k) (storeIdx ix) = le_bytes 4 (ucast v) @ le_bytes 8 off @ r"
  proof (cases "k < length bs")
    case True
    have "\<exists>r. drop (12 * k) (concat (map (store_index bs) [0..<length bs])) = store_index bs ([0..<length bs] ! k) @ r"
      by (rule drop_concat_map) (use len True in auto)
    then obtain r where "drop (12 * k) (concat (map (store_index bs) [0..<length bs])) = store_index bs k @ r" using True by auto
    moreover have "12 * k \<le> length (concat (map (store_index bs) [0..<length bs]))" unfolding ll using True by simp
    ultimately show ?thesis using True unfolding i v_def off_def by (simp add: store_index_def le_put32_def)
  next
    case False
    then have "k = length bs" using k by simp
    moreover have "12 * length bs = length (concat (map (store_index bs) [0..<length bs]))" unfolding ll by simp
    ultimately have "drop (12 * k) (storeIdx ix) = le_put32 n @ le_bytes 8 (of_nat (length (concat (map sbData bs))))" unfolding i by simp
    then show ?thesis using False k by (simp add: v_def off_def le_put32_def)
  qed
  then obtain r where r: "drop (12 * k) (storeIdx ix) = le_bytes 4 (ucast v) @ le_bytes 8 off @ r" by blast
  have "drop (12 * k + 4) (storeIdx ix) = le_bytes 8 off @ r" using drop_more [OF r] by simp
  from le64_at [OF this] le32_at [OF r] show ?thesis unfolding v_def off_def by simp
qed

lemma docText_at:
  assumes i: "storeIdx ix = concat (map (store_index bs) [0..<length bs]) @ le_put32 (of_nat (length ds)) @ le_bytes 8 (of_nat (length (concat (map sbData bs))))"
      "storeFile ix = concat (map sbData bs)" "nBlocks ix = length bs" "blocks_hold e bs 0 ds"
    and d: "unat d < length ds" "length ds < 2 ^ 32" and dec: "\<forall>x. decodeAll (e x) = Some x"
    and small: "length (concat (map sbData bs)) < 2 ^ 64" "\<forall>x \<in> set ds. length (dtext x) < 2 ^ 64"
  shows "docText decodeAll ix d = Some (Some (dtext (ds ! unat d)))"
proof -
  let ?n = "unat d"
  obtain segs where s: "concat segs = ds" "length segs = length bs"
    "\<And>k. k < length bs \<Longrightarrow> segs ! k \<noteq> [] \<and> sbFirst (bs ! k) = of_nat (length (concat (take k segs))) \<and> sbData (bs ! k) = e (concat (map text_entry (segs ! k)))"
    using blocks_segments [OF i(4)] by auto
  let ?S = "\<lambda>k. length (concat (take k segs))"
  have S_le: "?S k \<le> length ds" for k
    unfolding s(1) [symmetric] by (metis append_take_drop_id concat_append length_append le_add1)
  have S_mono: "k \<le> m \<Longrightarrow> ?S k \<le> ?S m" for k m
    by (metis concat_append length_append le_add1 take_add le_Suc_ex)
  have first: "le32 (storeIdx ix) (12 * k) = Some (of_nat (?S k))" "le64 (storeIdx ix) (12 * k + 4) = Some (of_nat (length (concat (map sbData (take k bs)))))"
    if "k \<le> length bs" for k
    using store_entry [OF i(1) that] s that by (auto split: if_splits)
  have un: "unat (of_nat (?S k) :: 32 word) = ?S k" for k using S_le [of k] d(2) by (simp add: unat_of_nat)
  let ?f = "\<lambda>k. map_option (\<lambda>x. x > d) (le32 (storeIdx ix) (12 * (k + 1)))"
  have f: "?f k = Some (?S (k + 1) > ?n)" if "k < length bs" for k
    using first(1) [of "k + 1"] that un [of "k + 1"] by (simp add: word_less_nat_alt del: take_Suc_conv_app_nth)
  have mono: "?S (m' + 1) > ?n" if "m \<le> m'" "?S (m + 1) > ?n" for m m'
    using S_mono [of "m + 1" "m' + 1"] that by linarith
  have "\<exists>r. sort_search ?f 0 (length bs) = Some r \<and> 0 \<le> r \<and> r \<le> length bs \<and> (\<forall>m. 0 \<le> m \<longrightarrow> m < r \<longrightarrow> \<not> ?S (m + 1) > ?n)
      \<and> (r < length bs \<longrightarrow> ?S (r + 1) > ?n)"
    by (rule sort_search_at [where g = "\<lambda>k. ?S (k + 1) > ?n"], erule f, rule mono, assumption+, simp)
  then obtain r where r: "sort_search ?f 0 (length bs) = Some r" "r \<le> length bs" "\<forall>m. 0 \<le> m \<longrightarrow> m < r \<longrightarrow> \<not> ?S (m + 1) > ?n" "r < length bs \<longrightarrow> ?S (r + 1) > ?n"
    by blast
  have all: "?S (length bs) = length ds" using s(1,2) by simp
  have rb: "r < length bs"
  proof (rule ccontr)
    assume "\<not> r < length bs"
    then have e: "r = length bs" using r(2) by simp
    show False
    proof (cases "length bs")
      case 0
      then show False using all d(1) by simp
    next
      case (Suc m)
      then show False using r(3) e all d(1) by (metis Suc_eq_plus1 lessI zero_le)
    qed
  qed
  have lo: "?S r \<le> ?n"
  proof (cases r)
    case (Suc m)
    then show ?thesis using r(3) by (metis Suc_eq_plus1 lessI not_le zero_le)
  qed simp
  have hi: "?n < ?S (r + 1)" using r(4) rb by simp
  let ?seg = "segs ! r"
  have take: "take (r + 1) segs = take r segs @ [?seg]" using rb s(2) by (simp add: take_Suc_conv_app_nth)
  have k: "?n - ?S r < length ?seg" using hi lo unfolding take by simp
  have nth: "ds ! ?n = ?seg ! (?n - ?S r)"
  proof -
    have "ds = concat (take r segs) @ ?seg @ concat (drop (Suc r) segs)"
      unfolding s(1) [symmetric] by (subst id_take_nth_drop [of r segs]) (use rb s(2) in simp_all)
    then show ?thesis using lo k by (simp add: nth_append)
  qed
  let ?B = "\<lambda>k. length (concat (map sbData (take k bs)))"
  have B_le: "?B k \<le> length (concat (map sbData bs))" for k
    by (metis append_take_drop_id concat_append length_append map_append le_add1)
  have ub: "unat (of_nat (?B k) :: 64 word) = ?B k" for k using le_less_trans [OF B_le small(1)] by (simp add: unat_of_nat)
  have B: "?B (r + 1) = ?B r + length (sbData (bs ! r))" using rb by (simp add: take_Suc_conv_app_nth)
  have c: "concat (map sbData bs) = concat (map sbData (take r bs)) @ sbData (bs ! r) @ concat (map sbData (drop (Suc r) bs))"
    by (subst id_take_nth_drop [OF rb]) simp
  have sl: "slice_of (storeFile ix) (?B r) (?B (r + 1)) = Some (sbData (bs ! r))" unfolding i(2) B slice_of_def c by simp
  have dec': "decodeAll (sbData (bs ! r)) = Some (concat (map text_entry ?seg))" using s(3) [OF rb] dec by simp
  have dn: "d = of_nat (?S r) + of_nat (?n - ?S r)" using lo by (simp flip: of_nat_add)
  have seg: "\<forall>x \<in> set ?seg. length (dtext x) < 2 ^ 64" using small(2) s(1,2) rb by auto
  have "text_in_block (concat (map text_entry ?seg)) (of_nat (?S r) + of_nat (?n - ?S r)) (of_nat (?S r)) 0 = Some (dtext (?seg ! (?n - ?S r)))"
    by (rule text_in_block_at) (use k seg un [of r] lo d in simp_all)
  then have tx: "text_in_block (concat (map text_entry ?seg)) d (of_nat (?S r)) 0 = Some (dtext (ds ! ?n))" unfolding dn [symmetric] nth .
  have r1: "r \<le> length bs" "r + 1 \<le> length bs" using rb by simp_all
  show ?thesis unfolding docText_def i(3) r(1) Option.bind.bind_lunit first(1) [OF r1(1)] first(2) [OF r1(1)] first(2) [OF r1(2)] ub sl dec'
    by (simp add: tx)
qed

end
