(* ===== verification/Search_Complete.thy ===== *)
theory Search_Complete
  imports Search_Pipeline Search_Store "HOL-Library.Sublist"
begin

text \<open>
  Indexing and searching together: what \<open>search\<close> answers, and what the stored documents are, on the index that
  \<open>runIndex\<close> writes and \<open>openIndex\<close> opens, said of the documents of the corpus.
\<close>

section \<open>The whole run\<close>

text \<open>The limits of the file format: fewer than \<open>2 ^ 27\<close> documents, all titles together and all distinct terms together
  below \<open>2 ^ 32\<close> bytes, and fewer than \<open>2 ^ 32\<close> tokens in a document.\<close>

definition input_fits :: "unicode \<Rightarrow> rawDoc list \<Rightarrow> bool" where
  "input_fits u ds \<longleftrightarrow> length ds < 2 ^ 27 \<and> length (concat (map (doc_tokens u) ds)) < 2 ^ 56
     \<and> length (concat (remdups (concat (map (doc_tokens u) ds)))) < 2 ^ 32 \<and> (\<forall>d \<in> set ds. length (doc_tokens u d) < 2 ^ 32)
     \<and> length (concat (map title ds)) < 2 ^ 32"

lemma number_docs_map: "number_docs u n ds = map (\<lambda>k. (n + of_nat k, doc_tokens u (ds ! k))) [0..<length ds]"
proof (induction ds arbitrary: n)
  case (Cons d ds)
  show ?case unfolding length_Cons map_upt_Suc using Cons by (simp add: algebra_simps)
qed simp

lemma length_number_docs [simp]: "length (number_docs u n ds) = length ds"
  by (simp add: number_docs_map)

lemma number_docs_terms: "all_terms (number_docs u n ds) = concat (map (doc_tokens u) ds)"
  by (induction ds arbitrary: n) (auto simp: all_terms_def)

lemma number_docs_nth: "k < length ds \<Longrightarrow> number_docs u 0 ds ! k = (of_nat k, doc_tokens u (ds ! k))"
  by (simp add: number_docs_map)

lemma corpus_of_fits: "input_fits u ds \<Longrightarrow> corpus_fits (number_docs u 0 ds)"
proof -
  assume f: "input_fits u ds"
  have un: "unat (of_nat k :: 32 word) = k" if "k < length ds" for k using that f by (simp add: input_fits_def unat_of_nat)
  have e: "unat endDoc = 2 ^ 32 - 1" by (simp add: endDoc_def unsigned_minus_1_eq_mask mask_eq_exp_minus_1)
  have lt: "(of_nat k :: 32 word) < of_nat m" if "k < m" "m < length ds" for k m using un [of k] un [of m] that by (simp add: word_less_nat_alt)
  have "sorted_wrt (<) (map fst (number_docs u 0 ds))"
    using lt by (simp add: number_docs_map sorted_wrt_iff_nth_less)
  moreover have "length ts < 2 ^ 32 \<and> d < endDoc" if "(d, ts) \<in> set (number_docs u 0 ds)" for d ts
  proof -
    obtain k where k: "k < length ds" "d = of_nat k" "ts = doc_tokens u (ds ! k)" using \<open>(d, ts) \<in> set (number_docs u 0 ds)\<close> by (auto simp: number_docs_map)
    then show ?thesis using f un [OF k(1)] e by (auto simp: input_fits_def word_less_nat_alt)
  qed
  ultimately show ?thesis using f by (auto simp: corpus_fits_def number_docs_terms input_fits_def)
qed

text \<open>What a successful run leaves: the documents in order, and runs whose documents are those of the corpus.\<close>

definition run_leaves :: "unicode \<Rightarrow> (bytes \<Rightarrow> bytes) \<Rightarrow> rawDoc list \<Rightarrow> indexFiles \<Rightarrow> storeBlock list \<Rightarrow> bool" where
  "run_leaves u e ds x bs \<longleftrightarrow> (\<exists>w files rms Ds. docs_written u e w bs ds
     \<and> x = \<lparr>xN = wN w, xTokens = wTokens w, xBuckets = numBuckets,
         xbucket = map (\<lambda>b. the (mergeBucket files rms b)) [0..<numBuckets],
         xdocs = w\<lparr>wstoreidx := wstoreidx w @ le_put32 (ucast (wN w)) @ le_bytes 8 (wsoff w)\<rparr>, xidmap = writeIDMap (wall w)\<rparr>
     \<and> runs_at files rms Ds \<and> concat Ds = number_docs u 0 ds)"

lemma chunked_at:
  "chunked i b cs \<Longrightarrow> list_all2 (\<lambda>c es. chunk_docs (cdata c) = Some es) cs dss \<Longrightarrow>
     map cidx cs = [i..<i + length cs] \<and> (\<forall>k < length cs. cbase (cs ! k) = b + of_nat (length (concat (take k dss))))"
proof (induction cs arbitrary: i b dss)
  case (Cons c cs)
  obtain ds dss' where d: "dss = ds # dss'" "chunk_docs (cdata c) = Some ds" "list_all2 (\<lambda>c es. chunk_docs (cdata c) = Some es) cs dss'"
    using Cons.prems(2) by (auto simp: list_all2_Cons1)
  have c: "cidx c = i" "cbase c = b" "chunked (i + 1) (b + of_nat (length ds)) cs" using Cons.prems(1) chunk_docs_count [OF d(2)] by simp_all
  note IH = Cons.IH [OF c(3) d(3)]
  have "cbase ((c # cs) ! k) = b + of_nat (length (concat (take k dss)))" if "k < length (c # cs)" for k
    using that c(2) IH by (cases k) (simp_all add: d(1) add.assoc)
  then show ?case using IH c(1) by (simp add: upt_conv_Cons del: upt_Suc)
qed simp

lemma run_list_zip: "run_list (zip [0..<length rms] rms) = Some rms"
proof -
  have "map (map_of (zip [0..<length rms] rms)) [0..<length (zip [0..<length rms] rms)] = map Some rms"
    using map_of_zip_nth [of "[0..<length rms]" rms] by (intro nth_equalityI) simp_all
  moreover have "those (map Some rms) = Some rms" by (induction rms) simp_all
  ultimately show ?thesis by (simp add: run_list_def)
qed

lemma those_map_Some: "(\<And>x. x \<in> set xs \<Longrightarrow> f x = Some (g x)) \<Longrightarrow> those (map f xs) = Some (map g xs)"
  by (induction xs) auto

lemma mergeRuns_ok:
  assumes "runs_at files rms Ds" "corpus_fits (concat Ds)"
  shows "mergeRuns files rms = Some (map (\<lambda>b. the (mergeBucket files rms b)) [0..<numBuckets])"
  unfolding mergeRuns_def
proof (rule those_map_Some)
  fix b assume "b \<in> set [0..<numBuckets]"
  then show "mergeBucket files rms b = Some (the (mergeBucket files rms b))" using bucket_dict [OF assms, of b] by auto
qed

lemma workers_ready: "j < length (map new_worker [0..<nw]) \<Longrightarrow> wid (map new_worker [0..<nw] ! j) = j \<and> ready (map new_worker [0..<nw] ! j) 0"
  by (simp add: new_worker_def ready_def worker_ok_def numbered_def sized_def stamped_def)

lemma run_index_ok:
  assumes ds: "chunk_docs src = Some ds" and fit: "input_fits u ds" and who: "\<forall>k. who k < nw" and arr: "\<forall>rs. set (arrive rs) = set rs"
  shows "\<exists>x bs. runIndex u e extra nw who arrive src = Some (Inr x) \<and> run_leaves u e ds x bs"
proof -
  let ?cs = "read_chunks extra 0 [] 0 0 src" and ?ws = "map new_worker [0..<nw]"
  obtain dss where d: "chunked 0 0 ?cs" "list_all2 (\<lambda>c es. chunk_docs (cdata c) = Some es) ?cs dss" "concat dss = ds"
    using corpus_docs [OF ds] by blast
  have small: "unat (0 :: 32 word) + length (concat dss) < 2 ^ 32" "\<forall>d \<in> set (concat dss). length (doc_tokens u d) < 2 ^ 32"
    using fit by (simp_all add: d(3) input_fits_def)
  obtain out ws' where o: "run_chunks u e who ?cs ?ws = Some (Inr (out, ws'))" "list_all2 (run_ok u e ws') out (zip ?cs dss)"
    using run_chunks_ok [OF d(1,2) small, of who ?ws e] who workers_ready [of _ nw] by fastforce
  have len: "length dss = length ?cs" "length out = length ?cs" using list_all2_lengthD [OF d(2)] list_all2_lengthD [OF o(2)] by simp_all
  have nth: "run_ok u e ws' (out ! k) (?cs ! k, dss ! k)" if "k < length ?cs" for k
    using o(2) that len by (simp add: list_all2_conv_all_nth)
  note at = chunked_at [OF d(1,2)]
  let ?rs = "map fst out" and ?rms = "map snd out" and ?files = "map wout ws'"
  have "map ridx ?rs = map cidx ?cs" by (rule nth_equalityI) (use nth len in \<open>auto simp: run_ok_def\<close>)
  then have idx: "map ridx ?rs = [0..<length ?rs]" using at len by simp
  have res: "list_all2 (\<lambda>r es. result_ok u e r es) ?rs dss" using nth len by (auto simp: list_all2_conv_all_nth run_ok_def)
  have blk: "blocks_hold e (rblocks (?rs ! k)) (of_nat (length (concat (take k dss)))) (dss ! k)" if "k < length ?rs" for k
    using nth [of k] at that len by (simp add: run_ok_def)
  obtain w bs where w: "writeDocData (arrive ?rs) = Some (w\<lparr>wstoreidx := wstoreidx w @ le_put32 (ucast (wN w)) @ le_bytes 8 (wsoff w)\<rparr>)"
    "docs_written u e w bs ds"
    using writeDocData_ok [OF idx _ res blk, of "arrive ?rs"] arr fit d(3) by (auto simp: input_fits_def)
  define Ds where "Ds = map (\<lambda>(c, ds). number_docs u (cbase c) ds) (zip ?cs dss)"
  have D: "concat Ds = number_docs u 0 ds" unfolding Ds_def run_chunks_docs [OF d(1,2)] d(3) ..
  have runs: "runs_at ?files ?rms Ds"
    using nth len by (auto simp: runs_at_def Ds_def list_all2_conv_all_nth run_ok_def)
  have "map (\<lambda>(r, rm). (ridx r, rm)) out = zip (map ridx ?rs) ?rms" by (rule nth_equalityI) (auto simp: split_beta)
  then have rl: "run_list (map (\<lambda>(r, rm). (ridx r, rm)) out) = Some ?rms" using run_list_zip [of ?rms] by (simp only: idx length_map)
  have mr: "mergeRuns ?files ?rms = Some (map (\<lambda>b. the (mergeBucket ?files ?rms b)) [0..<numBuckets])"
    by (rule mergeRuns_ok [OF runs]) (simp add: D corpus_of_fits [OF fit])
  let ?x = "\<lparr>xN = wN w, xTokens = wTokens w, xBuckets = numBuckets, xbucket = map (\<lambda>b. the (mergeBucket ?files ?rms b)) [0..<numBuckets],
      xdocs = w\<lparr>wstoreidx := wstoreidx w @ le_put32 (ucast (wN w)) @ le_bytes 8 (wsoff w)\<rparr>, xidmap = writeIDMap (wall w)\<rparr>"
  have "runIndex u e extra nw who arrive src = Some (Inr ?x)"
    unfolding runIndex_def o(1) option.case sum.case prod.case w(1) rl mr by simp
  then show ?thesis using w(2) runs D unfolding run_leaves_def by blast
qed

section \<open>Opening the index\<close>

lemma token_count_at: "token_count u ds = length (concat (map (doc_tokens u) ds))"
  by (simp add: token_count_def length_concat comp_def)

definition index_opened :: "unicode \<Rightarrow> (bytes \<Rightarrow> bytes) \<Rightarrow> ('s :: linorder) floats \<Rightarrow> rawDoc list \<Rightarrow> storeBlock list \<Rightarrow> 's index \<Rightarrow> bool" where
  "index_opened u e F ds bs ix \<longleftrightarrow> corpus ix (post_of (number_docs u 0 ds)) \<and> ixn ix = of_nat (length ds)
     \<and> ids ix = map rid ds \<and> dls ix = map (\<lambda>d. of_nat (length (doc_tokens u d))) ds
     \<and> titles ix = concat (map title ds) \<and> titleOff ix = 0 # map of_nat (title_ends ds) \<and> idmap ix = asU32 (writeIDMap (map rid ds))
     \<and> storeIdx ix = concat (map (store_index bs) [0..<length bs]) @ le_put32 (of_nat (length ds)) @ le_bytes 8 (of_nat (length (concat (map sbData bs))))
     \<and> storeFile ix = concat (map sbData bs) \<and> nBlocks ix = length bs \<and> blocks_hold e bs 0 ds
     \<and> (normC1 ix, normC2 ix) = norm_constants F (length ds) (length (concat (map (doc_tokens u) ds)))"

lemma length_store_indices: "length (concat (map (store_index bs) js)) = 12 * length js"
  by (induction js) (simp_all add: store_index_def)

lemma openIndex_ok:
  assumes x: "run_leaves u e ds x bs" and fit: "input_fits u ds"
  shows "\<exists>ix. openIndex F x = Some ix \<and> index_opened u e F ds bs ix"
proof -
  obtain w files rms Ds where w: "docs_written u e w bs ds"
    "x = \<lparr>xN = wN w, xTokens = wTokens w, xBuckets = numBuckets, xbucket = map (\<lambda>b. the (mergeBucket files rms b)) [0..<numBuckets],
       xdocs = w\<lparr>wstoreidx := wstoreidx w @ le_put32 (ucast (wN w)) @ le_bytes 8 (wsoff w)\<rparr>, xidmap = writeIDMap (wall w)\<rparr>"
    "runs_at files rms Ds" "concat Ds = number_docs u 0 ds"
    using x by (auto simp: run_leaves_def)
  note d = w(1) [unfolded docs_written_def]
  have len: "length ds < 2 ^ 27" "length (concat (map (doc_tokens u) ds)) < 2 ^ 56" using fit by (simp_all add: input_fits_def)
  then have un: "unat (wN w) = length ds" "unat (wTokens w) = length (concat (map (doc_tokens u) ds))"
    using d by (simp_all add: unat_of_nat token_count_at)
  have ids: "asU32 (wids w) = map rid ds" "asU32 (wdls w) = map (\<lambda>d. of_nat (length (doc_tokens u d))) ds"
    "asU64 (wtitleoff w) = 0 # map of_nat (title_ends ds)" using d by (simp_all only: asU32_put asU64_put)
  have n12: "length (wstoreidx w @ le_put32 (ucast (wN w)) @ le_bytes 8 (wsoff w)) div 12 - 1 = length bs"
    using d by (simp add: length_store_indices)
  let ?c = "norm_constants F (length ds) (length (concat (map (doc_tokens u) ds)))"
  let ?ix = "\<lparr>ixn = wN w, dicts = map (\<lambda>b. open_dict (the (mergeBucket files rms b))) [0..<numBuckets], ids = map rid ds,
      dls = map (\<lambda>d. of_nat (length (doc_tokens u d))) ds, titles = wtitles w, titleOff = 0 # map of_nat (title_ends ds),
      storeFile = wstore w, storeIdx = wstoreidx w @ le_put32 (ucast (wN w)) @ le_bytes 8 (wsoff w), nBlocks = length bs,
      idmap = asU32 (writeIDMap (wall w)), normC1 = fst ?c, normC2 = snd ?c\<rparr>"
  have o: "openIndex F x = Some ?ix"
    unfolding w(2) openIndex_def Let_def using n12 by (simp add: un ids comp_def)
  have "corpus ?ix (post_of (concat Ds))"
  proof (rule index_corpus [OF w(3)])
    show "corpus_fits (concat Ds)" unfolding w(4) by (rule corpus_of_fits [OF fit])
    show "\<forall>(d, ts) \<in> set (concat Ds). unat d < length (concat Ds)"
      unfolding w(4) number_docs_map using len by (auto simp: unat_of_nat)
  qed (use d in \<open>simp_all add: w(4)\<close>)
  moreover have "ucast (wN w) = (of_nat (length ds) :: 32 word)"
    using d len by (intro unsigned_word_eqI [where ?'a = nat]) (simp add: unsigned_ucast_eq unat_of_nat take_bit_eq_mod)
  ultimately show ?thesis using o d w(4) by (intro exI [of _ ?ix]) (simp add: index_opened_def)
qed

section \<open>What is asked of a document\<close>

text \<open>The words of every positive clause occur in a row, those of a negative one nowhere.\<close>

definition doc_matches :: "clause list \<Rightarrow> bytes list \<Rightarrow> bool" where
  "doc_matches cs toks \<longleftrightarrow> (\<exists>c \<in> set cs. \<not> neg c) \<and> (\<forall>c \<in> set cs. sublist (tokens c) toks = (\<not> neg c))"

lemma sublist_at: "sublist ts toks \<longleftrightarrow> (\<exists>q. q + length ts \<le> length toks \<and> (\<forall>j < length ts. toks ! (q + j) = ts ! j))"
proof
  assume "sublist ts toks"
  then obtain xs ys where "toks = xs @ ts @ ys" by (auto simp: sublist_def)
  then show "\<exists>q. q + length ts \<le> length toks \<and> (\<forall>j < length ts. toks ! (q + j) = ts ! j)"
    by (intro exI [of _ "length xs"]) (simp add: nth_append)
next
  assume "\<exists>q. q + length ts \<le> length toks \<and> (\<forall>j < length ts. toks ! (q + j) = ts ! j)"
  then obtain q where q: "q + length ts \<le> length toks" "\<forall>j < length ts. toks ! (q + j) = ts ! j" by blast
  have "take (length ts) (drop q toks) = ts" by (rule nth_equalityI) (use q in simp_all)
  then have s: "toks = take q toks @ ts @ drop (length ts) (drop q toks)" using append_take_drop_id [of "length ts" "drop q toks"] by simp
  show "sublist ts toks" by (subst s) (rule sublist_appendI)
qed

lemma occs_mem: "q \<in> set (occs t toks) \<longleftrightarrow> q < length toks \<and> toks ! q = t"
  by (auto simp: occs_def)

lemma posting_of_doc:
  assumes fit: "corpus_fits D" and d: "(d, toks) \<in> set D" and t: "t \<in> set toks"
  shows "posting_of (postings_in D t) d = to_posting (d, occs t toks)"
proof -
  have dist: "distinct (map fst D)" using fit by (simp add: corpus_fits_def strict_sorted_iff)
  have "p = to_posting (d, occs t toks)" if "p \<in> set (postings_in D t)" "pdoc p = d" for p
  proof -
    obtain d' ts where p: "(d', ts) \<in> set D" "p = to_posting (d', occs t ts)" using \<open>p \<in> set (postings_in D t)\<close> by (auto simp: postings_doc)
    then have "d' = d" using \<open>pdoc p = d\<close> by (simp add: to_posting_def)
    then have "ts = toks" using eq_key_imp_eq_value [OF dist] p(1) d by blast
    then show ?thesis using p(2) \<open>d' = d\<close> by simp
  qed
  note all = this
  have "to_posting (d, occs t toks) \<in> set (filter (\<lambda>p. pdoc p = d) (postings_in D t))"
    using d t by (auto simp: postings_doc to_posting_def)
  then have "filter (\<lambda>p. pdoc p = d) (postings_in D t) \<noteq> []" by (metis empty_iff empty_set)
  then have "hd (filter (\<lambda>p. pdoc p = d) (postings_in D t)) \<in> set (filter (\<lambda>p. pdoc p = d) (postings_in D t))" by (rule hd_in_set)
  then show ?thesis unfolding posting_of_def using all by simp
qed

lemma phrase_nat:
  assumes "ts \<noteq> []"
  shows "(\<exists>p. \<forall>j < length ts. \<exists>q < length toks. p + int j = int q \<and> toks ! q = ts ! j)
    \<longleftrightarrow> (\<exists>q. q + length ts \<le> length toks \<and> (\<forall>j < length ts. toks ! (q + j) = ts ! j))"
proof
  assume "\<exists>p. \<forall>j < length ts. \<exists>q < length toks. p + int j = int q \<and> toks ! q = ts ! j"
  then obtain p where p: "\<And>j. j < length ts \<Longrightarrow> \<exists>q < length toks. p + int j = int q \<and> toks ! q = ts ! j" by blast
  obtain q0 where q0: "p = int q0" using p [of 0] assms by auto
  have at: "q0 + j < length toks \<and> toks ! (q0 + j) = ts ! j" if j: "j < length ts" for j
  proof -
    obtain q where q: "q < length toks" "p + int j = int q" "toks ! q = ts ! j" using p [OF j] by blast
    then have "q = q0 + j" using q0 by simp
    then show ?thesis using q by simp
  qed
  have "q0 + length ts \<le> length toks" using at [of "length ts - 1"] assms by (cases ts) auto
  then show "\<exists>q. q + length ts \<le> length toks \<and> (\<forall>j < length ts. toks ! (q + j) = ts ! j)" using at by blast
next
  assume "\<exists>q. q + length ts \<le> length toks \<and> (\<forall>j < length ts. toks ! (q + j) = ts ! j)"
  then obtain q where q: "q + length ts \<le> length toks" "\<forall>j < length ts. toks ! (q + j) = ts ! j" by blast
  have "\<exists>q' < length toks. int q + int j = int q' \<and> toks ! q' = ts ! j" if "j < length ts" for j
    by (rule exI [of _ "q + j"]) (use q that in simp)
  then show "\<exists>p. \<forall>j < length ts. \<exists>q < length toks. p + int j = int q \<and> toks ! q = ts ! j" by blast
qed

lemma clause_holds_doc:
  assumes fit: "corpus_fits D" and d: "(d, toks) \<in> set D" and ts: "ts \<noteq> []"
  shows "clause_holds (post_of D) d ts \<longleftrightarrow> sublist ts toks"
proof -
  have dist: "distinct (map fst D)" using fit by (simp add: corpus_fits_def strict_sorted_iff)
  have l: "length toks < 2 ^ 32" using fit d by (auto simp: corpus_fits_def)
  have here: "(\<exists>ps. post_of D t = Some ps \<and> d \<in> docs_of ps) \<longleftrightarrow> t \<in> set toks" for t
  proof
    assume "\<exists>ps. post_of D t = Some ps \<and> d \<in> docs_of ps"
    then obtain p where "p \<in> set (postings_in D t)" "pdoc p = d" by (auto simp: post_of_def docs_of_def split: if_splits)
    then obtain d' ts where "(d', ts) \<in> set D" "t \<in> set ts" "d' = d" by (auto simp: postings_doc to_posting_def)
    then show "t \<in> set toks" using eq_key_imp_eq_value [OF dist] d by blast
  next
    assume t: "t \<in> set toks"
    then have "to_posting (d, occs t toks) \<in> set (postings_in D t)" "t \<in> set (all_terms D)" using d by (auto simp: postings_doc, force simp: all_terms_def)
    then show "\<exists>ps. post_of D t = Some ps \<and> d \<in> docs_of ps" by (force simp: post_of_def docs_of_def to_posting_def)
  qed
  have ps: "positions (posting_of (the (post_of D t)) d) = map int (occs t toks)" if "t \<in> set toks" for t
  proof -
    have "post_of D t \<noteq> None" using here [of t] that by auto
    then have "post_of D t = Some (postings_in D t)" by (simp add: post_of_def split: if_splits)
    then show ?thesis using posting_of_doc [OF fit d that] positions_at [OF l] by simp
  qed
  have ph: "token_phrase (post_of D) d ts \<longleftrightarrow> sublist ts toks" if "set ts \<subseteq> set toks"
  proof -
    have "p + int j \<in> set (positions (posting_of (the (post_of D (ts ! j))) d)) \<longleftrightarrow> (\<exists>q < length toks. p + int j = int q \<and> toks ! q = ts ! j)" if "j < length ts" for p j
    proof -
      have "ts ! j \<in> set toks" using \<open>set ts \<subseteq> set toks\<close> nth_mem [OF that] by blast
      from ps [OF this] show ?thesis by (auto simp: occs_mem)
    qed
    then have "token_phrase (post_of D) d ts \<longleftrightarrow> (\<exists>p. \<forall>j < length ts. \<exists>q < length toks. p + int j = int q \<and> toks ! q = ts ! j)"
      by (simp add: token_phrase_def)
    also have "\<dots> \<longleftrightarrow> (\<exists>q. q + length ts \<le> length toks \<and> (\<forall>j < length ts. toks ! (q + j) = ts ! j))"
      by (rule phrase_nat [OF ts])
    finally show ?thesis by (simp only: sublist_at)
  qed
  have one: "length ts = 1 \<Longrightarrow> set ts \<subseteq> set toks \<Longrightarrow> sublist ts toks"
    by (cases ts) (auto dest!: split_list simp: sublist_def)
  show ?thesis unfolding clause_holds_def here using ph one set_mono_sublist [of ts toks] by blast
qed

definition matching_docs :: "unicode \<Rightarrow> rawDoc list \<Rightarrow> clause list \<Rightarrow> nat list" where
  "matching_docs u ds cs = filter (\<lambda>k. doc_matches cs (doc_tokens u (ds ! k))) [0..<length ds]"

lemma answers_docs:
  assumes fit: "input_fits u ds"
  shows "{d. answers (post_of (number_docs u 0 ds)) (parseQuery u q) d} = of_nat ` set (matching_docs u ds (parseQuery u q))"
proof (rule set_eqI, unfold mem_Collect_eq)
  fix d
  let ?D = "number_docs u 0 ds" and ?cs = "parseQuery u q"
  note f = corpus_of_fits [OF fit]
  have at: "answers (post_of ?D) ?cs (of_nat k) \<longleftrightarrow> doc_matches ?cs (doc_tokens u (ds ! k))" if k: "k < length ds" for k
  proof -
    have "(of_nat k, doc_tokens u (ds ! k)) \<in> set ?D" using number_docs_nth [OF k, of u] k by (metis length_number_docs nth_mem)
    from clause_holds_doc [OF f this] show ?thesis using parse_tokens by (auto simp: answers_def doc_matches_def)
  qed
  show "answers (post_of ?D) ?cs d \<longleftrightarrow> d \<in> of_nat ` set (matching_docs u ds ?cs)"
  proof
    assume a: "answers (post_of ?D) ?cs d"
    then obtain c where c: "c \<in> set ?cs" "clause_holds (post_of ?D) d (tokens c)" by (auto simp: answers_def)
    have "tokens c \<noteq> []" using parse_tokens [OF c(1)] by simp
    then obtain t where "t \<in> set (tokens c)" by (cases "tokens c") auto
    then obtain p where "p \<in> set (postings_in ?D t)" "pdoc p = d" using c(2)
      by (auto simp: clause_holds_def post_of_def docs_of_def split: if_splits)
    then obtain ts where "(d, ts) \<in> set ?D" by (auto simp: postings_doc to_posting_def)
    then obtain k where "k < length ds" "d = of_nat k" by (auto simp: number_docs_map)
    then show "d \<in> of_nat ` set (matching_docs u ds ?cs)" using a at by (auto simp: matching_docs_def)
  qed (use at in \<open>auto simp: matching_docs_def\<close>)
qed

section \<open>The score of a document\<close>

text \<open>BM25 over the tokens of the documents: every distinct term of the positive clauses contributes.\<close>

definition doc_freq :: "unicode \<Rightarrow> rawDoc list \<Rightarrow> bytes \<Rightarrow> nat" where
  "doc_freq u ds t = length (filter (\<lambda>d. t \<in> set (doc_tokens u d)) ds)"

definition term_score :: "unicode \<Rightarrow> ('s :: linorder) floats \<Rightarrow> rawDoc list \<Rightarrow> rawDoc \<Rightarrow> bytes \<Rightarrow> 's" where
  "term_score u F ds d t =
     (let n = of_uint F (length ds); df = of_uint F (doc_freq u ds t); half = lit F 5 10;
          w = flog F (fadd F (lit F 1 1) (fdiv F (fadd F (fsub F n df) half) (fadd F df half)));
          c = norm_constants F (length ds) (length (concat (map (doc_tokens u) ds)));
          norm = fadd F (fst c) (fmul F (snd c) (of_uint F (length (doc_tokens u d))));
          tf = of_uint F (count_list (doc_tokens u d) t)
      in fdiv F (fmul F (fmul F w tf) (lit F 22 10)) (fadd F tf norm))"

definition bm25 :: "unicode \<Rightarrow> ('s :: linorder) floats \<Rightarrow> rawDoc list \<Rightarrow> clause list \<Rightarrow> rawDoc \<Rightarrow> 's" where
  "bm25 u F ds cs d = foldl (\<lambda>s t. fadd F s (term_score u F ds d t)) (of_uint F 0) (uniq [] (concat (pos_tokens cs)))"

definition ranked :: "unicode \<Rightarrow> ('s :: linorder) floats \<Rightarrow> rawDoc list \<Rightarrow> clause list \<Rightarrow> nat \<Rightarrow> 's hit" where
  "ranked u F ds cs k = \<lparr>score = bm25 u F ds cs (ds ! k), hid = unat (rid (ds ! k)), hdoc = k\<rparr>"

lemma docs_with_freq: "length (docs_with t (number_docs u n ds)) = doc_freq u ds t"
  by (induction ds arbitrary: n) (auto simp: docs_with_def doc_freq_def)

lemma scores_of_fold:
  "(\<And>t. t \<in> set us \<Longrightarrow> length (ppos (posting_of (the (post t)) d)) = N t) \<Longrightarrow>
     scores_of F norm (map w us) (posts post us) d s
       = foldl (\<lambda>s t. fadd F s (fdiv F (fmul F (fmul F (w t) (of_uint F (N t))) (lit F 22 10)) (fadd F (of_uint F (N t)) norm))) s us"
  by (induction us arbitrary: s) (simp_all add: posts_def Let_def)

lemma doc_hit_ranked:
  assumes ix: "index_opened u e F ds bs ix" and fit: "input_fits u ds" and k: "k \<in> set (matching_docs u ds cs)"
  shows "doc_hit F ix (post_of (number_docs u 0 ds)) cs (of_nat k) = ranked u F ds cs k"
proof -
  let ?D = "number_docs u 0 ds" and ?us = "uniq [] (concat (pos_tokens cs))" and ?d = "of_nat k :: 32 word"
  note f = corpus_of_fits [OF fit]
  have kn: "k < length ds" and m: "doc_matches cs (doc_tokens u (ds ! k))" using k by (auto simp: matching_docs_def)
  have len: "length ds < 2 ^ 27" "length (doc_tokens u (ds ! k)) < 2 ^ 32" using fit kn by (simp_all add: input_fits_def)
  have un: "unat ?d = k" "unat (ixn ix) = length ds" using kn len ix by (simp_all add: unat_of_nat index_opened_def)
  have dD: "(?d, doc_tokens u (ds ! k)) \<in> set ?D" using number_docs_nth [OF kn, of u] kn by (metis length_number_docs nth_mem)
  have us: "t \<in> set (doc_tokens u (ds ! k))" if "t \<in> set ?us" for t
    using that m set_mono_sublist by (fastforce simp: set_uniq pos_tokens_def doc_matches_def)
  have post: "post_of ?D t = Some (postings_in ?D t)" if "t \<in> set ?us" for t
    using us [OF that] dD by (force simp: post_of_def all_terms_def)
  have tf: "length (ppos (posting_of (the (post_of ?D t)) ?d)) = count_list (doc_tokens u (ds ! k)) t" if "t \<in> set ?us" for t
    using posting_of_doc [OF f dD us [OF that]] post [OF that] by (simp add: to_posting_def length_occs)
  have df: "unat (of_nat (length (the (post_of ?D t))) :: 32 word) = doc_freq u ds t" if "t \<in> set ?us" for t
  proof -
    have "doc_freq u ds t \<le> length ds" by (simp add: doc_freq_def)
    then show ?thesis using post [OF that] len docs_with_freq [of t u 0 ds] by (simp add: postings_in_def unat_of_nat)
  qed
  have dl: "dls ix ! k = of_nat (length (doc_tokens u (ds ! k)))" "ids ix ! k = rid (ds ! k)" using ix kn by (simp_all add: index_opened_def)
  have dl': "unat (dls ix ! k) = length (doc_tokens u (ds ! k))" using dl(1) len(2) by (simp add: unat_of_nat)
  have c: "normC1 ix = fst (norm_constants F (length ds) (length (concat (map (doc_tokens u) ds))))"
    "normC2 ix = snd (norm_constants F (length ds) (length (concat (map (doc_tokens u) ds))))" using ix unfolding index_opened_def by (metis fst_conv, metis snd_conv)
  have "doc_score F ix (post_of ?D) cs ?d = bm25 u F ds cs (ds ! k)"
    unfolding doc_score_def Let_def bm25_def
    by (subst scores_of_fold, erule tf, rule foldl_cong) (simp_all add: term_score_def idf_of_def Let_def un df dl' c)
  then show ?thesis by (simp add: doc_hit_def ranked_def un dl(2))
qed

section \<open>Claims\<close>

lemma matching_distinct: "input_fits u ds \<Longrightarrow> inj_on (of_nat :: nat \<Rightarrow> 32 word) (set (matching_docs u ds cs))"
proof (rule inj_onI)
  fix k m
  assume "input_fits u ds" "k \<in> set (matching_docs u ds cs)" "m \<in> set (matching_docs u ds cs)" "(of_nat k :: 32 word) = of_nat m"
  then have "k < 2 ^ 32" "m < 2 ^ 32" "unat (of_nat k :: 32 word) = unat (of_nat m :: 32 word)" by (auto simp: matching_docs_def input_fits_def)
  then show "k = m" by (simp add: unat_of_nat)
qed

text \<open>A corpus of two lines.\<close>

definition two_lines :: bytes where
  "two_lines = print_doc 7 [Lit CHR ''a''] [Lit CHR ''b''] @ CHR 0x0A # print_doc 5 [Lit CHR ''c''] [Lit CHR ''a'', Lit CHR '' '', Lit CHR ''b'']"

definition two_docs :: "rawDoc list" where
  "two_docs = [\<lparr>rid = 7, title = ''a'', dtext = ''b'', titleEsc = False, textEsc = False\<rparr>,
     \<lparr>rid = 5, title = ''c'', dtext = ''a b'', titleEsc = False, textEsc = False\<rparr>]"

lemma two_docs_lines: "chunk_docs two_lines = Some two_docs"
  by code_simp

lemma two_docs_tokens: "map (doc_tokens ascii_unicode) two_docs = [[''a'', ''b''], [''c'', ''a'', ''b'']]"
  by code_simp

lemma two_docs_fit: "input_fits ascii_unicode two_docs"
proof -
  have "length (doc_tokens ascii_unicode d) < 2 ^ 32" if "d \<in> set two_docs" for d
  proof -
    have "doc_tokens ascii_unicode d \<in> set (map (doc_tokens ascii_unicode) two_docs)" using that by simp
    then show ?thesis unfolding two_docs_tokens by auto
  qed
  then show ?thesis by (auto simp: input_fits_def two_docs_tokens, simp_all add: two_docs_def)
qed

text \<open>The blocks of texts do not outgrow the offsets into their file.\<close>

lemma blocks_bound:
  "blocks_hold e bs n ds \<Longrightarrow> \<forall>b. length (e b) \<le> 2 * length b + 2 ^ 17 \<Longrightarrow>
     length (concat (map sbData bs)) \<le> 2 * length (concat (map text_entry ds)) + 2 ^ 17 * length ds"
proof (induction e bs n ds rule: blocks_hold.induct)
  case (2 e b bs n ds)
  obtain xs ys where d: "ds = xs @ ys" "xs \<noteq> []" "sbData b = e (concat (map text_entry xs))" "blocks_hold e bs (n + of_nat (length xs)) ys"
    using 2(2) by auto
  have "length (sbData b) \<le> 2 * length (concat (map text_entry xs)) + 2 ^ 17 * length xs"
    using spec [OF 2(3), of "concat (map text_entry xs)"] d(2) unfolding d(3) by (cases xs) simp_all
  then show ?case using "2.IH" [OF d(4) 2(3)] d(1) by simp
qed simp

lemma text_entries_bound: "length (concat (map text_entry ds)) \<le> length (concat (map dtext ds)) + 10 * length ds"
proof (induction ds)
  case (Cons d ds)
  then show ?case using length_enc [of "of_nat (length (dtext d))"] by (simp add: text_entry_def)
qed simp

lemma store_small:
  assumes "blocks_hold e bs 0 ds" "\<forall>b. length (e b) \<le> 2 * length b + 2 ^ 17" "length ds < 2 ^ 27" "length (concat (map dtext ds)) < 2 ^ 60"
  shows "length (concat (map sbData bs)) < 2 ^ 64"
  using blocks_bound [OF assms(1,2)] text_entries_bound [of ds] assms(3,4) by simp

lemma text_small: "length (concat (map dtext ds)) < 2 ^ 60 \<Longrightarrow> \<forall>d \<in> set ds. length (dtext d) < 2 ^ 64"
proof
  fix d assume d: "d \<in> set ds" and l: "length (concat (map dtext ds)) < 2 ^ 60"
  have "length (dtext d) \<le> length (concat (map dtext ds))" by (rule length_le_concat) (use d in simp)
  then show "length (dtext d) < 2 ^ 64" using l by simp
qed

text \<open>
  \<^bold>\<open>C31\<close> Indexing and then searching answers from the documents. Take any corpus file whose lines are documents
  within the limits of the format, however it is read in pieces, however its chunks are spread over the workers and
  in whatever order their results arrive. Then \<open>runIndex\<close> succeeds, \<open>openIndex\<close> opens what it wrote, and \<open>search\<close>
  returns the number of documents whose tokens contain the words of every positive clause in a row and of no
  negative clause, with the best \<open>k\<close> of them by their BM25 scores, ties broken by identifier, best first.
\<close>
theorem index_then_search:
  fixes F :: "('s :: linorder) floats"
  assumes "chunk_docs src = Some ds" and "input_fits u ds" and "\<forall>k. who k < nw" and "\<forall>rs. set (arrive rs) = set rs"
    and "sorts srt" and "sorts_hits sortHits" and "0 < k" and "length q < 2 ^ 32"
  shows "\<exists>x ix hits. runIndex u e extra nw who arrive src = Some (Inr x) \<and> openIndex F x = Some ix
    \<and> search u F srt sortHits procs ix q k = Some (length (matching_docs u ds (parseQuery u q)), hits)
    \<and> best k (mset (map (ranked u F ds (parseQuery u q)) (matching_docs u ds (parseQuery u q)))) (mset hits)
    \<and> sorted_wrt (\<lambda>a b. \<not> worse a b) hits"
proof -
  let ?cs = "parseQuery u q" and ?post = "post_of (number_docs u 0 ds)"
  let ?M = "matching_docs u ds ?cs" and ?A = "{d. answers (post_of (number_docs u 0 ds)) (parseQuery u q) d}"
  obtain x bs where x: "runIndex u e extra nw who arrive src = Some (Inr x)" "run_leaves u e ds x bs"
    using run_index_ok [OF assms(1-4)] by blast
  obtain ix where ix: "openIndex F x = Some ix" "index_opened u e F ds bs ix" using openIndex_ok [OF x(2) assms(2)] by blast
  have c: "corpus ix ?post" using ix(2) by (simp add: index_opened_def)
  obtain hits where h: "search u F srt sortHits procs ix q k = Some (card ?A, hits)"
    "best k (image_mset (doc_hit F ix ?post ?cs) (mset_set ?A)) (mset hits)" "sorted_wrt (\<lambda>a b. \<not> worse a b) hits"
    using search_hits [OF c assms(5-8), of u F procs] by blast
  have A: "?A = of_nat ` set ?M" by (rule answers_docs [OF assms(2)])
  note inj = matching_distinct [OF assms(2), of ?cs]
  have d: "distinct ?M" by (simp add: matching_docs_def)
  have "card ?A = length ?M" unfolding A card_image [OF inj] by (rule distinct_card [OF d])
  moreover have "image_mset (doc_hit F ix ?post ?cs) (mset_set ?A) = mset (map (ranked u F ds ?cs) ?M)"
  proof -
    have "image_mset (doc_hit F ix ?post ?cs) (mset_set ?A) = image_mset (\<lambda>k. doc_hit F ix ?post ?cs (of_nat k)) (mset ?M)"
      unfolding A image_mset_mset_set [OF inj, symmetric] mset_set_set [OF d] by (simp add: multiset.map_comp comp_def)
    also have "\<dots> = image_mset (ranked u F ds ?cs) (mset ?M)"
      by (rule image_mset_cong) (simp add: doc_hit_ranked [OF ix(2) assms(2)])
    finally show ?thesis by simp
  qed
  ultimately show ?thesis using x(1) ix(1) h by metis
qed

theorem index_then_search_witness:
  "\<exists>x ix hits. runIndex ascii_unicode id (\<lambda>it. 3) 2 (\<lambda>c. c mod 2) rev two_lines = Some (Inr x) \<and> openIndex tiny_floats x = Some ix
    \<and> search ascii_unicode tiny_floats (\<lambda>ds. [0..<length ds]) insertion_sort 4 ix ''a -c'' 3
        = Some (length (matching_docs ascii_unicode two_docs (parseQuery ascii_unicode ''a -c'')), hits)
    \<and> best 3 (mset (map (ranked ascii_unicode tiny_floats two_docs (parseQuery ascii_unicode ''a -c''))
        (matching_docs ascii_unicode two_docs (parseQuery ascii_unicode ''a -c'')))) (mset hits)
    \<and> sorted_wrt (\<lambda>a b. \<not> worse a b) hits"
  by (rule index_then_search [OF two_docs_lines two_docs_fit _ _ _ insertion_sort_ok]) (simp_all add: sorts_def)

text \<open>
  \<^bold>\<open>C33\<close> The documents are kept. For every document of an indexed corpus, under a decoder that reads back what the encoder
  wrote and an encoder that at most doubles a block, up to a constant, the index returns its identifier, its title and its text as they stand in the line, and \<open>docByID\<close> finds the
  first document of the corpus with a given identifier, or reports the identifier as unknown.
\<close>
theorem index_keeps_documents:
  fixes F :: "('s :: linorder) floats"
  assumes "chunk_docs src = Some ds" and "input_fits u ds" and "\<forall>k. who k < nw" and "\<forall>rs. set (arrive rs) = set rs"
    and "\<forall>b. decodeAll (e b) = Some b" and "\<forall>b. length (e b) \<le> 2 * length b + 2 ^ 17" and "length (concat (map dtext ds)) < 2 ^ 60"
  shows "\<exists>x ix. runIndex u e extra nw who arrive src = Some (Inr x) \<and> openIndex F x = Some ix
    \<and> (\<forall>k < length ds. ids ix ! k = rid (ds ! k) \<and> title_of ix (of_nat k) = Some (title (ds ! k))
         \<and> docText decodeAll ix (of_nat k) = Some (Some (dtext (ds ! k))))
    \<and> (\<forall>i. docByID ix i = Some (if i \<in> rid ` set ds then Some (of_nat (first_doc (map rid ds) i)) else None))"
proof -
  obtain x bs where x: "runIndex u e extra nw who arrive src = Some (Inr x)" "run_leaves u e ds x bs"
    using run_index_ok [OF assms(1-4)] by blast
  obtain ix where ix: "openIndex F x = Some ix" "index_opened u e F ds bs ix" using openIndex_ok [OF x(2) assms(2)] by blast
  note o = ix(2) [unfolded index_opened_def]
  have b: "blocks_hold e bs 0 ds" using o by blast
  have len: "length ds < 2 ^ 27" "length (concat (map title ds)) < 2 ^ 32" using assms(2) by (simp_all add: input_fits_def)
  have at: "ids ix ! k = rid (ds ! k) \<and> title_of ix (of_nat k) = Some (title (ds ! k))
      \<and> docText decodeAll ix (of_nat k) = Some (Some (dtext (ds ! k)))" if k: "k < length ds" for k
  proof -
    have u: "unat (of_nat k :: 32 word) = k" using k len by (simp add: unat_of_nat)
    have "title_of ix (of_nat k) = Some (title (ds ! unat (of_nat k :: 32 word)))"
      by (rule title_at) (use o u k len in simp_all)
    moreover have "docText decodeAll ix (of_nat k) = Some (Some (dtext (ds ! unat (of_nat k :: 32 word))))"
      by (rule docText_at [where bs = bs and e = e]) (use o b u k len assms(5) store_small [OF b assms(6) len(1) assms(7)] text_small [OF assms(7)] in simp_all)
    ultimately show ?thesis using o k u by simp
  qed
  have "docByID ix i = Some (if i \<in> set (map rid ds) then Some (of_nat (first_doc (map rid ds) i)) else None)" for i
    by (rule docByID_at) (use o len in simp_all)
  then show ?thesis using x(1) ix(1) at by (intro exI conjI allI impI) auto
qed

theorem index_keeps_documents_witness:
  "\<exists>x ix. runIndex ascii_unicode id (\<lambda>it. 3) 2 (\<lambda>c. c mod 2) rev two_lines = Some (Inr x) \<and> openIndex tiny_floats x = Some ix
    \<and> (\<forall>k < length two_docs. ids ix ! k = rid (two_docs ! k) \<and> title_of ix (of_nat k) = Some (title (two_docs ! k))
         \<and> docText Some ix (of_nat k) = Some (Some (dtext (two_docs ! k))))
    \<and> (\<forall>i. docByID ix i = Some (if i \<in> rid ` set two_docs then Some (of_nat (first_doc (map rid two_docs) i)) else None))"
proof (rule index_keeps_documents [OF two_docs_lines two_docs_fit])
  show "length (concat (map dtext two_docs)) < 2 ^ 60" by (simp add: two_docs_def)
qed simp_all



end
