(* ===== verification/Spec2Isabelle.thy ===== *)
theory Spec2Isabelle
  imports Server_Steps Command_Claims Search_Complete
begin

text \<open>
  Verification of the Go programs of the repository; this first part covers mini-redis.
\<close>

end
